(* ===== verification/Prelude.thy ===== *)
theory Prelude
  imports Main "HOL-Library.Word"
begin

text \<open>
  Shared vocabulary of the development.

  \<^item> 32-bit unsigned counters and sizes (the kernel's \<open>UNSIGNED\<close>) are kept as \<open>nat\<close> below \<open>2 ^ 32\<close>;
    every increment, decrement, sum and difference the C code performs on them goes through
    \<open>inc32\<close>, \<open>dec32\<close>, \<open>add32\<close>, \<open>sub32\<close>, which write the wrap-around out;
    \<open>inc8\<close>, \<open>dec8\<close> do so for counters of type \<open>DATA_ELEMENT\<close>.
  \<^item> Addresses are natural numbers; \<open>0\<close> is \<open>NU_NULL\<close>.
  \<^item> The status codes and the suspension codes of the kernel are datatypes with the C names.
  \<^item> \<open>priority_place\<close> and \<open>list_head\<close> are the list-level readings of the kernel's ring operations;
    theory \<open>Common_Services\<close> proves that the pointer code implements them.
\<close>

section \<open>Addresses and machine arithmetic\<close>

type_synonym addr = nat

abbreviation (input) NU_NULL :: addr where "NU_NULL \<equiv> 0"

definition inc32 :: "nat \<Rightarrow> nat" where
  "inc32 n = (n + 1) mod 4294967296"

definition dec32 :: "nat \<Rightarrow> nat" where
  "dec32 n = (n + 4294967295) mod 4294967296"

definition inc8 :: "nat \<Rightarrow> nat" where
  "inc8 n = (n + 1) mod 256"

definition dec8 :: "nat \<Rightarrow> nat" where
  "dec8 n = (n + 255) mod 256"

definition add32 :: "nat \<Rightarrow> nat \<Rightarrow> nat" where
  "add32 a b = (a + b) mod 4294967296"

definition sub32 :: "nat \<Rightarrow> nat \<Rightarrow> nat" where
  "sub32 a b = (a + (4294967296 - b mod 4294967296)) mod 4294967296"

named_theorems u32_simps \<open>32-bit arithmetic that does not wrap\<close>

lemma inc32_eq [u32_simps]: "n < 4294967295 \<Longrightarrow> inc32 n = n + 1"
  by (simp add: inc32_def)

lemma dec32_eq [u32_simps]: "0 < n \<Longrightarrow> n < 4294967296 \<Longrightarrow> dec32 n = n - 1"
proof -
  assume "0 < n" "n < 4294967296"
  then have "n + 4294967295 = (n - 1) + 4294967296" by simp
  then have "(n + 4294967295) mod 4294967296 = (n - 1) mod 4294967296" by (metis mod_add_self2)
  with \<open>n < 4294967296\<close> show ?thesis by (simp add: dec32_def)
qed

lemma inc8_eq [u32_simps]: "n < 255 \<Longrightarrow> inc8 n = n + 1"
  by (simp add: inc8_def)

lemma dec8_eq [u32_simps]: "0 < n \<Longrightarrow> n < 256 \<Longrightarrow> dec8 n = n - 1"
proof -
  assume "0 < n" "n < 256"
  then have "n + 255 = (n - 1) + 256" by simp
  then have "(n + 255) mod 256 = (n - 1) mod 256" by (metis mod_add_self2)
  with \<open>n < 256\<close> show ?thesis by (simp add: dec8_def)
qed

lemma add32_eq [u32_simps]: "a + b < 4294967296 \<Longrightarrow> add32 a b = a + b"
  by (simp add: add32_def)

lemma sub32_eq [u32_simps]: "b \<le> a \<Longrightarrow> a < 4294967296 \<Longrightarrow> sub32 a b = a - b"
proof -
  assume ab: "b \<le> a" "a < 4294967296"
  then have "a + (4294967296 - b) = (a - b) + 4294967296" by simp
  then have "(a + (4294967296 - b)) mod 4294967296 = (a - b) mod 4294967296" by (metis mod_add_self2)
  with ab show ?thesis by (simp add: sub32_def)
qed

lemma u32_bounds [simp]:
  "inc32 n < 4294967296" "dec32 n < 4294967296" "add32 a b < 4294967296" "sub32 a b < 4294967296"
  by (simp_all add: inc32_def dec32_def add32_def sub32_def)

lemma add32_0 [simp]: "a < 4294967296 \<Longrightarrow> add32 a 0 = a"
  by (simp add: add32_def)

lemma dec32_funpow: "n \<le> m \<Longrightarrow> (dec32 ^^ n) (m mod 4294967296) = (m - n) mod 4294967296"
proof (induction n)
  case (Suc n)
  then obtain k where k: "m - n = Suc k" "m - Suc n = k" by (metis Suc_diff_Suc Suc_le_lessD)
  have "(Suc k mod 4294967296 + 4294967295) mod 4294967296 = (k + 1 * 4294967296) mod 4294967296"
    unfolding mod_add_left_eq by simp
  then show ?case using Suc k by (simp add: dec32_def)
qed simp

section \<open>Status and suspension codes\<close>

datatype status =
    NU_SUCCESS
  | NU_TIMEOUT
  | NU_INVALID_QUEUE | NU_INVALID_MEMORY | NU_NOT_ALIGNED | NU_INVALID_SIZE
  | NU_INVALID_MESSAGE | NU_INVALID_SUSPEND | NU_INVALID_POINTER
  | NU_QUEUE_FULL | NU_QUEUE_EMPTY | NU_QUEUE_DELETED | NU_QUEUE_RESET
  | NU_INVALID_SEMAPHORE | NU_UNAVAILABLE | NU_SEMAPHORE_DELETED | NU_SEMAPHORE_RESET
  | NU_SEMAPHORE_COUNT_ROLLOVER | NU_SEMAPHORE_ALREADY_OWNED
  | NU_SEMAPHORE_INVALID_OWNER | NU_SEMAPHORE_OWNER_DEAD | NU_INVALID_COUNT
  | NU_INVALID_GROUP | NU_INVALID_OPERATION | NU_NOT_PRESENT | NU_GROUP_DELETED
  | NU_INVALID_POOL | NU_NO_PARTITION | NU_POOL_DELETED | NU_NO_MEMORY
  | NU_INVALID_TASK | NU_INVALID_RESUME | NU_INVALID_PREEMPT | NU_INVALID_PRIORITY
  | NU_INVALID_OPTIONS | NU_INVALID_TIMER | NU_INVALID_FUNCTION | NU_INVALID_ENABLE | NU_NOT_DISABLED
  | NU_INVALID_ENTRY | NU_INVALID_START | NU_NOT_TERMINATED | NU_INVALID_DELETE
  | NU_INVALID_HISR | NU_HISR_ACTIVATION_COUNT_ERROR
  | NU_TIMER_PAUSED | NU_INVALID_PAUSE_TIMER | NU_INVALID_RESUME_TIMER

datatype suspend_type =
    NU_READY | NU_PURE_SUSPEND | NU_SLEEP_SUSPEND | NU_MAILBOX_SUSPEND | NU_QUEUE_SUSPEND
  | NU_PIPE_SUSPEND | NU_SEMAPHORE_SUSPEND | NU_EVENT_SUSPEND | NU_PARTITION_SUSPEND
  | NU_MEMORY_SUSPEND | NU_FINISHED | NU_TERMINATED | NU_DEBUG_SUSPEND

text \<open>
  The macro \<open>NU_ERROR_CHECK(expression, status, err)\<close> of \<open>plus_core.h\<close>: a failed check only replaces
  a status that is still \<open>NU_SUCCESS\<close>, so the first failing check of a sequence wins.
\<close>

definition NU_ERROR_CHECK :: "bool \<Rightarrow> status \<Rightarrow> status \<Rightarrow> status" where
  "NU_ERROR_CHECK expression err status = (if status = NU_SUCCESS \<and> expression then err else status)"

text \<open>A sequence of checks: the first error, or \<open>NU_SUCCESS\<close> when none fails.\<close>

fun error_checks :: "(bool \<times> status) list \<Rightarrow> status \<Rightarrow> status" where
  "error_checks [] status = status"
| "error_checks ((b, e) # cs) status = error_checks cs (NU_ERROR_CHECK b e status)"

lemma error_checks_stuck: "s \<noteq> NU_SUCCESS \<Longrightarrow> error_checks cs s = s"
  by (induction cs s rule: error_checks.induct) (auto simp: NU_ERROR_CHECK_def)

lemma error_checks_Cons [simp]:
  "error_checks ((b, e) # cs) NU_SUCCESS =
     (if b \<and> e \<noteq> NU_SUCCESS then e else error_checks cs NU_SUCCESS)"
  by (auto simp: NU_ERROR_CHECK_def error_checks_stuck)

lemmas error_checks_Cons_raw = error_checks.simps(2)
declare error_checks.simps(2) [simp del]

lemma error_checks_success:
  "(\<And>b e. (b, e) \<in> set cs \<Longrightarrow> e \<noteq> NU_SUCCESS) \<Longrightarrow>
   error_checks cs NU_SUCCESS = NU_SUCCESS \<longleftrightarrow> (\<forall>(b, e) \<in> set cs. \<not> b)"
proof (induction cs)
  case Nil
  show ?case by simp
next
  case (Cons c cs)
  obtain b e where c: "c = (b, e)" by force
  have e: "e \<noteq> NU_SUCCESS" using Cons.prems[of b e] c by simp
  have "error_checks cs NU_SUCCESS = NU_SUCCESS \<longleftrightarrow> (\<forall>(b, e) \<in> set cs. \<not> b)"
    by (rule Cons.IH) (use Cons.prems in auto)
  then show ?case using e by (auto simp: c)
qed

section \<open>List-level readings of the ring operations\<close>

definition list_head :: "'a list \<Rightarrow> 'a option" where
  "list_head xs = (case xs of [] \<Rightarrow> None | x # _ \<Rightarrow> Some x)"

lemma list_head_simps [simp]:
  "list_head [] = None" "list_head (x # xs) = Some x"
  by (simp_all add: list_head_def)

lemma list_head_None_iff [simp]: "list_head xs = None \<longleftrightarrow> xs = []"
  by (cases xs) simp_all

lemma list_head_SomeD: "list_head xs = Some x \<Longrightarrow> x \<in> set xs"
  by (cases xs) auto

text \<open>Insertion behind every element of equal or smaller key (smaller key: greater priority).\<close>

fun priority_place :: "('a \<Rightarrow> nat) \<Rightarrow> 'a \<Rightarrow> 'a list \<Rightarrow> 'a list" where
  "priority_place f x [] = [x]"
| "priority_place f x (y # ys) = (if f x < f y then x # y # ys else y # priority_place f x ys)"

lemma length_priority_place [simp]: "length (priority_place f x xs) = Suc (length xs)"
  by (induction xs) auto

lemma set_priority_place [simp]: "set (priority_place f x xs) = insert x (set xs)"
  by (induction xs) auto

lemma priority_place_not_Nil [simp]: "priority_place f x xs \<noteq> []"
  by (cases xs) auto

lemma distinct_priority_place:
  "distinct (map g (priority_place f x xs)) \<longleftrightarrow> distinct (map g (x # xs))"
  by (induction xs) auto

lemma sorted_priority_place:
  "sorted (map f xs) \<Longrightarrow> sorted (map f (priority_place f x xs))"
  by (induction xs) (auto simp: not_less)

lemma priority_place_split:
  "priority_place f x xs =
     takeWhile (\<lambda>y. f y \<le> f x) xs @ x # dropWhile (\<lambda>y. f y \<le> f x) xs"
  by (induction xs) (auto simp: not_less)

end
