(* ===== verification/Common_Services.thy ===== *)
theory Common_Services
  imports Prelude
begin

text \<open>
  Common services of the kernel (\<open>os/kernel/plus/core/src/csc_common.c\<close>): the circular doubly linked
  lists on which every created object and every suspended task is kept.

  The C code writes the links of nodes in place, so the model keeps a node store (address to node) and
  performs the same writes in the same order; the abstraction \<open>cs_ring\<close> relates a head pointer to the
  list of node addresses. The lemmas show that placing appends, priority placing inserts in a stable
  way and removing deletes one element, and that the search loop of the priority insertion ends.
  The other kernel components use the list-level operations the interface \<open>cs_list\<close> exports.
\<close>

section \<open>Nodes and node store\<close>

record cs_node =
  cs_previous :: addr
  cs_next :: addr
  cs_priority :: nat

type_synonym cs_store = "addr \<Rightarrow> cs_node"

definition set_previous :: "cs_store \<Rightarrow> addr \<Rightarrow> addr \<Rightarrow> cs_store" where
  "set_previous m a v = m(a := (m a)\<lparr>cs_previous := v\<rparr>)"

definition set_next :: "cs_store \<Rightarrow> addr \<Rightarrow> addr \<Rightarrow> cs_store" where
  "set_next m a v = m(a := (m a)\<lparr>cs_next := v\<rparr>)"

lemma cs_set_simps [simp]:
  "cs_previous (set_previous m a v b) = (if b = a then v else cs_previous (m b))"
  "cs_next (set_previous m a v b) = cs_next (m b)"
  "cs_priority (set_previous m a v b) = cs_priority (m b)"
  "cs_next (set_next m a v b) = (if b = a then v else cs_next (m b))"
  "cs_previous (set_next m a v b) = cs_previous (m b)"
  "cs_priority (set_next m a v b) = cs_priority (m b)"
  by (simp_all add: set_previous_def set_next_def)

section \<open>The operations\<close>

text \<open>The four link writes both insertions end with.\<close>

definition insert_before :: "cs_store \<Rightarrow> addr \<Rightarrow> addr \<Rightarrow> cs_store" where
  "insert_before m search_ptr new_node =
    (let m1 = set_previous m new_node (cs_previous (m search_ptr));
         m2 = set_next m1 (cs_previous (m1 new_node)) new_node;
         m3 = set_next m2 new_node search_ptr
     in set_previous m3 (cs_next (m3 new_node)) new_node)"

definition make_singleton :: "cs_store \<Rightarrow> addr \<Rightarrow> cs_store" where
  "make_singleton m new_node = set_next (set_previous m new_node new_node) new_node new_node"

definition NU_Place_On_List :: "cs_store \<Rightarrow> addr \<Rightarrow> addr \<Rightarrow> cs_store \<times> addr" where
  "NU_Place_On_List m head new_node =
    (if head \<noteq> NU_NULL then (insert_before m head new_node, head)
     else (make_singleton m new_node, new_node))"

text \<open>
  The search loop of the priority insertion. On an ill-formed ring it need not end, so it is a partial
  function; \<open>None\<close> is "does not return".
\<close>

partial_function (option) priority_search :: "cs_store \<Rightarrow> addr \<Rightarrow> addr \<Rightarrow> addr \<Rightarrow> addr option" where
  "priority_search m head new_node search_ptr =
    (if cs_priority (m search_ptr) \<le> cs_priority (m new_node) \<and> search_ptr \<noteq> head
     then priority_search m head new_node (cs_next (m search_ptr))
     else Some search_ptr)"

definition NU_Priority_Place_On_List ::
    "cs_store \<Rightarrow> addr \<Rightarrow> addr \<Rightarrow> (cs_store \<times> addr) option" where
  "NU_Priority_Place_On_List m head new_node =
    (if head \<noteq> NU_NULL then
       (if cs_priority (m head) > cs_priority (m new_node)
        then Some (insert_before m head new_node, new_node)
        else (case priority_search m head new_node (cs_next (m head)) of
                None \<Rightarrow> None
              | Some search_ptr \<Rightarrow> Some (insert_before m search_ptr new_node, head)))
     else Some (make_singleton m new_node, new_node))"

definition NU_Remove_From_List :: "cs_store \<Rightarrow> addr \<Rightarrow> addr \<Rightarrow> cs_store \<times> addr" where
  "NU_Remove_From_List m head node =
    (if cs_previous (m node) = node then (m, NU_NULL)
     else
       let m1 = set_next m (cs_previous (m node)) (cs_next (m node));
           m2 = set_previous m1 (cs_next (m1 node)) (cs_previous (m1 node))
       in (m2, if node = head then cs_next (m2 node) else head))"

section \<open>The ring abstraction\<close>

text \<open>\<open>dseg m p xs q\<close>: following the links from \<open>p\<close> one passes exactly the nodes \<open>xs\<close> and arrives at \<open>q\<close>,
  and the back links agree.\<close>

fun dseg :: "cs_store \<Rightarrow> addr \<Rightarrow> addr list \<Rightarrow> addr \<Rightarrow> bool" where
  "dseg m p [] q \<longleftrightarrow> cs_next (m p) = q \<and> cs_previous (m q) = p"
| "dseg m p (x # xs) q \<longleftrightarrow> cs_next (m p) = x \<and> cs_previous (m x) = p \<and> dseg m x xs q"

fun cs_ring :: "cs_store \<Rightarrow> addr \<Rightarrow> addr list \<Rightarrow> bool" where
  "cs_ring m head [] \<longleftrightarrow> head = NU_NULL"
| "cs_ring m head (x # xs) \<longleftrightarrow>
     head = x \<and> NU_NULL \<notin> set (x # xs) \<and> distinct (x # xs) \<and> dseg m x xs x"

lemma dseg_append:
  "dseg m p (xs @ y # ys) q \<longleftrightarrow> dseg m p xs y \<and> dseg m y ys q"
  by (induction xs arbitrary: p) auto

lemma dseg_frame:
  assumes "dseg m p xs q"
    and "\<forall>a \<in> set (p # xs). cs_next (m' a) = cs_next (m a)"
    and "\<forall>a \<in> set (xs @ [q]). cs_previous (m' a) = cs_previous (m a)"
  shows "dseg m' p xs q"
  using assms by (induction xs arbitrary: p) auto

lemma dseg_previous: "dseg m p xs q \<Longrightarrow> cs_previous (m q) = last (p # xs)"
  by (induction xs arbitrary: p) auto

lemma dseg_next: "dseg m p xs q \<Longrightarrow> cs_next (m p) = hd (xs @ [q])"
  by (cases xs) auto

lemma insert_before_links:
  assumes "new \<noteq> s" "new \<noteq> cs_previous (m s)"
  shows "cs_next (insert_before m s new a) =
           (if a = new then s else if a = cs_previous (m s) then new else cs_next (m a))"
    and "cs_previous (insert_before m s new a) =
           (if a = s then new else if a = new then cs_previous (m s) else cs_previous (m a))"
  using assms by (auto simp: insert_before_def Let_def)

text \<open>Inserting before the end point of a segment appends the new node to the segment.\<close>

lemma dseg_insert_before:
  assumes seg: "dseg m p xs s" and new: "new \<notin> insert s (set (p # xs))"
    and d: "distinct (p # xs)" "s \<notin> set xs"
  shows "dseg (insert_before m s new) p (xs @ [new]) s"
proof (cases xs rule: rev_cases)
  case Nil
  with seg new show ?thesis by (auto simp: insert_before_links)
next
  case (snoc ys l)
  from seg snoc have l: "cs_previous (m s) = l" and pl: "dseg m p ys l"
    by (auto simp: dseg_append)
  have links: "cs_next (insert_before m s new a) = (if a = new then s else if a = l then new else cs_next (m a))"
    "cs_previous (insert_before m s new a) = (if a = s then new else if a = new then l else cs_previous (m a))" for a
    using new snoc l by (auto simp: insert_before_links)
  have "dseg (insert_before m s new) p ys l"
    by (rule dseg_frame[OF pl]) (use d new snoc in \<open>auto simp: links\<close>)
  moreover have "dseg (insert_before m s new) l [new] s"
    using new d snoc by (auto simp: links)
  ultimately show ?thesis using snoc by (simp add: dseg_append)
qed

lemma dseg_insert_before_frame:
  assumes "dseg m s ys q" and "new \<notin> set (s # ys)" "new \<noteq> q" and "cs_previous (m s) \<notin> set (s # ys)"
    and "s \<notin> set (ys @ [q])" and "new \<noteq> cs_previous (m s)"
  shows "dseg (insert_before m s new) s ys q"
  by (rule dseg_frame[OF assms(1)]) (use assms(2-) in \<open>auto simp: insert_before_links\<close>)

text \<open>Inserting before an inner node \<open>s\<close> of a ring.\<close>

lemma cs_ring_insert_before:
  assumes ring: "cs_ring m x (x # xs @ s # ys)" and new: "new \<notin> set (x # xs @ s # ys)" "new \<noteq> NU_NULL"
  shows "cs_ring (insert_before m s new) x (x # xs @ new # s # ys)"
proof -
  from ring have seg: "dseg m x xs s" "dseg m s ys x" and d: "distinct (x # xs @ s # ys)"
    by (auto simp: dseg_append)
  have last: "cs_previous (m s) = last (x # xs)" by (rule dseg_previous[OF seg(1)])
  have "last (x # xs) \<in> set (x # xs)" by (rule last_in_set) simp
  then have prev: "cs_previous (m s) \<notin> set (s # ys)" "new \<noteq> cs_previous (m s)" "new \<noteq> s"
    using last d new by (auto simp del: last.simps)
  have "dseg (insert_before m s new) x (xs @ [new]) s"
    by (rule dseg_insert_before[OF seg(1)]) (use new d in auto)
  moreover have "dseg (insert_before m s new) s ys x"
  proof (rule dseg_frame[OF seg(2)])
    show "\<forall>a\<in>set (s # ys). cs_next (insert_before m s new a) = cs_next (m a)"
      using prev new by (auto simp: insert_before_links)
    show "\<forall>a\<in>set (ys @ [x]). cs_previous (insert_before m s new a) = cs_previous (m a)"
      using prev new d by (auto simp: insert_before_links)
  qed
  ultimately have "dseg (insert_before m s new) x (xs @ new # s # ys) x"
    by (simp add: dseg_append)
  then show ?thesis using ring new by auto
qed

text \<open>Inserting before the head makes the new node the last one.\<close>

lemma cs_ring_insert_before_head:
  assumes "cs_ring m x (x # xs)" and "new \<notin> set (x # xs)" "new \<noteq> NU_NULL"
  shows "cs_ring (insert_before m x new) x (x # xs @ [new])"
  using assms dseg_insert_before[of m x xs x new] by auto

text \<open>A ring may be read from any of its nodes.\<close>

lemma cs_ring_rotate:
  assumes "cs_ring m x (x # xs @ [y])"
  shows "cs_ring m y (y # x # xs)"
  using assms by (auto simp: dseg_append)

lemma cs_ring_rotate_left:
  assumes "cs_ring m x (x # y # ys)"
  shows "cs_ring m y (y # ys @ [x])"
  using assms by (auto simp: dseg_append)

section \<open>Placing at the end\<close>

lemma NU_Place_On_List_ring:
  assumes "cs_ring m head xs" "new \<notin> set xs" "new \<noteq> NU_NULL" "NU_Place_On_List m head new = (m', head')"
  shows "cs_ring m' head' (xs @ [new])"
proof (cases xs)
  case Nil
  with assms show ?thesis
    by (auto simp: NU_Place_On_List_def make_singleton_def)
next
  case (Cons x ys)
  with assms have "m' = insert_before m x new" "head' = x" "head = x"
    by (auto simp: NU_Place_On_List_def split: if_splits)
  with assms Cons show ?thesis using cs_ring_insert_before_head[of m x ys new] by simp
qed

section \<open>Priority placing\<close>

text \<open>The search loop ends at the first later node of larger key, or back at the head.\<close>

lemma priority_search_dseg:
  assumes "dseg m p xs head" "head \<notin> set xs"
  shows "priority_search m head new (cs_next (m p)) =
    Some (hd (dropWhile (\<lambda>a. cs_priority (m a) \<le> cs_priority (m new)) xs @ [head]))"
  using assms
proof (induction xs arbitrary: p)
  case Nil
  then show ?case by (simp add: priority_search.simps)
next
  case (Cons x xs)
  from Cons.prems have x: "cs_next (m p) = x" "x \<noteq> head" "dseg m x xs head" "head \<notin> set xs" by auto
  show ?case
  proof (cases "cs_priority (m x) \<le> cs_priority (m new)")
    case True
    then show ?thesis using x Cons.IH[of x] by (simp add: priority_search.simps[of m head new x])
  next
    case False
    then show ?thesis using x by (simp add: priority_search.simps[of m head new x])
  qed
qed

lemma cs_priority_insert_before [simp]: "cs_priority (insert_before m s new a) = cs_priority (m a)"
  by (simp add: insert_before_def Let_def)

lemma cs_priority_make_singleton [simp]: "cs_priority (make_singleton m new a) = cs_priority (m a)"
  by (simp add: make_singleton_def)

lemma priority_ring_behind_head:
  assumes ring: "cs_ring m x (x # xs)" and new: "new \<notin> set (x # xs)" "new \<noteq> NU_NULL"
    and le: "\<not> cs_priority (m new) < cs_priority (m x)"
    and s: "s = hd (dropWhile (\<lambda>a. cs_priority (m a) \<le> cs_priority (m new)) xs @ [x])"
  shows "cs_ring (insert_before m s new) x (priority_place (\<lambda>a. cs_priority (m a)) new (x # xs))"
proof -
  define P where "P = (\<lambda>a. cs_priority (m a) \<le> cs_priority (m new))"
  have split: "xs = takeWhile P xs @ dropWhile P xs" by simp
  have place: "priority_place (\<lambda>a. cs_priority (m a)) new (x # xs) =
      x # takeWhile P xs @ new # dropWhile P xs"
    using le by (simp add: priority_place_split P_def)
  show ?thesis
  proof (cases "dropWhile P xs")
    case Nil
    then have "s = x" "takeWhile P xs = xs" using split by (simp_all only: s P_def[symmetric] append_Nil append_Nil2 list.sel)
    with Nil have "priority_place (\<lambda>a. cs_priority (m a)) new (x # xs) = x # xs @ [new]"
      unfolding place by (simp only:)
    then show ?thesis
      using cs_ring_insert_before_head[OF ring new] \<open>s = x\<close> by (simp only:)
  next
    case (Cons y ys)
    then have y: "s = y" using s by (simp add: P_def)
    have "cs_ring m x (x # takeWhile P xs @ y # ys)" using ring split Cons by simp
    moreover have "new \<notin> set (x # takeWhile P xs @ y # ys)" using new split Cons by simp
    ultimately have "cs_ring (insert_before m y new) x (x # takeWhile P xs @ new # y # ys)"
      by (rule cs_ring_insert_before) (rule new)
    then show ?thesis unfolding place y Cons .
  qed
qed

lemma NU_Priority_Place_On_List_ring:
  assumes ring: "cs_ring m head xs" and new: "new \<notin> set xs" "new \<noteq> NU_NULL"
  shows "\<exists>m' head'. NU_Priority_Place_On_List m head new = Some (m', head') \<and>
    cs_ring m' head' (priority_place (\<lambda>a. cs_priority (m a)) new xs) \<and>
    (\<forall>a. cs_priority (m' a) = cs_priority (m a))"
proof (cases xs)
  case Nil
  with ring new show ?thesis
    by (auto simp: NU_Priority_Place_On_List_def make_singleton_def)
next
  case (Cons x ys)
  with ring have h: "head = x" "head \<noteq> NU_NULL" and seg: "dseg m x ys x" "x \<notin> set ys" by auto
  show ?thesis
  proof (cases "cs_priority (m new) < cs_priority (m x)")
    case True
    have "cs_ring (insert_before m x new) x (x # ys @ [new])"
      using cs_ring_insert_before_head[of m x ys new] ring new Cons h by simp
    then have "cs_ring (insert_before m x new) new (new # x # ys)" by (rule cs_ring_rotate)
    then show ?thesis using True h Cons by (simp add: NU_Priority_Place_On_List_def)
  next
    case False
    let ?s = "hd (dropWhile (\<lambda>a. cs_priority (m a) \<le> cs_priority (m new)) ys @ [x])"
    have "priority_search m x new (cs_next (m x)) = Some ?s"
      by (rule priority_search_dseg[OF seg])
    moreover have "cs_ring (insert_before m ?s new) x (priority_place (\<lambda>a. cs_priority (m a)) new (x # ys))"
      by (rule priority_ring_behind_head) (use ring new Cons h False in auto)
    ultimately show ?thesis using False h Cons
      by (auto simp: NU_Priority_Place_On_List_def simp del: cs_ring.simps priority_place.simps)
  qed
qed

section \<open>Removing\<close>

definition unlink :: "cs_store \<Rightarrow> addr \<Rightarrow> cs_store" where
  "unlink m node = set_previous (set_next m (cs_previous (m node)) (cs_next (m node)))
     (cs_next (set_next m (cs_previous (m node)) (cs_next (m node)) node)) (cs_previous (m node))"

lemma unlink_head:
  assumes ring: "cs_ring m x (x # y # ys)"
  shows "cs_ring (unlink m x) y (y # ys)" and "cs_next (unlink m x x) = y"
proof -
  from ring have seg: "dseg m y ys x" and nx: "cs_next (m x) = y" "cs_previous (m y) = x"
    and d: "distinct (x # y # ys)" by auto
  have pv: "cs_previous (m x) = last (y # ys)" by (rule dseg_previous[OF seg])
  have lin: "last (y # ys) \<in> set (y # ys)" by simp
  then have lx: "last (y # ys) \<noteq> x" using d by auto
  show "cs_next (unlink m x x) = y" using nx pv lx by (simp add: unlink_def)
  have next_eq: "cs_next (unlink m x a) = (if a = last (y # ys) then y else cs_next (m a))"
    and prev_eq: "cs_previous (unlink m x a) = (if a = y then last (y # ys) else cs_previous (m a))" for a
    using nx pv lx by (auto simp: unlink_def)
  have "dseg (unlink m x) y ys y"
  proof (cases ys rule: rev_cases)
    case Nil
    then show ?thesis by (simp add: next_eq prev_eq)
  next
    case (snoc zs l)
    with seg have "dseg m y zs l" by (simp add: dseg_append)
    then have "dseg (unlink m x) y zs l"
      by (rule dseg_frame) (use d snoc in \<open>auto simp: next_eq prev_eq\<close>)
    moreover have "dseg (unlink m x) l [] y" using snoc by (simp add: next_eq prev_eq)
    ultimately show ?thesis using snoc by (simp add: dseg_append)
  qed
  then show "cs_ring (unlink m x) y (y # ys)" using ring by auto
qed

lemma NU_Remove_From_List_unlink:
  "cs_previous (m node) \<noteq> node \<Longrightarrow> NU_Remove_From_List m head node =
     (unlink m node, if node = head then cs_next (unlink m node node) else head)"
  by (simp add: NU_Remove_From_List_def unlink_def Let_def)

lemma unlink_inner:
  assumes ring: "cs_ring m h (h # xs @ x # ys)"
  shows "cs_ring (unlink m x) h (h # xs @ ys)"
proof -
  have rot: "cs_ring m x (x # ys @ h # xs)"
    using ring by (auto simp: dseg_append)
  have lin: "\<And>z zs. cs_ring m x (x # z # zs) \<Longrightarrow> cs_ring (unlink m x) z (z # zs)" by (rule unlink_head)
  show ?thesis
  proof (cases ys)
    case Nil
    with lin[of h xs] rot show ?thesis by simp
  next
    case (Cons z zs)
    with lin[of z "zs @ h # xs"] rot have "cs_ring (unlink m x) z (z # zs @ h # xs)" by simp
    then show ?thesis using Cons ring by (auto simp: dseg_append)
  qed
qed

lemma NU_Remove_From_List_ring:
  assumes ring: "cs_ring m head xs" and x: "x \<in> set xs" and rem: "NU_Remove_From_List m head x = (m', head')"
  shows "cs_ring m' head' (remove1 x xs)"
proof -
  obtain h hs where xs: "xs = h # hs" using x by (cases xs) auto
  with ring have h: "head = h" by simp
  from ring xs have seg: "dseg m h hs h" and d: "distinct (h # hs)" by auto
  show ?thesis
  proof (cases "x = h")
    case True
    show ?thesis
    proof (cases hs)
      case Nil
      with seg have "cs_previous (m h) = h" by simp
      with rem True xs Nil show ?thesis by (auto simp: NU_Remove_From_List_def)
    next
      case (Cons y ys)
      have "cs_previous (m h) = last hs" using dseg_previous[OF seg] Cons by simp
      then have "cs_previous (m h) \<noteq> h" using d Cons by (metis distinct.simps(2) last_in_set list.distinct(1))
      with rem True h have "m' = unlink m h" "head' = cs_next (unlink m h h)"
        by (auto simp: NU_Remove_From_List_unlink)
      then show ?thesis using unlink_head[of m h y ys] ring xs h Cons True by simp
    qed
  next
    case False
    with x xs obtain ps ys where hs: "hs = ps @ x # ys" by (auto dest: split_list)
    with ring xs h have r: "cs_ring m h (h # ps @ x # ys)" by simp
    from seg hs have "dseg m h ps x" by (simp add: dseg_append)
    then have "cs_previous (m x) = last (h # ps)" by (rule dseg_previous)
    moreover have "last (h # ps) \<in> set (h # ps)" by simp
    ultimately have "cs_previous (m x) \<noteq> x" using d hs by auto
    with rem False h have "m' = unlink m x" "head' = h" by (auto simp: NU_Remove_From_List_unlink)
    moreover have "remove1 x xs = h # ps @ ys" using xs hs d False by (simp add: remove1_append)
    ultimately show ?thesis using unlink_inner[OF r] by simp
  qed
qed

section \<open>The interface other components rely on\<close>

locale cs_list =
  fixes ring :: "'m \<Rightarrow> addr \<Rightarrow> addr list \<Rightarrow> bool"
    and place :: "'m \<Rightarrow> addr \<Rightarrow> addr \<Rightarrow> 'm \<times> addr"
    and remove :: "'m \<Rightarrow> addr \<Rightarrow> addr \<Rightarrow> 'm \<times> addr"
  assumes head_ring: "ring m h xs \<Longrightarrow> h = (case xs of [] \<Rightarrow> NU_NULL | x # _ \<Rightarrow> x)"
    and place_ring: "ring m h xs \<Longrightarrow> n \<notin> set xs \<Longrightarrow> n \<noteq> NU_NULL \<Longrightarrow>
      place m h n = (m', h') \<Longrightarrow> ring m' h' (xs @ [n])"
    and remove_ring: "ring m h xs \<Longrightarrow> x \<in> set xs \<Longrightarrow>
      remove m h x = (m', h') \<Longrightarrow> ring m' h' (remove1 x xs)"
begin

lemma place_all_ring:
  assumes "ring m h xs" "distinct ns" "set ns \<inter> set xs = {}" "NU_NULL \<notin> set ns"
    "fold (\<lambda>n (m, h). place m h n) ns (m, h) = (m', h')"
  shows "ring m' h' (xs @ ns)"
  using assms
proof (induction ns arbitrary: m h xs)
  case Nil
  then show ?case by simp
next
  case (Cons n ns)
  obtain m1 h1 where p: "place m h n = (m1, h1)" by force
  with Cons.prems have "ring m1 h1 (xs @ [n])" using place_ring[OF Cons.prems(1) _ _ p] by auto
  from Cons.IH[OF this] Cons.prems p show ?case by auto
qed

lemma remove_head_ring:
  assumes "ring m h (x # xs)" "remove m h h = (m', h')"
  shows "h = x \<and> ring m' h' xs"
proof -
  have "h = x" using head_ring[OF assms(1)] by simp
  with assms remove_ring[of m h "x # xs" h m' h'] show ?thesis by simp
qed

text \<open>First in, first out: the nodes placed on an empty list leave it, taken from the head, in order.\<close>

lemma fifo:
  assumes "ring m NU_NULL []" "distinct (n # ns)" "NU_NULL \<notin> set (n # ns)"
    "fold (\<lambda>n (m, h). place m h n) (n # ns) (m, NU_NULL) = (m1, h1)" "remove m1 h1 h1 = (m2, h2)"
  shows "h1 = n \<and> ring m2 h2 ns"
proof -
  have "ring m1 h1 ([] @ (n # ns))" by (rule place_all_ring) (use assms in auto)
  with remove_head_ring[of m1 h1 n ns m2 h2] assms show ?thesis by simp
qed

end

locale cs_priority_list = cs_list +
  fixes key :: "'a \<Rightarrow> addr \<Rightarrow> nat"
    and priority_place_on :: "'a \<Rightarrow> addr \<Rightarrow> addr \<Rightarrow> ('a \<times> addr) option"
  assumes priority_ring: "ring m h xs \<Longrightarrow> n \<notin> set xs \<Longrightarrow> n \<noteq> NU_NULL \<Longrightarrow>
      \<exists>m' h'. priority_place_on m h n = Some (m', h') \<and> ring m' h' (priority_place (key m) n xs) \<and>
        (\<forall>a. key m' a = key m a)"
begin

text \<open>A list kept only by priority placing stays sorted, so its head has the least key.\<close>

lemma priority_sorted:
  assumes "ring m h xs" "sorted (map (key m) xs)" "n \<notin> set xs" "n \<noteq> NU_NULL"
  shows "\<exists>m' h' ys. priority_place_on m h n = Some (m', h') \<and> ring m' h' ys \<and>
     ys = takeWhile (\<lambda>a. key m a \<le> key m n) xs @ n # dropWhile (\<lambda>a. key m a \<le> key m n) xs \<and>
     sorted (map (key m') ys) \<and> (\<forall>a \<in> set ys. key m' h' \<le> key m' a)"
proof -
  from priority_ring[OF assms(1,3,4)] obtain m' h' where
    r: "priority_place_on m h n = Some (m', h')" "ring m' h' (priority_place (key m) n xs)"
    and k: "\<forall>a. key m' a = key m a" by blast
  have k': "key m' = key m" using k by auto
  let ?ys = "priority_place (key m) n xs"
  have s: "sorted (map (key m') ?ys)" using assms(2) by (simp add: k' sorted_priority_place)
  obtain y zs where y: "?ys = y # zs" by (cases ?ys) auto
  then have "h' = y" using head_ring[OF r(2)] by simp
  then have "\<forall>a \<in> set ?ys. key m' h' \<le> key m' a" using s y by auto
  then show ?thesis using r s priority_place_split[of "key m" n xs] by metis
qed

end

interpretation csl: cs_priority_list cs_ring NU_Place_On_List NU_Remove_From_List
  "\<lambda>m a. cs_priority (m a)" NU_Priority_Place_On_List
proof unfold_locales
  show "cs_ring m h xs \<Longrightarrow> h = (case xs of [] \<Rightarrow> NU_NULL | x # _ \<Rightarrow> x)" for m h xs
    by (cases xs) auto
  show "cs_ring m h xs \<Longrightarrow> n \<notin> set xs \<Longrightarrow> n \<noteq> NU_NULL \<Longrightarrow> NU_Place_On_List m h n = (m', h') \<Longrightarrow>
      cs_ring m' h' (xs @ [n])" for m h xs n m' h'
    by (rule NU_Place_On_List_ring)
  show "cs_ring m h xs \<Longrightarrow> x \<in> set xs \<Longrightarrow> NU_Remove_From_List m h x = (m', h') \<Longrightarrow>
      cs_ring m' h' (remove1 x xs)" for m h xs x m' h'
    by (rule NU_Remove_From_List_ring)
  show "cs_ring m h xs \<Longrightarrow> n \<notin> set xs \<Longrightarrow> n \<noteq> NU_NULL \<Longrightarrow>
      \<exists>m' h'. NU_Priority_Place_On_List m h n = Some (m', h') \<and>
        cs_ring m' h' (priority_place (\<lambda>a. cs_priority (m a)) n xs) \<and>
        (\<forall>a. cs_priority (m' a) = cs_priority (m a))" for m h xs n
    by (rule NU_Priority_Place_On_List_ring)
qed

section \<open>Properties\<close>

text \<open>
  C36. Priority insertion into a well-formed ring always returns; the new node stands behind every node of
  the same or a greater priority (a smaller number) and before the others, the ring stays well formed and
  sorted, and the head has the greatest priority.
\<close>

theorem NU_Priority_Place_On_List_sorted:
  assumes "cs_ring m head xs" "sorted (map (\<lambda>a. cs_priority (m a)) xs)" "new_node \<notin> set xs" "new_node \<noteq> NU_NULL"
  shows "\<exists>m' head' ys. NU_Priority_Place_On_List m head new_node = Some (m', head') \<and> cs_ring m' head' ys \<and>
     ys = takeWhile (\<lambda>a. cs_priority (m a) \<le> cs_priority (m new_node)) xs @
          new_node # dropWhile (\<lambda>a. cs_priority (m a) \<le> cs_priority (m new_node)) xs \<and>
     sorted (map (\<lambda>a. cs_priority (m' a)) ys) \<and> (\<forall>a \<in> set ys. cs_priority (m' head') \<le> cs_priority (m' a))"
  by (rule csl.priority_sorted[OF assms])

text \<open>Three nodes of priorities 1, 2, 2 and a new node of priority 2.\<close>

definition ring0 :: cs_store where
  "ring0 = (\<lambda>a. \<lparr>cs_previous = NU_NULL, cs_next = NU_NULL, cs_priority = min a 2\<rparr>)
     (1 := \<lparr>cs_previous = 3, cs_next = 2, cs_priority = 1\<rparr>,
      2 := \<lparr>cs_previous = 1, cs_next = 3, cs_priority = 2\<rparr>,
      3 := \<lparr>cs_previous = 2, cs_next = 1, cs_priority = 2\<rparr>)"

lemma ring0_ring: "cs_ring ring0 1 [1, 2, 3]"
  by (simp add: ring0_def)

theorem NU_Priority_Place_On_List_sorted_witness:
  "\<exists>m' head'. NU_Priority_Place_On_List ring0 1 4 = Some (m', head') \<and> cs_ring m' head' [1, 2, 3, 4]"
  using NU_Priority_Place_On_List_sorted[OF ring0_ring, of 4] by (auto simp: ring0_def)

text \<open>
  Placing and removing are FIFO: of the nodes placed on an empty list one after the other, the head is
  the first one placed, and removing it leaves the others in their order on a well-formed ring.
\<close>

theorem NU_Place_On_List_fifo:
  assumes "distinct (n # ns)" "NU_NULL \<notin> set (n # ns)"
    and "fold (\<lambda>n (m, head). NU_Place_On_List m head n) (n # ns) (m, NU_NULL) = (m1, head1)"
    and "NU_Remove_From_List m1 head1 head1 = (m2, head2)"
  shows "head1 = n \<and> cs_ring m2 head2 ns"
  by (rule csl.fifo[OF _ assms]) simp

theorem NU_Place_On_List_fifo_witness:
  "\<exists>m1 head1 m2 head2. fold (\<lambda>n (m, head). NU_Place_On_List m head n) [7, 8, 9] (ring0, NU_NULL) = (m1, head1) \<and>
     NU_Remove_From_List m1 head1 head1 = (m2, head2) \<and> head1 = 7 \<and> cs_ring m2 head2 [8, 9]"
proof -
  obtain m1 head1 where 1: "fold (\<lambda>n (m, head). NU_Place_On_List m head n) [7, 8, 9] (ring0, NU_NULL) = (m1, head1)"
    by force
  obtain m2 head2 where 2: "NU_Remove_From_List m1 head1 head1 = (m2, head2)" by force
  show ?thesis using NU_Place_On_List_fifo[OF _ _ 1 2] 1 2 by auto
qed

end
