(* ===== verification/Timer.thy ===== *)
theory Timer
  imports Common_Services
begin

unbundle bit_operations_syntax

text \<open>
  Timer management (\<open>tmc_common.c\<close>, \<open>tmct_common.c\<close>): the list of active timers, the count-down
  timer that serves its first entry, the 64-bit system clock and the time stamps.

  The active list is a delta list: each entry stores only the time after its predecessor. The C code
  links timer control blocks in a ring; the model keeps the list of timer numbers from the head and
  a map of the \<open>tm_remaining_time\<close> fields (which keep their value after a timer leaves the list).
  \<open>expiry\<close> is the specification: the number of ticks until a timer expires. Starting and stopping
  timers must not move the expiry of any other timer.
\<close>

section \<open>State\<close>

datatype timer_state = TM_ACTIVE | TM_NOT_ACTIVE | TM_EXPIRED

type_synonym tmid = nat

record timers =
  TMD_Active_Timers_List :: "tmid list"
  tm_remaining_time :: "tmid \<Rightarrow> nat"
  TMD_Active_List_Busy :: bool
  TMD_Timer_Start :: nat
  TMD_Timer :: nat
  TMD_Timer_State :: timer_state

section \<open>Target-dependent services\<close>

definition TMCT_Adjust_Timer :: "nat \<Rightarrow> timers \<Rightarrow> timers" where
  "TMCT_Adjust_Timer time s = (if time < TMD_Timer s then s\<lparr>TMD_Timer := time\<rparr> else s)"

definition TMCT_Enable_Timer :: "nat \<Rightarrow> timers \<Rightarrow> timers" where
  "TMCT_Enable_Timer time s = s\<lparr>TMD_Timer := time, TMD_Timer_State := TM_ACTIVE\<rparr>"

section \<open>Starting a timer\<close>

text \<open>
  The search loop: it walks the list from the head, subtracting each delta from \<open>time\<close>, and stops
  before the first entry whose delta exceeds what is left (whose delta it then reduces) or at the end.
  Result: the time left, the entries before and after the place, the updated deltas.
\<close>

fun start_search :: "(tmid \<Rightarrow> nat) \<Rightarrow> nat \<Rightarrow> tmid list \<Rightarrow> nat \<times> tmid list \<times> tmid list \<times> (tmid \<Rightarrow> nat)" where
  "start_search rem time [] = (time, [], [], rem)"
| "start_search rem time (t # ts) =
     (if time < rem t then (time, [], t # ts, rem(t := rem t - time))
      else let (time', before, after, rem') = start_search rem (time - rem t) ts
           in (time', t # before, after, rem'))"

text \<open>The adjustment of the first entry to the ticks that passed since the last start.\<close>

definition adjust_head :: "timers \<Rightarrow> timers" where
  "adjust_head s =
    (case TMD_Active_Timers_List s of
       [] \<Rightarrow> s
     | list_ptr # _ \<Rightarrow>
         (let elapsed = sub32 (TMD_Timer_Start s) (TMD_Timer s);
              r = tm_remaining_time s list_ptr
          in s\<lparr>TMD_Timer_Start := sub32 (TMD_Timer_Start s) elapsed,
               tm_remaining_time := (tm_remaining_time s)(list_ptr := (if r > elapsed then r - elapsed else 0))\<rparr>))"

text \<open>The end of the function: a smaller expiration takes the count-down timer over.\<close>

definition restart_count_down :: "timers \<Rightarrow> timers" where
  "restart_count_down s =
    (case TMD_Active_Timers_List s of
       [] \<Rightarrow> s
     | h # _ \<Rightarrow>
         (let time = tm_remaining_time s h
          in if time \<le> TMD_Timer_Start s
             then (let s1 = s\<lparr>TMD_Timer_Start := time\<rparr>
                   in if TMD_Timer_Start s1 \<noteq> 0 then TMCT_Adjust_Timer (TMD_Timer_Start s1) s1
                      else s1\<lparr>TMD_Timer_State := TM_EXPIRED\<rparr>)
             else s))"

definition TMC_Start_Timer :: "tmid \<Rightarrow> nat \<Rightarrow> timers \<Rightarrow> timers" where
  "TMC_Start_Timer timer time s =
    (if TMD_Active_Timers_List s = [] then
       (let s1 = s\<lparr>TMD_Active_Timers_List := [timer], TMD_Timer_Start := time,
                  tm_remaining_time := (tm_remaining_time s)(timer := time)\<rparr>
        in if time \<noteq> 0 then TMCT_Enable_Timer (TMD_Timer_Start s1) s1
           else s1\<lparr>TMD_Timer_State := TM_EXPIRED\<rparr>)
     else
       (let s1 = (if \<not> TMD_Active_List_Busy s then adjust_head s else s);
            (time', before, after, rem') =
              start_search (tm_remaining_time s1) time (TMD_Active_Timers_List s1);
            s2 = s1\<lparr>TMD_Active_Timers_List := before @ timer # after,
                    tm_remaining_time := rem'(timer := time')\<rparr>
        in if \<not> TMD_Active_List_Busy s then restart_count_down s2 else s2))"

section \<open>Stopping a timer\<close>

text \<open>The neighbour behind the stopped timer inherits its delta, unless that neighbour is the head.\<close>

fun next_in :: "tmid list \<Rightarrow> tmid \<Rightarrow> tmid option" where
  "next_in [] t = None"
| "next_in [x] t = None"
| "next_in (x # y # xs) t = (if x = t then Some y else next_in (y # xs) t)"

definition TMC_Stop_Timer :: "tmid \<Rightarrow> timers \<Rightarrow> timers" where
  "TMC_Stop_Timer timer s =
    (let rem = tm_remaining_time s;
         rem' = (case next_in (TMD_Active_Timers_List s) timer of
                   None \<Rightarrow> rem
                 | Some n \<Rightarrow> rem(n := add32 (rem n) (rem timer)))
     in if TMD_Active_Timers_List s = [timer]
        then s\<lparr>tm_remaining_time := rem', TMD_Active_Timers_List := [], TMD_Timer_State := TM_NOT_ACTIVE\<rparr>
        else s\<lparr>tm_remaining_time := rem',
               TMD_Active_Timers_List := remove1 timer (TMD_Active_Timers_List s)\<rparr>)"

text \<open>The macro \<open>TMC_Stop_Task_Timer\<close>: only a timer that is linked is stopped.\<close>

definition TMC_Stop_Task_Timer :: "tmid \<Rightarrow> timers \<Rightarrow> timers" where
  "TMC_Stop_Task_Timer timer s =
    (if timer \<in> set (TMD_Active_Timers_List s) then TMC_Stop_Timer timer s else s)"

section \<open>Expiry times\<close>

fun delta_sum :: "(tmid \<Rightarrow> nat) \<Rightarrow> tmid list \<Rightarrow> tmid \<Rightarrow> nat" where
  "delta_sum rem [] t = 0"
| "delta_sum rem (x # xs) t = (if x = t then rem x else rem x + delta_sum rem xs t)"

text \<open>Ticks that passed since the count-down timer was last started; none while the list is being processed.\<close>

definition elapsed_ticks :: "timers \<Rightarrow> nat" where
  "elapsed_ticks s = (if TMD_Active_List_Busy s then 0 else TMD_Timer_Start s - TMD_Timer s)"

definition expiry :: "timers \<Rightarrow> tmid \<Rightarrow> nat" where
  "expiry s t = delta_sum (tm_remaining_time s) (TMD_Active_Timers_List s) t - elapsed_ticks s"

text \<open>
  The start value of the count-down timer is never greater than the delta of the first entry (as the
  comment in \<open>TMC_Timer_Expiration\<close> says), and the count-down timer is never above its start value,
  except while an expired first entry waits for the timer HISR (the start value is then 0 and the
  count-down register is stale).
\<close>

definition timers_inv :: "timers \<Rightarrow> bool" where
  "timers_inv s \<longleftrightarrow>
     distinct (TMD_Active_Timers_List s) \<and>
     TMD_Timer_Start s < 4294967296 \<and> TMD_Timer s < 4294967296 \<and>
     (\<forall>t \<in> set (TMD_Active_Timers_List s).
        delta_sum (tm_remaining_time s) (TMD_Active_Timers_List s) t < 4294967296) \<and>
     (\<not> TMD_Active_List_Busy s \<longrightarrow> TMD_Active_Timers_List s \<noteq> [] \<longrightarrow>
        (let h = tm_remaining_time s (hd (TMD_Active_Timers_List s))
         in TMD_Timer_Start s \<le> h \<and>
            (TMD_Timer s \<le> TMD_Timer_Start s \<or> TMD_Timer_Start s = 0 \<and> h = 0)))"

lemma delta_sum_cong:
  "(\<And>x. x \<in> set xs \<Longrightarrow> r x = r' x) \<Longrightarrow> delta_sum r xs t = delta_sum r' xs t"
  by (induction xs) auto

lemma delta_sum_append:
  "t \<notin> set xs \<Longrightarrow> delta_sum r (xs @ ys) t = sum_list (map r xs) + delta_sum r ys t"
  by (induction xs) auto

lemma delta_sum_append_in:
  "t \<in> set xs \<Longrightarrow> delta_sum r (xs @ ys) t = delta_sum r xs t"
  by (induction xs) auto

lemma delta_sum_fun_upd [simp]:
  "t \<notin> set xs \<Longrightarrow> delta_sum (r(t := v)) xs u = delta_sum r xs u"
  by (rule delta_sum_cong) auto

lemma delta_sum_if [simp]:
  "t \<notin> set xs \<Longrightarrow> delta_sum (\<lambda>a. if a = t then v else r a) xs u = delta_sum r xs u"
  by (rule delta_sum_cong) auto

lemma delta_sum_head:
  assumes "e \<le> r x" "x \<notin> set xs"
  shows "delta_sum (r(x := r x - e)) (x # xs) t = delta_sum r (x # xs) t - e"
  using assms by simp

lemma delta_sum_ge_head: "t \<in> set (x # xs) \<Longrightarrow> r x \<le> delta_sum r (x # xs) t"
  by auto

text \<open>The search splits the list and moves no expiry; the new timer's deltas add up to its time.\<close>

lemma start_search_spec:
  assumes "start_search rem time ts = (time', before, after, rem')" "distinct ts"
  shows "ts = before @ after \<and>
    sum_list (map rem' before) + time' = time \<and>
    (\<forall>t. t \<notin> set after \<longrightarrow> rem' t = rem t) \<and>
    (\<forall>t. rem' t \<le> rem t) \<and>
    (\<forall>t \<in> set after. sum_list (map rem' before) + time' + delta_sum rem' after t = delta_sum rem ts t) \<and>
    (\<forall>t \<in> set before. delta_sum rem' before t = delta_sum rem ts t)"
  using assms
proof (induction rem time ts arbitrary: time' before after rem' rule: start_search.induct)
  case (1 rem time)
  then show ?case by auto
next
  case (2 rem time t ts)
  show ?case
  proof (cases "time < rem t")
    case True
    with "2.prems" have eq: "time' = time" "before = []" "after = t # ts" "rem' = rem(t := rem t - time)"
      by auto
    have "t \<notin> set ts" using "2.prems" by simp
    then show ?thesis using True by (auto simp: eq)
  next
    case False
    obtain b a r' where s: "start_search rem (time - rem t) ts = (time', b, a, r')"
      and eq: "before = t # b" "after = a" "rem' = r'"
      using "2.prems"(1) False by (auto split: prod.splits)
    have d: "distinct ts" "t \<notin> set ts" using "2.prems"(2) by auto
    note IH = "2.IH"[OF False s d(1)]
    have tr: "r' t = rem t" using IH d by auto
    show ?thesis using IH d False tr by (auto simp: eq)
  qed
qed

lemma start_search_before_empty:
  "start_search rem time (t # ts) = (time', before, after, rem') \<Longrightarrow>
   hd (before @ n # after) = (if time < rem t then n else t)"
  by (auto split: if_splits prod.splits)

lemma delta_sum_insert:
  assumes "start_search rem time ts = (time', before, after, rem')" "distinct ts" "n \<notin> set ts"
  shows "t \<in> set ts \<Longrightarrow> delta_sum (rem'(n := time')) (before @ n # after) t = delta_sum rem ts t"
    and "delta_sum (rem'(n := time')) (before @ n # after) n = time"
proof -
  note spec = start_search_spec[OF assms(1,2)]
  have nb: "n \<notin> set before" "n \<notin> set after" using spec assms(3) by auto
  have mb: "map (rem'(n := time')) before = map rem' before" using nb by auto
  show "delta_sum (rem'(n := time')) (before @ n # after) n = time"
    using nb spec mb by (simp add: delta_sum_append)
  assume t: "t \<in> set ts"
  show "delta_sum (rem'(n := time')) (before @ n # after) t = delta_sum rem ts t"
  proof (cases "t \<in> set before")
    case True
    then show ?thesis using spec nb by (simp add: delta_sum_append_in)
  next
    case False
    then have ta: "t \<in> set after" using t spec by auto
    then have "t \<noteq> n" using nb by auto
    moreover have "sum_list (map rem' before) + time' + delta_sum rem' after t = delta_sum rem ts t"
      using spec ta by blast
    ultimately show ?thesis using False nb mb by (simp add: delta_sum_append)
  qed
qed

section \<open>Starting keeps every other expiry\<close>

lemma adjust_head_eq:
  assumes "timers_inv s" "TMD_Active_Timers_List s = h # hs" "\<not> TMD_Active_List_Busy s"
  shows "adjust_head s = s\<lparr>TMD_Timer_Start := TMD_Timer s,
     tm_remaining_time := (tm_remaining_time s)(h := tm_remaining_time s h - elapsed_ticks s)\<rparr>"
proof (cases "TMD_Timer s \<le> TMD_Timer_Start s")
  case True
  with assms have "sub32 (TMD_Timer_Start s) (TMD_Timer s) = TMD_Timer_Start s - TMD_Timer s"
    "sub32 (TMD_Timer_Start s) (TMD_Timer_Start s - TMD_Timer s) = TMD_Timer s"
    by (auto simp: timers_inv_def sub32_eq)
  with assms show ?thesis by (auto simp: adjust_head_def elapsed_ticks_def Let_def)
next
  case False
  with assms have z: "TMD_Timer_Start s = 0" "tm_remaining_time s h = 0" "TMD_Timer s < 4294967296"
    "TMD_Timer s \<noteq> 0"
    by (auto simp: timers_inv_def Let_def)
  then have "sub32 0 (sub32 0 (TMD_Timer s)) = TMD_Timer s" by (auto simp: sub32_def)
  with z assms show ?thesis by (auto simp: adjust_head_def elapsed_ticks_def Let_def)
qed

lemma elapsed_le_head:
  assumes "timers_inv s" "TMD_Active_Timers_List s = h # hs"
  shows "elapsed_ticks s \<le> tm_remaining_time s h"
  using assms by (auto simp: timers_inv_def elapsed_ticks_def Let_def)

lemma restart_count_down_list [simp]:
  "TMD_Active_Timers_List (restart_count_down s) = TMD_Active_Timers_List s"
  "tm_remaining_time (restart_count_down s) = tm_remaining_time s"
  "TMD_Active_List_Busy (restart_count_down s) = TMD_Active_List_Busy s"
  by (auto simp: restart_count_down_def TMCT_Adjust_Timer_def Let_def split: list.splits)

lemma restart_count_down_elapsed:
  assumes "TMD_Timer_Start s = TMD_Timer s"
  shows "TMD_Timer_Start (restart_count_down s) \<le> TMD_Timer (restart_count_down s)"
    and "TMD_Active_Timers_List s = h # hs \<Longrightarrow> TMD_Timer_Start (restart_count_down s) \<le> tm_remaining_time s h"
    and "TMD_Timer (restart_count_down s) \<le> TMD_Timer s"
    and "TMD_Active_Timers_List s = h # hs \<Longrightarrow>
      TMD_Timer (restart_count_down s) = TMD_Timer_Start (restart_count_down s) \<or>
      TMD_Timer_Start (restart_count_down s) = 0 \<and> tm_remaining_time s h = 0"
  using assms
  by (auto simp: restart_count_down_def TMCT_Adjust_Timer_def Let_def split: list.splits)

lemma TMC_Start_Timer_busy:
  assumes inv: "timers_inv s" and new: "timer \<notin> set (TMD_Active_Timers_List s)"
    and busy: "TMD_Active_List_Busy s" and ne: "TMD_Active_Timers_List s \<noteq> []"
  shows "u \<in> set (TMD_Active_Timers_List s) \<Longrightarrow>
      expiry (TMC_Start_Timer timer time s) u = expiry s u"
    and "expiry (TMC_Start_Timer timer time s) timer = time"
    and "set (TMD_Active_Timers_List (TMC_Start_Timer timer time s)) =
         insert timer (set (TMD_Active_Timers_List s))"
    and "time < 4294967296 \<Longrightarrow> timers_inv (TMC_Start_Timer timer time s)"
proof -
  let ?L = "TMD_Active_Timers_List s" and ?r = "tm_remaining_time s"
  obtain time' before after rem' where ss: "start_search ?r time ?L = (time', before, after, rem')"
    by (metis prod_cases4)
  let ?s = "s\<lparr>TMD_Active_Timers_List := before @ timer # after, tm_remaining_time := rem'(timer := time')\<rparr>"
  have eq: "TMC_Start_Timer timer time s = ?s" using busy ne ss by (simp add: TMC_Start_Timer_def)
  have d: "distinct ?L" using inv by (simp add: timers_inv_def)
  note spec = start_search_spec[OF ss d] and ins = delta_sum_insert[OF ss d new]
  show "u \<in> set ?L \<Longrightarrow> expiry (TMC_Start_Timer timer time s) u = expiry s u"
    using ins(1)[of u] by (simp add: eq expiry_def elapsed_ticks_def)
  show "expiry (TMC_Start_Timer timer time s) timer = time"
    using ins(2) busy by (simp add: eq expiry_def elapsed_ticks_def)
  show set: "set (TMD_Active_Timers_List (TMC_Start_Timer timer time s)) = insert timer (set ?L)"
    using spec by (auto simp: eq)
  have "distinct (before @ timer # after)" using spec d new by auto
  then show "time < 4294967296 \<Longrightarrow> timers_inv (TMC_Start_Timer timer time s)"
    using inv busy spec ins by (auto simp: eq timers_inv_def)
qed

lemma TMC_Start_Timer_idle:
  assumes inv: "timers_inv s" and new: "timer \<notin> set (TMD_Active_Timers_List s)"
    and idle: "\<not> TMD_Active_List_Busy s" and ne: "TMD_Active_Timers_List s \<noteq> []"
  shows "u \<in> set (TMD_Active_Timers_List s) \<Longrightarrow>
      expiry (TMC_Start_Timer timer time s) u = expiry s u"
    and "expiry (TMC_Start_Timer timer time s) timer = time"
    and "set (TMD_Active_Timers_List (TMC_Start_Timer timer time s)) =
         insert timer (set (TMD_Active_Timers_List s))"
    and "time < 4294967296 \<Longrightarrow> timers_inv (TMC_Start_Timer timer time s)"
proof -
  obtain h hs where L: "TMD_Active_Timers_List s = h # hs" using ne by (cases "TMD_Active_Timers_List s") auto
  define e where "e = elapsed_ticks s"
  define r where "r = (tm_remaining_time s)(h := tm_remaining_time s h - e)"
  have e: "e \<le> tm_remaining_time s h" unfolding e_def by (rule elapsed_le_head[OF inv L])
  have d: "distinct (h # hs)" using inv L by (simp add: timers_inv_def)
  have adj: "adjust_head s = s\<lparr>TMD_Timer_Start := TMD_Timer s, tm_remaining_time := r\<rparr>"
    unfolding r_def e_def by (rule adjust_head_eq[OF inv L idle])
  obtain time' before after rem' where ss: "start_search r time (h # hs) = (time', before, after, rem')"
    by (metis prod_cases4)
  define s2 where "s2 = s\<lparr>TMD_Timer_Start := TMD_Timer s,
    TMD_Active_Timers_List := before @ timer # after, tm_remaining_time := rem'(timer := time')\<rparr>"
  have eq: "TMC_Start_Timer timer time s = restart_count_down s2"
    using idle L ss by (simp add: TMC_Start_Timer_def adj s2_def)
  have new': "timer \<notin> set (h # hs)" using new L by simp
  note spec = start_search_spec[OF ss d] and ins = delta_sum_insert[OF ss d new']
  have ds: "delta_sum r (h # hs) t = delta_sum (tm_remaining_time s) (h # hs) t - e" for t
    unfolding r_def using e d by (intro delta_sum_head) auto
  have st: "TMD_Timer_Start s2 = TMD_Timer s2" by (simp add: s2_def)
  have z: "elapsed_ticks (restart_count_down s2) = 0"
    using restart_count_down_elapsed(1)[OF st] by (simp add: elapsed_ticks_def)
  have ex: "expiry (TMC_Start_Timer timer time s) t =
      delta_sum (rem'(timer := time')) (before @ timer # after) t" for t
    by (simp add: eq expiry_def z) (simp add: s2_def)
  show "u \<in> set (TMD_Active_Timers_List s) \<Longrightarrow> expiry (TMC_Start_Timer timer time s) u = expiry s u"
    unfolding ex expiry_def[of s] L e_def[symmetric] using ins(1)[of u] ds[of u] by simp
  show "expiry (TMC_Start_Timer timer time s) timer = time" using ins(2) by (simp add: ex)
  show "set (TMD_Active_Timers_List (TMC_Start_Timer timer time s)) = insert timer (set (TMD_Active_Timers_List s))"
    using spec by (auto simp: eq s2_def L)
  assume t: "time < 4294967296"
  obtain h2 hs2 where L2: "TMD_Active_Timers_List s2 = h2 # hs2"
    by (cases "TMD_Active_Timers_List s2") (auto simp: s2_def)
  note rc = restart_count_down_elapsed[OF st] and rc2 = restart_count_down_elapsed(2)[OF st L2]
    and rc4 = restart_count_down_elapsed(4)[OF st L2]
  have tb: "TMD_Timer s2 < 4294967296" using inv by (simp add: s2_def timers_inv_def)
  have hd2: "hd (TMD_Active_Timers_List s2) = h2" using L2 by simp
  have dist: "distinct (TMD_Active_Timers_List s2)" using spec d new' by (auto simp: s2_def)
  have sums: "\<forall>u \<in> set (TMD_Active_Timers_List s2).
      delta_sum (tm_remaining_time s2) (TMD_Active_Timers_List s2) u < 4294967296"
  proof
    fix u assume u: "u \<in> set (TMD_Active_Timers_List s2)"
    show "delta_sum (tm_remaining_time s2) (TMD_Active_Timers_List s2) u < 4294967296"
    proof (cases "u = timer")
      case True
      then show ?thesis using ins(2) t by (simp add: s2_def)
    next
      case False
      with u spec have uin: "u \<in> set (h # hs)" by (auto simp: s2_def)
      then have "delta_sum (tm_remaining_time s) (h # hs) u < 4294967296"
        using inv L by (auto simp: timers_inv_def)
      then have "delta_sum r (h # hs) u < 4294967296" unfolding ds by simp
      then show ?thesis using ins(1)[OF uin] by (simp add: s2_def)
    qed
  qed
  have "TMD_Timer_Start (restart_count_down s2) < 4294967296"
    "TMD_Timer (restart_count_down s2) < 4294967296" using rc(1,3) tb by linarith+
  with dist sums rc2 rc4 show "timers_inv (TMC_Start_Timer timer time s)"
    unfolding eq timers_inv_def restart_count_down_list Let_def hd2 by auto
qed

lemma TMC_Start_Timer_empty:
  assumes "TMD_Active_Timers_List s = []"
  shows "expiry (TMC_Start_Timer timer time s) timer = time"
    and "TMD_Active_Timers_List (TMC_Start_Timer timer time s) = [timer]"
    and "time < 4294967296 \<Longrightarrow> TMD_Timer s < 4294967296 \<Longrightarrow> timers_inv (TMC_Start_Timer timer time s)"
  using assms
  by (auto simp: TMC_Start_Timer_def TMCT_Enable_Timer_def expiry_def elapsed_ticks_def timers_inv_def Let_def)

lemma TMC_Start_Timer_facts:
  assumes "timers_inv s" and "timer \<notin> set (TMD_Active_Timers_List s)" and "time < 4294967296"
  shows "expiry (TMC_Start_Timer timer time s) timer = time \<and>
    (\<forall>u \<in> set (TMD_Active_Timers_List s). expiry (TMC_Start_Timer timer time s) u = expiry s u) \<and>
    set (TMD_Active_Timers_List (TMC_Start_Timer timer time s)) =
      insert timer (set (TMD_Active_Timers_List s)) \<and>
    timers_inv (TMC_Start_Timer timer time s)"
proof -
  have b: "TMD_Timer s < 4294967296" using assms(1) by (simp add: timers_inv_def)
  consider "TMD_Active_Timers_List s = []"
    | "TMD_Active_Timers_List s \<noteq> []" "TMD_Active_List_Busy s"
    | "TMD_Active_Timers_List s \<noteq> []" "\<not> TMD_Active_List_Busy s" by blast
  then show ?thesis
  proof cases
    case 1
    then show ?thesis using TMC_Start_Timer_empty[OF 1] assms b by simp
  next
    case 2
    then show ?thesis using TMC_Start_Timer_busy[OF assms(1,2)] assms(3) by simp
  next
    case 3
    then show ?thesis using TMC_Start_Timer_idle[OF assms(1,2)] assms(3) by simp
  qed
qed

text \<open>
  Starting a timer for \<open>time\<close> ticks makes it expire in exactly \<open>time\<close> ticks and moves the expiry
  of no timer that is already active; the new timer is the only one added, and the invariant of the
  active list is kept.
\<close>

theorem TMC_Start_Timer_expiry:
  assumes "timers_inv s" and "timer \<notin> set (TMD_Active_Timers_List s)" and "time < 4294967296"
  shows "expiry (TMC_Start_Timer timer time s) timer = time \<and>
    (\<forall>u \<in> set (TMD_Active_Timers_List s). expiry (TMC_Start_Timer timer time s) u = expiry s u) \<and>
    set (TMD_Active_Timers_List (TMC_Start_Timer timer time s)) =
      insert timer (set (TMD_Active_Timers_List s)) \<and>
    timers_inv (TMC_Start_Timer timer time s)"
  by (rule TMC_Start_Timer_facts[OF assms])

definition sample_timers :: timers where
  "sample_timers = \<lparr>TMD_Active_Timers_List = [1, 2], tm_remaining_time = (\<lambda>t. if t = 1 then 30 else 5),
     TMD_Active_List_Busy = False, TMD_Timer_Start = 30, TMD_Timer = 20, TMD_Timer_State = TM_ACTIVE\<rparr>"

lemma sample_timers_inv: "timers_inv sample_timers"
  by (simp add: sample_timers_def timers_inv_def)

theorem TMC_Start_Timer_expiry_witness:
  "expiry (TMC_Start_Timer 3 22 sample_timers) 3 = 22 \<and>
   expiry (TMC_Start_Timer 3 22 sample_timers) 1 = 20 \<and>
   expiry (TMC_Start_Timer 3 22 sample_timers) 2 = 25"
proof -
  have "3 \<notin> set (TMD_Active_Timers_List sample_timers)" "(22::nat) < 4294967296"
    by (simp_all add: sample_timers_def)
  from TMC_Start_Timer_expiry[OF sample_timers_inv this] show ?thesis
    by (simp add: sample_timers_def) (simp add: expiry_def elapsed_ticks_def)
qed

section \<open>Stopping keeps every other expiry\<close>

lemma next_in_split:
  "distinct (xs @ t # ys) \<Longrightarrow> next_in (xs @ t # ys) t = list_head ys"
proof (induction xs)
  case Nil
  then show ?case by (cases ys) auto
next
  case (Cons x xs)
  then show ?case by (cases xs) auto
qed

lemma delta_sum_unlink:
  assumes d: "distinct (xs @ t # ys)" and u: "u \<in> set (xs @ ys)"
    and b: "\<forall>v \<in> set (xs @ t # ys). delta_sum r (xs @ t # ys) v < 4294967296"
    and r': "r' = (case list_head ys of None \<Rightarrow> r | Some n \<Rightarrow> r(n := add32 (r n) (r t)))"
  shows "delta_sum r' (xs @ ys) u = delta_sum r (xs @ t # ys) u"
proof (cases ys)
  case Nil
  then show ?thesis using u r' d by (auto simp: delta_sum_append_in)
next
  case (Cons y zs)
  have "delta_sum r (xs @ t # ys) y < 4294967296" using b Cons by simp
  moreover have "y \<notin> set xs" "y \<noteq> t" "y \<notin> set zs" using d Cons by auto
  ultimately have "r t + r y < 4294967296" using Cons by (simp add: delta_sum_append)
  then have upd: "r' = r(y := r y + r t)" using r' Cons by (simp add: add32_eq add.commute)
  have mx: "sum_list (map (r(y := r y + r t)) xs) = sum_list (map r xs)"
    using \<open>y \<notin> set xs\<close> by (intro arg_cong[where f = sum_list] map_cong) auto
  show ?thesis
  proof (cases "u \<in> set xs")
    case True
    then show ?thesis using \<open>y \<notin> set xs\<close> upd by (simp add: delta_sum_append_in)
  next
    case False
    have "u \<noteq> t" using u d by auto
    then show ?thesis using False Cons \<open>y \<notin> set zs\<close> mx upd by (auto simp: delta_sum_append)
  qed
qed

lemma TMC_Stop_Timer_facts:
  assumes "timers_inv s" and "timer \<in> set (TMD_Active_Timers_List s)"
  shows "TMD_Active_Timers_List (TMC_Stop_Timer timer s) = remove1 timer (TMD_Active_Timers_List s) \<and>
    (\<forall>u \<in> set (TMD_Active_Timers_List s) - {timer}. expiry (TMC_Stop_Timer timer s) u = expiry s u) \<and>
    (TMD_Active_List_Busy s \<or> timer \<noteq> hd (TMD_Active_Timers_List s) \<or> TMD_Timer s \<le> TMD_Timer_Start s \<longrightarrow>
       timers_inv (TMC_Stop_Timer timer s))"
proof -
  from assms(2) obtain xs ys where L: "TMD_Active_Timers_List s = xs @ timer # ys"
    by (meson split_list)
  define r where "r = tm_remaining_time s"
  define r' where "r' = (case list_head ys of None \<Rightarrow> r | Some n \<Rightarrow> r(n := add32 (r n) (r timer)))"
  have d: "distinct (xs @ timer # ys)" and b: "\<forall>v \<in> set (xs @ timer # ys). delta_sum r (xs @ timer # ys) v < 4294967296"
    using assms(1) L by (auto simp: timers_inv_def r_def)
  have rm: "remove1 timer (xs @ timer # ys) = xs @ ys" using d by (simp add: remove1_append)
  have list: "TMD_Active_Timers_List (TMC_Stop_Timer timer s) = xs @ ys"
    and rem: "tm_remaining_time (TMC_Stop_Timer timer s) = r'"
    and same: "TMD_Timer_Start (TMC_Stop_Timer timer s) = TMD_Timer_Start s"
      "TMD_Timer (TMC_Stop_Timer timer s) = TMD_Timer s"
      "TMD_Active_List_Busy (TMC_Stop_Timer timer s) = TMD_Active_List_Busy s"
    unfolding r'_def r_def TMC_Stop_Timer_def L next_in_split[OF d]
    using rm d by (auto simp: Let_def append_eq_Cons_conv)
  have sums: "u \<in> set (xs @ ys) \<Longrightarrow> delta_sum r' (xs @ ys) u = delta_sum r (xs @ timer # ys) u" for u
    by (rule delta_sum_unlink[OF d _ b r'_def])
  have ex: "\<forall>u \<in> set (xs @ timer # ys) - {timer}. expiry (TMC_Stop_Timer timer s) u = expiry s u"
    using sums by (auto simp: expiry_def elapsed_ticks_def list rem same L r_def)
  have inv: "timers_inv (TMC_Stop_Timer timer s)"
    if c: "TMD_Active_List_Busy s \<or> timer \<noteq> hd (TMD_Active_Timers_List s) \<or> TMD_Timer s \<le> TMD_Timer_Start s"
  proof (cases "TMD_Active_List_Busy s \<or> xs @ ys = []")
    case True
    then show ?thesis using assms(1) d b sums L r_def
      by (auto simp: timers_inv_def list rem same)
  next
    case False
    have hdr: "r (hd (xs @ timer # ys)) \<le> r' (hd (xs @ ys)) \<and>
        (timer \<noteq> hd (xs @ timer # ys) \<longrightarrow> r' (hd (xs @ ys)) = r (hd (xs @ timer # ys)))"
    proof (cases xs)
      case Nil
      with False obtain y zs where y: "ys = y # zs" by (cases ys) auto
      have "delta_sum r' (xs @ ys) y = delta_sum r (xs @ timer # ys) y" by (rule sums) (simp add: y)
      then show ?thesis using Nil y d by auto
    next
      case (Cons x zs)
      then show ?thesis using d by (cases ys) (auto simp: r'_def)
    qed
    have "TMD_Timer_Start s \<le> r (hd (xs @ timer # ys)) \<and>
        (TMD_Timer s \<le> TMD_Timer_Start s \<or> TMD_Timer_Start s = 0 \<and> r (hd (xs @ timer # ys)) = 0)"
      using assms(1) False L r_def by (simp add: timers_inv_def Let_def)
    then show ?thesis using assms(1) d b sums hdr c L False
      by (auto simp: timers_inv_def list rem same Let_def)
  qed
  show ?thesis using list rm ex inv L by simp
qed

text \<open>
  Stopping an active timer takes exactly that timer off the list and moves the expiry of no other
  timer. The invariant is kept while the list is being processed, and otherwise as long as the stopped timer is
  not an expired first entry.
\<close>

theorem TMC_Stop_Timer_expiry:
  assumes "timers_inv s" and "timer \<in> set (TMD_Active_Timers_List s)"
  shows "TMD_Active_Timers_List (TMC_Stop_Timer timer s) = remove1 timer (TMD_Active_Timers_List s) \<and>
    (\<forall>u \<in> set (TMD_Active_Timers_List s) - {timer}. expiry (TMC_Stop_Timer timer s) u = expiry s u) \<and>
    (TMD_Active_List_Busy s \<or> timer \<noteq> hd (TMD_Active_Timers_List s) \<or> TMD_Timer s \<le> TMD_Timer_Start s \<longrightarrow>
       timers_inv (TMC_Stop_Timer timer s))"
  by (rule TMC_Stop_Timer_facts[OF assms])

theorem TMC_Stop_Timer_expiry_witness:
  "TMD_Active_Timers_List (TMC_Stop_Timer 1 sample_timers) = [2] \<and>
   expiry (TMC_Stop_Timer 1 sample_timers) 2 = 25"
proof -
  have "1 \<in> set (TMD_Active_Timers_List sample_timers)" by (simp add: sample_timers_def)
  from TMC_Stop_Timer_expiry[OF sample_timers_inv this] show ?thesis
    by (simp add: sample_timers_def) (simp add: expiry_def elapsed_ticks_def)
qed

text \<open>
  The exception in the invariant matters. Timer 1 has 20 ticks left; timer 2 is started with a time
  of 0 (\<open>NU_Sleep(0)\<close>) and stopped again before the timer HISR runs; starting timer 3 then computes a
  wrapped elapsed time from the stale count-down register and clears the remaining time of timer 1,
  which now expires at once instead of after 20 ticks.
\<close>

theorem TMC_Start_Timer_early_expiry:
  "let s0 = sample_timers; s1 = TMC_Start_Timer 3 0 s0; s2 = TMC_Stop_Timer 3 s1; s3 = TMC_Start_Timer 4 5 s2
   in expiry s0 1 = 20 \<and> expiry s2 1 = 20 \<and> expiry s3 1 = 0"
  by (simp add: sample_timers_def TMC_Start_Timer_def TMC_Stop_Timer_def adjust_head_def
      restart_count_down_def TMCT_Adjust_Timer_def expiry_def elapsed_ticks_def sub32_def add32_def Let_def)

section \<open>The tick\<close>

text \<open>The part of \<open>TMCT_Timer_Interrupt\<close> that serves the count-down timer.\<close>

definition tick_timer :: "timers \<Rightarrow> timers" where
  "tick_timer s =
    (if TMD_Timer_State s = TM_ACTIVE then
       (let s1 = s\<lparr>TMD_Timer := dec32 (TMD_Timer s)\<rparr>
        in if TMD_Timer s1 = 0 then s1\<lparr>TMD_Timer_State := TM_EXPIRED\<rparr> else s1)
     else s)"

lemma tick_timer_facts:
  assumes "timers_inv s" and "\<not> TMD_Active_List_Busy s" and "TMD_Timer_State s = TM_ACTIVE"
    and "0 < TMD_Timer s" and "TMD_Timer s \<le> TMD_Timer_Start s"
  shows "timers_inv (tick_timer s) \<and>
    (\<forall>t \<in> set (TMD_Active_Timers_List s). expiry (tick_timer s) t = expiry s t - 1) \<and>
    (TMD_Timer_State (tick_timer s) = TM_EXPIRED \<longleftrightarrow> TMD_Timer s = 1)"
proof -
  have b: "TMD_Timer s < 4294967296" using assms(1) by (simp add: timers_inv_def)
  have d: "dec32 (TMD_Timer s) = TMD_Timer s - 1" using dec32_eq[OF assms(4) b] .
  have "elapsed_ticks (tick_timer s) = Suc (elapsed_ticks s)"
    using assms d by (auto simp: tick_timer_def elapsed_ticks_def Let_def)
  then show ?thesis using assms d b
    by (auto simp: tick_timer_def timers_inv_def expiry_def Let_def)
qed

text \<open>
  While the count-down timer runs, every tick brings every active timer exactly one tick closer to
  its expiry, and the timer is marked expired precisely when the count-down reaches 0.
\<close>

theorem tick_timer_expiry:
  assumes "timers_inv s" and "\<not> TMD_Active_List_Busy s" and "TMD_Timer_State s = TM_ACTIVE"
    and "0 < TMD_Timer s" and "TMD_Timer s \<le> TMD_Timer_Start s"
  shows "timers_inv (tick_timer s) \<and>
    (\<forall>t \<in> set (TMD_Active_Timers_List s). expiry (tick_timer s) t = expiry s t - 1) \<and>
    (TMD_Timer_State (tick_timer s) = TM_EXPIRED \<longleftrightarrow> TMD_Timer s = 1)"
  by (rule tick_timer_facts[OF assms])

theorem tick_timer_expiry_witness:
  "expiry (tick_timer sample_timers) 1 = 19 \<and> expiry (tick_timer sample_timers) 2 = 24"
proof -
  have "\<not> TMD_Active_List_Busy sample_timers" "TMD_Timer_State sample_timers = TM_ACTIVE"
    "0 < TMD_Timer sample_timers" "TMD_Timer sample_timers \<le> TMD_Timer_Start sample_timers"
    by (simp_all add: sample_timers_def)
  from tick_timer_expiry[OF sample_timers_inv this] show ?thesis
    by (simp add: sample_timers_def) (simp add: expiry_def elapsed_ticks_def)
qed

section \<open>The system clock\<close>

record clock =
  TMD_System_Clock :: "32 word"
  TMD_System_Clock_Upper :: "32 word"
  TMD_System_Clock_Offset :: "64 word"
  TMD_Last_OS_Tick :: "32 word"
  TMD_Last_HW_Tick :: "32 word"
  TMD_Last_Time_Stamp :: "64 word"

definition NU_Set_Clock :: "32 word \<Rightarrow> clock \<Rightarrow> clock" where
  "NU_Set_Clock new_value c = c\<lparr>TMD_System_Clock := new_value\<rparr>"

definition NU_Retrieve_Clock :: "clock \<Rightarrow> 32 word" where
  "NU_Retrieve_Clock c = TMD_System_Clock c"

definition TMCT_Increment_Clock :: "clock \<Rightarrow> clock" where
  "TMCT_Increment_Clock c = c\<lparr>TMD_System_Clock := TMD_System_Clock c + 1\<rparr>"

text \<open>The part of \<open>TMCT_Timer_Interrupt\<close> that serves the clock.\<close>

definition tick_clock :: "clock \<Rightarrow> clock" where
  "tick_clock c =
    (let c1 = TMCT_Increment_Clock c
     in if NU_Retrieve_Clock c1 = 0
        then c1\<lparr>TMD_System_Clock_Upper := TMD_System_Clock_Upper c1 + 1\<rparr> else c1)"

definition clock_ticks :: "clock \<Rightarrow> 64 word" where
  "clock_ticks c = push_bit 32 (ucast (TMD_System_Clock_Upper c)) + ucast (TMD_System_Clock c)"

definition NU_Set_Clock64 :: "64 word \<Rightarrow> clock \<Rightarrow> clock" where
  "NU_Set_Clock64 new_value c = c\<lparr>TMD_System_Clock_Offset := new_value - clock_ticks c\<rparr>"

definition NU_Retrieve_Clock64 :: "clock \<Rightarrow> 64 word" where
  "NU_Retrieve_Clock64 c = clock_ticks c + TMD_System_Clock_Offset c"

definition NU_PLUS_TICKS_PER_SEC :: "64 word" where
  "NU_PLUS_TICKS_PER_SEC = 100"

definition NU_Ticks_To_Time :: "64 word \<Rightarrow> 32 word" where
  "NU_Ticks_To_Time ticks = (if ticks \<noteq> 0 then ucast (ticks div NU_PLUS_TICKS_PER_SEC) else 0)"

definition NU_Time_To_Ticks :: "32 word \<Rightarrow> 64 word" where
  "NU_Time_To_Ticks cal_time = scast cal_time * NU_PLUS_TICKS_PER_SEC"

text \<open>
  \<open>hw_ticks\<close> is \<open>NU_HW_Ticks_Per_SW_Tick\<close> and \<open>hw_tick_count\<close> what the hardware timer read returns;
  \<open>count_down\<close> is the build switch \<open>NU_COUNT_DOWN\<close>.
\<close>

definition NU_Get_Time_Stamp :: "bool \<Rightarrow> 64 word \<Rightarrow> 32 word \<Rightarrow> clock \<Rightarrow> 64 word \<times> clock" where
  "NU_Get_Time_Stamp count_down hw_ticks hw_tick_count c =
    (let os_tick_count = NU_Retrieve_Clock64 c;
         time_stamp =
           (if ucast (TMD_Last_OS_Tick c) = os_tick_count \<and> TMD_Last_HW_Tick c = hw_tick_count
            then TMD_Last_Time_Stamp c + 1
            else
              (let ts = (if count_down
                         then os_tick_count * hw_ticks + (hw_ticks - ucast hw_tick_count)
                         else os_tick_count * hw_ticks + ucast hw_tick_count)
               in if ts \<le> TMD_Last_Time_Stamp c then ts + hw_ticks else ts))
     in (time_stamp, c\<lparr>TMD_Last_OS_Tick := ucast os_tick_count, TMD_Last_HW_Tick := hw_tick_count,
                      TMD_Last_Time_Stamp := time_stamp\<rparr>))"

lemma uint_push_ucast:
  "uint (push_bit 32 (ucast (u :: 32 word)) + ucast (l :: 32 word) :: 64 word) =
     uint u * 4294967296 + uint l"
proof -
  have u: "uint u < 4294967296" and l: "uint l < 4294967296"
    using uint_lt2p[of u] uint_lt2p[of l] by simp_all
  have "uint u * 4294967296 + uint l < 18446744073709551616" using u l by linarith
  moreover have "0 \<le> uint u * 4294967296 + uint l" by simp
  ultimately show ?thesis
    by (simp add: uint_word_ariths push_bit_eq_mult unsigned_ucast_eq take_bit_eq_mod mod_simps)
qed

lemma tick_clock_ticks: "clock_ticks (tick_clock c) = clock_ticks c + 1"
proof (cases "TMD_System_Clock c + 1 = 0")
  case True
  then have l: "TMD_System_Clock c = - 1" by (simp add: eq_neg_iff_add_eq_0)
  have "uint (clock_ticks (tick_clock c)) = uint (TMD_System_Clock_Upper c + 1) * 4294967296"
    using True uint_push_ucast[of "TMD_System_Clock_Upper c + 1" 0]
    by (simp add: tick_clock_def TMCT_Increment_Clock_def NU_Retrieve_Clock_def clock_ticks_def Let_def)
  also have "\<dots> = (uint (TMD_System_Clock_Upper c) + 1) * 4294967296 mod (4294967296 * 4294967296)"
    unfolding mod_mult_mult2 by (simp add: uint_word_ariths)
  also have "\<dots> = (uint (clock_ticks c) + 1) mod 18446744073709551616"
    unfolding clock_ticks_def l uint_push_ucast
    by (simp add: distrib_right unsigned_minus_1_eq_mask mask_eq_exp_minus_1 add.commute)
  also have "\<dots> = uint (clock_ticks c + 1)" by (simp add: uint_word_ariths)
  finally show ?thesis by (rule word_uint_eqI)
next
  case False
  have m: "uint (TMD_System_Clock c + 1) = (uint (TMD_System_Clock c) + 1) mod 4294967296"
    by (simp add: uint_word_ariths)
  have "uint (TMD_System_Clock c + 1) \<noteq> 0" using False by (simp add: uint_0_iff)
  moreover have "uint (TMD_System_Clock c) < 4294967296" using uint_lt2p[of "TMD_System_Clock c"] by simp
  ultimately have "uint (TMD_System_Clock c) + 1 < 4294967296" unfolding m
    by (smt (verit) mod_self)
  then have "uint (TMD_System_Clock c + 1) = uint (TMD_System_Clock c) + 1"
    unfolding m by (intro mod_pos_pos_trivial) simp_all
  then have "uint (clock_ticks (tick_clock c)) = uint (clock_ticks c) + 1"
    using False by (simp add: tick_clock_def TMCT_Increment_Clock_def NU_Retrieve_Clock_def clock_ticks_def
        uint_push_ucast Let_def)
  then have "(word_of_int (uint (clock_ticks (tick_clock c))) :: 64 word) = word_of_int (uint (clock_ticks c) + 1)"
    by simp
  then show ?thesis by simp
qed

lemma NU_Clock64_value: "NU_Retrieve_Clock64 (NU_Set_Clock64 v c) = v"
  by (simp add: NU_Retrieve_Clock64_def NU_Set_Clock64_def clock_ticks_def)

text \<open>
  After the 64-bit clock has been set to \<open>v\<close>, it reads \<open>v + n\<close> after \<open>n\<close> ticks: the carry from the
  lower into the upper half is never lost, whatever the halves were when the clock was set.
\<close>

theorem NU_Clock64_round_trip:
  "NU_Retrieve_Clock64 ((tick_clock ^^ n) (NU_Set_Clock64 v c)) = v + of_nat n"
proof (induction n)
  case 0
  show ?case by (simp add: NU_Clock64_value)
next
  case (Suc n)
  have "TMD_System_Clock_Offset (tick_clock d) = TMD_System_Clock_Offset d" for d
    by (simp add: tick_clock_def TMCT_Increment_Clock_def Let_def)
  then show ?case using Suc by (simp add: NU_Retrieve_Clock64_def tick_clock_ticks)
qed

text \<open>
  Converting a non-negative calendar time to ticks and back returns it, for every time that fits
  \<open>time_t\<close> (a signed 32-bit value).
\<close>

theorem NU_Time_round_trip:
  assumes "unat t < 2147483648"
  shows "NU_Ticks_To_Time (NU_Time_To_Ticks t) = t"
proof -
  have u: "uint t < 2147483648" using assms by (metis of_nat_less_iff of_nat_numeral uint_nat)
  moreover have "- 2147483648 \<le> uint t" using uint_ge_0[of t] by linarith
  ultimately have "sint t = uint t" by (simp add: sint_uint signed_take_bit_int_eq_self)
  then have s: "(scast t :: 64 word) = ucast t" by (metis of_int_sint of_int_uint)
  have m: "uint (NU_Time_To_Ticks t) = uint t * 100"
    using u by (simp add: NU_Time_To_Ticks_def NU_PLUS_TICKS_PER_SEC_def s uint_word_ariths
        unsigned_ucast_eq take_bit_eq_mod)
  then have d: "uint (NU_Time_To_Ticks t div NU_PLUS_TICKS_PER_SEC) = uint t"
    by (simp add: uint_div NU_PLUS_TICKS_PER_SEC_def)
  show ?thesis
  proof (cases "NU_Time_To_Ticks t = 0")
    case True
    with m have "uint t = 0" by simp
    then have "t = 0" by (simp add: uint_0_iff)
    with True show ?thesis by (simp add: NU_Ticks_To_Time_def)
  next
    case False
    have "ucast (NU_Time_To_Ticks t div NU_PLUS_TICKS_PER_SEC) = t"
      by (rule word_uint_eqI) (use u in \<open>simp add: unsigned_ucast_eq take_bit_int_eq_self d\<close>)
    with False show ?thesis by (simp add: NU_Ticks_To_Time_def)
  qed
qed

theorem NU_Time_round_trip_witness: "NU_Ticks_To_Time (NU_Time_To_Ticks 86400) = 86400"
  by (rule NU_Time_round_trip) simp

text \<open>
  Time stamps never repeat and never go back as long as the computed stamp is less than one
  software tick behind the last one and no sum wraps.
\<close>

theorem NU_Get_Time_Stamp_increasing:
  assumes "NU_Get_Time_Stamp False hw_ticks hw c = (ts, c')"
    and "uint (TMD_Last_Time_Stamp c) + uint hw_ticks + 1 < 2 ^ 64"
    and "uint (TMD_Last_Time_Stamp c) < uint (NU_Retrieve_Clock64 c * hw_ticks + ucast hw) + uint hw_ticks"
  shows "TMD_Last_Time_Stamp c < ts \<and> TMD_Last_Time_Stamp c' = ts"
proof -
  define raw where "raw = NU_Retrieve_Clock64 c * hw_ticks + ucast hw"
  have "ts = (if ucast (TMD_Last_OS_Tick c) = NU_Retrieve_Clock64 c \<and> TMD_Last_HW_Tick c = hw
      then TMD_Last_Time_Stamp c + 1
      else if raw \<le> TMD_Last_Time_Stamp c then raw + hw_ticks else raw)"
    using assms(1) unfolding NU_Get_Time_Stamp_def Let_def raw_def by (simp only: if_False prod.inject)
  then consider "ts = TMD_Last_Time_Stamp c + 1" | "raw \<le> TMD_Last_Time_Stamp c" "ts = raw + hw_ticks"
    | "\<not> raw \<le> TMD_Last_Time_Stamp c" "ts = raw"
    by metis
  then have "TMD_Last_Time_Stamp c < ts"
  proof cases
    case 1
    have "uint (TMD_Last_Time_Stamp c) + 1 < 18446744073709551616"
      using assms(2) uint_ge_0[of hw_ticks] by (simp, linarith)
    then have "uint (TMD_Last_Time_Stamp c + 1) = uint (TMD_Last_Time_Stamp c) + 1"
      by (simp add: uint_word_ariths mod_pos_pos_trivial)
    then show ?thesis using 1 by (simp add: word_less_def)
  next
    case 2
    then have "uint (raw + hw_ticks) = uint raw + uint hw_ticks"
      using assms(2) by (simp add: uint_word_ariths word_le_def)
    then show ?thesis using 2 assms(3) by (simp add: word_less_def raw_def)
  next
    case 3
    then show ?thesis by simp
  qed
  moreover have "TMD_Last_Time_Stamp c' = ts"
    using assms(1) by (auto simp: NU_Get_Time_Stamp_def Let_def)
  ultimately show ?thesis by simp
qed

definition sample_clock :: clock where
  "sample_clock = \<lparr>TMD_System_Clock = 7, TMD_System_Clock_Upper = 0, TMD_System_Clock_Offset = 0,
     TMD_Last_OS_Tick = 6, TMD_Last_HW_Tick = 4, TMD_Last_Time_Stamp = 604\<rparr>"

theorem NU_Get_Time_Stamp_increasing_witness:
  "fst (NU_Get_Time_Stamp False 100 3 sample_clock) = 703 \<and>
   TMD_Last_Time_Stamp sample_clock < fst (NU_Get_Time_Stamp False 100 3 sample_clock)"
proof -
  have c: "NU_Retrieve_Clock64 sample_clock = 7"
    by (simp add: NU_Retrieve_Clock64_def clock_ticks_def sample_clock_def)
  have r: "NU_Get_Time_Stamp False 100 3 sample_clock =
      (703, sample_clock\<lparr>TMD_Last_OS_Tick := 7, TMD_Last_HW_Tick := 3, TMD_Last_Time_Stamp := 703\<rparr>)"
    by (simp add: NU_Get_Time_Stamp_def c Let_def) (simp add: sample_clock_def)
  show ?thesis using NU_Get_Time_Stamp_increasing[OF r] by (simp add: r c) (simp add: sample_clock_def)
qed

text \<open>
  The comment in \<open>NU_Get_Time_Stamp\<close> promises a stamp greater than the last one whenever the
  computed one is not. It is not so: after the clock has been set back by more than one tick, adding
  one tick's worth of hardware ticks still leaves the stamp behind the previous one.
\<close>

theorem NU_Get_Time_Stamp_goes_back:
  "fst (NU_Get_Time_Stamp False 100 3 (NU_Set_Clock64 2 sample_clock)) <
   TMD_Last_Time_Stamp (NU_Set_Clock64 2 sample_clock)"
proof -
  have c: "NU_Retrieve_Clock64 (NU_Set_Clock64 2 sample_clock) = 2"
    using NU_Clock64_value[of 2 sample_clock] .
  show ?thesis by (simp add: NU_Get_Time_Stamp_def c Let_def) (simp add: NU_Set_Clock64_def sample_clock_def)
qed

end
