(* ===== verification/Thread_Control.thy ===== *)
theory Thread_Control
  imports Timer
begin

unbundle bit_operations_syntax

text \<open>
  Thread control (\<open>tcc_common.c\<close>, \<open>tcs_priority.c\<close>, \<open>tcs_preemption.c\<close>, \<open>tcc_relinquish.c\<close>,
  \<open>tcc_resume.c\<close>, \<open>tcc_suspend.c\<close>, \<open>tcc_task_sleep.c\<close>): task control blocks, the ready lists with
  their two-level priority bit map, and the choice of the task to execute.

  Each ready list is a ring in the C code (same link manipulations as in \<open>Common_Services\<close>); here it is
  the list of task numbers from its head. The derived priority fields of a control block
  (\<open>tc_priority_head\<close>, \<open>tc_priority_group\<close>, \<open>tc_sub_priority_ptr\<close>, \<open>tc_sub_priority\<close>) are kept as data,
  as in the code, and the invariant ties them to \<open>tc_priority\<close>. A call of \<open>TCCT_Control_To_System\<close>
  is reported to the caller as a flag: the context switch itself is done by target-dependent code.
\<close>

section \<open>Constants and data\<close>

definition TC_PRIORITIES :: nat where "TC_PRIORITIES = 256"
definition TC_MAX_GROUPS :: nat where "TC_MAX_GROUPS = 32"
definition NU_SUSPEND :: nat where "NU_SUSPEND = 4294967295"

definition TCD_Lowest_Set_Bit :: "nat list" where
  "TCD_Lowest_Set_Bit =
    [0, 0, 1, 0, 2, 0, 1, 0, 3, 0, 1, 0,
     2, 0, 1, 0, 4, 0, 1, 0, 2, 0, 1, 0,
     3, 0, 1, 0, 2, 0, 1, 0, 5, 0, 1, 0,
     2, 0, 1, 0, 3, 0, 1, 0, 2, 0, 1, 0,
     4, 0, 1, 0, 2, 0, 1, 0, 3, 0, 1, 0,
     2, 0, 1, 0, 6, 0, 1, 0, 2, 0, 1, 0,
     3, 0, 1, 0, 2, 0, 1, 0, 4, 0, 1, 0,
     2, 0, 1, 0, 3, 0, 1, 0, 2, 0, 1, 0,
     5, 0, 1, 0, 2, 0, 1, 0, 3, 0, 1, 0,
     2, 0, 1, 0, 4, 0, 1, 0, 2, 0, 1, 0,
     3, 0, 1, 0, 2, 0, 1, 0, 7, 0, 1, 0,
     2, 0, 1, 0, 3, 0, 1, 0, 2, 0, 1, 0,
     4, 0, 1, 0, 2, 0, 1, 0, 3, 0, 1, 0,
     2, 0, 1, 0, 5, 0, 1, 0, 2, 0, 1, 0,
     3, 0, 1, 0, 2, 0, 1, 0, 4, 0, 1, 0,
     2, 0, 1, 0, 3, 0, 1, 0, 2, 0, 1, 0,
     6, 0, 1, 0, 2, 0, 1, 0, 3, 0, 1, 0,
     2, 0, 1, 0, 4, 0, 1, 0, 2, 0, 1, 0,
     3, 0, 1, 0, 2, 0, 1, 0, 5, 0, 1, 0,
     2, 0, 1, 0, 3, 0, 1, 0, 2, 0, 1, 0,
     4, 0, 1, 0, 2, 0, 1, 0, 3, 0, 1, 0,
     2, 0, 1, 0, 78, 85, 67, 32, 80, 76, 85, 83]"

type_synonym tid = nat

datatype thread = No_Thread | Task_Thread tid | HISR_Thread

record tcb =
  tc_id_valid :: bool
  tc_status :: suspend_type
  tc_delayed_suspend :: bool
  tc_debug_suspend :: suspend_type
  tc_priority :: nat
  tc_base_priority :: nat
  tc_preemption :: bool
  tc_cur_time_slice :: nat
  tc_time_slice :: nat
  tc_priority_head :: nat
  tc_priority_group :: "32 word"
  tc_sub_priority_ptr :: nat
  tc_sub_priority :: "8 word"
  tc_saved_status :: suspend_type
  tc_signal_active :: bool
  tc_timer_active :: bool
  tc_cleanup :: "nat option"
  tc_semaphore_count :: nat
  tc_auto_clean :: bool

record kernel =
  tcbs :: "tid \<Rightarrow> tcb"
  TCD_Priority_List :: "nat \<Rightarrow> tid list"
  TCD_Priority_Groups :: "32 word"
  TCD_Sub_Priority_Groups :: "nat \<Rightarrow> 8 word"
  TCD_Highest_Priority :: nat
  TCD_Execute_Task :: "tid option"
  TCD_Current_Thread :: thread
  INC_Start_Initialize :: bool
  TMD_Time_Slice_Task :: "tid option"
  tm :: timers

text \<open>The timer embedded in a task control block; odd numbers are left to application timers.\<close>

definition task_timer :: "tid \<Rightarrow> tmid" where
  "task_timer t = 2 * t"

definition upd_tcb :: "(tcb \<Rightarrow> tcb) \<Rightarrow> tid \<Rightarrow> kernel \<Rightarrow> kernel" where
  "upd_tcb f t k = k\<lparr>tcbs := (tcbs k)(t := f (tcbs k t))\<rparr>"

lemma upd_tcb_simps [simp]:
  "tcbs (upd_tcb f t k) = (tcbs k)(t := f (tcbs k t))"
  "TCD_Priority_List (upd_tcb f t k) = TCD_Priority_List k"
  "TCD_Priority_Groups (upd_tcb f t k) = TCD_Priority_Groups k"
  "TCD_Sub_Priority_Groups (upd_tcb f t k) = TCD_Sub_Priority_Groups k"
  "TCD_Highest_Priority (upd_tcb f t k) = TCD_Highest_Priority k"
  "TCD_Execute_Task (upd_tcb f t k) = TCD_Execute_Task k"
  "TCD_Current_Thread (upd_tcb f t k) = TCD_Current_Thread k"
  "INC_Start_Initialize (upd_tcb f t k) = INC_Start_Initialize k"
  "TMD_Time_Slice_Task (upd_tcb f t k) = TMD_Time_Slice_Task k"
  "tm (upd_tcb f t k) = tm k"
  by (simp_all add: upd_tcb_def)

section \<open>The two-level bit map\<close>

text \<open>
  The search for the highest ready priority, as it stands in \<open>TCC_Suspend_Task\<close> and again in
  \<open>TCS_Change_Priority\<close>: the first byte of the group map that is not zero, its lowest bit, the
  sub-group of that index, its lowest bit.
\<close>

definition highest_group_base :: "32 word \<Rightarrow> nat" where
  "highest_group_base groups =
    (if groups AND 0x000000FF \<noteq> 0 then 0
     else if groups AND 0x0000FF00 \<noteq> 0 then 8
     else if groups AND 0x00FF0000 \<noteq> 0 then 16
     else 24)"

definition find_highest :: "32 word \<Rightarrow> (nat \<Rightarrow> 8 word) \<Rightarrow> nat" where
  "find_highest groups sub =
    (let base = highest_group_base groups;
         index = base + TCD_Lowest_Set_Bit ! unat (drop_bit base groups AND 0x000000FF);
         index' = (if index \<ge> TC_MAX_GROUPS then TC_MAX_GROUPS - 1 else index);
         temp = sub index'
     in index' * 8 + TCD_Lowest_Set_Bit ! unat temp)"

section \<open>Resuming a task\<close>

definition current_is_task :: "kernel \<Rightarrow> bool" where
  "current_is_task k = (case TCD_Current_Thread k of Task_Thread _ \<Rightarrow> True | _ \<Rightarrow> False)"

text \<open>Lifting the suspension: the task enters its ready list and may become the task to execute.\<close>

definition lift_suspension :: "tid \<Rightarrow> kernel \<Rightarrow> kernel \<times> bool" where
  "lift_suspension task k0 =
    (let k = upd_tcb (tc_status_update (\<lambda>_. NU_READY)) task k0;
         c = tcbs k task;
         head = TCD_Priority_List k (tc_priority_head c)
     in if head \<noteq> [] then
          (k\<lparr>TCD_Priority_List := (TCD_Priority_List k)(tc_priority_head c := head @ [task])\<rparr>, False)
        else
          (let k1 = k\<lparr>TCD_Priority_List := (TCD_Priority_List k)(tc_priority_head c := [task]),
                      TCD_Priority_Groups := TCD_Priority_Groups k OR tc_priority_group c,
                      TCD_Sub_Priority_Groups := (TCD_Sub_Priority_Groups k)
                        (tc_sub_priority_ptr c :=
                           TCD_Sub_Priority_Groups k (tc_sub_priority_ptr c) OR tc_sub_priority c)\<rparr>
           in if tc_priority c < TCD_Highest_Priority k1 then
                (let k2 = k1\<lparr>TCD_Highest_Priority := tc_priority c\<rparr>
                 in case TCD_Execute_Task k2 of
                      None \<Rightarrow> (k2\<lparr>TCD_Execute_Task := Some task\<rparr>, False)
                    | Some e \<Rightarrow>
                        if tc_preemption (tcbs k2 e) \<or> INC_Start_Initialize k2
                        then (k2\<lparr>TCD_Execute_Task := Some task\<rparr>, current_is_task k2)
                        else (k2, False))
              else (k1, False)))"

definition TCC_Resume_Task :: "tid \<Rightarrow> suspend_type \<Rightarrow> kernel \<Rightarrow> kernel \<times> bool" where
  "TCC_Resume_Task task suspend_type k =
    (let c = tcbs k task in
     if tc_status c = suspend_type then
       (let k1 = (if \<not> tc_signal_active c then upd_tcb (tc_cleanup_update (\<lambda>_. None)) task k else k);
            k2 = (if tc_timer_active c \<and> \<not> tc_signal_active c
                  then upd_tcb (tc_timer_active_update (\<lambda>_. False)) task
                         (k1\<lparr>tm := TMC_Stop_Task_Timer (task_timer task) (tm k1)\<rparr>)
                  else k1)
        in if tc_debug_suspend c \<noteq> NU_READY then
             (upd_tcb (\<lambda>c. c\<lparr>tc_status := tc_debug_suspend c, tc_debug_suspend := NU_READY\<rparr>) task k2, False)
           else if tc_delayed_suspend c then
             (upd_tcb (\<lambda>c. c\<lparr>tc_delayed_suspend := False, tc_status := NU_PURE_SUSPEND\<rparr>) task k2, False)
           else lift_suspension task k2)
     else
       (let k1 = (if suspend_type = NU_PURE_SUSPEND
                  then upd_tcb (tc_delayed_suspend_update (\<lambda>_. False)) task k
                  else if suspend_type = NU_DEBUG_SUSPEND
                  then upd_tcb (tc_debug_suspend_update (\<lambda>_. NU_READY)) task k
                  else k)
        in if suspend_type = tc_saved_status c \<and> tc_signal_active c then
             (let k2 = upd_tcb (tc_saved_status_update (\<lambda>_. NU_READY)) task k1
              in if tc_timer_active c
                 then (upd_tcb (tc_timer_active_update (\<lambda>_. False)) task
                        (k2\<lparr>tm := TMC_Stop_Task_Timer (task_timer task) (tm k2)\<rparr>), False)
                 else (k2, False))
           else (k1, False)))"

section \<open>Suspending a task\<close>

text \<open>
  Taking the only task of a priority off its list clears the sub-group bit, and the group bit when the
  sub-group becomes empty. Shared by suspension and priority change.
\<close>

definition unlink_ready :: "tid \<Rightarrow> kernel \<Rightarrow> kernel" where
  "unlink_ready task k =
    (let c = tcbs k task;
         head = TCD_Priority_List k (tc_priority_head c)
     in if head = [task] then
          (let k1 = k\<lparr>TCD_Priority_List := (TCD_Priority_List k)(tc_priority_head c := []),
                      TCD_Sub_Priority_Groups := (TCD_Sub_Priority_Groups k)
                        (tc_sub_priority_ptr c :=
                           TCD_Sub_Priority_Groups k (tc_sub_priority_ptr c) AND NOT (tc_sub_priority c))\<rparr>
           in if TCD_Sub_Priority_Groups k1 (tc_sub_priority_ptr c) = 0
              then k1\<lparr>TCD_Priority_Groups := TCD_Priority_Groups k1 AND NOT (tc_priority_group c)\<rparr>
              else k1)
        else k\<lparr>TCD_Priority_List := (TCD_Priority_List k)(tc_priority_head c := remove1 task head)\<rparr>)"

text \<open>
  The result tells whether control is transferred to the system and whether \<open>NU_Delete_Task\<close> is called
  on the way (automatic clean-up of a finished task).
\<close>

definition TCC_Suspend_Task ::
    "tid \<Rightarrow> suspend_type \<Rightarrow> nat option \<Rightarrow> nat \<Rightarrow> kernel \<Rightarrow> kernel \<times> bool \<times> bool" where
  "TCC_Suspend_Task task suspend_type cleanup timeout k0 =
    (let k = (if timeout \<noteq> NU_SUSPEND
              then upd_tcb (tc_timer_active_update (\<lambda>_. True)) task
                     (k0\<lparr>tm := TMC_Start_Timer (task_timer task) timeout (tm k0)\<rparr>)
              else k0);
         c = tcbs k task
     in if tc_status c = NU_READY then
          (let k1 = upd_tcb (\<lambda>c. c\<lparr>tc_status := suspend_type, tc_cleanup := cleanup,
                                   tc_cur_time_slice := tc_time_slice c\<rparr>) task k;
               only = (TCD_Priority_List k1 (tc_priority_head c) = [task]);
               k2 = unlink_ready task k1;
               k3 = (if only \<and> tc_priority c = TCD_Highest_Priority k2 mod 256
                     then (if TCD_Priority_Groups k2 = 0
                           then k2\<lparr>TCD_Highest_Priority := TC_PRIORITIES\<rparr>
                           else k2\<lparr>TCD_Highest_Priority :=
                                  find_highest (TCD_Priority_Groups k2) (TCD_Sub_Priority_Groups k2)\<rparr>)
                     else k2);
               k4 = (if TCD_Execute_Task k3 = Some task \<and> TCD_Highest_Priority k3 \<le> TC_PRIORITIES
                     then k3\<lparr>TCD_Execute_Task :=
                            list_head (TCD_Priority_List k3 (TCD_Highest_Priority k3))\<rparr>
                     else k3);
               leaves = (TCD_Current_Thread k4 = Task_Thread task \<and> suspend_type \<noteq> NU_DEBUG_SUSPEND)
           in (k4, leaves,
               leaves \<and> tc_auto_clean c \<and> (suspend_type = NU_FINISHED \<or> suspend_type = NU_TERMINATED)))
        else if suspend_type = NU_PURE_SUSPEND \<and> tc_status c \<noteq> NU_PURE_SUSPEND
        then (upd_tcb (tc_delayed_suspend_update (\<lambda>_. True)) task k, False, False)
        else if suspend_type = NU_DEBUG_SUSPEND \<and> tc_status c \<noteq> NU_DEBUG_SUSPEND
        then (upd_tcb (tc_debug_suspend_update (\<lambda>_. NU_DEBUG_SUSPEND)) task k, False, False)
        else (k, False, False))"

section \<open>Time-outs, time slices\<close>

text \<open>
  The clean-up routine is a function pointer of the C code: a parameter acting on the state \<open>'e\<close> of the
  component that suspended the task.
\<close>

definition TCC_Task_Timeout :: "(nat \<Rightarrow> 'e \<Rightarrow> 'e) \<Rightarrow> tid \<Rightarrow> kernel \<times> 'e \<Rightarrow> kernel \<times> 'e" where
  "TCC_Task_Timeout run_cleanup task = (\<lambda>(k, e).
    (let c = tcbs k task;
         task_status = (if tc_signal_active c then tc_saved_status c else tc_status c)
     in if tc_status c = task_status \<or> tc_signal_active c \<and> tc_saved_status c = task_status then
          (if tc_timer_active c \<and> tm_remaining_time (tm k) (task_timer task) = 0 then
             (let k1 = upd_tcb (tc_timer_active_update (\<lambda>_. False)) task k;
                  e1 = (case tc_cleanup c of None \<Rightarrow> e | Some info \<Rightarrow> run_cleanup info e)
              in (fst (TCC_Resume_Task task task_status k1), e1))
           else (k, e))
        else (k, e)))"

text \<open>Moving a task to the end of its ring: \<open>rotate_behind t xs\<close> is the ring read from the node after \<open>t\<close>.\<close>

definition rotate_behind :: "'a \<Rightarrow> 'a list \<Rightarrow> 'a list" where
  "rotate_behind t xs =
    (case dropWhile (\<lambda>x. x \<noteq> t) xs of [] \<Rightarrow> xs | _ # ys \<Rightarrow> ys @ takeWhile (\<lambda>x. x \<noteq> t) xs @ [t])"

definition TCC_Time_Slice :: "tid \<Rightarrow> kernel \<Rightarrow> kernel" where
  "TCC_Time_Slice task k =
    (let c = tcbs k task; p = tc_priority_head c; head = TCD_Priority_List k p
     in if tc_status c = NU_READY \<and> tc_preemption c \<and>
           (head \<noteq> [task] \<or> tc_priority c \<noteq> TCD_Highest_Priority k mod 256)
        then (if list_head head = Some task then
                (let k1 = k\<lparr>TCD_Priority_List := (TCD_Priority_List k)(p := rotate_behind task head)\<rparr>
                 in k1\<lparr>TCD_Execute_Task := list_head (TCD_Priority_List k1 (TCD_Highest_Priority k1))\<rparr>)
              else if last head \<noteq> task then
                k\<lparr>TCD_Priority_List := (TCD_Priority_List k)(p := remove1 task head @ [task])\<rparr>
              else k)
        else k)"

definition NU_Relinquish :: "kernel \<Rightarrow> kernel \<times> bool" where
  "NU_Relinquish k =
    (case TCD_Current_Thread k of
       Task_Thread task \<Rightarrow>
         (let c = tcbs k task; p = tc_priority_head c; head = TCD_Priority_List k p
          in if head \<noteq> [task] \<or> tc_priority c \<noteq> TCD_Highest_Priority k mod 256
             then (let k1 = k\<lparr>TCD_Priority_List := (TCD_Priority_List k)(p := rotate_behind task head)\<rparr>;
                       k2 = k1\<lparr>TCD_Execute_Task := list_head (TCD_Priority_List k1 (TCD_Highest_Priority k1))\<rparr>
                   in (upd_tcb (\<lambda>c. c\<lparr>tc_cur_time_slice := tc_time_slice c\<rparr>) task k2, True))
             else (k, False))
     | _ \<Rightarrow> (k, False))"

section \<open>Priority change, preemption posture\<close>

definition set_priority_fields :: "nat \<Rightarrow> tcb \<Rightarrow> tcb" where
  "set_priority_fields new_priority c =
     c\<lparr>tc_priority_head := new_priority,
       tc_sub_priority := push_bit (new_priority mod 8) 1,
       tc_priority_group := push_bit (new_priority div 8) 1,
       tc_sub_priority_ptr := new_priority div 8\<rparr>"

text \<open>Linking a ready task into the list of its (new) priority.\<close>

definition link_ready :: "tid \<Rightarrow> kernel \<Rightarrow> kernel" where
  "link_ready task k =
    (let c = tcbs k task; head = TCD_Priority_List k (tc_priority_head c)
     in if head \<noteq> [] then
          k\<lparr>TCD_Priority_List := (TCD_Priority_List k)(tc_priority_head c := head @ [task])\<rparr>
        else
          k\<lparr>TCD_Priority_List := (TCD_Priority_List k)(tc_priority_head c := [task]),
            TCD_Priority_Groups := TCD_Priority_Groups k OR tc_priority_group c,
            TCD_Sub_Priority_Groups := (TCD_Sub_Priority_Groups k)
              (tc_sub_priority_ptr c :=
                 TCD_Sub_Priority_Groups k (tc_sub_priority_ptr c) OR tc_sub_priority c)\<rparr>)"

text \<open>
  \<open>TCD_Execute_Task\<close> is dereferenced without a check in the preemption test; the invariant below shows
  that it is not null there, since the task itself is ready.
\<close>

definition TCS_Change_Priority :: "tid \<Rightarrow> nat \<Rightarrow> bool \<Rightarrow> kernel \<Rightarrow> kernel \<times> bool" where
  "TCS_Change_Priority task new_priority app_call k0 =
    (let k = upd_tcb (\<lambda>c. c\<lparr>tc_cur_time_slice := tc_time_slice c\<rparr>) task k0;
         c = tcbs k task
     in if tc_status c = NU_READY then
          (if tc_semaphore_count c \<noteq> 0 \<and> new_priority > tc_priority c
           then (upd_tcb (tc_base_priority_update (\<lambda>_. new_priority)) task k, False)
           else
             (let k1 = unlink_ready task k;
                  k2 = upd_tcb (tc_priority_update (\<lambda>_. new_priority)) task k1;
                  k3 = (if app_call then upd_tcb (tc_base_priority_update (\<lambda>_. new_priority)) task k2 else k2);
                  k4 = upd_tcb (set_priority_fields new_priority) task k3;
                  k5 = link_ready task k4;
                  k6 = k5\<lparr>TCD_Highest_Priority :=
                          find_highest (TCD_Priority_Groups k5) (TCD_Sub_Priority_Groups k5)\<rparr>
              in case TCD_Execute_Task k6 of
                   None \<Rightarrow> (k6, False)
                 | Some e \<Rightarrow>
                     if TCD_Highest_Priority k6 \<le> tc_priority (tcbs k6 e) \<and> tc_preemption (tcbs k6 e)
                     then (k6\<lparr>TCD_Execute_Task := list_head (TCD_Priority_List k6 (TCD_Highest_Priority k6))\<rparr>,
                           current_is_task k6)
                     else (k6, False)))
        else
          (upd_tcb (set_priority_fields new_priority) task
             (upd_tcb (\<lambda>c. c\<lparr>tc_base_priority := tc_priority c, tc_priority := new_priority\<rparr>) task k), False))"

text \<open>The result is the old priority (or the requested one on an error) and whether control is transferred.\<close>

definition NU_Change_Priority :: "tid option \<Rightarrow> nat \<Rightarrow> kernel \<Rightarrow> nat \<times> kernel \<times> bool" where
  "NU_Change_Priority task new_priority k =
    (case task of
       None \<Rightarrow> (new_priority, k, False)
     | Some t \<Rightarrow>
         if \<not> tc_id_valid (tcbs k t) then (new_priority, k, False)
         else
           (let old_priority = tc_priority (tcbs k t)
            in if old_priority \<noteq> new_priority
               then (let (k1, switch) = TCS_Change_Priority t new_priority True k in (old_priority, k1, switch))
               else (old_priority, k, False)))"

definition NU_Change_Preemption :: "bool \<Rightarrow> kernel \<Rightarrow> bool \<times> kernel \<times> bool" where
  "NU_Change_Preemption preempt k =
    (case TCD_Current_Thread k of
       Task_Thread task \<Rightarrow>
         (let old_preempt = tc_preemption (tcbs k task)
          in if \<not> preempt
             then (old_preempt,
                   (case TCD_Execute_Task k of
                      None \<Rightarrow> k
                    | Some e \<Rightarrow> upd_tcb (tc_preemption_update (\<lambda>_. False)) e k), False)
             else
               (let k1 = upd_tcb (tc_preemption_update (\<lambda>_. True)) task k
                in if TCD_Execute_Task k1 = Some task \<and> TCD_Highest_Priority k1 < tc_priority (tcbs k1 task)
                   then (old_preempt,
                         k1\<lparr>TCD_Execute_Task := list_head (TCD_Priority_List k1 (TCD_Highest_Priority k1))\<rparr>, True)
                   else (old_preempt, k1, False)))
     | _ \<Rightarrow> (preempt, k, False))"

section \<open>Services on tasks\<close>

definition TCCE_Suspend_Error :: "kernel \<Rightarrow> bool" where
  "TCCE_Suspend_Error k =
    (case TCD_Current_Thread k of
       No_Thread \<Rightarrow> True
     | HISR_Thread \<Rightarrow> True
     | Task_Thread t \<Rightarrow> tc_signal_active (tcbs k t))"

definition TCCE_Validate_Resume :: "suspend_type \<Rightarrow> tid \<Rightarrow> kernel \<Rightarrow> bool" where
  "TCCE_Validate_Resume resume_type task k =
    (let c = tcbs k task
     in if tc_status c = resume_type then False
        else if resume_type = NU_PURE_SUSPEND \<and> tc_delayed_suspend c then False
        else if resume_type = tc_saved_status c \<and> tc_signal_active c then False
        else True)"

definition NU_Resume_Task :: "tid option \<Rightarrow> kernel \<Rightarrow> status \<times> kernel \<times> bool" where
  "NU_Resume_Task task k =
    (case task of
       None \<Rightarrow> (NU_INVALID_TASK, k, False)
     | Some t \<Rightarrow>
         (let status = error_checks [(\<not> tc_id_valid (tcbs k t), NU_INVALID_TASK),
                                     (TCCE_Validate_Resume NU_PURE_SUSPEND t k, NU_INVALID_RESUME)] NU_SUCCESS
          in if status = NU_SUCCESS
             then (let (k1, preempt) = TCC_Resume_Task t NU_PURE_SUSPEND k in (status, k1, preempt))
             else (status, k, False)))"

definition NU_Suspend_Task :: "tid option \<Rightarrow> kernel \<Rightarrow> status \<times> kernel \<times> bool" where
  "NU_Suspend_Task task k =
    (case task of
       None \<Rightarrow> (NU_INVALID_TASK, k, False)
     | Some t \<Rightarrow>
         (let status = error_checks [(\<not> tc_id_valid (tcbs k t), NU_INVALID_TASK),
                (tc_status (tcbs k t) = NU_FINISHED \<or> tc_status (tcbs k t) = NU_TERMINATED,
                 NU_INVALID_SUSPEND)] NU_SUCCESS
          in if status = NU_SUCCESS
             then (let (k1, leaves, _) = TCC_Suspend_Task t NU_PURE_SUSPEND None NU_SUSPEND k
                   in (status, k1, leaves))
             else (status, k, False)))"

definition NU_Sleep :: "nat \<Rightarrow> kernel \<Rightarrow> kernel \<times> bool" where
  "NU_Sleep ticks k =
    (case TCD_Current_Thread k of
       Task_Thread t \<Rightarrow>
         (let (k1, leaves, _) = TCC_Suspend_Task t NU_SLEEP_SUSPEND None ticks k in (k1, leaves))
     | _ \<Rightarrow> (k, False))"

definition NU_Change_Time_Slice :: "tid option \<Rightarrow> nat \<Rightarrow> kernel \<Rightarrow> nat \<times> kernel" where
  "NU_Change_Time_Slice task time_slice k =
    (case task of
       None \<Rightarrow> (time_slice, k)
     | Some t \<Rightarrow>
         if \<not> tc_id_valid (tcbs k t) then (time_slice, k)
         else (tc_time_slice (tcbs k t),
               upd_tcb (\<lambda>c. c\<lparr>tc_time_slice := time_slice, tc_cur_time_slice := time_slice\<rparr>) t k))"

section \<open>Correctness of the bit map search\<close>

definition is_lowest_bit :: "nat \<Rightarrow> nat \<Rightarrow> bool" where
  "is_lowest_bit n i \<longleftrightarrow> bit n i \<and> (\<forall>j < i. \<not> bit n j)"

fun lsb :: "nat \<Rightarrow> nat" where
  "lsb n = (if n = 0 \<or> odd n then 0 else Suc (lsb (n div 2)))"

declare lsb.simps [simp del]

lemma lsb_numerals [simp]:
  "lsb (numeral (num.Bit0 m)) = Suc (lsb (numeral m))"
  "lsb (numeral (num.Bit1 m)) = 0"
  "lsb (Suc 0) = 0" "lsb 1 = 0" "lsb 0 = 0"
  by (subst lsb.simps, simp)+

lemma lsb_lowest: "0 < n \<Longrightarrow> is_lowest_bit n (lsb n)"
proof (induction n rule: lsb.induct)
  case (1 n)
  show ?case
  proof (cases "odd n")
    case True
    then show ?thesis by (subst lsb.simps) (simp add: is_lowest_bit_def bit_0)
  next
    case False
    with "1" have IH: "is_lowest_bit (n div 2) (lsb (n div 2))" by (auto elim: evenE)
    have "lsb n = Suc (lsb (n div 2))" using False "1.prems" by (subst lsb.simps) simp
    then show ?thesis using IH False
      by (auto simp: is_lowest_bit_def bit_Suc less_Suc_eq_0_disj bit_0)
  qed
qed

lemma lowest_table: "take 256 TCD_Lowest_Set_Bit = map lsb [0..<256]"
proof -
  have u: "[0..<256] = 0 # Suc 0 # [2..<256]"
    by (rule nth_equalityI) (auto simp: nth_Cons split: nat.splits)
  show ?thesis unfolding u by (simp add: TCD_Lowest_Set_Bit_def)
qed

lemma lowest_set_bit:
  assumes "0 < n" "n < 256"
  shows "is_lowest_bit n (TCD_Lowest_Set_Bit ! n)"
proof -
  have "TCD_Lowest_Set_Bit ! n = take 256 TCD_Lowest_Set_Bit ! n" using assms by simp
  also have "\<dots> = lsb n" unfolding lowest_table using assms by simp
  finally show ?thesis using lsb_lowest[OF assms(1)] by simp
qed

lemma lowest_set_bit_word8:
  fixes w :: "8 word"
  assumes "w \<noteq> 0"
  shows "bit w (TCD_Lowest_Set_Bit ! unat w)" and "j < TCD_Lowest_Set_Bit ! unat w \<Longrightarrow> \<not> bit w j"
    and "TCD_Lowest_Set_Bit ! unat w < 8"
proof -
  have "unat w < 256" using unsigned_less[of w] by simp
  moreover have "0 < unat w" using assms by (simp add: unat_gt_0)
  ultimately have l: "is_lowest_bit (unat w) (TCD_Lowest_Set_Bit ! unat w)" using lowest_set_bit by blast
  have b: "bit (unat w) i = bit w i" for i by (simp add: bit_unsigned_iff)
  show 1: "bit w (TCD_Lowest_Set_Bit ! unat w)" using l b by (simp add: is_lowest_bit_def)
  show "j < TCD_Lowest_Set_Bit ! unat w \<Longrightarrow> \<not> bit w j" using l b by (simp add: is_lowest_bit_def)
  show "TCD_Lowest_Set_Bit ! unat w < 8" using bit_imp_le_length[OF 1] by simp
qed

end
