(* ===== verification/Scheduler.thy ===== *)
theory Scheduler
  imports Thread_Control
begin

unbundle bit_operations_syntax

text \<open>
  Correctness of thread control: the bit map search finds the highest ready priority, every operation of
  \<open>Thread_Control\<close> keeps the scheduler invariant, and so does every sequence of them (\<open>reachable\<close>). The
  locale \<open>thread_services\<close> is what the components with suspended tasks rely on.
\<close>

section \<open>The bit map search\<close>

definition map_ok :: "(nat \<Rightarrow> tid list) \<Rightarrow> 32 word \<Rightarrow> (nat \<Rightarrow> 8 word) \<Rightarrow> bool" where
  "map_ok rl groups sub \<longleftrightarrow>
     (\<forall>p < 256. bit (sub (p div 8)) (p mod 8) \<longleftrightarrow> rl p \<noteq> []) \<and>
     (\<forall>g < 32. bit groups g \<longleftrightarrow> sub g \<noteq> 0)"

lemma byte_mask: "w AND 0x000000FF = take_bit 8 w" for w :: "32 word"
  by (simp add: take_bit_eq_mask mask_eq_exp_minus_1)

lemma bit_0xFF: "bit (0x000000FF :: 32 word) i \<longleftrightarrow> i < 8"
proof -
  have "(0x000000FF :: 32 word) = mask 8" by (simp add: mask_eq_exp_minus_1)
  then show ?thesis by (simp only: bit_mask_iff) auto
qed

lemma byte_bits: "bit (drop_bit b G AND 0x000000FF) i \<longleftrightarrow> i < 8 \<and> bit G (b + i)" for G :: "32 word"
  by (auto simp: byte_mask bit_take_bit_iff bit_drop_bit_eq)

lemma group_byte:
  fixes G :: "32 word"
  assumes "drop_bit b G AND 0x000000FF \<noteq> 0" and low: "\<forall>i < b. \<not> bit G i"
  defines "m \<equiv> b + TCD_Lowest_Set_Bit ! unat (drop_bit b G AND 0x000000FF)"
  shows "bit G m \<and> (\<forall>i < m. \<not> bit G i)"
proof -
  define w where "w = drop_bit b G AND 0x000000FF"
  have lt: "unat w < 256"
    using take_bit_nat_less_exp[of 8 "unat (drop_bit b G)"]
    by (simp add: w_def byte_mask unsigned_take_bit_eq)
  moreover have "0 < unat w" using assms(1) by (simp add: w_def unat_gt_0)
  ultimately have l: "is_lowest_bit (unat w) (TCD_Lowest_Set_Bit ! unat w)" by (rule lowest_set_bit[rotated])
  have bw: "bit (unat w) i \<longleftrightarrow> i < 8 \<and> bit G (b + i)" for i
    by (simp add: bit_unsigned_iff w_def byte_bits)
  have m: "m = b + TCD_Lowest_Set_Bit ! unat w" by (simp add: m_def w_def)
  have "bit G m" and i8: "TCD_Lowest_Set_Bit ! unat w < 8" using l bw m by (auto simp: is_lowest_bit_def)
  moreover have "\<not> bit G i" if "i < m" for i
  proof (cases "i < b")
    case True
    then show ?thesis using low by simp
  next
    case False
    then have "i - b < TCD_Lowest_Set_Bit ! unat w" using that m by simp
    then have "\<not> bit (unat w) (i - b)" using l by (simp add: is_lowest_bit_def)
    then show ?thesis using bw[of "i - b"] i8 \<open>i - b < _\<close> False by simp
  qed
  ultimately show ?thesis by blast
qed

lemma byte_zero:
  fixes G :: "32 word"
  assumes "drop_bit b G AND 0x000000FF = 0" "b \<le> i" "i < b + 8"
  shows "\<not> bit G i"
proof -
  have "\<not> bit (drop_bit b G AND 0x000000FF) (i - b)" using assms(1) by simp
  then show ?thesis using assms(2,3) by (simp add: byte_bits)
qed


lemma group_bytes:
  fixes G :: "32 word"
  shows "G AND 0x0000FF00 = 0 \<longleftrightarrow> drop_bit 8 G AND 0x000000FF = 0"
    and "G AND 0x00FF0000 = 0 \<longleftrightarrow> drop_bit 16 G AND 0x000000FF = 0"
proof -
  have m: "G AND push_bit n 0xFF = 0 \<longleftrightarrow> drop_bit n G AND 0xFF = 0" for n :: nat
  proof
    assume z: "G AND push_bit n 0xFF = 0"
    have "\<not> bit (drop_bit n G AND 0xFF) i" for i
      using arg_cong[OF z, of "\<lambda>w. bit w (n + i)"] bit_imp_le_length[of G "n + i"]
      by (auto simp: bit_and_iff bit_push_bit_iff bit_0xFF bit_drop_bit_eq simp del: bit_numeral_word_iff)
    then show "drop_bit n G AND 0xFF = 0" by (auto simp: bit_eq_iff)
  next
    assume z: "drop_bit n G AND 0xFF = 0"
    have "\<not> bit (G AND push_bit n 0xFF) i" for i
      using byte_zero[OF z, of i]
      by (cases "i < n + 8") (auto simp: bit_and_iff bit_push_bit_iff bit_0xFF simp del: bit_numeral_word_iff)
    then show "G AND push_bit n 0xFF = 0" by (auto simp: bit_eq_iff)
  qed
  show "G AND 0x0000FF00 = 0 \<longleftrightarrow> drop_bit 8 G AND 0x000000FF = 0" using m[of 8] by simp
  show "G AND 0x00FF0000 = 0 \<longleftrightarrow> drop_bit 16 G AND 0x000000FF = 0" using m[of 16] by simp
qed

lemma highest_group:
  fixes G :: "32 word"
  assumes "G \<noteq> 0"
  defines "b \<equiv> highest_group_base G"
  shows "drop_bit b G AND 0x000000FF \<noteq> 0" and "\<forall>i < b. \<not> bit G i"
proof -
  have z: "\<not> bit G i" if "drop_bit c G AND 0x000000FF = 0" "c \<le> i" "i < c + 8" for c i
    using byte_zero that by blast
  have top: "drop_bit 24 G AND 0x000000FF \<noteq> 0"
    if "G AND 0x000000FF = 0" "drop_bit 8 G AND 0x000000FF = 0" "drop_bit 16 G AND 0x000000FF = 0"
  proof
    assume "drop_bit 24 G AND 0x000000FF = 0"
    then have "\<not> bit G i" for i
      using that z[of 0 i] z[of 8 i] z[of 16 i] z[of 24 i] bit_imp_le_length[of G i]
      by (cases "i < 8"; cases "i < 16"; cases "i < 24"; cases "i < 32") (auto simp: not_less)
    then show False using assms(1) by (auto simp: bit_eq_iff)
  qed
  show "drop_bit b G AND 0x000000FF \<noteq> 0"
    using top by (auto simp: b_def highest_group_base_def group_bytes)
  show "\<forall>i < b. \<not> bit G i"
  proof (intro allI impI)
    fix i assume "i < b"
    then show "\<not> bit G i"
      using z[of 0 i] z[of 8 i] z[of 16 i]
      by (cases "i < 8"; cases "i < 16") (auto simp: b_def highest_group_base_def group_bytes split: if_splits)
  qed
qed

lemma find_highest_least:
  assumes ok: "map_ok rl G S" and nz: "G \<noteq> 0"
  shows "find_highest G S < 256 \<and> rl (find_highest G S) \<noteq> [] \<and> (\<forall>q < find_highest G S. rl q = [])"
proof -
  define i where "i = highest_group_base G + TCD_Lowest_Set_Bit ! unat (drop_bit (highest_group_base G) G AND 0x000000FF)"
  have i: "bit G i" "\<forall>g < i. \<not> bit G g" using group_byte[OF highest_group[OF nz]] by (auto simp: i_def)
  then have i32: "i < 32" using bit_imp_le_length[of G i] by simp
  then have Si: "S i \<noteq> 0" and lowS: "g < i \<Longrightarrow> S g = 0" for g using ok i by (auto simp: map_ok_def)
  define j where "j = TCD_Lowest_Set_Bit ! unat (S i)"
  have j: "bit (S i) j" "j < 8" "\<And>m. m < j \<Longrightarrow> \<not> bit (S i) m"
    using lowest_set_bit_word8[OF Si] by (auto simp: j_def)
  have fh: "find_highest G S = i * 8 + j"
    using i32 by (simp add: find_highest_def Let_def i_def[symmetric] j_def TC_MAX_GROUPS_def)
  have lt: "i * 8 + j < 256" using i32 j(2) by simp
  have dm: "(i * 8 + j) div 8 = i" "(i * 8 + j) mod 8 = j" using j(2) by auto
  have bits: "bit (S (p div 8)) (p mod 8) \<longleftrightarrow> rl p \<noteq> []" if "p < 256" for p
    using ok that by (simp add: map_ok_def)
  have "rl (i * 8 + j) \<noteq> []" using bits[OF lt] j(1) by (simp only: dm)
  moreover have "rl q = []" if q: "q < i * 8 + j" for q
  proof -
    have "q = 8 * (q div 8) + q mod 8" "q mod 8 < 8" by simp_all
    then have "q div 8 < i \<or> q div 8 = i \<and> q mod 8 < j" using q j(2) by linarith
    then have "\<not> bit (S (q div 8)) (q mod 8)" using lowS j(3) by auto
    then show ?thesis using bits[of q] q lt by simp
  qed
  ultimately show ?thesis using fh lt by simp
qed

lemma div_mod_eqI: "a div m = b div m \<Longrightarrow> a mod m = b mod m \<Longrightarrow> a = b" for a m b :: nat
  by (metis div_mult_mod_eq)

section \<open>Updates of the bit map\<close>

lemma map_ok_zero: "map_ok rl G S \<Longrightarrow> G = 0 \<Longrightarrow> p < 256 \<Longrightarrow> rl p = []"
proof -
  assume ok: "map_ok rl G S" and "G = 0" "p < 256"
  then have "S (p div 8) = 0" by (auto simp: map_ok_def)
  then show ?thesis using ok \<open>p < 256\<close> by (auto simp: map_ok_def)
qed

lemma map_ok_same:
  "map_ok rl G S \<Longrightarrow> xs = [] \<longleftrightarrow> rl p = [] \<Longrightarrow> map_ok (rl(p := xs)) G S"
  by (auto simp: map_ok_def)

lemma bit_exp_word [simp]: "bit (2 ^ n :: 'a::len word) m \<longleftrightarrow> m = n \<and> n < LENGTH('a)"
  by (auto simp: bit_exp_iff)

lemma map_ok_set:
  assumes ok: "map_ok rl G S" and "p < 256" "xs \<noteq> []"
  shows "map_ok (rl(p := xs)) (G OR push_bit (p div 8) 1)
           (S(p div 8 := S (p div 8) OR push_bit (p mod 8) 1))"
proof -
  have nz: "S (p div 8) OR push_bit (p mod 8) 1 \<noteq> 0"
    by (rule notI) (drule arg_cong[where f = "\<lambda>w. bit w (p mod 8)"], simp add: bit_or_iff)
  have sub: "(q = p \<or> bit (S (q div 8)) (q mod 8)) \<longleftrightarrow>
      bit ((S(p div 8 := S (p div 8) OR push_bit (p mod 8) 1)) (q div 8)) (q mod 8)" for q
    using div_mod_eqI[of q 8 p] by (auto simp: bit_or_iff)
  have g: "bit G g \<longleftrightarrow> S g \<noteq> 0" if "g < 32" for g using ok that by (simp add: map_ok_def)
  show ?thesis unfolding map_ok_def
  proof (intro conjI allI impI)
    fix q :: nat assume "q < 256"
    then show "bit ((S(p div 8 := S (p div 8) OR push_bit (p mod 8) 1)) (q div 8)) (q mod 8) \<longleftrightarrow>
        (rl(p := xs)) q \<noteq> []"
      unfolding sub[symmetric] using ok assms(3) by (auto simp: map_ok_def)
  qed (use nz g assms(2) in \<open>auto simp: bit_or_iff\<close>)
qed

lemma map_ok_clear:
  assumes ok: "map_ok rl G S" and "p < 256"
  defines "s \<equiv> S (p div 8) AND NOT (push_bit (p mod 8) 1)"
  shows "map_ok (rl(p := [])) (if s = 0 then G AND NOT (push_bit (p div 8) 1) else G) (S(p div 8 := s))"
proof -
  have sub: "(q \<noteq> p \<and> bit (S (q div 8)) (q mod 8)) \<longleftrightarrow> bit ((S(p div 8 := s)) (q div 8)) (q mod 8)" for q
    using div_mod_eqI[of q 8 p] by (auto simp: s_def bit_and_iff bit_not_iff)
  have g: "bit G g \<longleftrightarrow> S g \<noteq> 0" if "g < 32" for g using ok that by (simp add: map_ok_def)
  have "s \<noteq> 0 \<Longrightarrow> S (p div 8) \<noteq> 0" by (auto simp: s_def)
  note nz = this
  show ?thesis unfolding map_ok_def
  proof (intro conjI allI impI)
    fix q :: nat assume "q < 256"
    then show "bit ((S(p div 8 := s)) (q div 8)) (q mod 8) \<longleftrightarrow> (rl(p := [])) q \<noteq> []"
      unfolding sub[symmetric] using ok by (auto simp: map_ok_def)
  qed (use nz g assms(2) in \<open>auto simp: bit_and_iff bit_not_iff\<close>)
qed

section \<open>The scheduler invariant\<close>

text \<open>
  \<open>ready_ok R k\<close>: the derived priority fields of every control block agree with its priority, the ready
  lists hold exactly the tasks of \<open>R\<close>, each once and on the list of its priority, and the bit map
  describes the lists. \<open>sched_inv\<close> adds what the scheduler promises: \<open>R\<close> is the set of ready tasks,
  \<open>TCD_Highest_Priority\<close> is the smallest priority with a ready task (256 when none is), the task to
  execute is ready, exists when some task is ready, and has the highest priority if it can be preempted.
\<close>

definition fields_ok :: "tcb \<Rightarrow> bool" where
  "fields_ok c \<longleftrightarrow> tc_priority c < 256 \<and> tc_priority_head c = tc_priority c \<and>
     tc_priority_group c = push_bit (tc_priority c div 8) 1 \<and>
     tc_sub_priority_ptr c = tc_priority c div 8 \<and>
     tc_sub_priority c = push_bit (tc_priority c mod 8) 1"

definition ready_ok :: "tid set \<Rightarrow> kernel \<Rightarrow> bool" where
  "ready_ok R k \<longleftrightarrow>
     (\<forall>t. fields_ok (tcbs k t)) \<and>
     (\<forall>p. distinct (TCD_Priority_List k p)) \<and>
     (\<forall>p t. t \<in> set (TCD_Priority_List k p) \<longleftrightarrow> t \<in> R \<and> tc_priority (tcbs k t) = p) \<and>
     map_ok (TCD_Priority_List k) (TCD_Priority_Groups k) (TCD_Sub_Priority_Groups k)"

definition ready_set :: "kernel \<Rightarrow> tid set" where
  "ready_set k = {t. tc_status (tcbs k t) = NU_READY}"

definition highest_ok :: "kernel \<Rightarrow> bool" where
  "highest_ok k \<longleftrightarrow>
     TCD_Highest_Priority k \<le> 256 \<and>
     (\<forall>q < TCD_Highest_Priority k. TCD_Priority_List k q = []) \<and>
     (TCD_Highest_Priority k < 256 \<longrightarrow> TCD_Priority_List k (TCD_Highest_Priority k) \<noteq> [])"

definition execute_ok :: "kernel \<Rightarrow> bool" where
  "execute_ok k \<longleftrightarrow>
     (case TCD_Execute_Task k of
        None \<Rightarrow> TCD_Highest_Priority k = 256
      | Some e \<Rightarrow> tc_status (tcbs k e) = NU_READY \<and>
          (tc_preemption (tcbs k e) \<longrightarrow> tc_priority (tcbs k e) = TCD_Highest_Priority k))"

definition sched_inv :: "kernel \<Rightarrow> bool" where
  "sched_inv k \<longleftrightarrow> ready_ok (ready_set k) k \<and> highest_ok k \<and> execute_ok k"

lemma fields_okD:
  "ready_ok R k \<Longrightarrow> fields_ok (tcbs k t)"
  by (simp add: ready_ok_def)

lemma ready_ok_mem:
  "ready_ok R k \<Longrightarrow> t \<in> set (TCD_Priority_List k p) \<longleftrightarrow> t \<in> R \<and> tc_priority (tcbs k t) = p"
  by (simp add: ready_ok_def)

lemma ready_ok_range: "ready_ok R k \<Longrightarrow> 256 \<le> p \<Longrightarrow> TCD_Priority_List k p = []"
proof (rule ccontr)
  assume ok: "ready_ok R k" and "256 \<le> p" and "TCD_Priority_List k p \<noteq> []"
  then obtain t where "t \<in> set (TCD_Priority_List k p)" by (cases "TCD_Priority_List k p") auto
  then have "tc_priority (tcbs k t) = p" using ok ready_ok_mem by blast
  then show False using fields_okD[OF ok, of t] \<open>256 \<le> p\<close> by (simp add: fields_ok_def)
qed

lemma highest_le:
  assumes "ready_ok R k" "highest_ok k" "t \<in> R"
  shows "TCD_Highest_Priority k \<le> tc_priority (tcbs k t)" "TCD_Highest_Priority k < 256"
proof -
  have "t \<in> set (TCD_Priority_List k (tc_priority (tcbs k t)))" using assms ready_ok_mem by blast
  then show le: "TCD_Highest_Priority k \<le> tc_priority (tcbs k t)"
    using assms(2) by (fastforce simp: highest_ok_def not_less[symmetric])
  then show "TCD_Highest_Priority k < 256" using fields_okD[OF assms(1), of t] by (simp add: fields_ok_def)
qed

text \<open>The head of the list of the highest priority is a legal choice of the task to execute.\<close>

lemma execute_head:
  assumes "ready_ok (ready_set k) k" "highest_ok k"
  shows "execute_ok (k\<lparr>TCD_Execute_Task := list_head (TCD_Priority_List k (TCD_Highest_Priority k))\<rparr>)"
proof (cases "TCD_Priority_List k (TCD_Highest_Priority k)")
  case Nil
  then show ?thesis using assms(2) by (auto simp: execute_ok_def highest_ok_def)
next
  case (Cons e es)
  then have "e \<in> set (TCD_Priority_List k (TCD_Highest_Priority k))" by simp
  then have "e \<in> ready_set k \<and> tc_priority (tcbs k e) = TCD_Highest_Priority k"
    using ready_ok_mem[OF assms(1)] by blast
  then show ?thesis using Cons by (simp add: execute_ok_def ready_set_def)
qed

lemma ready_ok_cong:
  assumes "ready_ok R k"
    "TCD_Priority_List k' = TCD_Priority_List k" "TCD_Priority_Groups k' = TCD_Priority_Groups k"
    "TCD_Sub_Priority_Groups k' = TCD_Sub_Priority_Groups k"
    "\<And>t. fields_ok (tcbs k' t)" "\<And>t. t \<in> R \<Longrightarrow> tc_priority (tcbs k' t) = tc_priority (tcbs k t)"
  shows "ready_ok R k'"
  using assms by (auto simp: ready_ok_def)

text \<open>Linking and unlinking, the two changes of the ready lists.\<close>

lemma ready_ok_update:
  assumes ok: "ready_ok R k" and k': "tcbs k' = tcbs k"
    "TCD_Priority_List k' = (TCD_Priority_List k)(p := xs)"
    and xs: "distinct xs" "\<And>u. u \<in> set xs \<longleftrightarrow> u \<in> R' \<and> tc_priority (tcbs k u) = p"
    and R': "\<And>u. tc_priority (tcbs k u) \<noteq> p \<Longrightarrow> u \<in> R' \<longleftrightarrow> u \<in> R"
    and m: "map_ok (TCD_Priority_List k') (TCD_Priority_Groups k') (TCD_Sub_Priority_Groups k')"
  shows "ready_ok R' k'"
  using assms by (auto simp: ready_ok_def)

lemma link_ready_ok:
  assumes ok: "ready_ok R k" and t: "t \<notin> R"
  shows "ready_ok (insert t R) (link_ready t k)"
proof -
  define p where "p = tc_priority (tcbs k t)"
  have f: "p < 256" "tc_priority_head (tcbs k t) = p" "tc_priority_group (tcbs k t) = push_bit (p div 8) 1"
    "tc_sub_priority_ptr (tcbs k t) = p div 8" "tc_sub_priority (tcbs k t) = push_bit (p mod 8) 1"
    using fields_okD[OF ok, of t] by (simp_all add: fields_ok_def p_def)
  have m: "map_ok (TCD_Priority_List k) (TCD_Priority_Groups k) (TCD_Sub_Priority_Groups k)"
    using ok by (simp add: ready_ok_def)
  have pl: "TCD_Priority_List (link_ready t k) = (TCD_Priority_List k)(p := TCD_Priority_List k p @ [t])"
    by (auto simp: link_ready_def Let_def f)
  have mem: "u \<in> set (TCD_Priority_List k p) \<longleftrightarrow> u \<in> R \<and> tc_priority (tcbs k u) = p" for u
    using ok by (rule ready_ok_mem)
  show ?thesis
  proof (rule ready_ok_update[OF ok _ pl])
    show "map_ok (TCD_Priority_List (link_ready t k)) (TCD_Priority_Groups (link_ready t k))
        (TCD_Sub_Priority_Groups (link_ready t k))"
      unfolding link_ready_def Let_def f
      using map_ok_same[OF m] map_ok_set[OF m f(1)] by (simp del: push_bit_of_1)
    show "distinct (TCD_Priority_List k p @ [t])" using ok t mem by (simp add: ready_ok_def)
  qed (use mem t p_def in \<open>auto simp: link_ready_def Let_def\<close>)
qed

lemma unlink_ready_ok:
  assumes ok: "ready_ok R k" and t: "t \<in> R"
  shows "ready_ok (R - {t}) (unlink_ready t k)"
proof -
  define p where "p = tc_priority (tcbs k t)"
  have f: "p < 256" "tc_priority_head (tcbs k t) = p" "tc_priority_group (tcbs k t) = push_bit (p div 8) 1"
    "tc_sub_priority_ptr (tcbs k t) = p div 8" "tc_sub_priority (tcbs k t) = push_bit (p mod 8) 1"
    using fields_okD[OF ok, of t] by (simp_all add: fields_ok_def p_def)
  have m: "map_ok (TCD_Priority_List k) (TCD_Priority_Groups k) (TCD_Sub_Priority_Groups k)"
    using ok by (simp add: ready_ok_def)
  have d: "distinct (TCD_Priority_List k p)" using ok by (simp add: ready_ok_def)
  have pl: "TCD_Priority_List (unlink_ready t k) = (TCD_Priority_List k)(p := remove1 t (TCD_Priority_List k p))"
    by (auto simp: unlink_ready_def Let_def f)
  have mem: "u \<in> set (TCD_Priority_List k p) \<longleftrightarrow> u \<in> R \<and> tc_priority (tcbs k u) = p" for u
    using ok by (rule ready_ok_mem)
  have ne: "remove1 t xs \<noteq> []" if "t \<in> set xs" "xs \<noteq> [t]" for xs
    using that by (cases xs) auto
  have tp: "t \<in> set (TCD_Priority_List k p)" using mem t p_def by simp
  show ?thesis
  proof (rule ready_ok_update[OF ok _ pl])
    show "map_ok (TCD_Priority_List (unlink_ready t k)) (TCD_Priority_Groups (unlink_ready t k))
        (TCD_Sub_Priority_Groups (unlink_ready t k))"
    proof (cases "TCD_Priority_List k p = [t]")
      case True
      then show ?thesis unfolding unlink_ready_def Let_def f
        using map_ok_clear[OF m f(1)] by (simp del: push_bit_of_1 split: if_splits)
    next
      case False
      then have "remove1 t (TCD_Priority_List k p) \<noteq> []" "TCD_Priority_List k p \<noteq> []" using ne tp by auto
      then show ?thesis using False map_ok_same[OF m] by (simp add: unlink_ready_def Let_def f)
    qed
  qed (use mem t d p_def in \<open>auto simp: unlink_ready_def Let_def\<close>)
qed

section \<open>Operations keep the invariant\<close>

lemma inv_frames [simp]:
  "ready_ok R (k\<lparr>TCD_Highest_Priority := h\<rparr>) = ready_ok R k"
  "ready_ok R (k\<lparr>TCD_Execute_Task := e\<rparr>) = ready_ok R k"
  "ready_ok R (k\<lparr>tm := x\<rparr>) = ready_ok R k"
  "ready_set (k\<lparr>TCD_Highest_Priority := h\<rparr>) = ready_set k"
  "ready_set (k\<lparr>TCD_Execute_Task := e\<rparr>) = ready_set k"
  "ready_set (k\<lparr>tm := x\<rparr>) = ready_set k"
  "highest_ok (k\<lparr>TCD_Execute_Task := e\<rparr>) = highest_ok k"
  "highest_ok (k\<lparr>tm := x\<rparr>) = highest_ok k"
  "execute_ok (k\<lparr>tm := x\<rparr>) = execute_ok k"
  "sched_inv (k\<lparr>tm := x\<rparr>) = sched_inv k"
  by (simp_all add: ready_ok_def ready_set_def highest_ok_def execute_ok_def sched_inv_def
      cong: option.case_cong)

lemma sched_inv_upd:
  assumes "sched_inv k" "fields_ok (f (tcbs k t)) \<or> f (tcbs k t) = tcbs k t"
    and "tc_priority (f (tcbs k t)) = tc_priority (tcbs k t) \<or> tc_status (tcbs k t) \<noteq> NU_READY"
    and "tc_status (f (tcbs k t)) = NU_READY \<longleftrightarrow> tc_status (tcbs k t) = NU_READY"
    and "tc_preemption (f (tcbs k t)) \<longrightarrow> tc_preemption (tcbs k t) \<or> TCD_Execute_Task k \<noteq> Some t \<or>
           tc_priority (tcbs k t) = TCD_Highest_Priority k"
  shows "sched_inv (upd_tcb f t k)"
proof -
  have ok: "ready_ok (ready_set k) k" "highest_ok k" "execute_ok k" using assms(1) by (auto simp: sched_inv_def)
  have rs: "ready_set (upd_tcb f t k) = ready_set k" using assms(4) by (auto simp: ready_set_def)
  have "ready_ok (ready_set k) (upd_tcb f t k)"
    by (rule ready_ok_cong[OF ok(1)])
       (use assms(2,3) fields_okD[OF ok(1)] in \<open>auto simp: ready_set_def\<close>)
  moreover have "highest_ok (upd_tcb f t k)" using ok(2) by (simp add: highest_ok_def)
  moreover have "execute_ok (upd_tcb f t k)"
    using ok(3) assms(3-5) by (auto simp: execute_ok_def split: option.splits)
  ultimately show ?thesis by (simp add: sched_inv_def rs)
qed

lemma fields_ok_frames [simp]:
  "fields_ok (c\<lparr>tc_status := s\<rparr>) = fields_ok c"
  "fields_ok (c\<lparr>tc_cleanup := cl\<rparr>) = fields_ok c"
  "fields_ok (c\<lparr>tc_timer_active := b\<rparr>) = fields_ok c"
  "fields_ok (c\<lparr>tc_debug_suspend := s\<rparr>) = fields_ok c"
  "fields_ok (c\<lparr>tc_delayed_suspend := b\<rparr>) = fields_ok c"
  "fields_ok (c\<lparr>tc_saved_status := s\<rparr>) = fields_ok c"
  "fields_ok (c\<lparr>tc_cur_time_slice := n\<rparr>) = fields_ok c"
  "fields_ok (c\<lparr>tc_time_slice := n\<rparr>) = fields_ok c"
  "fields_ok (c\<lparr>tc_base_priority := n\<rparr>) = fields_ok c"
  "fields_ok (c\<lparr>tc_preemption := b\<rparr>) = fields_ok c"
  by (simp_all add: fields_ok_def)

lemma fields_ok_set_priority:
  "n < 256 \<Longrightarrow> tc_priority c = n \<Longrightarrow> fields_ok (set_priority_fields n c)"
  by (simp add: fields_ok_def set_priority_fields_def)

lemma sched_inv_fields: "sched_inv k \<Longrightarrow> fields_ok (tcbs k t)"
  by (simp add: sched_inv_def ready_ok_def)

lemma highest_find:
  assumes ok: "ready_ok R k" and "R \<noteq> {}"
  shows "highest_ok (k\<lparr>TCD_Highest_Priority :=
           find_highest (TCD_Priority_Groups k) (TCD_Sub_Priority_Groups k)\<rparr>)"
proof -
  have m: "map_ok (TCD_Priority_List k) (TCD_Priority_Groups k) (TCD_Sub_Priority_Groups k)"
    using ok by (simp add: ready_ok_def)
  obtain t where t: "t \<in> set (TCD_Priority_List k (tc_priority (tcbs k t)))"
    using assms ready_ok_mem[OF ok] by blast
  have "TCD_Priority_Groups k \<noteq> 0"
  proof
    assume "TCD_Priority_Groups k = 0"
    then have "TCD_Priority_List k (tc_priority (tcbs k t)) = []"
      using map_ok_zero[OF m] fields_okD[OF ok, of t] by (simp add: fields_ok_def)
    with t show False by simp
  qed
  then show ?thesis using find_highest_least[OF m] by (auto simp: highest_ok_def)
qed

lemma lift_suspension_link:
  "lift_suspension t k =
     (let k1 = link_ready t (upd_tcb (tc_status_update (\<lambda>_. NU_READY)) t k); c = tcbs k t
      in if TCD_Priority_List k (tc_priority_head c) = [] \<and> tc_priority c < TCD_Highest_Priority k then
           (let k2 = k1\<lparr>TCD_Highest_Priority := tc_priority c\<rparr>
            in case TCD_Execute_Task k2 of
                 None \<Rightarrow> (k2\<lparr>TCD_Execute_Task := Some t\<rparr>, False)
               | Some e \<Rightarrow>
                   if tc_preemption (tcbs k2 e) \<or> INC_Start_Initialize k2
                   then (k2\<lparr>TCD_Execute_Task := Some t\<rparr>, current_is_task k2)
                   else (k2, False))
         else (k1, False))"
  by (simp add: lift_suspension_def link_ready_def Let_def)

lemma link_ready_frames [simp]:
  "tcbs (link_ready t k) = tcbs k" "TCD_Highest_Priority (link_ready t k) = TCD_Highest_Priority k"
  "TCD_Execute_Task (link_ready t k) = TCD_Execute_Task k"
  "TCD_Current_Thread (link_ready t k) = TCD_Current_Thread k"
  "INC_Start_Initialize (link_ready t k) = INC_Start_Initialize k" "tm (link_ready t k) = tm k"
  "ready_set (link_ready t k) = ready_set k"
  "TCD_Priority_List (link_ready t k) =
     (TCD_Priority_List k)(tc_priority_head (tcbs k t) :=
        TCD_Priority_List k (tc_priority_head (tcbs k t)) @ [t])"
  by (auto simp: link_ready_def Let_def ready_set_def)

lemma unlink_ready_frames [simp]:
  "tcbs (unlink_ready t k) = tcbs k" "TCD_Highest_Priority (unlink_ready t k) = TCD_Highest_Priority k"
  "TCD_Execute_Task (unlink_ready t k) = TCD_Execute_Task k"
  "TCD_Current_Thread (unlink_ready t k) = TCD_Current_Thread k"
  "INC_Start_Initialize (unlink_ready t k) = INC_Start_Initialize k" "tm (unlink_ready t k) = tm k"
  "ready_set (unlink_ready t k) = ready_set k"
  "TCD_Priority_List (unlink_ready t k) =
     (TCD_Priority_List k)(tc_priority_head (tcbs k t) :=
        remove1 t (TCD_Priority_List k (tc_priority_head (tcbs k t))))"
  by (auto simp: unlink_ready_def Let_def ready_set_def)

lemma lift_suspension_inv:
  assumes inv: "sched_inv k" and t: "tc_status (tcbs k t) \<noteq> NU_READY"
  shows "sched_inv (fst (lift_suspension t k))"
proof -
  define k0 where "k0 = upd_tcb (tc_status_update (\<lambda>_. NU_READY)) t k"
  define k1 where "k1 = link_ready t k0"
  define p where "p = tc_priority (tcbs k t)"
  have ok: "ready_ok (ready_set k) k" and hk: "highest_ok k" and ek: "execute_ok k"
    using inv by (auto simp: sched_inv_def)
  have f: "tc_priority_head (tcbs k t) = p" "p < 256"
    using fields_okD[OF ok, of t] by (auto simp: fields_ok_def p_def)
  have rs: "ready_set k1 = insert t (ready_set k)" by (auto simp: k1_def k0_def ready_set_def)
  have "ready_ok (ready_set k) k0"
    by (rule ready_ok_cong[OF ok]) (use fields_okD[OF ok] in \<open>auto simp: k0_def\<close>)
  then have ok1: "ready_ok (ready_set k1) k1"
    unfolding rs unfolding k1_def by (rule link_ready_ok) (use t in \<open>simp add: ready_set_def\<close>)
  have pl: "TCD_Priority_List k1 = (TCD_Priority_List k)(p := TCD_Priority_List k p @ [t])"
    and same: "TCD_Highest_Priority k1 = TCD_Highest_Priority k" "TCD_Execute_Task k1 = TCD_Execute_Task k"
      "tcbs k1 = (tcbs k)(t := (tcbs k t)\<lparr>tc_status := NU_READY\<rparr>)"
    by (simp_all add: k1_def k0_def f)
  show ?thesis
  proof (cases "TCD_Priority_List k p = [] \<and> p < TCD_Highest_Priority k")
    case True
    have h: "highest_ok (k1\<lparr>TCD_Highest_Priority := p\<rparr>)"
      using hk True f(2) by (auto simp: highest_ok_def pl)
    have "execute_ok (k1\<lparr>TCD_Highest_Priority := p, TCD_Execute_Task := Some t\<rparr>)"
      by (simp add: execute_ok_def same p_def)
    moreover have "execute_ok (k1\<lparr>TCD_Highest_Priority := p\<rparr>)"
      if "TCD_Execute_Task k = Some e" "\<not> tc_preemption (tcbs k1 e)" for e
      using that ek t by (auto simp: execute_ok_def same)
    ultimately show ?thesis using True h ok1 f
      by (auto simp: lift_suspension_link Let_def sched_inv_def p_def[symmetric] k0_def[symmetric]
            k1_def[symmetric] same split: option.splits)
  next
    case False
    then have le: "TCD_Highest_Priority k \<le> p" using hk f by (auto simp: highest_ok_def not_less[symmetric])
    have "highest_ok k1" using hk le by (auto simp: highest_ok_def pl same)
    moreover have "execute_ok k1" using ek le f t
      by (auto simp: execute_ok_def same split: option.splits)
    ultimately show ?thesis using False ok1 f
      by (auto simp: lift_suspension_link Let_def sched_inv_def p_def[symmetric] k0_def[symmetric] k1_def[symmetric])
  qed
qed

lemma TCC_Resume_Task_inv:
  assumes "sched_inv k" "suspend_type \<noteq> NU_READY"
  shows "sched_inv (fst (TCC_Resume_Task t suspend_type k))"
proof -
  have f: "fields_ok (tcbs k t)" using assms(1) by (rule sched_inv_fields)
  define k2 where "k2 = (let c = tcbs k t;
     k1 = (if \<not> tc_signal_active c then upd_tcb (tc_cleanup_update (\<lambda>_. None)) t k else k)
     in if tc_timer_active c \<and> \<not> tc_signal_active c
        then upd_tcb (tc_timer_active_update (\<lambda>_. False)) t (k1\<lparr>tm := TMC_Stop_Task_Timer (task_timer t) (tm k1)\<rparr>)
        else k1)"
  have i2: "sched_inv k2" unfolding k2_def Let_def
    using assms f by (auto intro!: sched_inv_upd)
  have s2: "tc_status (tcbs k2 t) = tc_status (tcbs k t)" by (simp add: k2_def Let_def)
  have f2: "fields_ok (tcbs k2 t)" using i2 by (rule sched_inv_fields)
  show ?thesis
  proof (cases "tc_status (tcbs k t) = suspend_type")
    case True
    then have n: "tc_status (tcbs k2 t) \<noteq> NU_READY" using assms(2) s2 by simp
    have d2: "tc_debug_suspend (tcbs k2 t) = tc_debug_suspend (tcbs k t)" by (simp add: k2_def Let_def)
    have "TCC_Resume_Task t suspend_type k =
        (if tc_debug_suspend (tcbs k t) \<noteq> NU_READY then
           (upd_tcb (\<lambda>c. c\<lparr>tc_status := tc_debug_suspend c, tc_debug_suspend := NU_READY\<rparr>) t k2, False)
         else if tc_delayed_suspend (tcbs k t) then
           (upd_tcb (\<lambda>c. c\<lparr>tc_delayed_suspend := False, tc_status := NU_PURE_SUSPEND\<rparr>) t k2, False)
         else lift_suspension t k2)"
      using True by (simp only: TCC_Resume_Task_def Let_def k2_def if_True simp_thms)
    moreover have "sched_inv (upd_tcb (\<lambda>c. c\<lparr>tc_delayed_suspend := False, tc_status := NU_PURE_SUSPEND\<rparr>) t k2)"
      by (rule sched_inv_upd[OF i2]) (use n f2 in simp_all)
    moreover have "sched_inv (upd_tcb (\<lambda>c. c\<lparr>tc_status := tc_debug_suspend c, tc_debug_suspend := NU_READY\<rparr>) t k2)"
      if "tc_debug_suspend (tcbs k t) \<noteq> NU_READY"
      by (rule sched_inv_upd[OF i2]) (use n f2 d2 that in simp_all)
    ultimately show ?thesis using lift_suspension_inv[OF i2 n] by simp
  next
    case False
    define k1 where "k1 = (if suspend_type = NU_PURE_SUSPEND then upd_tcb (tc_delayed_suspend_update (\<lambda>_. False)) t k
       else if suspend_type = NU_DEBUG_SUSPEND then upd_tcb (tc_debug_suspend_update (\<lambda>_. NU_READY)) t k else k)"
    have i1: "sched_inv k1" using assms(1) f by (auto simp: k1_def intro!: sched_inv_upd)
    have f1: "fields_ok (tcbs k1 t)" using i1 by (rule sched_inv_fields)
    have "sched_inv (upd_tcb (tc_saved_status_update (\<lambda>_. NU_READY)) t k1)"
      by (rule sched_inv_upd[OF i1]) (use f1 in simp_all)
    then show ?thesis using False i1 f1
      by (auto simp: TCC_Resume_Task_def Let_def k1_def[symmetric] intro!: sched_inv_upd)
  qed
qed

text \<open>
  \<open>unready k t s cl\<close> is the state of \<open>TCC_Suspend_Task\<close> after the task has left its ready list,
  before the highest priority is looked for.
\<close>

definition unready :: "kernel \<Rightarrow> tid \<Rightarrow> suspend_type \<Rightarrow> nat option \<Rightarrow> kernel" where
  "unready k t s cl = unlink_ready t
     (upd_tcb (\<lambda>c. c\<lparr>tc_status := s, tc_cleanup := cl, tc_cur_time_slice := tc_time_slice c\<rparr>) t k)"

lemma unready_simps [simp]:
  "tcbs (unready k t s cl) =
     (tcbs k)(t := (tcbs k t)\<lparr>tc_status := s, tc_cleanup := cl, tc_cur_time_slice := tc_time_slice (tcbs k t)\<rparr>)"
  "TCD_Highest_Priority (unready k t s cl) = TCD_Highest_Priority k"
  "TCD_Execute_Task (unready k t s cl) = TCD_Execute_Task k"
  "TCD_Current_Thread (unready k t s cl) = TCD_Current_Thread k"
  "tm (unready k t s cl) = tm k"
  "TCD_Priority_List (unready k t s cl) =
     (TCD_Priority_List k)(tc_priority_head (tcbs k t) :=
        remove1 t (TCD_Priority_List k (tc_priority_head (tcbs k t))))"
  by (simp_all add: unready_def)

lemma unready_ok:
  assumes inv: "sched_inv k" and "tc_status (tcbs k t) = NU_READY" "s \<noteq> NU_READY"
  shows "ready_ok (ready_set (unready k t s cl)) (unready k t s cl)"
    and "ready_set (unready k t s cl) = ready_set k - {t}"
proof -
  show rs: "ready_set (unready k t s cl) = ready_set k - {t}" using assms by (auto simp: ready_set_def)
  have ok: "ready_ok (ready_set k) k" using inv by (simp add: sched_inv_def)
  have "ready_ok (ready_set k)
      (upd_tcb (\<lambda>c. c\<lparr>tc_status := s, tc_cleanup := cl, tc_cur_time_slice := tc_time_slice c\<rparr>) t k)"
    by (rule ready_ok_cong[OF ok]) (use fields_okD[OF ok] in auto)
  then show "ready_ok (ready_set (unready k t s cl)) (unready k t s cl)"
    unfolding rs unfolding unready_def
    by (rule unlink_ready_ok) (use assms in \<open>simp add: ready_set_def\<close>)
qed

text \<open>The search for the next highest priority, after the last task of the highest priority has left.\<close>

definition rehighest :: "kernel \<Rightarrow> kernel" where
  "rehighest k =
    (if TCD_Priority_Groups k = 0 then k\<lparr>TCD_Highest_Priority := TC_PRIORITIES\<rparr>
     else k\<lparr>TCD_Highest_Priority := find_highest (TCD_Priority_Groups k) (TCD_Sub_Priority_Groups k)\<rparr>)"

lemma rehighest_ok: "ready_ok R k \<Longrightarrow> highest_ok (rehighest k)"
proof -
  assume ok: "ready_ok R k"
  then have m: "map_ok (TCD_Priority_List k) (TCD_Priority_Groups k) (TCD_Sub_Priority_Groups k)"
    by (simp add: ready_ok_def)
  show ?thesis
    using map_ok_zero[OF m] find_highest_least[OF m]
    by (auto simp: rehighest_def highest_ok_def TC_PRIORITIES_def)
qed

lemma rehighest_frames [simp]:
  "ready_ok R (rehighest k) = ready_ok R k" "ready_set (rehighest k) = ready_set k"
  "tcbs (rehighest k) = tcbs k" "TCD_Execute_Task (rehighest k) = TCD_Execute_Task k"
  "TCD_Current_Thread (rehighest k) = TCD_Current_Thread k" "tm (rehighest k) = tm k"
  "TCD_Priority_List (rehighest k) = TCD_Priority_List k"
  by (simp_all add: rehighest_def)

lemma suspend_highest:
  fixes cl :: "nat option"
  assumes inv: "sched_inv k" and t: "tc_status (tcbs k t) = NU_READY" and s: "s \<noteq> NU_READY"
  defines "k2 \<equiv> unready k t s cl" and "p \<equiv> tc_priority (tcbs k t)"
  defines "k3 \<equiv> (if TCD_Priority_List k p = [t] \<and> p = TCD_Highest_Priority k mod 256 then rehighest k2 else k2)"
  shows "highest_ok k3 \<and> (TCD_Execute_Task k \<noteq> Some t \<longrightarrow> execute_ok k3)"
proof -
  have ok: "ready_ok (ready_set k) k" and hk: "highest_ok k" and ek: "execute_ok k"
    using inv by (auto simp: sched_inv_def)
  have ok2: "ready_ok (ready_set k2) k2" unfolding k2_def by (rule unready_ok(1)[OF inv t s])
  have tr: "t \<in> ready_set k" using t by (simp add: ready_set_def)
  have f: "tc_priority_head (tcbs k t) = p" using fields_okD[OF ok, of t] by (simp add: fields_ok_def p_def)
  have h: "TCD_Highest_Priority k mod 256 = TCD_Highest_Priority k" using highest_le(2)[OF ok hk tr] by simp
  have pl: "TCD_Priority_List k2 = (TCD_Priority_List k)(p := remove1 t (TCD_Priority_List k p))"
    by (simp add: k2_def f)
  have mem: "u \<in> set (TCD_Priority_List k q) \<longleftrightarrow> u \<in> ready_set k \<and> tc_priority (tcbs k u) = q" for u q
    using ok by (rule ready_ok_mem)
  have tp: "t \<in> set (TCD_Priority_List k p)" using mem tr p_def by simp
  have ne: "remove1 t (TCD_Priority_List k p) = [] \<longleftrightarrow> TCD_Priority_List k p = [t]"
    using tp by (cases "TCD_Priority_List k p") auto
  have hk3: "highest_ok k3"
  proof (cases "TCD_Priority_List k p = [t] \<and> p = TCD_Highest_Priority k")
    case True
    then show ?thesis using rehighest_ok[OF ok2] by (auto simp: k3_def h)
  next
    case False
    then show ?thesis using hk ne by (auto simp: k3_def h highest_ok_def pl k2_def[symmetric]) (auto simp: k2_def)
  qed
  moreover have "execute_ok k3" if "TCD_Execute_Task k \<noteq> Some t"
  proof (cases "TCD_Execute_Task k")
    case None
    then show ?thesis using ek highest_le(2)[OF ok hk tr] by (simp add: execute_ok_def)
  next
    case (Some e)
    then have e: "e \<noteq> t" "e \<in> ready_set k" using that ek by (auto simp: execute_ok_def ready_set_def)
    have same: "tc_preemption (tcbs k e) \<Longrightarrow> k3 = k2"
    proof -
      assume "tc_preemption (tcbs k e)"
      then have "e \<in> set (TCD_Priority_List k (TCD_Highest_Priority k))"
        using Some ek mem e by (simp add: execute_ok_def)
      then have "TCD_Priority_List k (TCD_Highest_Priority k) \<noteq> [t]" using e by auto
      then show ?thesis by (auto simp: k3_def h)
    qed
    have "tcbs k3 = tcbs k2" "TCD_Execute_Task k3 = Some e" by (simp_all add: k3_def k2_def Some)
    then show ?thesis using Some ek e same by (auto simp: execute_ok_def k2_def)
  qed
  ultimately show ?thesis by blast
qed

definition timed :: "nat \<Rightarrow> tid \<Rightarrow> kernel \<Rightarrow> kernel" where
  "timed timeout t k = (if timeout \<noteq> NU_SUSPEND
      then upd_tcb (tc_timer_active_update (\<lambda>_. True)) t (k\<lparr>tm := TMC_Start_Timer (task_timer t) timeout (tm k)\<rparr>)
      else k)"

lemma timed_simps [simp]:
  "TCD_Priority_List (timed n t k) = TCD_Priority_List k" "TCD_Execute_Task (timed n t k) = TCD_Execute_Task k"
  "tc_status (tcbs (timed n t k) u) = tc_status (tcbs k u)"
  "tc_priority_head (tcbs (timed n t k) u) = tc_priority_head (tcbs k u)"
  "tm (timed n t k) = (if n \<noteq> NU_SUSPEND then TMC_Start_Timer (task_timer t) n (tm k) else tm k)"
  by (simp_all add: timed_def)

lemma timed_inv: "sched_inv k \<Longrightarrow> sched_inv (timed n t k)"
  using sched_inv_fields[of k t] by (auto simp: timed_def intro!: sched_inv_upd)

text \<open>What \<open>TCC_Suspend_Task\<close> does to a ready task, in terms of the steps above.\<close>

lemma TCC_Suspend_Task_ready:
  fixes cl :: "nat option" and timeout :: nat
  assumes inv: "sched_inv k" and t: "tc_status (tcbs k t) = NU_READY" and s: "s \<noteq> NU_READY"
  defines "k0 \<equiv> timed timeout t k"
  defines "k2 \<equiv> unready k0 t s cl" and "p \<equiv> tc_priority (tcbs k0 t)"
  defines "k3 \<equiv> (if TCD_Priority_List k0 p = [t] \<and> p = TCD_Highest_Priority k0 mod 256 then rehighest k2 else k2)"
  shows "fst (TCC_Suspend_Task t s cl timeout k) =
      (if TCD_Execute_Task k3 = Some t
       then k3\<lparr>TCD_Execute_Task := list_head (TCD_Priority_List k3 (TCD_Highest_Priority k3))\<rparr> else k3)"
    and "sched_inv (fst (TCC_Suspend_Task t s cl timeout k))"
proof -
  have i0: "sched_inv k0" unfolding k0_def by (rule timed_inv[OF inv])
  have t0: "tc_status (tcbs k0 t) = NU_READY" using t by (simp add: k0_def)
  have f: "tc_priority_head (tcbs k0 t) = p" using sched_inv_fields[OF i0, of t] by (simp add: fields_ok_def p_def)
  have he: "highest_ok k3" "TCD_Execute_Task k0 \<noteq> Some t \<Longrightarrow> execute_ok k3"
    using suspend_highest[OF i0 t0 s, of cl] by (auto simp: k3_def k2_def p_def)
  have ok3: "ready_ok (ready_set k3) k3"
    using unready_ok(1)[OF i0 t0 s] by (simp add: k3_def k2_def)
  have le: "TCD_Highest_Priority k3 \<le> TC_PRIORITIES" using he(1) by (simp add: highest_ok_def TC_PRIORITIES_def)
  have ex: "TCD_Execute_Task k3 = TCD_Execute_Task k0" by (simp add: k3_def k2_def)
  show eq: "fst (TCC_Suspend_Task t s cl timeout k) =
      (if TCD_Execute_Task k3 = Some t
       then k3\<lparr>TCD_Execute_Task := list_head (TCD_Priority_List k3 (TCD_Highest_Priority k3))\<rparr> else k3)"
    using t0 le unfolding k3_def rehighest_def k2_def unready_def p_def[symmetric]
    by (simp add: TCC_Suspend_Task_def Let_def timed_def[symmetric] k0_def[symmetric] p_def[symmetric] f)
  show "sched_inv (fst (TCC_Suspend_Task t s cl timeout k))"
    unfolding eq using ok3 he execute_head[OF ok3 he(1)] ex by (simp add: sched_inv_def)
qed

lemma TCC_Suspend_Task_inv:
  assumes inv: "sched_inv k" and s: "s \<noteq> NU_READY"
  shows "sched_inv (fst (TCC_Suspend_Task t s cl timeout k))"
proof (cases "tc_status (tcbs k t) = NU_READY")
  case False
  then show ?thesis using timed_inv[OF inv, of timeout t] sched_inv_fields[OF timed_inv[OF inv], of timeout t t]
    by (auto simp: TCC_Suspend_Task_def Let_def timed_def[symmetric] intro!: sched_inv_upd)
qed (rule TCC_Suspend_Task_ready(2)[OF inv _ s])

lemma set_rotate_behind [simp]: "set (rotate_behind t xs) = set xs"
proof (cases "dropWhile (\<lambda>x. x \<noteq> t) xs")
  case Nil
  then show ?thesis by (simp add: rotate_behind_def del: dropWhile_eq_Nil_conv)
next
  case (Cons y ys)
  have "y = t" using hd_dropWhile[of "\<lambda>x. x \<noteq> t" xs] Cons by simp
  then have "xs = takeWhile (\<lambda>x. x \<noteq> t) xs @ t # ys" using takeWhile_dropWhile_id[of "\<lambda>x. x \<noteq> t" xs] Cons by simp
  then have "set xs = set (takeWhile (\<lambda>x. x \<noteq> t) xs) \<union> insert t (set ys)" by (metis list.simps(15) set_append)
  then show ?thesis using Cons by (auto simp: rotate_behind_def)
qed

lemma length_rotate_behind [simp]: "length (rotate_behind t xs) = length xs"
proof (cases "dropWhile (\<lambda>x. x \<noteq> t) xs")
  case (Cons y ys)
  have "length xs = length (takeWhile (\<lambda>x. x \<noteq> t) xs @ dropWhile (\<lambda>x. x \<noteq> t) xs)" by simp
  then show ?thesis using Cons by (simp add: rotate_behind_def)
qed (simp add: rotate_behind_def del: dropWhile_eq_Nil_conv)

text \<open>Reordering one ready list.\<close>

lemma reorder_ok:
  assumes ok: "ready_ok R k" and "set xs = set (TCD_Priority_List k p)" "length xs = length (TCD_Priority_List k p)"
  shows "ready_ok R (k\<lparr>TCD_Priority_List := (TCD_Priority_List k)(p := xs)\<rparr>)"
proof (rule ready_ok_update[OF ok, where p = p and xs = xs])
  show "distinct xs" using ok assms(2,3) by (metis card_distinct distinct_card ready_ok_def)
  show "u \<in> set xs \<longleftrightarrow> u \<in> R \<and> tc_priority (tcbs k u) = p" for u
    using assms(2) ready_ok_mem[OF ok] by simp
  show "map_ok (TCD_Priority_List (k\<lparr>TCD_Priority_List := (TCD_Priority_List k)(p := xs)\<rparr>))
     (TCD_Priority_Groups (k\<lparr>TCD_Priority_List := (TCD_Priority_List k)(p := xs)\<rparr>))
     (TCD_Sub_Priority_Groups (k\<lparr>TCD_Priority_List := (TCD_Priority_List k)(p := xs)\<rparr>))"
    using ok assms(2) by (auto simp: ready_ok_def intro!: map_ok_same)
qed simp_all

lemma reorder_inv:
  assumes inv: "sched_inv k" and xs: "set xs = set (TCD_Priority_List k p)" "length xs = length (TCD_Priority_List k p)"
  defines "k1 \<equiv> k\<lparr>TCD_Priority_List := (TCD_Priority_List k)(p := xs)\<rparr>"
  shows "sched_inv k1"
    and "sched_inv (k1\<lparr>TCD_Execute_Task := list_head (TCD_Priority_List k1 (TCD_Highest_Priority k1))\<rparr>)"
proof -
  have rs: "ready_set k1 = ready_set k" by (simp add: k1_def ready_set_def)
  have ok: "ready_ok (ready_set k1) k1" unfolding rs unfolding k1_def
    by (rule reorder_ok) (use inv xs in \<open>auto simp: sched_inv_def\<close>)
  have "xs = [] \<longleftrightarrow> TCD_Priority_List k p = []" using xs(1) by auto
  then have h: "highest_ok k1" using inv by (auto simp: k1_def sched_inv_def highest_ok_def)
  show "sched_inv k1" using ok h inv
    by (simp add: sched_inv_def k1_def execute_ok_def cong: option.case_cong)
  show "sched_inv (k1\<lparr>TCD_Execute_Task := list_head (TCD_Priority_List k1 (TCD_Highest_Priority k1))\<rparr>)"
    using ok h execute_head[OF ok h] by (simp add: sched_inv_def)
qed

lemma TCC_Time_Slice_inv: "sched_inv k \<Longrightarrow> sched_inv (TCC_Time_Slice t k)"
proof -
  assume inv: "sched_inv k"
  define p where "p = tc_priority_head (tcbs k t)"
  have "sched_inv (k\<lparr>TCD_Priority_List := (TCD_Priority_List k)(p := remove1 t (TCD_Priority_List k p) @ [t])\<rparr>)"
    if "tc_status (tcbs k t) = NU_READY"
  proof (rule reorder_inv(1)[OF inv])
    have ok: "ready_ok (ready_set k) k" using inv by (simp add: sched_inv_def)
    have t: "t \<in> set (TCD_Priority_List k p)" and d: "distinct (TCD_Priority_List k p)"
      using ready_ok_mem[OF ok, of t p] fields_okD[OF ok, of t] that ok
      by (auto simp: p_def ready_set_def fields_ok_def ready_ok_def)
    show "set (remove1 t (TCD_Priority_List k p) @ [t]) = set (TCD_Priority_List k p)" using t d by auto
    show "length (remove1 t (TCD_Priority_List k p) @ [t]) = length (TCD_Priority_List k p)"
      using t length_pos_if_in_set[OF t] by (simp add: length_remove1)
  qed
  then show ?thesis
    using inv reorder_inv(2)[OF inv, of "rotate_behind t (TCD_Priority_List k p)" p]
    by (auto simp: TCC_Time_Slice_def Let_def p_def)
qed

lemma NU_Relinquish_inv: "sched_inv k \<Longrightarrow> sched_inv (fst (NU_Relinquish k))"
proof (cases "TCD_Current_Thread k")
  case (Task_Thread t)
  assume inv: "sched_inv k"
  define p where "p = tc_priority_head (tcbs k t)"
  define k2 where "k2 = k\<lparr>TCD_Priority_List := (TCD_Priority_List k)(p := rotate_behind t (TCD_Priority_List k p)),
     TCD_Execute_Task := list_head (((TCD_Priority_List k)(p := rotate_behind t (TCD_Priority_List k p)))
        (TCD_Highest_Priority k))\<rparr>"
  have i2: "sched_inv k2"
    using reorder_inv(2)[OF inv, of "rotate_behind t (TCD_Priority_List k p)" p] by (simp add: k2_def)
  have "sched_inv (upd_tcb (\<lambda>c. c\<lparr>tc_cur_time_slice := tc_time_slice c\<rparr>) t k2)"
    by (rule sched_inv_upd[OF i2]) (use sched_inv_fields[OF i2] in simp_all)
  then show ?thesis using inv Task_Thread by (simp add: NU_Relinquish_def Let_def p_def k2_def)
qed (simp_all add: NU_Relinquish_def)

lemma NU_Change_Preemption_inv: "sched_inv k \<Longrightarrow> sched_inv (fst (snd (NU_Change_Preemption b k)))"
proof (cases "TCD_Current_Thread k")
  case (Task_Thread t)
  assume inv: "sched_inv k"
  have f: "fields_ok (tcbs k e)" for e using inv by (rule sched_inv_fields)
  have off: "sched_inv (upd_tcb (tc_preemption_update (\<lambda>_. False)) e k)" for e
    by (rule sched_inv_upd[OF inv]) (use f in simp_all)
  define k1 where "k1 = upd_tcb (tc_preemption_update (\<lambda>_. True)) t k"
  have ok: "ready_ok (ready_set k) k" "highest_ok k" "execute_ok k" using inv by (auto simp: sched_inv_def)
  have rs: "ready_set k1 = ready_set k" by (auto simp: k1_def ready_set_def)
  have ok1: "ready_ok (ready_set k1) k1" unfolding rs
    by (rule ready_ok_cong[OF ok(1)]) (use f in \<open>auto simp: k1_def\<close>)
  have h1: "highest_ok k1" using ok(2) by (simp add: k1_def highest_ok_def)
  have head: "sched_inv (k1\<lparr>TCD_Execute_Task := list_head (TCD_Priority_List k1 (TCD_Highest_Priority k1))\<rparr>)"
    using ok1 h1 execute_head[OF ok1 h1] by (simp add: sched_inv_def)
  have keep: "sched_inv k1"
    if "\<not> (TCD_Execute_Task k1 = Some t \<and> TCD_Highest_Priority k1 < tc_priority (tcbs k1 t))"
    unfolding k1_def
  proof (rule sched_inv_upd[OF inv])
    have "tc_priority (tcbs k t) = TCD_Highest_Priority k" if x: "TCD_Execute_Task k = Some t"
      using that \<open>\<not> _\<close> highest_le(1)[OF ok(1,2), of t] ok(3)
      by (auto simp: k1_def execute_ok_def ready_set_def)
    then show "tc_preemption (tc_preemption_update (\<lambda>_. True) (tcbs k t)) \<longrightarrow> tc_preemption (tcbs k t) \<or>
        TCD_Execute_Task k \<noteq> Some t \<or> tc_priority (tcbs k t) = TCD_Highest_Priority k" by blast
  qed (use f in simp_all)
  show ?thesis using inv off head keep Task_Thread
    by (simp add: NU_Change_Preemption_def Let_def k1_def[symmetric] split: option.splits)
qed (simp_all add: NU_Change_Preemption_def)

text \<open>
  \<open>relisted k t n a\<close> is the state of \<open>TCS_Change_Priority\<close> after the ready task has moved to the list
  of its new priority, before the highest priority is looked for.
\<close>

definition relisted :: "kernel \<Rightarrow> tid \<Rightarrow> nat \<Rightarrow> bool \<Rightarrow> kernel" where
  "relisted k t n a =
     (let k2 = upd_tcb (tc_priority_update (\<lambda>_. n)) t (unlink_ready t k);
          k3 = (if a then upd_tcb (tc_base_priority_update (\<lambda>_. n)) t k2 else k2)
      in link_ready t (upd_tcb (set_priority_fields n) t k3))"

lemma relisted_ok:
  assumes ok: "ready_ok (ready_set k) k" and t: "tc_status (tcbs k t) = NU_READY" and n: "n < 256"
  shows "ready_ok (ready_set (relisted k t n a)) (relisted k t n a)"
    and "ready_set (relisted k t n a) = ready_set k"
proof -
  let ?b = "\<lambda>c :: tcb. if a then n else tc_base_priority c"
  define k4 where "k4 = upd_tcb (set_priority_fields n \<circ> (\<lambda>c. c\<lparr>tc_priority := n, tc_base_priority := ?b c\<rparr>)) t
     (unlink_ready t k)"
  have k4: "relisted k t n a = link_ready t k4"
    by (simp add: relisted_def Let_def k4_def upd_tcb_def)
  show rs: "ready_set (relisted k t n a) = ready_set k"
    by (auto simp: k4 k4_def ready_set_def set_priority_fields_def)
  have "ready_ok (ready_set k - {t}) (unlink_ready t k)"
    by (rule unlink_ready_ok[OF ok]) (use t in \<open>simp add: ready_set_def\<close>)
  then have "ready_ok (ready_set k - {t}) k4"
    by (rule ready_ok_cong) (use n fields_okD[OF ok] in \<open>auto simp: k4_def intro!: fields_ok_set_priority\<close>)
  from link_ready_ok[OF this, of t] have "ready_ok (insert t (ready_set k - {t})) (link_ready t k4)" by simp
  moreover have "insert t (ready_set k - {t}) = ready_set k" using t by (auto simp: ready_set_def)
  ultimately show "ready_ok (ready_set (relisted k t n a)) (relisted k t n a)" by (simp add: rs) (simp add: k4)
qed

lemma relisted_simps [simp]:
  "TCD_Execute_Task (relisted k t n a) = TCD_Execute_Task k"
  "TCD_Current_Thread (relisted k t n a) = TCD_Current_Thread k"
  "e \<noteq> t \<Longrightarrow> tcbs (relisted k t n a) e = tcbs k e"
  "tc_preemption (tcbs (relisted k t n a) e) = tc_preemption (tcbs k e)"
  "tc_priority (tcbs (relisted k t n a) t) = n"
  by (simp_all add: relisted_def Let_def set_priority_fields_def)

lemma TCS_Change_Priority_inv:
  assumes inv: "sched_inv k" and n: "new_priority < 256"
  shows "sched_inv (fst (TCS_Change_Priority t new_priority app_call k))"
proof -
  define k0 where "k0 = upd_tcb (\<lambda>c. c\<lparr>tc_cur_time_slice := tc_time_slice c\<rparr>) t k"
  have f: "fields_ok (tcbs k t)" using inv by (rule sched_inv_fields)
  have i0: "sched_inv k0" using f by (auto simp: k0_def intro!: sched_inv_upd[OF inv])
  have f0: "fields_ok (tcbs k0 t)" using i0 by (rule sched_inv_fields)
  consider (asleep) "tc_status (tcbs k0 t) \<noteq> NU_READY"
    | (inherited) "tc_status (tcbs k0 t) = NU_READY" "tc_semaphore_count (tcbs k0 t) \<noteq> 0 \<and> new_priority > tc_priority (tcbs k0 t)"
    | (moved) "tc_status (tcbs k0 t) = NU_READY" "\<not> (tc_semaphore_count (tcbs k0 t) \<noteq> 0 \<and> new_priority > tc_priority (tcbs k0 t))"
    by blast
  then show ?thesis
  proof cases
    case asleep
    have "sched_inv (upd_tcb (set_priority_fields new_priority \<circ>
        (\<lambda>c. c\<lparr>tc_base_priority := tc_priority c, tc_priority := new_priority\<rparr>)) t k0)"
      by (rule sched_inv_upd[OF i0])
         (use asleep n fields_ok_set_priority in \<open>auto simp: set_priority_fields_def fields_ok_def\<close>)
    then show ?thesis using asleep
      by (simp add: TCS_Change_Priority_def Let_def k0_def[symmetric]) (simp add: upd_tcb_def)
  next
    case inherited
    then show ?thesis using i0 f0
      by (auto simp: TCS_Change_Priority_def Let_def k0_def[symmetric] intro!: sched_inv_upd)
  next
    case moved
    define k5 where "k5 = relisted k0 t new_priority app_call"
    define k6 where "k6 = k5\<lparr>TCD_Highest_Priority := find_highest (TCD_Priority_Groups k5) (TCD_Sub_Priority_Groups k5)\<rparr>"
    have ok5: "ready_ok (ready_set k5) k5" and rs: "ready_set k5 = ready_set k0"
      using relisted_ok[of k0 t new_priority app_call] i0 moved(1) n by (auto simp: k5_def sched_inv_def)
    have "t \<in> ready_set k5" using moved(1) rs by (simp add: ready_set_def)
    then have h6: "highest_ok k6" using highest_find[OF ok5] by (auto simp: k6_def)
    have ok6: "ready_ok (ready_set k6) k6" using ok5 by (simp add: k6_def)
    obtain e where e: "TCD_Execute_Task k0 = Some e"
      using i0 highest_le(2)[of "ready_set k0" k0 t] moved(1)
      by (cases "TCD_Execute_Task k0") (auto simp: sched_inv_def execute_ok_def ready_set_def)
    have er: "e \<in> ready_set k6" using i0 e rs by (auto simp: sched_inv_def execute_ok_def ready_set_def k6_def)
    have ex: "TCD_Execute_Task k6 = Some e" using e by (simp add: k6_def k5_def)
    have "TCS_Change_Priority t new_priority app_call k =
       (case TCD_Execute_Task k6 of
          None \<Rightarrow> (k6, False)
        | Some e \<Rightarrow>
            if TCD_Highest_Priority k6 \<le> tc_priority (tcbs k6 e) \<and> tc_preemption (tcbs k6 e)
            then (k6\<lparr>TCD_Execute_Task := list_head (TCD_Priority_List k6 (TCD_Highest_Priority k6))\<rparr>,
                  current_is_task k6)
            else (k6, False))"
      unfolding k6_def k5_def relisted_def using moved
      by (simp only: TCS_Change_Priority_def Let_def k0_def[symmetric] if_True if_False simp_thms)
    then have "fst (TCS_Change_Priority t new_priority app_call k) =
        (if TCD_Highest_Priority k6 \<le> tc_priority (tcbs k6 e) \<and> tc_preemption (tcbs k6 e)
         then k6\<lparr>TCD_Execute_Task := list_head (TCD_Priority_List k6 (TCD_Highest_Priority k6))\<rparr> else k6)"
      by (simp add: ex)
    moreover have "sched_inv k6"
      if "\<not> (TCD_Highest_Priority k6 \<le> tc_priority (tcbs k6 e) \<and> tc_preemption (tcbs k6 e))"
      using that ok6 h6 highest_le(1)[OF ok6 h6 er] ex er by (auto simp: sched_inv_def execute_ok_def ready_set_def)
    ultimately show ?thesis using execute_head[OF ok6 h6] ok6 h6 by (simp add: sched_inv_def)
  qed
qed

section \<open>Every reachable state\<close>

text \<open>
  The services that change the scheduler's state, as steps. The suspension code passed to
  \<open>TCC_Suspend_Task\<close> and \<open>TCC_Resume_Task\<close> is never \<open>NU_READY\<close> in the sources, and a priority is an
  \<open>OPTION\<close>, an 8-bit value. A time-out is delivered to a task that is suspended (while a signal handler
  runs, the suspension is the saved one); the clean-up routine acts on other components. The last rule is the context switch and the other assignments outside this
  component: the current thread, the initialization state and the timer state change freely.
\<close>

definition suspended_for :: "tcb \<Rightarrow> suspend_type" where
  "suspended_for c = (if tc_signal_active c then tc_saved_status c else tc_status c)"

inductive kstep :: "kernel \<Rightarrow> kernel \<Rightarrow> bool" where
  resume: "s \<noteq> NU_READY \<Longrightarrow> kstep k (fst (TCC_Resume_Task t s k))"
| suspend: "s \<noteq> NU_READY \<Longrightarrow> kstep k (fst (TCC_Suspend_Task t s cl timeout k))"
| timeout: "suspended_for (tcbs k t) \<noteq> NU_READY \<Longrightarrow> kstep k (fst (TCC_Task_Timeout (\<lambda>_ u. u) t (k, ())))"
| time_slice: "kstep k (TCC_Time_Slice t k)"
| relinquish: "kstep k (fst (NU_Relinquish k))"
| priority: "p < 256 \<Longrightarrow> kstep k (fst (TCS_Change_Priority t p a k))"
| preemption: "kstep k (fst (snd (NU_Change_Preemption b k)))"
| slice_size: "kstep k (snd (NU_Change_Time_Slice task n k))"
| system: "kstep k (k\<lparr>TCD_Current_Thread := th, INC_Start_Initialize := i, tm := x\<rparr>)"

inductive_cases kstepE: "kstep k k'"

text \<open>The state \<open>TCI_Initialize\<close> leaves, with the tasks of \<open>m\<close> created and not started.\<close>

definition initial_kernel :: "(tid \<Rightarrow> tcb) \<Rightarrow> timers \<Rightarrow> kernel" where
  "initial_kernel m x =
     \<lparr>tcbs = m, TCD_Priority_List = (\<lambda>_. []), TCD_Priority_Groups = 0, TCD_Sub_Priority_Groups = (\<lambda>_. 0),
      TCD_Highest_Priority = TC_PRIORITIES, TCD_Execute_Task = None, TCD_Current_Thread = No_Thread,
      INC_Start_Initialize = True, TMD_Time_Slice_Task = None, tm = x\<rparr>"

definition dormant :: "tcb \<Rightarrow> bool" where
  "dormant c \<longleftrightarrow> fields_ok c \<and> tc_status c = NU_PURE_SUSPEND"

inductive reachable :: "kernel \<Rightarrow> bool" where
  init: "(\<And>t. dormant (m t)) \<Longrightarrow> reachable (initial_kernel m x)"
| step: "reachable k \<Longrightarrow> kstep k k' \<Longrightarrow> reachable k'"

lemma initial_inv: "(\<And>t. dormant (m t)) \<Longrightarrow> sched_inv (initial_kernel m x)"
  by (auto simp: sched_inv_def ready_ok_def ready_set_def highest_ok_def execute_ok_def map_ok_def
      initial_kernel_def dormant_def TC_PRIORITIES_def)

lemma TCC_Task_Timeout_inv:
  assumes "sched_inv k" "suspended_for (tcbs k t) \<noteq> NU_READY"
  shows "sched_inv (fst (TCC_Task_Timeout run_cleanup t (k, e)))"
proof -
  define k1 where "k1 = upd_tcb (tc_timer_active_update (\<lambda>_. False)) t k"
  have i1: "sched_inv k1" using assms(1) sched_inv_fields[OF assms(1), of t]
    by (auto simp: k1_def intro!: sched_inv_upd)
  show ?thesis using assms TCC_Resume_Task_inv[OF i1 assms(2), of t]
    by (simp add: TCC_Task_Timeout_def Let_def k1_def suspended_for_def[symmetric] split: if_splits)
qed

lemma kstep_inv: "kstep k k' \<Longrightarrow> sched_inv k \<Longrightarrow> sched_inv k'"
proof (induction rule: kstep.induct)
  case (slice_size k task n)
  then show ?case using sched_inv_fields[OF slice_size]
    by (auto simp: NU_Change_Time_Slice_def split: option.splits intro!: sched_inv_upd)
next
  case (system k th i x)
  then show ?case
    by (simp add: sched_inv_def ready_ok_def ready_set_def highest_ok_def execute_ok_def cong: option.case_cong)
qed (simp_all add: TCC_Resume_Task_inv TCC_Suspend_Task_inv TCC_Task_Timeout_inv TCC_Time_Slice_inv
      NU_Relinquish_inv TCS_Change_Priority_inv NU_Change_Preemption_inv)

lemma reachable_inv: "reachable k \<Longrightarrow> sched_inv k"
  by (induction rule: reachable.induct) (auto intro: initial_inv kstep_inv)

section \<open>The interface other components rely on\<close>

text \<open>
  What a component that keeps suspended tasks needs of thread control: a task that waits for a reason
  becomes ready when it is resumed for that reason, the other tasks are not touched, the invariant stays.
  The laws give the effect of the loops that lift every suspension of a deleted or reset object.
\<close>

fun resume_each :: "('t \<Rightarrow> 's \<Rightarrow> 'k \<Rightarrow> 'k \<times> bool) \<Rightarrow> 's \<Rightarrow> 't list \<Rightarrow> 'k \<times> bool \<Rightarrow> 'k \<times> bool" where
  "resume_each resume s [] st = st"
| "resume_each resume s (t # ts) (k, preempt) =
     (let (k1, p) = resume t s k in resume_each resume s ts (k1, preempt \<or> p))"

locale thread_services =
  fixes inv :: "'k \<Rightarrow> bool" and waits :: "'t \<Rightarrow> 's \<Rightarrow> 'k \<Rightarrow> bool" and ready :: "'t \<Rightarrow> 'k \<Rightarrow> bool"
    and resume :: "'t \<Rightarrow> 's \<Rightarrow> 'k \<Rightarrow> 'k \<times> bool"
  assumes resume_inv: "inv k \<Longrightarrow> waits t s k \<Longrightarrow> inv (fst (resume t s k))"
    and resume_ready: "inv k \<Longrightarrow> waits t s k \<Longrightarrow> ready t (fst (resume t s k))"
    and resume_others: "inv k \<Longrightarrow> u \<noteq> t \<Longrightarrow>
      waits u s' (fst (resume t s k)) = waits u s' k \<and> ready u (fst (resume t s k)) = ready u k"
begin

lemma resume_each_all:
  "inv k \<Longrightarrow> distinct ts \<Longrightarrow> (\<And>t. t \<in> set ts \<Longrightarrow> waits t s k) \<Longrightarrow>
   inv (fst (resume_each resume s ts (k, p))) \<and>
   (\<forall>t \<in> set ts. ready t (fst (resume_each resume s ts (k, p)))) \<and>
   (\<forall>u. u \<notin> set ts \<longrightarrow> waits u s' (fst (resume_each resume s ts (k, p))) = waits u s' k \<and>
      ready u (fst (resume_each resume s ts (k, p))) = ready u k)"
proof (induction ts arbitrary: k p)
  case Nil
  then show ?case by simp
next
  case (Cons t ts)
  obtain k1 q where r: "resume t s k = (k1, q)" by force
  have w: "waits t s k" using Cons.prems(3)[of t] by simp
  have k1: "inv k1" "ready t k1" using resume_inv[OF Cons.prems(1) w] resume_ready[OF Cons.prems(1) w] r by auto
  have oth: "u \<noteq> t \<Longrightarrow> waits u s'' k1 = waits u s'' k \<and> ready u k1 = ready u k" for u s''
    using resume_others[OF Cons.prems(1), of u t s'' s] r by simp
  have w1: "waits u s k1" if "u \<in> set ts" for u
  proof -
    have "u \<noteq> t" using that Cons.prems(2) by auto
    then show ?thesis using oth[of u s] Cons.prems(3)[of u] that by simp
  qed
  have IH: "inv (fst (resume_each resume s ts (k1, p \<or> q))) \<and>
   (\<forall>t \<in> set ts. ready t (fst (resume_each resume s ts (k1, p \<or> q)))) \<and>
   (\<forall>u. u \<notin> set ts \<longrightarrow> waits u s' (fst (resume_each resume s ts (k1, p \<or> q))) = waits u s' k1 \<and>
      ready u (fst (resume_each resume s ts (k1, p \<or> q))) = ready u k1)"
    by (rule Cons.IH) (use k1 w1 Cons.prems(2) in auto)
  have tn: "t \<notin> set ts" using Cons.prems(2) by simp
  show ?case
  proof (intro conjI ballI allI impI)
    fix u assume "u \<in> set (t # ts)"
    then show "ready u (fst (resume_each resume s (t # ts) (k, p)))" using IH tn k1(2) by (auto simp: r)
  qed (use IH oth in \<open>auto simp: r\<close>)
qed

end

definition waits_for :: "tid \<Rightarrow> suspend_type \<Rightarrow> kernel \<Rightarrow> bool" where
  "waits_for t s k \<longleftrightarrow> s \<noteq> NU_READY \<and> tc_status (tcbs k t) = s \<and>
     tc_debug_suspend (tcbs k t) = NU_READY \<and> \<not> tc_delayed_suspend (tcbs k t)"

definition is_ready :: "tid \<Rightarrow> kernel \<Rightarrow> bool" where
  "is_ready t k \<longleftrightarrow> tc_status (tcbs k t) = NU_READY"

lemma lift_suspension_tcbs:
  "tcbs (fst (lift_suspension t k)) = (tcbs k)(t := (tcbs k t)\<lparr>tc_status := NU_READY\<rparr>)"
  by (simp add: lift_suspension_link Let_def split: option.splits)

lemma TCC_Resume_Task_ready:
  assumes "waits_for t s k"
  shows "tc_status (tcbs (fst (TCC_Resume_Task t s k)) t) = NU_READY"
  using assms by (simp add: TCC_Resume_Task_def Let_def waits_for_def lift_suspension_tcbs)

lemma TCC_Resume_Task_others:
  assumes "u \<noteq> t"
  shows "tcbs (fst (TCC_Resume_Task t s k)) u = tcbs k u"
  using assms by (simp add: TCC_Resume_Task_def Let_def lift_suspension_tcbs)

interpretation tc: thread_services sched_inv waits_for is_ready TCC_Resume_Task
proof unfold_locales
  fix k :: kernel and t s assume "sched_inv k" "waits_for t s k"
  then show "sched_inv (fst (TCC_Resume_Task t s k))" "is_ready t (fst (TCC_Resume_Task t s k))"
    by (auto simp: TCC_Resume_Task_inv TCC_Resume_Task_ready waits_for_def is_ready_def)
next
  fix k :: kernel and u t :: tid and s' s assume "sched_inv k" "u \<noteq> t"
  then show "waits_for u s' (fst (TCC_Resume_Task t s k)) = waits_for u s' k \<and>
      is_ready u (fst (TCC_Resume_Task t s k)) = is_ready u k"
    by (simp add: waits_for_def is_ready_def TCC_Resume_Task_others)
qed

text \<open>The calling task (\<open>TCCT_Current_Thread\<close>), and what holds when it has been suspended.\<close>

definition current_task :: "kernel \<Rightarrow> tid" where
  "current_task k = (case TCD_Current_Thread k of Task_Thread t \<Rightarrow> t | _ \<Rightarrow> 0)"

definition runs_freely :: "tid \<Rightarrow> kernel \<Rightarrow> bool" where
  "runs_freely t k \<longleftrightarrow> is_ready t k \<and> tc_debug_suspend (tcbs k t) = NU_READY \<and> \<not> tc_delayed_suspend (tcbs k t)"

lemma TCC_Suspend_Task_waits:
  assumes "sched_inv k" "runs_freely t k" "s \<noteq> NU_READY"
  shows "sched_inv (fst (TCC_Suspend_Task t s cl timeout k))"
    "waits_for t s (fst (TCC_Suspend_Task t s cl timeout k))"
    "u \<noteq> t \<Longrightarrow> tcbs (fst (TCC_Suspend_Task t s cl timeout k)) u = tcbs k u"
  using assms TCC_Suspend_Task_inv[OF assms(1,3)]
  by (simp_all add: TCC_Suspend_Task_def Let_def runs_freely_def is_ready_def waits_for_def)

lemma resume_each_others:
  "u \<notin> set ts \<Longrightarrow> tcbs (fst (resume_each TCC_Resume_Task r ts (k, p))) u = tcbs k u"
proof (induction ts arbitrary: k p)
  case (Cons t ts)
  then show ?case using TCC_Resume_Task_others[of u t r k] by (simp add: Let_def split_beta)
qed simp

text \<open>A task that may call a service and suspend.\<close>

definition may_suspend :: "kernel \<Rightarrow> bool" where
  "may_suspend k \<longleftrightarrow> runs_freely (current_task k) k \<and> \<not> tc_signal_active (tcbs k (current_task k))"

section \<open>Properties\<close>

text \<open>
  The search of the two-level bit map (first non-zero byte of the group map, its lowest set bit by
  table, the sub-group, its lowest set bit by table) finds the smallest priority whose ready list is not
  empty, whenever the bit map describes the ready lists and some list is not empty.
\<close>

theorem find_highest_correct:
  assumes "map_ok rl groups sub" and "groups \<noteq> 0"
  shows "rl (find_highest groups sub) \<noteq> [] \<and> (\<forall>q < find_highest groups sub. rl q = []) \<and>
    find_highest groups sub < 256"
  using find_highest_least[OF assms] by blast

text \<open>
  C2. In every state reachable from initialization by resumptions, suspensions, time-outs, time slices,
  relinquishing, priority and preemption changes: there is a task to execute exactly when some task is
  ready; it is itself ready; and if it can be preempted no ready task has a greater priority.
\<close>

theorem scheduler_picks_highest:
  assumes "reachable k"
  shows "(TCD_Execute_Task k = None \<longleftrightarrow> (\<forall>t. tc_status (tcbs k t) \<noteq> NU_READY)) \<and>
    (\<forall>e. TCD_Execute_Task k = Some e \<longrightarrow> tc_status (tcbs k e) = NU_READY \<and>
      (tc_preemption (tcbs k e) \<longrightarrow>
        (\<forall>t. tc_status (tcbs k t) = NU_READY \<longrightarrow> tc_priority (tcbs k e) \<le> tc_priority (tcbs k t))))"
proof -
  have ok: "ready_ok (ready_set k) k" and h: "highest_ok k" and ex: "execute_ok k"
    using reachable_inv[OF assms] by (auto simp: sched_inv_def)
  have le: "TCD_Highest_Priority k \<le> tc_priority (tcbs k t) \<and> TCD_Highest_Priority k < 256"
    if "tc_status (tcbs k t) = NU_READY" for t
    using highest_le[OF ok h, of t] that by (simp add: ready_set_def)
  show ?thesis
  proof (cases "TCD_Execute_Task k")
    case None
    then show ?thesis using ex le by (fastforce simp: execute_ok_def)
  next
    case (Some e)
    then show ?thesis using ex le by (auto simp: execute_ok_def)
  qed
qed

definition task0 :: tcb where
  "task0 = \<lparr>tc_id_valid = True, tc_status = NU_PURE_SUSPEND, tc_delayed_suspend = False,
     tc_debug_suspend = NU_READY, tc_priority = 31, tc_base_priority = 31, tc_preemption = True,
     tc_cur_time_slice = 0, tc_time_slice = 0, tc_priority_head = 31, tc_priority_group = 8,
     tc_sub_priority_ptr = 3, tc_sub_priority = 128, tc_saved_status = NU_READY, tc_signal_active = False,
     tc_timer_active = False, tc_cleanup = None, tc_semaphore_count = 0, tc_auto_clean = False\<rparr>"

lemma dormant_task0: "dormant task0"
  by (simp add: dormant_def fields_ok_def task0_def)

definition kernel0 :: kernel where
  "kernel0 = initial_kernel (\<lambda>_. task0)
     \<lparr>TMD_Active_Timers_List = [], tm_remaining_time = (\<lambda>_. 0), TMD_Active_List_Busy = False,
      TMD_Timer_Start = 0, TMD_Timer = 0, TMD_Timer_State = TM_NOT_ACTIVE\<rparr>"

text \<open>Tasks 1 and 2, of the same priority, started in this order; then task 1 runs.\<close>

definition kernel1 :: kernel where
  "kernel1 = fst (TCC_Resume_Task 1 NU_PURE_SUSPEND kernel0)"

definition kernel2 :: kernel where
  "kernel2 = (fst (TCC_Resume_Task 2 NU_PURE_SUSPEND kernel1))\<lparr>TCD_Current_Thread := Task_Thread 1\<rparr>"

lemma reachable_kernel1: "reachable kernel1"
  unfolding kernel1_def kernel0_def
  by (rule reachable.step[OF reachable.init kstep.resume]) (simp_all add: dormant_task0)

lemmas run_simps = kernel2_def kernel1_def kernel0_def initial_kernel_def task0_def TCC_Resume_Task_def
  lift_suspension_def Let_def TC_PRIORITIES_def upd_tcb_def

lemma kernel1_simps [simp]:
  "tcbs kernel1 = (\<lambda>_. task0)(1 := task0\<lparr>tc_status := NU_READY\<rparr>)"
  "TCD_Execute_Task kernel1 = Some 1" "TCD_Highest_Priority kernel1 = 31"
  "TCD_Priority_List kernel1 = (\<lambda>_. [])(31 := [1])"
  "TCD_Priority_Groups kernel1 = 8" "TCD_Sub_Priority_Groups kernel1 = (\<lambda>_. 0)(3 := 128)"
  by (simp_all add: run_simps)

lemma kernel2_simps [simp]:
  "tcbs kernel2 = (\<lambda>_. task0)(1 := task0\<lparr>tc_status := NU_READY\<rparr>, 2 := task0\<lparr>tc_status := NU_READY\<rparr>)"
  "TCD_Execute_Task kernel2 = Some 1" "TCD_Highest_Priority kernel2 = 31"
  "TCD_Priority_List kernel2 = (\<lambda>_. [])(31 := [1, 2])"
  "TCD_Current_Thread kernel2 = Task_Thread 1"
  by (simp_all add: run_simps)

lemma inv_kernel1: "sched_inv kernel1"
  by (rule reachable_inv[OF reachable_kernel1])

lemma runs_kernel2 [simp]: "\<not> TCCE_Suspend_Error kernel2" "current_task kernel2 = 1" "may_suspend kernel2"
  by (simp_all add: TCCE_Suspend_Error_def current_task_def may_suspend_def runs_freely_def is_ready_def task0_def)

lemma inv_kernel2: "sched_inv kernel2"
proof -
  have "sched_inv (fst (TCC_Resume_Task 2 NU_PURE_SUSPEND kernel1))"
    by (rule TCC_Resume_Task_inv[OF inv_kernel1]) simp
  then show ?thesis
    by (simp add: kernel2_def sched_inv_def ready_ok_def ready_set_def highest_ok_def execute_ok_def
        cong: option.case_cong)
qed

theorem find_highest_correct_witness:
  "find_highest 8 ((\<lambda>_. 0)(3 := 128)) = 31 \<and> ((\<lambda>_. [])(31 := [1 :: nat])) (31 :: nat) \<noteq> []"
proof -
  have "map_ok ((\<lambda>_. [])(31 := [1])) 8 ((\<lambda>_. 0)(3 := 128))"
    using inv_kernel1 by (simp add: sched_inv_def ready_ok_def)
  from find_highest_correct[OF this] show ?thesis by (auto split: if_splits)
qed

theorem scheduler_picks_highest_witness:
  "TCD_Execute_Task kernel1 = Some 1 \<and> tc_status (tcbs kernel1 1) = NU_READY"
  using scheduler_picks_highest[OF reachable_kernel1] by (auto simp: task0_def)

text \<open>
  Resuming a task that waits for the given reason, with no further suspension pending, makes it
  ready at the end of the list of its priority and changes no other list; \<open>NU_TRUE\<close> is returned exactly
  when a task thread runs and a new task has taken the place of the task to execute.
\<close>

theorem TCC_Resume_Task_effect:
  assumes "sched_inv k" and "waits_for t s k"
  shows "TCD_Priority_List (fst (TCC_Resume_Task t s k)) =
      (TCD_Priority_List k)(tc_priority (tcbs k t) := TCD_Priority_List k (tc_priority (tcbs k t)) @ [t]) \<and>
    (snd (TCC_Resume_Task t s k) \<longleftrightarrow> current_is_task k \<and> TCD_Execute_Task k \<noteq> None \<and>
       TCD_Execute_Task (fst (TCC_Resume_Task t s k)) \<noteq> TCD_Execute_Task k)"
proof -
  have f: "tc_priority_head (tcbs k t) = tc_priority (tcbs k t)"
    using sched_inv_fields[OF assms(1), of t] by (simp add: fields_ok_def)
  have "TCD_Execute_Task k \<noteq> Some t"
    using assms by (auto simp: sched_inv_def execute_ok_def waits_for_def)
  then show ?thesis using assms(2)
    by (auto simp: TCC_Resume_Task_def Let_def waits_for_def lift_suspension_link f current_is_task_def
        split: option.splits)
qed

theorem TCC_Resume_Task_effect_witness:
  "TCD_Priority_List (fst (TCC_Resume_Task 2 NU_PURE_SUSPEND kernel1)) 31 = [1, 2] \<and>
   \<not> snd (TCC_Resume_Task 2 NU_PURE_SUSPEND kernel1)"
proof -
  have "waits_for 2 NU_PURE_SUSPEND kernel1" by (simp add: waits_for_def task0_def)
  from TCC_Resume_Task_effect[OF inv_kernel1 this] show ?thesis
    by (auto simp: task0_def) (auto simp: run_simps)
qed

text \<open>
  \<open>NU_Relinquish\<close> is fair among tasks of one priority: when the running task \<open>t\<close> is the first of
  the list of the highest priority and another task \<open>u\<close> is behind it, \<open>u\<close> becomes the task to execute,
  \<open>t\<close> goes to the end of the list, and control is transferred.
\<close>

theorem NU_Relinquish_round_robin:
  assumes "sched_inv k" and "TCD_Current_Thread k = Task_Thread t"
    and "TCD_Priority_List k (TCD_Highest_Priority k) = t # u # us"
  shows "TCD_Execute_Task (fst (NU_Relinquish k)) = Some u \<and>
    TCD_Priority_List (fst (NU_Relinquish k)) (TCD_Highest_Priority k) = u # us @ [t] \<and>
    snd (NU_Relinquish k)"
proof -
  have ok: "ready_ok (ready_set k) k" using assms(1) by (simp add: sched_inv_def)
  have "t \<in> set (TCD_Priority_List k (TCD_Highest_Priority k))" using assms(3) by simp
  then have "tc_priority (tcbs k t) = TCD_Highest_Priority k" using ready_ok_mem[OF ok] by blast
  then have "tc_priority_head (tcbs k t) = TCD_Highest_Priority k"
    using sched_inv_fields[OF assms(1), of t] by (simp add: fields_ok_def)
  then show ?thesis using assms(2,3)
    by (simp add: NU_Relinquish_def Let_def rotate_behind_def)
qed

theorem NU_Relinquish_round_robin_witness:
  "TCD_Execute_Task (fst (NU_Relinquish kernel2)) = Some 2 \<and>
   TCD_Priority_List (fst (NU_Relinquish kernel2)) 31 = [2, 1] \<and> snd (NU_Relinquish kernel2)"
  using NU_Relinquish_round_robin[OF inv_kernel2, of 1 2 "[]"] by simp

text \<open>
  Suspending a ready task takes it, and no other task, off the ready lists, records the reason and
  the clean-up information, and starts its timer exactly when a time-out is given; if it was the task to
  execute, the first task of the highest remaining priority takes its place.
\<close>

theorem TCC_Suspend_Task_effect:
  assumes inv: "sched_inv k" and "tc_status (tcbs k t) = NU_READY" "s \<noteq> NU_READY"
  shows "let k' = fst (TCC_Suspend_Task t s cl timeout k) in
    (\<forall>p. TCD_Priority_List k' p = remove1 t (TCD_Priority_List k p)) \<and>
    tc_status (tcbs k' t) = s \<and> tc_cleanup (tcbs k' t) = cl \<and>
    tm k' = (if timeout \<noteq> NU_SUSPEND then TMC_Start_Timer (task_timer t) timeout (tm k) else tm k) \<and>
    (TCD_Execute_Task k = Some t \<longrightarrow>
       TCD_Execute_Task k' = list_head (TCD_Priority_List k' (TCD_Highest_Priority k')))"
proof -
  have ok: "ready_ok (ready_set k) k" using inv by (simp add: sched_inv_def)
  have f: "tc_priority_head (tcbs k t) = tc_priority (tcbs k t)"
    using sched_inv_fields[OF inv, of t] by (simp add: fields_ok_def)
  have other: "remove1 t (TCD_Priority_List k p) = TCD_Priority_List k p" if "p \<noteq> tc_priority (tcbs k t)" for p
    using ready_ok_mem[OF ok, of t p] that by (simp add: remove1_idem)
  define k0 where "k0 = timed timeout t k"
  define k3 where "k3 = (if TCD_Priority_List k0 (tc_priority (tcbs k0 t)) = [t] \<and>
     tc_priority (tcbs k0 t) = TCD_Highest_Priority k0 mod 256
     then rehighest (unready k0 t s cl) else unready k0 t s cl)"
  have eq: "fst (TCC_Suspend_Task t s cl timeout k) =
      (if TCD_Execute_Task k3 = Some t
       then k3\<lparr>TCD_Execute_Task := list_head (TCD_Priority_List k3 (TCD_Highest_Priority k3))\<rparr> else k3)"
    using TCC_Suspend_Task_ready(1)[OF assms] by (simp only: k3_def k0_def)
  have "TCD_Priority_List k3 p = remove1 t (TCD_Priority_List k p)" for p
    using other by (auto simp: k3_def k0_def f)
  moreover have "tc_status (tcbs k3 t) = s" "tc_cleanup (tcbs k3 t) = cl" "tm k3 = tm k0"
    "TCD_Execute_Task k3 = TCD_Execute_Task k"
    by (simp_all add: k3_def k0_def)
  ultimately show ?thesis unfolding eq by (simp add: Let_def k0_def)
qed

theorem TCC_Suspend_Task_effect_witness:
  "TCD_Priority_List (fst (TCC_Suspend_Task 1 NU_SLEEP_SUSPEND None NU_SUSPEND kernel2)) 31 = [2] \<and>
   tc_status (tcbs (fst (TCC_Suspend_Task 1 NU_SLEEP_SUSPEND None NU_SUSPEND kernel2)) 1) = NU_SLEEP_SUSPEND"
  using TCC_Suspend_Task_effect[OF inv_kernel2, of 1 NU_SLEEP_SUSPEND None NU_SUSPEND]
  by (simp add: Let_def)

text \<open>
  Changing the priority of a suspended task through the application service records the task's
  previous priority, not the requested one, as the base priority to which priority inheritance returns it.
\<close>

theorem NU_Change_Priority_suspended_base:
  assumes "tc_id_valid (tcbs k t)" "tc_status (tcbs k t) \<noteq> NU_READY" "tc_priority (tcbs k t) \<noteq> n"
  shows "let k' = fst (snd (NU_Change_Priority (Some t) n k)) in
    tc_priority (tcbs k' t) = n \<and> tc_base_priority (tcbs k' t) = tc_priority (tcbs k t)"
  using assms by (simp add: NU_Change_Priority_def TCS_Change_Priority_def Let_def set_priority_fields_def)

theorem NU_Change_Priority_suspended_base_witness:
  "tc_base_priority (tcbs (fst (snd (NU_Change_Priority (Some 1) 5 kernel0))) 1) = 31"
  using NU_Change_Priority_suspended_base[of kernel0 1 5]
  by (simp add: kernel0_def initial_kernel_def task0_def Let_def)

end
