(* ===== verification/Timer_Services.thy ===== *)
theory Timer_Services
  imports Scheduler
begin

text \<open>
  Timer expiration (\<open>tmc_common.c\<close>, \<open>TMCT_Timer_Interrupt\<close> of \<open>tmct_common.c\<close>) and the application timers
  (\<open>tms_*.c\<close>, \<open>tmf_remaining.c\<close>).

  The state joins the kernel (with its active timer list), the system clock, the application timers by address
  and the state \<open>client\<close> of the code behind the function pointers: the expiration routines of application
  timers and the clean-up routines of suspended tasks are parameters acting on \<open>client\<close>. The timer inside the
  application timer at address \<open>p\<close> has the number \<open>app_tm p\<close>, which is odd; even numbers are task timers. The loop
  over expired timers is a partial function; the theorems show that it ends.
\<close>

section \<open>Data\<close>

record app_timer =
  tm_id_valid :: bool
  tm_expiration_routine :: nat
  tm_expiration_id :: nat
  tm_enabled :: bool
  tm_paused_status :: bool
  tm_expirations :: nat
  tm_initial_time :: nat
  tm_reschedule_time :: nat
  tm_paused_time :: nat

record 'e tsys =
  tk :: kernel
  clk :: clock
  apps :: "addr \<Rightarrow> app_timer"
  TMD_Created_Timers_List :: "addr list"
  TMD_Total_Timers :: nat
  client :: 'e

definition app_tm :: "addr \<Rightarrow> tmid" where
  "app_tm p = 2 * p + 1"

definition upd_app :: "addr \<Rightarrow> (app_timer \<Rightarrow> app_timer) \<Rightarrow> 'e tsys \<Rightarrow> 'e tsys" where
  "upd_app p f s = s\<lparr>apps := (apps s)(p := f (apps s p))\<rparr>"

definition upd_tm :: "(timers \<Rightarrow> timers) \<Rightarrow> 'e tsys \<Rightarrow> 'e tsys" where
  "upd_tm f s = s\<lparr>tk := (tk s)\<lparr>tm := f (tm (tk s))\<rparr>\<rparr>"

lemma upd_app_simps [simp]:
  "apps (upd_app p f s) = (apps s)(p := f (apps s p))" "tk (upd_app p f s) = tk s"
  "clk (upd_app p f s) = clk s" "client (upd_app p f s) = client s"
  "TMD_Created_Timers_List (upd_app p f s) = TMD_Created_Timers_List s"
  "TMD_Total_Timers (upd_app p f s) = TMD_Total_Timers s"
  by (simp_all add: upd_app_def)

lemma upd_tm_simps [simp]:
  "apps (upd_tm f s) = apps s" "tk (upd_tm f s) = (tk s)\<lparr>tm := f (tm (tk s))\<rparr>"
  "clk (upd_tm f s) = clk s" "client (upd_tm f s) = client s"
  "TMD_Created_Timers_List (upd_tm f s) = TMD_Created_Timers_List s"
  "TMD_Total_Timers (upd_tm f s) = TMD_Total_Timers s"
  by (simp_all add: upd_tm_def)

section \<open>Expiration\<close>

text \<open>The head of the list is brought up to date; the busy flag keeps other starts from touching the count-down.\<close>

definition begin_expiration :: "timers \<Rightarrow> timers" where
  "begin_expiration s =
    (let s1 = s\<lparr>TMD_Timer_State := TM_NOT_ACTIVE, TMD_Active_List_Busy := True\<rparr>
     in case TMD_Active_Timers_List s1 of
          [] \<Rightarrow> s1
        | timer # _ \<Rightarrow>
            s1\<lparr>tm_remaining_time := (tm_remaining_time s1)
                 (timer := (if tm_remaining_time s1 timer > TMD_Timer_Start s1
                            then tm_remaining_time s1 timer - TMD_Timer_Start s1 else 0))\<rparr>)"

text \<open>One pass of the loop, for the expired timer at the head of the list.\<close>

definition expire_application ::
    "(nat \<Rightarrow> nat \<Rightarrow> 'e \<Rightarrow> 'e) \<Rightarrow> addr \<Rightarrow> 'e tsys \<Rightarrow> 'e tsys" where
  "expire_application routine p s =
    (let a = apps s p;
         s1 = upd_tm (TMC_Stop_Timer (app_tm p))
                (upd_app p (\<lambda>a. a\<lparr>tm_expirations := inc32 (tm_expirations a), tm_enabled := False\<rparr>) s);
         s2 = (if tm_reschedule_time a \<noteq> 0
               then upd_tm (TMC_Start_Timer (app_tm p) (tm_reschedule_time a))
                      (upd_app p (tm_enabled_update (\<lambda>_. True)) s1)
               else s1)
     in s2\<lparr>client := routine (tm_expiration_routine a) (tm_expiration_id a) (client s2)\<rparr>)"

definition expire_task :: "(nat \<Rightarrow> 'e \<Rightarrow> 'e) \<Rightarrow> tid \<Rightarrow> 'e tsys \<Rightarrow> 'e tsys" where
  "expire_task run_cleanup t s =
    (let s1 = upd_tm (TMC_Stop_Timer (task_timer t)) s;
         (k, e) = TCC_Task_Timeout run_cleanup t (tk s1, client s1)
     in s1\<lparr>tk := k, client := e\<rparr>)"

definition expire_one ::
    "(nat \<Rightarrow> nat \<Rightarrow> 'e \<Rightarrow> 'e) \<Rightarrow> (nat \<Rightarrow> 'e \<Rightarrow> 'e) \<Rightarrow> tmid \<Rightarrow> 'e tsys \<Rightarrow> 'e tsys" where
  "expire_one routine run_cleanup timer s =
    (if odd timer then expire_application routine (timer div 2) s else expire_task run_cleanup (timer div 2) s)"

partial_function (option) expire_loop ::
    "(nat \<Rightarrow> nat \<Rightarrow> 'e \<Rightarrow> 'e) \<Rightarrow> (nat \<Rightarrow> 'e \<Rightarrow> 'e) \<Rightarrow> 'e tsys \<Rightarrow> 'e tsys option" where
  "expire_loop routine run_cleanup s =
    (case TMD_Active_Timers_List (tm (tk s)) of
       [] \<Rightarrow> Some s
     | timer # _ \<Rightarrow>
         if tm_remaining_time (tm (tk s)) timer = 0
         then expire_loop routine run_cleanup (expire_one routine run_cleanup timer s)
         else Some s)"

declare expire_loop.simps [code]

definition finish_expiration :: "timers \<Rightarrow> timers" where
  "finish_expiration s =
    (let s1 = s\<lparr>TMD_Active_List_Busy := False\<rparr>
     in case TMD_Active_Timers_List s1 of
          [] \<Rightarrow> s1
        | h # _ \<Rightarrow> TMCT_Enable_Timer (tm_remaining_time s1 h) (s1\<lparr>TMD_Timer_Start := tm_remaining_time s1 h\<rparr>))"

definition TMC_Timer_Expiration ::
    "(nat \<Rightarrow> nat \<Rightarrow> 'e \<Rightarrow> 'e) \<Rightarrow> (nat \<Rightarrow> 'e \<Rightarrow> 'e) \<Rightarrow> 'e tsys \<Rightarrow> 'e tsys option" where
  "TMC_Timer_Expiration routine run_cleanup s =
     map_option (upd_tm finish_expiration) (expire_loop routine run_cleanup (upd_tm begin_expiration s))"

definition TMC_Timer_HISR ::
    "(nat \<Rightarrow> nat \<Rightarrow> 'e \<Rightarrow> 'e) \<Rightarrow> (nat \<Rightarrow> 'e \<Rightarrow> 'e) \<Rightarrow> 'e tsys \<Rightarrow> 'e tsys option" where
  "TMC_Timer_HISR routine run_cleanup s =
     map_option (\<lambda>s1. case TMD_Time_Slice_Task (tk s1) of
         None \<Rightarrow> s1
       | Some task \<Rightarrow> s1\<lparr>tk := (TCC_Time_Slice task (tk s1))\<lparr>TMD_Time_Slice_Task := None\<rparr>\<rparr>)
       (if TMD_Timer_State (tm (tk s)) = TM_EXPIRED then TMC_Timer_Expiration routine run_cleanup s else Some s)"

text \<open>The time slice of the running task; control blocks of HISRs have no time slice.\<close>

definition tick_time_slice :: "kernel \<Rightarrow> kernel" where
  "tick_time_slice k =
    (case TCD_Current_Thread k of
       Task_Thread t \<Rightarrow>
         if tc_cur_time_slice (tcbs k t) \<noteq> 0 then
           (let k1 = upd_tcb (\<lambda>c. c\<lparr>tc_cur_time_slice := tc_cur_time_slice c - 1\<rparr>) t k
            in if tc_cur_time_slice (tcbs k1 t) = 0
               then (upd_tcb (\<lambda>c. c\<lparr>tc_cur_time_slice := tc_time_slice c\<rparr>) t k1)\<lparr>TMD_Time_Slice_Task := Some t\<rparr>
               else k1)
         else k
     | _ \<Rightarrow> k)"

text \<open>The result tells whether the timer HISR is activated.\<close>

definition TMCT_Timer_Interrupt :: "'e tsys \<Rightarrow> 'e tsys \<times> bool" where
  "TMCT_Timer_Interrupt s =
    (let s1 = s\<lparr>clk := tick_clock (clk s)\<rparr>;
         s2 = upd_tm tick_timer s1;
         s3 = s2\<lparr>tk := tick_time_slice (tk s2)\<rparr>
     in (s3, TMD_Timer_State (tm (tk s3)) = TM_EXPIRED \<or> TMD_Time_Slice_Task (tk s3) \<noteq> None))"

section \<open>Application timers\<close>

definition NU_Control_Timer :: "addr \<Rightarrow> bool option \<Rightarrow> 'e tsys \<Rightarrow> 'e tsys \<times> status" where
  "NU_Control_Timer p enable s =
    (let a = apps s p;
         status = error_checks
           [(p = NU_NULL, NU_INVALID_TIMER), (\<not> tm_id_valid a, NU_INVALID_TIMER),
            (enable = None, NU_INVALID_ENABLE), (tm_paused_status a, NU_TIMER_PAUSED)] NU_SUCCESS
     in if status = NU_SUCCESS then
          (if enable = Some True \<and> \<not> tm_enabled a then
             (let time = (if tm_expirations a \<noteq> 0 then tm_reschedule_time a else tm_initial_time a)
              in (upd_tm (TMC_Start_Timer (app_tm p) time) (upd_app p (tm_enabled_update (\<lambda>_. True)) s), NU_SUCCESS))
           else if enable = Some False \<and> tm_enabled a then
             (upd_app p (tm_enabled_update (\<lambda>_. False)) (upd_tm (TMC_Stop_Timer (app_tm p)) s), NU_SUCCESS)
           else (s, NU_SUCCESS))
        else (s, status))"

definition NU_Create_Timer ::
    "addr \<Rightarrow> nat \<Rightarrow> nat \<Rightarrow> nat \<Rightarrow> nat \<Rightarrow> bool option \<Rightarrow> 'e tsys \<Rightarrow> 'e tsys \<times> status" where
  "NU_Create_Timer p routine ident initial_time reschedule_time enable s =
    (let status = error_checks
           [(p = NU_NULL \<or> tm_id_valid (apps s p), NU_INVALID_TIMER), (routine = NU_NULL, NU_INVALID_FUNCTION),
            (initial_time = 0, NU_INVALID_OPERATION), (enable = None, NU_INVALID_ENABLE)] NU_SUCCESS
     in if status = NU_SUCCESS then
          (let s1 = (upd_app p (\<lambda>_. \<lparr>tm_id_valid = True, tm_expiration_routine = routine, tm_expiration_id = ident,
                       tm_enabled = False, tm_paused_status = False, tm_expirations = 0,
                       tm_initial_time = initial_time, tm_reschedule_time = reschedule_time, tm_paused_time = 0\<rparr>) s)
                      \<lparr>TMD_Created_Timers_List := TMD_Created_Timers_List s @ [p],
                       TMD_Total_Timers := inc32 (TMD_Total_Timers s)\<rparr>
           in (if enable = Some True then fst (NU_Control_Timer p (Some True) s1) else s1, NU_SUCCESS))
        else (s, status))"

definition NU_Delete_Timer :: "addr \<Rightarrow> 'e tsys \<Rightarrow> 'e tsys \<times> status" where
  "NU_Delete_Timer p s =
    (let status = error_checks
           [(p = NU_NULL, NU_INVALID_TIMER), (\<not> tm_id_valid (apps s p), NU_INVALID_TIMER)] NU_SUCCESS
     in if status = NU_SUCCESS then
          (if tm_enabled (apps s p) then (s, NU_NOT_DISABLED)
           else ((upd_app p (tm_id_valid_update (\<lambda>_. False)) s)
                   \<lparr>TMD_Created_Timers_List := remove1 p (TMD_Created_Timers_List s),
                    TMD_Total_Timers := dec32 (TMD_Total_Timers s)\<rparr>, NU_SUCCESS))
        else (s, status))"

definition NU_Reset_Timer :: "addr \<Rightarrow> nat \<Rightarrow> nat \<Rightarrow> nat \<Rightarrow> bool option \<Rightarrow> 'e tsys \<Rightarrow> 'e tsys \<times> status" where
  "NU_Reset_Timer p routine initial_time reschedule_time enable s =
    (let status = error_checks
           [(p = NU_NULL, NU_INVALID_TIMER), (\<not> tm_id_valid (apps s p), NU_INVALID_TIMER),
            (initial_time = 0, NU_INVALID_OPERATION), (routine = NU_NULL, NU_INVALID_FUNCTION),
            (enable = None, NU_INVALID_ENABLE)] NU_SUCCESS
     in if status = NU_SUCCESS then
          (if tm_enabled (apps s p) then (s, NU_NOT_DISABLED)
           else
             (let s1 = upd_app p (\<lambda>a. a\<lparr>tm_expiration_routine := routine, tm_expirations := 0,
                         tm_initial_time := initial_time, tm_reschedule_time := reschedule_time,
                         tm_paused_status := False\<rparr>) s
              in (if enable = Some True then fst (NU_Control_Timer p (Some True) s1) else s1, NU_SUCCESS)))
        else (s, status))"

text \<open>The search of \<open>NU_Get_Remaining_Time\<close> behind the head; \<open>None\<close> when the timer is not on the list.\<close>

fun sum_up_to :: "(tmid \<Rightarrow> nat) \<Rightarrow> tmid \<Rightarrow> tmid list \<Rightarrow> nat \<Rightarrow> nat option" where
  "sum_up_to rem timer [] acc = None"
| "sum_up_to rem timer (t # ts) acc =
    (let acc' = add32 acc (rem t) in if t = timer then Some acc' else sum_up_to rem timer ts acc')"

definition remaining_time :: "tmid \<Rightarrow> timers \<Rightarrow> nat" where
  "remaining_time timer s =
    (case TMD_Active_Timers_List s of
       [] \<Rightarrow> 0
     | h # hs \<Rightarrow>
         (let t0 = TMD_Timer s;
              t1 = (if tm_remaining_time s h > TMD_Timer_Start s
                    then add32 t0 (tm_remaining_time s h - TMD_Timer_Start s) else t0)
          in if h = timer then t1
             else (case sum_up_to (tm_remaining_time s) timer hs t1 of None \<Rightarrow> 0 | Some t \<Rightarrow> t)))"

text \<open>\<open>None\<close> as second component: \<open>*remaining_time\<close> is not written.\<close>

definition NU_Get_Remaining_Time :: "addr \<Rightarrow> 'e tsys \<Rightarrow> status \<times> nat option" where
  "NU_Get_Remaining_Time p s =
    (let a = apps s p
     in if p \<noteq> NU_NULL \<and> tm_id_valid a then
          (if tm_enabled a then (NU_SUCCESS, Some (remaining_time (app_tm p) (tm (tk s))))
           else if tm_paused_status a then (NU_SUCCESS, Some (tm_paused_time a))
           else (NU_INVALID_TIMER, None))
        else (NU_INVALID_TIMER, None))"

definition NU_Pause_Timer :: "addr \<Rightarrow> 'e tsys \<Rightarrow> 'e tsys \<times> status" where
  "NU_Pause_Timer p s =
    (let remaining = (case snd (NU_Get_Remaining_Time p s) of Some r \<Rightarrow> r | None \<Rightarrow> 0); a = apps s p
     in if p \<noteq> NU_NULL \<and> tm_id_valid a then
          (if tm_enabled a \<and> \<not> tm_paused_status a then
             (upd_app p (\<lambda>a. a\<lparr>tm_enabled := False, tm_paused_status := True, tm_paused_time := remaining\<rparr>)
                (upd_tm (TMC_Stop_Timer (app_tm p)) s), NU_SUCCESS)
           else (s, NU_INVALID_PAUSE_TIMER))
        else (s, NU_INVALID_TIMER))"

definition NU_Resume_Timer :: "addr \<Rightarrow> 'e tsys \<Rightarrow> 'e tsys \<times> status" where
  "NU_Resume_Timer p s =
    (let a = apps s p
     in if p \<noteq> NU_NULL \<and> tm_id_valid a then
          (if tm_paused_status a then
             NU_Reset_Timer p (tm_expiration_routine a) (tm_paused_time a) (tm_reschedule_time a) (Some True) s
           else (s, NU_INVALID_RESUME_TIMER))
        else (s, NU_INVALID_TIMER))"

section \<open>Single steps of the expiration\<close>

lemma TCC_Resume_Task_tm:
  "\<not> tc_timer_active (tcbs k t) \<Longrightarrow> tm (fst (TCC_Resume_Task t st k)) = tm k"
  by (simp add: TCC_Resume_Task_def lift_suspension_def Let_def split: option.splits)

lemma TCC_Task_Timeout_keeps:
  "tm (fst (TCC_Task_Timeout run_cleanup t (k, e))) = tm k"
  "u \<noteq> t \<Longrightarrow> tcbs (fst (TCC_Task_Timeout run_cleanup t (k, e))) u = tcbs k u"
  by (simp_all add: TCC_Task_Timeout_def Let_def TCC_Resume_Task_tm TCC_Resume_Task_others)

text \<open>A task that waits with a time-out and with nothing else pending.\<close>

definition timed_wait :: "tid \<Rightarrow> kernel \<Rightarrow> bool" where
  "timed_wait t k \<longleftrightarrow> tc_timer_active (tcbs k t) \<and> \<not> tc_signal_active (tcbs k t) \<and>
     waits_for t (tc_status (tcbs k t)) k"

lemma TCC_Task_Timeout_ready:
  assumes "timed_wait t k" "tm_remaining_time (tm k) (task_timer t) = 0"
  shows "is_ready t (fst (TCC_Task_Timeout run_cleanup t (k, e)))"
proof -
  let ?k = "upd_tcb (tc_timer_active_update (\<lambda>_. False)) t k"
  have "waits_for t (tc_status (tcbs k t)) ?k" using assms(1) by (simp add: timed_wait_def waits_for_def)
  then show ?thesis
    using TCC_Resume_Task_ready[of t "tc_status (tcbs k t)" ?k] assms
    by (simp add: TCC_Task_Timeout_def Let_def timed_wait_def is_ready_def)
qed

abbreviation created :: "'e tsys \<Rightarrow> addr list \<times> nat" where
  "created s \<equiv> (TMD_Created_Timers_List s, TMD_Total_Timers s)"

abbreviation active :: "'e tsys \<Rightarrow> tmid set" where
  "active s \<equiv> set (TMD_Active_Timers_List (tm (tk s)))"

definition due :: "'e tsys \<Rightarrow> tmid \<Rightarrow> bool" where
  "due s u \<longleftrightarrow> u \<in> active s \<and> expiry (tm (tk s)) u = 0"

definition fired :: "app_timer \<Rightarrow> app_timer" where
  "fired a = a\<lparr>tm_expirations := inc32 (tm_expirations a), tm_enabled := (tm_reschedule_time a \<noteq> 0)\<rparr>"

definition restarts :: "'e tsys \<Rightarrow> tmid \<Rightarrow> bool" where
  "restarts s u \<longleftrightarrow> odd u \<and> tm_reschedule_time (apps s (u div 2)) \<noteq> 0"

text \<open>What holds throughout the loop: the list is marked busy, reschedule times are 32-bit values.\<close>

definition processing :: "'e tsys \<Rightarrow> bool" where
  "processing s \<longleftrightarrow> timers_inv (tm (tk s)) \<and> TMD_Active_List_Busy (tm (tk s)) \<and>
     (\<forall>p. tm_reschedule_time (apps s p) < 4294967296)"

lemma TMC_Stop_Timer_busy [simp]: "TMD_Active_List_Busy (TMC_Stop_Timer t s) = TMD_Active_List_Busy s"
  by (simp add: TMC_Stop_Timer_def Let_def)

lemma TMC_Start_Timer_keeps_busy [simp]: "TMD_Active_List_Busy (TMC_Start_Timer t n s) = TMD_Active_List_Busy s"
  by (simp add: TMC_Start_Timer_def TMCT_Enable_Timer_def adjust_head_def Let_def split_beta split: list.splits)

lemma TMC_Stop_Timer_rem_self:
  assumes "distinct (TMD_Active_Timers_List s)" "TMD_Active_Timers_List s = t # ts"
  shows "tm_remaining_time (TMC_Stop_Timer t s) t = tm_remaining_time s t"
  using assms next_in_split[of "[]" t ts] by (cases ts) (auto simp: TMC_Stop_Timer_def Let_def)

text \<open>The effect of one pass on the timers: the head leaves the list, or is behind all the expired ones.\<close>

lemma expire_one_timers:
  assumes pr: "processing s" and L: "TMD_Active_Timers_List (tm (tk s)) = h # hs"
    and s'_def: "s' = expire_one routine run_cleanup h s"
  shows "processing s'"
    and "active s' = (active s - {h}) \<union> (if restarts s h then {h} else {})"
    and "u \<in> active s - {h} \<Longrightarrow> expiry (tm (tk s')) u = expiry (tm (tk s)) u"
    and "restarts s h \<Longrightarrow> expiry (tm (tk s')) h = tm_reschedule_time (apps s (h div 2))"
    and "apps s' = (if odd h then (apps s)(h div 2 := fired (apps s (h div 2))) else apps s)"
    and "created s' = created s"
proof -
  let ?m = "tm (tk s)" and ?r = "tm_reschedule_time (apps s (h div 2))"
  let ?m1 = "TMC_Stop_Timer h ?m"
  have inv: "timers_inv ?m" and busy: "TMD_Active_List_Busy ?m" and r: "\<And>p. tm_reschedule_time (apps s p) < 4294967296"
    using pr by (auto simp: processing_def)
  have d: "distinct (h # hs)" using inv L by (simp add: timers_inv_def)
  have hin: "h \<in> set (TMD_Active_Timers_List ?m)" using L by simp
  note stop = TMC_Stop_Timer_facts[OF inv hin]
  have m1: "TMD_Active_Timers_List ?m1 = hs" "timers_inv ?m1"
    "\<And>u. u \<in> active s - {h} \<Longrightarrow> expiry ?m1 u = expiry ?m u" using stop L busy by auto
  have hnot: "h \<notin> set (TMD_Active_Timers_List ?m1)" using m1 d by simp
  note start = TMC_Start_Timer_facts[OF m1(2) hnot r[of "h div 2"]]
  define m' where "m' = (if restarts s h then TMC_Start_Timer h ?r ?m1 else ?m1)"
  have odd_eq: "odd h \<Longrightarrow> app_tm (h div 2) = h" and even_eq: "\<not> odd h \<Longrightarrow> task_timer (h div 2) = h"
    by (auto simp: app_tm_def task_timer_def)
  have tm': "tm (tk s') = m'"
    using odd_eq even_eq
    by (cases "odd h")
      (simp_all add: s'_def m'_def expire_one_def expire_application_def expire_task_def restarts_def Let_def
        split_beta TCC_Task_Timeout_keeps)
  show apps: "apps s' = (if odd h then (apps s)(h div 2 := fired (apps s (h div 2))) else apps s)"
    by (auto simp: s'_def expire_one_def expire_application_def expire_task_def fired_def Let_def split_beta)
  show "created s' = created s"
    by (auto simp: s'_def expire_one_def expire_application_def expire_task_def Let_def split_beta)
  have ra: "tm_reschedule_time (apps s' p) = tm_reschedule_time (apps s p)" for p by (simp add: apps fired_def)
  show "processing s'" using m1 start busy r ra by (simp add: processing_def tm' m'_def)
  show "active s' = (active s - {h}) \<union> (if restarts s h then {h} else {})"
    using m1 start L d by (auto simp: tm' m'_def)
  show "u \<in> active s - {h} \<Longrightarrow> expiry (tm (tk s')) u = expiry (tm (tk s)) u"
    using m1 start L d by (auto simp: tm' m'_def)
  show "restarts s h \<Longrightarrow> expiry (tm (tk s')) h = ?r" using start by (simp add: tm' m'_def)
qed

lemma expire_one_tasks:
  assumes pr: "processing s" and L: "TMD_Active_Timers_List (tm (tk s)) = h # hs"
    and z: "tm_remaining_time (tm (tk s)) h = 0" and s'_def: "s' = expire_one routine run_cleanup h s"
  shows "task_timer t \<noteq> h \<Longrightarrow> tcbs (tk s') t = tcbs (tk s) t"
    and "task_timer t = h \<Longrightarrow> timed_wait t (tk s) \<Longrightarrow> is_ready t (tk s')"
    and "sched_inv (tk s) \<Longrightarrow> (\<And>t. h = task_timer t \<Longrightarrow> suspended_for (tcbs (tk s) t) \<noteq> NU_READY) \<Longrightarrow>
      sched_inv (tk s')"
proof -
  have d: "distinct (TMD_Active_Timers_List (tm (tk s)))" using pr by (simp add: processing_def timers_inv_def)
  note self = TMC_Stop_Timer_rem_self[OF d L]
  let ?k = "(tk s)\<lparr>tm := TMC_Stop_Timer h (tm (tk s))\<rparr>"
  have ev: "tk s' = fst (TCC_Task_Timeout run_cleanup (h div 2) (?k, client s))" if "\<not> odd h"
  proof -
    have "task_timer (h div 2) = h" using that by (auto simp: task_timer_def)
    then show ?thesis using that by (simp add: s'_def expire_one_def expire_task_def Let_def split_beta)
  qed
  have od: "tk s' = (tk s)\<lparr>tm := tm (tk s')\<rparr>" if "odd h"
    using that by (simp add: s'_def expire_one_def expire_application_def Let_def)
  show "task_timer t \<noteq> h \<Longrightarrow> tcbs (tk s') t = tcbs (tk s) t"
  proof (cases "odd h")
    case True
    then show ?thesis using arg_cong[OF od[OF True], of tcbs] by simp
  next
    case False
    assume "task_timer t \<noteq> h"
    then have "t \<noteq> h div 2" using False by (auto simp: task_timer_def)
    then show ?thesis using ev[OF False] by (simp add: TCC_Task_Timeout_keeps)
  qed
  show "is_ready t (tk s')" if "task_timer t = h" "timed_wait t (tk s)"
  proof -
    have t: "\<not> odd h" "t = h div 2" using that(1) by (auto simp: task_timer_def)
    have "timed_wait t ?k" using that(2) by (simp add: timed_wait_def waits_for_def)
    then show ?thesis
      using TCC_Task_Timeout_ready[of t ?k run_cleanup "client s"] ev[OF t(1)] self z that(1) t(2) by simp
  qed
  show "sched_inv (tk s')" if inv: "sched_inv (tk s)"
    and w: "\<And>t. h = task_timer t \<Longrightarrow> suspended_for (tcbs (tk s) t) \<noteq> NU_READY"
  proof (cases "odd h")
    case True
    then show ?thesis using od[OF True] inv by (metis inv_frames(10))
  next
    case False
    then have "suspended_for (tcbs ?k (h div 2)) \<noteq> NU_READY" using w[of "h div 2"] by (auto simp: task_timer_def)
    then show ?thesis using ev[OF False] TCC_Task_Timeout_inv[of ?k "h div 2" run_cleanup "client s"] inv by simp
  qed
qed

section \<open>The loop\<close>

text \<open>What the loop makes of \<open>s\<close>: every timer that was due has been served, once.\<close>

definition served :: "'e tsys \<Rightarrow> 'e tsys \<Rightarrow> bool" where
  "served s s' \<longleftrightarrow> created s' = created s \<and>
     active s' = {u \<in> active s. \<not> due s u \<or> restarts s u} \<and>
     (\<forall>u \<in> active s'. expiry (tm (tk s')) u =
        (if due s u then tm_reschedule_time (apps s (u div 2)) else expiry (tm (tk s)) u)) \<and>
     (\<forall>p. apps s' p = (if due s (app_tm p) then fired (apps s p) else apps s p)) \<and>
     (\<forall>t. (\<not> due s (task_timer t) \<longrightarrow> tcbs (tk s') t = tcbs (tk s) t) \<and>
          (due s (task_timer t) \<and> timed_wait t (tk s) \<longrightarrow> is_ready t (tk s')))"

definition all_suspended :: "'e tsys \<Rightarrow> bool" where
  "all_suspended s \<longleftrightarrow> (\<forall>t. due s (task_timer t) \<longrightarrow> suspended_for (tcbs (tk s) t) \<noteq> NU_READY)"

lemma expiry_busy: "TMD_Active_List_Busy s \<Longrightarrow> expiry s u = delta_sum (tm_remaining_time s) (TMD_Active_Timers_List s) u"
  by (simp add: expiry_def elapsed_ticks_def)

lemma due_head:
  assumes "processing s" "TMD_Active_Timers_List (tm (tk s)) = h # hs"
  shows "due s h \<longleftrightarrow> tm_remaining_time (tm (tk s)) h = 0"
    and "tm_remaining_time (tm (tk s)) h \<noteq> 0 \<Longrightarrow> \<not> due s u"
  using assms by (auto simp: due_def processing_def expiry_busy)

lemma task_app_differ [simp]: "task_timer t \<noteq> app_tm p" "app_tm p \<noteq> task_timer t" "odd (app_tm p)" "even (task_timer t)"
  "app_tm p = app_tm q \<longleftrightarrow> p = q" "app_tm p div 2 = p" "task_timer t div 2 = t"
  unfolding app_tm_def task_timer_def by presburger+

lemma served_refl: "(\<And>u. \<not> due s u) \<Longrightarrow> served s s"
  by (simp add: served_def)

lemma due_expire_one:
  assumes pr: "processing s" and L: "TMD_Active_Timers_List (tm (tk s)) = h # hs"
  shows "due (expire_one routine run_cleanup h s) u \<longleftrightarrow> due s u \<and> u \<noteq> h"
  using expire_one_timers[OF pr L refl, where routine = routine and run_cleanup = run_cleanup] L by (auto simp: due_def restarts_def)

lemma restarts_expire_one:
  assumes "processing s" "TMD_Active_Timers_List (tm (tk s)) = h # hs"
  shows "restarts (expire_one routine run_cleanup h s) u = restarts s u"
  using expire_one_timers(5)[OF assms refl, where routine = routine and run_cleanup = run_cleanup] by (simp add: restarts_def fired_def)

lemma served_step:
  assumes pr: "processing s" and L: "TMD_Active_Timers_List (tm (tk s)) = h # hs"
    and z: "tm_remaining_time (tm (tk s)) h = 0"
    and s1: "s1 = expire_one routine run_cleanup h s" and sv: "served s1 s'"
  shows "served s s'"
proof -
  note E = expire_one_timers[OF pr L s1] and D = due_expire_one[OF pr L, where routine = routine and run_cleanup = run_cleanup, folded s1]
    and R = restarts_expire_one[OF pr L, where routine = routine and run_cleanup = run_cleanup, folded s1] and K = expire_one_tasks[OF pr L z s1]
  have dh: "due s h" using due_head[OF pr L] z by simp
  have ra: "tm_reschedule_time (apps s1 p) = tm_reschedule_time (apps s p)" for p by (simp add: E(5) fired_def)
  have a: "active s' = {u \<in> active s. \<not> due s u \<or> restarts s u}"
    using sv E(2) D R dh L by (auto simp: served_def)
  have e: "expiry (tm (tk s')) u = (if due s u then tm_reschedule_time (apps s (u div 2)) else expiry (tm (tk s)) u)"
    if u: "u \<in> active s'" for u
  proof -
    have ex: "expiry (tm (tk s')) u = (if due s1 u then tm_reschedule_time (apps s1 (u div 2)) else expiry (tm (tk s1)) u)"
      using sv u by (simp add: served_def)
    show ?thesis
    proof (cases "u = h")
      case True
      then have "restarts s h" using u a dh by auto
      then show ?thesis using ex True D dh E(4) by simp
    next
      case False
      then show ?thesis using ex D E(3)[of u] u a ra by auto
    qed
  qed
  have p: "apps s' p = (if due s (app_tm p) then fired (apps s p) else apps s p)" for p
  proof -
    have "apps s' p = (if due s1 (app_tm p) then fired (apps s1 p) else apps s1 p)" using sv by (simp add: served_def)
    moreover have "apps s1 p = (if h = app_tm p then fired (apps s p) else apps s p)"
      by (auto simp: E(5) app_tm_def)
    ultimately show ?thesis using D[of "app_tm p"] dh by auto
  qed
  have t: "(\<not> due s (task_timer t) \<longrightarrow> tcbs (tk s') t = tcbs (tk s) t) \<and>
      (due s (task_timer t) \<and> timed_wait t (tk s) \<longrightarrow> is_ready t (tk s'))" for t
  proof (cases "task_timer t = h")
    case True
    have "tcbs (tk s') t = tcbs (tk s1) t" using sv D[of "task_timer t"] True by (simp add: served_def)
    then show ?thesis using K(2)[OF True] dh True by (simp add: is_ready_def)
  next
    case False
    have "timed_wait t (tk s1) = timed_wait t (tk s)" using K(1)[OF False] by (simp add: timed_wait_def waits_for_def)
    then show ?thesis using sv D[of "task_timer t"] False K(1)[OF False] by (auto simp: served_def)
  qed
  have c: "created s' = created s" using sv E(6) by (simp add: served_def)
  show ?thesis unfolding served_def using c a e p t by blast
qed

lemma expire_loop_served:
  assumes "processing s"
  shows "\<exists>s'. expire_loop routine run_cleanup s = Some s' \<and> processing s' \<and> served s s' \<and> (\<forall>u. \<not> due s' u) \<and>
    (sched_inv (tk s) \<and> all_suspended s \<longrightarrow> sched_inv (tk s'))"
  using assms
proof (induction "card {u. due s u}" arbitrary: s rule: less_induct)
  case less
  have fin: "finite {u. due s u}" by (rule finite_subset[of _ "active s"]) (auto simp: due_def)
  show ?case
  proof (cases "TMD_Active_Timers_List (tm (tk s))")
    case Nil
    then have nd: "\<And>u. \<not> due s u" by (simp add: due_def)
    then show ?thesis using less.prems Nil served_refl[of s] by (subst expire_loop.simps) simp
  next
    case (Cons h hs)
    note dh = due_head[OF less.prems Cons]
    show ?thesis
    proof (cases "tm_remaining_time (tm (tk s)) h = 0")
      case False
      then show ?thesis using less.prems Cons served_refl[of s] dh(2) by (subst expire_loop.simps) simp
    next
      case True
      define s1 where "s1 = expire_one routine run_cleanup h s"
      note D = due_expire_one[OF less.prems Cons, where routine = routine and run_cleanup = run_cleanup, folded s1_def]
      have dd: "{u. due s1 u} = {u. due s u} - {h}" using D by auto
      have "card {u. due s1 u} < card {u. due s u}"
        unfolding dd by (rule card_Diff1_less[OF fin]) (simp add: dh(1) True)
      moreover have pr1: "processing s1" using expire_one_timers(1)[OF less.prems Cons s1_def] .
      ultimately obtain s' where s': "expire_loop routine run_cleanup s1 = Some s'" "processing s'" "served s1 s'"
        "\<forall>u. \<not> due s' u" "sched_inv (tk s1) \<and> all_suspended s1 \<longrightarrow> sched_inv (tk s')"
        using less.hyps[of s1] by blast
      have "expire_loop routine run_cleanup s = Some s'"
        using Cons True s'(1) by (subst expire_loop.simps) (simp add: s1_def)
      moreover have "served s s'" by (rule served_step[OF less.prems Cons True s1_def s'(3)])
      moreover have "sched_inv (tk s')" if "sched_inv (tk s)" "all_suspended s"
      proof -
        note K = expire_one_tasks[OF less.prems Cons True s1_def]
        have "sched_inv (tk s1)" using K(3)[OF that(1)] that(2) dh(1) True by (auto simp: all_suspended_def)
        moreover have "all_suspended s1" using that(2) D K(1) by (auto simp: all_suspended_def)
        ultimately show ?thesis using s'(5) by blast
      qed
      ultimately show ?thesis using s'(2,4) by blast
    qed
  qed
qed

section \<open>The expiration as a whole\<close>

text \<open>The list at rest: the count-down timer runs towards the first entry.\<close>

definition running :: "timers \<Rightarrow> bool" where
  "running s \<longleftrightarrow> timers_inv s \<and> \<not> TMD_Active_List_Busy s \<and>
     (TMD_Active_Timers_List s \<noteq> [] \<longrightarrow>
        TMD_Timer_State s = TM_ACTIVE \<and> 0 < TMD_Timer s \<and> TMD_Timer s \<le> TMD_Timer_Start s)"

text \<open>The count-down has ended, or a timer was started with the time 0.\<close>

definition elapsed_all :: "timers \<Rightarrow> bool" where
  "elapsed_all s \<longleftrightarrow> timers_inv s \<and> \<not> TMD_Active_List_Busy s \<and>
     (TMD_Active_Timers_List s \<noteq> [] \<longrightarrow> TMD_Timer s = 0 \<or> TMD_Timer_Start s = 0)"

lemma begin_expiration_facts:
  assumes "elapsed_all s"
  shows "timers_inv (begin_expiration s)" "TMD_Active_List_Busy (begin_expiration s)"
    "TMD_Active_Timers_List (begin_expiration s) = TMD_Active_Timers_List s"
    "expiry (begin_expiration s) u = expiry s u"
proof -
  have inv: "timers_inv s" and idle: "\<not> TMD_Active_List_Busy s"
    and z: "TMD_Active_Timers_List s \<noteq> [] \<Longrightarrow> TMD_Timer s = 0 \<or> TMD_Timer_Start s = 0"
    using assms by (auto simp: elapsed_all_def)
  show busy: "TMD_Active_List_Busy (begin_expiration s)"
    and L: "TMD_Active_Timers_List (begin_expiration s) = TMD_Active_Timers_List s"
    by (simp_all add: begin_expiration_def Let_def split: list.splits)
  have st: "TMD_Timer_Start (begin_expiration s) = TMD_Timer_Start s" "TMD_Timer (begin_expiration s) = TMD_Timer s"
    by (simp_all add: begin_expiration_def Let_def split: list.splits)
  have ds: "delta_sum (tm_remaining_time (begin_expiration s)) (TMD_Active_Timers_List s) v =
      delta_sum (tm_remaining_time s) (TMD_Active_Timers_List s) v - elapsed_ticks s" for v
  proof (cases "TMD_Active_Timers_List s")
    case (Cons h hs)
    have e: "elapsed_ticks s = TMD_Timer_Start s" using z Cons idle by (auto simp: elapsed_ticks_def)
    have r: "tm_remaining_time (begin_expiration s) = (tm_remaining_time s)(h := tm_remaining_time s h - TMD_Timer_Start s)"
      using Cons by (auto simp: begin_expiration_def Let_def)
    have "h \<notin> set hs" using inv Cons by (simp add: timers_inv_def)
    then show ?thesis
      unfolding Cons r e using elapsed_le_head[OF inv Cons] e by (intro delta_sum_head) auto
  qed simp
  show "expiry (begin_expiration s) u = expiry s u"
    using ds busy by (simp add: expiry_def[of s] expiry_busy L)
  show "timers_inv (begin_expiration s)"
    using inv busy by (auto simp: timers_inv_def L ds st less_imp_diff_less)
qed

lemma finish_expiration_facts:
  assumes "timers_inv s" "TMD_Active_List_Busy s" "\<And>u. u \<in> set (TMD_Active_Timers_List s) \<Longrightarrow> expiry s u \<noteq> 0"
  shows "running (finish_expiration s)" "TMD_Active_Timers_List (finish_expiration s) = TMD_Active_Timers_List s"
    "u \<in> set (TMD_Active_Timers_List s) \<Longrightarrow> expiry (finish_expiration s) u = expiry s u"
proof -
  have "0 < tm_remaining_time s h \<and> tm_remaining_time s h < 4294967296" if "TMD_Active_Timers_List s = h # hs" for h hs
    using assms(1) assms(3)[of h] that by (auto simp: expiry_busy[OF assms(2)] timers_inv_def)
  then show "running (finish_expiration s)"
    using assms(1)
    by (auto simp del: delta_sum.simps
        simp: finish_expiration_def running_def TMCT_Enable_Timer_def timers_inv_def Let_def split: list.splits)
  show "TMD_Active_Timers_List (finish_expiration s) = TMD_Active_Timers_List s"
    by (simp add: finish_expiration_def TMCT_Enable_Timer_def Let_def split: list.splits)
  show "u \<in> set (TMD_Active_Timers_List s) \<Longrightarrow> expiry (finish_expiration s) u = expiry s u"
    using assms(2)
    by (auto simp: finish_expiration_def TMCT_Enable_Timer_def expiry_def elapsed_ticks_def Let_def split: list.splits)
qed

lemma served_cong:
  assumes "active s = active t" "\<And>u. u \<in> active s \<Longrightarrow> expiry (tm (tk s)) u = expiry (tm (tk t)) u"
    "apps s = apps t" "tcbs (tk s) = tcbs (tk t)" "created s = created t"
  shows "due s = due t" "served s s' = served t s'" "served r s = served r t" "all_suspended s = all_suspended t"
proof -
  show d: "due s = due t" using assms(1,2) by (auto simp: due_def fun_eq_iff)
  have w: "timed_wait u (tk s) = timed_wait u (tk t)" for u using assms(4) by (simp add: timed_wait_def waits_for_def)
  have r: "restarts s = restarts t" using assms(3) by (simp add: restarts_def fun_eq_iff)
  show "served r s = served r t" using assms by (auto simp: served_def is_ready_def)
  show "all_suspended s = all_suspended t" using d assms(4) by (simp add: all_suspended_def)
  have "served s s' = served t s'" if sub: "active s' \<subseteq> active s"
  proof -
    have q: "(\<forall>u\<in>active s'. expiry (tm (tk s')) u = (if due s u then tm_reschedule_time (apps s (u div 2)) else expiry (tm (tk s)) u))
      \<longleftrightarrow> (\<forall>u\<in>active s'. expiry (tm (tk s')) u = (if due t u then tm_reschedule_time (apps t (u div 2)) else expiry (tm (tk t)) u))"
      by (rule ball_cong[OF refl]) (use sub assms(2) in \<open>auto simp: d assms(3)\<close>)
    show ?thesis unfolding served_def q by (simp only: d r w assms(1,3,4,5))
  qed
  moreover have "active s' \<subseteq> active s" if "served s s' \<or> served t s'" using that assms(1) by (auto simp: served_def)
  ultimately show "served s s' = served t s'" by blast
qed

lemma TMC_Timer_Expiration_facts:
  assumes el: "elapsed_all (tm (tk s))" and r: "\<And>p. tm_reschedule_time (apps s p) < 4294967296"
  shows "\<exists>s'. TMC_Timer_Expiration routine run_cleanup s = Some s' \<and> served s s' \<and> running (tm (tk s')) \<and>
    (sched_inv (tk s) \<and> all_suspended s \<longrightarrow> sched_inv (tk s'))"
proof -
  define b where "b = upd_tm begin_expiration s"
  note B = begin_expiration_facts[OF el]
  have pr: "processing b" using B r by (simp add: b_def processing_def)
  obtain l where l: "expire_loop routine run_cleanup b = Some l" "processing l" "served b l" "\<forall>u. \<not> due l u"
    "sched_inv (tk b) \<and> all_suspended b \<longrightarrow> sched_inv (tk l)"
    using expire_loop_served[OF pr] by blast
  have C: "served b l = served s l" "all_suspended b = all_suspended s"
    by (rule served_cong; simp add: b_def B)+
  have "timers_inv (tm (tk l))" "TMD_Active_List_Busy (tm (tk l))"
    "\<And>u. u \<in> active l \<Longrightarrow> expiry (tm (tk l)) u \<noteq> 0"
    using l(2,4) by (auto simp: processing_def due_def)
  note F = finish_expiration_facts[OF this]
  have "served s l = served s (upd_tm finish_expiration l)"
    by (rule served_cong(3)) (use F in auto)
  then have "served s (upd_tm finish_expiration l)" using l(3) C by simp
  moreover have "TMC_Timer_Expiration routine run_cleanup s = Some (upd_tm finish_expiration l)"
    using l(1) by (simp add: TMC_Timer_Expiration_def b_def)
  ultimately show ?thesis using F(1) l(5) C(2) by (intro exI[of _ "upd_tm finish_expiration l"]) (simp add: b_def)
qed

section \<open>One tick\<close>

text \<open>The clock interrupt, followed by the timer HISR when the interrupt activates it.\<close>

definition timer_tick ::
    "(nat \<Rightarrow> nat \<Rightarrow> 'e \<Rightarrow> 'e) \<Rightarrow> (nat \<Rightarrow> 'e \<Rightarrow> 'e) \<Rightarrow> 'e tsys \<Rightarrow> 'e tsys option" where
  "timer_tick routine run_cleanup s =
    (let (s1, activated) = TMCT_Timer_Interrupt s
     in if activated then TMC_Timer_HISR routine run_cleanup s1 else Some s1)"

fun timer_ticks ::
    "(nat \<Rightarrow> nat \<Rightarrow> 'e \<Rightarrow> 'e) \<Rightarrow> (nat \<Rightarrow> 'e \<Rightarrow> 'e) \<Rightarrow> nat \<Rightarrow> 'e tsys \<Rightarrow> 'e tsys option" where
  "timer_ticks routine run_cleanup 0 s = Some s"
| "timer_ticks routine run_cleanup (Suc n) s =
     Option.bind (timer_ticks routine run_cleanup n s) (timer_tick routine run_cleanup)"

definition steady :: "'e tsys \<Rightarrow> bool" where
  "steady s \<longleftrightarrow> running (tm (tk s)) \<and> (\<forall>p. tm_reschedule_time (apps s p) < 4294967296)"

text \<open>Every task with an active timer is suspended.\<close>

definition waiting :: "'e tsys \<Rightarrow> bool" where
  "waiting s \<longleftrightarrow> (\<forall>t. task_timer t \<in> active s \<longrightarrow> suspended_for (tcbs (tk s) t) \<noteq> NU_READY)"

text \<open>A control block without the rest of its time slice.\<close>

abbreviation unsliced :: "tcb \<Rightarrow> tcb" where
  "unsliced c \<equiv> c\<lparr>tc_cur_time_slice := 0\<rparr>"

lemma unsliced_eq:
  assumes "unsliced c = unsliced d"
  shows "tc_status c = tc_status d" "tc_timer_active c = tc_timer_active d" "tc_signal_active c = tc_signal_active d"
    "tc_debug_suspend c = tc_debug_suspend d" "tc_delayed_suspend c = tc_delayed_suspend d"
    "suspended_for c = suspended_for d"
  using arg_cong[OF assms, of tc_status] arg_cong[OF assms, of tc_timer_active] arg_cong[OF assms, of tc_signal_active]
    arg_cong[OF assms, of tc_debug_suspend] arg_cong[OF assms, of tc_delayed_suspend]
    arg_cong[OF assms, of tc_saved_status]
  by (simp_all add: suspended_for_def)

lemma timed_wait_unsliced:
  "unsliced (tcbs k t) = unsliced (tcbs k' t) \<Longrightarrow> timed_wait t k = timed_wait t k'"
  unfolding timed_wait_def waits_for_def using unsliced_eq[of "tcbs k t" "tcbs k' t"] by auto

lemma tick_time_slice_keeps:
  "tm (tick_time_slice k) = tm k" "unsliced (tcbs (tick_time_slice k) t) = unsliced (tcbs k t)"
  by (auto simp: tick_time_slice_def Let_def split: thread.splits)

lemma sched_inv_slice_task [simp]: "sched_inv (k\<lparr>TMD_Time_Slice_Task := x\<rparr>) = sched_inv k"
  by (simp add: sched_inv_def ready_ok_def ready_set_def highest_ok_def execute_ok_def cong: option.case_cong)

lemma tick_time_slice_inv: "sched_inv k \<Longrightarrow> sched_inv (tick_time_slice k)"
  by (auto simp: tick_time_slice_def Let_def sched_inv_fields intro!: sched_inv_upd split: thread.splits)

lemma TCC_Time_Slice_keeps [simp]: "tm (TCC_Time_Slice t k) = tm k" "tcbs (TCC_Time_Slice t k) = tcbs k"
  by (simp_all add: TCC_Time_Slice_def Let_def)

lemma running_expiry:
  assumes "running s" "u \<in> set (TMD_Active_Timers_List s)"
  shows "TMD_Timer s \<le> expiry s u" "0 < expiry s u"
proof -
  obtain h hs where L: "TMD_Active_Timers_List s = h # hs" using assms(2) by (cases "TMD_Active_Timers_List s") auto
  have c: "0 < TMD_Timer s" "TMD_Timer s \<le> TMD_Timer_Start s" "TMD_Timer_Start s \<le> tm_remaining_time s h"
    "\<not> TMD_Active_List_Busy s" using assms(1) L by (auto simp: running_def timers_inv_def Let_def)
  have "tm_remaining_time s h \<le> delta_sum (tm_remaining_time s) (h # hs) u"
    using assms(2) L by (intro delta_sum_ge_head) simp
  then show "TMD_Timer s \<le> expiry s u" using c by (simp add: expiry_def elapsed_ticks_def L del: delta_sum.simps)
  then show "0 < expiry s u" using c(1) by simp
qed

lemma tick_timer_running:
  assumes "running s"
  shows "TMD_Active_Timers_List (tick_timer s) = TMD_Active_Timers_List s"
    "u \<in> set (TMD_Active_Timers_List s) \<Longrightarrow> expiry (tick_timer s) u = expiry s u - 1"
    "TMD_Timer_State (tick_timer s) = TM_EXPIRED \<Longrightarrow> elapsed_all (tick_timer s)"
    "TMD_Timer_State (tick_timer s) \<noteq> TM_EXPIRED \<Longrightarrow> running (tick_timer s)"
proof -
  show L: "TMD_Active_Timers_List (tick_timer s) = TMD_Active_Timers_List s"
    by (simp add: tick_timer_def Let_def)
  have busy: "TMD_Active_List_Busy (tick_timer s) = TMD_Active_List_Busy s" by (simp add: tick_timer_def Let_def)
  have idle: "timers_inv (tick_timer s)" if "TMD_Active_Timers_List s = []"
    using that assms by (simp add: tick_timer_def running_def timers_inv_def dec32_def Let_def)
  have act: "timers_inv (tick_timer s)" "\<forall>t \<in> set (TMD_Active_Timers_List s). expiry (tick_timer s) t = expiry s t - 1"
    "TMD_Timer_State (tick_timer s) = TM_EXPIRED \<longleftrightarrow> TMD_Timer s = 1"
    "TMD_Timer (tick_timer s) = TMD_Timer s - 1" "TMD_Timer_Start (tick_timer s) = TMD_Timer_Start s"
    "TMD_Timer_State (tick_timer s) = TM_EXPIRED \<or> TMD_Timer_State (tick_timer s) = TM_ACTIVE"
    "0 < TMD_Timer s" "TMD_Timer s \<le> TMD_Timer_Start s"
    if "TMD_Active_Timers_List s \<noteq> []"
  proof -
    have c: "timers_inv s" "\<not> TMD_Active_List_Busy s" "TMD_Timer_State s = TM_ACTIVE" "0 < TMD_Timer s"
      "TMD_Timer s \<le> TMD_Timer_Start s" using that assms by (auto simp: running_def)
    then show "0 < TMD_Timer s" "TMD_Timer s \<le> TMD_Timer_Start s" by auto
    have d: "dec32 (TMD_Timer s) = TMD_Timer s - 1" using c by (intro dec32_eq) (auto simp: timers_inv_def)
    show "timers_inv (tick_timer s)" "\<forall>t \<in> set (TMD_Active_Timers_List s). expiry (tick_timer s) t = expiry s t - 1"
      "TMD_Timer_State (tick_timer s) = TM_EXPIRED \<longleftrightarrow> TMD_Timer s = 1"
      using tick_timer_facts[OF c] by auto
    show "TMD_Timer (tick_timer s) = TMD_Timer s - 1" "TMD_Timer_Start (tick_timer s) = TMD_Timer_Start s"
      "TMD_Timer_State (tick_timer s) = TM_EXPIRED \<or> TMD_Timer_State (tick_timer s) = TM_ACTIVE"
      using c d by (auto simp: tick_timer_def Let_def)
  qed
  show "u \<in> set (TMD_Active_Timers_List s) \<Longrightarrow> expiry (tick_timer s) u = expiry s u - 1" using act(2) by force
  show "TMD_Timer_State (tick_timer s) = TM_EXPIRED \<Longrightarrow> elapsed_all (tick_timer s)"
    using act idle assms by (cases "TMD_Active_Timers_List s = []") (auto simp: elapsed_all_def L busy running_def)
  show "TMD_Timer_State (tick_timer s) \<noteq> TM_EXPIRED \<Longrightarrow> running (tick_timer s)"
    using act idle assms by (cases "TMD_Active_Timers_List s = []") (auto simp: L busy running_def)
qed

text \<open>After the interrupt, and after the expiration if there is one.\<close>

lemma timer_tick_shape:
  assumes st: "steady s" and s3_def: "s3 = fst (TMCT_Timer_Interrupt s)"
  shows "\<exists>s4 s'. timer_tick routine run_cleanup s = Some s' \<and> served s3 s4 \<and> running (tm (tk s4)) \<and>
    created s' = created s4 \<and> apps s' = apps s4 \<and> tm (tk s') = tm (tk s4) \<and> tcbs (tk s') = tcbs (tk s4) \<and>
    (sched_inv (tk s3) \<and> all_suspended s3 \<longrightarrow> sched_inv (tk s'))"
proof -
  let ?expired = "TMD_Timer_State (tm (tk s3)) = TM_EXPIRED"
  have run: "running (tm (tk s))" and r: "\<And>p. tm_reschedule_time (apps s p) < 4294967296"
    using st by (auto simp: steady_def)
  have m3: "tm (tk s3) = tick_timer (tm (tk s))" and a3: "apps s3 = apps s"
    by (simp_all add: s3_def TMCT_Timer_Interrupt_def Let_def tick_time_slice_keeps)
  note T = tick_timer_running[OF run]
  obtain s4 where s4: "(if ?expired then TMC_Timer_Expiration routine run_cleanup s3 else Some s3) = Some s4"
    "served s3 s4" "running (tm (tk s4))" "sched_inv (tk s3) \<and> all_suspended s3 \<longrightarrow> sched_inv (tk s4)"
  proof (cases ?expired)
    case True
    then have "elapsed_all (tm (tk s3))" using T(3) m3 by simp
    from TMC_Timer_Expiration_facts[OF this, of routine run_cleanup] show ?thesis using True that a3 r by auto
  next
    case False
    then have "running (tm (tk s3))" using T(4) m3 by simp
    then show ?thesis using False that[of s3] running_expiry served_refl[of s3] by (fastforce simp: due_def)
  qed
  let ?s' = "case TMD_Time_Slice_Task (tk s4) of None \<Rightarrow> s4
    | Some task \<Rightarrow> s4\<lparr>tk := (TCC_Time_Slice task (tk s4))\<lparr>TMD_Time_Slice_Task := None\<rparr>\<rparr>"
  have "timer_tick routine run_cleanup s = Some ?s'"
  proof (cases "?expired \<or> TMD_Time_Slice_Task (tk s3) \<noteq> None")
    case True
    then have "snd (TMCT_Timer_Interrupt s)" by (simp add: s3_def TMCT_Timer_Interrupt_def Let_def)
    then have "timer_tick routine run_cleanup s = TMC_Timer_HISR routine run_cleanup s3"
      by (simp add: timer_tick_def split_beta s3_def)
    then show ?thesis unfolding TMC_Timer_HISR_def s4(1) by simp
  next
    case False
    then have "\<not> snd (TMCT_Timer_Interrupt s)" by (simp add: s3_def TMCT_Timer_Interrupt_def Let_def)
    then show ?thesis using s4(1) False by (simp add: timer_tick_def split_beta s3_def)
  qed
  moreover have "created ?s' = created s4 \<and> apps ?s' = apps s4 \<and> tm (tk ?s') = tm (tk s4) \<and> tcbs (tk ?s') = tcbs (tk s4) \<and>
      (sched_inv (tk s4) \<longrightarrow> sched_inv (tk ?s'))"
    by (simp add: TCC_Time_Slice_inv split: option.splits)
  ultimately show ?thesis using s4 by (intro exI[of _ s4] exI[of _ ?s']) blast
qed

text \<open>
  What a tick does to the timers, the application timers and the tasks: one that has one tick left fires, any other
  comes one tick closer.
\<close>

definition last_tick :: "'e tsys \<Rightarrow> tmid \<Rightarrow> bool" where
  "last_tick s u \<longleftrightarrow> u \<in> active s \<and> expiry (tm (tk s)) u = 1"

definition ticked :: "'e tsys \<Rightarrow> 'e tsys \<Rightarrow> bool" where
  "ticked s s' \<longleftrightarrow> created s' = created s \<and>
     active s' = {u \<in> active s. \<not> last_tick s u \<or> restarts s u} \<and>
     (\<forall>u \<in> active s'. expiry (tm (tk s')) u =
        (if last_tick s u then tm_reschedule_time (apps s (u div 2)) else expiry (tm (tk s)) u - 1)) \<and>
     (\<forall>p. apps s' p = (if last_tick s (app_tm p) then fired (apps s p) else apps s p)) \<and>
     (\<forall>t. (\<not> last_tick s (task_timer t) \<longrightarrow> unsliced (tcbs (tk s') t) = unsliced (tcbs (tk s) t)) \<and>
          (last_tick s (task_timer t) \<and> timed_wait t (tk s) \<longrightarrow> is_ready t (tk s')))"

lemma timer_tick_facts:
  assumes st: "steady s"
  shows "\<exists>s'. timer_tick routine run_cleanup s = Some s' \<and> ticked s s' \<and> steady s' \<and>
    (sched_inv (tk s) \<and> waiting s \<longrightarrow> sched_inv (tk s') \<and> waiting s')"
proof -
  define s3 where "s3 = fst (TMCT_Timer_Interrupt s)"
  obtain s4 s' where s': "timer_tick routine run_cleanup s = Some s'" and sv: "served s3 s4"
    and r4: "running (tm (tk s4))" and eq: "apps s' = apps s4" "tm (tk s') = tm (tk s4)" "tcbs (tk s') = tcbs (tk s4)" and cr: "created s' = created s4"
    and si: "sched_inv (tk s3) \<and> all_suspended s3 \<longrightarrow> sched_inv (tk s')"
    using timer_tick_shape[OF st s3_def] by blast
  have run: "running (tm (tk s))" using st by (simp add: steady_def)
  have m3: "tm (tk s3) = tick_timer (tm (tk s))" and a3: "apps s3 = apps s"
    and k3: "unsliced (tcbs (tk s3) t) = unsliced (tcbs (tk s) t)"
    and i3: "sched_inv (tk s) \<Longrightarrow> sched_inv (tk s3)" and c3: "created s3 = created s" for t
    by (simp_all add: s3_def TMCT_Timer_Interrupt_def Let_def tick_time_slice_keeps tick_time_slice_inv)
  note T = tick_timer_running[OF run]
  have act: "active s3 = active s" using T(1) m3 by simp
  have ex: "u \<in> active s \<Longrightarrow> expiry (tm (tk s3)) u = expiry (tm (tk s)) u - 1" for u using T(2) m3 by simp
  have due: "due s3 u = last_tick s u" for u
    using running_expiry(2)[OF run, of u] ex[of u] act by (auto simp: due_def last_tick_def)
  have re: "restarts s3 = restarts s" by (simp add: restarts_def a3 fun_eq_iff)
  have tw: "timed_wait t (tk s3) = timed_wait t (tk s)" for t by (rule timed_wait_unsliced[OF k3])
  have tk: "ticked s s'"
    using sv k3 ex unfolding served_def ticked_def due re a3 act eq cr c3 tw is_ready_def by auto
  have "steady s'" using st r4 sv unfolding steady_def served_def eq a3 by (simp add: fired_def)
  moreover have "sched_inv (tk s') \<and> waiting s'" if h: "sched_inv (tk s)" "waiting s"
  proof -
    have w: "suspended_for (tcbs (tk s3) t) = suspended_for (tcbs (tk s) t)" for t by (rule unsliced_eq(6)[OF k3])
    have "all_suspended s3" using h(2) w by (auto simp: all_suspended_def waiting_def due last_tick_def)
    moreover have "waiting s'" unfolding waiting_def
    proof (intro allI impI)
      fix t assume "task_timer t \<in> active s'"
      then have a: "task_timer t \<in> active s" "\<not> last_tick s (task_timer t)"
        using tk by (auto simp: ticked_def restarts_def)
      then have "unsliced (tcbs (tk s') t) = unsliced (tcbs (tk s) t)" using tk by (simp add: ticked_def)
      from unsliced_eq(6)[OF this] show "suspended_for (tcbs (tk s') t) \<noteq> NU_READY"
        using h(2) a(1) by (simp add: waiting_def)
    qed
    ultimately show ?thesis using si i3[OF h(1)] by blast
  qed
  ultimately show ?thesis using s' tk by blast
qed

section \<open>Many ticks\<close>

lemma timer_ticks_steady:
  assumes "steady s"
  shows "\<exists>s'. timer_ticks routine run_cleanup n s = Some s' \<and> steady s' \<and>
    (sched_inv (tk s) \<and> waiting s \<longrightarrow> sched_inv (tk s') \<and> waiting s')"
proof (induction n)
  case (Suc n)
  then obtain s1 where "timer_ticks routine run_cleanup n s = Some s1" "steady s1"
    "sched_inv (tk s) \<and> waiting s \<longrightarrow> sched_inv (tk s1) \<and> waiting s1" by blast
  with timer_tick_facts[of s1 routine run_cleanup] show ?case by auto
qed (use assms in simp)

text \<open>A task that waits keeps waiting until its timer has no tick left.\<close>

lemma timer_ticks_wait:
  assumes "steady s" "timed_wait t (tk s)" "task_timer t \<in> active s" "n < expiry (tm (tk s)) (task_timer t)"
  shows "\<exists>s'. timer_ticks routine run_cleanup n s = Some s' \<and> steady s' \<and> timed_wait t (tk s') \<and>
    tc_status (tcbs (tk s') t) = tc_status (tcbs (tk s) t) \<and> task_timer t \<in> active s' \<and>
    expiry (tm (tk s')) (task_timer t) = expiry (tm (tk s)) (task_timer t) - n"
  using assms(4)
proof (induction n)
  case 0
  then show ?case using assms by simp
next
  case (Suc n)
  then obtain s1 where s1: "timer_ticks routine run_cleanup n s = Some s1" "steady s1" "timed_wait t (tk s1)"
    "tc_status (tcbs (tk s1) t) = tc_status (tcbs (tk s) t)" "task_timer t \<in> active s1"
    "expiry (tm (tk s1)) (task_timer t) = expiry (tm (tk s)) (task_timer t) - n" by auto
  obtain s' where s': "timer_tick routine run_cleanup s1 = Some s'" "ticked s1 s'" "steady s'"
    using timer_tick_facts[OF s1(2)] by blast
  have nl: "\<not> last_tick s1 (task_timer t)" using s1(6) Suc.prems by (auto simp: last_tick_def)
  then have un: "unsliced (tcbs (tk s') t) = unsliced (tcbs (tk s1) t)" using s'(2) by (simp add: ticked_def)
  have act: "task_timer t \<in> active s'" using s'(2) nl s1(5) by (simp add: ticked_def)
  then have "expiry (tm (tk s')) (task_timer t) = expiry (tm (tk s)) (task_timer t) - Suc n"
    using s'(2) nl s1(6) by (simp add: ticked_def)
  moreover have "timed_wait t (tk s')" using timed_wait_unsliced[OF un] s1(3) by simp
  moreover have "tc_status (tcbs (tk s') t) = tc_status (tcbs (tk s) t)" using unsliced_eq(1)[OF un] s1(4) by simp
  ultimately show ?case using s1(1) s'(1,3) act by simp
qed

section \<open>Starting and stopping at rest\<close>

lemma TMC_Start_Timer_running:
  assumes run: "running s" and new: "timer \<notin> set (TMD_Active_Timers_List s)" and t: "0 < time" "time < 4294967296"
  shows "running (TMC_Start_Timer timer time s)"
proof -
  let ?s' = "TMC_Start_Timer timer time s"
  have inv: "timers_inv s" and idle: "\<not> TMD_Active_List_Busy s" using run by (auto simp: running_def)
  note F = TMC_Start_Timer_facts[OF inv new t(2)]
  have "TMD_Timer_State ?s' = TM_ACTIVE \<and> 0 < TMD_Timer ?s' \<and> TMD_Timer ?s' \<le> TMD_Timer_Start ?s'"
  proof (cases "TMD_Active_Timers_List s")
    case Nil
    then show ?thesis using t by (simp add: TMC_Start_Timer_def TMCT_Enable_Timer_def)
  next
    case (Cons h hs)
    obtain time' before after rem' where ss: "start_search (tm_remaining_time (adjust_head s)) time
        (TMD_Active_Timers_List (adjust_head s)) = (time', before, after, rem')" by (metis prod_cases4)
    define s2 where "s2 = (adjust_head s)\<lparr>TMD_Active_Timers_List := before @ timer # after,
      tm_remaining_time := rem'(timer := time')\<rparr>"
    have s2: "?s' = restart_count_down s2" "TMD_Timer s2 = TMD_Timer s" "TMD_Timer_Start s2 = TMD_Timer s"
      "TMD_Timer_State s2 = TM_ACTIVE"
      using Cons idle run ss
      by (simp_all add: TMC_Start_Timer_def s2_def running_def) (simp_all add: adjust_head_eq[OF inv Cons idle])
    obtain h2 hs2 where L2: "TMD_Active_Timers_List s2 = h2 # hs2"
      using F s2(1) by (cases "TMD_Active_Timers_List s2") auto
    have "0 < expiry ?s' h2"
      using F s2(1) L2 t(1) running_expiry(2)[OF run, of h2] by (cases "h2 = timer") auto
    then have "0 < tm_remaining_time s2 h2" using L2 s2(1) by (simp add: expiry_def)
    then show ?thesis
      using L2 s2 run Cons by (auto simp: restart_count_down_def TMCT_Adjust_Timer_def running_def Let_def)
  qed
  then show ?thesis using F idle by (simp add: running_def)
qed

lemma TMC_Stop_Timer_running:
  assumes run: "running s" and t: "timer \<in> set (TMD_Active_Timers_List s)"
  shows "running (TMC_Stop_Timer timer s)"
proof -
  have "timers_inv s" using run by (simp add: running_def)
  note F = TMC_Stop_Timer_facts[OF this t]
  have "TMD_Active_Timers_List s \<noteq> []" using t by auto
  then have "TMD_Timer s \<le> TMD_Timer_Start s" using run by (simp add: running_def)
  then show ?thesis using F run t by (auto simp: running_def TMC_Stop_Timer_def Let_def split: option.splits)
qed

section \<open>Sleeping\<close>

lemma NU_Sleep_facts:
  assumes "TCD_Current_Thread k = Task_Thread t" "tc_status (tcbs k t) = NU_READY" "n \<noteq> NU_SUSPEND"
    "\<not> tc_signal_active (tcbs k t)" "tc_debug_suspend (tcbs k t) = NU_READY" "\<not> tc_delayed_suspend (tcbs k t)"
  shows "tm (fst (NU_Sleep n k)) = TMC_Start_Timer (task_timer t) n (tm k)"
    "timed_wait t (fst (NU_Sleep n k))" "tc_status (tcbs (fst (NU_Sleep n k)) t) = NU_SLEEP_SUSPEND"
  using assms
  by (simp_all add: NU_Sleep_def TCC_Suspend_Task_def timed_wait_def waits_for_def Let_def)

text \<open>
  C10. A task that calls \<open>NU_Sleep(n)\<close>, with \<open>n\<close> neither 0 nor \<open>NU_SUSPEND\<close>, while the clock runs regularly, sleeps for
  exactly \<open>n\<close> ticks: after any smaller number of ticks it is still suspended for the sleep, after the n-th tick it
  is ready again. This holds whatever other timers are running, whichever of them expire on the way and whatever
  their expiration routines do to the application's own data. The clock runs regularly (\<open>steady\<close>) when no expiration
  is being processed and no entry of the list has expired or was started with the time 0 (the count-down then
  lies between 1 and its start value), and the reschedule times are 32-bit numbers: behind a pending entry of time 0,
  as \<open>NU_Sleep(0)\<close> leaves it, the sleep would take one tick more. The task is the current one and ready, not in a signal
  handler, without a debug or delayed suspension and without an active timer of its own; until the n-th tick
  only ticks, with the expirations they cause, happen.
\<close>

theorem NU_Sleep_exact:
  assumes "steady s" and "TCD_Current_Thread (tk s) = Task_Thread t" and "is_ready t (tk s)"
    and "\<not> tc_signal_active (tcbs (tk s) t)" and "tc_debug_suspend (tcbs (tk s) t) = NU_READY"
    and "\<not> tc_delayed_suspend (tcbs (tk s) t)" and "task_timer t \<notin> active s" and "0 < n" and "n < NU_SUSPEND"
    and "s1 = s\<lparr>tk := fst (NU_Sleep n (tk s))\<rparr>"
  shows "(\<forall>i < n. \<exists>s'. timer_ticks routine run_cleanup i s1 = Some s' \<and>
            tc_status (tcbs (tk s') t) = NU_SLEEP_SUSPEND) \<and>
    (\<exists>s'. timer_ticks routine run_cleanup n s1 = Some s' \<and> is_ready t (tk s'))"
proof -
  have n32: "n < 4294967296" "n \<noteq> NU_SUSPEND" using assms(9) by (simp_all add: NU_SUSPEND_def)
  note K = NU_Sleep_facts[OF assms(2) assms(3)[unfolded is_ready_def] n32(2) assms(4-6)]
  have run: "running (tm (tk s))" using assms(1) by (simp add: steady_def)
  then have inv: "timers_inv (tm (tk s))" by (simp add: running_def)
  note F = TMC_Start_Timer_facts[OF inv assms(7) n32(1)]
  have st: "steady s1"
    using TMC_Start_Timer_running[OF run assms(7,8) n32(1)] assms(1) K(1) by (simp add: steady_def assms(10))
  have w: "timed_wait t (tk s1)" "task_timer t \<in> active s1" "expiry (tm (tk s1)) (task_timer t) = n"
    using K F by (simp_all add: assms(10))
  note W = timer_ticks_wait[OF st w(1,2), unfolded w(3), of _ routine run_cleanup]
  have "\<exists>s'. timer_ticks routine run_cleanup i s1 = Some s' \<and> tc_status (tcbs (tk s') t) = NU_SLEEP_SUSPEND" if "i < n" for i
    using W[OF that] K(3) by (auto simp: assms(10))
  moreover have "\<exists>s'. timer_ticks routine run_cleanup n s1 = Some s' \<and> is_ready t (tk s')"
  proof -
    obtain m where m: "n = Suc m" using assms(8) by (cases n) auto
    obtain s2 where s2: "timer_ticks routine run_cleanup m s1 = Some s2" "steady s2" "timed_wait t (tk s2)"
      "task_timer t \<in> active s2" "expiry (tm (tk s2)) (task_timer t) = n - m" using W[of m] m by auto
    have "last_tick s2 (task_timer t)" using s2 m by (simp add: last_tick_def)
    moreover obtain s' where "timer_tick routine run_cleanup s2 = Some s'" "ticked s2 s'"
      using timer_tick_facts[OF s2(2)] by blast
    ultimately show ?thesis using s2 m by (auto simp: ticked_def)
  qed
  ultimately show ?thesis by blast
qed

text \<open>Task 1 runs; the application timer at address 5, with 20 ticks left, is the only active timer.\<close>

definition unused_timer :: app_timer where
  "unused_timer = \<lparr>tm_id_valid = False, tm_expiration_routine = 0, tm_expiration_id = 0, tm_enabled = False,
     tm_paused_status = False, tm_expirations = 0, tm_initial_time = 0, tm_reschedule_time = 0, tm_paused_time = 0\<rparr>"

definition sample_tsys :: "unit tsys" where
  "sample_tsys = \<lparr>tk = kernel2\<lparr>tm := \<lparr>TMD_Active_Timers_List = [11], tm_remaining_time = (\<lambda>_. 30),
       TMD_Active_List_Busy = False, TMD_Timer_Start = 30, TMD_Timer = 20, TMD_Timer_State = TM_ACTIVE\<rparr>\<rparr>,
     clk = sample_clock,
     apps = (\<lambda>_. unused_timer)(5 := unused_timer\<lparr>tm_id_valid := True, tm_expiration_routine := 64, tm_enabled := True,
       tm_initial_time := 40, tm_reschedule_time := 10\<rparr>),
     TMD_Created_Timers_List = [5], TMD_Total_Timers = 1, client = ()\<rparr>"

lemma sample_tsys_steady: "steady sample_tsys"
  by (simp add: steady_def running_def timers_inv_def sample_tsys_def unused_timer_def)

theorem NU_Sleep_exact_witness:
  "\<exists>s'. timer_ticks (\<lambda>_ _ e. e) (\<lambda>_ e. e) 50 (sample_tsys\<lparr>tk := fst (NU_Sleep 50 (tk sample_tsys))\<rparr>) = Some s' \<and>
     is_ready 1 (tk s')"
proof -
  have "TCD_Current_Thread (tk sample_tsys) = Task_Thread 1" "is_ready 1 (tk sample_tsys)"
    "\<not> tc_signal_active (tcbs (tk sample_tsys) 1)" "tc_debug_suspend (tcbs (tk sample_tsys) 1) = NU_READY"
    "\<not> tc_delayed_suspend (tcbs (tk sample_tsys) 1)" "task_timer 1 \<notin> active sample_tsys" "(0::nat) < 50"
    "50 < NU_SUSPEND"
    by (simp_all add: sample_tsys_def is_ready_def task0_def task_timer_def NU_SUSPEND_def)
  from NU_Sleep_exact[OF sample_tsys_steady this refl, of "\<lambda>_ _ e. e" "\<lambda>_ e. e"] show ?thesis by blast
qed

section \<open>Periodic timers\<close>

text \<open>How often a timer with \<open>i\<close> ticks left and the reschedule time \<open>r\<close> fires within \<open>n\<close> ticks.\<close>

definition firings :: "nat \<Rightarrow> nat \<Rightarrow> nat \<Rightarrow> nat" where
  "firings i r n = (if n < i then 0 else if r = 0 then 1 else (n - i) div r + 1)"

lemma timer_ticks_firings:
  assumes st: "steady s" and a: "app_tm p \<in> active s" and i: "expiry (tm (tk s)) (app_tm p) = i"
    and r: "tm_reschedule_time (apps s p) = r"
  shows "\<exists>s'. timer_ticks routine run_cleanup n s = Some s' \<and> steady s' \<and>
    tm_expirations (apps s' p) mod 4294967296 = (tm_expirations (apps s p) + firings i r n) mod 4294967296 \<and>
    tm_reschedule_time (apps s' p) = r \<and>
    (app_tm p \<in> active s' \<longleftrightarrow> n < i \<or> r \<noteq> 0) \<and>
    (app_tm p \<in> active s' \<longrightarrow> expiry (tm (tk s')) (app_tm p) = (if n < i then i - n else r - (n - i) mod r))"
proof (induction n)
  case 0
  have "0 < i" using running_expiry(2)[of "tm (tk s)" "app_tm p"] st a i by (auto simp: steady_def)
  then show ?case using st a i r by (simp add: firings_def)
next
  case (Suc n)
  then obtain s1 where s1: "timer_ticks routine run_cleanup n s = Some s1" "steady s1"
    "tm_expirations (apps s1 p) mod 4294967296 = (tm_expirations (apps s p) + firings i r n) mod 4294967296"
    "tm_reschedule_time (apps s1 p) = r" "app_tm p \<in> active s1 \<longleftrightarrow> n < i \<or> r \<noteq> 0"
    "app_tm p \<in> active s1 \<longrightarrow> expiry (tm (tk s1)) (app_tm p) = (if n < i then i - n else r - (n - i) mod r)" by blast
  obtain s' where s': "timer_tick routine run_cleanup s1 = Some s'" "ticked s1 s'" "steady s'"
    using timer_tick_facts[OF s1(2)] by blast
  have mr: "(n - i) mod r < r" if "r \<noteq> 0" using that by simp
  have lt: "last_tick s1 (app_tm p) \<longleftrightarrow> Suc n = i \<or> n \<ge> i \<and> r \<noteq> 0 \<and> (n - i) mod r = r - 1"
    using s1(5,6) mr by (auto simp: last_tick_def)
  have ap: "apps s' p = (if last_tick s1 (app_tm p) then fired (apps s1 p) else apps s1 p)"
    using s'(2) by (simp add: ticked_def)
  have sd: "Suc n - i = Suc (n - i)" if "n \<ge> i" using that by simp
  have f: "firings i r (Suc n) = firings i r n + (if last_tick s1 (app_tm p) then 1 else 0)"
    unfolding lt using mr by (auto simp: firings_def sd div_Suc mod_Suc)
  have e: "tm_expirations (apps s' p) mod 4294967296 = (tm_expirations (apps s p) + firings i r (Suc n)) mod 4294967296"
    unfolding f ap using s1(3) by (auto simp: fired_def inc32_def) (metis add.assoc mod_Suc_eq add_Suc_right add.right_neutral)
  have re: "restarts s1 (app_tm p) \<longleftrightarrow> r \<noteq> 0" using s1(4) by (simp add: restarts_def)
  have act: "app_tm p \<in> active s' \<longleftrightarrow> app_tm p \<in> active s1 \<and> (\<not> last_tick s1 (app_tm p) \<or> r \<noteq> 0)"
    using s'(2) re by (simp add: ticked_def)
  then have act': "app_tm p \<in> active s' \<longleftrightarrow> Suc n < i \<or> r \<noteq> 0" using s1(5) lt by auto
  have ex: "expiry (tm (tk s')) (app_tm p) = (if Suc n < i then i - Suc n else r - (Suc n - i) mod r)"
    if a': "app_tm p \<in> active s'"
  proof -
    have "expiry (tm (tk s')) (app_tm p) =
        (if last_tick s1 (app_tm p) then r else expiry (tm (tk s1)) (app_tm p) - 1)"
      using s'(2) a' s1(4) by (simp add: ticked_def)
    moreover have "app_tm p \<in> active s1" "r \<noteq> 0 \<or> Suc n < i" using a' act act' by auto
    ultimately show ?thesis using s1(6) lt mr by (auto simp: sd mod_Suc)
  qed
  have "tm_reschedule_time (apps s' p) = r" using s1(4) by (simp add: ap fired_def)
  then show ?case using s1(1) s'(1,3) e act' ex by simp
qed

lemma NU_Control_Timer_starts:
  assumes "p \<noteq> NU_NULL" "tm_id_valid (apps s p)" "\<not> tm_paused_status (apps s p)" "\<not> tm_enabled (apps s p)"
  shows "NU_Control_Timer p (Some True) s =
    (upd_tm (TMC_Start_Timer (app_tm p)
       (if tm_expirations (apps s p) \<noteq> 0 then tm_reschedule_time (apps s p) else tm_initial_time (apps s p)))
       (upd_app p (tm_enabled_update (\<lambda>_. True)) s), NU_SUCCESS)"
  using assms by (simp add: NU_Control_Timer_def Let_def)

text \<open>An application timer that is started: where it is on the list, and that the list stays at rest.\<close>

lemma start_app_steady:
  assumes st: "steady s" and new: "app_tm p \<notin> active s" and t: "0 < time" "time < 4294967296"
    and r: "tm_reschedule_time b < 4294967296"
    and s1: "tm (tk s1) = TMC_Start_Timer (app_tm p) time (tm (tk s))" "apps s1 = (apps s)(p := b)"
  shows "steady s1" "active s1 = insert (app_tm p) (active s)" "expiry (tm (tk s1)) (app_tm p) = time"
    "u \<in> active s \<Longrightarrow> expiry (tm (tk s1)) u = expiry (tm (tk s)) u"
proof -
  have run: "running (tm (tk s))" using st by (simp add: steady_def)
  then have "timers_inv (tm (tk s))" by (simp add: running_def)
  note F = TMC_Start_Timer_facts[OF this new t(2)]
  show "steady s1" using TMC_Start_Timer_running[OF run new t] st r s1 by (simp add: steady_def)
  show "active s1 = insert (app_tm p) (active s)" "expiry (tm (tk s1)) (app_tm p) = time"
    "u \<in> active s \<Longrightarrow> expiry (tm (tk s1)) u = expiry (tm (tk s)) u" using F s1(1) by auto
qed

text \<open>
  C12. An application timer created with the initial time \<open>i\<close> and the reschedule time \<open>r\<close>, and enabled, while the clock
  runs regularly (\<open>steady\<close>: no expiration is being processed, no entry of the list has expired or was started with the
  time 0, the count-down lies between 1 and its start value, the reschedule times are 32-bit numbers), expires for the
  first time after exactly \<open>i\<close> ticks and from then on every \<open>r\<close> ticks (never again when \<open>r\<close> is 0): after \<open>n\<close>
  ticks its expiration counter, a 32-bit word, is the number of these expirations. The arguments are valid (\<open>i\<close> is not 0,
  both times are 32-bit numbers, the control block is not in use and its timer is not active), between the ticks no
  service is called, and the expiration routines change only the application's own data.
\<close>

theorem NU_Create_Timer_periodic:
  assumes "steady s" and "app_tm p \<notin> active s" and "p \<noteq> NU_NULL" and "\<not> tm_id_valid (apps s p)"
    and "handler \<noteq> NU_NULL" and "0 < i" and "i < 4294967296" and "r < 4294967296"
  shows "\<exists>s1 s'. NU_Create_Timer p handler ident i r (Some True) s = (s1, NU_SUCCESS) \<and>
    timer_ticks routine run_cleanup n s1 = Some s' \<and>
    tm_expirations (apps s' p) mod 4294967296 =
      (if n < i then 0 else if r = 0 then 1 else (n - i) div r + 1) mod 4294967296"
proof -
  obtain s1 where c: "NU_Create_Timer p handler ident i r (Some True) s = (s1, NU_SUCCESS)" by
    (simp add: NU_Create_Timer_def assms(3-6))
  let ?a = "\<lparr>tm_id_valid = True, tm_expiration_routine = handler, tm_expiration_id = ident, tm_enabled = True,
    tm_paused_status = False, tm_expirations = 0, tm_initial_time = i, tm_reschedule_time = r, tm_paused_time = 0\<rparr>"
  have s1: "tm (tk s1) = TMC_Start_Timer (app_tm p) i (tm (tk s))" "apps s1 = (apps s)(p := ?a)"
    using c assms(3-6) by (auto simp: NU_Create_Timer_def NU_Control_Timer_starts Let_def)
  note S = start_app_steady[OF assms(1,2,6,7) _ s1]
  have "app_tm p \<in> active s1" "steady s1" "expiry (tm (tk s1)) (app_tm p) = i" using S assms(8) by simp_all
  from timer_ticks_firings[OF this(2,1,3) refl, of routine run_cleanup n] show ?thesis
    using c s1(2) by (auto simp: firings_def)
qed

theorem NU_Create_Timer_periodic_witness:
  "\<exists>s1 s'. NU_Create_Timer 9 64 0 3 2 (Some True) sample_tsys = (s1, NU_SUCCESS) \<and>
     timer_ticks (\<lambda>_ _ e. e) (\<lambda>_ e. e) 8 s1 = Some s' \<and> tm_expirations (apps s' 9) mod 4294967296 = 3"
proof -
  have "app_tm 9 \<notin> active sample_tsys" "(9::nat) \<noteq> NU_NULL" "\<not> tm_id_valid (apps sample_tsys 9)" "(64::nat) \<noteq> NU_NULL"
    "(0::nat) < 3" "(3::nat) < 4294967296" "(2::nat) < 4294967296"
    by (simp_all add: sample_tsys_def app_tm_def unused_timer_def)
  from NU_Create_Timer_periodic[OF sample_tsys_steady this, of 0 "\<lambda>_ _ e. e" "\<lambda>_ e. e" 8] show ?thesis by simp
qed

section \<open>Remaining time\<close>

lemma sum_up_to_delta_sum:
  assumes "t \<in> set ts" "acc + delta_sum r ts t < 4294967296"
  shows "sum_up_to r t ts acc = Some (acc + delta_sum r ts t)"
  using assms by (induction ts arbitrary: acc) (auto simp: add32_eq add.assoc Let_def)

lemma remaining_time_expiry:
  assumes "timers_inv m" "\<not> TMD_Active_List_Busy m" "TMD_Timer m \<le> TMD_Timer_Start m"
    "u \<in> set (TMD_Active_Timers_List m)"
  shows "remaining_time u m = expiry m u"
proof -
  obtain h hs where L: "TMD_Active_Timers_List m = h # hs" using assms(4) by (cases "TMD_Active_Timers_List m") auto
  let ?e = "TMD_Timer_Start m - TMD_Timer m"
  have c: "TMD_Timer_Start m \<le> tm_remaining_time m h" "delta_sum (tm_remaining_time m) (h # hs) v < 4294967296"
    if "v \<in> set (h # hs)" for v using assms(1,2) L that by (auto simp: timers_inv_def Let_def)
  have hb: "tm_remaining_time m h < 4294967296" using c(2)[of h] by simp
  have hd: "(if tm_remaining_time m h > TMD_Timer_Start m
      then add32 (TMD_Timer m) (tm_remaining_time m h - TMD_Timer_Start m) else TMD_Timer m) = tm_remaining_time m h - ?e"
    using c(1)[of h] assms(3) hb by (auto simp: add32_eq)
  have rt: "remaining_time u m = (if h = u then tm_remaining_time m h - ?e else
      (case sum_up_to (tm_remaining_time m) u hs (tm_remaining_time m h - ?e) of None \<Rightarrow> 0 | Some t \<Rightarrow> t))"
    unfolding remaining_time_def L Let_def list.case hd ..
  have ex: "expiry m u = delta_sum (tm_remaining_time m) (h # hs) u - ?e"
    using assms(2) by (simp add: expiry_def elapsed_ticks_def L)
  show ?thesis
  proof (cases "h = u")
    case True
    then show ?thesis using rt ex by simp
  next
    case False
    then have u: "u \<in> set hs" using assms(4) L by auto
    then have "tm_remaining_time m h - ?e + delta_sum (tm_remaining_time m) hs u < 4294967296"
      using c(2)[of u] False by auto
    moreover have "?e \<le> tm_remaining_time m h" using c(1)[of h] by simp
    ultimately show ?thesis using False rt ex u by (simp add: sum_up_to_delta_sum)
  qed
qed

text \<open>
  C14. For an enabled timer that is on the active list \<open>NU_Get_Remaining_Time\<close>, which walks the list of differences with
  32-bit additions, returns exactly the number of ticks after which the timer expires, while the clock runs regularly
  (\<open>running\<close>: no expiration is being processed, and no entry of the list has expired or was started with the time 0, so
  that the count-down lies between 1 and its start value; while such an entry is pending the count-down register is
  stale).
\<close>

theorem NU_Get_Remaining_Time_exact:
  assumes "running (tm (tk s))" and "p \<noteq> NU_NULL" and "tm_id_valid (apps s p)" and "tm_enabled (apps s p)"
    and "app_tm p \<in> active s"
  shows "NU_Get_Remaining_Time p s = (NU_SUCCESS, Some (expiry (tm (tk s)) (app_tm p)))"
proof -
  have "TMD_Active_Timers_List (tm (tk s)) \<noteq> []" using assms(5) by auto
  then show ?thesis
    using assms remaining_time_expiry[of "tm (tk s)" "app_tm p"] by (simp add: NU_Get_Remaining_Time_def Let_def running_def)
qed

theorem NU_Get_Remaining_Time_exact_witness: "NU_Get_Remaining_Time 5 sample_tsys = (NU_SUCCESS, Some 20)"
proof -
  have "running (tm (tk sample_tsys))" using sample_tsys_steady by (simp add: steady_def)
  then have "NU_Get_Remaining_Time 5 sample_tsys = (NU_SUCCESS, Some (expiry (tm (tk sample_tsys)) (app_tm 5)))"
    by (rule NU_Get_Remaining_Time_exact) (simp_all add: sample_tsys_def app_tm_def)
  then show ?thesis by (simp add: sample_tsys_def app_tm_def expiry_def elapsed_ticks_def)
qed

section \<open>Pausing\<close>

lemma stop_app_steady:
  assumes st: "steady s" and a: "app_tm p \<in> active s" and r: "tm_reschedule_time b < 4294967296"
    and s1: "tm (tk s1) = TMC_Stop_Timer (app_tm p) (tm (tk s))" "apps s1 = (apps s)(p := b)"
  shows "steady s1" "active s1 = active s - {app_tm p}"
    "u \<in> active s - {app_tm p} \<Longrightarrow> expiry (tm (tk s1)) u = expiry (tm (tk s)) u"
proof -
  have run: "running (tm (tk s))" using st by (simp add: steady_def)
  then have inv: "timers_inv (tm (tk s))" by (simp add: running_def)
  then have d: "distinct (TMD_Active_Timers_List (tm (tk s)))" by (simp add: timers_inv_def)
  note F = TMC_Stop_Timer_facts[OF inv a]
  show "steady s1" using TMC_Stop_Timer_running[OF run a] st r s1 by (simp add: steady_def)
  show "active s1 = active s - {app_tm p}" using F s1(1) d by simp
  show "u \<in> active s - {app_tm p} \<Longrightarrow> expiry (tm (tk s1)) u = expiry (tm (tk s)) u" using F s1(1) by auto
qed

lemma timer_ticks_inactive:
  assumes "steady s" "app_tm p \<notin> active s"
  shows "\<exists>s'. timer_ticks routine run_cleanup n s = Some s' \<and> steady s' \<and> app_tm p \<notin> active s' \<and> apps s' p = apps s p"
proof (induction n)
  case (Suc n)
  then obtain s1 where s1: "timer_ticks routine run_cleanup n s = Some s1" "steady s1" "app_tm p \<notin> active s1"
    "apps s1 p = apps s p" by blast
  obtain s' where "timer_tick routine run_cleanup s1 = Some s'" "ticked s1 s'" "steady s'"
    using timer_tick_facts[OF s1(2)] by blast
  then show ?case using s1 by (simp add: ticked_def last_tick_def)
qed (use assms in simp)

lemma NU_Pause_Timer_facts:
  assumes "running (tm (tk s))" "p \<noteq> NU_NULL" "tm_id_valid (apps s p)" "tm_enabled (apps s p)"
    "\<not> tm_paused_status (apps s p)" "app_tm p \<in> active s"
  shows "NU_Pause_Timer p s = (upd_app p (\<lambda>a. a\<lparr>tm_enabled := False, tm_paused_status := True,
      tm_paused_time := expiry (tm (tk s)) (app_tm p)\<rparr>) (upd_tm (TMC_Stop_Timer (app_tm p)) s), NU_SUCCESS)"
proof -
  have "TMD_Active_Timers_List (tm (tk s)) \<noteq> []" using assms(6) by auto
  then have "remaining_time (app_tm p) (tm (tk s)) = expiry (tm (tk s)) (app_tm p)"
    using assms by (intro remaining_time_expiry) (auto simp: running_def)
  then show ?thesis using assms by (simp add: NU_Pause_Timer_def NU_Get_Remaining_Time_def Let_def)
qed

lemma NU_Reset_Timer_starts:
  assumes "p \<noteq> NU_NULL" "tm_id_valid (apps s p)" "\<not> tm_enabled (apps s p)" "i \<noteq> 0" "h \<noteq> NU_NULL"
  shows "NU_Reset_Timer p h i r (Some True) s =
    (upd_tm (TMC_Start_Timer (app_tm p) i) (upd_app p (\<lambda>a. a\<lparr>tm_expiration_routine := h, tm_expirations := 0,
       tm_initial_time := i, tm_reschedule_time := r, tm_paused_status := False, tm_enabled := True\<rparr>) s), NU_SUCCESS)"
  using assms by (simp add: NU_Reset_Timer_def NU_Control_Timer_starts Let_def)

lemma expiry_bound:
  "timers_inv m \<Longrightarrow> u \<in> set (TMD_Active_Timers_List m) \<Longrightarrow> expiry m u < 4294967296"
  by (auto simp: timers_inv_def expiry_def less_imp_diff_less)

text \<open>
  C15. Pausing an enabled timer stops its time: if the clock runs regularly at the pause (\<open>steady\<close>: no expiration is
  being processed, no entry of the list has expired or was started with the time 0, the count-down lies between 1 and
  its start value, the reschedule times are 32-bit numbers) and then only ticks happen, whatever their number, with
  expiration routines that change only the application's own data, then \<open>NU_Get_Remaining_Time\<close> reports the time
  the timer had left, and after \<open>NU_Resume_Timer\<close> the time to its expiry is exactly that time. Resuming keeps the expiry of
  all other timers, but the number of expirations starts again at 0. The timer is a created one, enabled, on the
  active list and not paused, and has an expiration routine.
\<close>

theorem pause_resume_keeps_time:
  assumes "steady s" and "p \<noteq> NU_NULL" and "tm_id_valid (apps s p)" and "tm_enabled (apps s p)"
    and "\<not> tm_paused_status (apps s p)" and "tm_expiration_routine (apps s p) \<noteq> NU_NULL" and "app_tm p \<in> active s"
  shows "\<exists>s1 s2 s3. NU_Pause_Timer p s = (s1, NU_SUCCESS) \<and> app_tm p \<notin> active s1 \<and>
    timer_ticks routine run_cleanup n s1 = Some s2 \<and>
    NU_Get_Remaining_Time p s2 = (NU_SUCCESS, Some (expiry (tm (tk s)) (app_tm p))) \<and>
    NU_Resume_Timer p s2 = (s3, NU_SUCCESS) \<and> tm_enabled (apps s3 p) \<and> tm_expirations (apps s3 p) = 0 \<and>
    expiry (tm (tk s3)) (app_tm p) = expiry (tm (tk s)) (app_tm p) \<and>
    (\<forall>u \<in> active s2. expiry (tm (tk s3)) u = expiry (tm (tk s2)) u)"
proof -
  let ?x = "expiry (tm (tk s)) (app_tm p)"
  let ?f = "\<lambda>a. a\<lparr>tm_enabled := False, tm_paused_status := True, tm_paused_time := ?x\<rparr>"
  have run: "running (tm (tk s))" using assms(1) by (simp add: steady_def)
  define s1 where "s1 = upd_app p ?f (upd_tm (TMC_Stop_Timer (app_tm p)) s)"
  have x: "0 < ?x" "?x < 4294967296"
    using running_expiry(2)[OF run assms(7)] expiry_bound assms(7) run by (auto simp: running_def)
  have p1: "NU_Pause_Timer p s = (s1, NU_SUCCESS)" unfolding s1_def by (rule NU_Pause_Timer_facts[OF run assms(2-5,7)])
  have "tm (tk s1) = TMC_Stop_Timer (app_tm p) (tm (tk s))" "apps s1 = (apps s)(p := ?f (apps s p))"
    by (simp_all add: s1_def)
  from stop_app_steady[OF assms(1,7) _ this] have s1: "steady s1" "app_tm p \<notin> active s1"
    using assms(1) by (auto simp: steady_def)
  have ap: "apps s1 p = ?f (apps s p)" by (simp add: s1_def)
  obtain s2 where s2: "timer_ticks routine run_cleanup n s1 = Some s2" "steady s2" "app_tm p \<notin> active s2"
    "apps s2 p = apps s1 p" using timer_ticks_inactive[OF s1] by blast
  have a2: "apps s2 p = ?f (apps s p)" using s2(4) ap by simp
  let ?r = "tm_reschedule_time (apps s p)" and ?h = "tm_expiration_routine (apps s p)"
  let ?g = "\<lambda>a. a\<lparr>tm_expiration_routine := ?h, tm_expirations := 0, tm_initial_time := ?x, tm_reschedule_time := ?r,
    tm_paused_status := False, tm_enabled := True\<rparr>"
  define s3 where "s3 = upd_tm (TMC_Start_Timer (app_tm p) ?x) (upd_app p ?g s2)"
  have "NU_Reset_Timer p ?h ?x ?r (Some True) s2 = (s3, NU_SUCCESS)"
    unfolding s3_def using assms(2,3,6) a2 x(1) by (intro NU_Reset_Timer_starts) auto
  then have r3: "NU_Resume_Timer p s2 = (s3, NU_SUCCESS)" using a2 assms(2,3) by (simp add: NU_Resume_Timer_def Let_def)
  have "tm (tk s3) = TMC_Start_Timer (app_tm p) ?x (tm (tk s2))" "apps s3 = (apps s2)(p := ?g (apps s2 p))"
    by (simp_all add: s3_def)
  from start_app_steady[OF s2(2,3) x _ this]
  have "expiry (tm (tk s3)) (app_tm p) = ?x" "\<forall>u \<in> active s2. expiry (tm (tk s3)) u = expiry (tm (tk s2)) u"
    using assms(1) by (auto simp: steady_def)
  moreover have "NU_Get_Remaining_Time p s2 = (NU_SUCCESS, Some ?x)"
    using a2 assms(2,3) by (simp add: NU_Get_Remaining_Time_def Let_def)
  moreover have "tm_enabled (apps s3 p)" "tm_expirations (apps s3 p) = 0" by (simp_all add: s3_def)
  ultimately show ?thesis using p1 s1(2) s2(1) r3 by blast
qed

theorem pause_resume_keeps_time_witness:
  "\<exists>s1 s2 s3. NU_Pause_Timer 5 sample_tsys = (s1, NU_SUCCESS) \<and>
     timer_ticks (\<lambda>_ _ e. e) (\<lambda>_ e. e) 100 s1 = Some s2 \<and> NU_Resume_Timer 5 s2 = (s3, NU_SUCCESS) \<and>
     expiry (tm (tk s3)) (app_tm 5) = 20"
proof -
  have "(5::nat) \<noteq> NU_NULL" "tm_id_valid (apps sample_tsys 5)" "tm_enabled (apps sample_tsys 5)"
    "\<not> tm_paused_status (apps sample_tsys 5)" "tm_expiration_routine (apps sample_tsys 5) \<noteq> NU_NULL"
    "app_tm 5 \<in> active sample_tsys"
    by (simp_all add: sample_tsys_def unused_timer_def app_tm_def)
  moreover have "expiry (tm (tk sample_tsys)) (app_tm 5) = 20"
    by (simp add: sample_tsys_def app_tm_def expiry_def elapsed_ticks_def)
  ultimately show ?thesis
    using pause_resume_keeps_time[OF sample_tsys_steady, of 5 "\<lambda>_ _ e. e" "\<lambda>_ e. e" 100] by metis
qed

section \<open>The invariant of the application timers\<close>

definition app_ok :: "'e tsys \<Rightarrow> addr \<Rightarrow> bool" where
  "app_ok s p \<longleftrightarrow> (let a = apps s p in
     (tm_enabled a \<longleftrightarrow> app_tm p \<in> active s) \<and> (tm_enabled a \<longrightarrow> tm_id_valid a) \<and>
     (tm_id_valid a \<longrightarrow> p \<noteq> NU_NULL \<and> tm_expiration_routine a \<noteq> NU_NULL \<and>
        0 < tm_initial_time a \<and> tm_initial_time a < 4294967296 \<and>
        (tm_paused_status a \<longrightarrow> \<not> tm_enabled a \<and> 0 < tm_paused_time a \<and> tm_paused_time a < 4294967296)))"

definition tsys_inv :: "'e tsys \<Rightarrow> bool" where
  "tsys_inv s \<longleftrightarrow> steady s \<and> (\<forall>p. app_ok s p) \<and> distinct (TMD_Created_Timers_List s) \<and>
     set (TMD_Created_Timers_List s) = {p. tm_id_valid (apps s p)} \<and>
     TMD_Total_Timers s = length (TMD_Created_Timers_List s) mod 4294967296"

text \<open>
  The services and the ticks in any order. \<open>NU_Control_Timer\<close> is not called to restart a timer that has expired and is
  not rescheduled: it would be started with the time 0.
\<close>

inductive tstep :: "(nat \<Rightarrow> nat \<Rightarrow> 'e \<Rightarrow> 'e) \<Rightarrow> (nat \<Rightarrow> 'e \<Rightarrow> 'e) \<Rightarrow> 'e tsys \<Rightarrow> 'e tsys \<Rightarrow> bool" for routine run_cleanup where
  create: "i < 4294967296 \<Longrightarrow> r < 4294967296 \<Longrightarrow>
    tstep routine run_cleanup s (fst (NU_Create_Timer p handler ident i r enable s))"
| delete: "tstep routine run_cleanup s (fst (NU_Delete_Timer p s))"
| reset: "i < 4294967296 \<Longrightarrow> r < 4294967296 \<Longrightarrow>
    tstep routine run_cleanup s (fst (NU_Reset_Timer p handler i r enable s))"
| control: "tm_expirations (apps s p) = 0 \<or> tm_reschedule_time (apps s p) \<noteq> 0 \<Longrightarrow>
    tstep routine run_cleanup s (fst (NU_Control_Timer p enable s))"
| pause: "tstep routine run_cleanup s (fst (NU_Pause_Timer p s))"
| resume: "tstep routine run_cleanup s (fst (NU_Resume_Timer p s))"
| tick: "timer_tick routine run_cleanup s = Some s' \<Longrightarrow> tstep routine run_cleanup s s'"

lemma app_okD:
  assumes "tsys_inv s"
  shows "tm_enabled (apps s p) \<longleftrightarrow> app_tm p \<in> active s" "tm_enabled (apps s p) \<Longrightarrow> tm_id_valid (apps s p)"
    "tm_reschedule_time (apps s p) < 4294967296"
    "tm_id_valid (apps s p) \<Longrightarrow> p \<noteq> NU_NULL \<and> tm_expiration_routine (apps s p) \<noteq> NU_NULL \<and>
       0 < tm_initial_time (apps s p) \<and> tm_initial_time (apps s p) < 4294967296"
    "tm_id_valid (apps s p) \<Longrightarrow> tm_paused_status (apps s p) \<Longrightarrow>
       \<not> tm_enabled (apps s p) \<and> 0 < tm_paused_time (apps s p) \<and> tm_paused_time (apps s p) < 4294967296"
  using assms by (auto simp: tsys_inv_def app_ok_def steady_def Let_def)

text \<open>Changing one application timer: the rest of the invariant follows from the new list and the new block.\<close>

lemma tsys_inv_upd:
  assumes inv: "tsys_inv s" and st: "steady s'" and act: "active s' - {app_tm p} = active s - {app_tm p}"
    and ap: "apps s' = (apps s)(p := b)" and ok: "app_ok s' p"
    and cr: "tm_id_valid b = tm_id_valid (apps s p)" "TMD_Created_Timers_List s' = TMD_Created_Timers_List s"
      "TMD_Total_Timers s' = TMD_Total_Timers s"
  shows "tsys_inv s'"
proof -
  have "app_ok s' q" for q
  proof (cases "q = p")
    case False
    have "app_tm q \<in> active s' - {app_tm p} \<longleftrightarrow> app_tm q \<in> active s - {app_tm p}" by (simp only: act)
    then show ?thesis using inv False ap by (simp add: tsys_inv_def app_ok_def)
  qed (simp add: ok)
  moreover have "{q. tm_id_valid (apps s' q)} = {q. tm_id_valid (apps s q)}" using cr(1) by (auto simp: ap)
  ultimately show ?thesis using inv st cr(2,3) by (simp add: tsys_inv_def)
qed

lemma NU_Control_Timer_inv:
  assumes inv: "tsys_inv s" and g: "tm_expirations (apps s p) = 0 \<or> tm_reschedule_time (apps s p) \<noteq> 0"
  shows "tsys_inv (fst (NU_Control_Timer p enable s))"
proof -
  note A = app_okD[OF inv, of p]
  have st: "steady s" using inv by (simp add: tsys_inv_def)
  let ?t = "if tm_expirations (apps s p) \<noteq> 0 then tm_reschedule_time (apps s p) else tm_initial_time (apps s p)"
  let ?on = "upd_tm (TMC_Start_Timer (app_tm p) ?t) (upd_app p (tm_enabled_update (\<lambda>_. True)) s)"
  let ?off = "upd_app p (tm_enabled_update (\<lambda>_. False)) (upd_tm (TMC_Stop_Timer (app_tm p)) s)"
  have on: "tsys_inv ?on" if c: "tm_id_valid (apps s p)" "\<not> tm_paused_status (apps s p)" "\<not> tm_enabled (apps s p)"
  proof -
    have t: "0 < ?t" "?t < 4294967296" and na: "app_tm p \<notin> active s" using A c g by auto
    have u: "tm (tk ?on) = TMC_Start_Timer (app_tm p) ?t (tm (tk s))"
      "apps ?on = (apps s)(p := tm_enabled_update (\<lambda>_. True) (apps s p))" by simp_all
    have b: "tm_reschedule_time (tm_enabled_update (\<lambda>_. True) (apps s p)) < 4294967296" using A(3) by simp
    note S = start_app_steady[OF st na t b u]
    show ?thesis
    proof (rule tsys_inv_upd[OF inv S(1) _ u(2)])
      show "active ?on - {app_tm p} = active s - {app_tm p}" using S(2) by auto
      show "app_ok ?on p" using S(2) A(4) c by (simp add: app_ok_def)
    qed (simp_all add: upd_tm_def upd_app_def)
  qed
  have off: "tsys_inv ?off" if c: "tm_id_valid (apps s p)" "\<not> tm_paused_status (apps s p)" "tm_enabled (apps s p)"
  proof -
    have a: "app_tm p \<in> active s" using A c by auto
    have u: "tm (tk ?off) = TMC_Stop_Timer (app_tm p) (tm (tk s))"
      "apps ?off = (apps s)(p := tm_enabled_update (\<lambda>_. False) (apps s p))" by simp_all
    have b: "tm_reschedule_time (tm_enabled_update (\<lambda>_. False) (apps s p)) < 4294967296" using A(3) by simp
    note S = stop_app_steady[OF st a b u]
    show ?thesis
    proof (rule tsys_inv_upd[OF inv S(1) _ u(2)])
      show "active ?off - {app_tm p} = active s - {app_tm p}" using S(2) by auto
      show "app_ok ?off p" using S(2) A(4) c by (simp add: app_ok_def)
    qed (simp_all add: upd_tm_def upd_app_def)
  qed
  show ?thesis using on off inv by (auto simp: NU_Control_Timer_def Let_def)
qed

lemma NU_Reset_Timer_inv:
  assumes inv: "tsys_inv s" and b: "i < 4294967296" "r < 4294967296"
  shows "tsys_inv (fst (NU_Reset_Timer p handler i r enable s))"
proof -
  note A = app_okD[OF inv, of p]
  have st: "steady s" using inv by (simp add: tsys_inv_def)
  let ?b = "(apps s p)\<lparr>tm_expiration_routine := handler, tm_expirations := 0, tm_initial_time := i,
    tm_reschedule_time := r, tm_paused_status := False\<rparr>"
  let ?s1 = "upd_app p (\<lambda>a. a\<lparr>tm_expiration_routine := handler, tm_expirations := 0, tm_initial_time := i,
    tm_reschedule_time := r, tm_paused_status := False\<rparr>) s"
  have s1: "tsys_inv ?s1" if c: "tm_id_valid (apps s p)" "\<not> tm_enabled (apps s p)" "i \<noteq> 0" "handler \<noteq> NU_NULL"
  proof (rule tsys_inv_upd[OF inv, where p = p and b = ?b])
    show "steady ?s1" using st b by (simp add: steady_def)
    show "app_ok ?s1 p" using A c b by (simp add: app_ok_def)
  qed (use c in \<open>simp_all add: upd_app_def\<close>)
  then have "tsys_inv (fst (NU_Control_Timer p (Some True) ?s1))"
    if "tm_id_valid (apps s p)" "\<not> tm_enabled (apps s p)" "i \<noteq> 0" "handler \<noteq> NU_NULL"
    using that by (intro NU_Control_Timer_inv) simp_all
  then show ?thesis using s1 inv by (auto simp: NU_Reset_Timer_def Let_def)
qed

lemma NU_Create_Timer_inv:
  assumes inv: "tsys_inv s" and b: "i < 4294967296" "r < 4294967296"
  shows "tsys_inv (fst (NU_Create_Timer p handler ident i r enable s))"
proof -
  have st: "steady s" using inv by (simp add: tsys_inv_def)
  let ?b = "\<lparr>tm_id_valid = True, tm_expiration_routine = handler, tm_expiration_id = ident,
    tm_enabled = False, tm_paused_status = False, tm_expirations = 0,
    tm_initial_time = i, tm_reschedule_time = r, tm_paused_time = 0\<rparr>"
  let ?s1 = "(upd_app p (\<lambda>_. ?b) s)\<lparr>TMD_Created_Timers_List := TMD_Created_Timers_List s @ [p],
    TMD_Total_Timers := inc32 (TMD_Total_Timers s)\<rparr>"
  have s1: "tsys_inv ?s1" if c: "p \<noteq> NU_NULL" "\<not> tm_id_valid (apps s p)" "i \<noteq> 0" "handler \<noteq> NU_NULL"
  proof -
    have e: "\<not> tm_enabled (apps s p)" "app_tm p \<notin> active s" using app_okD[OF inv, of p] c by auto
    have ok: "app_ok ?s1 q" for q using inv c b e by (cases "q = p") (auto simp: tsys_inv_def app_ok_def Let_def)
    have "steady ?s1" using st b by (simp add: steady_def)
    moreover have "p \<notin> set (TMD_Created_Timers_List s)" using inv c by (simp add: tsys_inv_def)
    moreover have "insert p {q. tm_id_valid (apps s q)} = {q. tm_id_valid (apps ?s1 q)}" by auto
    ultimately show ?thesis using inv ok by (simp add: tsys_inv_def inc32_def mod_Suc_eq)
  qed
  then have "tsys_inv (fst (NU_Control_Timer p (Some True) ?s1))"
    if "p \<noteq> NU_NULL" "\<not> tm_id_valid (apps s p)" "i \<noteq> 0" "handler \<noteq> NU_NULL"
    using that by (intro NU_Control_Timer_inv) simp_all
  then show ?thesis using s1 inv by (auto simp: NU_Create_Timer_def Let_def)
qed

lemma NU_Delete_Timer_inv:
  assumes inv: "tsys_inv s"
  shows "tsys_inv (fst (NU_Delete_Timer p s))"
proof -
  let ?s1 = "(upd_app p (tm_id_valid_update (\<lambda>_. False)) s)\<lparr>TMD_Created_Timers_List := remove1 p (TMD_Created_Timers_List s),
    TMD_Total_Timers := dec32 (TMD_Total_Timers s)\<rparr>"
  have "tsys_inv ?s1" if c: "tm_id_valid (apps s p)" "\<not> tm_enabled (apps s p)"
  proof -
    have ok: "app_ok ?s1 q" for q using inv c by (cases "q = p") (auto simp: tsys_inv_def app_ok_def Let_def)
    have "steady ?s1" using inv by (simp add: tsys_inv_def steady_def)
    moreover have d: "distinct (TMD_Created_Timers_List s)" and pin: "p \<in> set (TMD_Created_Timers_List s)"
      and t: "TMD_Total_Timers s = length (TMD_Created_Timers_List s) mod 4294967296"
      using inv c by (auto simp: tsys_inv_def)
    moreover have "{q. tm_id_valid (apps s q)} - {p} = {q. tm_id_valid (apps ?s1 q)}" by auto
    moreover have "dec32 (TMD_Total_Timers s) = length (remove1 p (TMD_Created_Timers_List s)) mod 4294967296"
    proof -
      obtain n where n: "length (TMD_Created_Timers_List s) = Suc n" using pin by (cases "TMD_Created_Timers_List s") auto
      have "(Suc n mod 4294967296 + 4294967295) mod 4294967296 = (n + 1 * 4294967296) mod 4294967296"
        unfolding mod_add_left_eq by simp
      then show ?thesis using t n pin by (simp add: dec32_def length_remove1)
    qed
    ultimately show ?thesis using inv ok by (simp add: tsys_inv_def)
  qed
  then show ?thesis using inv by (auto simp: NU_Delete_Timer_def Let_def)
qed

lemma NU_Pause_Timer_inv:
  assumes inv: "tsys_inv s"
  shows "tsys_inv (fst (NU_Pause_Timer p s))"
proof -
  note A = app_okD[OF inv, of p]
  have st: "steady s" and run: "running (tm (tk s))" using inv by (auto simp: tsys_inv_def steady_def)
  have "tsys_inv (fst (NU_Pause_Timer p s))"
    if c: "tm_id_valid (apps s p)" "tm_enabled (apps s p)" "\<not> tm_paused_status (apps s p)"
  proof -
    have a: "app_tm p \<in> active s" and n: "p \<noteq> NU_NULL" using A c by auto
    let ?x = "expiry (tm (tk s)) (app_tm p)"
    let ?b = "(apps s p)\<lparr>tm_enabled := False, tm_paused_status := True, tm_paused_time := ?x\<rparr>"
    define s1 where "s1 = upd_app p (\<lambda>a. a\<lparr>tm_enabled := False, tm_paused_status := True, tm_paused_time := ?x\<rparr>)
      (upd_tm (TMC_Stop_Timer (app_tm p)) s)"
    have x: "0 < ?x" "?x < 4294967296"
      using running_expiry(2)[OF run a] expiry_bound a run by (auto simp: running_def)
    have u: "tm (tk s1) = TMC_Stop_Timer (app_tm p) (tm (tk s))" "apps s1 = (apps s)(p := ?b)" by (simp_all add: s1_def)
    have b: "tm_reschedule_time ?b < 4294967296" using A(3) by simp
    note S = stop_app_steady[OF st a b u]
    have "tsys_inv s1"
    proof (rule tsys_inv_upd[OF inv S(1) _ u(2)])
      show "active s1 - {app_tm p} = active s - {app_tm p}" using S(2) by auto
      show "app_ok s1 p" using S(2) A(4) c x u(2) by (simp add: app_ok_def)
    qed (simp_all add: s1_def)
    then show ?thesis using NU_Pause_Timer_facts[OF run n c a] by (simp add: s1_def)
  qed
  then show ?thesis using inv by (auto simp: NU_Pause_Timer_def Let_def)
qed

lemma NU_Resume_Timer_inv:
  assumes inv: "tsys_inv s"
  shows "tsys_inv (fst (NU_Resume_Timer p s))"
  using inv app_okD[OF inv, of p]
    NU_Reset_Timer_inv[OF inv, of "tm_paused_time (apps s p)" "tm_reschedule_time (apps s p)" p
      "tm_expiration_routine (apps s p)" "Some True"]
  by (auto simp: NU_Resume_Timer_def Let_def)

lemma timer_tick_inv:
  assumes inv: "tsys_inv s" and t: "timer_tick routine run_cleanup s = Some s'"
  shows "tsys_inv s'"
proof -
  have "steady s" using inv by (simp add: tsys_inv_def)
  from timer_tick_facts[OF this, of routine run_cleanup] have tk: "ticked s s'" and st: "steady s'" using t by auto
  have ap: "apps s' p = (if last_tick s (app_tm p) then fired (apps s p) else apps s p)" for p
    using tk by (simp add: ticked_def)
  have act: "app_tm p \<in> active s' \<longleftrightarrow>
      app_tm p \<in> active s \<and> (\<not> last_tick s (app_tm p) \<or> tm_reschedule_time (apps s p) \<noteq> 0)" for p
    using tk by (simp add: ticked_def restarts_def)
  have "app_ok s' p" for p
  proof (cases "last_tick s (app_tm p)")
    case True
    then show ?thesis using app_okD[OF inv, of p] act[of p] ap[of p] by (auto simp: app_ok_def fired_def Let_def last_tick_def)
  next
    case False
    then show ?thesis using inv act[of p] ap[of p] by (simp add: tsys_inv_def app_ok_def)
  qed
  moreover have "tm_id_valid (apps s' p) = tm_id_valid (apps s p)" for p by (simp add: ap fired_def)
  ultimately show ?thesis using inv st tk by (simp add: tsys_inv_def ticked_def)
qed

lemma tstep_inv: "tstep routine run_cleanup s s' \<Longrightarrow> tsys_inv s \<Longrightarrow> tsys_inv s'"
  by (induction rule: tstep.induct)
    (auto intro: NU_Create_Timer_inv NU_Delete_Timer_inv NU_Reset_Timer_inv NU_Control_Timer_inv
      NU_Pause_Timer_inv NU_Resume_Timer_inv timer_tick_inv)

lemma tsteps_inv: "(tstep routine run_cleanup)\<^sup>*\<^sup>* s s' \<Longrightarrow> tsys_inv s \<Longrightarrow> tsys_inv s'"
  by (induction rule: rtranclp_induct) (auto intro: tstep_inv)

definition no_timers :: "'e tsys \<Rightarrow> bool" where
  "no_timers s \<longleftrightarrow> steady s \<and> created s = ([], 0) \<and>
     (\<forall>p. \<not> tm_id_valid (apps s p) \<and> \<not> tm_enabled (apps s p) \<and> app_tm p \<notin> active s)"

lemma no_timers_inv: "no_timers s \<Longrightarrow> tsys_inv s"
  by (simp add: no_timers_def tsys_inv_def app_ok_def)

text \<open>
  C13. From a system without application timers whose clock runs regularly (\<open>steady\<close>: no entry of the list has expired
  or was started with the time 0), the following steps, in any order, keep the books consistent: creation, deletion,
  reset, pause and resumption of application timers, with 32-bit times, \<open>NU_Control_Timer\<close>, except on a timer that has
  expired and has no reschedule time (it would be started with the time 0), and ticks, each with the expirations it
  causes, whose routines change only the application's own data. A timer is enabled precisely when its timer is on
  the active list, and it then is a created one with at least one tick left; a created timer that is paused is not
  enabled and has time left; the list of created timers holds each created timer once, and the counter of timers is its
  length modulo \<open>2^32\<close>.
\<close>

theorem application_timers_consistent:
  assumes "no_timers s0" and "(tstep routine run_cleanup)\<^sup>*\<^sup>* s0 s"
  shows "(tm_enabled (apps s p) \<longleftrightarrow> app_tm p \<in> active s) \<and>
    (tm_enabled (apps s p) \<longrightarrow> tm_id_valid (apps s p) \<and> 0 < expiry (tm (tk s)) (app_tm p)) \<and>
    (tm_id_valid (apps s p) \<and> tm_paused_status (apps s p) \<longrightarrow> \<not> tm_enabled (apps s p) \<and> 0 < tm_paused_time (apps s p)) \<and>
    distinct (TMD_Created_Timers_List s) \<and>
    (p \<in> set (TMD_Created_Timers_List s) \<longleftrightarrow> tm_id_valid (apps s p)) \<and>
    TMD_Total_Timers s = length (TMD_Created_Timers_List s) mod 4294967296"
proof -
  have inv: "tsys_inv s" by (rule tsteps_inv[OF assms(2) no_timers_inv[OF assms(1)]])
  then have "running (tm (tk s))" by (simp add: tsys_inv_def steady_def)
  then have "app_tm p \<in> active s \<Longrightarrow> 0 < expiry (tm (tk s)) (app_tm p)" by (rule running_expiry(2))
  then show ?thesis using inv app_okD[OF inv, of p] by (auto simp: tsys_inv_def)
qed

definition idle_tsys :: "unit tsys" where
  "idle_tsys = \<lparr>tk = kernel2, clk = sample_clock, apps = (\<lambda>_. unused_timer), TMD_Created_Timers_List = [],
     TMD_Total_Timers = 0, client = ()\<rparr>"

lemma kernel2_tm: "TMD_Active_Timers_List (tm kernel2) = []" "running (tm kernel2)"
  by (simp_all add: run_simps running_def timers_inv_def)

theorem application_timers_consistent_witness:
  "let s = fst (NU_Create_Timer 9 64 0 3 2 (Some True) idle_tsys)
   in tm_enabled (apps s 9) \<and> app_tm 9 \<in> active s \<and> 0 < expiry (tm (tk s)) (app_tm 9)"
proof -
  let ?s = "fst (NU_Create_Timer 9 64 0 3 2 (Some True) idle_tsys)"
  have "no_timers idle_tsys"
    using kernel2_tm by (simp add: no_timers_def steady_def idle_tsys_def unused_timer_def)
  moreover have "(tstep (\<lambda>_ _ e. e) (\<lambda>_ e. e))\<^sup>*\<^sup>* idle_tsys ?s" by (rule r_into_rtranclp, rule tstep.create) simp_all
  ultimately have "(tm_enabled (apps ?s 9) \<longleftrightarrow> app_tm 9 \<in> active ?s) \<and>
      (tm_enabled (apps ?s 9) \<longrightarrow> 0 < expiry (tm (tk ?s)) (app_tm 9))"
    using application_timers_consistent by blast
  moreover have "tm_enabled (apps ?s 9)"
    by (simp add: idle_tsys_def unused_timer_def NU_Create_Timer_def NU_Control_Timer_def Let_def)
  ultimately show ?thesis by (simp add: Let_def)
qed

section \<open>Correctness of the expiration\<close>

text \<open>
  C11. When the count-down has ended, \<open>TMC_Timer_Expiration\<close> returns and has served exactly the timers that are due: each
  due application timer has fired once and is on the list again with its reschedule time (or is off the list and
  disabled when it has none), each due task that waited with a time-out is ready, every other timer keeps its expiry,
  every other task and application timer is unchanged; the count-down runs again towards the first entry, and the
  scheduler invariant is kept.
\<close>

theorem TMC_Timer_Expiration_serves:
  assumes "elapsed_all (tm (tk s))" and "\<forall>p. tm_reschedule_time (apps s p) < 4294967296"
  shows "\<exists>s'. TMC_Timer_Expiration routine run_cleanup s = Some s' \<and> running (tm (tk s')) \<and>
    active s' = {u \<in> active s. expiry (tm (tk s)) u = 0 \<longrightarrow> odd u \<and> tm_reschedule_time (apps s (u div 2)) \<noteq> 0} \<and>
    (\<forall>u \<in> active s'. expiry (tm (tk s')) u = (if expiry (tm (tk s)) u = 0
        then tm_reschedule_time (apps s (u div 2)) else expiry (tm (tk s)) u)) \<and>
    (\<forall>p. apps s' p = (if app_tm p \<in> active s \<and> expiry (tm (tk s)) (app_tm p) = 0
        then (apps s p)\<lparr>tm_expirations := inc32 (tm_expirations (apps s p)),
                        tm_enabled := (tm_reschedule_time (apps s p) \<noteq> 0)\<rparr>
        else apps s p)) \<and>
    (\<forall>t. if task_timer t \<in> active s \<and> expiry (tm (tk s)) (task_timer t) = 0
         then timed_wait t (tk s) \<longrightarrow> is_ready t (tk s') else tcbs (tk s') t = tcbs (tk s) t) \<and>
    (sched_inv (tk s) \<and> waiting s \<longrightarrow> sched_inv (tk s'))"
proof -
  have r: "\<And>p. tm_reschedule_time (apps s p) < 4294967296" using assms(2) by blast
  obtain s' where s': "TMC_Timer_Expiration routine run_cleanup s = Some s'" "served s s'" "running (tm (tk s'))"
    "sched_inv (tk s) \<and> all_suspended s \<longrightarrow> sched_inv (tk s')"
    using TMC_Timer_Expiration_facts[OF assms(1) r, of routine run_cleanup] by blast
  have "waiting s \<Longrightarrow> all_suspended s" by (simp add: waiting_def all_suspended_def due_def)
  moreover have act: "active s' = {u \<in> active s. expiry (tm (tk s)) u = 0 \<longrightarrow> odd u \<and> tm_reschedule_time (apps s (u div 2)) \<noteq> 0}"
    using s'(2) by (auto simp: served_def due_def restarts_def)
  moreover have "\<forall>u \<in> active s'. expiry (tm (tk s')) u = (if expiry (tm (tk s)) u = 0
        then tm_reschedule_time (apps s (u div 2)) else expiry (tm (tk s)) u)"
  proof
    fix u assume u: "u \<in> active s'"
    then have "u \<in> active s" using act by blast
    then show "expiry (tm (tk s')) u = (if expiry (tm (tk s)) u = 0
        then tm_reschedule_time (apps s (u div 2)) else expiry (tm (tk s)) u)"
      using s'(2) u by (simp add: served_def due_def)
  qed
  moreover have "\<forall>p. apps s' p = (if app_tm p \<in> active s \<and> expiry (tm (tk s)) (app_tm p) = 0
        then (apps s p)\<lparr>tm_expirations := inc32 (tm_expirations (apps s p)),
                        tm_enabled := (tm_reschedule_time (apps s p) \<noteq> 0)\<rparr>
        else apps s p)"
    using s'(2) by (simp add: served_def due_def fired_def)
  moreover have "\<forall>t. if task_timer t \<in> active s \<and> expiry (tm (tk s)) (task_timer t) = 0
         then timed_wait t (tk s) \<longrightarrow> is_ready t (tk s') else tcbs (tk s') t = tcbs (tk s) t"
    using s'(2) by (simp add: served_def due_def)
  ultimately show ?thesis using s'(1,3,4) by (intro exI[of _ s']) blast
qed

theorem TMC_Timer_Expiration_serves_witness:
  "\<exists>s'. TMC_Timer_Expiration (\<lambda>_ _ e. e) (\<lambda>_ e. e) (upd_tm (TMD_Timer_update (\<lambda>_. 0)) (upd_tm (TMD_Timer_Start_update (\<lambda>_. 30)) sample_tsys)) = Some s' \<and>
     tm_expirations (apps s' 5) = 1 \<and> expiry (tm (tk s')) (app_tm 5) = 10"
proof -
  let ?s = "upd_tm (TMD_Timer_update (\<lambda>_. 0)) (upd_tm (TMD_Timer_Start_update (\<lambda>_. 30)) sample_tsys)"
  have 1: "elapsed_all (tm (tk ?s))" by (simp add: sample_tsys_def elapsed_all_def timers_inv_def)
  have 2: "\<forall>p. tm_reschedule_time (apps ?s p) < 4294967296" by (simp add: sample_tsys_def unused_timer_def)
  have a: "active ?s = {app_tm 5}" "expiry (tm (tk ?s)) (app_tm 5) = 0" "tm_reschedule_time (apps ?s 5) = 10"
    "tm_expirations (apps ?s 5) = 0"
    by (simp_all add: sample_tsys_def unused_timer_def app_tm_def expiry_def elapsed_ticks_def)
  from TMC_Timer_Expiration_serves[OF 1 2, of "\<lambda>_ _ e. e" "\<lambda>_ e. e"] obtain s' where
    s': "TMC_Timer_Expiration (\<lambda>_ _ e. e) (\<lambda>_ e. e) ?s = Some s'"
    "active s' = {u \<in> active ?s. expiry (tm (tk ?s)) u = 0 \<longrightarrow> odd u \<and> tm_reschedule_time (apps ?s (u div 2)) \<noteq> 0}"
    "\<forall>u \<in> active s'. expiry (tm (tk s')) u = (if expiry (tm (tk ?s)) u = 0
        then tm_reschedule_time (apps ?s (u div 2)) else expiry (tm (tk ?s)) u)"
    "\<forall>p. apps s' p = (if app_tm p \<in> active ?s \<and> expiry (tm (tk ?s)) (app_tm p) = 0
        then (apps ?s p)\<lparr>tm_expirations := inc32 (tm_expirations (apps ?s p)),
                        tm_enabled := (tm_reschedule_time (apps ?s p) \<noteq> 0)\<rparr> else apps ?s p)" by blast
  have "app_tm 5 \<in> active s'" unfolding s'(2) using a by simp
  then have "expiry (tm (tk s')) (app_tm 5) = 10" using s'(3) a(2,3) by simp
  moreover have "tm_expirations (apps s' 5) = 1"
    using s'(4)[rule_format, of 5] a(1,2,4) by (simp add: inc32_def)
  ultimately show ?thesis using s'(1) by blast
qed

end
