(* ===== verification/Queue.thy ===== *)
theory Queue
  imports Scheduler Common_Services
begin

text \<open>
  Message queues (\<open>quc_common.c\<close>, \<open>quc_delete.c\<close>, \<open>qus_front.c\<close>, \<open>qus_broadcast.c\<close>, \<open>qus_reset.c\<close>).

  A queue control block holds a circular area of 32-bit words; pointers into the area are offsets from
  \<open>qu_start\<close>. Queues are objects of a store, addressed by pointers with 0 for \<open>NU_NULL\<close>. A suspension block
  lives on the stack of the suspended task, so blocks are addressed by tasks, and the two rings of a queue
  (\<open>qu_suspension_list\<close>, \<open>qu_urgent_list\<close>) are lists of tasks: the theory \<open>Common_Services\<close> shows that the list
  services implement the list operations used here. A message is the sequence of words at the caller's
  pointer, \<open>None\<close> for a null pointer.

  An operation returns the new state, the status (\<open>None\<close> when the caller has been suspended; the status is
  then the \<open>qu_return_status\<close> its block holds when it runs again) and whether control goes to the system.
  This theory holds the operations and the refinement of the circular area to a list of messages; the theory
  \<open>Queue_Services\<close> holds what the services do to waiting tasks.
\<close>

section \<open>Data\<close>

type_synonym words = "32 word list"

record qcb =
  qu_id_valid :: bool
  qu_fixed_size :: bool
  qu_fifo_suspend :: bool
  qu_queue_size :: nat
  qu_messages :: nat
  qu_message_size :: nat
  qu_available :: nat
  qu_area :: words
  qu_end :: nat
  qu_read :: nat
  qu_write :: nat
  qu_tasks_waiting :: nat
  qu_urgent_list :: "tid list"
  qu_suspension_list :: "tid list"

record qu_suspend =
  qs_priority :: nat
  qs_queue :: addr
  qs_message_area :: words
  qs_message_size :: nat
  qs_actual_size :: nat
  qs_return_status :: status

record qsys =
  queues :: "addr \<Rightarrow> qcb"
  QUD_Created_Queues_List :: "addr list"
  QUD_Total_Queues :: nat
  blocks :: "tid \<Rightarrow> qu_suspend"
  kern :: kernel

definition upd_q :: "addr \<Rightarrow> (qcb \<Rightarrow> qcb) \<Rightarrow> qsys \<Rightarrow> qsys" where
  "upd_q qp f s = s\<lparr>queues := (queues s)(qp := f (queues s qp))\<rparr>"

definition upd_block :: "tid \<Rightarrow> (qu_suspend \<Rightarrow> qu_suspend) \<Rightarrow> qsys \<Rightarrow> qsys" where
  "upd_block t f s = s\<lparr>blocks := (blocks s)(t := f (blocks s t))\<rparr>"

lemma upd_q_simps [simp]:
  "queues (upd_q qp f s) = (queues s)(qp := f (queues s qp))"
  "QUD_Created_Queues_List (upd_q qp f s) = QUD_Created_Queues_List s"
  "QUD_Total_Queues (upd_q qp f s) = QUD_Total_Queues s"
  "blocks (upd_q qp f s) = blocks s" "kern (upd_q qp f s) = kern s"
  by (simp_all add: upd_q_def)

lemma upd_block_simps [simp]:
  "blocks (upd_block t f s) = (blocks s)(t := f (blocks s t))"
  "QUD_Created_Queues_List (upd_block t f s) = QUD_Created_Queues_List s"
  "QUD_Total_Queues (upd_block t f s) = QUD_Total_Queues s"
  "queues (upd_block t f s) = queues s" "kern (upd_block t f s) = kern s"
  by (simp_all add: upd_block_def)

section \<open>The circular area\<close>

text \<open>Copying words to an offset of the area (\<open>memcpy\<close>), and wrapping a pointer that has reached \<open>qu_end\<close>.\<close>

definition write_words :: "words \<Rightarrow> nat \<Rightarrow> words \<Rightarrow> words" where
  "write_words area p ws = take p area @ ws @ drop (p + length ws) area"

definition read_words :: "words \<Rightarrow> nat \<Rightarrow> nat \<Rightarrow> words" where
  "read_words area p n = take n (drop p area)"

definition wrap_ptr :: "qcb \<Rightarrow> nat \<Rightarrow> nat" where
  "wrap_ptr q p = (if p \<ge> qu_end q then 0 else p)"

text \<open>Placing a message at the write pointer, as \<open>NU_Send_To_Queue\<close> and \<open>NU_Broadcast_To_Queue\<close> do.\<close>

definition put_message :: "nat \<Rightarrow> words \<Rightarrow> qcb \<Rightarrow> qcb" where
  "put_message sz message q =
    (if qu_fixed_size q then
       q\<lparr>qu_area := write_words (qu_area q) (qu_write q) (take sz message),
         qu_write := wrap_ptr q (qu_write q + sz),
         qu_available := sub32 (qu_available q) sz,
         qu_messages := inc32 (qu_messages q)\<rparr>
     else
       (let area = (qu_area q)[qu_write q := of_nat sz];
            destination = wrap_ptr q (qu_write q + 1);
            copy_size = qu_end q - destination;
            (area', destination') =
              (if copy_size \<ge> sz then
                 (write_words area destination (take sz message), destination + sz)
               else
                 (write_words (write_words area destination (take copy_size message)) 0
                    (take (sz - copy_size) (drop copy_size message)), sz - copy_size))
        in q\<lparr>qu_area := area', qu_write := wrap_ptr q destination',
             qu_available := sub32 (dec32 (qu_available q)) sz,
             qu_messages := inc32 (qu_messages q)\<rparr>))"

text \<open>
  Placing the message of a suspended sender, as the loop of \<open>NU_Receive_From_Queue\<close> does. In the wrapped case
  the second \<open>memcpy\<close> has the start of the queue area as its source and as its destination, so the rest of the
  message is not copied.
\<close>

definition put_suspended :: "nat \<Rightarrow> words \<Rightarrow> qcb \<Rightarrow> qcb" where
  "put_suspended sz message q =
    (if qu_fixed_size q then
       q\<lparr>qu_area := write_words (qu_area q) (qu_write q) (take sz message),
         qu_write := wrap_ptr q (qu_write q + sz),
         qu_available := sub32 (qu_available q) sz,
         qu_messages := inc32 (qu_messages q)\<rparr>
     else
       (let area = (qu_area q)[qu_write q := of_nat sz];
            destination = wrap_ptr q (qu_write q + 1);
            copy_size = qu_end q - destination;
            (area', destination') =
              (if copy_size \<ge> sz then
                 (write_words area destination (take sz message), destination + sz)
               else
                 (let area1 = write_words area destination (take copy_size message)
                  in (write_words area1 0 (read_words area1 0 (sz - copy_size)), sz - copy_size)))
        in q\<lparr>qu_area := area', qu_write := wrap_ptr q destination',
             qu_available := sub32 (dec32 (qu_available q)) sz,
             qu_messages := inc32 (qu_messages q)\<rparr>))"

text \<open>Placing a message before the read pointer; \<open>i\<close> is the overhead computed by the caller.\<close>

definition put_front :: "nat \<Rightarrow> nat \<Rightarrow> words \<Rightarrow> qcb \<Rightarrow> qcb" where
  "put_front i sz message q =
    (if qu_fixed_size q then
       (let destination = (if qu_read q = 0 then qu_end q - sz else qu_read q - sz)
        in q\<lparr>qu_read := destination,
             qu_area := write_words (qu_area q) destination (take sz message),
             qu_available := sub32 (qu_available q) sz,
             qu_messages := inc32 (qu_messages q)\<rparr>)
     else
       (let copy_size = qu_read q;
            new_read = (if copy_size < sz + i then qu_end q - ((sz + i) - copy_size)
                        else qu_read q - (sz + i));
            area = (qu_area q)[new_read := of_nat sz];
            destination = wrap_ptr q (new_read + 1);
            copy_size' = qu_end q - destination;
            area' = (if copy_size' \<ge> sz then write_words area destination (take sz message)
                     else write_words (write_words area destination (take copy_size' message)) 0
                            (take (sz - copy_size') (drop copy_size' message)))
        in q\<lparr>qu_read := new_read, qu_area := area',
             qu_available := sub32 (dec32 (qu_available q)) sz,
             qu_messages := inc32 (qu_messages q)\<rparr>))"

text \<open>Taking the first message: the words copied to the caller and the size returned.\<close>

definition get_message :: "nat \<Rightarrow> qcb \<Rightarrow> words \<times> nat \<times> qcb" where
  "get_message sz q =
    (if qu_fixed_size q then
       (read_words (qu_area q) (qu_read q) sz, sz,
        q\<lparr>qu_read := wrap_ptr q (qu_read q + sz),
          qu_available := add32 (qu_available q) sz,
          qu_messages := dec32 (qu_messages q)\<rparr>)
     else
       (let sz = unat (qu_area q ! qu_read q);
            source = wrap_ptr q (qu_read q + 1);
            copy_size = qu_end q - source;
            (message, source') =
              (if copy_size \<ge> sz then (read_words (qu_area q) source sz, source + sz)
               else (read_words (qu_area q) source copy_size @ read_words (qu_area q) 0 (sz - copy_size),
                     sz - copy_size))
        in (message, sz,
            q\<lparr>qu_read := wrap_ptr q source',
              qu_available := add32 (inc32 (qu_available q)) sz,
              qu_messages := dec32 (qu_messages q)\<rparr>)))"

section \<open>Suspension and resumption\<close>

text \<open>The error checks shared by the three send services and the receive service.\<close>

definition message_checks :: "addr \<Rightarrow> words option \<Rightarrow> nat \<Rightarrow> nat \<Rightarrow> qsys \<Rightarrow> status" where
  "message_checks qp message sz suspend s =
    (let q = queues s qp
     in error_checks
       [(qp = NU_NULL, NU_INVALID_QUEUE),
        (\<not> qu_id_valid q, NU_INVALID_QUEUE),
        (message = None, NU_INVALID_POINTER),
        (sz = 0, NU_INVALID_SIZE),
        (qu_fixed_size q \<and> sz \<noteq> qu_message_size q, NU_INVALID_SIZE),
        (\<not> qu_fixed_size q \<and> sz > qu_message_size q, NU_INVALID_SIZE),
        (suspend \<noteq> 0 \<and> TCCE_Suspend_Error (kern s), NU_INVALID_SUSPEND)] NU_SUCCESS)"

text \<open>
  The extra words a message needs: none for fixed-size messages, one for the size of a variable-size one; when
  other senders wait, everything that is available, so that the message cannot overtake them.
\<close>

definition overhead :: "addr \<Rightarrow> nat \<Rightarrow> qsys \<Rightarrow> nat" where
  "overhead qp suspend s =
    (let q = queues s qp
     in if qu_fixed_size q then 0
        else if qu_suspension_list q \<noteq> [] \<and> qu_messages q \<noteq> 0 \<and>
                (qu_fifo_suspend q \<or> suspend = 0 \<or>
                 qs_priority (blocks s (hd (qu_suspension_list q)))
                   \<le> tc_priority (tcbs (kern s) (current_task (kern s))))
        then qu_available q
        else 1)"

text \<open>Filling the suspension block of the calling task and linking it into the suspension list.\<close>

definition enlist_caller :: "addr \<Rightarrow> words \<Rightarrow> nat \<Rightarrow> qsys \<Rightarrow> qsys" where
  "enlist_caller qp message sz s =
    (let t = current_task (kern s);
         fifo = qu_fifo_suspend (queues s qp);
         s1 = upd_block t (\<lambda>b. b\<lparr>qs_queue := qp, qs_message_area := message, qs_message_size := sz,
                qs_priority := (if fifo then qs_priority b else tc_priority (tcbs (kern s) t))\<rparr>) s
     in upd_q qp (\<lambda>q. q\<lparr>qu_tasks_waiting := inc32 (qu_tasks_waiting q),
          qu_suspension_list :=
            (if fifo then qu_suspension_list q @ [t]
             else priority_place (\<lambda>u. qs_priority (blocks s1 u)) t (qu_suspension_list q))\<rparr>) s1)"

text \<open>The same for the urgent list: the block becomes its head.\<close>

definition enlist_urgent :: "addr \<Rightarrow> words \<Rightarrow> nat \<Rightarrow> qsys \<Rightarrow> qsys" where
  "enlist_urgent qp message sz s =
    (let t = current_task (kern s)
     in upd_q qp (\<lambda>q. q\<lparr>qu_tasks_waiting := inc32 (qu_tasks_waiting q),
          qu_urgent_list := t # qu_urgent_list q\<rparr>)
        (upd_block t (\<lambda>b. b\<lparr>qs_queue := qp, qs_message_area := message, qs_message_size := sz\<rparr>) s))"

definition suspend_caller :: "nat \<Rightarrow> qsys \<Rightarrow> qsys \<times> bool" where
  "suspend_caller suspend s =
    (let t = current_task (kern s);
         (k, leaves, _) = TCC_Suspend_Task t NU_QUEUE_SUSPEND (Some t) suspend (kern s)
     in (s\<lparr>kern := k\<rparr>, leaves))"

definition resume_block :: "tid \<Rightarrow> qsys \<Rightarrow> qsys \<times> bool" where
  "resume_block t s =
    (let (k, preempt) = TCC_Resume_Task t NU_QUEUE_SUSPEND (kern s) in (s\<lparr>kern := k\<rparr>, preempt))"

text \<open>Handing a message to a task that waits for one.\<close>

definition hand_over :: "tid \<Rightarrow> words \<Rightarrow> nat \<Rightarrow> qsys \<Rightarrow> qsys" where
  "hand_over t message sz s =
     upd_block t (\<lambda>b. b\<lparr>qs_return_status := NU_SUCCESS,
       qs_message_area := take sz message @ drop sz (qs_message_area b),
       qs_actual_size := sz\<rparr>) s"

definition unlist_first :: "qcb \<Rightarrow> qcb" where
  "unlist_first q = q\<lparr>qu_tasks_waiting := dec32 (qu_tasks_waiting q),
     qu_suspension_list := tl (qu_suspension_list q)\<rparr>"

definition deliver_first :: "addr \<Rightarrow> words \<Rightarrow> nat \<Rightarrow> qsys \<Rightarrow> qsys \<times> bool" where
  "deliver_first qp message sz s =
    (let t = hd (qu_suspension_list (queues s qp))
     in resume_block t (hand_over t message sz (upd_q qp unlist_first s)))"

text \<open>The broadcast loop, over the tasks that wait.\<close>

fun deliver_all :: "addr \<Rightarrow> words \<Rightarrow> nat \<Rightarrow> tid list \<Rightarrow> qsys \<times> bool \<Rightarrow> qsys \<times> bool" where
  "deliver_all qp message sz [] (s, preempt) = (s, preempt)"
| "deliver_all qp message sz (t # ts) (s, preempt) =
    (let (s1, p) = resume_block t (hand_over t message sz (upd_q qp unlist_first s))
     in deliver_all qp message sz ts (s1, preempt \<or> p))"

text \<open>The loop of \<open>NU_Receive_From_Queue\<close> that places the messages of suspended senders as long as they fit.\<close>

fun release_senders :: "addr \<Rightarrow> tid list \<Rightarrow> qsys \<times> bool \<Rightarrow> qsys \<times> bool" where
  "release_senders qp [] (s, preempt) = (s, preempt)"
| "release_senders qp (t # ts) (s, preempt) =
    (let q = queues s qp; b = blocks s t; i = (if qu_fixed_size q then 0 else 1)
     in if add32 (qs_message_size b) i \<le> qu_available q then
          (let s1 = upd_q qp (\<lambda>q. unlist_first (put_suspended (qs_message_size b) (qs_message_area b) q)) s;
               (s2, p) = resume_block t (upd_block t (qs_return_status_update (\<lambda>_. NU_SUCCESS)) s1)
           in release_senders qp ts (s2, preempt \<or> p))
        else (s, preempt))"

section \<open>Services\<close>

definition NU_Create_Queue ::
    "addr \<Rightarrow> (addr \<times> words) \<Rightarrow> nat \<Rightarrow> bool option \<Rightarrow> nat \<Rightarrow> bool option \<Rightarrow> qsys \<Rightarrow> qsys \<times> status" where
  "NU_Create_Queue qp start queue_size fixed message_size fifo s =
    (let (start_address, area) = start;
         status = error_checks
           [(qp = NU_NULL \<or> qu_id_valid (queues s qp), NU_INVALID_QUEUE),
            (start_address = NU_NULL, NU_INVALID_MEMORY),
            (start_address mod 4 \<noteq> 0, NU_NOT_ALIGNED),
            (queue_size = 0 \<or> message_size = 0 \<or>
               add32 message_size (if fixed = Some False then 1 else 0) > queue_size, NU_INVALID_SIZE),
            (fixed = None, NU_INVALID_MESSAGE),
            (fifo = None, NU_INVALID_SUSPEND)] NU_SUCCESS
     in if status = NU_SUCCESS then
          (let used = (if fixed = Some True then (queue_size div message_size) * message_size else queue_size)
           in (upd_q qp (\<lambda>_. \<lparr>qu_id_valid = True, qu_fixed_size = (fixed = Some True),
                 qu_fifo_suspend = (fifo = Some True), qu_queue_size = queue_size, qu_messages = 0,
                 qu_message_size = message_size, qu_available = used, qu_area = area, qu_end = used,
                 qu_read = 0, qu_write = 0, qu_tasks_waiting = 0, qu_urgent_list = [],
                 qu_suspension_list = []\<rparr>)
                 (s\<lparr>QUD_Created_Queues_List := QUD_Created_Queues_List s @ [qp],
                    QUD_Total_Queues := inc32 (QUD_Total_Queues s)\<rparr>), NU_SUCCESS))
        else (s, status))"

definition NU_Send_To_Queue ::
    "addr \<Rightarrow> words option \<Rightarrow> nat \<Rightarrow> nat \<Rightarrow> qsys \<Rightarrow> qsys \<times> status option \<times> bool" where
  "NU_Send_To_Queue qp message sz suspend s =
    (let status = message_checks qp message sz suspend s; q = queues s qp
     in if status \<noteq> NU_SUCCESS then (s, Some status, False)
        else if qu_available q < add32 sz (overhead qp suspend s) then
          (if suspend \<noteq> 0 then
             (let (s1, leaves) = suspend_caller suspend (enlist_caller qp (the message) sz s)
              in (s1, None, leaves))
           else (s, Some NU_QUEUE_FULL, False))
        else if qu_suspension_list q \<noteq> [] \<and> qu_messages q = 0 then
          (let (s1, preempt) = deliver_first qp (the message) sz s in (s1, Some NU_SUCCESS, preempt))
        else (upd_q qp (put_message sz (the message)) s, Some NU_SUCCESS, False))"

definition NU_Send_To_Front_Of_Queue ::
    "addr \<Rightarrow> words option \<Rightarrow> nat \<Rightarrow> nat \<Rightarrow> qsys \<Rightarrow> qsys \<times> status option \<times> bool" where
  "NU_Send_To_Front_Of_Queue qp message sz suspend s =
    (let status = message_checks qp message sz suspend s; q = queues s qp; i = overhead qp suspend s
     in if status \<noteq> NU_SUCCESS then (s, Some status, False)
        else if qu_available q < add32 sz i then
          (if suspend \<noteq> 0 then
             (let (s1, leaves) = suspend_caller suspend (enlist_urgent qp (the message) sz s)
              in (s1, None, leaves))
           else (s, Some NU_QUEUE_FULL, False))
        else if qu_suspension_list q \<noteq> [] \<and> qu_messages q = 0 then
          (let (s1, preempt) = deliver_first qp (the message) sz s in (s1, Some NU_SUCCESS, preempt))
        else (upd_q qp (put_front i sz (the message)) s, Some NU_SUCCESS, False))"

definition NU_Broadcast_To_Queue ::
    "addr \<Rightarrow> words option \<Rightarrow> nat \<Rightarrow> nat \<Rightarrow> qsys \<Rightarrow> qsys \<times> status option \<times> bool" where
  "NU_Broadcast_To_Queue qp message sz suspend s =
    (let status = message_checks qp message sz suspend s; q = queues s qp
     in if status \<noteq> NU_SUCCESS then (s, Some status, False)
        else if qu_available q < add32 sz (overhead qp suspend s) then
          (if suspend \<noteq> 0 then
             (let (s1, leaves) = suspend_caller suspend (enlist_caller qp (the message) sz s)
              in (s1, None, leaves))
           else (s, Some NU_QUEUE_FULL, False))
        else if qu_suspension_list q \<noteq> [] \<and> qu_messages q = 0 then
          (let (s1, preempt) = deliver_all qp (the message) sz (qu_suspension_list q) (s, False)
           in (s1, Some NU_SUCCESS, preempt))
        else (upd_q qp (put_message sz (the message)) s, Some NU_SUCCESS, False))"

text \<open>The receive service also returns the words copied to the caller and \<open>*actual_size\<close>.\<close>

definition NU_Receive_From_Queue ::
    "addr \<Rightarrow> words option \<Rightarrow> nat \<Rightarrow> nat \<Rightarrow> qsys \<Rightarrow> qsys \<times> status option \<times> (words \<times> nat) option \<times> bool" where
  "NU_Receive_From_Queue qp message sz suspend s =
    (let status = message_checks qp message sz suspend s; q = queues s qp
     in if status \<noteq> NU_SUCCESS then (s, Some status, None, False)
        else if qu_urgent_list q \<noteq> [] then
          (let t = hd (qu_urgent_list q);
               b = blocks s t;
               s1 = upd_q qp (\<lambda>q. q\<lparr>qu_tasks_waiting := dec32 (qu_tasks_waiting q),
                      qu_urgent_list := tl (qu_urgent_list q)\<rparr>) s;
               (s2, preempt) = resume_block t (upd_block t (qs_return_status_update (\<lambda>_. NU_SUCCESS)) s1)
           in (s2, Some NU_SUCCESS, Some (take (qs_message_size b) (qs_message_area b), qs_message_size b), preempt))
        else if qu_messages q \<noteq> 0 then
          (let (words, actual_size, q1) = get_message sz q;
               (s2, preempt) = release_senders qp (qu_suspension_list q1) (upd_q qp (\<lambda>_. q1) s, False)
           in (s2, Some NU_SUCCESS, Some (words, actual_size), preempt))
        else if suspend \<noteq> 0 then
          (let (s1, leaves) = suspend_caller suspend (enlist_caller qp (the message) sz s)
           in (s1, None, None, leaves))
        else (s, Some NU_QUEUE_EMPTY, None, False))"

text \<open>
  Clean-up when a task times out or is terminated. The code removes the block from the urgent list whenever
  that list is not empty, whichever list the block is on: \<open>NU_Remove_From_List\<close> clears the given list when the
  node is alone on its ring, and leaves its head alone when the head is another node. \<open>None\<close>: the suspension
  list keeps a head that is no longer linked.
\<close>

definition QUC_Cleanup :: "tid \<Rightarrow> qsys \<Rightarrow> qsys option" where
  "QUC_Cleanup t s0 =
    (let s = upd_block t (qs_return_status_update (\<lambda>_. NU_TIMEOUT)) s0;
         qp = qs_queue (blocks s t);
         s1 = upd_q qp (qu_tasks_waiting_update dec32) s;
         q = queues s1 qp
     in if qu_urgent_list q \<noteq> [] then
          (if t \<in> set (qu_urgent_list q) then Some (upd_q qp (qu_urgent_list_update (remove1 t)) s1)
           else if qu_suspension_list q = [t] then Some (upd_q qp (qu_urgent_list_update (\<lambda>_. [])) s1)
           else if t \<in> set (tl (qu_suspension_list q)) then Some (upd_q qp (qu_suspension_list_update (remove1 t)) s1)
           else None)
        else Some (upd_q qp (qu_suspension_list_update (remove1 t)) s1))"

text \<open>The two loops of reset and delete: every waiting task returns with the given status.\<close>

definition lift_all :: "status \<Rightarrow> tid list \<Rightarrow> qsys \<Rightarrow> qsys \<times> bool" where
  "lift_all st ts s =
    (let (k, preempt) = resume_each TCC_Resume_Task NU_QUEUE_SUSPEND ts (kern s, False)
     in (s\<lparr>kern := k, blocks := (\<lambda>t. if t \<in> set ts then (blocks s t)\<lparr>qs_return_status := st\<rparr> else blocks s t)\<rparr>,
         preempt))"

definition NU_Reset_Queue :: "addr \<Rightarrow> qsys \<Rightarrow> qsys \<times> status \<times> bool" where
  "NU_Reset_Queue qp s =
    (let status = error_checks [(qp = NU_NULL, NU_INVALID_QUEUE),
           (\<not> qu_id_valid (queues s qp), NU_INVALID_QUEUE)] NU_SUCCESS
     in if status = NU_SUCCESS then
          (let q = queues s qp;
               (s1, preempt) = lift_all NU_QUEUE_RESET (qu_suspension_list q @ qu_urgent_list q) s
           in (upd_q qp (\<lambda>q. q\<lparr>qu_available := qu_end q, qu_messages := 0, qu_read := 0, qu_write := 0,
                  qu_tasks_waiting := 0, qu_suspension_list := [], qu_urgent_list := []\<rparr>) s1,
               NU_SUCCESS, preempt))
        else (s, status, False))"

definition NU_Delete_Queue :: "addr \<Rightarrow> qsys \<Rightarrow> qsys \<times> status \<times> bool" where
  "NU_Delete_Queue qp s =
    (let status = error_checks [(qp = NU_NULL, NU_INVALID_QUEUE),
           (\<not> qu_id_valid (queues s qp), NU_INVALID_QUEUE)] NU_SUCCESS
     in if status = NU_SUCCESS then
          (let q = queues s qp;
               s1 = (upd_q qp (qu_id_valid_update (\<lambda>_. False)) s)
                      \<lparr>QUD_Created_Queues_List := remove1 qp (QUD_Created_Queues_List s),
                       QUD_Total_Queues := dec32 (QUD_Total_Queues s)\<rparr>;
               (s2, preempt) = lift_all NU_QUEUE_DELETED (qu_suspension_list q @ qu_urgent_list q) s1
           in (s2, NU_SUCCESS, preempt))
        else (s, status, False))"

section \<open>Circular reading and writing\<close>

text \<open>Reference definitions: one word at a time, the position wrapped after each.\<close>

fun ring_write :: "words \<Rightarrow> nat \<Rightarrow> nat \<Rightarrow> words \<Rightarrow> words" where
  "ring_write area n p [] = area"
| "ring_write area n p (x # xs) = ring_write (area[p := x]) n ((p + 1) mod n) xs"

definition ring_read :: "words \<Rightarrow> nat \<Rightarrow> nat \<Rightarrow> nat \<Rightarrow> words" where
  "ring_read area n p k = map (\<lambda>i. area ! ((p + i) mod n)) [0..<k]"

lemma length_ring_write [simp]: "length (ring_write area n p ws) = length area"
  by (induction area n p ws rule: ring_write.induct) simp_all

lemma length_ring_read [simp]: "length (ring_read area n p k) = k"
  by (simp add: ring_read_def)

lemma mod_shift_neq:
  fixes p j n :: nat
  assumes "p < n" "0 < j" "j < n"
  shows "(p + j) mod n \<noteq> p"
proof (cases "p + j < n")
  case True
  then show ?thesis using assms by simp
next
  case False
  then have "(p + j) mod n = p + j - n" using assms by (simp add: mod_if)
  then show ?thesis using assms False by linarith
qed

lemma ring_write_nth:
  assumes "p < n" "length ws \<le> n" "j < n" "n \<le> length area"
  shows "ring_write area n p ws ! ((p + j) mod n) = (if j < length ws then ws ! j else area ! ((p + j) mod n))"
  using assms
proof (induction ws arbitrary: area p j)
  case Nil
  then show ?case by simp
next
  case (Cons x xs)
  let ?p = "(p + 1) mod n"
  have IH: "ring_write (area[p := x]) n ?p xs ! ((?p + i) mod n) =
      (if i < length xs then xs ! i else area[p := x] ! ((?p + i) mod n))" if "i < n" for i
    using Cons.prems that by (intro Cons.IH) auto
  show ?case
  proof (cases j)
    case 0
    have "(?p + (n - 1)) mod n = (p + 1 + (n - 1)) mod n" by (rule mod_add_left_eq)
    also have "p + 1 + (n - 1) = p + n" using Cons.prems by simp
    finally have "(?p + (n - 1)) mod n = p" using Cons.prems by simp
    then show ?thesis using IH[of "n - 1"] Cons.prems 0 by auto
  next
    case (Suc i)
    have e: "(?p + i) mod n = (p + j) mod n" using Suc by (simp add: mod_simps)
    have ne: "(p + j) mod n \<noteq> p" using Cons.prems Suc by (intro mod_shift_neq) auto
    show ?thesis using IH[of i] Cons.prems Suc e ne by auto
  qed
qed

lemma ring_read_write_same:
  assumes "p < n" "length ws \<le> n" "n \<le> length area"
  shows "ring_read (ring_write area n p ws) n p (length ws) = ws"
  using assms by (intro nth_equalityI) (simp_all add: ring_read_def ring_write_nth)

lemma ring_read_write_other:
  assumes "r < n" "w = (r + k) mod n" "k + length ws \<le> n" "n \<le> length area"
  shows "ring_read (ring_write area n w ws) n r k = ring_read area n r k"
proof (intro nth_equalityI)
  fix i assume "i < length (ring_read (ring_write area n w ws) n r k)"
  then have i: "i < k" by simp
  let ?j = "n - k + i"
  have j: "?j < n" "\<not> ?j < length ws" "k \<le> n" using i assms by auto
  have "(w + ?j) mod n = (r + k + ?j) mod n" using assms(2) by (simp add: mod_simps)
  also have "r + k + ?j = r + i + n" using j by simp
  finally have e: "(w + ?j) mod n = (r + i) mod n" by simp
  have wn: "w < n" using assms by simp
  have "ring_write area n w ws ! ((w + ?j) mod n) = area ! ((w + ?j) mod n)"
    using ring_write_nth[of w n ws ?j area] wn j assms by simp
  then show "ring_read (ring_write area n w ws) n r k ! i = ring_read area n r k ! i"
    using i e by (simp add: ring_read_def)
qed simp

lemma ring_read_add:
  "ring_read area n p (a + b) = ring_read area n p a @ ring_read area n ((p + a) mod n) b"
proof (intro nth_equalityI)
  fix i assume "i < length (ring_read area n p (a + b))"
  then have i: "i < a + b" by simp
  show "ring_read area n p (a + b) ! i = (ring_read area n p a @ ring_read area n ((p + a) mod n) b) ! i"
  proof (cases "i < a")
    case True
    then show ?thesis using i by (simp add: ring_read_def nth_append)
  next
    case False
    then obtain j where j: "i = a + j" "j < b" using i by (auto simp: not_less le_iff_add)
    have "((p + a) mod n + j) mod n = (p + a + j) mod n" by (rule mod_add_left_eq)
    then show ?thesis using j by (simp add: ring_read_def nth_append add.assoc)
  qed
qed simp

lemma ring_read_appendD:
  "ring_read area n p (length xs + length ys) = xs @ ys \<Longrightarrow>
   ring_read area n p (length xs) = xs \<and> ring_read area n ((p + length xs) mod n) (length ys) = ys"
  by (simp add: ring_read_add)

lemma ring_write_append:
  "p < n \<Longrightarrow> ring_write area n p (xs @ ys) = ring_write (ring_write area n p xs) n ((p + length xs) mod n) ys"
  by (induction xs arbitrary: area p) (simp_all add: mod_simps)

lemma write_words_Cons:
  assumes "p < length area"
  shows "write_words area p (x # xs) = write_words (area[p := x]) (Suc p) xs"
  using assms by (simp add: write_words_def take_Suc_conv_app_nth)

lemma write_words_ring:
  assumes "p + length ws \<le> n" "n \<le> length area"
  shows "write_words area p ws = ring_write area n p ws"
  using assms
proof (induction ws arbitrary: area p)
  case Nil
  then show ?case by (simp add: write_words_def)
next
  case (Cons x xs)
  have "write_words area p (x # xs) = write_words (area[p := x]) (Suc p) xs"
    using Cons.prems by (intro write_words_Cons) simp
  also have "\<dots> = ring_write (area[p := x]) n (Suc p) xs" using Cons by simp
  also have "\<dots> = ring_write (area[p := x]) n (Suc p mod n) xs"
    using Cons.prems by (cases xs) simp_all
  finally show ?case by simp
qed

lemma read_words_ring:
  assumes "p + k \<le> n" "n \<le> length area"
  shows "read_words area p k = ring_read area n p k"
  using assms by (intro nth_equalityI) (simp_all add: read_words_def ring_read_def)

lemma wrap_ptr_mod: "p \<le> qu_end q \<Longrightarrow> 0 < qu_end q \<Longrightarrow> wrap_ptr q p = p mod qu_end q"
  by (auto simp: wrap_ptr_def)

lemma split_ptr:
  assumes "d < qu_end q" "k \<le> qu_end q"
  shows "wrap_ptr q (if qu_end q - d \<ge> k then d + k else k - (qu_end q - d)) = (d + k) mod qu_end q"
proof (cases "d + k < qu_end q")
  case True
  then have "k \<le> qu_end q - d" by simp
  then show ?thesis using True by (simp add: wrap_ptr_def)
next
  case False
  then have "(d + k) mod qu_end q = d + k - qu_end q" using assms by (simp add: mod_if)
  moreover have "k - (qu_end q - d) = d + k - qu_end q" using assms by simp
  ultimately show ?thesis using False assms by (auto simp: wrap_ptr_def)
qed

text \<open>The two-part copy of the code is one circular write, its two-part read one circular read.\<close>

lemma split_write:
  assumes "d < n" "n \<le> length area" "length ws \<le> n"
  shows "(if n - d \<ge> length ws then write_words area d ws
          else write_words (write_words area d (take (n - d) ws)) 0 (drop (n - d) ws)) = ring_write area n d ws"
proof (cases "n - d \<ge> length ws")
  case True
  then show ?thesis using assms by (simp add: write_words_ring)
next
  case False
  let ?a = "take (n - d) ws" and ?b = "drop (n - d) ws"
  have l: "length ?a = n - d" "length ?b \<le> n" using False assms by auto
  have "ring_write area n d (?a @ ?b) = ring_write (ring_write area n d ?a) n ((d + length ?a) mod n) ?b"
    using assms by (intro ring_write_append)
  moreover have "(d + length ?a) mod n = 0" using l assms by simp
  moreover have "ring_write area n d ?a = write_words area d ?a"
    using l assms by (intro write_words_ring[symmetric]) auto
  moreover have "ring_write (write_words area d ?a) n 0 ?b = write_words (write_words area d ?a) 0 ?b"
    using l assms by (intro write_words_ring[symmetric]) (auto simp: write_words_def)
  ultimately show ?thesis using False by simp
qed

lemma split_read:
  assumes "d < n" "n \<le> length area" "k \<le> n"
  shows "(if n - d \<ge> k then read_words area d k
          else read_words area d (n - d) @ read_words area 0 (k - (n - d))) = ring_read area n d k"
proof (cases "n - d \<ge> k")
  case True
  then show ?thesis using assms by (simp add: read_words_ring)
next
  case False
  have "ring_read area n d ((n - d) + (k - (n - d))) =
      ring_read area n d (n - d) @ ring_read area n ((d + (n - d)) mod n) (k - (n - d))"
    by (rule ring_read_add)
  moreover have "read_words area d (n - d) = ring_read area n d (n - d)"
    using assms by (intro read_words_ring) auto
  moreover have "read_words area 0 (k - (n - d)) = ring_read area n 0 (k - (n - d))"
    using assms by (intro read_words_ring) auto
  ultimately show ?thesis using False assms by simp
qed

section \<open>The queue as a list of messages\<close>

definition encode :: "bool \<Rightarrow> words \<Rightarrow> words" where
  "encode fixed m = (if fixed then m else of_nat (length m) # m)"

definition contents :: "bool \<Rightarrow> words list \<Rightarrow> words" where
  "contents fixed msgs = concat (map (encode fixed) msgs)"

definition message_ok :: "qcb \<Rightarrow> words \<Rightarrow> bool" where
  "message_ok q m \<longleftrightarrow> m \<noteq> [] \<and> length m \<le> qu_message_size q \<and>
     (qu_fixed_size q \<longrightarrow> length m = qu_message_size q)"

text \<open>The static part: the area has its size and fits the address space, fixed-size messages never wrap.\<close>

definition q_shape :: "qcb \<Rightarrow> bool" where
  "q_shape q \<longleftrightarrow> 0 < qu_end q \<and> qu_end q \<le> length (qu_area q) \<and> qu_end q < 2 ^ 30 \<and> qu_read q < qu_end q \<and>
     0 < qu_message_size q \<and> qu_message_size q + (if qu_fixed_size q then 0 else 1) \<le> qu_end q \<and>
     (qu_fixed_size q \<longrightarrow> qu_message_size q dvd qu_end q \<and> qu_message_size q dvd qu_read q)"

definition q_rep :: "qcb \<Rightarrow> words list \<Rightarrow> bool" where
  "q_rep q msgs \<longleftrightarrow> q_shape q \<and> (\<forall>m \<in> set msgs. message_ok q m) \<and>
     (let ws = contents (qu_fixed_size q) msgs
      in length ws \<le> qu_end q \<and> ring_read (qu_area q) (qu_end q) (qu_read q) (length ws) = ws \<and>
         qu_write q = (qu_read q + length ws) mod qu_end q \<and> qu_available q = qu_end q - length ws) \<and>
     qu_messages q = length msgs"

lemma contents_simps [simp]:
  "contents fixed [] = []" "contents fixed (m # ms) = encode fixed m @ contents fixed ms"
  "contents fixed (ms @ ms') = contents fixed ms @ contents fixed ms'"
  by (simp_all add: contents_def)

lemma length_encode [simp]: "length (encode fixed m) = length m + (if fixed then 0 else 1)"
  by (simp add: encode_def)

lemma q_shape_lt:
  assumes "q_shape q"
  shows "qu_end q < 4294967295" "0 < qu_end q" "qu_read q < qu_end q"
  using assms by (simp_all add: q_shape_def)

lemma messages_le: "(\<And>m. m \<in> set msgs \<Longrightarrow> m \<noteq> []) \<Longrightarrow> length msgs \<le> length (contents fixed msgs)"
proof (induction msgs)
  case (Cons m ms)
  then have "1 \<le> length m" "length ms \<le> length (contents fixed ms)" by (auto simp: Suc_le_eq)
  then show ?case by simp
qed simp

lemma dvd_contents:
  assumes "\<forall>m \<in> set msgs. message_ok q m" "qu_fixed_size q"
  shows "qu_message_size q dvd length (contents True msgs)"
  using assms by (induction msgs) (auto simp: message_ok_def)

lemma room_at:
  fixes p d n :: nat
  assumes "d dvd p" "d dvd n" "p < n"
  shows "p + d \<le> n"
proof -
  obtain a b where ab: "p = d * a" "n = d * b" using assms by (auto elim!: dvdE)
  have "a < b" using assms ab by auto
  then have "d * (a + 1) \<le> d * b" by (intro mult_le_mono) auto
  then show ?thesis using ab by simp
qed

lemma dvd_write:
  assumes "q_rep q msgs" "qu_fixed_size q"
  shows "qu_message_size q dvd qu_write q"
  using assms dvd_contents[of msgs q] by (auto simp: q_rep_def q_shape_def Let_def intro!: dvd_mod)

subsection \<open>Placing a message\<close>

text \<open>What every placement at the write pointer has in common.\<close>

lemma q_rep_append:
  assumes rep: "q_rep q msgs" and ok: "message_ok q m"
    and room: "length (encode (qu_fixed_size q) m) \<le> qu_available q"
    and q': "q' = q\<lparr>qu_area := ring_write (qu_area q) (qu_end q) (qu_write q) (encode (qu_fixed_size q) m),
       qu_write := (qu_write q + length (encode (qu_fixed_size q) m)) mod qu_end q,
       qu_available := qu_available q - length (encode (qu_fixed_size q) m), qu_messages := qu_messages q + 1\<rparr>"
  shows "q_rep q' (msgs @ [m])"
proof -
  let ?n = "qu_end q" and ?ws = "contents (qu_fixed_size q) msgs" and ?e = "encode (qu_fixed_size q) m"
  have shape: "q_shape q" and av: "qu_available q = ?n - length ?ws" and le: "length ?ws \<le> ?n"
    and rd: "ring_read (qu_area q) ?n (qu_read q) (length ?ws) = ?ws"
    and wr: "qu_write q = (qu_read q + length ?ws) mod ?n"
    using rep by (simp_all add: q_rep_def Let_def)
  have n: "0 < ?n" "?n \<le> length (qu_area q)" "qu_read q < ?n" using shape by (simp_all add: q_shape_def)
  have e: "length ?ws + length ?e \<le> ?n" using room av le by linarith
  have "ring_read (qu_area q') ?n (qu_read q) (length ?ws + length ?e) = ?ws @ ?e"
    unfolding ring_read_add
    using ring_read_write_other[OF n(3) wr e n(2)] ring_read_write_same[of "qu_write q" ?n ?e "qu_area q"] n e wr rd
    by (simp add: q')
  moreover have "(qu_write q + length ?e) mod ?n = (qu_read q + (length ?ws + length ?e)) mod ?n"
    using wr by (metis add.assoc mod_add_left_eq)
  moreover have "q_shape q'" using shape by (simp add: q_shape_def q')
  moreover have "message_ok q' = message_ok q" by (simp add: fun_eq_iff message_ok_def q')
  ultimately show ?thesis using rep ok e av by (simp add: q_rep_def Let_def q')
qed

lemma put_message_eq:
  assumes rep: "q_rep q msgs" and ok: "message_ok q (take sz message)" and sz: "sz \<le> length message"
    and room: "sz + (if qu_fixed_size q then 0 else 1) \<le> qu_available q"
  shows "put_message sz message q =
    q\<lparr>qu_area := ring_write (qu_area q) (qu_end q) (qu_write q) (encode (qu_fixed_size q) (take sz message)),
      qu_write := (qu_write q + length (encode (qu_fixed_size q) (take sz message))) mod qu_end q,
      qu_available := qu_available q - length (encode (qu_fixed_size q) (take sz message)),
      qu_messages := qu_messages q + 1\<rparr>"
proof -
  let ?n = "qu_end q" and ?m = "take sz message"
  have shape: "q_shape q" and av: "qu_available q \<le> ?n" and w: "qu_write q < ?n"
    using rep q_shape_lt[of q] by (auto simp: q_rep_def Let_def)
  have n: "0 < ?n" "?n \<le> length (qu_area q)" "?n < 4294967295" using shape by (simp_all add: q_shape_def)
  have "length msgs \<le> length (contents (qu_fixed_size q) msgs)"
    using rep by (intro messages_le) (auto simp: q_rep_def message_ok_def)
  then have msg: "qu_messages q < 4294967295" using rep n by (simp add: q_rep_def Let_def)
  have lm: "length ?m = sz" using sz by simp
  show ?thesis
  proof (cases "qu_fixed_size q")
    case True
    have s: "sz = qu_message_size q" using ok True lm by (simp add: message_ok_def)
    have fits: "qu_write q + sz \<le> ?n"
      using room_at[OF dvd_write[OF rep True], of ?n] shape True w s by (simp add: q_shape_def)
    have "write_words (qu_area q) (qu_write q) ?m = ring_write (qu_area q) ?n (qu_write q) ?m"
      using fits n lm by (intro write_words_ring) auto
    then show ?thesis using True fits n room av msg lm
      by (simp add: put_message_def encode_def wrap_ptr_mod u32_simps)
  next
    case False
    let ?a = "(qu_area q)[qu_write q := of_nat sz]" and ?d = "(qu_write q + 1) mod ?n"
    have d: "wrap_ptr q (qu_write q + 1) = ?d" "?d < ?n" using w n by (simp_all add: wrap_ptr_mod)
    have szn: "sz < ?n" using room False av by simp
    have lm': "length message \<ge> sz" "take (?n - ?d) ?m = take (?n - ?d) message" if "?n - ?d < sz"
      using sz that by (simp_all add: min_def)
    have sp: "(if ?n - ?d \<ge> sz then write_words ?a ?d ?m
       else write_words (write_words ?a ?d (take (?n - ?d) ?m)) 0 (drop (?n - ?d) ?m)) = ring_write ?a ?n ?d ?m"
      using split_write[of ?d ?n ?a ?m] d n szn lm by simp
    have dr: "take (sz - (?n - ?d)) (drop (?n - ?d) message) = drop (?n - ?d) ?m" by (simp add: drop_take)
    have area: "(if ?n - ?d \<ge> sz then (write_words ?a ?d ?m, ?d + sz)
        else (write_words (write_words ?a ?d (take (?n - ?d) message)) 0
          (take (sz - (?n - ?d)) (drop (?n - ?d) message)), sz - (?n - ?d))) =
        (ring_write ?a ?n ?d ?m, if ?n - ?d \<ge> sz then ?d + sz else sz - (?n - ?d))"
      using sp lm' unfolding dr by (auto simp del: take_take)
    have ptr: "wrap_ptr q (if ?n - ?d \<ge> sz then ?d + sz else sz - (?n - ?d)) = (qu_write q + (sz + 1)) mod ?n"
    proof -
      have "(?d + sz) mod ?n = (qu_write q + 1 + sz) mod ?n" by (rule mod_add_left_eq)
      then show ?thesis using split_ptr[OF d(2), of sz] szn by (simp add: ac_simps)
    qed
    have ring: "ring_write (qu_area q) ?n (qu_write q) (encode False ?m) = ring_write ?a ?n ?d ?m"
      using lm by (simp add: encode_def)
    have avl: "sub32 (dec32 (qu_available q)) sz = qu_available q - (sz + 1)"
      using room False av n by (simp add: u32_simps)
    show ?thesis
      using False area ptr ring avl msg lm d(1) n
      by (simp add: put_message_def Let_def u32_simps del: One_nat_def)
  qed
qed

lemma put_message_rep:
  assumes "q_rep q msgs" "message_ok q (take sz message)" "sz \<le> length message"
    and "sz + (if qu_fixed_size q then 0 else 1) \<le> qu_available q"
  shows "q_rep (put_message sz message q) (msgs @ [take sz message])"
  using assms by (intro q_rep_append[OF assms(1,2) _ put_message_eq]) auto

subsection \<open>Placing a message at the front\<close>

lemma ring_read_take: "k \<le> k' \<Longrightarrow> ring_read area n p k = take k (ring_read area n p k')"
  using ring_read_add[of area n p k "k' - k"] by simp

lemma back_up:
  fixes r k n :: nat
  assumes "r < n" "k \<le> n" "0 < k"
  shows "(r + (n - k)) mod n = (if r < k then n - (k - r) else r - k)"
proof (cases "r < k")
  case True
  then show ?thesis using assms by simp
next
  case False
  then have "r + (n - k) = (r - k) + n" using assms by simp
  then have "(r + (n - k)) mod n = (r - k) mod n" by (metis mod_add_self2)
  then show ?thesis using False assms by simp
qed

lemma q_rep_Cons:
  assumes rep: "q_rep q msgs" and ok: "message_ok q m"
    and room: "length (encode (qu_fixed_size q) m) \<le> qu_available q"
    and r': "r' = (qu_read q + (qu_end q - length (encode (qu_fixed_size q) m))) mod qu_end q"
    and q': "q' = q\<lparr>qu_read := r', qu_area := ring_write (qu_area q) (qu_end q) r' (encode (qu_fixed_size q) m),
       qu_available := qu_available q - length (encode (qu_fixed_size q) m), qu_messages := qu_messages q + 1\<rparr>"
  shows "q_rep q' (m # msgs)"
proof -
  let ?n = "qu_end q" and ?ws = "contents (qu_fixed_size q) msgs" and ?e = "encode (qu_fixed_size q) m"
  have shape: "q_shape q" and av: "qu_available q = ?n - length ?ws" and le: "length ?ws \<le> ?n"
    and rd: "ring_read (qu_area q) ?n (qu_read q) (length ?ws) = ?ws"
    and wr: "qu_write q = (qu_read q + length ?ws) mod ?n"
    using rep by (simp_all add: q_rep_def Let_def)
  have n: "0 < ?n" "?n \<le> length (qu_area q)" "qu_read q < ?n" using shape by (simp_all add: q_shape_def)
  have e: "length ?ws + length ?e \<le> ?n" using room av le by linarith
  have r'n: "r' < ?n" using r' n by simp
  have "(r' + length ?e) mod ?n = (qu_read q + (?n - length ?e) + length ?e) mod ?n"
    unfolding r' by (rule mod_add_left_eq)
  also have "qu_read q + (?n - length ?e) + length ?e = qu_read q + ?n" using e by simp
  finally have rew: "(r' + length ?e) mod ?n = qu_read q" using n by simp
  have "ring_read (qu_area q') ?n (qu_read q) (?n - length ?e) = ring_read (qu_area q) ?n (qu_read q) (?n - length ?e)"
    using ring_read_write_other[OF n(3) r' _ n(2), of ?e] e by (simp add: q')
  then have keep: "ring_read (qu_area q') ?n (qu_read q) (length ?ws) = ?ws"
    using e rd ring_read_take[of "length ?ws" "?n - length ?e"] by (metis le_diff_conv2 add_leE)
  have "ring_read (qu_area q') ?n r' (length ?e + length ?ws) = ?e @ ?ws"
    unfolding ring_read_add rew keep
    using ring_read_write_same[of r' ?n ?e "qu_area q"] r'n n e by (simp add: q')
  moreover have "qu_write q = (r' + (length ?e + length ?ws)) mod ?n"
    using wr rew by (metis add.assoc mod_add_left_eq)
  moreover have "q_shape q'"
  proof -
    have "qu_message_size q dvd r'" if "qu_fixed_size q"
      using that shape ok unfolding r' by (auto simp: q_shape_def message_ok_def intro!: dvd_mod dvd_add dvd_diff_nat)
    then show ?thesis using shape r'n by (simp add: q_shape_def q')
  qed
  moreover have "message_ok q' = message_ok q" by (simp add: fun_eq_iff message_ok_def q')
  ultimately show ?thesis using rep ok e av by (simp add: q_rep_def Let_def q' ac_simps)
qed

lemma q_rep_bounds:
  assumes "q_rep q msgs"
  shows "0 < qu_end q" "qu_end q \<le> length (qu_area q)" "qu_end q < 4294967295" "qu_available q \<le> qu_end q"
    "qu_read q < qu_end q" "qu_write q < qu_end q" "qu_messages q < 4294967295"
proof -
  have "length msgs \<le> length (contents (qu_fixed_size q) msgs)"
    using assms by (intro messages_le) (auto simp: q_rep_def message_ok_def)
  then show "qu_messages q < 4294967295" using assms by (auto simp: q_rep_def q_shape_def Let_def)
qed (use assms in \<open>auto simp: q_rep_def q_shape_def Let_def\<close>)

lemma put_front_eq:
  assumes rep: "q_rep q msgs" and ok: "message_ok q (take sz message)" and sz: "sz \<le> length message"
    and room: "sz + i \<le> qu_available q" and i: "i = (if qu_fixed_size q then 0 else 1)"
    and r': "r' = (qu_read q + (qu_end q - (sz + i))) mod qu_end q"
  shows "put_front i sz message q =
    q\<lparr>qu_read := r',
      qu_area := ring_write (qu_area q) (qu_end q) r' (encode (qu_fixed_size q) (take sz message)),
      qu_available := qu_available q - (sz + i), qu_messages := qu_messages q + 1\<rparr>"
proof -
  let ?n = "qu_end q" and ?m = "take sz message"
  note b = q_rep_bounds[OF rep]
  have shape: "q_shape q" using rep by (simp add: q_rep_def)
  have lm: "length ?m = sz" and pos: "0 < sz" using sz ok by (auto simp: message_ok_def)
  have r'n: "r' < ?n" using r' b by simp
  have r'eq: "r' = (if qu_read q < sz + i then ?n - ((sz + i) - qu_read q) else qu_read q - (sz + i))"
    unfolding r' using b room pos by (intro back_up) auto
  show ?thesis
  proof (cases "qu_fixed_size q")
    case True
    have s: "sz = qu_message_size q" using ok True lm by (simp add: message_ok_def)
    have dv: "sz dvd ?n" "sz dvd qu_read q" "sz dvd r'"
      using shape True room s unfolding r' by (auto simp: q_shape_def i intro!: dvd_mod dvd_add dvd_diff_nat)
    have "qu_read q < sz \<longleftrightarrow> qu_read q = 0" using dv(2) pos by (auto dest: nat_dvd_not_less)
    then have d: "(if qu_read q = 0 then ?n - sz else qu_read q - sz) = r'" using r'eq True by (auto simp: i)
    have fits: "r' + sz \<le> ?n" using room_at[OF dv(3) dv(1) r'n] .
    have "write_words (qu_area q) r' ?m = ring_write (qu_area q) ?n r' ?m"
      using fits b lm by (intro write_words_ring) auto
    then show ?thesis using True d room b by (simp add: put_front_def encode_def i u32_simps)
  next
    case False
    let ?a = "(qu_area q)[r' := of_nat sz]" and ?d = "(r' + 1) mod ?n"
    have d: "wrap_ptr q (r' + 1) = ?d" "?d < ?n" using r'n b by (simp_all add: wrap_ptr_mod)
    have szn: "sz < ?n" using room False b i by simp
    have sp: "(if ?n - ?d \<ge> sz then write_words ?a ?d ?m
       else write_words (write_words ?a ?d (take (?n - ?d) ?m)) 0 (drop (?n - ?d) ?m)) = ring_write ?a ?n ?d ?m"
      using split_write[of ?d ?n ?a ?m] d b szn lm by simp
    have dr: "take (sz - (?n - ?d)) (drop (?n - ?d) message) = drop (?n - ?d) ?m" by (simp add: drop_take)
    have area: "(if ?n - ?d \<ge> sz then write_words ?a ?d ?m
        else write_words (write_words ?a ?d (take (?n - ?d) message)) 0
          (take (sz - (?n - ?d)) (drop (?n - ?d) message))) = ring_write ?a ?n ?d ?m"
      using sp unfolding dr by (auto simp: min_def)
    have ring: "ring_write (qu_area q) ?n r' (encode False ?m) = ring_write ?a ?n ?d ?m"
      using lm by (simp add: encode_def)
    have avl: "sub32 (dec32 (qu_available q)) sz = qu_available q - (sz + i)"
      using room False b i by (simp add: u32_simps)
    show ?thesis
      unfolding put_front_def Let_def r'eq[symmetric] d(1) area avl using False ring b by (simp add: u32_simps)
  qed
qed

lemma put_front_rep:
  assumes "q_rep q msgs" "message_ok q (take sz message)" "sz \<le> length message"
    and "sz + i \<le> qu_available q" "i = (if qu_fixed_size q then 0 else 1)"
  shows "q_rep (put_front i sz message q) (take sz message # msgs)"
proof -
  have l: "length (encode (qu_fixed_size q) (take sz message)) = sz + i" using assms by simp
  show ?thesis
    by (rule q_rep_Cons[OF assms(1,2) _ refl]) (use assms l put_front_eq[OF assms refl] in auto)
qed

subsection \<open>Taking a message\<close>

lemma get_message_eq:
  assumes rep: "q_rep q (m # msgs)" and sz: "qu_fixed_size q \<Longrightarrow> sz = qu_message_size q"
  shows "get_message sz q = (m, length m,
    q\<lparr>qu_read := (qu_read q + length (encode (qu_fixed_size q) m)) mod qu_end q,
      qu_available := qu_available q + length (encode (qu_fixed_size q) m), qu_messages := length msgs\<rparr>)"
proof -
  let ?n = "qu_end q" and ?r = "qu_read q" and ?ws = "contents (qu_fixed_size q) msgs"
  note b = q_rep_bounds[OF rep]
  have shape: "q_shape q" and ok: "message_ok q m" using rep by (auto simp: q_rep_def)
  have le: "length (encode (qu_fixed_size q) m) + length ?ws \<le> ?n"
    and av: "qu_available q = ?n - (length (encode (qu_fixed_size q) m) + length ?ws)"
    and rd: "ring_read (qu_area q) ?n ?r (length (encode (qu_fixed_size q) m) + length ?ws) =
      encode (qu_fixed_size q) m @ ?ws"
    using rep by (auto simp: q_rep_def Let_def)
  have rd1: "ring_read (qu_area q) ?n ?r (length (encode (qu_fixed_size q) m)) = encode (qu_fixed_size q) m"
    using ring_read_appendD[OF rd] by simp
  show ?thesis
  proof (cases "qu_fixed_size q")
    case True
    have s: "sz = length m" "sz = qu_message_size q" using ok True sz by (auto simp: message_ok_def)
    have fits: "?r + sz \<le> ?n" using room_at[of sz ?r ?n] shape True s b by (simp add: q_shape_def)
    have "read_words (qu_area q) ?r sz = m"
      using read_words_ring[OF fits b(2)] rd1 True s by (simp add: encode_def)
    then show ?thesis using True s fits b le av rep
      by (simp add: get_message_def wrap_ptr_mod u32_simps q_rep_def)
  next
    case False
    let ?d = "(?r + 1) mod ?n"
    have d: "wrap_ptr q (?r + 1) = ?d" "?d < ?n" using b by (simp_all add: wrap_ptr_mod)
    have mn: "length m + 1 \<le> ?n" using le False by simp
    have rd2: "ring_read (qu_area q) ?n ?r (1 + length m) = of_nat (length m) # m"
      using rd1 False by (simp add: encode_def)
    have rd3: "ring_read (qu_area q) ?n ?d (length m) = m"
      and hd: "ring_read (qu_area q) ?n ?r 1 = [of_nat (length m)]"
      using rd2 unfolding ring_read_add by (simp_all add: ring_read_def)
    have "qu_area q ! ?r = of_nat (length m)" using hd b by (simp add: ring_read_def)
    then have size: "unat (qu_area q ! ?r) = length m" using mn b by (simp add: unat_of_nat)
    have sp: "(if ?n - ?d \<ge> length m then read_words (qu_area q) ?d (length m)
        else read_words (qu_area q) ?d (?n - ?d) @ read_words (qu_area q) 0 (length m - (?n - ?d))) = m"
      using split_read[OF d(2) b(2), of "length m"] rd3 mn by simp
    have "(?d + length m) mod ?n = (?r + 1 + length m) mod ?n" by (rule mod_add_left_eq)
    then have ptr: "wrap_ptr q (if ?n - ?d \<ge> length m then ?d + length m else length m - (?n - ?d)) =
        (?r + (length m + 1)) mod ?n"
      using split_ptr[OF d(2), of "length m"] mn by (simp add: ac_simps)
    have parts: "(if ?n - ?d \<ge> length m then (read_words (qu_area q) ?d (length m), ?d + length m)
        else (read_words (qu_area q) ?d (?n - ?d) @ read_words (qu_area q) 0 (length m - (?n - ?d)),
              length m - (?n - ?d))) =
        (m, if ?n - ?d \<ge> length m then ?d + length m else length m - (?n - ?d))"
      using sp by (auto split: if_splits)
    have avl: "add32 (inc32 (qu_available q)) (length m) = qu_available q + (length m + 1)"
      using av le False b by (simp add: u32_simps)
    show ?thesis
      using False size parts ptr avl b d(1) rep
      by (simp add: get_message_def Let_def u32_simps q_rep_def del: One_nat_def)
  qed
qed

lemma get_message_rep:
  assumes rep: "q_rep q (m # msgs)" and sz: "qu_fixed_size q \<Longrightarrow> sz = qu_message_size q"
  shows "\<exists>q'. get_message sz q = (m, length m, q') \<and> q_rep q' msgs"
proof -
  let ?n = "qu_end q" and ?e = "encode (qu_fixed_size q) m" and ?ws = "contents (qu_fixed_size q) msgs"
  define q' where "q' = q\<lparr>qu_read := (qu_read q + length ?e) mod ?n, qu_available := qu_available q + length ?e,
    qu_messages := length msgs\<rparr>"
  have le: "length ?e + length ?ws \<le> ?n" and av: "qu_available q = ?n - (length ?e + length ?ws)"
    and rd: "ring_read (qu_area q) ?n (qu_read q) (length ?e + length ?ws) = ?e @ ?ws"
    and wr: "qu_write q = (qu_read q + (length ?e + length ?ws)) mod ?n"
    using rep by (auto simp: q_rep_def Let_def)
  have "ring_read (qu_area q) ?n ((qu_read q + length ?e) mod ?n) (length ?ws) = ?ws"
    using ring_read_appendD[OF rd] by simp
  moreover have "qu_write q = ((qu_read q + length ?e) mod ?n + length ?ws) mod ?n"
    using wr by (metis add.assoc mod_add_left_eq)
  moreover have "q_shape q'"
    using rep by (auto simp: q_rep_def q_shape_def q'_def message_ok_def intro!: dvd_mod)
  moreover have "message_ok q' = message_ok q" by (simp add: fun_eq_iff message_ok_def q'_def)
  ultimately have "q_rep q' msgs" using rep le av by (simp add: q_rep_def Let_def q'_def)
  then show ?thesis using get_message_eq[OF rep sz] by (simp add: q'_def)
qed

subsection \<open>Placing the message of a suspended sender\<close>

text \<open>
  The message that \<open>put_suspended\<close> really stores: the sender's, except that the part behind the wrap-around is
  what the start of the queue area happened to hold.
\<close>

definition stored_message :: "nat \<Rightarrow> words \<Rightarrow> qcb \<Rightarrow> words" where
  "stored_message sz message q =
    (let copy_size = qu_end q - wrap_ptr q (qu_write q + 1)
     in if qu_fixed_size q \<or> copy_size \<ge> sz then take sz message
        else take copy_size message @ take (sz - copy_size) (qu_area q))"

lemma take_write_words: "k \<le> p \<Longrightarrow> p \<le> length area \<Longrightarrow> take k (write_words area p ws) = take k area"
  by (simp add: write_words_def min_def)

lemma put_suspended_eq:
  assumes rep: "q_rep q msgs" and sz: "sz \<le> length message"
    and room: "sz + (if qu_fixed_size q then 0 else 1) \<le> qu_available q"
  shows "put_suspended sz message q = put_message sz (stored_message sz message q) q"
proof -
  note b = q_rep_bounds[OF rep]
  let ?n = "qu_end q" and ?d = "wrap_ptr q (qu_write q + 1)"
  let ?c = "?n - ?d" and ?a = "(qu_area q)[qu_write q := of_nat sz]"
  show ?thesis
  proof (cases "qu_fixed_size q \<or> sz \<le> ?c")
    case True
    then show ?thesis using sz by (auto simp: put_suspended_def put_message_def stored_message_def Let_def)
  next
    case False
    then have d: "?d = qu_write q + 1" using b room by (auto simp: wrap_ptr_def split: if_splits)
    have lc: "length (take ?c message) = ?c" and le: "sz - ?c \<le> qu_write q"
      using False d sz room b by auto
    let ?a1 = "write_words ?a ?d (take ?c message)"
    have "read_words ?a1 0 (sz - ?c) = take (sz - ?c) (qu_area q)"
      using le d b take_write_words[of "sz - ?c" ?d ?a "take ?c message"] by (simp add: read_words_def)
    then show ?thesis using False lc
      by (simp add: put_suspended_def put_message_def stored_message_def Let_def)
  qed
qed

lemma length_stored_message:
  assumes "q_rep q msgs" "sz \<le> length message" "sz + (if qu_fixed_size q then 0 else 1) \<le> qu_available q"
  shows "length (stored_message sz message q) = sz"
  using q_rep_bounds[OF assms(1)] assms(2,3) by (auto simp: stored_message_def Let_def)

lemma put_suspended_rep:
  assumes rep: "q_rep q msgs" and ok: "message_ok q (take sz message)" and sz: "sz \<le> length message"
    and room: "sz + (if qu_fixed_size q then 0 else 1) \<le> qu_available q"
  shows "q_rep (put_suspended sz message q) (msgs @ [stored_message sz message q])"
proof -
  have l: "length (stored_message sz message q) = sz" by (rule length_stored_message[OF rep sz room])
  have "message_ok q (stored_message sz message q)"
    using ok sz l by (auto simp: message_ok_def simp flip: length_greater_0_conv)
  then show ?thesis
    using put_message_rep[OF rep, of sz "stored_message sz message q"] l room
    by (simp add: put_suspended_eq[OF rep sz room])
qed

section \<open>The interface of a bounded FIFO queue\<close>

text \<open>Sequences of calls, for any operations that put and get.\<close>

fun put_all :: "('m \<Rightarrow> 'q \<Rightarrow> 'q) \<Rightarrow> 'm list \<Rightarrow> 'q \<Rightarrow> 'q" where
  "put_all put [] q = q"
| "put_all put (m # ms) q = put_all put ms (put m q)"

fun get_all :: "('q \<Rightarrow> 'm \<times> 'q) \<Rightarrow> nat \<Rightarrow> 'q \<Rightarrow> 'm list \<times> 'q" where
  "get_all get 0 q = ([], q)"
| "get_all get (Suc n) q = (let (m, q1) = get q; (ms, q2) = get_all get n q1 in (m # ms, q2))"

locale bounded_fifo =
  fixes rep :: "'q \<Rightarrow> 'm list \<Rightarrow> bool" and fits :: "'m list \<Rightarrow> 'q \<Rightarrow> bool"
    and put :: "'m \<Rightarrow> 'q \<Rightarrow> 'q" and get :: "'q \<Rightarrow> 'm \<times> 'q"
  assumes put_rep: "rep q ms \<Longrightarrow> fits (m # ms') q \<Longrightarrow> rep (put m q) (ms @ [m]) \<and> fits ms' (put m q)"
    and get_rep: "rep q (m # ms) \<Longrightarrow> fst (get q) = m \<and> rep (snd (get q)) ms"
begin

lemma put_all_rep: "rep q ms \<Longrightarrow> fits ms' q \<Longrightarrow> rep (put_all put ms' q) (ms @ ms')"
proof (induction ms' arbitrary: q ms)
  case (Cons m ms')
  then have "rep (put m q) (ms @ [m])" "fits ms' (put m q)" using put_rep by auto
  then show ?case using Cons.IH[of "put m q" "ms @ [m]"] by simp
qed simp

lemma get_all_rep:
  "rep q (ms @ ms') \<Longrightarrow> fst (get_all get (length ms) q) = ms \<and> rep (snd (get_all get (length ms) q)) ms'"
proof (induction ms arbitrary: q)
  case (Cons m ms)
  then have g: "fst (get q) = m" "rep (snd (get q)) (ms @ ms')" using get_rep[of q m "ms @ ms'"] by auto
  then show ?case using Cons.IH[OF g(2)] by (simp add: Let_def split_beta)
qed simp

lemma fifo_order:
  assumes "rep q ms" "fits ms' q"
  shows "fst (get_all get (length ms + length ms') (put_all put ms' q)) = ms @ ms' \<and>
    rep (snd (get_all get (length ms + length ms') (put_all put ms' q))) []"
  using get_all_rep[of "put_all put ms' q" "ms @ ms'" "[]"] put_all_rep[OF assms] by simp

end

end
