(* ===== verification/Queue_Services.thy ===== *)
theory Queue_Services
  imports Queue
begin

text \<open>
  What the queue services do, on every branch: the refinement of send and receive to operations on a list of
  messages, the tasks that wait on a queue, resetting and deleting a queue, time-outs, errors. The facts about
  waiting tasks rest on the interface \<open>thread_services\<close> of the theory \<open>Scheduler\<close>; the order of messages over
  sequences of calls on the interface \<open>bounded_fifo\<close>, interpreted here on the services themselves.
\<close>

section \<open>Checks and room\<close>

lemma message_checks_success:
  "message_checks qp message sz suspend s = NU_SUCCESS \<longleftrightarrow>
     qp \<noteq> NU_NULL \<and> qu_id_valid (queues s qp) \<and> message \<noteq> None \<and> sz \<noteq> 0 \<and>
     (qu_fixed_size (queues s qp) \<longrightarrow> sz = qu_message_size (queues s qp)) \<and>
     (\<not> qu_fixed_size (queues s qp) \<longrightarrow> sz \<le> qu_message_size (queues s qp)) \<and>
     (suspend \<noteq> 0 \<longrightarrow> \<not> TCCE_Suspend_Error (kern s))"
  by (auto simp: message_checks_def Let_def)

lemma message_ok_checks:
  assumes "message_checks qp (Some message) sz suspend s = NU_SUCCESS" "sz \<le> length message"
  shows "message_ok (queues s qp) (take sz message)"
  using assms by (auto simp: message_checks_success message_ok_def)

lemma overhead_idle:
  "qu_suspension_list (queues s qp) = [] \<or> qu_messages (queues s qp) = 0 \<Longrightarrow>
   overhead qp suspend s = (if qu_fixed_size (queues s qp) then 0 else 1)"
  by (auto simp: overhead_def Let_def)

lemma room_iff:
  assumes rep: "q_rep q msgs" and sz: "sz \<le> qu_message_size q" "sz \<le> length message"
  shows "\<not> qu_available q < add32 sz (if qu_fixed_size q then 0 else 1) \<longleftrightarrow>
    length (contents (qu_fixed_size q) (msgs @ [take sz message])) \<le> qu_end q"
proof -
  have n: "sz < 4294967295" "qu_available q = qu_end q - length (contents (qu_fixed_size q) msgs)"
    "length (contents (qu_fixed_size q) msgs) \<le> qu_end q"
    using rep sz by (auto simp: q_rep_def q_shape_def Let_def split: if_splits)
  then show ?thesis using sz by (auto simp: u32_simps min_def)
qed

lemma q_rep_lists [simp]:
  "q_rep (qu_tasks_waiting_update f q) msgs = q_rep q msgs"
  "q_rep (qu_suspension_list_update g q) msgs = q_rep q msgs"
  "q_rep (qu_urgent_list_update g q) msgs = q_rep q msgs"
  "q_rep (qu_id_valid_update h q) msgs = q_rep q msgs"
  by (simp_all add: q_rep_def q_shape_def message_ok_def)

lemma q_rep_unlist [simp]: "q_rep (unlist_first q) msgs = q_rep q msgs"
  by (simp add: unlist_first_def)

lemma q_rep_Nil_iff: "q_rep q msgs \<Longrightarrow> qu_messages q = 0 \<longleftrightarrow> msgs = []"
  by (simp add: q_rep_def)

lemma put_keeps [simp]:
  "qu_suspension_list (put_message sz m q) = qu_suspension_list q"
  "qu_urgent_list (put_message sz m q) = qu_urgent_list q"
  "qu_id_valid (put_message sz m q) = qu_id_valid q"
  "qu_fixed_size (put_message sz m q) = qu_fixed_size q"
  "qu_message_size (put_message sz m q) = qu_message_size q"
  "qu_fifo_suspend (put_message sz m q) = qu_fifo_suspend q"
  "qu_end (put_message sz m q) = qu_end q"
  by (simp_all add: put_message_def Let_def split_beta)

lemma put_suspended_keeps [simp]:
  "qu_suspension_list (put_suspended sz m q) = qu_suspension_list q"
  "qu_urgent_list (put_suspended sz m q) = qu_urgent_list q"
  "qu_id_valid (put_suspended sz m q) = qu_id_valid q"
  "qu_fixed_size (put_suspended sz m q) = qu_fixed_size q"
  "qu_message_size (put_suspended sz m q) = qu_message_size q"
  "qu_fifo_suspend (put_suspended sz m q) = qu_fifo_suspend q"
  "qu_end (put_suspended sz m q) = qu_end q"
  by (simp_all add: put_suspended_def Let_def split_beta)

lemma put_front_keeps [simp]:
  "qu_suspension_list (put_front i sz m q) = qu_suspension_list q"
  "qu_urgent_list (put_front i sz m q) = qu_urgent_list q"
  "qu_id_valid (put_front i sz m q) = qu_id_valid q"
  "qu_fixed_size (put_front i sz m q) = qu_fixed_size q"
  "qu_message_size (put_front i sz m q) = qu_message_size q"
  "qu_end (put_front i sz m q) = qu_end q"
  by (simp_all add: put_front_def Let_def split_beta)

lemma get_keeps [simp]:
  "qu_suspension_list (snd (snd (get_message sz q))) = qu_suspension_list q"
  "qu_urgent_list (snd (snd (get_message sz q))) = qu_urgent_list q"
  "qu_id_valid (snd (snd (get_message sz q))) = qu_id_valid q"
  "qu_fixed_size (snd (snd (get_message sz q))) = qu_fixed_size q"
  "qu_message_size (snd (snd (get_message sz q))) = qu_message_size q"
  "qu_end (snd (snd (get_message sz q))) = qu_end q"
  by (simp_all add: get_message_def Let_def split_beta)

lemma unlist_first_keeps [simp]:
  "qu_suspension_list (unlist_first q) = tl (qu_suspension_list q)"
  "qu_urgent_list (unlist_first q) = qu_urgent_list q"
  "qu_id_valid (unlist_first q) = qu_id_valid q"
  "qu_fixed_size (unlist_first q) = qu_fixed_size q"
  "qu_message_size (unlist_first q) = qu_message_size q"
  "qu_messages (unlist_first q) = qu_messages q"
  "qu_available (unlist_first q) = qu_available q"
  "qu_end (unlist_first q) = qu_end q"
  by (simp_all add: unlist_first_def)

lemma message_ok_cong:
  "qu_fixed_size q' = qu_fixed_size q \<Longrightarrow> qu_message_size q' = qu_message_size q \<Longrightarrow> message_ok q' = message_ok q"
  by (simp add: fun_eq_iff message_ok_def)

section \<open>Suspending and resuming on a queue\<close>

lemma resume_block_simps [simp]:
  "queues (fst (resume_block t s)) = queues s" "blocks (fst (resume_block t s)) = blocks s"
  "kern (fst (resume_block t s)) = fst (TCC_Resume_Task t NU_QUEUE_SUSPEND (kern s))"
  "snd (resume_block t s) = snd (TCC_Resume_Task t NU_QUEUE_SUSPEND (kern s))"
  by (simp_all add: resume_block_def split_beta)

lemma suspend_caller_simps [simp]:
  "queues (fst (suspend_caller suspend s)) = queues s" "blocks (fst (suspend_caller suspend s)) = blocks s"
  "kern (fst (suspend_caller suspend s)) =
     fst (TCC_Suspend_Task (current_task (kern s)) NU_QUEUE_SUSPEND (Some (current_task (kern s))) suspend (kern s))"
  by (simp_all add: suspend_caller_def split_beta Let_def)

lemma enlist_caller_simps [simp]:
  "kern (enlist_caller qp message sz s) = kern s"
  "qp' \<noteq> qp \<Longrightarrow> queues (enlist_caller qp message sz s) qp' = queues s qp'"
  "u \<noteq> current_task (kern s) \<Longrightarrow> blocks (enlist_caller qp message sz s) u = blocks s u"
  "qs_message_area (blocks (enlist_caller qp message sz s) (current_task (kern s))) = message"
  "qs_message_size (blocks (enlist_caller qp message sz s) (current_task (kern s))) = sz"
  "qs_queue (blocks (enlist_caller qp message sz s) (current_task (kern s))) = qp"
  "q_rep (queues (enlist_caller qp message sz s) qp) msgs = q_rep (queues s qp) msgs"
  "set (qu_suspension_list (queues (enlist_caller qp message sz s) qp)) =
     insert (current_task (kern s)) (set (qu_suspension_list (queues s qp)))"
  "qu_urgent_list (queues (enlist_caller qp message sz s) qp) = qu_urgent_list (queues s qp)"
  by (auto simp: enlist_caller_def Let_def)

lemma enlist_urgent_simps [simp]:
  "kern (enlist_urgent qp message sz s) = kern s"
  "qp' \<noteq> qp \<Longrightarrow> queues (enlist_urgent qp message sz s) qp' = queues s qp'"
  "u \<noteq> current_task (kern s) \<Longrightarrow> blocks (enlist_urgent qp message sz s) u = blocks s u"
  "qs_message_area (blocks (enlist_urgent qp message sz s) (current_task (kern s))) = message"
  "qs_message_size (blocks (enlist_urgent qp message sz s) (current_task (kern s))) = sz"
  "q_rep (queues (enlist_urgent qp message sz s) qp) msgs = q_rep (queues s qp) msgs"
  "qu_urgent_list (queues (enlist_urgent qp message sz s) qp) =
     current_task (kern s) # qu_urgent_list (queues s qp)"
  "qu_suspension_list (queues (enlist_urgent qp message sz s) qp) = qu_suspension_list (queues s qp)"
  by (simp_all add: enlist_urgent_def Let_def)

section \<open>Releasing suspended senders\<close>

definition sender_msg :: "qsys \<Rightarrow> tid \<Rightarrow> words" where
  "sender_msg s t = take (qs_message_size (blocks s t)) (qs_message_area (blocks s t))"

definition sender_ok :: "qcb \<Rightarrow> qsys \<Rightarrow> tid \<Rightarrow> bool" where
  "sender_ok q s t \<longleftrightarrow> qs_message_size (blocks s t) \<le> length (qs_message_area (blocks s t)) \<and>
     message_ok q (sender_msg s t)"

text \<open>
  The loop in one step: the first \<open>k\<close> senders are released, where the next one, if any, does not fit. Their
  messages (for fixed-size messages exactly those they asked to send) stand behind the others, and thread
  control has resumed them in this order.
\<close>

lemma release_senders_effect:
  assumes "q_rep (queues s qp) msgs" "qu_suspension_list (queues s qp) = ts" "distinct ts"
    and "\<forall>t \<in> set ts. sender_ok (queues s qp) s t"
  shows "\<exists>k xs s' p'. release_senders qp ts (s, p) = (s', p') \<and> k \<le> length ts \<and> length xs = k \<and>
    q_rep (queues s' qp) (msgs @ xs) \<and> qu_suspension_list (queues s' qp) = drop k ts \<and>
    (qu_fixed_size (queues s qp) \<longrightarrow> xs = map (sender_msg s) (take k ts)) \<and>
    (k < length ts \<longrightarrow> length (contents (qu_fixed_size (queues s qp)) (msgs @ xs @ [sender_msg s (ts ! k)])) >
       qu_end (queues s qp)) \<and>
    (kern s', p') = resume_each TCC_Resume_Task NU_QUEUE_SUSPEND (take k ts) (kern s, p) \<and>
    blocks s' = (\<lambda>t. if t \<in> set (take k ts) then (blocks s t)\<lparr>qs_return_status := NU_SUCCESS\<rparr> else blocks s t) \<and>
    (\<forall>qp'. qp' \<noteq> qp \<longrightarrow> queues s' qp' = queues s qp')"
  using assms
proof (induction ts arbitrary: s msgs p)
  case Nil
  then show ?case by (intro exI[of _ 0] exI[of _ "[]"] exI[of _ s] exI[of _ p]) simp
next
  case (Cons t ts)
  let ?q = "queues s qp" and ?b = "blocks s t"
  let ?i = "if qu_fixed_size ?q then 0 else 1 :: nat"
  have ok: "qs_message_size ?b \<le> length (qs_message_area ?b)" "message_ok ?q (sender_msg s t)"
    using Cons.prems(4) by (auto simp: sender_ok_def)
  have le: "qs_message_size ?b \<le> qu_message_size ?q" using ok by (auto simp: message_ok_def sender_msg_def)
  show ?case
  proof (cases "add32 (qs_message_size ?b) ?i \<le> qu_available ?q")
    case False
    then have "length (contents (qu_fixed_size ?q) (msgs @ [sender_msg s t])) > qu_end ?q"
      using room_iff[OF Cons.prems(1) le ok(1)] by (simp add: sender_msg_def)
    then show ?thesis
      using False Cons.prems by (intro exI[of _ 0] exI[of _ "[]"] exI[of _ s] exI[of _ p]) (simp add: Let_def)
  next
    case True
    define x where "x = stored_message (qs_message_size ?b) (qs_message_area ?b) ?q"
    define s1 where "s1 = upd_q qp (\<lambda>q. unlist_first (put_suspended (qs_message_size ?b) (qs_message_area ?b) q)) s"
    define s2 where "s2 = fst (resume_block t (upd_block t (qs_return_status_update (\<lambda>_. NU_SUCCESS)) s1))"
    define p2 where "p2 = snd (TCC_Resume_Task t NU_QUEUE_SUSPEND (kern s))"
    have room: "qs_message_size ?b + ?i \<le> qu_available ?q"
    proof -
      have "qs_message_size ?b + ?i < 4294967296"
        using le Cons.prems(1) by (auto simp: q_rep_def q_shape_def split: if_splits)
      then show ?thesis using True by (simp add: u32_simps)
    qed
    have rep2: "q_rep (queues s2 qp) (msgs @ [x])"
      using put_suspended_rep[OF Cons.prems(1) ok(2)[unfolded sender_msg_def] ok(1)] room
      by (simp add: s2_def s1_def x_def)
    have lst: "qu_suspension_list (queues s2 qp) = ts" using Cons.prems(2) by (simp add: s2_def s1_def)
    have same: "sender_msg s2 u = sender_msg s u" "message_ok (queues s2 qp) = message_ok ?q"
      "qu_fixed_size (queues s2 qp) = qu_fixed_size ?q" "qu_end (queues s2 qp) = qu_end ?q" for u
      by (auto simp: sender_msg_def s2_def s1_def intro!: message_ok_cong)
    have oks: "\<forall>u \<in> set ts. sender_ok (queues s2 qp) s2 u"
      using Cons.prems(3,4) same by (auto simp: sender_ok_def s2_def s1_def)
    obtain k xs s' p' where IH: "release_senders qp ts (s2, p \<or> p2) = (s', p')" "k \<le> length ts" "length xs = k"
      "q_rep (queues s' qp) ((msgs @ [x]) @ xs)" "qu_suspension_list (queues s' qp) = drop k ts"
      "qu_fixed_size (queues s2 qp) \<longrightarrow> xs = map (sender_msg s2) (take k ts)"
      "k < length ts \<longrightarrow> length (contents (qu_fixed_size (queues s2 qp)) ((msgs @ [x]) @ xs @ [sender_msg s2 (ts ! k)])) >
         qu_end (queues s2 qp)"
      "(kern s', p') = resume_each TCC_Resume_Task NU_QUEUE_SUSPEND (take k ts) (kern s2, p \<or> p2)"
      "blocks s' = (\<lambda>u. if u \<in> set (take k ts) then (blocks s2 u)\<lparr>qs_return_status := NU_SUCCESS\<rparr> else blocks s2 u)"
      "\<forall>qp'. qp' \<noteq> qp \<longrightarrow> queues s' qp' = queues s2 qp'"
      using Cons.IH[OF rep2 lst _ oks, of "p \<or> p2"] Cons.prems(3) by auto
    have step: "release_senders qp (t # ts) (s, p) = (s', p')"
      using True IH(1) by (simp add: Let_def split_beta s1_def s2_def p2_def)
    have fixed: "qu_fixed_size ?q \<longrightarrow> x = sender_msg s t" by (simp add: x_def stored_message_def sender_msg_def)
    have st: "blocks s' = (\<lambda>u. if u \<in> set (take (Suc k) (t # ts)) then (blocks s u)\<lparr>qs_return_status := NU_SUCCESS\<rparr>
        else blocks s u)"
      using Cons.prems(3) by (auto simp: IH(9) fun_eq_iff s2_def s1_def dest: in_set_takeD)
    have res: "(kern s', p') = resume_each TCC_Resume_Task NU_QUEUE_SUSPEND (take (Suc k) (t # ts)) (kern s, p)"
      using IH(8) by (simp add: s2_def s1_def p2_def split_beta Let_def)
    show ?thesis
      by (rule exI[of _ "Suc k"], rule exI[of _ "x # xs"], rule exI[of _ s'], rule exI[of _ p'])
        (use step IH(2-7,10) res fixed st same in \<open>auto simp: s2_def s1_def\<close>)
  qed
qed

section \<open>Handing messages to waiting receivers\<close>

definition handed :: "words \<Rightarrow> nat \<Rightarrow> qu_suspend \<Rightarrow> qu_suspend" where
  "handed message sz b = b\<lparr>qs_return_status := NU_SUCCESS,
     qs_message_area := take sz message @ drop sz (qs_message_area b), qs_actual_size := sz\<rparr>"

lemma hand_over_simps [simp]:
  "queues (hand_over t message sz s) = queues s" "kern (hand_over t message sz s) = kern s"
  "blocks (hand_over t message sz s) = (blocks s)(t := handed message sz (blocks s t))"
  by (simp_all add: hand_over_def handed_def)

lemma deliver_all_effect:
  assumes "qu_suspension_list (queues s qp) = ts" "distinct ts"
  shows "\<exists>s' p'. deliver_all qp message sz ts (s, p) = (s', p') \<and>
    (kern s', p') = resume_each TCC_Resume_Task NU_QUEUE_SUSPEND ts (kern s, p) \<and>
    blocks s' = (\<lambda>t. if t \<in> set ts then handed message sz (blocks s t) else blocks s t) \<and>
    queues s' = (queues s)(qp := (unlist_first ^^ length ts) (queues s qp))"
  using assms
proof (induction ts arbitrary: s p)
  case Nil
  then show ?case by simp
next
  case (Cons t ts)
  define s1 where "s1 = fst (resume_block t (hand_over t message sz (upd_q qp unlist_first s)))"
  define p1 where "p1 = snd (TCC_Resume_Task t NU_QUEUE_SUSPEND (kern s))"
  have "qu_suspension_list (queues s1 qp) = ts" using Cons.prems(1) by (simp add: s1_def)
  from Cons.IH[OF this, of "p \<or> p1"] Cons.prems(2) obtain s' p' where
    IH: "deliver_all qp message sz ts (s1, p \<or> p1) = (s', p')"
    "(kern s', p') = resume_each TCC_Resume_Task NU_QUEUE_SUSPEND ts (kern s1, p \<or> p1)"
    "blocks s' = (\<lambda>t. if t \<in> set ts then handed message sz (blocks s1 t) else blocks s1 t)"
    "queues s' = (queues s1)(qp := (unlist_first ^^ length ts) (queues s1 qp))"
    by (auto simp del: fun_upd_apply)
  have "deliver_all qp message sz (t # ts) (s, p) = (s', p')"
    using IH(1) by (simp add: s1_def p1_def split_beta Let_def)
  moreover have "(kern s', p') = resume_each TCC_Resume_Task NU_QUEUE_SUSPEND (t # ts) (kern s, p)"
    using IH(2) by (simp add: s1_def p1_def split_beta Let_def)
  moreover have "blocks s' = (\<lambda>u. if u \<in> set (t # ts) then handed message sz (blocks s u) else blocks s u)"
    using Cons.prems(2) by (auto simp: IH(3) s1_def fun_eq_iff)
  moreover have "queues s' = (queues s)(qp := (unlist_first ^^ length (t # ts)) (queues s qp))"
    by (simp add: IH(4) s1_def funpow_swap1)
  ultimately show ?case by blast
qed

lemma unlist_first_funpow:
  "qu_suspension_list ((unlist_first ^^ n) q) = drop n (qu_suspension_list q)"
  "q_rep ((unlist_first ^^ n) q) msgs = q_rep q msgs"
  by (induction n) (simp_all add: drop_Suc tl_drop)

text \<open>Tasks that wait on a queue in a state thread control can be in.\<close>

definition all_wait :: "tid list \<Rightarrow> qsys \<Rightarrow> bool" where
  "all_wait ts s \<longleftrightarrow> sched_inv (kern s) \<and> distinct ts \<and> (\<forall>t \<in> set ts. waits_for t NU_QUEUE_SUSPEND (kern s))"

lemma all_wait_resumed:
  assumes "all_wait ts s" "(k, p') = resume_each TCC_Resume_Task NU_QUEUE_SUSPEND ts (kern s, p)"
  shows "sched_inv k \<and> (\<forall>t \<in> set ts. is_ready t k) \<and> (\<forall>u. u \<notin> set ts \<longrightarrow> is_ready u k = is_ready u (kern s))"
proof -
  have "k = fst (resume_each TCC_Resume_Task NU_QUEUE_SUSPEND ts (kern s, p))" using assms(2) by (metis fst_conv)
  then show ?thesis
    using tc.resume_each_all[of "kern s" ts NU_QUEUE_SUSPEND p] assms(1) by (simp add: all_wait_def)
qed

lemma all_wait_take: "all_wait ts s \<Longrightarrow> all_wait (take k ts) s"
  by (auto simp: all_wait_def dest: in_set_takeD)

lemma all_wait_others:
  assumes "all_wait ts s" "(k, p') = resume_each TCC_Resume_Task NU_QUEUE_SUSPEND (take n ts) (kern s, p)"
  shows "\<forall>u. u \<notin> set (take n ts) \<longrightarrow> tcbs k u = tcbs (kern s) u"
    and "\<forall>u \<in> set (drop n ts). waits_for u NU_QUEUE_SUSPEND k"
proof -
  have k: "k = fst (resume_each TCC_Resume_Task NU_QUEUE_SUSPEND (take n ts) (kern s, p))" using assms(2) by (metis fst_conv)
  show o: "\<forall>u. u \<notin> set (take n ts) \<longrightarrow> tcbs k u = tcbs (kern s) u" by (simp add: k resume_each_others)
  have disj: "set (take n ts) \<inter> set (drop n ts) = {}"
    using assms(1) by (simp add: all_wait_def set_take_disj_set_drop_if_distinct)
  show "\<forall>u \<in> set (drop n ts). waits_for u NU_QUEUE_SUSPEND k"
  proof (intro ballI)
    fix u assume u: "u \<in> set (drop n ts)"
    then have "u \<notin> set (take n ts)" "waits_for u NU_QUEUE_SUSPEND (kern s)"
      using disj assms(1) by (auto simp: all_wait_def dest: in_set_dropD)
    then show "waits_for u NU_QUEUE_SUSPEND k" using o by (simp add: waits_for_def)
  qed
qed

lemma lift_all_simps [simp]:
  "queues (fst (lift_all st ts s)) = queues s"
  "blocks (fst (lift_all st ts s)) = (\<lambda>t. if t \<in> set ts then (blocks s t)\<lparr>qs_return_status := st\<rparr> else blocks s t)"
  "kern (fst (lift_all st ts s)) = fst (resume_each TCC_Resume_Task NU_QUEUE_SUSPEND ts (kern s, False))"
  "QUD_Created_Queues_List (fst (lift_all st ts s)) = QUD_Created_Queues_List s"
  by (simp_all add: lift_all_def split_beta Let_def)

section \<open>Properties of send and receive\<close>

text \<open>
  C4. Sending refines appending to the list of messages, for fixed-size and variable-size messages and
  wherever the message wraps around the end of the area: with no task waiting, if the message fits, the queue
  afterwards holds the old messages and, last, the new one, and nothing else has changed; if it does not fit,
  either nothing changes and \<open>NU_QUEUE_FULL\<close> is returned, or the caller is suspended with its message recorded
  and the queued messages are kept.
\<close>

theorem NU_Send_To_Queue_refines:
  assumes rep: "q_rep (queues s qp) msgs" and chk: "message_checks qp (Some message) sz suspend s = NU_SUCCESS"
    and sz: "sz \<le> length message" and none: "qu_suspension_list (queues s qp) = []"
  shows "if length (contents (qu_fixed_size (queues s qp)) (msgs @ [take sz message])) \<le> qu_end (queues s qp)
    then \<exists>q'. NU_Send_To_Queue qp (Some message) sz suspend s =
        (s\<lparr>queues := (queues s)(qp := q')\<rparr>, Some NU_SUCCESS, False) \<and> q_rep q' (msgs @ [take sz message])
    else if suspend = 0 then NU_Send_To_Queue qp (Some message) sz suspend s = (s, Some NU_QUEUE_FULL, False)
    else \<exists>s' leaves. NU_Send_To_Queue qp (Some message) sz suspend s = (s', None, leaves) \<and>
        q_rep (queues s' qp) msgs \<and> qu_suspension_list (queues s' qp) = [current_task (kern s)] \<and>
        sender_msg s' (current_task (kern s)) = take sz message"
proof -
  let ?q = "queues s qp"
  have szm: "sz \<le> qu_message_size ?q" using chk by (auto simp: message_checks_success)
  note fit = room_iff[OF rep szm sz] 
  have ov: "overhead qp x s = (if qu_fixed_size ?q then 0 else 1)" for x using none by (simp add: overhead_idle)
  have put: "q_rep (put_message sz message ?q) (msgs @ [take sz message])"
    if "\<not> qu_available ?q < add32 sz (if qu_fixed_size ?q then 0 else 1)"
  proof (rule put_message_rep[OF rep message_ok_checks[OF chk sz] sz])
    show "sz + (if qu_fixed_size ?q then 0 else 1) \<le> qu_available ?q"
      using that szm rep by (auto simp: u32_simps q_rep_def q_shape_def split: if_splits)
  qed
  have lst: "qu_suspension_list (queues (enlist_caller qp message sz s) qp) = [current_task (kern s)]"
    using none by (simp add: enlist_caller_def Let_def)
  show ?thesis
  proof (cases "qu_available ?q < add32 sz (if qu_fixed_size ?q then 0 else 1)")
    case True
    then show ?thesis using fit chk rep lst
      by (cases "suspend = 0") (simp_all add: NU_Send_To_Queue_def Let_def split_beta sender_msg_def ov)
  next
    case False
    then have "NU_Send_To_Queue qp (Some message) sz suspend s =
        (s\<lparr>queues := (queues s)(qp := put_message sz message ?q)\<rparr>, Some NU_SUCCESS, False)"
      using chk none by (simp add: NU_Send_To_Queue_def Let_def upd_q_def ov)
    then show ?thesis using fit False put[OF False] by auto
  qed
qed

text \<open>
  C6. Sending to the front refines prepending: with no task waiting, a message that fits becomes the first of
  the queue, also when it is placed across the lower end of the area; one that does not fit changes nothing, or
  suspends the caller at the head of the urgent list.
\<close>

theorem NU_Send_To_Front_Of_Queue_refines:
  assumes rep: "q_rep (queues s qp) msgs" and chk: "message_checks qp (Some message) sz suspend s = NU_SUCCESS"
    and sz: "sz \<le> length message" and none: "qu_suspension_list (queues s qp) = []"
  shows "if length (contents (qu_fixed_size (queues s qp)) (msgs @ [take sz message])) \<le> qu_end (queues s qp)
    then \<exists>q'. NU_Send_To_Front_Of_Queue qp (Some message) sz suspend s =
        (s\<lparr>queues := (queues s)(qp := q')\<rparr>, Some NU_SUCCESS, False) \<and> q_rep q' (take sz message # msgs)
    else if suspend = 0
    then NU_Send_To_Front_Of_Queue qp (Some message) sz suspend s = (s, Some NU_QUEUE_FULL, False)
    else \<exists>s' leaves. NU_Send_To_Front_Of_Queue qp (Some message) sz suspend s = (s', None, leaves) \<and>
        q_rep (queues s' qp) msgs \<and>
        qu_urgent_list (queues s' qp) = current_task (kern s) # qu_urgent_list (queues s qp) \<and>
        sender_msg s' (current_task (kern s)) = take sz message"
proof -
  let ?q = "queues s qp"
  have szm: "sz \<le> qu_message_size ?q" using chk by (auto simp: message_checks_success)
  note fit = room_iff[OF rep szm sz]
  have ov: "overhead qp x s = (if qu_fixed_size ?q then 0 else 1)" for x using none by (simp add: overhead_idle)
  show ?thesis
  proof (cases "qu_available ?q < add32 sz (if qu_fixed_size ?q then 0 else 1)")
    case True
    then show ?thesis using fit chk rep
      by (cases "suspend = 0") (simp_all add: NU_Send_To_Front_Of_Queue_def Let_def split_beta sender_msg_def ov)
  next
    case False
    have "sz + (if qu_fixed_size ?q then 0 else 1) \<le> qu_available ?q"
      using False szm rep by (auto simp: u32_simps q_rep_def q_shape_def split: if_splits)
    then have "q_rep (put_front (overhead qp suspend s) sz message ?q) (take sz message # msgs)"
      unfolding ov by (intro put_front_rep[OF rep message_ok_checks[OF chk sz] sz]) simp_all
    moreover have "NU_Send_To_Front_Of_Queue qp (Some message) sz suspend s =
        (s\<lparr>queues := (queues s)(qp := put_front (overhead qp suspend s) sz message ?q)\<rparr>, Some NU_SUCCESS, False)"
      using chk none False[folded ov[of suspend]] by (simp add: NU_Send_To_Front_Of_Queue_def Let_def upd_q_def)
    ultimately show ?thesis using fit False by auto
  qed
qed

text \<open>
  C5. Receiving refines taking the first message: with valid arguments, a queue that holds messages, and no
  sender suspended by a send to the front (the message of such an urgent sender would be returned first), the
  first message is returned unchanged with its size, and room is given to the suspended senders in the order
  of their list, as long as the next one fits; each of them is suspended on the queue, with a message and a
  size that the send service accepts. The released senders are ready and return \<open>NU_SUCCESS\<close>; the others
  stay suspended, and the control blocks and suspension blocks of all other tasks are unchanged. The queue then
  holds the remaining messages followed by one for each released sender: for fixed-size messages, those of the
  senders.
\<close>

theorem NU_Receive_From_Queue_refines:
  assumes rep: "q_rep (queues s qp) (m # msgs)" and chk: "message_checks qp dest sz suspend s = NU_SUCCESS"
    and urgent: "qu_urgent_list (queues s qp) = []" and wait: "all_wait (qu_suspension_list (queues s qp)) s"
    and senders: "\<forall>t \<in> set (qu_suspension_list (queues s qp)). sender_ok (queues s qp) s t"
  shows "\<exists>s' p k xs. NU_Receive_From_Queue qp dest sz suspend s = (s', Some NU_SUCCESS, Some (m, length m), p) \<and>
    q_rep (queues s' qp) (msgs @ xs) \<and> length xs = k \<and>
    (qu_fixed_size (queues s qp) \<longrightarrow> xs = map (sender_msg s) (take k (qu_suspension_list (queues s qp)))) \<and>
    qu_suspension_list (queues s' qp) = drop k (qu_suspension_list (queues s qp)) \<and>
    (k < length (qu_suspension_list (queues s qp)) \<longrightarrow>
       qu_end (queues s qp) < length (contents (qu_fixed_size (queues s qp))
         (msgs @ xs @ [sender_msg s (qu_suspension_list (queues s qp) ! k)]))) \<and>
    sched_inv (kern s') \<and>
    (\<forall>t \<in> set (take k (qu_suspension_list (queues s qp))).
       is_ready t (kern s') \<and> qs_return_status (blocks s' t) = NU_SUCCESS) \<and>
    (\<forall>t \<in> set (drop k (qu_suspension_list (queues s qp))). waits_for t NU_QUEUE_SUSPEND (kern s')) \<and>
    (\<forall>t. t \<notin> set (take k (qu_suspension_list (queues s qp))) \<longrightarrow>
       tcbs (kern s') t = tcbs (kern s) t \<and> blocks s' t = blocks s t)"
proof -
  let ?q = "queues s qp" and ?ts = "qu_suspension_list (queues s qp)"
  have "qu_fixed_size ?q \<Longrightarrow> sz = qu_message_size ?q" using chk by (simp add: message_checks_success)
  from get_message_rep[OF rep this] obtain q' where
    g: "get_message sz ?q = (m, length m, q')" and rep': "q_rep q' msgs" by auto
  have keep: "qu_suspension_list q' = ?ts" "qu_fixed_size q' = qu_fixed_size ?q" "qu_message_size q' = qu_message_size ?q"
    "qu_end q' = qu_end ?q"
    using get_keeps[of sz ?q] g by simp_all
  let ?s = "upd_q qp (\<lambda>_. q') s"
  have smsg: "sender_msg ?s = sender_msg s" by (simp add: fun_eq_iff sender_msg_def)
  have oks: "\<forall>t \<in> set ?ts. sender_ok (queues ?s qp) ?s t"
    using senders smsg message_ok_cong[OF keep(2,3)] by (simp add: sender_ok_def)
  have dist: "distinct ?ts" using wait by (simp add: all_wait_def)
  have pre: "q_rep (queues ?s qp) msgs" "qu_suspension_list (queues ?s qp) = ?ts" using rep' keep by simp_all
  note eff = release_senders_effect[OF pre dist oks, of False]
  obtain k xs s' p' where r0: "release_senders qp ?ts (?s, False) = (s', p') \<and> k \<le> length ?ts \<and> length xs = k \<and>
      q_rep (queues s' qp) (msgs @ xs) \<and> qu_suspension_list (queues s' qp) = drop k ?ts \<and>
      (qu_fixed_size (queues ?s qp) \<longrightarrow> xs = map (sender_msg ?s) (take k ?ts)) \<and>
      (k < length ?ts \<longrightarrow> length (contents (qu_fixed_size (queues ?s qp)) (msgs @ xs @ [sender_msg ?s (?ts ! k)])) >
         qu_end (queues ?s qp)) \<and>
      (kern s', p') = resume_each TCC_Resume_Task NU_QUEUE_SUSPEND (take k ?ts) (kern ?s, False) \<and>
      blocks s' = (\<lambda>t. if t \<in> set (take k ?ts) then (blocks ?s t)\<lparr>qs_return_status := NU_SUCCESS\<rparr> else blocks ?s t)"
    using eff by blast
  have r: "release_senders qp ?ts (?s, False) = (s', p')" "length xs = k"
      "q_rep (queues s' qp) (msgs @ xs)" "qu_suspension_list (queues s' qp) = drop k ?ts"
      "qu_fixed_size ?q \<longrightarrow> xs = map (sender_msg s) (take k ?ts)"
      "k < length ?ts \<longrightarrow> qu_end ?q < length (contents (qu_fixed_size ?q) (msgs @ xs @ [sender_msg s (?ts ! k)]))"
      "(kern s', p') = resume_each TCC_Resume_Task NU_QUEUE_SUSPEND (take k ?ts) (kern s, False)"
      "blocks s' = (\<lambda>t. if t \<in> set (take k ?ts) then (blocks s t)\<lparr>qs_return_status := NU_SUCCESS\<rparr> else blocks s t)"
    using r0 keep by (simp_all add: smsg cong: if_cong)
  have "NU_Receive_From_Queue qp dest sz suspend s = (s', Some NU_SUCCESS, Some (m, length m), p')"
    using chk urgent rep r(1) by (simp add: NU_Receive_From_Queue_def Let_def g q_rep_def keep)
  moreover note all_wait_resumed[OF all_wait_take[OF wait] r(7)]
  moreover note others = all_wait_others[OF wait r(7)]
  ultimately show ?thesis using r(2-6) by (intro exI[of _ s'] exI[of _ p'] exI[of _ k] exI[of _ xs]) (simp add: r(8))
qed

text \<open>
  The message of a suspended sender can be damaged. When a variable-size message is placed by the receive
  service and wraps around the end of the area, only the words before the wrap-around are the sender's: the
  rest is what the beginning of the queue area held before, while the sender is told \<open>NU_SUCCESS\<close>.
\<close>

theorem queue_wrap_damages_message:
  assumes rep: "q_rep q msgs" and var: "\<not> qu_fixed_size q"
    and ok: "message_ok q (take sz message)" "sz \<le> length message"
    and room: "sz + 1 \<le> qu_available q" and wraps: "qu_write q + 1 < qu_end q" "qu_end q < qu_write q + 1 + sz"
  shows "let c = qu_end q - (qu_write q + 1)
    in q_rep (put_suspended sz message q) (msgs @ [take c message @ take (sz - c) (qu_area q)])"
proof -
  note b = q_rep_bounds[OF rep]
  have d: "wrap_ptr q (qu_write q + 1) = qu_write q + 1"
    using wraps room b by (auto simp: wrap_ptr_def)
  then have "stored_message sz message q =
      take (qu_end q - (qu_write q + 1)) message @ take (sz - (qu_end q - (qu_write q + 1))) (qu_area q)"
    using var wraps b by (auto simp: stored_message_def Let_def)
  then show ?thesis using put_suspended_rep[OF rep ok] var room by (simp add: Let_def)
qed

section \<open>Properties about waiting tasks\<close>

lemma room_empty:
  assumes "q_rep q []" "sz \<le> qu_message_size q"
  shows "\<not> qu_available q < add32 sz (if qu_fixed_size q then 0 else 1)"
  using assms by (auto simp: q_rep_def q_shape_def u32_simps split: if_splits)

text \<open>
  C7. A message sent while tasks wait for one goes to the first of them and not into the queue: the task becomes
  ready, its buffer starts with the message, its receive call returns \<open>NU_SUCCESS\<close> and the size; the other
  waiting tasks keep their order and go on waiting.
\<close>

theorem NU_Send_To_Queue_hands_over:
  assumes rep: "q_rep (queues s qp) []" and chk: "message_checks qp (Some message) sz suspend s = NU_SUCCESS"
    and sz: "sz \<le> length message" and lst: "qu_suspension_list (queues s qp) = t # ts" and wait: "all_wait (t # ts) s"
  shows "\<exists>s' p. NU_Send_To_Queue qp (Some message) sz suspend s = (s', Some NU_SUCCESS, p) \<and>
    q_rep (queues s' qp) [] \<and> qu_suspension_list (queues s' qp) = ts \<and>
    sched_inv (kern s') \<and> is_ready t (kern s') \<and> (\<forall>u \<in> set ts. waits_for u NU_QUEUE_SUSPEND (kern s')) \<and>
    qs_return_status (blocks s' t) = NU_SUCCESS \<and> qs_actual_size (blocks s' t) = sz \<and>
    take sz (qs_message_area (blocks s' t)) = take sz message"
proof -
  have "sz \<le> qu_message_size (queues s qp)" using chk by (auto simp: message_checks_success)
  note room = room_empty[OF rep this]
  have m0: "qu_messages (queues s qp) = 0" using rep by (simp add: q_rep_def)
  let ?r = "deliver_first qp message sz s"
  have send: "NU_Send_To_Queue qp (Some message) sz suspend s = (fst ?r, Some NU_SUCCESS, snd ?r)"
    using room chk lst m0 by (simp add: NU_Send_To_Queue_def Let_def overhead_idle split_beta)
  have r: "kern (fst ?r) = fst (TCC_Resume_Task t NU_QUEUE_SUSPEND (kern s))"
    "q_rep (queues (fst ?r) qp) []" "qu_suspension_list (queues (fst ?r) qp) = ts"
    "blocks (fst ?r) t = handed message sz (blocks s t)"
    using rep lst by (simp_all add: deliver_first_def Let_def)
  have w: "sched_inv (kern s)" "waits_for t NU_QUEUE_SUSPEND (kern s)"
    "\<And>u. u \<in> set ts \<Longrightarrow> u \<noteq> t \<and> waits_for u NU_QUEUE_SUSPEND (kern s)" using wait by (auto simp: all_wait_def)
  have k: "sched_inv (kern (fst ?r))" "is_ready t (kern (fst ?r))"
    "\<And>u. u \<in> set ts \<Longrightarrow> waits_for u NU_QUEUE_SUSPEND (kern (fst ?r))"
    unfolding r(1) using tc.resume_inv[OF w(1,2)] tc.resume_ready[OF w(1,2)] tc.resume_others[OF w(1)] w(3) by blast+
  show ?thesis
    by (rule exI[of _ "fst ?r"], rule exI[of _ "snd ?r"]) (use send r k sz in \<open>simp add: handed_def\<close>)
qed

text \<open>
  A broadcast while tasks wait for a message hands it to every one of them: all become ready with the
  message in their buffers, the suspension list is empty and the queue itself is unchanged.
\<close>

theorem NU_Broadcast_To_Queue_reaches_all:
  assumes rep: "q_rep (queues s qp) []" and chk: "message_checks qp (Some message) sz suspend s = NU_SUCCESS"
    and sz: "sz \<le> length message" and some: "qu_suspension_list (queues s qp) \<noteq> []"
    and wait: "all_wait (qu_suspension_list (queues s qp)) s"
  shows "\<exists>s' p. NU_Broadcast_To_Queue qp (Some message) sz suspend s = (s', Some NU_SUCCESS, p) \<and>
    q_rep (queues s' qp) [] \<and> qu_suspension_list (queues s' qp) = [] \<and> sched_inv (kern s') \<and>
    (\<forall>t \<in> set (qu_suspension_list (queues s qp)). is_ready t (kern s') \<and>
       qs_return_status (blocks s' t) = NU_SUCCESS \<and> qs_actual_size (blocks s' t) = sz \<and>
       take sz (qs_message_area (blocks s' t)) = take sz message)"
proof -
  let ?ts = "qu_suspension_list (queues s qp)"
  have "sz \<le> qu_message_size (queues s qp)" using chk by (auto simp: message_checks_success)
  note room = room_empty[OF rep this]
  have m0: "qu_messages (queues s qp) = 0" using rep by (simp add: q_rep_def)
  have "distinct ?ts" using wait by (simp add: all_wait_def)
  from deliver_all_effect[OF refl this, of message sz False] obtain s' p' where
    d: "deliver_all qp message sz ?ts (s, False) = (s', p')"
    "(kern s', p') = resume_each TCC_Resume_Task NU_QUEUE_SUSPEND ?ts (kern s, False)"
    "blocks s' = (\<lambda>t. if t \<in> set ?ts then handed message sz (blocks s t) else blocks s t)"
    "queues s' = (queues s)(qp := (unlist_first ^^ length ?ts) (queues s qp))" by blast
  have "NU_Broadcast_To_Queue qp (Some message) sz suspend s = (s', Some NU_SUCCESS, p')"
    using room chk some m0 d(1) by (simp add: NU_Broadcast_To_Queue_def Let_def overhead_idle)
  moreover note all_wait_resumed[OF wait d(2)]
  ultimately show ?thesis
    using rep sz by (intro exI[of _ s'] exI[of _ p']) (simp add: d(3,4) unlist_first_funpow handed_def)
qed

text \<open>
  Resetting a queue empties it and lifts every suspension on it: all tasks of both lists become ready with
  the status \<open>NU_QUEUE_RESET\<close>, no other task changes between ready and not ready, both lists are empty and the
  whole area is available again.
\<close>

theorem NU_Reset_Queue_effect:
  assumes "qp \<noteq> NU_NULL" "qu_id_valid (queues s qp)" and shape: "q_shape (queues s qp)"
    and wait: "all_wait (qu_suspension_list (queues s qp) @ qu_urgent_list (queues s qp)) s"
  shows "\<exists>s' p. NU_Reset_Queue qp s = (s', NU_SUCCESS, p) \<and> q_rep (queues s' qp) [] \<and>
    qu_suspension_list (queues s' qp) = [] \<and> qu_urgent_list (queues s' qp) = [] \<and> sched_inv (kern s') \<and>
    (\<forall>t. if t \<in> set (qu_suspension_list (queues s qp) @ qu_urgent_list (queues s qp))
         then is_ready t (kern s') \<and> qs_return_status (blocks s' t) = NU_QUEUE_RESET
         else is_ready t (kern s') = is_ready t (kern s) \<and> blocks s' t = blocks s t)"
proof -
  let ?ts = "qu_suspension_list (queues s qp) @ qu_urgent_list (queues s qp)"
  let ?r = "lift_all NU_QUEUE_RESET ?ts s"
  let ?s' = "upd_q qp (\<lambda>q. q\<lparr>qu_available := qu_end q, qu_messages := 0, qu_read := 0, qu_write := 0,
    qu_tasks_waiting := 0, qu_suspension_list := [], qu_urgent_list := []\<rparr>) (fst ?r)"
  have "NU_Reset_Queue qp s = (?s', NU_SUCCESS, snd ?r)"
    using assms(1,2) by (simp add: NU_Reset_Queue_def Let_def split_beta)
  moreover have "q_rep (queues ?s' qp) []"
    using shape by (simp add: q_rep_def q_shape_def ring_read_def)
  moreover have "(kern ?s', snd (resume_each TCC_Resume_Task NU_QUEUE_SUSPEND ?ts (kern s, False))) =
      resume_each TCC_Resume_Task NU_QUEUE_SUSPEND ?ts (kern s, False)" by simp
  note all_wait_resumed[OF wait this]
  ultimately show ?thesis by (intro exI[of _ ?s'] exI[of _ "snd ?r"]) simp
qed

text \<open>
  Deleting a queue invalidates it, takes it off the list of created queues and lifts every suspension on it
  with the status \<open>NU_QUEUE_DELETED\<close>; every later service on it is refused with \<open>NU_INVALID_QUEUE\<close>.
\<close>

theorem NU_Delete_Queue_effect:
  assumes "qp \<noteq> NU_NULL" "qu_id_valid (queues s qp)"
    and wait: "all_wait (qu_suspension_list (queues s qp) @ qu_urgent_list (queues s qp)) s"
  shows "\<exists>s' p. NU_Delete_Queue qp s = (s', NU_SUCCESS, p) \<and> sched_inv (kern s') \<and>
    QUD_Created_Queues_List s' = remove1 qp (QUD_Created_Queues_List s) \<and>
    (\<forall>t \<in> set (qu_suspension_list (queues s qp) @ qu_urgent_list (queues s qp)).
       is_ready t (kern s') \<and> qs_return_status (blocks s' t) = NU_QUEUE_DELETED) \<and>
    (\<forall>message sz suspend. NU_Send_To_Queue qp message sz suspend s' = (s', Some NU_INVALID_QUEUE, False) \<and>
       NU_Receive_From_Queue qp message sz suspend s' = (s', Some NU_INVALID_QUEUE, None, False))"
proof -
  let ?ts = "qu_suspension_list (queues s qp) @ qu_urgent_list (queues s qp)"
  let ?s1 = "(upd_q qp (qu_id_valid_update (\<lambda>_. False)) s)
    \<lparr>QUD_Created_Queues_List := remove1 qp (QUD_Created_Queues_List s), QUD_Total_Queues := dec32 (QUD_Total_Queues s)\<rparr>"
  let ?r = "lift_all NU_QUEUE_DELETED ?ts ?s1"
  have "NU_Delete_Queue qp s = (fst ?r, NU_SUCCESS, snd ?r)"
    using assms(1,2) by (simp add: NU_Delete_Queue_def Let_def split_beta)
  moreover have "(kern (fst ?r), snd (resume_each TCC_Resume_Task NU_QUEUE_SUSPEND ?ts (kern s, False))) =
      resume_each TCC_Resume_Task NU_QUEUE_SUSPEND ?ts (kern s, False)" by simp
  note all_wait_resumed[OF wait this]
  moreover have "message_checks qp message sz suspend (fst ?r) = NU_INVALID_QUEUE" for message sz suspend
    using assms(1) by (simp add: message_checks_def Let_def)
  ultimately show ?thesis
    by (intro exI[of _ "fst ?r"] exI[of _ "snd ?r"]) (simp add: NU_Send_To_Queue_def NU_Receive_From_Queue_def Let_def)
qed

text \<open>
  A task that times out on a queue on which no task waits to send to the front leaves its suspension list
  (and no other task does), its call returns \<open>NU_TIMEOUT\<close>, and the messages are untouched; the same holds for a
  task of the urgent list.
\<close>

theorem QUC_Cleanup_removes:
  assumes qp: "qp = qs_queue (blocks s t)"
    and lst: "qu_urgent_list (queues s qp) = [] \<or> t \<in> set (qu_urgent_list (queues s qp))"
  shows "\<exists>s'. QUC_Cleanup t s = Some s' \<and> qs_return_status (blocks s' t) = NU_TIMEOUT \<and>
    (if qu_urgent_list (queues s qp) = []
     then qu_suspension_list (queues s' qp) = remove1 t (qu_suspension_list (queues s qp)) \<and>
          qu_urgent_list (queues s' qp) = []
     else qu_urgent_list (queues s' qp) = remove1 t (qu_urgent_list (queues s qp)) \<and>
          qu_suspension_list (queues s' qp) = qu_suspension_list (queues s qp)) \<and>
    (\<forall>msgs. q_rep (queues s' qp) msgs = q_rep (queues s qp) msgs) \<and> kern s' = kern s"
  using lst by (auto simp: QUC_Cleanup_def Let_def qp)

text \<open>
  The clean-up routine picks the list by whether the urgent list is empty, not by the list the block is on.
  When the only task of the suspension list times out while tasks wait to send to the front, those tasks are
  dropped from the queue, so no receive will ever release them, and the task that timed out stays listed.
\<close>

theorem QUC_Cleanup_loses_urgent:
  assumes qp: "qp = qs_queue (blocks s t)" and "qu_suspension_list (queues s qp) = [t]"
    and "qu_urgent_list (queues s qp) \<noteq> []" "t \<notin> set (qu_urgent_list (queues s qp))"
  shows "\<exists>s'. QUC_Cleanup t s = Some s' \<and> qu_urgent_list (queues s' qp) = [] \<and>
    qu_suspension_list (queues s' qp) = [t] \<and> qs_return_status (blocks s' t) = NU_TIMEOUT"
  using assms(2-) by (simp add: QUC_Cleanup_def Let_def qp)

section \<open>Creation, errors, order\<close>

text \<open>
  Creating a queue with valid parameters gives an empty queue that keeps the representation invariant: its
  capacity is the area rounded down to whole messages when they have a fixed size; the queue is the last of the
  list of created queues and no other queue changes.
\<close>

theorem NU_Create_Queue_creates:
  assumes "qp \<noteq> NU_NULL" "\<not> qu_id_valid (queues s qp)" "start \<noteq> NU_NULL" "start mod 4 = 0"
    and size: "0 < msize" "msize + (if fixed then 0 else 1) \<le> qsize" "qsize < 2 ^ 30" "qsize \<le> length area"
  shows "\<exists>s'. NU_Create_Queue qp (start, area) qsize (Some fixed) msize (Some fifo) s = (s', NU_SUCCESS) \<and>
    q_rep (queues s' qp) [] \<and> qu_id_valid (queues s' qp) \<and>
    qu_end (queues s' qp) = (if fixed then qsize div msize * msize else qsize) \<and>
    qu_suspension_list (queues s' qp) = [] \<and> qu_urgent_list (queues s' qp) = [] \<and>
    QUD_Created_Queues_List s' = QUD_Created_Queues_List s @ [qp] \<and>
    (\<forall>qp'. qp' \<noteq> qp \<longrightarrow> queues s' qp' = queues s qp')"
proof -
  have u: "add32 msize (if fixed then 0 else 1) \<le> qsize" using size by (auto simp: u32_simps)
  have "qsize div msize * msize \<le> qsize" by simp
  then have e: "qsize div msize * msize \<le> length area" "qsize div msize * msize < 2 ^ 30"
    using size(3,4) by linarith+
  have p: "msize \<le> qsize div msize * msize" if fixed
  proof -
    have "1 \<le> qsize div msize" using size that by (simp add: Suc_le_eq div_greater_zero_iff)
    then have "1 * msize \<le> qsize div msize * msize" by (rule mult_le_mono1)
    then show ?thesis by simp
  qed
  have "error_checks
      [(qp = NU_NULL \<or> qu_id_valid (queues s qp), NU_INVALID_QUEUE), (start = NU_NULL, NU_INVALID_MEMORY),
       (start mod 4 \<noteq> 0, NU_NOT_ALIGNED),
       (qsize = 0 \<or> msize = 0 \<or> add32 msize (if Some fixed = Some False then 1 else 0) > qsize, NU_INVALID_SIZE),
       (Some fixed = None, NU_INVALID_MESSAGE), (Some fifo = None, NU_INVALID_SUSPEND)] NU_SUCCESS = NU_SUCCESS"
    using assms(1-6) u by (cases fixed) auto
  note chk = this
  show ?thesis
    using size e p unfolding NU_Create_Queue_def Let_def prod.case chk
    by (cases fixed) (simp_all add: q_rep_def q_shape_def ring_read_def)
qed

text \<open>
  The size check of \<open>NU_Create_Queue\<close> wraps: with the greatest message size and variable-size messages any
  queue size is accepted, and the queue violates the representation invariant: single messages larger than the
  whole area pass the checks of the send services.
\<close>

theorem NU_Create_Queue_size_wraps:
  assumes "qp \<noteq> NU_NULL" "\<not> qu_id_valid (queues s qp)" "start \<noteq> NU_NULL" "start mod 4 = 0"
    and "0 < qsize" "qsize < 4294967295"
  shows "\<exists>s'. NU_Create_Queue qp (start, area) qsize (Some False) 4294967295 (Some fifo) s = (s', NU_SUCCESS) \<and>
    \<not> q_rep (queues s' qp) [] \<and>
    (\<forall>sz message. 0 < sz \<and> sz \<le> 4294967295 \<longrightarrow> message_checks qp (Some message) sz 0 s' = NU_SUCCESS)"
  using assms
  by (simp add: NU_Create_Queue_def Let_def add32_def q_rep_def q_shape_def message_checks_success)

text \<open>
  C8. A queue service that returns an error at once, without having suspended its caller, has changed nothing:
  not the queues, the list of created queues, the suspension blocks nor the tasks, and it does not give up
  control. (The errors that a call returns after it was suspended, by time-out, reset or deletion of the queue,
  are not meant: they come from the later operations that end the suspension.)
\<close>

theorem queue_errors_change_nothing:
  assumes "st \<noteq> NU_SUCCESS"
  shows "(NU_Create_Queue qp start queue_size fixed message_size fifo s = (s', st) \<longrightarrow> s' = s) \<and>
    (NU_Send_To_Queue qp message sz suspend s = (s', Some st, p) \<longrightarrow> s' = s \<and> \<not> p) \<and>
    (NU_Send_To_Front_Of_Queue qp message sz suspend s = (s', Some st, p) \<longrightarrow> s' = s \<and> \<not> p) \<and>
    (NU_Broadcast_To_Queue qp message sz suspend s = (s', Some st, p) \<longrightarrow> s' = s \<and> \<not> p) \<and>
    (NU_Receive_From_Queue qp message sz suspend s = (s', Some st, r, p) \<longrightarrow> s' = s \<and> r = None \<and> \<not> p) \<and>
    (NU_Reset_Queue qp s = (s', st, p) \<longrightarrow> s' = s \<and> \<not> p) \<and>
    (NU_Delete_Queue qp s = (s', st, p) \<longrightarrow> s' = s \<and> \<not> p)"
proof (intro conjI impI)
qed (use assms in \<open>auto simp: NU_Create_Queue_def NU_Send_To_Queue_def NU_Send_To_Front_Of_Queue_def NU_Broadcast_To_Queue_def
  NU_Receive_From_Queue_def NU_Reset_Queue_def NU_Delete_Queue_def Let_def split_beta split: if_splits\<close>)


text \<open>The services as a bounded FIFO queue: sends and receives that do not suspend, on a queue nobody waits on.\<close>

definition holds :: "addr \<Rightarrow> qsys \<Rightarrow> words list \<Rightarrow> bool" where
  "holds qp s msgs \<longleftrightarrow> qp \<noteq> NU_NULL \<and> qu_id_valid (queues s qp) \<and> qu_suspension_list (queues s qp) = [] \<and>
     qu_urgent_list (queues s qp) = [] \<and> q_rep (queues s qp) msgs"

definition room :: "addr \<Rightarrow> words list \<Rightarrow> qsys \<Rightarrow> bool" where
  "room qp ms s \<longleftrightarrow> (\<forall>m \<in> set ms. message_ok (queues s qp) m) \<and>
     length (contents (qu_fixed_size (queues s qp)) ms) \<le> qu_available (queues s qp)"

definition post :: "addr \<Rightarrow> words \<Rightarrow> qsys \<Rightarrow> qsys" where
  "post qp m s = fst (NU_Send_To_Queue qp (Some m) (length m) 0 s)"

definition fetch :: "addr \<Rightarrow> qsys \<Rightarrow> words \<times> qsys" where
  "fetch qp s =
    (case NU_Receive_From_Queue qp (Some []) (qu_message_size (queues s qp)) 0 s of
       (s', _, Some (ws, _), _) \<Rightarrow> (ws, s') | (s', _, None, _) \<Rightarrow> ([], s'))"

lemma post_holds:
  assumes h: "holds qp s ms" and r: "room qp (m # ms') s"
  shows "holds qp (post qp m s) (ms @ [m]) \<and> room qp ms' (post qp m s)"
proof -
  let ?q = "queues s qp"
  have rep: "q_rep ?q ms" using h by (simp add: holds_def)
  have ok: "message_ok ?q m" and rm: "length m + (if qu_fixed_size ?q then 0 else 1) \<le> qu_available ?q"
    using r by (auto simp: room_def)
  have chk: "message_checks qp (Some m) (length m) 0 s = NU_SUCCESS"
    using h ok by (auto simp: message_checks_success holds_def message_ok_def)
  have "qu_available ?q < 4294967296" using q_rep_bounds[OF rep] by simp
  then have p: "post qp m s = upd_q qp (put_message (length m) m) s"
    using h chk rm by (simp add: post_def NU_Send_To_Queue_def Let_def holds_def overhead_idle u32_simps)
  have rep': "q_rep (put_message (length m) m ?q) (ms @ [m])"
    using put_message_rep[OF rep, of "length m" m] ok rm by simp
  have av: "qu_available (put_message (length m) m ?q) + length (encode (qu_fixed_size ?q) m) = qu_available ?q"
    using rep rep' rm by (auto simp: q_rep_def Let_def)
  have "message_ok (put_message (length m) m ?q) = message_ok ?q" by (intro message_ok_cong) simp_all
  then have "room qp ms' (upd_q qp (put_message (length m) m) s)"
    using r av by (auto simp: room_def)
  then show ?thesis using h rep' by (simp add: p holds_def)
qed

lemma fetch_holds:
  assumes h: "holds qp s (m # ms)"
  shows "fst (fetch qp s) = m \<and> holds qp (snd (fetch qp s)) ms"
proof -
  let ?q = "queues s qp" and ?z = "qu_message_size (queues s qp)"
  have rep: "q_rep ?q (m # ms)" using h by (simp add: holds_def)
  then obtain q' where g: "get_message ?z ?q = (m, length m, q')" "q_rep q' ms"
    using get_message_rep[OF rep, of ?z] by auto
  have keep: "qu_suspension_list q' = []" "qu_urgent_list q' = []" "qu_id_valid q'"
    using get_keeps[of ?z ?q] g h by (simp_all add: holds_def)
  have "0 < ?z" using rep by (simp add: q_rep_def q_shape_def)
  then have "message_checks qp (Some []) ?z 0 s = NU_SUCCESS"
    using h by (simp add: message_checks_success holds_def)
  moreover have "0 < qu_messages ?q" using rep by (simp add: q_rep_def)
  ultimately have "fetch qp s = (m, upd_q qp (\<lambda>_. q') s)"
    using h g keep by (simp add: fetch_def NU_Receive_From_Queue_def Let_def holds_def)
  then show ?thesis using g keep h by (simp add: holds_def)
qed

interpretation mq: bounded_fifo "holds qp" "room qp" "post qp" "fetch qp" for qp
  by unfold_locales (rule post_holds, assumption+, rule fetch_holds)

text \<open>
  C3. Messages are delivered in the order they were sent, whatever their number and sizes and however often the
  area wraps around: after a sequence of messages that fit has been sent to a queue nobody waits on, as many
  receives as there are messages return the old messages and then the new ones, word for word, and the queue is
  empty.
\<close>

theorem queue_fifo:
  assumes "holds qp s msgs" "room qp ms s"
  shows "fst (get_all (fetch qp) (length msgs + length ms) (put_all (post qp) ms s)) = msgs @ ms \<and>
    holds qp (snd (get_all (fetch qp) (length msgs + length ms) (put_all (post qp) ms s))) []"
  by (rule mq.fifo_order[OF assms])

section \<open>The properties on concrete queues\<close>

text \<open>Tasks 1 and 2 are created, task 1 runs, task 2 waits on a queue.\<close>

definition kernel3 :: kernel where
  "kernel3 = fst (TCC_Suspend_Task 2 NU_QUEUE_SUSPEND (Some 2) NU_SUSPEND kernel2)"

lemma all_wait_kernel3:
  assumes "kern s = kernel3"
  shows "all_wait [2] s"
proof -
  have "sched_inv kernel3" unfolding kernel3_def by (rule TCC_Suspend_Task_inv[OF inv_kernel2]) simp
  moreover have "tcbs kernel3 2 = task0\<lparr>tc_status := NU_QUEUE_SUSPEND, tc_cleanup := Some 2\<rparr>"
    by (simp add: kernel3_def TCC_Suspend_Task_def NU_SUSPEND_def Let_def unlink_ready_def task0_def)
  ultimately show ?thesis using assms by (simp add: all_wait_def waits_for_def task0_def)
qed

text \<open>A queue of variable-size messages with the message \<open>[1, 2]\<close>, which wraps around the end of the area.\<close>

definition queue_a :: qcb where
  "queue_a = \<lparr>qu_id_valid = True, qu_fixed_size = False, qu_fifo_suspend = True, qu_queue_size = 8, qu_messages = 1,
     qu_message_size = 4, qu_available = 5, qu_area = [2, 9, 9, 9, 9, 9, 2, 1], qu_end = 8, qu_read = 6,
     qu_write = 1, qu_tasks_waiting = 0, qu_urgent_list = [], qu_suspension_list = []\<rparr>"

text \<open>A queue of variable-size messages whose write pointer is close to the end of the area.\<close>

definition queue_c :: qcb where
  "queue_c = queue_a\<lparr>qu_area := [9, 9, 9, 9, 1, 1, 9, 9], qu_read := 4, qu_write := 6, qu_available := 6\<rparr>"

text \<open>An empty queue on which task 2 waits for a message.\<close>

definition queue_d :: qcb where
  "queue_d = queue_a\<lparr>qu_messages := 0, qu_available := 8, qu_write := 6, qu_tasks_waiting := 1,
     qu_suspension_list := [2]\<rparr>"

text \<open>A full queue of two-word messages on which task 2 waits to send.\<close>

definition queue_b :: qcb where
  "queue_b = queue_a\<lparr>qu_fixed_size := True, qu_message_size := 2, qu_messages := 2, qu_available := 0,
     qu_area := [3, 4, 1, 2], qu_end := 4, qu_read := 2, qu_write := 2, qu_tasks_waiting := 1,
     qu_suspension_list := [2]\<rparr>"

definition sys_of :: "qcb \<Rightarrow> kernel \<Rightarrow> qsys" where
  "sys_of q k = \<lparr>queues = (\<lambda>_. q), QUD_Created_Queues_List = [1], QUD_Total_Queues = 1,
     blocks = (\<lambda>_. \<lparr>qs_priority = 31, qs_queue = 1, qs_message_area = [5, 6], qs_message_size = 2,
        qs_actual_size = 0, qs_return_status = NU_SUCCESS\<rparr>), kern = k\<rparr>"

lemma sys_of_simps [simp]:
  "queues (sys_of q k) qp = q" "kern (sys_of q k) = k" "qs_message_area (blocks (sys_of q k) t) = [5, 6]"
  "qs_message_size (blocks (sys_of q k) t) = 2" "qs_queue (blocks (sys_of q k) t) = 1"
  by (simp_all add: sys_of_def)

lemmas rep_eval = q_rep_def q_shape_def message_ok_def encode_def ring_read_def upt_rec Let_def

lemma rep_a: "q_rep queue_a [[1, 2]]"
  by (simp add: queue_a_def rep_eval)

lemma rep_b: "q_rep queue_b [[1, 2], [3, 4]]"
  by (simp add: queue_b_def queue_a_def rep_eval)

lemma rep_c: "q_rep queue_c [[1]]"
  by (simp add: queue_c_def queue_a_def rep_eval)

lemma rep_d: "q_rep queue_d []"
  by (simp add: queue_d_def queue_a_def rep_eval)

lemmas queue_defs = queue_a_def queue_b_def queue_c_def queue_d_def

theorem NU_Send_To_Queue_refines_witness:
  "\<exists>q'. NU_Send_To_Queue 1 (Some [7, 8, 9]) 3 0 (sys_of queue_a kernel2) =
     ((sys_of queue_a kernel2)\<lparr>queues := (queues (sys_of queue_a kernel2))(1 := q')\<rparr>, Some NU_SUCCESS, False) \<and>
     q_rep q' [[1, 2], [7, 8, 9]]"
  using NU_Send_To_Queue_refines[of "sys_of queue_a kernel2" 1 "[[1, 2]]" "[7, 8, 9]" 3 0] rep_a
  by (simp add: message_checks_success queue_defs encode_def)

theorem NU_Send_To_Front_Of_Queue_refines_witness:
  "\<exists>q'. NU_Send_To_Front_Of_Queue 1 (Some [7, 8, 9]) 3 0 (sys_of queue_a kernel2) =
     ((sys_of queue_a kernel2)\<lparr>queues := (queues (sys_of queue_a kernel2))(1 := q')\<rparr>, Some NU_SUCCESS, False) \<and>
     q_rep q' [[7, 8, 9], [1, 2]]"
  using NU_Send_To_Front_Of_Queue_refines[of "sys_of queue_a kernel2" 1 "[[1, 2]]" "[7, 8, 9]" 3 0] rep_a
  by (simp add: message_checks_success queue_defs encode_def)

theorem NU_Receive_From_Queue_refines_witness:
  "\<exists>s' p xs. NU_Receive_From_Queue 1 (Some []) 2 0 (sys_of queue_b kernel3) = (s', Some NU_SUCCESS, Some ([1, 2], 2), p) \<and>
     q_rep (queues s' 1) ([3, 4] # xs) \<and> sched_inv (kern s')"
proof -
  let ?s = "sys_of queue_b kernel3"
  have ts: "qu_suspension_list (queues ?s 1) = [2]" by (simp add: queue_defs)
  have P: "q_rep (queues ?s 1) ([1, 2] # [[3, 4]])" "message_checks 1 (Some []) 2 0 ?s = NU_SUCCESS"
    "qu_urgent_list (queues ?s 1) = []" "all_wait (qu_suspension_list (queues ?s 1)) ?s"
    "\<forall>t \<in> set (qu_suspension_list (queues ?s 1)). sender_ok (queues ?s 1) ?s t"
    using rep_b all_wait_kernel3[of ?s] ts
    by (simp_all add: message_checks_success sender_ok_def sender_msg_def message_ok_def queue_defs)
  obtain s' p xs where "NU_Receive_From_Queue 1 (Some []) 2 0 ?s = (s', Some NU_SUCCESS, Some ([1, 2], length [1, 2 :: 32 word]), p)"
    "q_rep (queues s' 1) ([[3, 4]] @ xs)" "sched_inv (kern s')"
    using NU_Receive_From_Queue_refines[OF P] by blast
  then show ?thesis by auto
qed

theorem queue_wrap_damages_message_witness:
  "q_rep (put_suspended 3 [7, 8, 6] queue_c) [[1], [7, 9, 9]]"
  using queue_wrap_damages_message[OF rep_c, of 3 "[7, 8, 6]"] by (simp add: queue_defs message_ok_def)

lemma checks_d: "0 < sz \<Longrightarrow> sz \<le> 4 \<Longrightarrow> message_checks 1 (Some m) sz 0 (sys_of queue_d kernel3) = NU_SUCCESS"
  by (simp add: message_checks_success queue_defs)

lemma lists_d: "qu_suspension_list queue_d = [2]" "qu_urgent_list queue_d = []" "qu_id_valid queue_d"
  by (simp_all add: queue_defs)

theorem NU_Send_To_Queue_hands_over_witness:
  "\<exists>s' p. NU_Send_To_Queue 1 (Some [7]) 1 0 (sys_of queue_d kernel3) = (s', Some NU_SUCCESS, p) \<and>
     is_ready 2 (kern s') \<and> take 1 (qs_message_area (blocks s' 2)) = [7]"
  using NU_Send_To_Queue_hands_over[of "sys_of queue_d kernel3" 1 "[7]" 1 0 2 "[]"]
    rep_d checks_d lists_d all_wait_kernel3[of "sys_of queue_d kernel3"] by auto

theorem NU_Broadcast_To_Queue_reaches_all_witness:
  "\<exists>s' p. NU_Broadcast_To_Queue 1 (Some [7]) 1 0 (sys_of queue_d kernel3) = (s', Some NU_SUCCESS, p) \<and>
     is_ready 2 (kern s') \<and> take 1 (qs_message_area (blocks s' 2)) = [7]"
  using NU_Broadcast_To_Queue_reaches_all[of "sys_of queue_d kernel3" 1 "[7]" 1 0]
    rep_d checks_d lists_d all_wait_kernel3[of "sys_of queue_d kernel3"] by auto

theorem NU_Reset_Queue_effect_witness:
  "\<exists>s' p. NU_Reset_Queue 1 (sys_of queue_d kernel3) = (s', NU_SUCCESS, p) \<and> q_rep (queues s' 1) [] \<and>
     is_ready 2 (kern s') \<and> qs_return_status (blocks s' 2) = NU_QUEUE_RESET"
proof -
  have "q_shape queue_d" using rep_d by (simp add: q_rep_def)
  then show ?thesis
    using NU_Reset_Queue_effect[of 1 "sys_of queue_d kernel3"] lists_d all_wait_kernel3[of "sys_of queue_d kernel3"]
    by auto
qed

theorem NU_Delete_Queue_effect_witness:
  "\<exists>s' p. NU_Delete_Queue 1 (sys_of queue_d kernel3) = (s', NU_SUCCESS, p) \<and> is_ready 2 (kern s') \<and>
     qs_return_status (blocks s' 2) = NU_QUEUE_DELETED \<and>
     NU_Send_To_Queue 1 (Some [7]) 1 0 s' = (s', Some NU_INVALID_QUEUE, False)"
  using NU_Delete_Queue_effect[of 1 "sys_of queue_d kernel3"] lists_d all_wait_kernel3[of "sys_of queue_d kernel3"]
  by auto

theorem QUC_Cleanup_removes_witness:
  "\<exists>s'. QUC_Cleanup 2 (sys_of queue_d kernel3) = Some s' \<and> qs_return_status (blocks s' 2) = NU_TIMEOUT \<and>
     qu_suspension_list (queues s' 1) = []"
  using QUC_Cleanup_removes[of 1 "sys_of queue_d kernel3" 2] lists_d by auto

theorem QUC_Cleanup_loses_urgent_witness:
  "\<exists>s'. QUC_Cleanup 2 (sys_of (queue_d\<lparr>qu_urgent_list := [3]\<rparr>) kernel3) = Some s' \<and>
     qu_urgent_list (queues s' 1) = [] \<and> qu_suspension_list (queues s' 1) = [2]"
  using QUC_Cleanup_loses_urgent[of 1 "sys_of (queue_d\<lparr>qu_urgent_list := [3]\<rparr>) kernel3" 2] lists_d by auto

theorem NU_Create_Queue_creates_witness:
  "\<exists>s'. NU_Create_Queue 1 (64, replicate 10 0) 10 (Some True) 3 (Some True)
      (sys_of (queue_a\<lparr>qu_id_valid := False\<rparr>) kernel2) = (s', NU_SUCCESS) \<and>
     q_rep (queues s' 1) [] \<and> qu_end (queues s' 1) = 9"
  using NU_Create_Queue_creates[of 1 "sys_of (queue_a\<lparr>qu_id_valid := False\<rparr>) kernel2" 64 3 True 10 "replicate 10 0" True]
  by auto

theorem NU_Create_Queue_size_wraps_witness:
  "\<exists>s'. NU_Create_Queue 1 (64, [0]) 1 (Some False) 4294967295 (Some True)
      (sys_of (queue_a\<lparr>qu_id_valid := False\<rparr>) kernel2) = (s', NU_SUCCESS) \<and> \<not> q_rep (queues s' 1) []"
  using NU_Create_Queue_size_wraps[of 1 "sys_of (queue_a\<lparr>qu_id_valid := False\<rparr>) kernel2" 64 1 "[0]" True] by auto

theorem queue_errors_change_nothing_witness:
  "NU_Send_To_Queue 1 (Some [7]) 5 0 (sys_of queue_a kernel2) = (sys_of queue_a kernel2, Some NU_INVALID_SIZE, False)"
proof -
  let ?r = "NU_Send_To_Queue 1 (Some [7]) 5 0 (sys_of queue_a kernel2)"
  have st: "fst (snd ?r) = Some NU_INVALID_SIZE"
    by (simp add: NU_Send_To_Queue_def message_checks_def Let_def queue_defs)
  then have "?r = (fst ?r, Some NU_INVALID_SIZE, snd (snd ?r))" by (simp add: prod_eq_iff)
  then have "fst ?r = sys_of queue_a kernel2 \<and> \<not> snd (snd ?r)"
    using queue_errors_change_nothing[where st = NU_INVALID_SIZE and qp = 1 and message = "Some [7]" and sz = 5 and
      suspend = 0 and s = "sys_of queue_a kernel2" and s' = "fst ?r" and p = "snd (snd ?r)"] by blast
  then show ?thesis using st by (simp add: prod_eq_iff)
qed


theorem queue_fifo_witness:
  "fst (get_all (fetch 1) 3 (put_all (post 1) [[7], [8, 9]] (sys_of queue_a kernel2))) = [[1, 2], [7], [8, 9]]"
proof -
  have "holds 1 (sys_of queue_a kernel2) [[1, 2]]" using rep_a by (simp add: holds_def queue_a_def)
  moreover have "room 1 [[7], [8, 9]] (sys_of queue_a kernel2)"
    by (simp add: room_def queue_a_def message_ok_def encode_def)
  ultimately show ?thesis using queue_fifo[of 1 "sys_of queue_a kernel2" "[[1, 2]]" "[[7], [8, 9]]"]
    by (simp add: numeral_3_eq_3)
qed

end
