(* ===== verification/Event_Groups.thy ===== *)
theory Event_Groups
  imports Scheduler Common_Services
begin

text \<open>
  Event groups (\<open>evc_common.c\<close>, \<open>evc_delete.c\<close>): 32 event flags, tasks that wait for all or for any of a set of
  flags, with or without consuming them.

  As in theory \<open>Queue\<close> the control blocks are objects of a store, a suspension block is addressed by its task,
  and the ring of suspension blocks is a list of tasks. The state \<open>ekern\<close> is that of thread control. The main
  invariant, \<open>ev_inv\<close>, says that no task waits for events that are present.
\<close>

section \<open>Data\<close>

record ev_gcb =
  ev_id_valid :: bool
  ev_current_events :: "32 word"
  ev_tasks_waiting :: nat
  ev_suspension_list :: "tid list"

record ev_suspend =
  ev_event_group :: addr
  ev_requested_events :: "32 word"
  ev_operation :: nat
  ev_return_status :: status
  ev_actual_events :: "32 word"

record esys =
  groups :: "addr \<Rightarrow> ev_gcb"
  EVD_Created_Event_Groups_List :: "addr list"
  EVD_Total_Event_Groups :: nat
  eblocks :: "tid \<Rightarrow> ev_suspend"
  ekern :: kernel

definition NU_OR :: nat where "NU_OR = 0"
definition NU_OR_CONSUME :: nat where "NU_OR_CONSUME = 1"
definition NU_AND :: nat where "NU_AND = 2"
definition NU_AND_CONSUME :: nat where "NU_AND_CONSUME = 3"

lemmas ev_options = NU_OR_def NU_OR_CONSUME_def NU_AND_def NU_AND_CONSUME_def

text \<open>The bits \<open>EV_AND\<close> and \<open>EV_CONSUME\<close> of an operation.\<close>

abbreviation ev_and :: "nat \<Rightarrow> bool" where "ev_and op \<equiv> bit op 1"
abbreviation ev_consume :: "nat \<Rightarrow> bool" where "ev_consume op \<equiv> bit op 0"

definition upd_g :: "addr \<Rightarrow> (ev_gcb \<Rightarrow> ev_gcb) \<Rightarrow> esys \<Rightarrow> esys" where
  "upd_g gp f s = s\<lparr>groups := (groups s)(gp := f (groups s gp))\<rparr>"

definition upd_eblock :: "tid \<Rightarrow> (ev_suspend \<Rightarrow> ev_suspend) \<Rightarrow> esys \<Rightarrow> esys" where
  "upd_eblock t f s = s\<lparr>eblocks := (eblocks s)(t := f (eblocks s t))\<rparr>"

lemma upd_g_simps [simp]:
  "groups (upd_g gp f s) = (groups s)(gp := f (groups s gp))" "eblocks (upd_g gp f s) = eblocks s"
  "ekern (upd_g gp f s) = ekern s" "EVD_Created_Event_Groups_List (upd_g gp f s) = EVD_Created_Event_Groups_List s"
  by (simp_all add: upd_g_def)

lemma upd_eblock_simps [simp]:
  "eblocks (upd_eblock t f s) = (eblocks s)(t := f (eblocks s t))" "groups (upd_eblock t f s) = groups s"
  "ekern (upd_eblock t f s) = ekern s"
  "EVD_Created_Event_Groups_List (upd_eblock t f s) = EVD_Created_Event_Groups_List s"
  by (simp_all add: upd_eblock_def)

section \<open>Operations\<close>

text \<open>The comparison of the present with the requested events.\<close>

definition request_met :: "32 word \<Rightarrow> 32 word \<Rightarrow> nat \<Rightarrow> bool" where
  "request_met events requested operation =
    (let compare = and events requested
     in if ev_and operation then compare = requested else compare \<noteq> 0)"

definition NU_Create_Event_Group :: "addr \<Rightarrow> esys \<Rightarrow> esys \<times> status" where
  "NU_Create_Event_Group gp s =
    (let status = error_checks [(gp = NU_NULL \<or> ev_id_valid (groups s gp), NU_INVALID_GROUP)] NU_SUCCESS
     in if status = NU_SUCCESS then
          (upd_g gp (\<lambda>_. \<lparr>ev_id_valid = True, ev_current_events = 0, ev_tasks_waiting = 0, ev_suspension_list = []\<rparr>)
             (s\<lparr>EVD_Created_Event_Groups_List := EVD_Created_Event_Groups_List s @ [gp],
                EVD_Total_Event_Groups := inc32 (EVD_Total_Event_Groups s)\<rparr>), NU_SUCCESS)
        else (s, status))"

text \<open>The walk over the suspended tasks: the state, the flags to consume and the preemption flag are accumulated.\<close>

definition satisfy :: "addr \<Rightarrow> tid \<Rightarrow> esys \<Rightarrow> esys \<times> bool" where
  "satisfy gp t s =
    (let s1 = upd_g gp (\<lambda>g. g\<lparr>ev_tasks_waiting := dec32 (ev_tasks_waiting g),
                          ev_suspension_list := remove1 t (ev_suspension_list g)\<rparr>) s;
         s2 = upd_eblock t (\<lambda>b. b\<lparr>ev_return_status := NU_SUCCESS,
                              ev_actual_events := ev_current_events (groups s1 gp)\<rparr>) s1;
         (k, preempt) = TCC_Resume_Task t NU_EVENT_SUSPEND (ekern s2)
     in (s2\<lparr>ekern := k\<rparr>, preempt))"

fun satisfy_waiters :: "addr \<Rightarrow> tid list \<Rightarrow> esys \<times> 32 word \<times> bool \<Rightarrow> esys \<times> 32 word \<times> bool" where
  "satisfy_waiters gp [] (s, consume, preempt) = (s, consume, preempt)"
| "satisfy_waiters gp (t # ts) (s, consume, preempt) =
    (let b = eblocks s t
     in if request_met (ev_current_events (groups s gp)) (ev_requested_events b) (ev_operation b) then
          (let consume' = (if ev_consume (ev_operation b) then or consume (ev_requested_events b) else consume);
               (s1, p) = satisfy gp t s
           in satisfy_waiters gp ts (s1, consume', preempt \<or> p))
        else satisfy_waiters gp ts (s, consume, preempt))"

definition NU_Set_Events :: "addr \<Rightarrow> 32 word \<Rightarrow> nat \<Rightarrow> esys \<Rightarrow> esys \<times> status \<times> bool" where
  "NU_Set_Events gp events operation s =
    (let status = error_checks
           [(gp = NU_NULL, NU_INVALID_GROUP), (\<not> ev_id_valid (groups s gp), NU_INVALID_GROUP),
            (operation \<noteq> NU_AND \<and> operation \<noteq> NU_OR, NU_INVALID_OPERATION)] NU_SUCCESS
     in if status = NU_SUCCESS then
          (let s1 = upd_g gp (\<lambda>g. g\<lparr>ev_current_events :=
                      (if ev_and operation then and (ev_current_events g) events
                       else or (ev_current_events g) events)\<rparr>) s
           in if ev_suspension_list (groups s1 gp) \<noteq> [] then
                (let (s2, consume, preempt) = satisfy_waiters gp (ev_suspension_list (groups s1 gp)) (s1, 0, False)
                 in (upd_g gp (\<lambda>g. g\<lparr>ev_current_events := and (ev_current_events g) (not consume)\<rparr>) s2,
                     NU_SUCCESS, preempt))
              else (s1, NU_SUCCESS, False))
        else (s, status, False))"

text \<open>
  The result of \<open>NU_Retrieve_Events\<close>: the status (\<open>None\<close> when the caller has been suspended), the value written to
  \<open>*retrieved_events\<close>, and whether control goes to the system. The flag \<open>dest\<close> tells whether that pointer is not null.
\<close>

definition NU_Retrieve_Events ::
    "addr \<Rightarrow> 32 word \<Rightarrow> nat \<Rightarrow> bool \<Rightarrow> nat \<Rightarrow> esys \<Rightarrow> esys \<times> status option \<times> 32 word option \<times> bool" where
  "NU_Retrieve_Events gp requested operation dest suspend s =
    (let status = error_checks
           [(gp = NU_NULL, NU_INVALID_GROUP), (\<not> ev_id_valid (groups s gp), NU_INVALID_GROUP),
            (operation \<noteq> NU_AND \<and> operation \<noteq> NU_AND_CONSUME \<and> operation \<noteq> NU_OR \<and> operation \<noteq> NU_OR_CONSUME,
             NU_INVALID_OPERATION),
            (suspend \<noteq> 0 \<and> TCCE_Suspend_Error (ekern s), NU_INVALID_SUSPEND),
            (\<not> dest, NU_INVALID_POINTER)] NU_SUCCESS;
         current = ev_current_events (groups s gp)
     in if status = NU_SUCCESS then
          (if request_met current requested operation then
             (if ev_consume operation
              then upd_g gp (\<lambda>g. g\<lparr>ev_current_events := and (ev_current_events g) (not requested)\<rparr>) s else s,
              Some NU_SUCCESS, Some current, False)
           else if suspend \<noteq> 0 then
             (let task = current_task (ekern s);
                  s1 = upd_g gp (\<lambda>g. g\<lparr>ev_tasks_waiting := inc32 (ev_tasks_waiting g),
                                   ev_suspension_list := ev_suspension_list g @ [task]\<rparr>) s;
                  s2 = upd_eblock task (\<lambda>b. b\<lparr>ev_event_group := gp, ev_requested_events := requested,
                                          ev_operation := operation\<rparr>) s1;
                  (k, leaves, _) = TCC_Suspend_Task task NU_EVENT_SUSPEND (Some task) suspend (ekern s2)
              in (s2\<lparr>ekern := k\<rparr>, None, None, leaves))
           else (s, Some NU_NOT_PRESENT, Some 0, False))
        else (s, Some status, None, False))"

definition EVC_Cleanup :: "tid \<Rightarrow> esys \<Rightarrow> esys" where
  "EVC_Cleanup t s =
    (let gp = ev_event_group (eblocks s t)
     in upd_g gp (\<lambda>g. g\<lparr>ev_tasks_waiting := dec32 (ev_tasks_waiting g),
                    ev_suspension_list := remove1 t (ev_suspension_list g)\<rparr>)
          (upd_eblock t (ev_return_status_update (\<lambda>_. NU_TIMEOUT)) s))"

definition NU_Delete_Event_Group :: "addr \<Rightarrow> esys \<Rightarrow> esys \<times> status \<times> bool" where
  "NU_Delete_Event_Group gp s =
    (let status = error_checks [(gp = NU_NULL \<or> \<not> ev_id_valid (groups s gp), NU_INVALID_GROUP)] NU_SUCCESS
     in if status = NU_SUCCESS then
          (let s1 = (upd_g gp (ev_id_valid_update (\<lambda>_. False)) s)
                      \<lparr>EVD_Created_Event_Groups_List := remove1 gp (EVD_Created_Event_Groups_List s),
                       EVD_Total_Event_Groups := dec32 (EVD_Total_Event_Groups s)\<rparr>;
               ts = ev_suspension_list (groups s1 gp);
               (k, preempt) = resume_each TCC_Resume_Task NU_EVENT_SUSPEND ts (ekern s1, False)
           in (s1\<lparr>eblocks := (\<lambda>t. if t \<in> set ts then (eblocks s1 t)\<lparr>ev_return_status := NU_GROUP_DELETED\<rparr> else eblocks s1 t),
                  ekern := k\<rparr>, NU_SUCCESS, preempt))
        else (s, status, False))"

text \<open>A time-out of a suspended task (\<open>TCC_Task_Timeout\<close> with the clean-up routine of event groups).\<close>

definition event_timeout :: "tid \<Rightarrow> esys \<Rightarrow> esys" where
  "event_timeout t s =
    (let (k, s1) = TCC_Task_Timeout EVC_Cleanup t (ekern s, s) in s1\<lparr>ekern := k\<rparr>)"

section \<open>Waking tasks\<close>

definition met :: "addr \<Rightarrow> esys \<Rightarrow> tid \<Rightarrow> bool" where
  "met gp s t \<longleftrightarrow> request_met (ev_current_events (groups s gp)) (ev_requested_events (eblocks s t)) (ev_operation (eblocks s t))"

text \<open>Fewer events satisfy fewer requests.\<close>

lemma request_met_mono:
  assumes "request_met (and e f) r op"
  shows "request_met e r op"
proof (cases "ev_and op")
  case True
  then have "and (and e f) r = r" using assms by (simp add: request_met_def Let_def)
  then have "and e r = r" by (metis and.assoc and.left_commute and.idem)
  then show ?thesis using True by (simp add: request_met_def Let_def)
next
  case False
  then have "and (and e f) r \<noteq> 0" using assms by (simp add: request_met_def Let_def)
  then have "and e r \<noteq> 0" by (metis and.assoc and.commute and_zero_eq)
  then show ?thesis using False by (simp add: request_met_def Let_def)
qed

definition woken :: "32 word \<Rightarrow> ev_suspend \<Rightarrow> ev_suspend" where
  "woken events b = b\<lparr>ev_return_status := NU_SUCCESS, ev_actual_events := events\<rparr>"

definition consumed :: "(tid \<Rightarrow> ev_suspend) \<Rightarrow> tid list \<Rightarrow> 32 word \<Rightarrow> 32 word" where
  "consumed bl ts c = fold (\<lambda>t c. if ev_consume (ev_operation (bl t)) then or c (ev_requested_events (bl t)) else c) ts c"

lemma consumed_simps [simp]:
  "consumed bl [] c = c"
  "consumed bl (t # ts) c =
     consumed bl ts (if ev_consume (ev_operation (bl t)) then or c (ev_requested_events (bl t)) else c)"
  by (simp_all add: consumed_def)

lemma consumed_cong: "(\<And>t. t \<in> set ts \<Longrightarrow> bl t = bl' t) \<Longrightarrow> consumed bl ts c = consumed bl' ts c"
  by (induction ts arbitrary: c) auto

lemma bit_consumed:
  "bit (consumed bl ts c) n \<longleftrightarrow>
     bit c n \<or> (\<exists>t \<in> set ts. ev_consume (ev_operation (bl t)) \<and> bit (ev_requested_events (bl t)) n)"
  by (induction ts arbitrary: c) (auto simp: bit_or_iff)

lemma satisfy_eq:
  "satisfy gp t s =
    (s\<lparr>groups := (groups s)(gp := (groups s gp)\<lparr>ev_tasks_waiting := dec32 (ev_tasks_waiting (groups s gp)),
         ev_suspension_list := remove1 t (ev_suspension_list (groups s gp))\<rparr>),
       eblocks := (eblocks s)(t := woken (ev_current_events (groups s gp)) (eblocks s t)),
       ekern := fst (TCC_Resume_Task t NU_EVENT_SUSPEND (ekern s))\<rparr>,
     snd (TCC_Resume_Task t NU_EVENT_SUSPEND (ekern s)))"
  by (simp add: satisfy_def upd_g_def upd_eblock_def woken_def Let_def split_beta)

lemma satisfy_waiters_effect:
  assumes "satisfy_waiters gp ts (s, c, p) = (s', c', p')" "distinct ts" "W = filter (met gp s) ts"
  shows "groups s' = (groups s)(gp := (groups s gp)\<lparr>
       ev_tasks_waiting := (dec32 ^^ length W) (ev_tasks_waiting (groups s gp)),
       ev_suspension_list := fold remove1 W (ev_suspension_list (groups s gp))\<rparr>) \<and>
    eblocks s' = (\<lambda>t. if t \<in> set W then woken (ev_current_events (groups s gp)) (eblocks s t) else eblocks s t) \<and>
    (ekern s', p') = resume_each TCC_Resume_Task NU_EVENT_SUSPEND W (ekern s, p) \<and>
    c' = consumed (eblocks s) W c \<and>
    EVD_Created_Event_Groups_List s' = EVD_Created_Event_Groups_List s"
  using assms
proof (induction ts arbitrary: s c p W)
  case Nil
  then show ?case by simp
next
  case (Cons t ts)
  show ?case
  proof (cases "met gp s t")
    case False
    then show ?thesis using Cons.IH[of s c p W] Cons.prems by (simp add: met_def Let_def)
  next
    case True
    let ?b = "eblocks s t"
    let ?c1 = "if ev_consume (ev_operation ?b) then or c (ev_requested_events ?b) else c"
    obtain s1 q where s1: "satisfy gp t s = (s1, q)" by force
    have run: "satisfy_waiters gp ts (s1, ?c1, p \<or> q) = (s', c', p')"
      using Cons.prems(1) True s1 by (simp add: met_def Let_def)
    have g1: "groups s1 gp = (groups s gp)\<lparr>ev_tasks_waiting := dec32 (ev_tasks_waiting (groups s gp)),
        ev_suspension_list := remove1 t (ev_suspension_list (groups s gp))\<rparr>"
      and e1: "eblocks s1 = (eblocks s)(t := woken (ev_current_events (groups s gp)) (eblocks s t))"
      and k1: "ekern s1 = fst (TCC_Resume_Task t NU_EVENT_SUSPEND (ekern s))"
        "q = snd (TCC_Resume_Task t NU_EVENT_SUSPEND (ekern s))"
      and G1: "\<And>q. q \<noteq> gp \<Longrightarrow> groups s1 q = groups s q"
      and l1: "EVD_Created_Event_Groups_List s1 = EVD_Created_Event_Groups_List s"
      using s1 by (auto simp: satisfy_eq)
    have tn: "t \<notin> set ts" using Cons.prems(2) by simp
    have m: "met gp s1 u = met gp s u" if "u \<in> set ts" for u
      using that tn by (auto simp: met_def g1 e1)
    define V where "V = filter (met gp s1) ts"
    have V: "V = filter (met gp s) ts" using m by (simp add: V_def cong: filter_cong)
    have W: "W = t # V" using Cons.prems(3) True V by simp
    have tV: "t \<notin> set V" using tn by (simp add: V_def)
    have dts: "distinct ts" using Cons.prems(2) by simp
    note IH = Cons.IH[OF run dts V_def]
    have "consumed (eblocks s1) V ?c1 = consumed (eblocks s) W c"
      unfolding W consumed_simps by (rule consumed_cong) (use tV in \<open>auto simp: e1\<close>)
    moreover have "eblocks s' = (\<lambda>u. if u \<in> set W then woken (ev_current_events (groups s gp)) (eblocks s u) else eblocks s u)"
      using IH tV by (auto simp: W e1 g1 fun_eq_iff)
    moreover have "groups s' = (groups s)(gp := (groups s gp)\<lparr>
       ev_tasks_waiting := (dec32 ^^ length W) (ev_tasks_waiting (groups s gp)),
       ev_suspension_list := fold remove1 W (ev_suspension_list (groups s gp))\<rparr>)"
      using IH G1 by (auto simp: fun_eq_iff W g1 funpow_swap1)
    moreover have "(ekern s', p') = resume_each TCC_Resume_Task NU_EVENT_SUSPEND W (ekern s, p)"
      using IH k1 by (simp add: W Let_def split_beta)
    ultimately show ?thesis using IH l1 by simp
  qed
qed

lemma fold_remove1: "distinct xs \<Longrightarrow> fold remove1 W xs = filter (\<lambda>t. t \<notin> set W) xs"
  by (induction W arbitrary: xs) (auto simp: distinct_remove1_removeAll removeAll_filter_not_eq intro: filter_cong)

section \<open>The invariant\<close>

text \<open>A task that waits on the group \<open>gp\<close>: its suspension block belongs to the group and its request is not met.\<close>

definition event_waiter :: "addr \<Rightarrow> esys \<Rightarrow> tid \<Rightarrow> bool" where
  "event_waiter gp s t \<longleftrightarrow> waits_for t NU_EVENT_SUSPEND (ekern s) \<and> \<not> tc_signal_active (tcbs (ekern s) t) \<and>
     tc_cleanup (tcbs (ekern s) t) = Some t \<and> ev_event_group (eblocks s t) = gp \<and> \<not> met gp s t"

definition group_ok :: "addr \<Rightarrow> esys \<Rightarrow> bool" where
  "group_ok gp s \<longleftrightarrow> distinct (ev_suspension_list (groups s gp)) \<and>
     ev_tasks_waiting (groups s gp) = length (ev_suspension_list (groups s gp)) mod 4294967296 \<and>
     (\<forall>t \<in> set (ev_suspension_list (groups s gp)). event_waiter gp s t)"

definition ev_inv :: "esys \<Rightarrow> bool" where
  "ev_inv s \<longleftrightarrow> sched_inv (ekern s) \<and> (\<forall>gp. ev_id_valid (groups s gp) \<longrightarrow> group_ok gp s)"

lemma ev_invD:
  assumes "ev_inv s" "ev_id_valid (groups s gp)"
  shows "distinct (ev_suspension_list (groups s gp))"
    "ev_tasks_waiting (groups s gp) = length (ev_suspension_list (groups s gp)) mod 4294967296"
    "t \<in> set (ev_suspension_list (groups s gp)) \<Longrightarrow> event_waiter gp s t"
  using assms by (auto simp: ev_inv_def group_ok_def)

text \<open>A group that is not touched, with waiters that are not touched, stays as it is.\<close>

lemma group_ok_frame:
  assumes "group_ok gp s" "groups s' gp = groups s gp"
    "\<And>t. t \<in> set (ev_suspension_list (groups s gp)) \<Longrightarrow>
       tcbs (ekern s') t = tcbs (ekern s) t \<and> eblocks s' t = eblocks s t"
  shows "group_ok gp s'"
  using assms by (simp add: group_ok_def event_waiter_def waits_for_def met_def)

lemma length_filter_out:
  "distinct xs \<Longrightarrow> distinct W \<Longrightarrow> set W \<subseteq> set xs \<Longrightarrow> length (filter (\<lambda>t. t \<notin> set W) xs) = length xs - length W"
proof -
  assume d: "distinct xs" "distinct W" "set W \<subseteq> set xs"
  have "length (filter (\<lambda>t. t \<notin> set W) xs) = card (set xs - set W)"
    using d by (metis distinct_card distinct_filter set_filter set_diff_eq)
  then show ?thesis using d by (simp add: card_Diff_subset distinct_card)
qed

lemma event_waiter_waits: "event_waiter gp s t \<Longrightarrow> waits_for t NU_EVENT_SUSPEND (ekern s)"
  by (simp add: event_waiter_def)

section \<open>Setting events\<close>

definition new_events :: "nat \<Rightarrow> 32 word \<Rightarrow> 32 word \<Rightarrow> 32 word" where
  "new_events operation current events = (if ev_and operation then and current events else or current events)"

text \<open>The tasks whose requests the new events satisfy, and the flags they consume.\<close>

definition released :: "addr \<Rightarrow> 32 word \<Rightarrow> esys \<Rightarrow> tid list" where
  "released gp E s = filter (\<lambda>t. request_met E (ev_requested_events (eblocks s t)) (ev_operation (eblocks s t)))
     (ev_suspension_list (groups s gp))"

lemma NU_Set_Events_facts:
  assumes inv: "ev_inv s" and gp: "gp \<noteq> NU_NULL" "ev_id_valid (groups s gp)" and op: "operation = NU_AND \<or> operation = NU_OR"
    and E: "E = new_events operation (ev_current_events (groups s gp)) events" and W: "W = released gp E s"
  shows "\<exists>s' p. NU_Set_Events gp events operation s = (s', NU_SUCCESS, p) \<and>
    groups s' = (groups s)(gp := (groups s gp)\<lparr>
       ev_tasks_waiting := (length (ev_suspension_list (groups s gp)) - length W) mod 4294967296,
       ev_suspension_list := filter (\<lambda>t. t \<notin> set W) (ev_suspension_list (groups s gp)),
       ev_current_events := and E (not (consumed (eblocks s) W 0))\<rparr>) \<and>
    eblocks s' = (\<lambda>t. if t \<in> set W then woken E (eblocks s t) else eblocks s t) \<and>
    EVD_Created_Event_Groups_List s' = EVD_Created_Event_Groups_List s \<and>
    ekern s' = fst (resume_each TCC_Resume_Task NU_EVENT_SUSPEND W (ekern s, False))"
proof -
  let ?L = "ev_suspension_list (groups s gp)"
  note I = ev_invD[OF inv gp(2)]
  define s1 where "s1 = upd_g gp (ev_current_events_update (\<lambda>_. E)) s"
  have s1_eq: "s1 = upd_g gp (\<lambda>g. g\<lparr>ev_current_events :=
      (if ev_and operation then and (ev_current_events g) events else or (ev_current_events g) events)\<rparr>) s"
    by (simp add: s1_def E new_events_def upd_g_def)
  have L1: "ev_suspension_list (groups s1 gp) = ?L" by (simp add: s1_def)
  have W1: "W = filter (met gp s1) ?L" 
    unfolding W released_def by (rule filter_cong[OF refl]) (simp add: met_def s1_def)
  have dW: "distinct W" "set W \<subseteq> set ?L" using I(1) by (auto simp: W released_def)
  have run: "NU_Set_Events gp events operation s =
      (if ?L \<noteq> [] then
         (let (s2, consume, preempt) = satisfy_waiters gp ?L (s1, 0, False)
          in (upd_g gp (\<lambda>g. g\<lparr>ev_current_events := and (ev_current_events g) (not consume)\<rparr>) s2, NU_SUCCESS, preempt))
       else (s1, NU_SUCCESS, False))"
    using gp op L1 unfolding NU_Set_Events_def s1_eq[symmetric] by (auto simp: Let_def)
  obtain s2 c p where s2: "satisfy_waiters gp ?L (s1, 0, False) = (s2, c, p)" by (metis prod_cases3)
  note F = satisfy_waiters_effect[OF s2 I(1) W1]
  let ?s' = "upd_g gp (\<lambda>g. g\<lparr>ev_current_events := and (ev_current_events g) (not c)\<rparr>) s2"
  have tw: "(dec32 ^^ length W) (ev_tasks_waiting (groups s gp)) = (length ?L - length W) mod 4294967296"
    using dec32_funpow[of "length W" "length ?L"] I(2) dW I(1) by (simp add: card_mono distinct_card[symmetric])
  have g: "groups ?s' = (groups s)(gp := (groups s gp)\<lparr>ev_tasks_waiting := (length ?L - length W) mod 4294967296,
       ev_suspension_list := filter (\<lambda>t. t \<notin> set W) ?L, ev_current_events := and E (not (consumed (eblocks s) W 0))\<rparr>)"
    using F I(1) by (simp add: s1_def tw fold_remove1)
  have rest: "eblocks ?s' = (\<lambda>t. if t \<in> set W then woken E (eblocks s t) else eblocks s t)"
    "EVD_Created_Event_Groups_List ?s' = EVD_Created_Event_Groups_List s"
    "ekern ?s' = fst (resume_each TCC_Resume_Task NU_EVENT_SUSPEND W (ekern s, False))"
  proof -
    have "ekern s2 = fst (resume_each TCC_Resume_Task NU_EVENT_SUSPEND W (ekern s1, False))"
      using F by (metis fst_conv)
    then show "ekern ?s' = fst (resume_each TCC_Resume_Task NU_EVENT_SUSPEND W (ekern s, False))" by (simp add: s1_def)
  qed (use F in \<open>simp_all add: s1_def cong: if_cong\<close>)
  show ?thesis
  proof (cases "?L = []")
    case True
    then have z: "W = []" using dW by simp
    have "s2 = s1" "c = 0" using s2 True by auto
    then show ?thesis using run True g rest z by (intro exI[of _ s1] exI[of _ False]) simp
  next
    case False
    then show ?thesis using run s2 g rest by (intro exI[of _ ?s'] exI[of _ p]) simp
  qed
qed

lemma released_facts:
  assumes inv: "ev_inv s" and gp: "ev_id_valid (groups s gp)"
  shows "distinct (released gp E s)" "set (released gp E s) \<subseteq> set (ev_suspension_list (groups s gp))"
    "sched_inv (fst (resume_each TCC_Resume_Task NU_EVENT_SUSPEND (released gp E s) (ekern s, p)))"
    "t \<in> set (released gp E s) \<Longrightarrow>
       is_ready t (fst (resume_each TCC_Resume_Task NU_EVENT_SUSPEND (released gp E s) (ekern s, p)))"
proof -
  show d: "distinct (released gp E s)" and sub: "set (released gp E s) \<subseteq> set (ev_suspension_list (groups s gp))"
    using ev_invD(1)[OF inv gp] by (auto simp: released_def)
  have "sched_inv (ekern s)" using inv by (simp add: ev_inv_def)
  moreover have "u \<in> set (released gp E s) \<Longrightarrow> waits_for u NU_EVENT_SUSPEND (ekern s)" for u
    using sub ev_invD(3)[OF inv gp] event_waiter_waits by blast
  ultimately show "sched_inv (fst (resume_each TCC_Resume_Task NU_EVENT_SUSPEND (released gp E s) (ekern s, p)))"
    "t \<in> set (released gp E s) \<Longrightarrow>
       is_ready t (fst (resume_each TCC_Resume_Task NU_EVENT_SUSPEND (released gp E s) (ekern s, p)))"
    using tc.resume_each_all[OF _ d, of "ekern s" NU_EVENT_SUSPEND p] by blast+
qed

lemma other_group:
  assumes "ev_inv s" "ev_id_valid (groups s gp)" "ev_id_valid (groups s q)" "q \<noteq> gp"
    "t \<in> set (ev_suspension_list (groups s q))"
  shows "t \<notin> set (ev_suspension_list (groups s gp))"
  using assms ev_invD(3)[of s] by (auto simp: event_waiter_def)

lemma NU_Set_Events_inv:
  assumes inv: "ev_inv s"
  shows "ev_inv (fst (NU_Set_Events gp events operation s))"
proof (cases "gp \<noteq> NU_NULL \<and> ev_id_valid (groups s gp) \<and> (operation = NU_AND \<or> operation = NU_OR)")
  case False
  then show ?thesis using inv by (auto simp: NU_Set_Events_def Let_def)
next
  case True
  let ?L = "ev_suspension_list (groups s gp)"
  define E where "E = new_events operation (ev_current_events (groups s gp)) events"
  define W where "W = released gp E s"
  obtain s' p where run: "NU_Set_Events gp events operation s = (s', NU_SUCCESS, p)"
    and g: "groups s' = (groups s)(gp := (groups s gp)\<lparr>ev_tasks_waiting := (length ?L - length W) mod 4294967296,
       ev_suspension_list := filter (\<lambda>t. t \<notin> set W) ?L, ev_current_events := and E (not (consumed (eblocks s) W 0))\<rparr>)"
    and e: "eblocks s' = (\<lambda>t. if t \<in> set W then woken E (eblocks s t) else eblocks s t)"
    and k: "ekern s' = fst (resume_each TCC_Resume_Task NU_EVENT_SUSPEND W (ekern s, False))"
    using NU_Set_Events_facts[OF inv _ _ _ E_def W_def] True by blast
  have valid: "ev_id_valid (groups s gp)" using True by blast
  note I = ev_invD[OF inv valid] and R = released_facts[OF inv valid, where E = E, folded W_def]
  have same: "tcbs (ekern s') t = tcbs (ekern s) t \<and> eblocks s' t = eblocks s t" if "t \<notin> set W" for t
    using that by (simp add: k e resume_each_others)
  have ok: "group_ok gp s'"
  proof -
    have "event_waiter gp s' t" if t: "t \<in> set ?L" "t \<notin> set W" for t
    proof -
      have "\<not> request_met E (ev_requested_events (eblocks s t)) (ev_operation (eblocks s t))"
        using t by (simp add: W_def released_def)
      then have "\<not> met gp s' t" using request_met_mono same[OF t(2)] by (auto simp: met_def g)
      then show ?thesis using I(3)[OF t(1)] same[OF t(2)] by (simp add: event_waiter_def waits_for_def)
    qed
    then show ?thesis using I(1) R(1,2) by (auto simp: group_ok_def g length_filter_out)
  qed
  have "group_ok q s'" if q: "ev_id_valid (groups s' q)" "q \<noteq> gp" for q
  proof (rule group_ok_frame)
    have vq: "ev_id_valid (groups s q)" using q by (simp add: g)
    then show "group_ok q s" using inv by (simp add: ev_inv_def)
    show "groups s' q = groups s q" using q by (simp add: g)
    fix t assume "t \<in> set (ev_suspension_list (groups s q))"
    then have "t \<notin> set W" using other_group[OF inv valid vq q(2)] R(2) by blast
    then show "tcbs (ekern s') t = tcbs (ekern s) t \<and> eblocks s' t = eblocks s t" by (rule same)
  qed
  then have "\<forall>q. ev_id_valid (groups s' q) \<longrightarrow> group_ok q s'" using ok by metis
  then show ?thesis using run R(3) by (simp add: ev_inv_def k)
qed

section \<open>Retrieving events\<close>

lemma ready_not_waiting: "runs_freely t (ekern s) \<Longrightarrow> \<not> event_waiter gp s t"
  by (auto simp: runs_freely_def event_waiter_def waits_for_def is_ready_def)

lemma suspend_event_caller:
  assumes inv: "ev_inv s" and r: "may_suspend (ekern s)" and t: "t = current_task (ekern s)"
    and gp: "ev_id_valid (groups s gp)" and n: "\<not> request_met (ev_current_events (groups s gp)) requested operation"
    and s': "groups s' = (groups s)(gp := (groups s gp)\<lparr>ev_tasks_waiting := inc32 (ev_tasks_waiting (groups s gp)),
        ev_suspension_list := ev_suspension_list (groups s gp) @ [t]\<rparr>)"
      "eblocks s' = (eblocks s)(t := (eblocks s t)\<lparr>ev_event_group := gp, ev_requested_events := requested, ev_operation := operation\<rparr>)"
      "ekern s' = fst (TCC_Suspend_Task t NU_EVENT_SUSPEND (Some t) suspend (ekern s))"
  shows "ev_inv s'"
proof -
  have si: "sched_inv (ekern s)" using inv by (simp add: ev_inv_def)
  have rf: "runs_freely t (ekern s)" "\<not> tc_signal_active (tcbs (ekern s) t)" using r t by (auto simp: may_suspend_def)
  note S = TCC_Suspend_Task_waits[OF si rf(1), where s = NU_EVENT_SUSPEND and cl = "Some t" and timeout = suspend, simplified, folded s'(3)]
  have fl: "tc_cleanup (tcbs (ekern s') t) = Some t" "\<not> tc_signal_active (tcbs (ekern s') t)"
    using rf by (simp_all add: s'(3) TCC_Suspend_Task_def Let_def runs_freely_def is_ready_def)
  have nin: "t \<notin> set (ev_suspension_list (groups s q))" if "ev_id_valid (groups s q)" for q
    using ev_invD(3)[OF inv that] ready_not_waiting[OF rf(1)] by blast
  have same: "tcbs (ekern s') u = tcbs (ekern s) u \<and> eblocks s' u = eblocks s u" if "u \<noteq> t" for u
    using that S(3) by (simp add: s'(2))
  have "event_waiter gp s' t" using S(2) fl n by (simp add: event_waiter_def met_def s'(1,2))
  moreover have "event_waiter gp s' u" if "u \<in> set (ev_suspension_list (groups s gp))" for u
  proof -
    have "u \<noteq> t" using that nin[OF gp] by blast
    then show ?thesis using ev_invD(3)[OF inv gp that] same[of u] by (simp add: event_waiter_def waits_for_def met_def s'(1))
  qed
  ultimately have ok: "group_ok gp s'"
    using ev_invD(1,2)[OF inv gp] nin[OF gp] by (auto simp: group_ok_def s'(1) inc32_def mod_Suc_eq)
  have "group_ok q s'" if q: "ev_id_valid (groups s' q)" "q \<noteq> gp" for q
  proof (rule group_ok_frame)
    have vq: "ev_id_valid (groups s q)" using q by (simp add: s'(1))
    then show "group_ok q s" using inv by (simp add: ev_inv_def)
    show "groups s' q = groups s q" using q by (simp add: s'(1))
    fix u assume "u \<in> set (ev_suspension_list (groups s q))"
    then have "u \<noteq> t" using nin[OF vq] by blast
    then show "tcbs (ekern s') u = tcbs (ekern s) u \<and> eblocks s' u = eblocks s u" by (rule same)
  qed
  then have "\<forall>q. ev_id_valid (groups s' q) \<longrightarrow> group_ok q s'" using ok by metis
  then show ?thesis using S(1) by (simp add: ev_inv_def)
qed

lemma NU_Retrieve_Events_inv:
  assumes inv: "ev_inv s" and r: "suspend \<noteq> 0 \<Longrightarrow> may_suspend (ekern s)"
  shows "ev_inv (fst (NU_Retrieve_Events gp requested operation dest suspend s))"
proof -
  let ?cur = "ev_current_events (groups s gp)"
  let ?c = "upd_g gp (\<lambda>g. g\<lparr>ev_current_events := and (ev_current_events g) (not requested)\<rparr>) s"
  let ?t = "current_task (ekern s)"
  let ?w = "(upd_eblock ?t (\<lambda>b. b\<lparr>ev_event_group := gp, ev_requested_events := requested, ev_operation := operation\<rparr>)
      (upd_g gp (\<lambda>g. g\<lparr>ev_tasks_waiting := inc32 (ev_tasks_waiting g),
         ev_suspension_list := ev_suspension_list g @ [?t]\<rparr>) s))
      \<lparr>ekern := fst (TCC_Suspend_Task ?t NU_EVENT_SUSPEND (Some ?t) suspend (ekern s))\<rparr>"
  have c: "ev_inv ?c" if gp: "ev_id_valid (groups s gp)"
  proof -
    have "group_ok gp ?c"
      using inv gp request_met_mono by (fastforce simp: ev_inv_def group_ok_def event_waiter_def waits_for_def met_def)
    moreover have "group_ok q ?c" if "ev_id_valid (groups s q)" "q \<noteq> gp" for q
      by (rule group_ok_frame[of q s]) (use inv that in \<open>auto simp: ev_inv_def\<close>)
    ultimately have "\<forall>q. ev_id_valid (groups ?c q) \<longrightarrow> group_ok q ?c" by auto
    then show ?thesis using inv by (simp add: ev_inv_def)
  qed
  have w: "ev_inv ?w" if gp: "ev_id_valid (groups s gp)" "\<not> request_met ?cur requested operation" "suspend \<noteq> 0"
    by (rule suspend_event_caller[OF inv r[OF gp(3)] refl gp(1,2), where suspend = suspend]) simp_all
  show ?thesis using c w inv by (auto simp: NU_Retrieve_Events_def Let_def split_beta)
qed

section \<open>Time-outs, deletion, creation\<close>

lemma event_timeout_facts:
  assumes inv: "ev_inv s" and gp: "ev_id_valid (groups s gp)" "t \<in> set (ev_suspension_list (groups s gp))"
    and ex: "tc_timer_active (tcbs (ekern s) t)" "tm_remaining_time (tm (ekern s)) (task_timer t) = 0"
    and s': "s' = event_timeout t s"
  shows "groups s' = (groups s)(gp := (groups s gp)\<lparr>ev_tasks_waiting := dec32 (ev_tasks_waiting (groups s gp)),
      ev_suspension_list := remove1 t (ev_suspension_list (groups s gp))\<rparr>)"
    "eblocks s' = (eblocks s)(t := (eblocks s t)\<lparr>ev_return_status := NU_TIMEOUT\<rparr>)"
    "sched_inv (ekern s')" "is_ready t (ekern s')" "u \<noteq> t \<Longrightarrow> tcbs (ekern s') u = tcbs (ekern s) u"
proof -
  have w: "event_waiter gp s t" by (rule ev_invD(3)[OF inv gp])
  let ?k1 = "upd_tcb (tc_timer_active_update (\<lambda>_. False)) t (ekern s)"
  have st: "tc_status (tcbs (ekern s) t) = NU_EVENT_SUSPEND" "\<not> tc_signal_active (tcbs (ekern s) t)"
    "tc_cleanup (tcbs (ekern s) t) = Some t" "ev_event_group (eblocks s t) = gp"
    using w by (auto simp: event_waiter_def waits_for_def)
  have eq: "s' = (EVC_Cleanup t s)\<lparr>ekern := fst (TCC_Resume_Task t NU_EVENT_SUSPEND ?k1)\<rparr>"
    using ex st by (simp add: s' event_timeout_def TCC_Task_Timeout_def Let_def)
  have w1: "waits_for t NU_EVENT_SUSPEND ?k1" using w by (simp add: event_waiter_def waits_for_def)
  show "groups s' = (groups s)(gp := (groups s gp)\<lparr>ev_tasks_waiting := dec32 (ev_tasks_waiting (groups s gp)),
      ev_suspension_list := remove1 t (ev_suspension_list (groups s gp))\<rparr>)"
    "eblocks s' = (eblocks s)(t := (eblocks s t)\<lparr>ev_return_status := NU_TIMEOUT\<rparr>)"
    using st(4) by (simp_all add: eq EVC_Cleanup_def Let_def)
  have "sched_inv (fst (TCC_Task_Timeout EVC_Cleanup t (ekern s, s)))"
    using inv st by (intro TCC_Task_Timeout_inv) (auto simp: ev_inv_def suspended_for_def)
  then show "sched_inv (ekern s')" by (simp add: s' event_timeout_def split_beta Let_def)
  show "is_ready t (ekern s')" using TCC_Resume_Task_ready[OF w1] by (simp add: eq is_ready_def)
  show "u \<noteq> t \<Longrightarrow> tcbs (ekern s') u = tcbs (ekern s) u" by (simp add: eq TCC_Resume_Task_others)
qed

lemma event_timeout_inv:
  assumes inv: "ev_inv s" and gp: "ev_id_valid (groups s gp)" "t \<in> set (ev_suspension_list (groups s gp))"
  shows "ev_inv (event_timeout t s)"
proof (cases "tc_timer_active (tcbs (ekern s) t) \<and> tm_remaining_time (tm (ekern s)) (task_timer t) = 0")
  case False
  then have "event_timeout t s = s"
    using ev_invD(3)[OF inv gp] by (auto simp: event_timeout_def TCC_Task_Timeout_def Let_def event_waiter_def)
  then show ?thesis using inv by simp
next
  case True
  let ?s = "event_timeout t s" and ?L = "ev_suspension_list (groups s gp)"
  note F = event_timeout_facts[OF inv gp conjunct1[OF True] conjunct2[OF True] refl]
  note I = ev_invD[OF inv gp(1)]
  have same: "tcbs (ekern ?s) u = tcbs (ekern s) u \<and> eblocks ?s u = eblocks s u" if "u \<noteq> t" for u
    using that F(2,5) by simp
  have ok: "group_ok gp ?s"
  proof -
    have "event_waiter gp ?s u" if "u \<in> set ?L" "u \<noteq> t" for u
      using I(3)[OF that(1)] same[OF that(2)] by (simp add: event_waiter_def waits_for_def met_def F(1))
    moreover have "dec32 (ev_tasks_waiting (groups s gp)) = length (remove1 t ?L) mod 4294967296"
    proof -
      have "1 \<le> length ?L" using gp(2) by (cases ?L) auto
      then show ?thesis using dec32_funpow[of 1 "length ?L"] I(2) gp(2) by (simp add: length_remove1)
    qed
    ultimately show ?thesis using I(1) by (auto simp: group_ok_def F(1))
  qed
  have "group_ok q ?s" if q: "ev_id_valid (groups ?s q)" "q \<noteq> gp" for q
  proof (rule group_ok_frame)
    have vq: "ev_id_valid (groups s q)" using q by (simp add: F(1))
    then show "group_ok q s" using inv by (simp add: ev_inv_def)
    show "groups ?s q = groups s q" using q by (simp add: F(1))
    fix u assume "u \<in> set (ev_suspension_list (groups s q))"
    then have "u \<noteq> t" using other_group[OF inv gp(1) vq q(2)] gp(2) by blast
    then show "tcbs (ekern ?s) u = tcbs (ekern s) u \<and> eblocks ?s u = eblocks s u" by (rule same)
  qed
  then have "\<forall>q. ev_id_valid (groups ?s q) \<longrightarrow> group_ok q ?s" using ok by metis
  then show ?thesis using F(3) by (simp add: ev_inv_def)
qed

lemma NU_Create_Event_Group_inv:
  assumes inv: "ev_inv s"
  shows "ev_inv (fst (NU_Create_Event_Group gp s))"
proof -
  let ?s = "upd_g gp (\<lambda>_. \<lparr>ev_id_valid = True, ev_current_events = 0, ev_tasks_waiting = 0, ev_suspension_list = []\<rparr>)
     (s\<lparr>EVD_Created_Event_Groups_List := EVD_Created_Event_Groups_List s @ [gp],
        EVD_Total_Event_Groups := inc32 (EVD_Total_Event_Groups s)\<rparr>)"
  have "group_ok q ?s" if q: "ev_id_valid (groups ?s q)" for q
  proof (cases "q = gp")
    case False
    show ?thesis by (rule group_ok_frame[of q s]) (use inv q False in \<open>auto simp: ev_inv_def\<close>)
  qed (simp add: group_ok_def)
  then have "ev_inv ?s" using inv by (simp add: ev_inv_def)
  then show ?thesis using inv by (simp add: NU_Create_Event_Group_def Let_def)
qed

lemma NU_Delete_Event_Group_facts:
  assumes inv: "ev_inv s" and gp: "gp \<noteq> NU_NULL" "ev_id_valid (groups s gp)" and L: "L = ev_suspension_list (groups s gp)"
  shows "\<exists>s' p. NU_Delete_Event_Group gp s = (s', NU_SUCCESS, p) \<and>
    groups s' = (groups s)(gp := (groups s gp)\<lparr>ev_id_valid := False\<rparr>) \<and> sched_inv (ekern s') \<and>
    EVD_Created_Event_Groups_List s' = remove1 gp (EVD_Created_Event_Groups_List s) \<and>
    (\<forall>t \<in> set L. is_ready t (ekern s') \<and> ev_return_status (eblocks s' t) = NU_GROUP_DELETED) \<and>
    (\<forall>t. t \<notin> set L \<longrightarrow> tcbs (ekern s') t = tcbs (ekern s) t \<and> eblocks s' t = eblocks s t)"
proof -
  let ?r = "resume_each TCC_Resume_Task NU_EVENT_SUSPEND L (ekern s, False)"
  let ?s1 = "(upd_g gp (ev_id_valid_update (\<lambda>_. False)) s)
    \<lparr>EVD_Created_Event_Groups_List := remove1 gp (EVD_Created_Event_Groups_List s),
     EVD_Total_Event_Groups := dec32 (EVD_Total_Event_Groups s)\<rparr>"
  let ?s' = "?s1\<lparr>eblocks := (\<lambda>t. if t \<in> set L then (eblocks ?s1 t)\<lparr>ev_return_status := NU_GROUP_DELETED\<rparr> else eblocks ?s1 t),
     ekern := fst ?r\<rparr>"
  have run: "NU_Delete_Event_Group gp s = (?s', NU_SUCCESS, snd ?r)"
    using gp by (simp add: NU_Delete_Event_Group_def L Let_def split_beta)
  have si: "sched_inv (ekern s)" using inv by (simp add: ev_inv_def)
  have "distinct L" "\<And>t. t \<in> set L \<Longrightarrow> waits_for t NU_EVENT_SUSPEND (ekern s)"
    using ev_invD[OF inv gp(2)] event_waiter_waits by (auto simp: L)
  note A = tc.resume_each_all[OF si this, of False]
  show ?thesis
    by (intro exI[of _ ?s'] exI[of _ "snd ?r"] conjI)
      (use run A in \<open>auto simp: resume_each_others\<close>)
qed

lemma NU_Delete_Event_Group_inv:
  assumes inv: "ev_inv s"
  shows "ev_inv (fst (NU_Delete_Event_Group gp s))"
proof (cases "gp \<noteq> NU_NULL \<and> ev_id_valid (groups s gp)")
  case True
  then have valid: "ev_id_valid (groups s gp)" by blast
  obtain s' p where run: "NU_Delete_Event_Group gp s = (s', NU_SUCCESS, p)"
    and g: "groups s' = (groups s)(gp := (groups s gp)\<lparr>ev_id_valid := False\<rparr>)" and si: "sched_inv (ekern s')"
    and same: "\<forall>t. t \<notin> set (ev_suspension_list (groups s gp)) \<longrightarrow>
      tcbs (ekern s') t = tcbs (ekern s) t \<and> eblocks s' t = eblocks s t"
    using NU_Delete_Event_Group_facts[OF inv _ _ refl, of gp] True by blast
  have "group_ok q s'" if q: "ev_id_valid (groups s' q)" for q
  proof (rule group_ok_frame)
    have n: "q \<noteq> gp" and vq: "ev_id_valid (groups s q)" using q by (auto simp: g split: if_splits)
    then show "group_ok q s" using inv by (simp add: ev_inv_def)
    show "groups s' q = groups s q" using n by (simp add: g)
    fix t assume "t \<in> set (ev_suspension_list (groups s q))"
    then show "tcbs (ekern s') t = tcbs (ekern s) t \<and> eblocks s' t = eblocks s t"
      using same other_group[OF inv valid vq n] by blast
  qed
  then show ?thesis using run si by (simp add: ev_inv_def)
qed (use inv in \<open>auto simp: NU_Delete_Event_Group_def Let_def\<close>)

section \<open>The steps of the component\<close>

text \<open>
  The services, time-outs of waiting tasks, and everything else that goes on in the kernel: any change of the kernel
  state that keeps its invariant and leaves the control blocks of the tasks waiting on event groups alone.
\<close>

definition listed :: "esys \<Rightarrow> tid \<Rightarrow> bool" where
  "listed s t \<longleftrightarrow> (\<exists>gp. ev_id_valid (groups s gp) \<and> t \<in> set (ev_suspension_list (groups s gp)))"

inductive estep :: "esys \<Rightarrow> esys \<Rightarrow> bool" where
  create: "estep s (fst (NU_Create_Event_Group gp s))"
| set_events: "estep s (fst (NU_Set_Events gp events operation s))"
| retrieve: "(suspend \<noteq> 0 \<Longrightarrow> may_suspend (ekern s)) \<Longrightarrow>
    estep s (fst (NU_Retrieve_Events gp requested operation dest suspend s))"
| time_out: "listed s t \<Longrightarrow> estep s (event_timeout t s)"
| delete: "estep s (fst (NU_Delete_Event_Group gp s))"
| kernel: "sched_inv k \<Longrightarrow> (\<And>t. listed s t \<Longrightarrow> tcbs k t = tcbs (ekern s) t) \<Longrightarrow> estep s (s\<lparr>ekern := k\<rparr>)"

lemma kernel_change_inv:
  assumes "ev_inv s" "sched_inv k" "\<And>t. listed s t \<Longrightarrow> tcbs k t = tcbs (ekern s) t"
  shows "ev_inv (s\<lparr>ekern := k\<rparr>)"
proof -
  have "group_ok gp (s\<lparr>ekern := k\<rparr>)" if "ev_id_valid (groups s gp)" for gp
    by (rule group_ok_frame[of gp s]) (use assms that in \<open>auto simp: ev_inv_def listed_def\<close>)
  then show ?thesis using assms(2) by (simp add: ev_inv_def)
qed

lemma estep_inv: "estep s s' \<Longrightarrow> ev_inv s \<Longrightarrow> ev_inv s'"
  by (induction rule: estep.induct)
    (auto intro: NU_Create_Event_Group_inv NU_Set_Events_inv NU_Retrieve_Events_inv NU_Delete_Event_Group_inv
      kernel_change_inv event_timeout_inv simp: listed_def)

lemma esteps_inv: "estep\<^sup>*\<^sup>* s s' \<Longrightarrow> ev_inv s \<Longrightarrow> ev_inv s'"
  by (induction rule: rtranclp_induct) (auto intro: estep_inv)

section \<open>Properties\<close>

text \<open>
  C19. No wake-up is lost: whatever services of event groups (called with suspension only by a task that runs in no
  signal handler and is not being suspended), time-outs of waiting tasks, and other changes of the kernel that leave
  the control blocks of the waiting tasks as they are (in particular no signal is sent to a waiting task, which would be ready
  while on the list) follow one another from a state without event groups, a task on the suspension list of a group is
  suspended for events, and its request is not satisfied by the events of the group; it is there once, and the counter
  of waiting tasks is the length of the list modulo \<open>2^32\<close>.
\<close>

theorem events_not_lost:
  assumes "sched_inv (ekern s0)" and "\<forall>q. \<not> ev_id_valid (groups s0 q)" and "estep\<^sup>*\<^sup>* s0 s"
    and "ev_id_valid (groups s gp)" and "t \<in> set (ev_suspension_list (groups s gp))"
  shows "waits_for t NU_EVENT_SUSPEND (ekern s) \<and>
    \<not> request_met (ev_current_events (groups s gp)) (ev_requested_events (eblocks s t)) (ev_operation (eblocks s t)) \<and>
    distinct (ev_suspension_list (groups s gp)) \<and>
    ev_tasks_waiting (groups s gp) = length (ev_suspension_list (groups s gp)) mod 4294967296"
proof -
  have "ev_inv s0" using assms(1,2) by (simp add: ev_inv_def)
  then have inv: "ev_inv s" by (rule esteps_inv[OF assms(3)])
  show ?thesis using ev_invD[OF inv assms(4)] assms(5) by (simp add: event_waiter_def met_def)
qed

text \<open>
  C20. Setting events: the flags of the group become \<open>E\<close>, the conjunction or disjunction of the old flags with the given
  ones. A waiting task is released precisely when its request is satisfied by \<open>E\<close>: it is then ready, its call
  returns \<open>NU_SUCCESS\<close> with the flags \<open>E\<close>, and it has left the list; every other waiting task keeps its place. What
  the released tasks consume is taken away only after all waiting tasks have been looked at, so that several of
  them can be released by the same event.
\<close>

theorem NU_Set_Events_effect:
  assumes "ev_inv s" and "gp \<noteq> NU_NULL" and "ev_id_valid (groups s gp)" and "operation = NU_AND \<or> operation = NU_OR"
    and "E = (if operation = NU_AND then and (ev_current_events (groups s gp)) events
              else or (ev_current_events (groups s gp)) events)"
    and "L = ev_suspension_list (groups s gp)"
    and "sat = (\<lambda>t. request_met E (ev_requested_events (eblocks s t)) (ev_operation (eblocks s t)))"
  shows "\<exists>s' p. NU_Set_Events gp events operation s = (s', NU_SUCCESS, p) \<and> sched_inv (ekern s') \<and>
    ev_suspension_list (groups s' gp) = filter (\<lambda>t. \<not> sat t) L \<and>
    (\<forall>t. if t \<in> set L \<and> sat t
         then is_ready t (ekern s') \<and> ev_return_status (eblocks s' t) = NU_SUCCESS \<and> ev_actual_events (eblocks s' t) = E
         else tcbs (ekern s') t = tcbs (ekern s) t \<and> eblocks s' t = eblocks s t) \<and>
    (\<forall>n. bit (ev_current_events (groups s' gp)) n \<longleftrightarrow>
       bit E n \<and> \<not> (\<exists>t \<in> set L. sat t \<and> ev_consume (ev_operation (eblocks s t)) \<and> bit (ev_requested_events (eblocks s t)) n)) \<and>
    (\<forall>q. q \<noteq> gp \<longrightarrow> groups s' q = groups s q)"
proof -
  have E: "E = new_events operation (ev_current_events (groups s gp)) events"
    using assms(4) by (auto simp: assms(5) new_events_def ev_options bit_0 bit_Suc numeral_eq_Suc)
  define W where "W = released gp E s"
  have W: "set W = {t \<in> set L. sat t}" by (simp add: W_def released_def assms(6,7))
  obtain s' p where run: "NU_Set_Events gp events operation s = (s', NU_SUCCESS, p)"
    and g: "groups s' = (groups s)(gp := (groups s gp)\<lparr>ev_tasks_waiting := (length L - length W) mod 4294967296,
       ev_suspension_list := filter (\<lambda>t. t \<notin> set W) L, ev_current_events := and E (not (consumed (eblocks s) W 0))\<rparr>)"
    and e: "eblocks s' = (\<lambda>t. if t \<in> set W then woken E (eblocks s t) else eblocks s t)"
    and k: "ekern s' = fst (resume_each TCC_Resume_Task NU_EVENT_SUSPEND W (ekern s, False))"
    using NU_Set_Events_facts[OF assms(1-4) E W_def] assms(6) by blast
  note R = released_facts[OF assms(1,3), where E = E, folded W_def]
  have "if t \<in> set L \<and> sat t
      then is_ready t (ekern s') \<and> ev_return_status (eblocks s' t) = NU_SUCCESS \<and> ev_actual_events (eblocks s' t) = E
      else tcbs (ekern s') t = tcbs (ekern s) t \<and> eblocks s' t = eblocks s t" for t
    using W R(4) by (auto simp: k e woken_def resume_each_others)
  moreover have "bit (ev_current_events (groups s' gp)) n \<longleftrightarrow>
       bit E n \<and> \<not> (\<exists>t \<in> set L. sat t \<and> ev_consume (ev_operation (eblocks s t)) \<and> bit (ev_requested_events (eblocks s t)) n)" for n
    using W by (auto simp: g bit_consumed bit_and_iff bit_not_iff dest: bit_imp_le_length)
  moreover have "ev_suspension_list (groups s' gp) = filter (\<lambda>t. \<not> sat t) L"
    using W by (auto simp: g intro: filter_cong)
  moreover have "sched_inv (ekern s')" using R(3) by (simp add: k)
  moreover have "\<forall>q. q \<noteq> gp \<longrightarrow> groups s' q = groups s q" by (simp add: g)
  ultimately show ?thesis using run by blast
qed

text \<open>
  Retrieving events: if the request is satisfied, the call returns \<open>NU_SUCCESS\<close> with the flags of the group, from
  which the requested ones are removed if the operation consumes, and nothing else changes. Otherwise the call without
  suspension returns \<open>NU_NOT_PRESENT\<close> and changes nothing, and the call with suspension puts the caller, suspended
  for events, at the end of the list with its request.
\<close>

theorem NU_Retrieve_Events_effect:
  assumes "ev_inv s" and "gp \<noteq> NU_NULL" and "ev_id_valid (groups s gp)"
    and "operation \<in> {NU_AND, NU_AND_CONSUME, NU_OR, NU_OR_CONSUME}"
    and "suspend \<noteq> 0 \<longrightarrow> \<not> TCCE_Suspend_Error (ekern s) \<and> may_suspend (ekern s)"
    and "cur = ev_current_events (groups s gp)" and "t = current_task (ekern s)"
  shows "if request_met cur requested operation then
      (\<exists>s'. NU_Retrieve_Events gp requested operation True suspend s = (s', Some NU_SUCCESS, Some cur, False) \<and>
        s' = s\<lparr>groups := (groups s)(gp := (groups s gp)\<lparr>ev_current_events :=
               (if ev_consume operation then and cur (not requested) else cur)\<rparr>)\<rparr>)
    else if suspend = 0 then
      NU_Retrieve_Events gp requested operation True suspend s = (s, Some NU_NOT_PRESENT, Some 0, False)
    else (\<exists>s' leaves. NU_Retrieve_Events gp requested operation True suspend s = (s', None, None, leaves) \<and>
        ev_suspension_list (groups s' gp) = ev_suspension_list (groups s gp) @ [t] \<and>
        ev_current_events (groups s' gp) = cur \<and> waits_for t NU_EVENT_SUSPEND (ekern s') \<and>
        ev_requested_events (eblocks s' t) = requested \<and> ev_operation (eblocks s' t) = operation \<and>
        (\<forall>u. u \<noteq> t \<longrightarrow> tcbs (ekern s') u = tcbs (ekern s) u \<and> eblocks s' u = eblocks s u))"
proof -
  have chk: "error_checks
     [(gp = NU_NULL, NU_INVALID_GROUP), (\<not> ev_id_valid (groups s gp), NU_INVALID_GROUP),
      (operation \<noteq> NU_AND \<and> operation \<noteq> NU_AND_CONSUME \<and> operation \<noteq> NU_OR \<and> operation \<noteq> NU_OR_CONSUME,
       NU_INVALID_OPERATION),
      (suspend \<noteq> 0 \<and> TCCE_Suspend_Error (ekern s), NU_INVALID_SUSPEND), (\<not> True, NU_INVALID_POINTER)] NU_SUCCESS = NU_SUCCESS"
    using assms(2-5) by auto
  consider "request_met cur requested operation" | "\<not> request_met cur requested operation" "suspend = 0"
    | "\<not> request_met cur requested operation" "suspend \<noteq> 0" by blast
  then show ?thesis
  proof cases
    case 1
    then show ?thesis unfolding NU_Retrieve_Events_def chk by (simp add: assms(6) upd_g_def Let_def)
  next
    case 2
    then show ?thesis unfolding NU_Retrieve_Events_def chk by (simp add: assms(6) Let_def)
  next
    case 3
    have si: "sched_inv (ekern s)" using assms(1) by (simp add: ev_inv_def)
    have rf: "runs_freely t (ekern s)" using assms(5,7) 3(2) by (simp add: may_suspend_def)
    note S = TCC_Suspend_Task_waits[OF si rf, where s = NU_EVENT_SUSPEND and cl = "Some t" and timeout = suspend, simplified]
    show ?thesis
      using 3 S unfolding NU_Retrieve_Events_def chk by (simp add: assms(6,7) Let_def split_beta)
  qed
qed

section \<open>Witnesses\<close>

text \<open>Task 1 runs; then it waits for the flags 0 and 2 of the group at address 7 and for their consumption.\<close>

definition ev0 :: esys where
  "ev0 = \<lparr>groups = (\<lambda>_. \<lparr>ev_id_valid = False, ev_current_events = 0, ev_tasks_waiting = 0, ev_suspension_list = []\<rparr>),
     EVD_Created_Event_Groups_List = [], EVD_Total_Event_Groups = 0,
     eblocks = (\<lambda>_. \<lparr>ev_event_group = 0, ev_requested_events = 0, ev_operation = 0, ev_return_status = NU_SUCCESS,
       ev_actual_events = 0\<rparr>), ekern = kernel2\<rparr>"

definition ev1 :: esys where
  "ev1 = fst (NU_Create_Event_Group 7 ev0)"

definition ev2 :: esys where
  "ev2 = fst (NU_Retrieve_Events 7 5 NU_AND_CONSUME True NU_SUSPEND ev1)"

lemma ev1_simps: "groups ev1 7 = \<lparr>ev_id_valid = True, ev_current_events = 0, ev_tasks_waiting = 0, ev_suspension_list = []\<rparr>"
  "ekern ev1 = kernel2" "sched_inv (ekern ev0)" "\<forall>q. \<not> ev_id_valid (groups ev0 q)"
  by (simp_all add: ev1_def NU_Create_Event_Group_def ev0_def inv_kernel2)

lemma ev2_simps: "ev_suspension_list (groups ev2 7) = [1]" "ev_id_valid (groups ev2 7)" "ev_current_events (groups ev2 7) = 0"
  "ev_requested_events (eblocks ev2 1) = 5" "ev_operation (eblocks ev2 1) = NU_AND_CONSUME"
  by (simp_all add: ev2_def NU_Retrieve_Events_def ev1_simps request_met_def runs_kernel2 ev_options NU_SUSPEND_def
      Let_def split_beta)

lemmas ev2_eval = ev2_simps ev2_simps(4,5)[unfolded One_nat_def]

lemma ev_steps: "estep\<^sup>*\<^sup>* ev0 ev2"
proof -
  have "estep ev0 ev1" unfolding ev1_def by (rule estep.create)
  moreover have "estep ev1 ev2" unfolding ev2_def by (rule estep.retrieve) (simp add: ev1_simps runs_kernel2)
  ultimately show ?thesis by simp
qed

lemma ev2_inv: "ev_inv ev2"
  by (rule esteps_inv[OF ev_steps]) (use ev1_simps in \<open>simp add: ev_inv_def\<close>)

theorem events_not_lost_witness:
  "waits_for 1 NU_EVENT_SUSPEND (ekern ev2) \<and> \<not> request_met (ev_current_events (groups ev2 7)) 5 NU_AND_CONSUME \<and>
   ev_tasks_waiting (groups ev2 7) = 1"
  using events_not_lost[OF ev1_simps(3,4) ev_steps, of 7 1] by (simp add: ev2_eval)

theorem NU_Set_Events_effect_witness:
  "\<exists>s' p. NU_Set_Events 7 13 NU_OR ev2 = (s', NU_SUCCESS, p) \<and> is_ready 1 (ekern s') \<and>
     ev_actual_events (eblocks s' 1) = 13 \<and> ev_suspension_list (groups s' 7) = [] \<and>
     \<not> bit (ev_current_events (groups s' 7)) 2 \<and> bit (ev_current_events (groups s' 7)) 3"
proof -
  let ?sat = "\<lambda>t. request_met 13 (ev_requested_events (eblocks ev2 t)) (ev_operation (eblocks ev2 t))"
  have sat: "?sat 1" by (simp add: ev2_eval request_met_def ev_options Let_def)
  have "(13 :: 32 word) = (if NU_OR = NU_AND then and (ev_current_events (groups ev2 7)) 13
      else or (ev_current_events (groups ev2 7)) 13)" by (simp add: ev2_eval ev_options)
  then obtain s' p where s': "NU_Set_Events 7 13 NU_OR ev2 = (s', NU_SUCCESS, p)"
    "ev_suspension_list (groups s' 7) = filter (\<lambda>t. \<not> ?sat t) [1]"
    "\<forall>t. if t \<in> set [1] \<and> ?sat t
       then is_ready t (ekern s') \<and> ev_return_status (eblocks s' t) = NU_SUCCESS \<and> ev_actual_events (eblocks s' t) = 13
       else tcbs (ekern s') t = tcbs (ekern ev2) t \<and> eblocks s' t = eblocks ev2 t"
    "\<forall>n. bit (ev_current_events (groups s' 7)) n \<longleftrightarrow> bit (13 :: 32 word) n \<and>
       \<not> (\<exists>t \<in> set [1]. ?sat t \<and> ev_consume (ev_operation (eblocks ev2 t)) \<and> bit (ev_requested_events (eblocks ev2 t)) n)"
    using NU_Set_Events_effect[OF ev2_inv, of 7 NU_OR 13 13 "[1]" ?sat] ev2_simps(1,2) by auto
  have "is_ready 1 (ekern s')" "ev_actual_events (eblocks s' 1) = 13" using s'(3)[rule_format, of 1] sat by auto
  moreover have "\<not> bit (ev_current_events (groups s' 7)) 2" "bit (ev_current_events (groups s' 7)) 3"
    using s'(4)[rule_format, of 2] s'(4)[rule_format, of 3] sat by (simp_all add: ev2_eval ev_options)
  ultimately show ?thesis using s'(1,2) sat by auto
qed

theorem NU_Retrieve_Events_effect_witness:
  "NU_Retrieve_Events 7 4 NU_OR True 0 ev2 = (ev2, Some NU_NOT_PRESENT, Some 0, False)"
proof -
  have "\<not> request_met 0 4 NU_OR" by (simp add: request_met_def ev_options Let_def)
  then show ?thesis
    using NU_Retrieve_Events_effect[OF ev2_inv, of 7 NU_OR 0 0 "current_task (ekern ev2)" 4] ev2_simps(2,3) by simp
qed

end
