(* ===== verification/Semaphores.thy ===== *)
theory Semaphores
  imports Scheduler Common_Services
begin

text \<open>
  Counting semaphores and priority-inheritance semaphores (\<open>smc_common.c\<close>, \<open>smc_delete.c\<close>, \<open>sms_reset.c\<close>).

  The control blocks are objects of a store, a suspension block is addressed by its task, the rings of suspension
  blocks and of semaphores owned by a task (\<open>tc_semaphore_list\<close>) are lists. Semaphores with priority inheritance are
  obtained by tasks; the calling task is \<open>current_task\<close>, which is 0, no task, when another thread calls.
\<close>

section \<open>Data\<close>

datatype sm_option = NU_FIFO | NU_PRIORITY | NU_PRIORITY_INHERIT

record sm_scb =
  sm_id_valid :: bool
  sm_semaphore_count :: nat
  sm_suspend_type :: sm_option
  sm_owner_killed :: bool
  sm_semaphore_owner :: "tid option"
  sm_tasks_waiting :: nat
  sm_suspension_list :: "tid list"

record sm_suspend =
  sm_cs_priority :: nat
  sm_semaphore :: addr
  sm_return_status :: status

record ssys =
  sems :: "addr \<Rightarrow> sm_scb"
  SMD_Created_Semaphores_List :: "addr list"
  SMD_Total_Semaphores :: nat
  sblocks :: "tid \<Rightarrow> sm_suspend"
  tc_semaphore_list :: "tid \<Rightarrow> addr list"
  skern :: kernel

definition upd_s :: "addr \<Rightarrow> (sm_scb \<Rightarrow> sm_scb) \<Rightarrow> ssys \<Rightarrow> ssys" where
  "upd_s sp f s = s\<lparr>sems := (sems s)(sp := f (sems s sp))\<rparr>"

definition upd_sblock :: "tid \<Rightarrow> (sm_suspend \<Rightarrow> sm_suspend) \<Rightarrow> ssys \<Rightarrow> ssys" where
  "upd_sblock t f s = s\<lparr>sblocks := (sblocks s)(t := f (sblocks s t))\<rparr>"

definition upd_skern :: "(kernel \<Rightarrow> kernel) \<Rightarrow> ssys \<Rightarrow> ssys" where
  "upd_skern f s = s\<lparr>skern := f (skern s)\<rparr>"

lemma upd_s_simps [simp]:
  "sems (upd_s sp f s) = (sems s)(sp := f (sems s sp))" "sblocks (upd_s sp f s) = sblocks s"
  "skern (upd_s sp f s) = skern s" "tc_semaphore_list (upd_s sp f s) = tc_semaphore_list s"
  "SMD_Created_Semaphores_List (upd_s sp f s) = SMD_Created_Semaphores_List s"
  by (simp_all add: upd_s_def)

lemma upd_sblock_simps [simp]:
  "sblocks (upd_sblock t f s) = (sblocks s)(t := f (sblocks s t))" "sems (upd_sblock t f s) = sems s"
  "skern (upd_sblock t f s) = skern s" "tc_semaphore_list (upd_sblock t f s) = tc_semaphore_list s"
  "SMD_Created_Semaphores_List (upd_sblock t f s) = SMD_Created_Semaphores_List s"
  by (simp_all add: upd_sblock_def)

lemma upd_skern_simps [simp]:
  "skern (upd_skern f s) = f (skern s)" "sems (upd_skern f s) = sems s" "sblocks (upd_skern f s) = sblocks s"
  "tc_semaphore_list (upd_skern f s) = tc_semaphore_list s"
  "SMD_Created_Semaphores_List (upd_skern f s) = SMD_Created_Semaphores_List s"
  by (simp_all add: upd_skern_def)

section \<open>Operations\<close>

definition NU_Create_Semaphore :: "addr \<Rightarrow> nat \<Rightarrow> sm_option option \<Rightarrow> ssys \<Rightarrow> ssys \<times> status" where
  "NU_Create_Semaphore sp initial_count suspend_type s =
    (let status = error_checks
           [(sp = NU_NULL \<or> sm_id_valid (sems s sp), NU_INVALID_SEMAPHORE),
            (suspend_type = None, NU_INVALID_SUSPEND),
            (suspend_type = Some NU_PRIORITY_INHERIT \<and> initial_count \<noteq> 1, NU_INVALID_COUNT)] NU_SUCCESS
     in if status = NU_SUCCESS then
          (upd_s sp (\<lambda>_. \<lparr>sm_id_valid = True, sm_semaphore_count = initial_count, sm_suspend_type = the suspend_type,
               sm_owner_killed = False, sm_semaphore_owner = None, sm_tasks_waiting = 0, sm_suspension_list = []\<rparr>)
             (s\<lparr>SMD_Created_Semaphores_List := SMD_Created_Semaphores_List s @ [sp],
                SMD_Total_Semaphores := inc32 (SMD_Total_Semaphores s)\<rparr>), NU_SUCCESS)
        else (s, status))"

text \<open>Making a task the owner of a semaphore with priority inheritance.\<close>

definition own :: "addr \<Rightarrow> tid \<Rightarrow> ssys \<Rightarrow> ssys" where
  "own sp t s =
    (let s1 = upd_skern (upd_tcb (tc_semaphore_count_update inc8) t) s;
         s2 = upd_s sp (sm_semaphore_owner_update (\<lambda>_. Some t)) s1
     in s2\<lparr>tc_semaphore_list := (tc_semaphore_list s2)(t := tc_semaphore_list s2 t @ [sp])\<rparr>)"

text \<open>The suspension of the caller: the block is placed, the owner inherits the priority of the caller.\<close>

definition enlist :: "addr \<Rightarrow> tid \<Rightarrow> ssys \<Rightarrow> ssys" where
  "enlist sp task s =
    (let q = sems s sp;
         s1 = upd_s sp (sm_tasks_waiting_update inc32) s;
         s2 = upd_sblock task (\<lambda>b. b\<lparr>sm_semaphore := sp\<rparr>) s1
     in if sm_suspend_type q = NU_FIFO
        then upd_s sp (\<lambda>q. q\<lparr>sm_suspension_list := sm_suspension_list q @ [task]\<rparr>) s2
        else
          (let s3 = upd_sblock task (\<lambda>b. b\<lparr>sm_cs_priority := tc_priority (tcbs (skern s2) task)\<rparr>) s2;
               s4 = upd_s sp (\<lambda>q. q\<lparr>sm_suspension_list :=
                      priority_place (\<lambda>u. sm_cs_priority (sblocks s3 u)) task (sm_suspension_list q)\<rparr>) s3
           in case sm_semaphore_owner q of
                Some owner \<Rightarrow>
                  if sm_suspend_type q = NU_PRIORITY_INHERIT \<and>
                     tc_priority (tcbs (skern s4) task) < tc_priority (tcbs (skern s4) owner)
                  then upd_skern (\<lambda>k. fst (TCS_Change_Priority owner (tc_priority (tcbs k task)) False k)) s4
                  else s4
              | None \<Rightarrow> s4))"

text \<open>The result: the status (\<open>None\<close> when the caller has been suspended), and whether control goes to the system.\<close>

definition NU_Obtain_Semaphore :: "addr \<Rightarrow> nat \<Rightarrow> ssys \<Rightarrow> ssys \<times> status option \<times> bool" where
  "NU_Obtain_Semaphore sp suspend s =
    (let status = error_checks
           [(sp = NU_NULL, NU_INVALID_SEMAPHORE), (\<not> sm_id_valid (sems s sp), NU_INVALID_SEMAPHORE),
            (suspend \<noteq> 0 \<and> TCCE_Suspend_Error (skern s), NU_INVALID_SUSPEND)] NU_SUCCESS;
         task = current_task (skern s);
         q = sems s sp
     in if status \<noteq> NU_SUCCESS then (s, Some status, False)
        else if sm_semaphore_count q \<noteq> 0 then
          (let s1 = upd_s sp (sm_semaphore_count_update dec32) s
           in if sm_suspend_type q = NU_PRIORITY_INHERIT then
                (own sp task (upd_s sp (sm_owner_killed_update (\<lambda>_. False)) s1),
                 Some (if sm_owner_killed q then NU_SEMAPHORE_OWNER_DEAD else NU_SUCCESS), False)
              else (s1, Some NU_SUCCESS, False))
        else if suspend \<noteq> 0 then
          (if sm_suspend_type q = NU_PRIORITY_INHERIT \<and> sm_semaphore_owner q = Some task
           then (s, Some NU_SEMAPHORE_ALREADY_OWNED, False)
           else
             (let s1 = enlist sp task s;
                  (k, leaves, _) = TCC_Suspend_Task task NU_SEMAPHORE_SUSPEND (Some task) suspend (skern s1)
              in (s1\<lparr>skern := k\<rparr>, None, leaves)))
        else (s, Some NU_UNAVAILABLE, False))"

text \<open>The end of \<open>NU_Obtain_Semaphore\<close>, when the suspended task \<open>t\<close> runs again.\<close>

definition obtain_resumed :: "addr \<Rightarrow> tid \<Rightarrow> ssys \<Rightarrow> ssys \<times> status" where
  "obtain_resumed sp t s =
    (let status = sm_return_status (sblocks s t)
     in (if status = NU_SEMAPHORE_OWNER_DEAD then upd_s sp (sm_owner_killed_update (\<lambda>_. False)) s else s, status))"

definition SMC_Free_PI_Semaphore :: "addr \<Rightarrow> tid \<Rightarrow> ssys \<Rightarrow> ssys \<times> bool" where
  "SMC_Free_PI_Semaphore sp task s =
    (let s1 = upd_skern (upd_tcb (tc_semaphore_count_update dec8) task) s;
         s2 = s1\<lparr>tc_semaphore_list := (tc_semaphore_list s1)(task := remove1 sp (tc_semaphore_list s1 task))\<rparr>;
         c = tcbs (skern s2) task
     in if tc_semaphore_count c = 0 \<and> tc_base_priority c \<noteq> tc_priority c then
          (let (k, pi_preempt) = TCS_Change_Priority task (tc_base_priority c) False (skern s2)
           in (s2\<lparr>skern := k\<rparr>, pi_preempt))
        else (s2, False))"

definition smc_release_semaphore :: "addr \<Rightarrow> tid \<Rightarrow> ssys \<Rightarrow> ssys \<times> status \<times> bool" where
  "smc_release_semaphore sp task s =
    (if sm_suspend_type (sems s sp) = NU_PRIORITY_INHERIT \<and> sm_semaphore_owner (sems s sp) \<noteq> Some task
     then (s, NU_SEMAPHORE_INVALID_OWNER, False)
     else
       (let (s1, preempt) = (if sm_suspend_type (sems s sp) = NU_PRIORITY_INHERIT
              then (let (s', p) = SMC_Free_PI_Semaphore sp task s
                    in (upd_s sp (sm_semaphore_owner_update (\<lambda>_. None)) s', p))
              else (s, False));
            q = sems s1 sp
        in if sm_tasks_waiting q \<noteq> 0 then
             (let t = hd (sm_suspension_list q);
                  s2 = upd_s sp (\<lambda>q. q\<lparr>sm_tasks_waiting := dec32 (sm_tasks_waiting q),
                         sm_suspension_list := tl (sm_suspension_list q)\<rparr>) s1;
                  s3 = upd_sblock t (sm_return_status_update (\<lambda>_. NU_SUCCESS)) s2;
                  s4 = (if sm_suspend_type q = NU_PRIORITY_INHERIT
                        then (let s' = own sp t s3
                              in if sm_owner_killed q
                                 then upd_sblock t (sm_return_status_update (\<lambda>_. NU_SEMAPHORE_OWNER_DEAD)) s' else s')
                        else s3);
                  (k, p) = TCC_Resume_Task t NU_SEMAPHORE_SUSPEND (skern s4)
              in (s4\<lparr>skern := k\<rparr>, NU_SUCCESS, preempt \<or> p))
           else (upd_s sp (sm_semaphore_count_update inc32) s1, NU_SUCCESS, preempt)))"

definition NU_Release_Semaphore :: "addr \<Rightarrow> ssys \<Rightarrow> ssys \<times> status \<times> bool" where
  "NU_Release_Semaphore sp s =
    (let status = error_checks
           [(sp = NU_NULL, NU_INVALID_SEMAPHORE), (\<not> sm_id_valid (sems s sp), NU_INVALID_SEMAPHORE),
            (inc32 (sm_semaphore_count (sems s sp)) = 0, NU_SEMAPHORE_COUNT_ROLLOVER)] NU_SUCCESS
     in if status = NU_SUCCESS then smc_release_semaphore sp (current_task (skern s)) s else (s, status, False))"

definition SMC_Cleanup :: "tid \<Rightarrow> ssys \<Rightarrow> ssys" where
  "SMC_Cleanup t s =
    (let sp = sm_semaphore (sblocks s t)
     in upd_s sp (\<lambda>q. q\<lparr>sm_tasks_waiting := dec32 (sm_tasks_waiting q),
                    sm_suspension_list := remove1 t (sm_suspension_list q)\<rparr>)
          (upd_sblock t (sm_return_status_update (\<lambda>_. NU_TIMEOUT)) s))"

definition SMC_Kill_Semaphore_Owner :: "addr \<Rightarrow> tid \<Rightarrow> ssys \<Rightarrow> ssys \<times> bool" where
  "SMC_Kill_Semaphore_Owner sp owning_task s =
    (if sm_semaphore_owner (sems s sp) = Some owning_task
     then (let (s1, _, preempt) = smc_release_semaphore sp owning_task (upd_s sp (sm_owner_killed_update (\<lambda>_. True)) s)
           in (s1, preempt))
     else (s, False))"

text \<open>The loops of reset and delete over the suspended tasks.\<close>

definition lift_all_sem :: "status \<Rightarrow> tid list \<Rightarrow> ssys \<times> bool \<Rightarrow> ssys \<times> bool" where
  "lift_all_sem st ts = (\<lambda>(s, preempt).
    (let (k, p) = resume_each TCC_Resume_Task NU_SEMAPHORE_SUSPEND ts (skern s, preempt)
     in (s\<lparr>sblocks := (\<lambda>t. if t \<in> set ts then (sblocks s t)\<lparr>sm_return_status := st\<rparr> else sblocks s t), skern := k\<rparr>, p)))"

definition NU_Reset_Semaphore :: "addr \<Rightarrow> nat \<Rightarrow> ssys \<Rightarrow> ssys \<times> status \<times> bool" where
  "NU_Reset_Semaphore sp initial_count s =
    (let status = error_checks
           [(sp = NU_NULL, NU_INVALID_SEMAPHORE), (\<not> sm_id_valid (sems s sp), NU_INVALID_SEMAPHORE),
            (sm_suspend_type (sems s sp) = NU_PRIORITY_INHERIT \<and> initial_count \<noteq> 1, NU_INVALID_COUNT)] NU_SUCCESS
     in if status = NU_SUCCESS then
          (let q = sems s sp;
               (s1, preempt) = (case sm_semaphore_owner q of
                   Some owner \<Rightarrow> if sm_suspend_type q = NU_PRIORITY_INHERIT then SMC_Free_PI_Semaphore sp owner s else (s, False)
                 | None \<Rightarrow> (s, False));
               (s2, preempt2) = lift_all_sem NU_SEMAPHORE_RESET (sm_suspension_list q) (s1, preempt);
               s3 = upd_s sp (\<lambda>q. q\<lparr>sm_semaphore_count := initial_count, sm_tasks_waiting := 0, sm_suspension_list := [],
                      sm_semaphore_owner := (if sm_suspend_type q = NU_PRIORITY_INHERIT then None else sm_semaphore_owner q)\<rparr>) s2
           in (s3, NU_SUCCESS, preempt2))
        else (s, status, False))"

definition NU_Delete_Semaphore :: "addr \<Rightarrow> ssys \<Rightarrow> ssys \<times> status \<times> bool" where
  "NU_Delete_Semaphore sp s =
    (let status = error_checks [(sp = NU_NULL \<or> \<not> sm_id_valid (sems s sp), NU_INVALID_SEMAPHORE)] NU_SUCCESS
     in if status \<noteq> NU_SUCCESS then (s, status, False)
        else
          (let task = current_task (skern s); q = sems s sp; pi = (sm_suspend_type q = NU_PRIORITY_INHERIT)
           in if pi \<and> sm_semaphore_owner q \<noteq> Some task \<and> sm_semaphore_owner q \<noteq> None
              then (s, NU_SEMAPHORE_INVALID_OWNER, False)
              else
                (let (s1, preempt) = (if pi \<and> sm_semaphore_owner q = Some task
                       then SMC_Free_PI_Semaphore sp task s else (s, False));
                     s2 = (upd_s sp (sm_id_valid_update (\<lambda>_. False)) s1)
                            \<lparr>SMD_Created_Semaphores_List := remove1 sp (SMD_Created_Semaphores_List s1),
                             SMD_Total_Semaphores := dec32 (SMD_Total_Semaphores s1)\<rparr>;
                     (s3, preempt2) = lift_all_sem NU_SEMAPHORE_DELETED (sm_suspension_list q) (s2, preempt)
                 in (s3, NU_SUCCESS, preempt2))))"

text \<open>A time-out of a suspended task (\<open>TCC_Task_Timeout\<close> with the clean-up routine of semaphores).\<close>

definition semaphore_timeout :: "tid \<Rightarrow> ssys \<Rightarrow> ssys" where
  "semaphore_timeout t s =
    (let (k, s1) = TCC_Task_Timeout SMC_Cleanup t (skern s, s) in s1\<lparr>skern := k\<rparr>)"

section \<open>What the kernel operations leave alone\<close>

text \<open>The part of a control block on which a suspension rests.\<close>

definition wait_view :: "tcb \<Rightarrow> suspend_type \<times> bool \<times> nat option \<times> suspend_type \<times> bool" where
  "wait_view c = (tc_status c, tc_signal_active c, tc_cleanup c, tc_debug_suspend c, tc_delayed_suspend c)"

lemma unlink_ready_tcbs [simp]: "tcbs (unlink_ready t k) = tcbs k"
  by (simp add: unlink_ready_def Let_def)

lemma link_ready_tcbs [simp]: "tcbs (link_ready t k) = tcbs k"
  by (simp add: link_ready_def Let_def)

lemma TCS_Change_Priority_tcb:
  "wait_view (tcbs (fst (TCS_Change_Priority t n a k)) u) = wait_view (tcbs k u)"
  "tc_semaphore_count (tcbs (fst (TCS_Change_Priority t n a k)) u) = tc_semaphore_count (tcbs k u)"
  "u \<noteq> t \<Longrightarrow> tcbs (fst (TCS_Change_Priority t n a k)) u = tcbs k u"
  by (auto simp: TCS_Change_Priority_def wait_view_def set_priority_fields_def Let_def split: option.splits)

lemma TCS_Change_Priority_priority:
  "tc_status (tcbs k t) = NU_READY \<Longrightarrow> tc_semaphore_count (tcbs k t) = 0 \<or> n \<le> tc_priority (tcbs k t) \<Longrightarrow>
     tc_priority (tcbs (fst (TCS_Change_Priority t n False k)) t) = n \<and>
     tc_base_priority (tcbs (fst (TCS_Change_Priority t n False k)) t) = tc_base_priority (tcbs k t)"
  "tc_status (tcbs k t) \<noteq> NU_READY \<Longrightarrow>
     tc_priority (tcbs (fst (TCS_Change_Priority t n False k)) t) = n \<and>
     tc_base_priority (tcbs (fst (TCS_Change_Priority t n False k)) t) = tc_priority (tcbs k t)"
  by (auto simp: TCS_Change_Priority_def set_priority_fields_def Let_def split: option.splits)

lemma TCS_Change_Priority_base:
  "n < 256 \<Longrightarrow> sched_inv k \<Longrightarrow> tc_base_priority (tcbs k u) < 256 \<Longrightarrow>
     tc_base_priority (tcbs (fst (TCS_Change_Priority t n False k)) u) < 256"
  using sched_inv_fields[of k t]
  by (auto simp: TCS_Change_Priority_def set_priority_fields_def fields_ok_def Let_def split: option.splits)

lemma TCC_Resume_Task_counts [simp]:
  "tc_semaphore_count (tcbs (fst (TCC_Resume_Task t r k)) u) = tc_semaphore_count (tcbs k u)"
  "tc_base_priority (tcbs (fst (TCC_Resume_Task t r k)) u) = tc_base_priority (tcbs k u)"
  "tc_priority (tcbs (fst (TCC_Resume_Task t r k)) u) = tc_priority (tcbs k u)"
  by (simp_all add: TCC_Resume_Task_def Let_def lift_suspension_tcbs)

lemma resume_each_counts [simp]:
  "tc_semaphore_count (tcbs (fst (resume_each TCC_Resume_Task r ts (k, p))) u) = tc_semaphore_count (tcbs k u)"
  "tc_base_priority (tcbs (fst (resume_each TCC_Resume_Task r ts (k, p))) u) = tc_base_priority (tcbs k u)"
  by (induction ts arbitrary: k p) (simp_all add: Let_def split_beta)

lemma TCC_Suspend_Task_counts [simp]:
  "tc_semaphore_count (tcbs (fst (TCC_Suspend_Task t r cl n k)) u) = tc_semaphore_count (tcbs k u)"
  "tc_base_priority (tcbs (fst (TCC_Suspend_Task t r cl n k)) u) = tc_base_priority (tcbs k u)"
  "tc_priority (tcbs (fst (TCC_Suspend_Task t r cl n k)) u) = tc_priority (tcbs k u)"
  by (simp_all add: TCC_Suspend_Task_def Let_def)

lemma semaphore_count_inv: "sched_inv k \<Longrightarrow> sched_inv (upd_tcb (tc_semaphore_count_update f) t k)"
  using sched_inv_fields[of k t] by (intro sched_inv_upd) (auto simp: fields_ok_def)

section \<open>The invariant\<close>

definition sem_waiter :: "addr \<Rightarrow> ssys \<Rightarrow> tid \<Rightarrow> bool" where
  "sem_waiter sp s t \<longleftrightarrow>
     wait_view (tcbs (skern s) t) = (NU_SEMAPHORE_SUSPEND, False, Some t, NU_READY, False) \<and>
     sm_semaphore (sblocks s t) = sp"

definition sem_ok :: "addr \<Rightarrow> ssys \<Rightarrow> bool" where
  "sem_ok sp s \<longleftrightarrow> (let q = sems s sp; L = sm_suspension_list q in
     distinct L \<and> length L < 4294967296 \<and> sm_tasks_waiting q = length L \<and> sm_semaphore_count q < 4294967296 \<and>
     (sm_semaphore_count q \<noteq> 0 \<longrightarrow> L = []) \<and> (\<forall>t \<in> set L. sem_waiter sp s t) \<and>
     (sm_suspend_type q \<noteq> NU_FIFO \<longrightarrow> sorted (map (\<lambda>t. sm_cs_priority (sblocks s t)) L)) \<and>
     (sm_suspend_type q = NU_PRIORITY_INHERIT \<longrightarrow>
        sm_semaphore_count q = (if sm_semaphore_owner q = None then 1 else 0) \<and>
        (\<forall>t. sm_semaphore_owner q = Some t \<longrightarrow> sp \<in> set (tc_semaphore_list s t) \<and> t \<notin> set L)))"

definition owned_ok :: "tid \<Rightarrow> ssys \<Rightarrow> bool" where
  "owned_ok t s \<longleftrightarrow> distinct (tc_semaphore_list s t) \<and> length (tc_semaphore_list s t) < 256 \<and>
     tc_semaphore_count (tcbs (skern s) t) = length (tc_semaphore_list s t) \<and>
     tc_base_priority (tcbs (skern s) t) < 256 \<and>
     (\<forall>sp \<in> set (tc_semaphore_list s t). sm_id_valid (sems s sp) \<and>
        sm_suspend_type (sems s sp) = NU_PRIORITY_INHERIT \<and> sm_semaphore_owner (sems s sp) = Some t)"

definition sem_inv :: "ssys \<Rightarrow> bool" where
  "sem_inv s \<longleftrightarrow> sched_inv (skern s) \<and> (\<forall>sp. sm_id_valid (sems s sp) \<longrightarrow> sem_ok sp s) \<and> (\<forall>t. owned_ok t s)"

lemma sem_invD:
  assumes "sem_inv s" "sm_id_valid (sems s sp)" "q = sems s sp"
  shows "distinct (sm_suspension_list q)" "length (sm_suspension_list q) < 4294967296"
    "sm_tasks_waiting q = length (sm_suspension_list q)" "sm_semaphore_count q < 4294967296"
    "sm_semaphore_count q \<noteq> 0 \<Longrightarrow> sm_suspension_list q = []"
    "t \<in> set (sm_suspension_list q) \<Longrightarrow> sem_waiter sp s t"
    "sm_suspend_type q \<noteq> NU_FIFO \<Longrightarrow> sorted (map (\<lambda>t. sm_cs_priority (sblocks s t)) (sm_suspension_list q))"
    "sm_suspend_type q = NU_PRIORITY_INHERIT \<Longrightarrow> sm_semaphore_count q = (if sm_semaphore_owner q = None then 1 else 0)"
    "sm_suspend_type q = NU_PRIORITY_INHERIT \<Longrightarrow> sm_semaphore_owner q = Some t \<Longrightarrow>
       sp \<in> set (tc_semaphore_list s t) \<and> t \<notin> set (sm_suspension_list q)"
  using assms by (auto simp: sem_inv_def sem_ok_def Let_def)

lemma sem_waiter_waits: "sem_waiter sp s t \<Longrightarrow> waits_for t NU_SEMAPHORE_SUSPEND (skern s)"
  by (simp add: sem_waiter_def wait_view_def waits_for_def)

lemma sem_ok_frame:
  assumes "sem_ok sp s" "sems s' sp = sems s sp"
    "\<And>t. t \<in> set (sm_suspension_list (sems s sp)) \<Longrightarrow>
       wait_view (tcbs (skern s') t) = wait_view (tcbs (skern s) t) \<and> sblocks s' t = sblocks s t"
    "\<And>t. sp \<in> set (tc_semaphore_list s t) \<Longrightarrow> sp \<in> set (tc_semaphore_list s' t)"
  shows "sem_ok sp s'"
proof -
  have "sorted (map (\<lambda>t. sm_cs_priority (sblocks s' t)) (sm_suspension_list (sems s sp))) =
      sorted (map (\<lambda>t. sm_cs_priority (sblocks s t)) (sm_suspension_list (sems s sp)))"
    using assms(3) by (simp cong: map_cong)
  then show ?thesis using assms by (auto simp: sem_ok_def sem_waiter_def Let_def)
qed

text \<open>
  The invariant after a change around the semaphore \<open>sp\<close>: apart from the tasks of \<open>C\<close>, which do not wait on another
  semaphore, only parts on which no suspension rests have changed.
\<close>

lemma sem_inv_change:
  assumes inv: "sem_inv s" and si: "sched_inv (skern s')" and oth: "\<And>q. q \<noteq> sp \<Longrightarrow> sems s' q = sems s q"
    and ok: "sm_id_valid (sems s' sp) \<Longrightarrow> sem_ok sp s'"
    and C: "\<And>t q. t \<in> C \<Longrightarrow> q \<noteq> sp \<Longrightarrow> sm_id_valid (sems s q) \<Longrightarrow> t \<notin> set (sm_suspension_list (sems s q))"
    and view: "\<And>t. t \<notin> C \<Longrightarrow> wait_view (tcbs (skern s') t) = wait_view (tcbs (skern s) t) \<and> sblocks s' t = sblocks s t"
    and own: "\<And>t q. q \<noteq> sp \<Longrightarrow> q \<in> set (tc_semaphore_list s t) \<Longrightarrow> q \<in> set (tc_semaphore_list s' t)"
    and od: "\<And>t. owned_ok t s'"
  shows "sem_inv s'"
proof -
  have "sem_ok q s'" if v: "sm_id_valid (sems s' q)" for q
  proof (cases "q = sp")
    case True
    then show ?thesis using ok v by simp
  next
    case False
    then have vq: "sm_id_valid (sems s q)" using v oth by simp
    have "sem_ok q s" using inv vq by (simp add: sem_inv_def)
    then show ?thesis
      by (rule sem_ok_frame) (use False oth view C[OF _ False vq] own[OF False] in blast)+
  qed
  then show ?thesis using si od by (simp add: sem_inv_def)
qed

lemma one_semaphore:
  assumes "sem_inv s" "sm_id_valid (sems s sp)" "t \<in> set (sm_suspension_list (sems s sp))" "q \<noteq> sp" "sm_id_valid (sems s q)"
  shows "t \<notin> set (sm_suspension_list (sems s q))"
  using sem_invD(6)[OF assms(1,2) refl assms(3)] sem_invD(6)[OF assms(1,5) refl, of t] assms(4) by (auto simp: sem_waiter_def)

lemma free_task_not_waiting:
  assumes "sem_inv s" "runs_freely t (skern s)" "sm_id_valid (sems s q)"
  shows "t \<notin> set (sm_suspension_list (sems s q))"
  using sem_invD(6)[OF assms(1,3) refl, of t] assms(2)
  by (auto simp: sem_waiter_def wait_view_def runs_freely_def is_ready_def)

section \<open>Owning and freeing\<close>

lemma own_simps [simp]:
  "sems (own sp t s) = (sems s)(sp := (sems s sp)\<lparr>sm_semaphore_owner := Some t\<rparr>)"
  "skern (own sp t s) = upd_tcb (tc_semaphore_count_update inc8) t (skern s)"
  "tc_semaphore_list (own sp t s) = (tc_semaphore_list s)(t := tc_semaphore_list s t @ [sp])"
  "sblocks (own sp t s) = sblocks s"
  by (simp_all add: own_def Let_def)

lemma wait_view_count [simp]:
  "wait_view (tc_semaphore_count_update f c) = wait_view c"
  by (simp add: wait_view_def)

lemma owned_okD:
  assumes "sem_inv s"
  shows "distinct (tc_semaphore_list s t)" "length (tc_semaphore_list s t) < 256"
    "tc_semaphore_count (tcbs (skern s) t) = length (tc_semaphore_list s t)" "tc_base_priority (tcbs (skern s) t) < 256"
    "sp \<in> set (tc_semaphore_list s t) \<Longrightarrow> sm_id_valid (sems s sp) \<and>
       sm_suspend_type (sems s sp) = NU_PRIORITY_INHERIT \<and> sm_semaphore_owner (sems s sp) = Some t"
  using assms by (auto simp: sem_inv_def owned_ok_def)

text \<open>An owner that frees its last semaphore goes back to its base priority.\<close>

lemma SMC_Free_PI_Semaphore_facts:
  assumes inv: "sem_inv s" and own: "sp \<in> set (tc_semaphore_list s t)" and s': "(s', p) = SMC_Free_PI_Semaphore sp t s"
  shows "sems s' = sems s" "sblocks s' = sblocks s" "SMD_Created_Semaphores_List s' = SMD_Created_Semaphores_List s"
    "tc_semaphore_list s' = (tc_semaphore_list s)(t := remove1 sp (tc_semaphore_list s t))" "sched_inv (skern s')"
    "wait_view (tcbs (skern s') u) = wait_view (tcbs (skern s) u)"
    "tc_semaphore_count (tcbs (skern s') u) = length (tc_semaphore_list s' u)"
    "tc_base_priority (tcbs (skern s') u) < 256"
    "u \<noteq> t \<Longrightarrow> tcbs (skern s') u = tcbs (skern s) u"
    "tc_semaphore_list s t = [sp] \<Longrightarrow> is_ready t (skern s) \<Longrightarrow>
       tc_priority (tcbs (skern s') t) = tc_base_priority (tcbs (skern s) t) \<and>
       tc_base_priority (tcbs (skern s') t) = tc_base_priority (tcbs (skern s) t)"
proof -
  note O = owned_okD[OF inv]
  define k1 where "k1 = upd_tcb (tc_semaphore_count_update dec8) t (skern s)"
  let ?b = "tc_base_priority (tcbs k1 t)"
  let ?go = "tc_semaphore_count (tcbs k1 t) = 0 \<and> ?b \<noteq> tc_priority (tcbs k1 t)"
  have si: "sched_inv (skern s)" using inv by (simp add: sem_inv_def)
  have i1: "sched_inv k1" unfolding k1_def by (rule semaphore_count_inv[OF si])
  have k': "skern s' = (if ?go then fst (TCS_Change_Priority t ?b False k1) else k1)"
    and l: "tc_semaphore_list s' = (tc_semaphore_list s)(t := remove1 sp (tc_semaphore_list s t))"
    and eq: "sems s' = sems s" "sblocks s' = sblocks s" "SMD_Created_Semaphores_List s' = SMD_Created_Semaphores_List s"
    using s' by (auto simp: SMC_Free_PI_Semaphore_def Let_def k1_def split_beta split: if_splits)
  show "sems s' = sems s" "sblocks s' = sblocks s" "SMD_Created_Semaphores_List s' = SMD_Created_Semaphores_List s"
    "tc_semaphore_list s' = (tc_semaphore_list s)(t := remove1 sp (tc_semaphore_list s t))" using eq l by auto
  have b: "?b < 256" using O(4) by (simp add: k1_def)
  show "sched_inv (skern s')" using TCS_Change_Priority_inv[OF i1 b] i1 by (simp add: k')
  have v1: "wait_view (tcbs k1 u) = wait_view (tcbs (skern s) u)" by (simp add: k1_def)
  show "wait_view (tcbs (skern s') u) = wait_view (tcbs (skern s) u)"
    using v1 by (simp add: k' TCS_Change_Priority_tcb)
  have ne: "0 < length (tc_semaphore_list s t)" using own by (cases "tc_semaphore_list s t") auto
  have d: "dec8 (length (tc_semaphore_list s t)) = length (tc_semaphore_list s t) - 1" by (rule dec8_eq[OF ne O(2)])
  have c1: "tc_semaphore_count (tcbs k1 u) = length (tc_semaphore_list s' u)"
    using O(3) d own by (simp add: k1_def l length_remove1)
  then show "tc_semaphore_count (tcbs (skern s') u) = length (tc_semaphore_list s' u)"
    by (simp add: k' TCS_Change_Priority_tcb(2))
  show "tc_base_priority (tcbs (skern s') u) < 256"
  proof -
    have "tc_base_priority (tcbs k1 u) < 256" using O(4)[of u] O(4)[of t] by (simp add: k1_def)
    then show ?thesis using TCS_Change_Priority_base[OF b i1, of u t] by (simp add: k')
  qed
  show "u \<noteq> t \<Longrightarrow> tcbs (skern s') u = tcbs (skern s) u"
    by (simp add: k' TCS_Change_Priority_tcb(3)) (simp add: k1_def)
  assume one: "tc_semaphore_list s t = [sp]" and rd: "is_ready t (skern s)"
  have z: "tc_semaphore_count (tcbs k1 t) = 0" using O(3)[of t] one d by (simp add: k1_def)
  have "tc_status (tcbs k1 t) = NU_READY" using rd by (simp add: k1_def is_ready_def)
  note P = TCS_Change_Priority_priority(1)[OF this, of ?b]
  have "?b = tc_base_priority (tcbs (skern s) t)" by (simp add: k1_def)
  then show "tc_priority (tcbs (skern s') t) = tc_base_priority (tcbs (skern s) t) \<and>
       tc_base_priority (tcbs (skern s') t) = tc_base_priority (tcbs (skern s) t)"
    using P z by (auto simp: k')
qed

section \<open>Releasing keeps the invariant\<close>

lemma sem_tail_ok:
  assumes "sorted (map f (h # ts))"
  shows "sorted (map f ts)"
  using assms by simp

lemma hand_over_sem:
  assumes si: "sched_inv k" and v: "wait_view (tcbs k h) = (NU_SEMAPHORE_SUSPEND, False, Some h, NU_READY, False)"
    and k': "k' = fst (TCC_Resume_Task h NU_SEMAPHORE_SUSPEND k)"
  shows "sched_inv k'" "is_ready h k'" "u \<noteq> h \<Longrightarrow> tcbs k' u = tcbs k u"
proof -
  have w: "waits_for h NU_SEMAPHORE_SUSPEND k" using v by (simp add: wait_view_def waits_for_def)
  show "sched_inv k'" using TCC_Resume_Task_inv[OF si] by (simp add: k')
  show "is_ready h k'" using TCC_Resume_Task_ready[OF w] by (simp add: k' is_ready_def)
  show "u \<noteq> h \<Longrightarrow> tcbs k' u = tcbs k u" by (simp add: k' TCC_Resume_Task_others)
qed

text \<open>The release of a semaphore without priority inheritance.\<close>

lemma release_plain:
  assumes inv: "sem_inv s" and v: "sm_id_valid (sems s sp)" and np: "sm_suspend_type (sems s sp) \<noteq> NU_PRIORITY_INHERIT"
    and L: "L = sm_suspension_list (sems s sp)" and s': "(s', st, p) = smc_release_semaphore sp task s"
    and roll: "sm_semaphore_count (sems s sp) < 4294967295"
  shows "st = NU_SUCCESS" "sem_inv s'"
    "L = [] \<Longrightarrow> sm_semaphore_count (sems s' sp) = sm_semaphore_count (sems s sp) + 1 \<and> skern s' = skern s"
    "L = h # ts \<Longrightarrow> is_ready h (skern s') \<and> sm_return_status (sblocks s' h) = NU_SUCCESS \<and>
       sm_suspension_list (sems s' sp) = ts \<and> sm_semaphore_count (sems s' sp) = 0"
    "L = h # ts \<Longrightarrow> u \<noteq> h \<Longrightarrow> tcbs (skern s') u = tcbs (skern s) u \<and> sblocks s' u = sblocks s u"
proof -
  note I = sem_invD[OF inv v refl, folded L]
  have si: "sched_inv (skern s)" using inv by (simp add: sem_inv_def)
  have od: "owned_ok t s" for t using inv by (simp add: sem_inv_def)
  have notown: "sp \<notin> set (tc_semaphore_list s t)" for t using owned_okD(5)[OF inv] np by blast
  have idle: "st = NU_SUCCESS \<and> s' = upd_s sp (sm_semaphore_count_update inc32) s" if "L = []"
    using s' np that I(3) by (simp add: smc_release_semaphore_def Let_def)
  have hand: "st = NU_SUCCESS \<and>
      s' = (upd_sblock h (sm_return_status_update (\<lambda>_. NU_SUCCESS))
        (upd_s sp (\<lambda>q. q\<lparr>sm_tasks_waiting := dec32 (sm_tasks_waiting q), sm_suspension_list := tl (sm_suspension_list q)\<rparr>) s))
        \<lparr>skern := fst (TCC_Resume_Task h NU_SEMAPHORE_SUSPEND (skern s))\<rparr>" if "L = h # ts" for h ts
    using s' np that I(3) L by (simp add: smc_release_semaphore_def Let_def split_beta)
  show "st = NU_SUCCESS" using idle hand by (cases L) auto
  show "L = [] \<Longrightarrow> sm_semaphore_count (sems s' sp) = sm_semaphore_count (sems s sp) + 1 \<and> skern s' = skern s"
    using idle roll by (simp add: inc32_eq)
  have cnt: "sm_semaphore_count (sems s sp) = 0" if "L \<noteq> []" using that I(5) by blast
  have view: "wait_view (tcbs (skern s) h) = (NU_SEMAPHORE_SUSPEND, False, Some h, NU_READY, False)" if "L = h # ts" for h ts
    using I(6)[of h] that by (simp add: sem_waiter_def)
  show h1: "is_ready h (skern s') \<and> sm_return_status (sblocks s' h) = NU_SUCCESS \<and>
       sm_suspension_list (sems s' sp) = ts \<and> sm_semaphore_count (sems s' sp) = 0" if "L = h # ts" for h ts
    using hand[OF that] cnt that L hand_over_sem(2)[OF si view[OF that] refl] by simp
  show h2: "tcbs (skern s') u = tcbs (skern s) u \<and> sblocks s' u = sblocks s u" if "L = h # ts" "u \<noteq> h" for h ts u
    using hand[OF that(1)] hand_over_sem(3)[OF si view[OF that(1)] refl that(2)] that(2) by simp
  show "sem_inv s'"
  proof (cases L)
    case Nil
    note e = idle[OF Nil]
    show ?thesis
    proof (rule sem_inv_change[OF inv, where sp = sp and C = "{}"])
      show "sem_ok sp s'" using e I Nil L np roll by (simp add: sem_ok_def inc32_eq)
      show "owned_ok t s'" for t using od[of t] notown[of t] e by (auto simp: owned_ok_def)
    qed (use e si in auto)
  next
    case (Cons h ts)
    note e = hand[OF Cons]
    have hn: "h \<notin> set ts" using I(1) Cons by simp
    show ?thesis
    proof (rule sem_inv_change[OF inv, where sp = sp and C = "{h}"])
      have w: "sem_waiter sp s' t" if "t \<in> set ts" for t
      proof -
        have "t \<noteq> h" using that hn by blast
        then show ?thesis using I(6)[of t] that Cons h2[OF Cons, of t] by (simp add: sem_waiter_def)
      qed
      have "map (\<lambda>t. sm_cs_priority (sblocks s' t)) ts = map (\<lambda>t. sm_cs_priority (sblocks s t)) ts"
        by (rule map_cong[OF refl]) (use h2[OF Cons] hn in metis)
      moreover have "sm_suspend_type (sems s sp) \<noteq> NU_FIFO \<Longrightarrow> sorted (map (\<lambda>t. sm_cs_priority (sblocks s t)) ts)"
        using I(7) Cons by simp
      moreover have "dec32 (length L) = length ts" using I(2) Cons by (simp add: dec32_eq)
      ultimately show "sem_ok sp s'" using e I(1-4) w cnt Cons L np by (simp add: sem_ok_def del: map_eq_conv)
      show "owned_ok t s'" for t using od[of t] notown[of t] e by (auto simp: owned_ok_def)
      show "t \<in> {h} \<Longrightarrow> q \<noteq> sp \<Longrightarrow> sm_id_valid (sems s q) \<Longrightarrow> t \<notin> set (sm_suspension_list (sems s q))" for t q
        using one_semaphore[OF inv v] Cons L by auto
      show "sched_inv (skern s')" using e hand_over_sem(1)[OF si view[OF Cons] refl] by simp
    qed (use e h2[OF Cons] in auto)
  qed
qed

text \<open>
  The release of a semaphore with priority inheritance by its owner: first \<open>SMC_Free_PI_Semaphore\<close>, which leads to
  \<open>s1\<close>, then either the count is incremented or the semaphore passes to the first waiting task.
\<close>

lemma release_pi:
  assumes inv: "sem_inv s" and v: "sm_id_valid (sems s sp)" and pi: "sm_suspend_type (sems s sp) = NU_PRIORITY_INHERIT"
    and own: "sm_semaphore_owner (sems s sp) = Some task"
    and L: "L = sm_suspension_list (sems s sp)" and s': "(s', st, p) = smc_release_semaphore sp task s"
    and free: "(s1, p1) = SMC_Free_PI_Semaphore sp task s"
    and bound: "\<And>h. length (tc_semaphore_list s h) < 255"
  shows "st = NU_SUCCESS" "sem_inv s'"
    "L = [] \<Longrightarrow> sm_semaphore_owner (sems s' sp) = None \<and> sm_semaphore_count (sems s' sp) = 1 \<and> skern s' = skern s1"
    "L = h # ts \<Longrightarrow> sm_semaphore_owner (sems s' sp) = Some h \<and> is_ready h (skern s') \<and>
       sm_return_status (sblocks s' h) =
         (if sm_owner_killed (sems s sp) then NU_SEMAPHORE_OWNER_DEAD else NU_SUCCESS) \<and>
       sm_suspension_list (sems s' sp) = ts"
    "L = h # ts \<Longrightarrow> u \<noteq> h \<Longrightarrow> tcbs (skern s') u = tcbs (skern s1) u \<and> sblocks s' u = sblocks s u"
    "L = h # ts \<Longrightarrow> tc_priority (tcbs (skern s') h) = tc_priority (tcbs (skern s1) h)"
proof -
  note I = sem_invD[OF inv v refl, folded L]
  have sin: "sp \<in> set (tc_semaphore_list s task)" and tn: "task \<notin> set L" using I(9)[OF pi own] by auto
  note F = SMC_Free_PI_Semaphore_facts[OF inv sin free]
  note O = owned_okD[OF inv]
  have cnt: "sm_semaphore_count (sems s sp) = 0" using I(8)[OF pi] own by simp
  have od: "owned_ok t s" for t using inv by (simp add: sem_inv_def)
  have notown: "sp \<notin> set (tc_semaphore_list s t)" if "t \<noteq> task" for t using O(5)[of sp t] own that by auto
  have sp1: "sp \<notin> set (tc_semaphore_list s1 t)" for t using notown[of t] O(1)[of task] by (cases "t = task") (auto simp: F(4))
  have sub: "q \<in> set (tc_semaphore_list s1 t) \<Longrightarrow> q \<in> set (tc_semaphore_list s t)" for q t
    using set_remove1_subset[of sp "tc_semaphore_list s task"] by (auto simp: F(4) split: if_splits)
  define n1 where "n1 = upd_s sp (sm_semaphore_owner_update (\<lambda>_. None)) s1"
  have idle: "st = NU_SUCCESS \<and> s' = upd_s sp (sm_semaphore_count_update inc32) n1" if "L = []"
    using s' pi own that I(3) L F(1) unfolding n1_def
    by (simp add: smc_release_semaphore_def Let_def free[symmetric])
  let ?st = "if sm_owner_killed (sems s sp) then NU_SEMAPHORE_OWNER_DEAD else NU_SUCCESS"
  have hand: "st = NU_SUCCESS \<and> sems s' = (sems s)(sp := (sems s sp)\<lparr>sm_semaphore_owner := Some h,
        sm_tasks_waiting := length ts, sm_suspension_list := ts\<rparr>) \<and>
      sblocks s' = (sblocks s)(h := (sblocks s h)\<lparr>sm_return_status := ?st\<rparr>) \<and>
      tc_semaphore_list s' = (tc_semaphore_list s1)(h := tc_semaphore_list s1 h @ [sp]) \<and>
      skern s' = fst (TCC_Resume_Task h NU_SEMAPHORE_SUSPEND (upd_tcb (tc_semaphore_count_update inc8) h (skern s1)))"
    if "L = h # ts" for h ts
  proof -
    have "dec32 (length L) = length ts" using I(2) that by (simp add: dec32_eq)
    then show ?thesis
      using s' pi own that I(3) L F(1,2) by (auto simp: smc_release_semaphore_def Let_def split_beta free[symmetric])
  qed
  show "st = NU_SUCCESS" using idle hand by (cases L) auto
  show "L = [] \<Longrightarrow> sm_semaphore_owner (sems s' sp) = None \<and> sm_semaphore_count (sems s' sp) = 1 \<and> skern s' = skern s1"
    using idle cnt by (simp add: n1_def F(1) inc32_def)
  let ?k = "\<lambda>h. upd_tcb (tc_semaphore_count_update inc8) h (skern s1)"
  have sk: "sched_inv (?k h)" for h by (rule semaphore_count_inv[OF F(5)])
  have view: "wait_view (tcbs (?k h) h) = (NU_SEMAPHORE_SUSPEND, False, Some h, NU_READY, False)" if "L = h # ts" for h ts
    using I(6)[of h] that F(6)[of h] by (simp add: sem_waiter_def)
  note H = hand_over_sem[OF sk view refl]
  show h1: "sm_semaphore_owner (sems s' sp) = Some h \<and> is_ready h (skern s') \<and>
       sm_return_status (sblocks s' h) = ?st \<and> sm_suspension_list (sems s' sp) = ts" if "L = h # ts" for h ts
    using hand[OF that] H(2)[OF that] by simp
  show h2: "tcbs (skern s') u = tcbs (skern s1) u \<and> sblocks s' u = sblocks s u" if "L = h # ts" "u \<noteq> h" for h ts u
    using hand[OF that(1)] H(3)[OF that(1,2)] that(2) by simp
  show "tc_priority (tcbs (skern s') h) = tc_priority (tcbs (skern s1) h)" if "L = h # ts" for h ts
    using hand[OF that] by simp
  have od1: "distinct (tc_semaphore_list s1 t)" "length (tc_semaphore_list s1 t) < 255" for t
    using O(1)[of t] bound[of t] by (auto simp: F(4) length_remove1)
  show "sem_inv s'"
  proof (cases L)
    case Nil
    have e: "s' = upd_s sp (sm_semaphore_count_update inc32) n1" using idle[OF Nil] by simp
    show ?thesis
    proof (rule sem_inv_change[OF inv, where sp = sp and C = "{}"])
      show "sem_ok sp s'" using I(1-4) Nil L pi cnt by (simp add: e n1_def F(1) sem_ok_def inc32_def)
      show "owned_ok t s'" for t
        using od1[of t] F(7,8)[of t] sp1[of t] sub[of _ t] O(5)[of _ t]
        by (auto simp: owned_ok_def e n1_def F(1))
    qed (use F(2,4,5,6) in \<open>auto simp: e n1_def F(1)\<close>)
  next
    case (Cons h ts)
    note e = hand[OF Cons]
    have hn: "h \<notin> set ts" "h \<noteq> task" using I(1) Cons tn by auto
    have k': "skern s' = fst (TCC_Resume_Task h NU_SEMAPHORE_SUSPEND (?k h))" using e by blast
    show ?thesis
    proof (rule sem_inv_change[OF inv, where sp = sp and C = "{h}"])
      have w: "sem_waiter sp s' t" if "t \<in> set ts" for t
      proof -
        have "t \<noteq> h" using that hn by blast
        then show ?thesis using I(6)[of t] that Cons h2[OF Cons, of t] F(6)[of t] by (simp add: sem_waiter_def)
      qed
      have "map (\<lambda>t. sm_cs_priority (sblocks s' t)) ts = map (\<lambda>t. sm_cs_priority (sblocks s t)) ts"
        by (rule map_cong[OF refl]) (use h2[OF Cons] hn in metis)
      moreover have "sorted (map (\<lambda>t. sm_cs_priority (sblocks s t)) ts)" using I(7) Cons pi by simp
      ultimately show "sem_ok sp s'"
        using e I(1,2,4) w cnt Cons L pi hn by (simp add: sem_ok_def del: map_eq_conv)
      show "owned_ok t s'" for t
      proof (cases "t = h")
        case True
        have "tc_semaphore_count (tcbs (skern s') h) = length (tc_semaphore_list s' h)"
          using F(7)[of h] od1(2)[of h] e by (simp add: k' inc8_eq)
        then show ?thesis
          using True od1[of h] F(8)[of h] sp1[of h] sub[of _ h] O(5)[of _ h] e v pi by (auto simp: owned_ok_def k')
      next
        case False
        then show ?thesis
          using od1[of t] F(7,8)[of t] sp1[of t] sub[of _ t] O(5)[of _ t] e by (auto simp: owned_ok_def k')
      qed
      show "t \<in> {h} \<Longrightarrow> q \<noteq> sp \<Longrightarrow> sm_id_valid (sems s q) \<Longrightarrow> t \<notin> set (sm_suspension_list (sems s q))" for t q
        using one_semaphore[OF inv v] Cons L by auto
      show "sched_inv (skern s')" using H(1)[OF Cons] k' by simp
      show "q \<noteq> sp \<Longrightarrow> q \<in> set (tc_semaphore_list s t) \<Longrightarrow> q \<in> set (tc_semaphore_list s' t)" for q t
        using e by (auto simp: F(4))
      show "t \<notin> {h} \<Longrightarrow> wait_view (tcbs (skern s') t) = wait_view (tcbs (skern s) t) \<and> sblocks s' t = sblocks s t" for t
        using h2[OF Cons, of t] F(6)[of t] by simp
    qed (use e in auto)
  qed
qed

section \<open>Obtaining keeps the invariant\<close>

lemma enlist_facts:
  assumes inv: "sem_inv s" and v: "sm_id_valid (sems s sp)" and s1: "s1 = enlist sp t s"
    and tn: "t \<notin> set (sm_suspension_list (sems s sp))"
    and no: "\<not> (sm_suspend_type (sems s sp) = NU_PRIORITY_INHERIT \<and> sm_semaphore_owner (sems s sp) = Some t)"
  shows "\<exists>L'. sems s1 = (sems s)(sp := (sems s sp)\<lparr>sm_tasks_waiting := inc32 (sm_tasks_waiting (sems s sp)),
           sm_suspension_list := L'\<rparr>) \<and>
         set L' = insert t (set (sm_suspension_list (sems s sp))) \<and> distinct L' \<and>
         length L' = Suc (length (sm_suspension_list (sems s sp))) \<and>
         (sm_suspend_type (sems s sp) = NU_FIFO \<longrightarrow> L' = sm_suspension_list (sems s sp) @ [t]) \<and>
         (sm_suspend_type (sems s sp) \<noteq> NU_FIFO \<longrightarrow> sorted (map (\<lambda>u. sm_cs_priority (sblocks s1 u)) L'))"
    and "sm_semaphore (sblocks s1 t) = sp" "u \<noteq> t \<Longrightarrow> sblocks s1 u = sblocks s u"
    "tc_semaphore_list s1 = tc_semaphore_list s"
    "sched_inv (skern s1)" "tcbs (skern s1) t = tcbs (skern s) t"
    "wait_view (tcbs (skern s1) u) = wait_view (tcbs (skern s) u)"
    "tc_semaphore_count (tcbs (skern s1) u) = tc_semaphore_count (tcbs (skern s) u)"
    "tc_base_priority (tcbs (skern s1) u) < 256"
proof -
  let ?q = "sems s sp"
  let ?L = "sm_suspension_list ?q"
  note I = sem_invD[OF inv v refl] and O = owned_okD[OF inv]
  have si: "sched_inv (skern s)" using inv by (simp add: sem_inv_def)
  have pr: "tc_priority (tcbs (skern s) t) < 256" using sched_inv_fields[OF si, of t] by (simp add: fields_ok_def)
  define b where "b = (sblocks s)(t := (if sm_suspend_type ?q = NU_FIFO then (sblocks s t)\<lparr>sm_semaphore := sp\<rparr>
      else (sblocks s t)\<lparr>sm_semaphore := sp, sm_cs_priority := tc_priority (tcbs (skern s) t)\<rparr>))"
  define L' where "L' = (if sm_suspend_type ?q = NU_FIFO then ?L @ [t] else priority_place (\<lambda>u. sm_cs_priority (b u)) t ?L)"
  have sb: "sblocks s1 = b"
    by (auto simp: s1 enlist_def b_def Let_def split: option.splits)
  have ss: "sems s1 = (sems s)(sp := ?q\<lparr>sm_tasks_waiting := inc32 (sm_tasks_waiting ?q), sm_suspension_list := L'\<rparr>)"
    by (auto simp: s1 enlist_def b_def L'_def Let_def split: option.splits)
  have so: "sorted (map (\<lambda>u. sm_cs_priority (b u)) L')" if nf: "sm_suspend_type ?q \<noteq> NU_FIFO"
  proof -
    have "map (\<lambda>u. sm_cs_priority (b u)) ?L = map (\<lambda>u. sm_cs_priority (sblocks s u)) ?L"
      by (rule map_cong[OF refl]) (use tn in \<open>auto simp: b_def\<close>)
    then show ?thesis using I(7)[OF nf] nf sorted_priority_place[of "\<lambda>u. sm_cs_priority (b u)" ?L t] by (simp add: L'_def del: map_eq_conv)
  qed
  have L': "set L' = insert t (set ?L)" "distinct L'" "length L' = Suc (length ?L)"
    using tn I(1) distinct_priority_place[of id "\<lambda>u. sm_cs_priority (b u)" t ?L] by (auto simp: L'_def)
  show "\<exists>L'. sems s1 = (sems s)(sp := (sems s sp)\<lparr>sm_tasks_waiting := inc32 (sm_tasks_waiting (sems s sp)),
           sm_suspension_list := L'\<rparr>) \<and> set L' = insert t (set ?L) \<and> distinct L' \<and> length L' = Suc (length ?L) \<and>
         (sm_suspend_type ?q = NU_FIFO \<longrightarrow> L' = ?L @ [t]) \<and>
         (sm_suspend_type ?q \<noteq> NU_FIFO \<longrightarrow> sorted (map (\<lambda>u. sm_cs_priority (sblocks s1 u)) L'))"
    using ss so L' sb by (intro exI[of _ L']) (simp add: L'_def)
  show "sm_semaphore (sblocks s1 t) = sp" "u \<noteq> t \<Longrightarrow> sblocks s1 u = sblocks s u" by (simp_all add: sb b_def)
  show "tc_semaphore_list s1 = tc_semaphore_list s" by (auto simp: s1 enlist_def Let_def split: option.splits)
  define go where "go \<longleftrightarrow> sm_suspend_type ?q = NU_PRIORITY_INHERIT \<and> sm_semaphore_owner ?q \<noteq> None \<and>
     tc_priority (tcbs (skern s) t) < tc_priority (tcbs (skern s) (the (sm_semaphore_owner ?q)))"
  have k: "skern s1 = (if go then fst (TCS_Change_Priority (the (sm_semaphore_owner ?q)) (tc_priority (tcbs (skern s) t)) False (skern s))
      else skern s)"
    by (auto simp: s1 enlist_def go_def Let_def split: option.splits)
  show "sched_inv (skern s1)" using TCS_Change_Priority_inv[OF si pr] si by (simp add: k)
  have "the (sm_semaphore_owner ?q) \<noteq> t" if go using no that by (auto simp: go_def)
  then show "tcbs (skern s1) t = tcbs (skern s) t" by (auto simp: k TCS_Change_Priority_tcb(3))
  show "wait_view (tcbs (skern s1) u) = wait_view (tcbs (skern s) u)"
    "tc_semaphore_count (tcbs (skern s1) u) = tc_semaphore_count (tcbs (skern s) u)"
    by (simp_all add: k TCS_Change_Priority_tcb)
  show "tc_base_priority (tcbs (skern s1) u) < 256"
    using TCS_Change_Priority_base[OF pr si O(4)[of u]] O(4)[of u] by (simp add: k)
qed

lemma NU_Obtain_Semaphore_inv:
  assumes inv: "sem_inv s" and r: "suspend \<noteq> 0 \<Longrightarrow> may_suspend (skern s)"
    and bound: "\<And>t. length (tc_semaphore_list s t) < 255"
      "length (sm_suspension_list (sems s sp)) < 4294967295"
  shows "sem_inv (fst (NU_Obtain_Semaphore sp suspend s))"
proof -
  let ?q = "sems s sp" and ?t = "current_task (skern s)"
  have si: "sched_inv (skern s)" using inv by (simp add: sem_inv_def)
  have od: "owned_ok t s" for t using inv by (simp add: sem_inv_def)
  note O = owned_okD[OF inv]
  have plain: "sem_inv (upd_s sp (sm_semaphore_count_update dec32) s)"
    if v: "sm_id_valid ?q" and c: "sm_semaphore_count ?q \<noteq> 0" and np: "sm_suspend_type ?q \<noteq> NU_PRIORITY_INHERIT"
  proof (rule sem_inv_change[OF inv, where sp = sp and C = "{}"])
    note I = sem_invD[OF inv v refl]
    show "sem_ok sp (upd_s sp (sm_semaphore_count_update dec32) s)" using I(1-5) c np by (simp add: sem_ok_def)
    have "sp \<notin> set (tc_semaphore_list s t)" for t using O(5)[of sp t] np by auto
    then show "owned_ok t (upd_s sp (sm_semaphore_count_update dec32) s)" for t using od[of t] by (auto simp: owned_ok_def)
  qed (use si in auto)
  let ?p = "own sp ?t (upd_s sp (sm_owner_killed_update (\<lambda>_. False)) (upd_s sp (sm_semaphore_count_update dec32) s))"
  have pi: "sem_inv ?p"
    if v: "sm_id_valid ?q" and c: "sm_semaphore_count ?q \<noteq> 0" and pi: "sm_suspend_type ?q = NU_PRIORITY_INHERIT"
  proof (rule sem_inv_change[OF inv, where sp = sp and C = "{}"])
    note I = sem_invD[OF inv v refl]
    have c1: "sm_semaphore_count ?q = 1" "sm_semaphore_owner ?q = None" using I(8)[OF pi] c by (auto split: if_splits)
    have nl: "sm_suspension_list ?q = []" using I(5) c by blast
    show "sem_ok sp ?p" using I(1-3) c1 nl pi by (simp add: sem_ok_def dec32_def)
    have nin: "sp \<notin> set (tc_semaphore_list s t)" for t using O(5)[of sp t] c1 by auto
    show "owned_ok t ?p" for t
    proof (cases "t = ?t")
      case True
      then show ?thesis using od[of ?t] nin[of ?t] bound(1)[of ?t] v pi by (auto simp: owned_ok_def inc8_eq)
    next
      case False
      then show ?thesis using od[of t] nin[of t] by (auto simp: owned_ok_def)
    qed
    show "sched_inv (skern ?p)" by (simp add: semaphore_count_inv[OF si])
  qed auto
  let ?s1 = "enlist sp ?t s"
  let ?w = "?s1\<lparr>skern := fst (TCC_Suspend_Task ?t NU_SEMAPHORE_SUSPEND (Some ?t) suspend (skern ?s1))\<rparr>"
  have wait: "sem_inv ?w" if v: "sm_id_valid ?q" and c: "sm_semaphore_count ?q = 0" and su: "suspend \<noteq> 0"
    and no: "\<not> (sm_suspend_type ?q = NU_PRIORITY_INHERIT \<and> sm_semaphore_owner ?q = Some ?t)"
  proof -
    note I = sem_invD[OF inv v refl]
    have rf: "runs_freely ?t (skern s)" "\<not> tc_signal_active (tcbs (skern s) ?t)" using r[OF su] by (auto simp: may_suspend_def)
    note fr = free_task_not_waiting[OF inv rf(1)]
    note E = enlist_facts[OF inv v refl fr[OF v] no]
    have rf1: "runs_freely ?t (skern ?s1)" using rf(1) E(6) by (simp add: runs_freely_def is_ready_def)
    note S = TCC_Suspend_Task_waits[OF E(5) rf1, where s = NU_SEMAPHORE_SUSPEND and cl = "Some ?t" and timeout = suspend, simplified]
    have vt: "wait_view (tcbs (skern ?w) ?t) = (NU_SEMAPHORE_SUSPEND, False, Some ?t, NU_READY, False)"
      using S(2) rf1 rf(2) E(6)
      by (simp add: wait_view_def waits_for_def) (simp add: TCC_Suspend_Task_def Let_def runs_freely_def is_ready_def)
    have vo: "wait_view (tcbs (skern ?w) u) = wait_view (tcbs (skern s) u) \<and> sblocks ?w u = sblocks s u" if "u \<noteq> ?t" for u
      using S(3)[OF that] E(7)[of u] E(3)[OF that] by simp
    obtain L' where L': "sems ?s1 = (sems s)(sp := ?q\<lparr>sm_tasks_waiting := inc32 (sm_tasks_waiting ?q), sm_suspension_list := L'\<rparr>)"
      "set L' = insert ?t (set (sm_suspension_list ?q))" "distinct L'" "length L' = Suc (length (sm_suspension_list ?q))"
      "sm_suspend_type ?q \<noteq> NU_FIFO \<longrightarrow> sorted (map (\<lambda>u. sm_cs_priority (sblocks ?s1 u)) L')"
      using E(1) by blast
    show ?thesis
    proof (rule sem_inv_change[OF inv, where sp = sp and C = "{?t}"])
      have w: "sem_waiter sp ?w u" if "u \<in> set L'" for u
      proof (cases "u = ?t")
        case True
        then show ?thesis using vt E(2) by (simp add: sem_waiter_def)
      next
        case False
        then show ?thesis using vo[OF False] I(6)[of u] that L'(2) by (simp add: sem_waiter_def)
      qed
      have own: "sp \<in> set (tc_semaphore_list s o1) \<and> o1 \<notin> set L'"
        if "sm_suspend_type ?q = NU_PRIORITY_INHERIT" "sm_semaphore_owner ?q = Some o1" for o1
        using I(9)[OF that] no that L'(2) by auto
      show "sem_ok sp ?w"
        using w own L' E(4) I(3,8) c bound(2) by (simp add: sem_ok_def inc32_eq split: if_splits)
      show "owned_ok t ?w" for t
        using od[of t] E(4) E(8)[of t] E(9)[of t] by (auto simp: owned_ok_def L'(1))
    qed (use S(1) L'(1) fr vo E(4) in auto)
  qed
  show ?thesis using plain pi wait inv by (auto simp: NU_Obtain_Semaphore_def Let_def split_beta)
qed

section \<open>Time-outs, reset, deletion, creation\<close>

text \<open>A waiting task leaves the list of its semaphore, whatever the kernel then makes of the task.\<close>

lemma SMC_Cleanup_inv:
  assumes inv: "sem_inv s" and v: "sm_id_valid (sems s sp)" and t: "t \<in> set (sm_suspension_list (sems s sp))"
    and k: "sched_inv k" "\<And>u. u \<noteq> t \<Longrightarrow> wait_view (tcbs k u) = wait_view (tcbs (skern s) u)"
      "\<And>u. tc_semaphore_count (tcbs k u) = tc_semaphore_count (tcbs (skern s) u)"
      "\<And>u. tc_base_priority (tcbs k u) = tc_base_priority (tcbs (skern s) u)"
  shows "sem_inv ((SMC_Cleanup t s)\<lparr>skern := k\<rparr>)"
    "sm_suspension_list (sems (SMC_Cleanup t s) sp) = remove1 t (sm_suspension_list (sems s sp))"
proof -
  let ?q = "sems s sp" and ?s' = "(SMC_Cleanup t s)\<lparr>skern := k\<rparr>"
  note I = sem_invD[OF inv v refl]
  have "sm_semaphore (sblocks s t) = sp" using I(6)[OF t] by (simp add: sem_waiter_def)
  then have S: "sems ?s' = (sems s)(sp := ?q\<lparr>sm_tasks_waiting := dec32 (sm_tasks_waiting ?q),
        sm_suspension_list := remove1 t (sm_suspension_list ?q)\<rparr>)"
    "sblocks ?s' = (sblocks s)(t := (sblocks s t)\<lparr>sm_return_status := NU_TIMEOUT\<rparr>)"
    "tc_semaphore_list ?s' = tc_semaphore_list s"
    by (simp_all add: SMC_Cleanup_def Let_def)
  then show "sm_suspension_list (sems (SMC_Cleanup t s) sp) = remove1 t (sm_suspension_list (sems s sp))" by simp
  have same: "wait_view (tcbs (skern ?s') u) = wait_view (tcbs (skern s) u) \<and> sblocks ?s' u = sblocks s u" if "u \<noteq> t" for u
    using that k(2)[OF that] S(2) by simp
  show "sem_inv ?s'"
  proof (rule sem_inv_change[OF inv, where sp = sp and C = "{t}"])
    have wt: "sem_waiter sp ?s' u" if "u \<in> set (remove1 t (sm_suspension_list ?q))" for u
    proof -
      have "u \<noteq> t" "u \<in> set (sm_suspension_list ?q)" using that I(1) by auto
      then show ?thesis using I(6)[of u] same[of u] by (simp add: sem_waiter_def)
    qed
    have "0 < length (sm_suspension_list ?q)" using t by (cases "sm_suspension_list ?q") auto
    then have d: "dec32 (length (sm_suspension_list ?q)) = length (remove1 t (sm_suspension_list ?q))"
      using I(2) t by (simp add: dec32_eq length_remove1)
    have "map (\<lambda>u. sm_cs_priority (sblocks ?s' u)) (remove1 t (sm_suspension_list ?q)) =
        map (\<lambda>u. sm_cs_priority (sblocks s u)) (remove1 t (sm_suspension_list ?q))"
      by (rule map_cong[OF refl]) (auto simp: S(2))
    moreover have "sm_suspend_type ?q \<noteq> NU_FIFO \<Longrightarrow>
        sorted (map (\<lambda>u. sm_cs_priority (sblocks s u)) (remove1 t (sm_suspension_list ?q)))"
      by (rule sorted_map_remove1[OF I(7)])
    moreover have "sm_semaphore_count ?q = 0" using I(5) t by fastforce
    moreover have "distinct (remove1 t (sm_suspension_list ?q))" "length (remove1 t (sm_suspension_list ?q)) < 4294967296"
      using I(1,2) by (auto simp: length_remove1)
    moreover have "sp \<in> set (tc_semaphore_list s o1) \<and> o1 \<notin> set (remove1 t (sm_suspension_list ?q))"
      if "sm_suspend_type ?q = NU_PRIORITY_INHERIT" "sm_semaphore_owner ?q = Some o1" for o1
      using I(9)[OF that] by (meson notin_set_remove1)
    ultimately show "sem_ok sp ?s'"
      using I(3,8) wt d unfolding sem_ok_def Let_def S(1,3)
      by (simp del: map_eq_conv set_remove1_eq ssys.simps(1-6) add: fun_upd_same)
    show "owned_ok u ?s'" for u
      using owned_okD(1-4)[OF inv, of u] owned_okD(5)[OF inv] k(3,4)[of u]
      by (auto simp: owned_ok_def SMC_Cleanup_def Let_def)
    show "u \<in> {t} \<Longrightarrow> q \<noteq> sp \<Longrightarrow> sm_id_valid (sems s q) \<Longrightarrow> u \<notin> set (sm_suspension_list (sems s q))" for u q
      using one_semaphore[OF inv v t] by auto
    show "sched_inv (skern ?s')" using k(1) by simp
  qed (use same S in auto)
qed

lemma semaphore_timeout_inv:
  assumes inv: "sem_inv s" and v: "sm_id_valid (sems s sp)" and t: "t \<in> set (sm_suspension_list (sems s sp))"
  shows "sem_inv (semaphore_timeout t s)"
proof (cases "tc_timer_active (tcbs (skern s) t) \<and> tm_remaining_time (tm (skern s)) (task_timer t) = 0")
  case False
  then have "semaphore_timeout t s = s"
    using sem_invD(6)[OF inv v refl t] by (auto simp: semaphore_timeout_def TCC_Task_Timeout_def Let_def)
  then show ?thesis using inv by simp
next
  case True
  have si: "sched_inv (skern s)" using inv by (simp add: sem_inv_def)
  have w: "sem_waiter sp s t" by (rule sem_invD(6)[OF inv v refl t])
  let ?k1 = "upd_tcb (tc_timer_active_update (\<lambda>_. False)) t (skern s)"
  have eq: "semaphore_timeout t s = (SMC_Cleanup t s)\<lparr>skern := fst (TCC_Resume_Task t NU_SEMAPHORE_SUSPEND ?k1)\<rparr>"
    using True w by (simp add: semaphore_timeout_def TCC_Task_Timeout_def Let_def sem_waiter_def wait_view_def)
  have i1: "sched_inv ?k1" using sched_inv_fields[OF si, of t] by (intro sched_inv_upd[OF si]) auto
  have v1: "wait_view (tcbs ?k1 t) = (NU_SEMAPHORE_SUSPEND, False, Some t, NU_READY, False)"
    using w by (simp add: sem_waiter_def wait_view_def)
  note H = hand_over_sem[OF i1 v1 refl]
  show ?thesis unfolding eq
    by (rule SMC_Cleanup_inv(1)[OF inv v t]) (use H in auto)
qed

lemma lift_all_sem_facts:
  assumes si: "sched_inv (skern s)" and d: "distinct L"
    and w: "\<And>t. t \<in> set L \<Longrightarrow> wait_view (tcbs (skern s) t) = (NU_SEMAPHORE_SUSPEND, False, Some t, NU_READY, False)"
    and s': "(s', p') = lift_all_sem st L (s, p)"
  shows "sems s' = sems s" "tc_semaphore_list s' = tc_semaphore_list s"
    "SMD_Created_Semaphores_List s' = SMD_Created_Semaphores_List s" "sched_inv (skern s')"
    "t \<in> set L \<Longrightarrow> is_ready t (skern s') \<and> sm_return_status (sblocks s' t) = st"
    "t \<notin> set L \<Longrightarrow> tcbs (skern s') t = tcbs (skern s) t \<and> sblocks s' t = sblocks s t"
    "tc_semaphore_count (tcbs (skern s') t) = tc_semaphore_count (tcbs (skern s) t)"
    "tc_base_priority (tcbs (skern s') t) = tc_base_priority (tcbs (skern s) t)"
proof -
  let ?r = "resume_each TCC_Resume_Task NU_SEMAPHORE_SUSPEND L (skern s, p)"
  have e: "s' = s\<lparr>sblocks := (\<lambda>t. if t \<in> set L then (sblocks s t)\<lparr>sm_return_status := st\<rparr> else sblocks s t), skern := fst ?r\<rparr>"
    using s' by (simp add: lift_all_sem_def Let_def split_beta cong: if_cong)
  have "\<And>t. t \<in> set L \<Longrightarrow> waits_for t NU_SEMAPHORE_SUSPEND (skern s)" using w by (simp add: wait_view_def waits_for_def)
  note A = tc.resume_each_all[OF si d this, of p]
  show "sems s' = sems s" "tc_semaphore_list s' = tc_semaphore_list s"
    "SMD_Created_Semaphores_List s' = SMD_Created_Semaphores_List s" "sched_inv (skern s')"
    "t \<in> set L \<Longrightarrow> is_ready t (skern s') \<and> sm_return_status (sblocks s' t) = st"
    "t \<notin> set L \<Longrightarrow> tcbs (skern s') t = tcbs (skern s) t \<and> sblocks s' t = sblocks s t"
    "tc_semaphore_count (tcbs (skern s') t) = tc_semaphore_count (tcbs (skern s) t)"
    "tc_base_priority (tcbs (skern s') t) = tc_base_priority (tcbs (skern s) t)"
    using A by (simp_all add: e resume_each_others)
qed

text \<open>The owner of a semaphore with priority inheritance gives it up: the state before the waiting tasks are resumed.\<close>

lemma freed_owned_ok:
  assumes inv: "sem_inv s" and sin: "sp \<in> set (tc_semaphore_list s task)" and free: "(s1, p1) = SMC_Free_PI_Semaphore sp task s"
    and l: "tc_semaphore_list s' = tc_semaphore_list s1"
    and k: "\<And>t. tc_semaphore_count (tcbs (skern s') t) = tc_semaphore_count (tcbs (skern s1) t)"
      "\<And>t. tc_base_priority (tcbs (skern s') t) = tc_base_priority (tcbs (skern s1) t)"
    and oth: "\<And>q. q \<noteq> sp \<Longrightarrow> sems s' q = sems s q"
  shows "owned_ok t s'"
proof -
  note F = SMC_Free_PI_Semaphore_facts[OF inv sin free] and O = owned_okD[OF inv]
  have notin: "sp \<notin> set (tc_semaphore_list s1 u)" for u
    using O(1)[of task] O(5)[OF sin] O(5)[of sp u] by (cases "u = task") (auto simp: F(4))
  have sub: "q \<in> set (tc_semaphore_list s1 u) \<Longrightarrow> q \<in> set (tc_semaphore_list s u)" for q u
    using set_remove1_subset[of sp "tc_semaphore_list s task"] by (auto simp: F(4) split: if_splits)
  have d: "distinct (tc_semaphore_list s1 t)" "length (tc_semaphore_list s1 t) < 256"
    using O(1)[of t] O(2)[of t] by (auto simp: F(4) length_remove1)
  have "sm_id_valid (sems s' q) \<and> sm_suspend_type (sems s' q) = NU_PRIORITY_INHERIT \<and> sm_semaphore_owner (sems s' q) = Some t"
    if "q \<in> set (tc_semaphore_list s1 t)" for q
  proof -
    have "q \<noteq> sp" using that notin by blast
    then show ?thesis using O(5)[OF sub[OF that]] oth by simp
  qed
  then show ?thesis using d F(7,8)[of t] by (simp add: owned_ok_def l k)
qed

lemma NU_Reset_Semaphore_inv:
  assumes inv: "sem_inv s" and n: "initial_count < 4294967296"
  shows "sem_inv (fst (NU_Reset_Semaphore sp initial_count s))"
proof (cases "sp \<noteq> NU_NULL \<and> sm_id_valid (sems s sp) \<and>
    \<not> (sm_suspend_type (sems s sp) = NU_PRIORITY_INHERIT \<and> initial_count \<noteq> 1)")
  case False
  then show ?thesis using inv by (auto simp: NU_Reset_Semaphore_def Let_def)
next
  case True
  let ?q = "sems s sp"
  let ?L = "sm_suspension_list ?q" and ?pi = "sm_suspend_type ?q = NU_PRIORITY_INHERIT"
  have v: "sm_id_valid ?q" using True by blast
  note I = sem_invD[OF inv v refl]
  define own where "own \<longleftrightarrow> ?pi \<and> sm_semaphore_owner ?q \<noteq> None"
  define task where "task = the (sm_semaphore_owner ?q)"
  define r1 where "r1 = (if own then SMC_Free_PI_Semaphore sp task s else (s, False))"
  obtain s1 p1 where s1: "(s1, p1) = r1" by (metis surj_pair)
  obtain s2 p2 where s2: "(s2, p2) = lift_all_sem NU_SEMAPHORE_RESET ?L (s1, p1)" by (metis surj_pair)
  let ?s' = "upd_s sp (\<lambda>q. q\<lparr>sm_semaphore_count := initial_count, sm_tasks_waiting := 0, sm_suspension_list := [],
      sm_semaphore_owner := (if sm_suspend_type q = NU_PRIORITY_INHERIT then None else sm_semaphore_owner q)\<rparr>) s2"
  have c: "(case sm_semaphore_owner ?q of
        Some owner \<Rightarrow> if ?pi then SMC_Free_PI_Semaphore sp owner s else (s, False) | None \<Rightarrow> (s, False)) = (s1, p1)"
    unfolding s1 r1_def own_def task_def by (auto split: option.splits)
  have run: "fst (NU_Reset_Semaphore sp initial_count s) = ?s'"
    using True by (auto simp: NU_Reset_Semaphore_def Let_def c s2[symmetric])
  have sin: "sp \<in> set (tc_semaphore_list s task)" if own using that I(9) by (auto simp: own_def task_def)
  note F = SMC_Free_PI_Semaphore_facts[OF inv]
  have S1: "sems s1 = sems s" "sblocks s1 = sblocks s" "sched_inv (skern s1)"
    "wait_view (tcbs (skern s1) u) = wait_view (tcbs (skern s) u)" for u
    using F[OF sin] s1 inv by (auto simp: r1_def sem_inv_def split: if_splits)
  have "wait_view (tcbs (skern s1) t) = (NU_SEMAPHORE_SUSPEND, False, Some t, NU_READY, False)" if "t \<in> set ?L" for t
    using I(6)[OF that] S1(4) by (simp add: sem_waiter_def)
  note A = lift_all_sem_facts[OF S1(3) I(1) this s2]
  have "sem_inv ?s'"
  proof (rule sem_inv_change[OF inv, where sp = sp and C = "set ?L"])
    show "sem_ok sp ?s'" using True n by (simp add: sem_ok_def A(1) S1(1))
    show "owned_ok t ?s'" for t
    proof (cases own)
      case True
      then have "(s1, p1) = SMC_Free_PI_Semaphore sp task s" using s1 by (simp add: r1_def)
      from freed_owned_ok[OF inv sin[OF True] this] show ?thesis using A(1,2,7,8) S1(1) by simp
    next
      case False
      then have "s1 = s" using s1 by (simp add: r1_def)
      moreover have "sp \<notin> set (tc_semaphore_list s u)" for u using owned_okD(5)[OF inv, of sp u] False by (auto simp: own_def)
      ultimately show ?thesis using inv A(1,2,7,8) by (auto simp: sem_inv_def owned_ok_def)
    qed
    show "q \<noteq> sp \<Longrightarrow> q \<in> set (tc_semaphore_list s t) \<Longrightarrow> q \<in> set (tc_semaphore_list ?s' t)" for q t
      using F(4)[OF sin] s1 by (auto simp: A(2) r1_def split: if_splits)
  qed (use one_semaphore[OF inv v] A(1,4,6) S1 in auto)
  then show ?thesis by (simp add: run)
qed

lemma NU_Delete_Semaphore_inv:
  assumes inv: "sem_inv s"
  shows "sem_inv (fst (NU_Delete_Semaphore sp s))"
proof -
  let ?q = "sems s sp" and ?t = "current_task (skern s)"
  let ?L = "sm_suspension_list ?q" and ?pi = "sm_suspend_type ?q = NU_PRIORITY_INHERIT"
  define own where "own \<longleftrightarrow> ?pi \<and> sm_semaphore_owner ?q = Some ?t"
  have "sem_inv (fst (NU_Delete_Semaphore sp s))"
    if v: "sm_id_valid ?q" and z: "sp \<noteq> NU_NULL"
      and ok: "\<not> (?pi \<and> sm_semaphore_owner ?q \<noteq> Some ?t \<and> sm_semaphore_owner ?q \<noteq> None)"
  proof -
    note I = sem_invD[OF inv v refl]
    define r1 where "r1 = (if own then SMC_Free_PI_Semaphore sp ?t s else (s, False))"
    obtain s1 p1 where s1: "(s1, p1) = r1" by (metis surj_pair)
    let ?s2 = "(upd_s sp (sm_id_valid_update (\<lambda>_. False)) s1)
      \<lparr>SMD_Created_Semaphores_List := remove1 sp (SMD_Created_Semaphores_List s1),
       SMD_Total_Semaphores := dec32 (SMD_Total_Semaphores s1)\<rparr>"
    obtain s3 p3 where s3: "(s3, p3) = lift_all_sem NU_SEMAPHORE_DELETED ?L (?s2, p1)" by (metis surj_pair)
    have c: "(if ?pi \<and> sm_semaphore_owner ?q = Some ?t then SMC_Free_PI_Semaphore sp ?t s else (s, False)) = (s1, p1)"
      unfolding s1 r1_def own_def ..
    have run: "fst (NU_Delete_Semaphore sp s) = s3"
      using v z ok by (auto simp: NU_Delete_Semaphore_def Let_def c s3[symmetric])
    have sin: "sp \<in> set (tc_semaphore_list s ?t)" if own using that I(9) by (auto simp: own_def)
    note F = SMC_Free_PI_Semaphore_facts[OF inv]
    have S1: "sems s1 = sems s" "sblocks s1 = sblocks s" "sched_inv (skern s1)"
      "wait_view (tcbs (skern s1) u) = wait_view (tcbs (skern s) u)" for u
      using F[OF sin] s1 inv by (auto simp: r1_def sem_inv_def split: if_splits)
    have w: "wait_view (tcbs (skern ?s2) t) = (NU_SEMAPHORE_SUSPEND, False, Some t, NU_READY, False)" if "t \<in> set ?L" for t
      using I(6)[OF that] S1(4) by (simp add: sem_waiter_def)
    have si2: "sched_inv (skern ?s2)" using S1(3) by simp
    note A = lift_all_sem_facts[OF si2 I(1) w s3]
    have "sem_inv s3"
    proof (rule sem_inv_change[OF inv, where sp = sp and C = "set ?L"])
      show "sm_id_valid (sems s3 sp) \<Longrightarrow> sem_ok sp s3" by (simp add: A(1))
      show "owned_ok t s3" for t
      proof (cases own)
        case True
        then have "(s1, p1) = SMC_Free_PI_Semaphore sp ?t s" using s1 by (simp add: r1_def)
        from freed_owned_ok[OF inv sin[OF True] this] show ?thesis using A(1,2,7,8) S1(1) by simp
      next
        case False
        then have "s1 = s" using s1 by (simp add: r1_def)
        moreover have "sp \<notin> set (tc_semaphore_list s u)" for u
          using owned_okD(5)[OF inv, of sp u] False ok by (auto simp: own_def)
        ultimately show ?thesis using inv A(1,2,7,8) by (auto simp: sem_inv_def owned_ok_def)
      qed
      show "q \<noteq> sp \<Longrightarrow> q \<in> set (tc_semaphore_list s t) \<Longrightarrow> q \<in> set (tc_semaphore_list s3 t)" for q t
        using F(4)[OF sin] s1 by (auto simp: A(2) r1_def split: if_splits)
    qed (use one_semaphore[OF inv v] A(1,4,6) S1 in auto)
    then show ?thesis by (simp add: run)
  qed
  then show ?thesis using inv by (auto simp: NU_Delete_Semaphore_def Let_def)
qed

lemma NU_Create_Semaphore_inv:
  assumes inv: "sem_inv s" and n: "initial_count < 4294967296"
  shows "sem_inv (fst (NU_Create_Semaphore sp initial_count suspend_type s))"
proof -
  let ?s = "upd_s sp (\<lambda>_. \<lparr>sm_id_valid = True, sm_semaphore_count = initial_count, sm_suspend_type = the suspend_type,
      sm_owner_killed = False, sm_semaphore_owner = None, sm_tasks_waiting = 0, sm_suspension_list = []\<rparr>)
    (s\<lparr>SMD_Created_Semaphores_List := SMD_Created_Semaphores_List s @ [sp],
       SMD_Total_Semaphores := inc32 (SMD_Total_Semaphores s)\<rparr>)"
  have "sem_inv ?s" if v: "\<not> sm_id_valid (sems s sp)" and ty: "suspend_type \<noteq> None"
      and pi: "\<not> (suspend_type = Some NU_PRIORITY_INHERIT \<and> initial_count \<noteq> 1)"
  proof (rule sem_inv_change[OF inv, where sp = sp and C = "{}"])
    show "sem_ok sp ?s" using n pi ty by (auto simp: sem_ok_def)
    have "sp \<notin> set (tc_semaphore_list s t)" for t using owned_okD(5)[OF inv, of sp t] v by auto
    then show "owned_ok t ?s" for t using inv by (auto simp: sem_inv_def owned_ok_def)
  qed (use inv in \<open>auto simp: sem_inv_def\<close>)
  then show ?thesis using inv by (auto simp: NU_Create_Semaphore_def Let_def)
qed

lemma release_inv:
  assumes inv: "sem_inv s" and v: "sm_id_valid (sems s sp)" and roll: "sm_semaphore_count (sems s sp) < 4294967295"
    and bound: "\<And>h. length (tc_semaphore_list s h) < 255"
  shows "sem_inv (fst (smc_release_semaphore sp task s))"
proof -
  obtain s' st p where s': "(s', st, p) = smc_release_semaphore sp task s" by (metis surj_pair)
  obtain s1 p1 where s1: "(s1, p1) = SMC_Free_PI_Semaphore sp task s" by (metis surj_pair)
  consider "sm_suspend_type (sems s sp) \<noteq> NU_PRIORITY_INHERIT"
    | "sm_suspend_type (sems s sp) = NU_PRIORITY_INHERIT" "sm_semaphore_owner (sems s sp) = Some task"
    | "sm_suspend_type (sems s sp) = NU_PRIORITY_INHERIT" "sm_semaphore_owner (sems s sp) \<noteq> Some task" by blast
  then have "sem_inv s'"
  proof cases
    case 1
    then show ?thesis by (rule release_plain(2)[OF inv v _ refl s' roll])
  next
    case 2
    then show ?thesis by (rule release_pi(2)[OF inv v _ _ refl s' s1 bound])
  next
    case 3
    then show ?thesis using s' inv by (simp add: smc_release_semaphore_def)
  qed
  then show ?thesis by (simp add: s'[symmetric])
qed

lemma NU_Release_Semaphore_inv:
  assumes inv: "sem_inv s" and bound: "\<And>h. length (tc_semaphore_list s h) < 255"
  shows "sem_inv (fst (NU_Release_Semaphore sp s))"
proof -
  have "sm_semaphore_count (sems s sp) < 4294967295"
    if "sm_id_valid (sems s sp)" "inc32 (sm_semaphore_count (sems s sp)) \<noteq> 0"
  proof (rule ccontr)
    assume "\<not> ?thesis"
    then have "sm_semaphore_count (sems s sp) = 4294967295" using sem_invD(4)[OF inv that(1) refl] by simp
    then show False using that(2) by (simp add: inc32_def)
  qed
  then show ?thesis using release_inv[OF inv _ _ bound] inv by (auto simp: NU_Release_Semaphore_def Let_def)
qed

lemma SMC_Kill_Semaphore_Owner_inv:
  assumes inv: "sem_inv s" and v: "sm_id_valid (sems s sp)" and pi: "sm_suspend_type (sems s sp) = NU_PRIORITY_INHERIT"
    and bound: "\<And>h. length (tc_semaphore_list s h) < 255"
  shows "sem_inv (fst (SMC_Kill_Semaphore_Owner sp t s))"
proof -
  let ?s = "upd_s sp (sm_owner_killed_update (\<lambda>_. True)) s"
  have "sem_inv ?s"
  proof (rule sem_inv_change[OF inv, where sp = sp and C = "{}"])
    show "sem_ok sp ?s" using inv v by (auto simp: sem_inv_def sem_ok_def sem_waiter_def Let_def)
    show "owned_ok u ?s" for u using inv by (auto simp: sem_inv_def owned_ok_def)
  qed (use inv in \<open>auto simp: sem_inv_def\<close>)
  moreover have "sm_semaphore_count (sems ?s sp) < 4294967295" using sem_invD(8)[OF inv v refl pi] by (simp split: if_splits)
  ultimately have "sem_inv (fst (smc_release_semaphore sp t ?s))"
    using release_inv[of ?s sp t] v bound by simp
  then show ?thesis using inv by (simp add: SMC_Kill_Semaphore_Owner_def Let_def split_beta)
qed

section \<open>The steps of the component\<close>

definition sem_listed :: "ssys \<Rightarrow> tid \<Rightarrow> bool" where
  "sem_listed s t \<longleftrightarrow> (\<exists>sp. sm_id_valid (sems s sp) \<and> t \<in> set (sm_suspension_list (sems s sp)))"

text \<open>
  The services, time-outs of waiting tasks, the release of a semaphore whose owner is terminated, and other activities
  of the kernel, which leave the suspension of the waiting tasks and the semaphore counters alone. Every
  task owns fewer than 255 semaphores with priority inheritance, and there are fewer than 2^32 - 1 tasks.
\<close>

definition few :: "ssys \<Rightarrow> bool" where
  "few s \<longleftrightarrow> (\<forall>t. length (tc_semaphore_list s t) < 255) \<and> (\<forall>sp. length (sm_suspension_list (sems s sp)) < 4294967295)"

inductive sstep :: "ssys \<Rightarrow> ssys \<Rightarrow> bool" where
  create: "n < 4294967296 \<Longrightarrow> sstep s (fst (NU_Create_Semaphore sp n kind s))"
| obtain_sem: "few s \<Longrightarrow> (suspend \<noteq> 0 \<Longrightarrow> may_suspend (skern s)) \<Longrightarrow> sstep s (fst (NU_Obtain_Semaphore sp suspend s))"
| release: "few s \<Longrightarrow> sstep s (fst (NU_Release_Semaphore sp s))"
| kill: "few s \<Longrightarrow> sp \<in> set (tc_semaphore_list s t) \<Longrightarrow> sstep s (fst (SMC_Kill_Semaphore_Owner sp t s))"
| time_out: "sem_listed s t \<Longrightarrow> sstep s (semaphore_timeout t s)"
| reset: "n < 4294967296 \<Longrightarrow> sstep s (fst (NU_Reset_Semaphore sp n s))"
| delete: "sstep s (fst (NU_Delete_Semaphore sp s))"
| kernel: "sched_inv k \<Longrightarrow> (\<And>t. sem_listed s t \<Longrightarrow> wait_view (tcbs k t) = wait_view (tcbs (skern s) t)) \<Longrightarrow>
    (\<And>t. tc_semaphore_count (tcbs k t) = tc_semaphore_count (tcbs (skern s) t) \<and> tc_base_priority (tcbs k t) < 256) \<Longrightarrow>
    sstep s (s\<lparr>skern := k\<rparr>)"

lemma kernel_sem_inv:
  assumes inv: "sem_inv s" and k: "sched_inv k" "\<And>t. sem_listed s t \<Longrightarrow> wait_view (tcbs k t) = wait_view (tcbs (skern s) t)"
    "\<And>t. tc_semaphore_count (tcbs k t) = tc_semaphore_count (tcbs (skern s) t) \<and> tc_base_priority (tcbs k t) < 256"
  shows "sem_inv (s\<lparr>skern := k\<rparr>)"
proof -
  have "sem_ok sp (s\<lparr>skern := k\<rparr>)" if "sm_id_valid (sems s sp)" for sp
    by (rule sem_ok_frame[of sp s]) (use inv k(2) that in \<open>auto simp: sem_inv_def sem_listed_def\<close>)
  then show ?thesis using inv k(1,3) by (auto simp: sem_inv_def owned_ok_def)
qed

lemma sstep_inv: "sstep s s' \<Longrightarrow> sem_inv s \<Longrightarrow> sem_inv s'"
proof (induction rule: sstep.induct)
  case (kill s sp t)
  then show ?case
    using owned_okD(5)[OF kill(3,2)] by (intro SMC_Kill_Semaphore_Owner_inv) (auto simp: few_def)
qed (auto intro: NU_Create_Semaphore_inv NU_Obtain_Semaphore_inv NU_Release_Semaphore_inv semaphore_timeout_inv
      NU_Reset_Semaphore_inv NU_Delete_Semaphore_inv kernel_sem_inv simp: sem_listed_def few_def)

lemma ssteps_inv: "sstep\<^sup>*\<^sup>* s s' \<Longrightarrow> sem_inv s \<Longrightarrow> sem_inv s'"
  by (induction rule: rtranclp_induct) (auto intro: sstep_inv)

end
