(* ===== verification/Semaphore_Services.thy ===== *)
theory Semaphore_Services
  imports Semaphores
begin

text \<open>
  What the semaphore services promise: consistency in every reachable state, the effect of a release, priority
  inheritance from the suspension of a waiting task to the release by the owner, and its limits.
\<close>

section \<open>Every reachable state\<close>

text \<open>
  C17. From a state without semaphores, any sequence of these steps keeps semaphores consistent: semaphore services
  (every task owns fewer than 255 semaphores, fewer than \<open>2^32 - 1\<close> tasks wait, counts have 32 bits, a caller that asks for
  suspension runs in no signal handler), time-outs of waiting tasks, releases for terminated owners, and changes of
  the kernel that leave the suspension of waiting tasks and the counts of owned semaphores as they are (so no signal is
  sent to a waiting task, which would be ready while on the list, cf. \<open>terminate_in_handler_loses_unit\<close>). No task waits
  while an instance is available; every waiting task is suspended on the semaphore, and waits on no other; waiting tasks
  are in the order of the priorities in their suspension blocks unless the semaphore is first come, first
  served; a semaphore with priority inheritance has an owner exactly when its count is 0, its owner does not wait for
  it, and it is one of the semaphores counted in the owner's control block.
\<close>

theorem semaphores_consistent:
  assumes "sched_inv (skern s0)" and "\<forall>q. \<not> sm_id_valid (sems s0 q)" and "\<forall>t. tc_semaphore_list s0 t = [] \<and>
      tc_semaphore_count (tcbs (skern s0) t) = 0 \<and> tc_base_priority (tcbs (skern s0) t) < 256"
    and "sstep\<^sup>*\<^sup>* s0 s" and "sm_id_valid (sems s sp)" and "L = sm_suspension_list (sems s sp)"
  shows "sm_tasks_waiting (sems s sp) = length L \<and> (sm_semaphore_count (sems s sp) \<noteq> 0 \<longrightarrow> L = []) \<and> distinct L \<and>
    (\<forall>t \<in> set L. waits_for t NU_SEMAPHORE_SUSPEND (skern s) \<and>
       (\<forall>q. q \<noteq> sp \<longrightarrow> sm_id_valid (sems s q) \<longrightarrow> t \<notin> set (sm_suspension_list (sems s q)))) \<and>
    (sm_suspend_type (sems s sp) \<noteq> NU_FIFO \<longrightarrow> sorted (map (\<lambda>t. sm_cs_priority (sblocks s t)) L)) \<and>
    (sm_suspend_type (sems s sp) = NU_PRIORITY_INHERIT \<longrightarrow>
       (case sm_semaphore_owner (sems s sp) of
          None \<Rightarrow> sm_semaphore_count (sems s sp) = 1
        | Some t \<Rightarrow> sm_semaphore_count (sems s sp) = 0 \<and> t \<notin> set L \<and> sp \<in> set (tc_semaphore_list s t) \<and>
            distinct (tc_semaphore_list s t) \<and>
            tc_semaphore_count (tcbs (skern s) t) = length (tc_semaphore_list s t)))"
proof -
  have "sem_inv s0" using assms(1-3) by (simp add: sem_inv_def owned_ok_def)
  then have inv: "sem_inv s" by (rule ssteps_inv[OF assms(4)])
  note I = sem_invD[OF inv assms(5) refl, folded assms(6)]
  have "waits_for t NU_SEMAPHORE_SUSPEND (skern s) \<and>
       (\<forall>q. q \<noteq> sp \<longrightarrow> sm_id_valid (sems s q) \<longrightarrow> t \<notin> set (sm_suspension_list (sems s q)))" if "t \<in> set L" for t
    using that sem_waiter_waits[OF I(6)] one_semaphore[OF inv assms(5)] assms(6) by blast
  moreover have "case sm_semaphore_owner (sems s sp) of
          None \<Rightarrow> sm_semaphore_count (sems s sp) = 1
        | Some t \<Rightarrow> sm_semaphore_count (sems s sp) = 0 \<and> t \<notin> set L \<and> sp \<in> set (tc_semaphore_list s t) \<and>
            distinct (tc_semaphore_list s t) \<and>
            tc_semaphore_count (tcbs (skern s) t) = length (tc_semaphore_list s t)"
    if "sm_suspend_type (sems s sp) = NU_PRIORITY_INHERIT"
    using I(8)[OF that] I(9)[OF that] owned_okD(1,3)[OF inv] by (auto split: option.splits)
  ultimately show ?thesis using I(1,3,5,7) by blast
qed

section \<open>Release\<close>

text \<open>
  C18. Releasing a semaphore without priority inheritance: if tasks wait, the first one becomes ready with the status
  \<open>NU_SUCCESS\<close>, leaves the list, and no other task or suspension block changes, and the count stays 0: the instance
  is handed over. If none waits, the count is incremented and no task changes. A count that would wrap around is
  refused with \<open>NU_SEMAPHORE_COUNT_ROLLOVER\<close>, without any change.
\<close>

theorem NU_Release_Semaphore_effect:
  assumes "sem_inv s" and "sp \<noteq> NU_NULL" and "sm_id_valid (sems s sp)"
    and "sm_suspend_type (sems s sp) \<noteq> NU_PRIORITY_INHERIT" and "n = sm_semaphore_count (sems s sp)"
  shows "if n = 4294967295 then NU_Release_Semaphore sp s = (s, NU_SEMAPHORE_COUNT_ROLLOVER, False)
    else \<exists>s' p. NU_Release_Semaphore sp s = (s', NU_SUCCESS, p) \<and> sem_inv s' \<and>
      (case sm_suspension_list (sems s sp) of
         [] \<Rightarrow> sm_semaphore_count (sems s' sp) = n + 1 \<and> skern s' = skern s
       | t # ts \<Rightarrow> is_ready t (skern s') \<and> sm_return_status (sblocks s' t) = NU_SUCCESS \<and>
           sm_suspension_list (sems s' sp) = ts \<and> sm_semaphore_count (sems s' sp) = 0 \<and>
           (\<forall>u. u \<noteq> t \<longrightarrow> tcbs (skern s') u = tcbs (skern s) u \<and> sblocks s' u = sblocks s u))"
proof (cases "n = 4294967295")
  case True
  then show ?thesis using assms(2,3,5) by (simp add: NU_Release_Semaphore_def inc32_def Let_def)
next
  case False
  then have roll: "sm_semaphore_count (sems s sp) < 4294967295"
    using sem_invD(4)[OF assms(1,3) refl] assms(5) by simp
  then have nz: "inc32 (sm_semaphore_count (sems s sp)) \<noteq> 0" by (simp add: inc32_eq)
  obtain s' st p where s': "(s', st, p) = smc_release_semaphore sp (current_task (skern s)) s" by (metis surj_pair)
  note R = release_plain[OF assms(1,3,4) refl s' roll]
  have "NU_Release_Semaphore sp s = (s', NU_SUCCESS, p)"
    using assms(2,3) nz R(1) s' by (simp add: NU_Release_Semaphore_def Let_def)
  then show ?thesis using False R(2-5) assms(5) by (cases "sm_suspension_list (sems s sp)") auto
qed

section \<open>Priority inheritance\<close>

lemma enlist_inherits:
  assumes inv: "sem_inv s" and own: "sm_semaphore_owner (sems s sp) = Some owner"
    and pi: "sm_suspend_type (sems s sp) = NU_PRIORITY_INHERIT"
    and lt: "tc_priority (tcbs (skern s) t) < tc_priority (tcbs (skern s) owner)"
  shows "skern (enlist sp t s) = fst (TCS_Change_Priority owner (tc_priority (tcbs (skern s) t)) False (skern s))"
  using own pi lt by (simp add: enlist_def Let_def)

lemma NU_Obtain_Semaphore_waits:
  assumes "sp \<noteq> NU_NULL" "sm_id_valid (sems s sp)" "sm_semaphore_count (sems s sp) = 0" "suspend \<noteq> 0"
    "\<not> TCCE_Suspend_Error (skern s)" "t = current_task (skern s)"
    "\<not> (sm_suspend_type (sems s sp) = NU_PRIORITY_INHERIT \<and> sm_semaphore_owner (sems s sp) = Some t)"
  shows "\<exists>leaves. NU_Obtain_Semaphore sp suspend s =
    ((enlist sp t s)\<lparr>skern := fst (TCC_Suspend_Task t NU_SEMAPHORE_SUSPEND (Some t) suspend (skern (enlist sp t s)))\<rparr>,
     None, leaves)"
  using assms by (auto simp: NU_Obtain_Semaphore_def Let_def split_beta)

lemma sched_inv_thread [simp]: "sched_inv (k\<lparr>TCD_Current_Thread := x\<rparr>) = sched_inv k"
  by (simp add: sched_inv_def ready_ok_def ready_set_def highest_ok_def execute_ok_def cong: option.case_cong)

lemma lower_not_executed:
  assumes "sched_inv k" "is_ready t k" "tc_priority (tcbs k t) < tc_priority (tcbs k u)" "tc_preemption (tcbs k u)"
  shows "TCD_Execute_Task k \<noteq> Some u"
proof
  assume u: "TCD_Execute_Task k = Some u"
  have ok: "ready_ok (ready_set k) k" "highest_ok k" "execute_ok k" using assms(1) by (auto simp: sched_inv_def)
  have "t \<in> ready_set k" using assms(2) by (simp add: ready_set_def is_ready_def)
  then have "TCD_Highest_Priority k \<le> tc_priority (tcbs k t)" using highest_le(1)[OF ok(1,2)] by blast
  moreover have "tc_priority (tcbs k u) = TCD_Highest_Priority k" using ok(3) u assms(4) by (simp add: execute_ok_def)
  ultimately show False using assms(3) by simp
qed

text \<open>A task blocks on a semaphore that a ready owner of lower priority holds: the owner inherits the priority.\<close>

lemma obtain_inherits:
  assumes inv: "sem_inv s" and few: "few s" and sp: "sp \<noteq> NU_NULL" "sm_id_valid (sems s sp)"
    and pi: "sm_suspend_type (sems s sp) = NU_PRIORITY_INHERIT" and own: "sm_semaphore_owner (sems s sp) = Some owner"
    and t: "t = current_task (skern s)" "may_suspend (skern s)" "\<not> TCCE_Suspend_Error (skern s)" "suspend \<noteq> 0"
    and lt: "tc_priority (tcbs (skern s) t) < tc_priority (tcbs (skern s) owner)"
  shows "\<exists>s1 leaves. NU_Obtain_Semaphore sp suspend s = (s1, None, leaves) \<and> sem_inv s1 \<and>
    tc_semaphore_list s1 = tc_semaphore_list s \<and> t \<in> set (sm_suspension_list (sems s1 sp)) \<and>
    (sm_suspension_list (sems s sp) = [] \<longrightarrow> sm_suspension_list (sems s1 sp) = [t]) \<and>
    sm_id_valid (sems s1 sp) \<and> sm_suspend_type (sems s1 sp) = NU_PRIORITY_INHERIT \<and>
    sm_semaphore_owner (sems s1 sp) = Some owner \<and> sm_owner_killed (sems s1 sp) = sm_owner_killed (sems s sp) \<and>
    waits_for t NU_SEMAPHORE_SUSPEND (skern s1) \<and>
    tcbs (skern s1) owner = tcbs (fst (TCS_Change_Priority owner (tc_priority (tcbs (skern s) t)) False (skern s))) owner \<and>
    tc_priority (tcbs (skern s1) t) = tc_priority (tcbs (skern s) t)"
proof -
  have ne: "owner \<noteq> t" using lt by auto
  have cnt: "sm_semaphore_count (sems s sp) = 0" using sem_invD(8)[OF inv sp(2) refl pi] own by simp
  have no: "\<not> (sm_suspend_type (sems s sp) = NU_PRIORITY_INHERIT \<and> sm_semaphore_owner (sems s sp) = Some t)"
    using own ne by simp
  let ?e = "enlist sp t s"
  let ?s1 = "?e\<lparr>skern := fst (TCC_Suspend_Task t NU_SEMAPHORE_SUSPEND (Some t) suspend (skern ?e))\<rparr>"
  obtain leaves where run: "NU_Obtain_Semaphore sp suspend s = (?s1, None, leaves)"
    using NU_Obtain_Semaphore_waits[OF sp cnt t(4,3,1) no] by blast
  have rf: "runs_freely t (skern s)" using t(1,2) by (simp add: may_suspend_def)
  note E = enlist_facts[OF inv sp(2) refl free_task_not_waiting[OF inv rf sp(2)] no]
  have "runs_freely t (skern ?e)" using rf E(6) by (simp add: runs_freely_def is_ready_def)
  note S = TCC_Suspend_Task_waits[OF E(5) this, where s = NU_SEMAPHORE_SUSPEND and cl = "Some t" and timeout = suspend, simplified]
  have "sem_inv ?s1" using NU_Obtain_Semaphore_inv[OF inv, of suspend sp] run t(2) few by (simp add: few_def)
  moreover obtain L' where "sems ?e = (sems s)(sp := (sems s sp)\<lparr>sm_tasks_waiting := inc32 (sm_tasks_waiting (sems s sp)),
      sm_suspension_list := L'\<rparr>)" "set L' = insert t (set (sm_suspension_list (sems s sp)))"
      "length L' = Suc (length (sm_suspension_list (sems s sp)))" using E(1) by blast
  moreover have "L' = [t]" if "sm_suspension_list (sems s sp) = []"
    using calculation(3,4) that by (cases L') auto
  moreover have "tcbs (skern ?s1) owner = tcbs (fst (TCS_Change_Priority owner (tc_priority (tcbs (skern s) t)) False (skern s))) owner"
    using S(3)[OF ne] enlist_inherits[OF inv own pi lt] by simp
  ultimately show ?thesis
    using run S(2) E(4,6) sp(2) pi own by (intro exI[of _ ?s1] exI[of _ leaves]) simp
qed

text \<open>
  C16. Priority inheritance, from beginning to end. A ready task \<open>owner\<close> at its base priority holds one semaphore with
  priority inheritance. A task \<open>t\<close> of greater priority waits for it: from then on the owner has the priority of
  \<open>t\<close>, with its base priority unchanged. When the owner runs and releases the semaphore, \<open>t\<close> is its owner and
  ready, with the status \<open>NU_SUCCESS\<close>; the old owner is back at its base priority, and if it can be preempted it is no longer
  the task to execute.
\<close>

theorem priority_inheritance:
  assumes "sem_inv s" and "few s" and "sp \<noteq> NU_NULL" and "sm_id_valid (sems s sp)"
    and "sm_suspend_type (sems s sp) = NU_PRIORITY_INHERIT" and "sm_semaphore_owner (sems s sp) = Some owner"
    and "sm_suspension_list (sems s sp) = []" and "\<not> sm_owner_killed (sems s sp)"
    and "tc_semaphore_list s owner = [sp]" and "is_ready owner (skern s)"
    and "tc_base_priority (tcbs (skern s) owner) = tc_priority (tcbs (skern s) owner)"
    and "t = current_task (skern s)" and "may_suspend (skern s)" and "\<not> TCCE_Suspend_Error (skern s)" and "suspend \<noteq> 0"
    and "tc_priority (tcbs (skern s) t) < tc_priority (tcbs (skern s) owner)"
  shows "\<exists>s1 leaves s2 s3 p. NU_Obtain_Semaphore sp suspend s = (s1, None, leaves) \<and>
    waits_for t NU_SEMAPHORE_SUSPEND (skern s1) \<and>
    tc_priority (tcbs (skern s1) owner) = tc_priority (tcbs (skern s) t) \<and>
    tc_base_priority (tcbs (skern s1) owner) = tc_base_priority (tcbs (skern s) owner) \<and>
    s2 = s1\<lparr>skern := (skern s1)\<lparr>TCD_Current_Thread := Task_Thread owner\<rparr>\<rparr> \<and>
    NU_Release_Semaphore sp s2 = (s3, NU_SUCCESS, p) \<and>
    sm_semaphore_owner (sems s3 sp) = Some t \<and> is_ready t (skern s3) \<and> sm_return_status (sblocks s3 t) = NU_SUCCESS \<and>
    tc_priority (tcbs (skern s3) owner) = tc_priority (tcbs (skern s) owner) \<and>
    (tc_preemption (tcbs (skern s3) owner) \<longrightarrow> TCD_Execute_Task (skern s3) \<noteq> Some owner)"
proof -
  let ?pt = "tc_priority (tcbs (skern s) t)"
  obtain s1 leaves where s1: "NU_Obtain_Semaphore sp suspend s = (s1, None, leaves)" "sem_inv s1"
    "tc_semaphore_list s1 = tc_semaphore_list s" "sm_suspension_list (sems s1 sp) = [t]"
    "sm_id_valid (sems s1 sp)" "sm_suspend_type (sems s1 sp) = NU_PRIORITY_INHERIT"
    "sm_semaphore_owner (sems s1 sp) = Some owner" "\<not> sm_owner_killed (sems s1 sp)"
    "waits_for t NU_SEMAPHORE_SUSPEND (skern s1)"
    "tcbs (skern s1) owner = tcbs (fst (TCS_Change_Priority owner ?pt False (skern s))) owner"
    "tc_priority (tcbs (skern s1) t) = ?pt"
    using obtain_inherits[OF assms(1-6,12-16)] assms(7,8) by metis
  have rd: "tc_status (tcbs (skern s) owner) = NU_READY" using assms(10) by (simp add: is_ready_def)
  have pr1: "tc_priority (tcbs (skern s1) owner) = ?pt"
    "tc_base_priority (tcbs (skern s1) owner) = tc_base_priority (tcbs (skern s) owner)"
    using TCS_Change_Priority_priority(1)[OF rd, of ?pt] assms(16) s1(10) by auto
  define k2 where "k2 = (skern s1)\<lparr>TCD_Current_Thread := Task_Thread owner\<rparr>"
  define s2 where "s2 = s1\<lparr>skern := k2\<rparr>"
  have inv2: "sem_inv s2"
    unfolding s2_def by (rule kernel_sem_inv[OF s1(2)]) (use s1(2) owned_okD[OF s1(2)] in \<open>auto simp: k2_def sem_inv_def\<close>)
  have cur: "current_task (skern s2) = owner" by (simp add: s2_def k2_def current_task_def)
  obtain s3 st p where s3: "(s3, st, p) = smc_release_semaphore sp owner s2" by (metis surj_pair)
  obtain f pf where f: "(f, pf) = SMC_Free_PI_Semaphore sp owner s2" by (metis surj_pair)
  have l2: "tc_semaphore_list s2 = tc_semaphore_list s" using s1(3) by (simp add: s2_def)
  have bound: "length (tc_semaphore_list s2 h) < 255" for h using assms(2) l2 by (simp add: few_def)
  have q2: "sems s2 = sems s1" by (simp add: s2_def)
  have v2: "sm_id_valid (sems s2 sp)" "sm_suspend_type (sems s2 sp) = NU_PRIORITY_INHERIT"
    "sm_semaphore_owner (sems s2 sp) = Some owner" "[t] = sm_suspension_list (sems s2 sp)" using s1 q2 by simp_all
  note R = release_pi[OF inv2 v2(1-3) refl s3 f bound, folded v2(4)]
  have cnt: "sm_semaphore_count (sems s2 sp) = 0" using sem_invD(8)[OF inv2 v2(1) refl v2(2)] v2(3) by simp
  have "NU_Release_Semaphore sp s2 = (s3, NU_SUCCESS, p)"
    using assms(3) v2(1) cnt cur s3 R(1) by (simp add: NU_Release_Semaphore_def inc32_def Let_def)
  moreover have r3: "sm_semaphore_owner (sems s3 sp) = Some t" "is_ready t (skern s3)"
    "sm_return_status (sblocks s3 t) = NU_SUCCESS" using R(4)[of t "[]"] s1(8) q2 by auto
  moreover have ne: "owner \<noteq> t" using assms(16) by auto
  have sin: "sp \<in> set (tc_semaphore_list s2 owner)" using l2 assms(9) by simp
  note F = SMC_Free_PI_Semaphore_facts[OF inv2 sin f]
  have rd2: "is_ready owner (skern s2)"
  proof -
    have "wait_view (tcbs (skern s1) owner) = wait_view (tcbs (skern s) owner)" by (simp add: s1(10) TCS_Change_Priority_tcb)
    then show ?thesis using assms(10) by (simp add: s2_def k2_def is_ready_def wait_view_def)
  qed
  have po: "tc_priority (tcbs (skern s3) owner) = tc_priority (tcbs (skern s) owner)"
  proof -
    have "tcbs (skern s3) owner = tcbs (skern f) owner" using R(5)[of t "[]" owner] ne by simp
    moreover have "tc_priority (tcbs (skern f) owner) = tc_base_priority (tcbs (skern s2) owner)"
      using F(10) rd2 l2 assms(9) by simp
    ultimately show ?thesis using pr1(2) assms(11) by (simp add: s2_def k2_def)
  qed
  moreover have pt: "tc_priority (tcbs (skern s3) t) = ?pt"
  proof -
    have "tcbs (skern f) t = tcbs (skern s2) t" using F(9)[of t] ne by simp
    then show ?thesis using R(6)[of t "[]"] s1(11) by (simp add: s2_def k2_def)
  qed
  moreover have "tc_preemption (tcbs (skern s3) owner) \<longrightarrow> TCD_Execute_Task (skern s3) \<noteq> Some owner"
    using lower_not_executed[of "skern s3" t owner] R(2) r3(2) po pt assms(16) by (simp add: sem_inv_def)
  ultimately show ?thesis using s1(1,9) pr1 s2_def k2_def by blast
qed

text \<open>
  The limit of the inheritance: when the owner of the semaphore is itself suspended, a task of greater priority that
  waits for the semaphore overwrites the owner's base priority with the priority the owner has at that moment.
  If that priority was itself inherited, the base priority is lost: after the release the owner keeps a priority
  that it only inherited.
\<close>

theorem inheritance_overwrites_base:
  assumes "sem_inv s" and "few s" and "sp \<noteq> NU_NULL" and "sm_id_valid (sems s sp)"
    and "sm_suspend_type (sems s sp) = NU_PRIORITY_INHERIT" and "sm_semaphore_owner (sems s sp) = Some owner"
    and "\<not> is_ready owner (skern s)"
    and "t = current_task (skern s)" and "may_suspend (skern s)" and "\<not> TCCE_Suspend_Error (skern s)" and "suspend \<noteq> 0"
    and "tc_priority (tcbs (skern s) t) < tc_priority (tcbs (skern s) owner)"
  shows "\<exists>s1 leaves. NU_Obtain_Semaphore sp suspend s = (s1, None, leaves) \<and>
    tc_priority (tcbs (skern s1) owner) = tc_priority (tcbs (skern s) t) \<and>
    tc_base_priority (tcbs (skern s1) owner) = tc_priority (tcbs (skern s) owner)"
proof -
  have nr: "tc_status (tcbs (skern s) owner) \<noteq> NU_READY" using assms(7) by (simp add: is_ready_def)
  obtain s1 leaves where s1: "NU_Obtain_Semaphore sp suspend s = (s1, None, leaves)"
    "tcbs (skern s1) owner = tcbs (fst (TCS_Change_Priority owner (tc_priority (tcbs (skern s) t)) False (skern s))) owner"
    using obtain_inherits[OF assms(1-6,8-12)] by blast
  then show ?thesis using TCS_Change_Priority_priority(2)[OF nr] by (intro exI[of _ s1] exI[of _ leaves]) simp
qed

section \<open>Witnesses\<close>

text \<open>
  Task 1 creates the semaphore 7 with priority inheritance and obtains it; the priority of task 2 is set to 20, and
  task 2 runs. The semaphore 8 is a counting semaphore.
\<close>

definition sem0 :: ssys where
  "sem0 = \<lparr>sems = (\<lambda>_. \<lparr>sm_id_valid = False, sm_semaphore_count = 0, sm_suspend_type = NU_FIFO, sm_owner_killed = False,
       sm_semaphore_owner = None, sm_tasks_waiting = 0, sm_suspension_list = []\<rparr>),
     SMD_Created_Semaphores_List = [], SMD_Total_Semaphores = 0,
     sblocks = (\<lambda>_. \<lparr>sm_cs_priority = 0, sm_semaphore = 0, sm_return_status = NU_SUCCESS\<rparr>),
     tc_semaphore_list = (\<lambda>_. []), skern = kernel2\<rparr>"

definition sem1 :: ssys where
  "sem1 = fst (NU_Create_Semaphore 8 0 (Some NU_FIFO) (fst (NU_Create_Semaphore 7 1 (Some NU_PRIORITY_INHERIT) sem0)))"

definition sem2 :: ssys where
  "sem2 = fst (NU_Obtain_Semaphore 7 0 sem1)"

definition kernel4 :: kernel where
  "kernel4 = (fst (TCS_Change_Priority 2 20 False (skern sem2)))\<lparr>TCD_Current_Thread := Task_Thread 2\<rparr>"

definition sem3 :: ssys where
  "sem3 = sem2\<lparr>skern := kernel4\<rparr>"

lemma sem1_simps: "skern sem1 = kernel2" "tc_semaphore_list sem1 = (\<lambda>_. [])"
  "sems sem1 = (sems sem0)(7 := \<lparr>sm_id_valid = True, sm_semaphore_count = 1, sm_suspend_type = NU_PRIORITY_INHERIT,
     sm_owner_killed = False, sm_semaphore_owner = None, sm_tasks_waiting = 0, sm_suspension_list = []\<rparr>,
     8 := \<lparr>sm_id_valid = True, sm_semaphore_count = 0, sm_suspend_type = NU_FIFO,
     sm_owner_killed = False, sm_semaphore_owner = None, sm_tasks_waiting = 0, sm_suspension_list = []\<rparr>)"
  by (simp_all add: sem1_def NU_Create_Semaphore_def sem0_def fun_eq_iff)

lemma sem2_simps: "skern sem2 = upd_tcb (tc_semaphore_count_update inc8) 1 kernel2"
  "tc_semaphore_list sem2 = (\<lambda>_. [])(1 := [7])" "sems sem2 8 = sems sem1 8"
  "sems sem2 7 = \<lparr>sm_id_valid = True, sm_semaphore_count = 0, sm_suspend_type = NU_PRIORITY_INHERIT,
     sm_owner_killed = False, sm_semaphore_owner = Some 1, sm_tasks_waiting = 0, sm_suspension_list = []\<rparr>"
  "sm_suspension_list (sems sem2 q) = []"
  by (simp_all add: sem2_def NU_Obtain_Semaphore_def sem1_simps runs_kernel2 dec32_def Let_def) (simp add: sem0_def)

lemma start_sem0: "sched_inv (skern sem0)" "\<forall>q. \<not> sm_id_valid (sems sem0 q)"
  "\<forall>t. tc_semaphore_list sem0 t = [] \<and> tc_semaphore_count (tcbs (skern sem0) t) = 0 \<and>
     tc_base_priority (tcbs (skern sem0) t) < 256"
  by (simp_all add: sem0_def inv_kernel2 task0_def)

lemma few_sem1: "few sem1"
  by (simp add: few_def sem1_simps) (simp add: sem0_def)

lemma steps_sem2: "sstep\<^sup>*\<^sup>* sem0 sem2"
proof -
  have a: "sstep sem0 (fst (NU_Create_Semaphore 7 1 (Some NU_PRIORITY_INHERIT) sem0))" by (rule sstep.create) simp
  have b: "sstep (fst (NU_Create_Semaphore 7 1 (Some NU_PRIORITY_INHERIT) sem0)) sem1"
    unfolding sem1_def by (rule sstep.create) simp
  have c: "sstep sem1 sem2" unfolding sem2_def by (rule sstep.obtain_sem[OF few_sem1]) simp
  show ?thesis using a b c by (blast intro: converse_rtranclp_into_rtranclp)
qed

lemma sem_inv2: "sem_inv sem2"
  by (rule ssteps_inv[OF steps_sem2]) (use start_sem0 in \<open>simp add: sem_inv_def owned_ok_def\<close>)

lemma sched_inv_sem2: "sched_inv (skern sem2)"
  using sem_inv2 by (simp add: sem_inv_def)

lemma tcbs_sem2: "tcbs (skern sem2) 2 = task0\<lparr>tc_status := NU_READY\<rparr>"
  "tcbs (skern sem2) 1 = task0\<lparr>tc_status := NU_READY, tc_semaphore_count := 1\<rparr>"
  by (simp_all add: sem2_simps task0_def inc32_def inc8_def)

lemma kernel4_facts: "sched_inv kernel4" "current_task kernel4 = 2" "tcbs kernel4 1 = tcbs (skern sem2) 1"
  "tc_priority (tcbs kernel4 2) = 20" "may_suspend kernel4" "\<not> TCCE_Suspend_Error kernel4"
  "tc_semaphore_count (tcbs kernel4 t) = tc_semaphore_count (tcbs (skern sem2) t)"
  "tc_base_priority (tcbs kernel4 t) < 256"
proof -
  show "sched_inv kernel4" unfolding kernel4_def using TCS_Change_Priority_inv[OF sched_inv_sem2, of 20] by simp
  show c: "current_task kernel4 = 2" by (simp add: kernel4_def current_task_def)
  show "tcbs kernel4 1 = tcbs (skern sem2) 1" by (simp add: kernel4_def TCS_Change_Priority_tcb(3))
  show "tc_priority (tcbs kernel4 2) = 20"
    using TCS_Change_Priority_priority(1)[of "skern sem2" 2 20] by (simp add: kernel4_def tcbs_sem2 task0_def)
  have "wait_view (tcbs kernel4 2) = wait_view (tcbs (skern sem2) 2)" by (simp add: kernel4_def TCS_Change_Priority_tcb)
  then have w: "tc_status (tcbs kernel4 2) = NU_READY" "\<not> tc_signal_active (tcbs kernel4 2)"
    "tc_debug_suspend (tcbs kernel4 2) = NU_READY" "\<not> tc_delayed_suspend (tcbs kernel4 2)"
    by (simp_all add: wait_view_def tcbs_sem2) (simp_all add: task0_def)
  then show "may_suspend kernel4" by (simp add: may_suspend_def runs_freely_def is_ready_def c)
  have "TCD_Current_Thread kernel4 = Task_Thread 2" by (simp add: kernel4_def)
  then show "\<not> TCCE_Suspend_Error kernel4" using w(2) by (simp add: TCCE_Suspend_Error_def)
  show "tc_semaphore_count (tcbs kernel4 t) = tc_semaphore_count (tcbs (skern sem2) t)"
    by (simp add: kernel4_def TCS_Change_Priority_tcb)
  show "tc_base_priority (tcbs kernel4 t) < 256"
    using TCS_Change_Priority_base[OF _ sched_inv_sem2 owned_okD(4)[OF sem_inv2], of 20 2 t] by (simp add: kernel4_def)
qed

lemma sem3_facts: "sem_inv sem3" "few sem3" "skern sem3 = kernel4" "sems sem3 = sems sem2"
  "tc_semaphore_list sem3 = (\<lambda>_. [])(1 := [7])"
proof -
  show "skern sem3 = kernel4" "sems sem3 = sems sem2" "tc_semaphore_list sem3 = (\<lambda>_. [])(1 := [7])"
    by (simp_all add: sem3_def sem2_simps)
  then show "few sem3" by (simp add: few_def sem2_simps)
  show "sem_inv sem3" unfolding sem3_def
    by (rule kernel_sem_inv[OF sem_inv2]) (use kernel4_facts in \<open>auto simp: sem_listed_def sem2_simps\<close>)
qed

theorem semaphores_consistent_witness:
  "sm_semaphore_owner (sems sem2 7) = Some 1 \<and> sm_semaphore_count (sems sem2 7) = 0 \<and>
   7 \<in> set (tc_semaphore_list sem2 1) \<and> tc_semaphore_count (tcbs (skern sem2) 1) = 1"
  using semaphores_consistent[OF start_sem0 steps_sem2, of 7 "[]"] by (simp add: sem2_simps)

theorem NU_Release_Semaphore_effect_witness:
  "\<exists>s' p. NU_Release_Semaphore 8 sem2 = (s', NU_SUCCESS, p) \<and> sm_semaphore_count (sems s' 8) = 1"
  using NU_Release_Semaphore_effect[OF sem_inv2, of 8 0] by (auto simp: sem2_simps sem1_simps)

theorem priority_inheritance_witness:
  "\<exists>s1 leaves s2 s3 p. NU_Obtain_Semaphore 7 NU_SUSPEND sem3 = (s1, None, leaves) \<and>
     tc_priority (tcbs (skern s1) 1) = 20 \<and>
     s2 = s1\<lparr>skern := (skern s1)\<lparr>TCD_Current_Thread := Task_Thread 1\<rparr>\<rparr> \<and>
     NU_Release_Semaphore 7 s2 = (s3, NU_SUCCESS, p) \<and>
     sm_semaphore_owner (sems s3 7) = Some 2 \<and> tc_priority (tcbs (skern s3) 1) = 31"
proof -
  have o1: "tcbs (skern sem3) 1 = task0\<lparr>tc_status := NU_READY, tc_semaphore_count := 1\<rparr>"
    using kernel4_facts(3) tcbs_sem2(2) by (simp add: sem3_facts)
  have "sm_id_valid (sems sem3 7)" "sm_suspend_type (sems sem3 7) = NU_PRIORITY_INHERIT"
    "sm_semaphore_owner (sems sem3 7) = Some 1" "sm_suspension_list (sems sem3 7) = []" "\<not> sm_owner_killed (sems sem3 7)"
    "tc_semaphore_list sem3 1 = [7]" "is_ready 1 (skern sem3)"
    "tc_base_priority (tcbs (skern sem3) 1) = tc_priority (tcbs (skern sem3) 1)"
    "2 = current_task (skern sem3)" "may_suspend (skern sem3)" "\<not> TCCE_Suspend_Error (skern sem3)" "NU_SUSPEND \<noteq> 0"
    "tc_priority (tcbs (skern sem3) 2) < tc_priority (tcbs (skern sem3) 1)"
    by (simp_all add: is_ready_def o1 del: One_nat_def)
      (simp_all add: sem3_facts sem2_simps kernel4_facts NU_SUSPEND_def task0_def)
  from priority_inheritance[OF sem3_facts(1,2) _ this, simplified] show ?thesis
    using kernel4_facts(4) o1 by (auto simp: sem3_facts task0_def)
qed

text \<open>The owner is suspended before task 2 waits for the semaphore.\<close>

definition sem4 :: ssys where
  "sem4 = sem3\<lparr>skern := fst (TCC_Suspend_Task 1 NU_PURE_SUSPEND None NU_SUSPEND kernel4)\<rparr>"

lemma sem4_facts: "sem_inv sem4" "few sem4" "sems sem4 = sems sem2" "\<not> is_ready 1 (skern sem4)"
  "tc_priority (tcbs (skern sem4) 1) = 31" "tc_priority (tcbs (skern sem4) 2) = 20"
  "current_task (skern sem4) = 2" "may_suspend (skern sem4)" "\<not> TCCE_Suspend_Error (skern sem4)"
proof -
  have rf: "runs_freely 1 kernel4"
    using kernel4_facts(3) tcbs_sem2(2) by (simp add: runs_freely_def is_ready_def) (simp add: task0_def)
  note S = TCC_Suspend_Task_waits[OF kernel4_facts(1) rf, where s = NU_PURE_SUSPEND and cl = None and timeout = NU_SUSPEND, simplified]
  have th: "TCD_Current_Thread (fst (TCC_Suspend_Task 1 NU_PURE_SUSPEND None NU_SUSPEND kernel4)) = TCD_Current_Thread kernel4"
    by (simp add: TCC_Suspend_Task_def unlink_ready_def Let_def)
  have t2: "tcbs (skern sem4) 2 = tcbs kernel4 2" using S(3)[of 2] by (simp add: sem4_def)
  show "few sem4" "sems sem4 = sems sem2" using sem3_facts by (simp_all add: sem4_def few_def)
  show "\<not> is_ready 1 (skern sem4)" using S(2) by (simp add: sem4_def is_ready_def waits_for_def)
  show "tc_priority (tcbs (skern sem4) 1) = 31" using kernel4_facts(3) tcbs_sem2(2) by (simp add: sem4_def task0_def)
  show "tc_priority (tcbs (skern sem4) 2) = 20" using t2 kernel4_facts(4) by simp
  show c: "current_task (skern sem4) = 2" using kernel4_facts(2) th by (simp add: sem4_def current_task_def)
  show "may_suspend (skern sem4)"
    using kernel4_facts(2,5) t2 c by (simp add: may_suspend_def runs_freely_def is_ready_def)
  have "TCD_Current_Thread (skern sem4) = Task_Thread 2" using th by (simp add: sem4_def kernel4_def)
  then show "\<not> TCCE_Suspend_Error (skern sem4)" using kernel4_facts(2,5) t2 by (simp add: TCCE_Suspend_Error_def may_suspend_def)
  show "sem_inv sem4" unfolding sem4_def
    by (rule kernel_sem_inv[OF sem3_facts(1)])
      (use S(1) owned_okD[OF sem3_facts(1)] in \<open>auto simp: sem_listed_def sem3_facts sem2_simps\<close>)
qed

theorem inheritance_overwrites_base_witness:
  "\<exists>s1 leaves. NU_Obtain_Semaphore 7 NU_SUSPEND sem4 = (s1, None, leaves) \<and>
     tc_priority (tcbs (skern s1) 1) = 20 \<and> tc_base_priority (tcbs (skern s1) 1) = 31"
  using inheritance_overwrites_base[OF sem4_facts(1,2), of 7 1 2 NU_SUSPEND] sem4_facts
  by (simp add: sem2_simps NU_SUSPEND_def)

end
