(* ===== verification/Tasks.thy ===== *)
theory Tasks
  imports Semaphores
begin

unbundle bit_operations_syntax

text \<open>
  Creation, deletion, reset and termination of tasks (\<open>tcct_create.c\<close>, \<open>tcc_delete_task.c\<close>, \<open>tcct_reset_task.c\<close>,
  \<open>tcc_terminate.c\<close>, \<open>tcs_group.c\<close>) and their signals (\<open>tcs_signal.c\<close>, \<open>tcst_signal.c\<close>, \<open>tcc_signal.c\<close>,
  \<open>tcct_signal.c\<close>).

  The state is that of the semaphores with the kernel below it (termination releases the semaphores a task
  owns), the part of the control blocks no other component uses, and the lists of created tasks. The clean-up
  routine of a suspended task belongs to the component that suspended it: for semaphores it is \<open>SMC_Cleanup\<close>, the
  calls for other components are recorded in \<open>cleanup_calls\<close>, since their state is not part of this one. Stack frames
  are made by target code, which is a parameter. A signal handler is application code: a parameter that
  maps the number of a handler, the signals and the state to a state.
\<close>

section \<open>Data\<close>

record task_control =
  tc_entry :: nat
  tc_argc :: nat
  tc_argv :: nat
  tc_stack_start :: nat
  tc_stack_size :: nat
  tc_stack_end :: nat
  tc_stack_pointer :: nat
  tc_return_addr :: nat
  tc_saved_stack_ptr :: nat
  tc_saved_return_addr :: nat
  tc_scheduled :: nat
  tc_grp_id :: nat
  tc_signals :: "32 word"
  tc_enabled_signals :: "32 word"
  tc_signal_handler :: nat

record lsys =
  lsem :: ssys
  ctrl :: "tid \<Rightarrow> task_control"
  TCD_Created_Tasks_List :: "tid list"
  TCD_Total_Tasks :: nat
  TCD_App_Task_List :: "tid list"
  TCD_Total_App_Tasks :: nat
  cleanup_calls :: "(suspend_type \<times> nat) list"

record target =
  ESAL_GE_STK_Unsolicited_Set :: "nat \<Rightarrow> nat \<Rightarrow> nat"
  ESAL_GE_STK_Solicited_Set :: "nat \<Rightarrow> nat \<Rightarrow> nat"

definition ESAL_GE_STK_ALIGN :: "nat \<Rightarrow> nat" where
  "ESAL_GE_STK_ALIGN a = a - a mod 8"

definition TC_GRP_ID_SYS :: nat where "TC_GRP_ID_SYS = 0"
definition TC_GRP_ID_APP :: nat where "TC_GRP_ID_APP = 1"
definition NU_MIN_STACK_SIZE :: nat where "NU_MIN_STACK_SIZE = 250"

abbreviation lkern :: "lsys \<Rightarrow> kernel" where
  "lkern s \<equiv> skern (lsem s)"

definition upd_lkern :: "(kernel \<Rightarrow> kernel) \<Rightarrow> lsys \<Rightarrow> lsys" where
  "upd_lkern f s = s\<lparr>lsem := upd_skern f (lsem s)\<rparr>"

definition upd_ctrl :: "(task_control \<Rightarrow> task_control) \<Rightarrow> tid \<Rightarrow> lsys \<Rightarrow> lsys" where
  "upd_ctrl f t s = s\<lparr>ctrl := (ctrl s)(t := f (ctrl s t))\<rparr>"

lemma upd_lkern_simps [simp]:
  "lsem (upd_lkern f s) = upd_skern f (lsem s)" "ctrl (upd_lkern f s) = ctrl s"
  "TCD_Created_Tasks_List (upd_lkern f s) = TCD_Created_Tasks_List s" "TCD_Total_Tasks (upd_lkern f s) = TCD_Total_Tasks s"
  "TCD_App_Task_List (upd_lkern f s) = TCD_App_Task_List s" "TCD_Total_App_Tasks (upd_lkern f s) = TCD_Total_App_Tasks s"
  "cleanup_calls (upd_lkern f s) = cleanup_calls s"
  by (simp_all add: upd_lkern_def)

lemma upd_ctrl_simps [simp]:
  "lsem (upd_ctrl g t s) = lsem s" "ctrl (upd_ctrl g t s) = (ctrl s)(t := g (ctrl s t))"
  "TCD_Created_Tasks_List (upd_ctrl g t s) = TCD_Created_Tasks_List s" "TCD_Total_Tasks (upd_ctrl g t s) = TCD_Total_Tasks s"
  "TCD_App_Task_List (upd_ctrl g t s) = TCD_App_Task_List s" "TCD_Total_App_Tasks (upd_ctrl g t s) = TCD_Total_App_Tasks s"
  "cleanup_calls (upd_ctrl g t s) = cleanup_calls s"
  by (simp_all add: upd_ctrl_def)

section \<open>The list of application tasks\<close>

definition TCC_Application_Task_Add :: "tid \<Rightarrow> lsys \<Rightarrow> lsys" where
  "TCC_Application_Task_Add t s =
    (upd_ctrl (tc_grp_id_update (\<lambda>_. TC_GRP_ID_APP)) t s)
      \<lparr>TCD_App_Task_List := TCD_App_Task_List s @ [t], TCD_Total_App_Tasks := inc32 (TCD_Total_App_Tasks s)\<rparr>"

definition TCC_Application_Task_Remove :: "tid \<Rightarrow> lsys \<Rightarrow> lsys" where
  "TCC_Application_Task_Remove t s =
    s\<lparr>TCD_App_Task_List := remove1 t (TCD_App_Task_List s), TCD_Total_App_Tasks := dec32 (TCD_Total_App_Tasks s)\<rparr>"

text \<open>
  The result is \<open>None\<close> when a task is removed that is not on the list: its null links are then dereferenced.
\<close>

definition TCS_Change_Group_ID :: "tid \<Rightarrow> nat \<Rightarrow> lsys \<Rightarrow> (lsys \<times> nat) option" where
  "TCS_Change_Group_ID task group_id s =
    (let old_group = tc_grp_id (ctrl s task)
     in if old_group \<noteq> group_id then
          (let s1 = upd_ctrl (tc_grp_id_update (\<lambda>_. group_id)) task s
           in if group_id = TC_GRP_ID_APP then Some (TCC_Application_Task_Add task s1, old_group)
              else if task \<in> set (TCD_App_Task_List s1) then Some (TCC_Application_Task_Remove task s1, old_group)
              else None)
        else Some (s, old_group))"

definition TCS_Task_Group_ID :: "tid \<Rightarrow> lsys \<Rightarrow> nat" where
  "TCS_Task_Group_ID task s = tc_grp_id (ctrl s task)"

section \<open>Creation, reset, deletion\<close>

text \<open>The control block after \<open>CSC_Clear_CB\<close> and the assignments of \<open>NU_Create_Task\<close> up to its identification.\<close>

definition new_tcb :: "nat \<Rightarrow> nat \<Rightarrow> bool \<Rightarrow> tcb" where
  "new_tcb priority time_slice preempt =
     \<lparr>tc_id_valid = False, tc_status = NU_PURE_SUSPEND, tc_delayed_suspend = False, tc_debug_suspend = NU_READY,
      tc_priority = priority, tc_base_priority = priority, tc_preemption = preempt,
      tc_cur_time_slice = time_slice, tc_time_slice = time_slice, tc_priority_head = priority,
      tc_priority_group = push_bit (priority div 8) 1, tc_sub_priority_ptr = priority div 8,
      tc_sub_priority = push_bit (priority mod 8) 1, tc_saved_status = NU_READY, tc_signal_active = False,
      tc_timer_active = False, tc_cleanup = None, tc_semaphore_count = 0, tc_auto_clean = False\<rparr>"

definition new_control :: "target \<Rightarrow> nat \<Rightarrow> nat \<Rightarrow> nat \<Rightarrow> nat \<Rightarrow> nat \<Rightarrow> task_control" where
  "new_control esal entry argc argv stack_address stack_size =
    (let stack_end = ESAL_GE_STK_ALIGN (add32 stack_address stack_size)
     in \<lparr>tc_entry = entry, tc_argc = argc, tc_argv = argv, tc_stack_start = stack_address,
         tc_stack_size = stack_size, tc_stack_end = stack_end,
         tc_stack_pointer = ESAL_GE_STK_Unsolicited_Set esal stack_address stack_end,
         tc_return_addr = 0, tc_saved_stack_ptr = 0, tc_saved_return_addr = 0, tc_scheduled = 0,
         tc_grp_id = TC_GRP_ID_SYS, tc_signals = 0, tc_enabled_signals = 0, tc_signal_handler = 0\<rparr>)"

text \<open>
  \<open>NU_Create_Task\<close> up to the start of the task: the control block is built and identified, and linked into the lists.
\<close>

definition build_task :: "tid \<Rightarrow> tcb \<Rightarrow> task_control \<Rightarrow> lsys \<Rightarrow> lsys" where
  "build_task t c e s =
    (let s1 = upd_ctrl (\<lambda>_. e) t (upd_lkern (upd_tcb (\<lambda>_. c) t) s);
         s2 = s1\<lparr>lsem := (lsem s1)\<lparr>tc_semaphore_list := (tc_semaphore_list (lsem s1))(t := [])\<rparr>\<rparr>;
         s3 = upd_lkern (tm_update (tm_remaining_time_update (\<lambda>r. r(task_timer t := 0)))) s2;
         s4 = upd_lkern (upd_tcb (tc_id_valid_update (\<lambda>_. True)) t) s3;
         s5 = s4\<lparr>TCD_Created_Tasks_List := TCD_Created_Tasks_List s4 @ [t], TCD_Total_Tasks := inc32 (TCD_Total_Tasks s4)\<rparr>
     in case TCD_Current_Thread (lkern s5) of
          Task_Thread parent \<Rightarrow>
            if tc_grp_id (ctrl s5 parent) = TC_GRP_ID_APP then TCC_Application_Task_Add t s5 else s5
        | _ \<Rightarrow> s5)"

text \<open>
  The options \<open>preempt\<close> and \<open>auto_start\<close> are \<open>None\<close> when the argument is neither of the two constants. The result
  tells whether control is transferred to the system.
\<close>

definition NU_Create_Task ::
    "target \<Rightarrow> tid option \<Rightarrow> nat \<Rightarrow> nat \<Rightarrow> nat \<Rightarrow> nat \<Rightarrow> nat \<Rightarrow> nat \<Rightarrow> nat \<Rightarrow> bool option \<Rightarrow> bool option \<Rightarrow>
     lsys \<Rightarrow> lsys \<times> status \<times> bool" where
  "NU_Create_Task esal task task_entry argc argv stack_address stack_size priority time_slice preempt auto_start s =
    (let status = error_checks
           [((case task of None \<Rightarrow> True | Some t \<Rightarrow> tc_id_valid (tcbs (lkern s) t)), NU_INVALID_TASK),
            (task_entry = NU_NULL, NU_INVALID_ENTRY),
            (stack_address = NU_NULL, NU_INVALID_MEMORY),
            (stack_size < NU_MIN_STACK_SIZE, NU_INVALID_SIZE),
            (preempt = None, NU_INVALID_PREEMPT),
            (auto_start = None, NU_INVALID_START),
            (TC_PRIORITIES \<le> priority, NU_INVALID_PRIORITY)] NU_SUCCESS
     in if status \<noteq> NU_SUCCESS then (s, status, False)
        else
          (let t = the task;
               s1 = build_task t (new_tcb priority time_slice (the preempt))
                      (new_control esal task_entry argc argv stack_address stack_size) s
           in if the auto_start
              then (let (k, preempted) = TCC_Resume_Task t NU_PURE_SUSPEND (lkern s1)
                    in (upd_lkern (\<lambda>_. k) s1, NU_SUCCESS, preempted))
              else (s1, NU_SUCCESS, False)))"

definition NU_Reset_Task :: "target \<Rightarrow> tid option \<Rightarrow> nat \<Rightarrow> nat \<Rightarrow> lsys \<Rightarrow> lsys \<times> status" where
  "NU_Reset_Task esal task argc argv s =
    (case task of
       None \<Rightarrow> (s, NU_INVALID_TASK)
     | Some t \<Rightarrow>
         (let c = tcbs (lkern s) t
          in if \<not> tc_id_valid c then (s, NU_INVALID_TASK)
             else if tc_status c = NU_FINISHED \<or> tc_status c = NU_TERMINATED then
               (let s1 = upd_lkern (upd_tcb (\<lambda>c. c\<lparr>tc_status := NU_PURE_SUSPEND, tc_delayed_suspend := False,
                           tc_debug_suspend := NU_READY\<rparr>) t) s
                in (upd_ctrl (\<lambda>e. (let stack_end = ESAL_GE_STK_ALIGN (add32 (tc_stack_start e) (tc_stack_size e))
                           in e\<lparr>tc_argc := argc, tc_argv := argv, tc_scheduled := 0, tc_stack_end := stack_end,
                               tc_stack_pointer := ESAL_GE_STK_Unsolicited_Set esal (tc_stack_start e) stack_end\<rparr>)) t s1,
                    NU_SUCCESS))
             else (s, NU_NOT_TERMINATED)))"

text \<open>The flag of the result: the memory of a task that cleans up after itself is given back to its pool.\<close>

definition NU_Delete_Task :: "tid option \<Rightarrow> lsys \<Rightarrow> lsys \<times> status \<times> bool" where
  "NU_Delete_Task task s =
    (case task of
       None \<Rightarrow> (s, NU_INVALID_TASK, False)
     | Some t \<Rightarrow>
         (let c = tcbs (lkern s) t;
              status = error_checks [(\<not> tc_id_valid c, NU_INVALID_TASK),
                (tc_status c \<noteq> NU_FINISHED \<and> tc_status c \<noteq> NU_TERMINATED, NU_INVALID_DELETE)] NU_SUCCESS
          in if status = NU_SUCCESS then
               (let s1 = s\<lparr>TCD_Created_Tasks_List := remove1 t (TCD_Created_Tasks_List s),
                           TCD_Total_Tasks := dec32 (TCD_Total_Tasks s)\<rparr>;
                    s2 = upd_lkern (upd_tcb (tc_id_valid_update (\<lambda>_. False)) t) s1;
                    s3 = (if tc_grp_id (ctrl s2 t) = TC_GRP_ID_APP then TCC_Application_Task_Remove t s2 else s2)
                in (s3, NU_SUCCESS, tc_auto_clean c))
             else (s, status, False)))"

text \<open>
  The control block and the stack of a task that cleans up after itself come from a memory pool: \<open>memory\<close> is the result of
  \<open>NU_Allocate_Memory\<close>, a status or the address, which is the control block's. The last flag of the result: the memory is
  given back.
\<close>

definition zero_tcb :: tcb where
  "zero_tcb =
     \<lparr>tc_id_valid = False, tc_status = NU_READY, tc_delayed_suspend = False, tc_debug_suspend = NU_READY,
      tc_priority = 0, tc_base_priority = 0, tc_preemption = False,
      tc_cur_time_slice = 0, tc_time_slice = 0, tc_priority_head = 0,
      tc_priority_group = 0, tc_sub_priority_ptr = 0,
      tc_sub_priority = 0, tc_saved_status = NU_READY, tc_signal_active = False,
      tc_timer_active = False, tc_cleanup = None, tc_semaphore_count = 0, tc_auto_clean = False\<rparr>"

definition NU_Create_Auto_Clean_Task ::
    "target \<Rightarrow> nat \<Rightarrow> (status + tid) \<Rightarrow> nat \<Rightarrow> nat \<Rightarrow> nat \<Rightarrow> nat \<Rightarrow> nat \<Rightarrow> nat \<Rightarrow> bool option \<Rightarrow> bool option \<Rightarrow>
     lsys \<Rightarrow> lsys \<times> status \<times> tid option \<times> bool \<times> bool" where
  "NU_Create_Auto_Clean_Task esal sizeof_task memory task_entry argc argv stack_size priority time_slice preempt auto_start s =
    (case memory of
       Inl status \<Rightarrow> (s, status, None, False, False)
     | Inr task \<Rightarrow>
         (let (s1, status) =
            (if auto_start = None then (s, NU_INVALID_START)
             else (let (s1, status, _) = NU_Create_Task esal (Some task) task_entry argc argv (add32 task sizeof_task)
                         stack_size priority time_slice preempt (Some False) (upd_lkern (upd_tcb (\<lambda>_. zero_tcb) task) s)
                   in (s1, status)))
          in if status = NU_SUCCESS then
               (let s2 = upd_lkern (upd_tcb (tc_auto_clean_update (\<lambda>_. True)) task) s1
                in if auto_start = Some True
                   then (let (_, k, preempted) = NU_Resume_Task (Some task) (lkern s2)
                         in (upd_lkern (\<lambda>_. k) s2, status, Some task, preempted, False))
                   else (s2, status, Some task, False, False))
             else (s1, status, None, False, True)))"

section \<open>The end of a task\<close>

text \<open>
  \<open>TCC_Suspend_Task\<close> for the codes \<open>NU_FINISHED\<close> and \<open>NU_TERMINATED\<close>, with the deletion of a task that cleans up
  after itself. The flag tells whether control is transferred to the system.
\<close>

definition end_task :: "tid \<Rightarrow> suspend_type \<Rightarrow> lsys \<Rightarrow> lsys \<times> bool" where
  "end_task t code s =
    (let (k, leaves, deletes) = TCC_Suspend_Task t code None NU_SUSPEND (lkern s);
         s1 = upd_lkern (\<lambda>_. k) s
     in (if deletes then fst (NU_Delete_Task (Some t) s1) else s1, leaves))"

definition TCC_Task_Shell_return :: "lsys \<Rightarrow> lsys \<times> bool" where
  "TCC_Task_Shell_return s =
    (case TCD_Execute_Task (lkern s) of None \<Rightarrow> (s, False) | Some t \<Rightarrow> end_task t NU_FINISHED s)"

partial_function (option) kill_owned :: "tid \<Rightarrow> ssys \<Rightarrow> ssys option" where
  [code]: "kill_owned task s =
    (if tc_semaphore_count (tcbs (skern s) task) = 0 then Some s
     else case tc_semaphore_list s task of
            [] \<Rightarrow> None
          | sp # _ \<Rightarrow> kill_owned task (fst (SMC_Kill_Semaphore_Owner sp task s)))"

definition run_cleanup :: "suspend_type \<Rightarrow> nat \<Rightarrow> lsys \<Rightarrow> lsys" where
  "run_cleanup reason info s =
    (if reason = NU_SEMAPHORE_SUSPEND then s\<lparr>lsem := SMC_Cleanup info (lsem s)\<rparr>
     else s\<lparr>cleanup_calls := cleanup_calls s @ [(reason, info)]\<rparr>)"

text \<open>Terminating a suspended task.\<close>

definition terminate_suspended :: "tid \<Rightarrow> lsys \<Rightarrow> lsys" where
  "terminate_suspended t s =
    (let c = tcbs (lkern s) t;
         s1 = (case tc_cleanup c of None \<Rightarrow> s | Some info \<Rightarrow> run_cleanup (suspended_for c) info s);
         s2 = upd_lkern (upd_tcb (tc_status_update (\<lambda>_. NU_TERMINATED)) t) s1
     in if tc_timer_active (tcbs (lkern s2) t)
        then upd_lkern (\<lambda>k. upd_tcb (tc_timer_active_update (\<lambda>_. False)) t
               (k\<lparr>tm := TMC_Stop_Task_Timer (task_timer t) (tm k)\<rparr>)) s2
        else s2)"

partial_function (option) terminate_loop :: "tid \<Rightarrow> lsys \<Rightarrow> lsys option" where
  [code]: "terminate_loop t s =
    (let status = tc_status (tcbs (lkern s) t)
     in if status \<noteq> NU_FINISHED \<and> status \<noteq> NU_TERMINATED
        then terminate_loop t
               (if status = NU_READY then fst (end_task t NU_TERMINATED s) else terminate_suspended t s)
        else Some s)"

definition NU_Terminate_Task :: "tid option \<Rightarrow> lsys \<Rightarrow> (lsys \<times> status \<times> bool) option" where
  "NU_Terminate_Task task s =
    (case task of
       None \<Rightarrow> Some (s, NU_INVALID_TASK, False)
     | Some t \<Rightarrow>
         if \<not> tc_id_valid (tcbs (lkern s) t) then Some (s, NU_INVALID_TASK, False)
         else
           (case kill_owned t (lsem s) of
              None \<Rightarrow> None
            | Some x \<Rightarrow>
                if TCD_Current_Thread (skern x) = Task_Thread t
                then (let (s1, leaves) = end_task t NU_TERMINATED (s\<lparr>lsem := x\<rparr>) in Some (s1, NU_SUCCESS, leaves))
                else map_option (\<lambda>s1. (s1, NU_SUCCESS, False)) (terminate_loop t (s\<lparr>lsem := x\<rparr>))))"

section \<open>The signal shell\<close>

text \<open>The loop of \<open>TCC_Signal_Shell\<close>: it ends only if the handler does not send enabled signals to its own task for ever.\<close>

partial_function (option) signal_loop ::
    "(nat \<Rightarrow> 32 word \<Rightarrow> lsys \<Rightarrow> lsys) \<Rightarrow> tid \<Rightarrow> lsys \<Rightarrow> lsys option" where
  [code]: "signal_loop handler task s =
    (let e = ctrl s task
     in if tc_signals e AND tc_enabled_signals e \<noteq> 0 then
          (let s1 = upd_ctrl (tc_signals_update (\<lambda>_. 0)) task s
           in signal_loop handler task
                (if tc_signal_handler e \<noteq> NU_NULL then handler (tc_signal_handler e) (tc_signals e) s1 else s1))
        else Some s)"

text \<open>
  The suspension of the task at the end of the shell. It differs from \<open>TCC_Suspend_Task\<close>: the complement of the
  group bit is cut to a \<open>DATA_ELEMENT\<close>, 8 bits, before it masks the 32-bit group map.
\<close>

definition unlink_signalled :: "tid \<Rightarrow> kernel \<Rightarrow> kernel" where
  "unlink_signalled task k =
    (let c = tcbs k task;
         head = TCD_Priority_List k (tc_priority_head c)
     in if head = [task] then
          (let k1 = k\<lparr>TCD_Priority_List := (TCD_Priority_List k)(tc_priority_head c := []),
                      TCD_Sub_Priority_Groups := (TCD_Sub_Priority_Groups k)
                        (tc_sub_priority_ptr c :=
                           TCD_Sub_Priority_Groups k (tc_sub_priority_ptr c) AND NOT (tc_sub_priority c))\<rparr>
           in if TCD_Sub_Priority_Groups k1 (tc_sub_priority_ptr c) = 0
              then k1\<lparr>TCD_Priority_Groups :=
                        TCD_Priority_Groups k1 AND ucast (ucast (NOT (tc_priority_group c)) :: 8 word)\<rparr>
              else k1)
        else k\<lparr>TCD_Priority_List := (TCD_Priority_List k)(tc_priority_head c := remove1 task head)\<rparr>)"

definition suspend_signalled :: "tid \<Rightarrow> kernel \<Rightarrow> kernel" where
  "suspend_signalled task k =
    (let c = tcbs k task;
         k1 = upd_tcb (\<lambda>c. c\<lparr>tc_status := tc_saved_status c\<rparr>) task k;
         only = (TCD_Priority_List k1 (tc_priority_head c) = [task]);
         k2 = unlink_signalled task k1;
         k3 = (if only \<and> tc_priority c = TCD_Highest_Priority k2 mod 256
               then (if TCD_Priority_Groups k2 = 0
                     then k2\<lparr>TCD_Highest_Priority := TC_PRIORITIES\<rparr>
                     else k2\<lparr>TCD_Highest_Priority :=
                            find_highest (TCD_Priority_Groups k2) (TCD_Sub_Priority_Groups k2)\<rparr>)
               else k2)
     in k3\<lparr>TCD_Execute_Task := list_head (TCD_Priority_List k3 (TCD_Highest_Priority k3))\<rparr>)"

definition TCCT_Signal_Exit :: "tid \<Rightarrow> lsys \<Rightarrow> lsys" where
  "TCCT_Signal_Exit task s =
    upd_lkern (upd_tcb (\<lambda>c. c\<lparr>tc_cur_time_slice := tc_time_slice c\<rparr>) task)
      (upd_ctrl (\<lambda>e. e\<lparr>tc_stack_pointer := tc_saved_stack_ptr e, tc_return_addr := tc_saved_return_addr e\<rparr>) task s)"

text \<open>The shell runs in the context of a task; the flag tells that it leaves through the scheduler.\<close>

definition TCC_Signal_Shell ::
    "(nat \<Rightarrow> 32 word \<Rightarrow> lsys \<Rightarrow> lsys) \<Rightarrow> lsys \<Rightarrow> (lsys \<times> bool) option" where
  "TCC_Signal_Shell handler s =
    (case TCD_Current_Thread (lkern s) of
       Task_Thread task \<Rightarrow>
         (case signal_loop handler task s of
            None \<Rightarrow> None
          | Some s1 \<Rightarrow>
              (let s2 = upd_lkern (upd_tcb (tc_signal_active_update (\<lambda>_. False)) task) s1
               in if tc_saved_stack_ptr (ctrl s2 task) \<noteq> NU_NULL then
                    (let s3 = (if tc_saved_status (tcbs (lkern s2) task) \<noteq> NU_READY
                               then upd_lkern (suspend_signalled task) s2 else s2)
                     in Some (TCCT_Signal_Exit task s3, True))
                  else Some (s2, False)))
     | _ \<Rightarrow> None)"

section \<open>Signal services\<close>

text \<open>A call of the shell from the running task.\<close>

definition signal_in_line ::
    "(nat \<Rightarrow> 32 word \<Rightarrow> lsys \<Rightarrow> lsys) \<Rightarrow> tid \<Rightarrow> lsys \<Rightarrow> (lsys \<times> bool) option" where
  "signal_in_line handler task s =
    TCC_Signal_Shell handler (upd_ctrl (tc_saved_stack_ptr_update (\<lambda>_. NU_NULL)) task
      (upd_lkern (upd_tcb (tc_signal_active_update (\<lambda>_. True)) task) s))"

definition NU_Control_Signals ::
    "(nat \<Rightarrow> 32 word \<Rightarrow> lsys \<Rightarrow> lsys) \<Rightarrow> 32 word \<Rightarrow> lsys \<Rightarrow> (lsys \<times> 32 word) option" where
  "NU_Control_Signals handler enable_signal_mask s =
    (case TCD_Current_Thread (lkern s) of
       Task_Thread task \<Rightarrow>
         (let old_enable_mask = tc_enabled_signals (ctrl s task);
              s1 = upd_ctrl (tc_enabled_signals_update (\<lambda>_. enable_signal_mask)) task s
          in if enable_signal_mask AND tc_signals (ctrl s1 task) \<noteq> 0 \<and> \<not> tc_signal_active (tcbs (lkern s1) task) \<and>
                tc_signal_handler (ctrl s1 task) \<noteq> NU_NULL
             then map_option (\<lambda>(s2, _). (s2, old_enable_mask)) (signal_in_line handler task s1)
             else Some (s1, old_enable_mask))
     | _ \<Rightarrow> Some (s, 0))"

definition NU_Receive_Signals :: "lsys \<Rightarrow> lsys \<times> 32 word" where
  "NU_Receive_Signals s =
    (case TCD_Current_Thread (lkern s) of
       Task_Thread task \<Rightarrow> (upd_ctrl (tc_signals_update (\<lambda>_. 0)) task s, tc_signals (ctrl s task))
     | _ \<Rightarrow> (s, 0))"

definition NU_Register_Signal_Handler ::
    "(nat \<Rightarrow> 32 word \<Rightarrow> lsys \<Rightarrow> lsys) \<Rightarrow> nat \<Rightarrow> lsys \<Rightarrow> (lsys \<times> status) option" where
  "NU_Register_Signal_Handler handler signal_handler s =
    (case TCD_Current_Thread (lkern s) of
       Task_Thread task \<Rightarrow>
         if signal_handler = NU_NULL then Some (s, NU_INVALID_POINTER)
         else
           (let s1 = upd_ctrl (tc_signal_handler_update (\<lambda>_. signal_handler)) task s;
                e = ctrl s1 task
            in if tc_enabled_signals e AND tc_signals e \<noteq> 0 \<and> \<not> tc_signal_active (tcbs (lkern s1) task) \<and>
                  tc_signal_handler e \<noteq> NU_NULL
               then map_option (\<lambda>(s2, _). (s2, NU_SUCCESS)) (signal_in_line handler task s1)
               else Some (s1, NU_SUCCESS))
     | _ \<Rightarrow> Some (s, NU_INVALID_TASK))"

text \<open>
  The target task gets a frame on its stack that runs the shell when it is scheduled; a task suspended on an object
  is made ready for this.
\<close>

definition signal_other :: "target \<Rightarrow> tid \<Rightarrow> lsys \<Rightarrow> lsys \<times> bool" where
  "signal_other esal t s =
    (let s1 = upd_lkern (upd_tcb (\<lambda>c. c\<lparr>tc_saved_status := tc_status c\<rparr>) t) s;
         s2 = upd_ctrl (\<lambda>e. e\<lparr>tc_saved_stack_ptr := tc_stack_pointer e, tc_saved_return_addr := tc_return_addr e,
                tc_stack_pointer := ESAL_GE_STK_Solicited_Set esal (tc_stack_start e)
                  (ESAL_GE_STK_ALIGN (tc_stack_pointer e))\<rparr>) t s1;
         status = tc_status (tcbs (lkern s2) t)
     in if status \<noteq> NU_READY \<and> status \<noteq> NU_PURE_SUSPEND
        then (let (k, preempt) = TCC_Resume_Task t status (lkern s2) in (upd_lkern (\<lambda>_. k) s2, preempt))
        else (s2, False))"

definition NU_Send_Signals ::
    "target \<Rightarrow> (nat \<Rightarrow> 32 word \<Rightarrow> lsys \<Rightarrow> lsys) \<Rightarrow> tid option \<Rightarrow> 32 word \<Rightarrow> lsys \<Rightarrow> (lsys \<times> status \<times> bool) option" where
  "NU_Send_Signals esal handler task signal_mask s =
    (case task of
       None \<Rightarrow> Some (s, NU_INVALID_TASK, False)
     | Some t \<Rightarrow>
         if \<not> tc_id_valid (tcbs (lkern s) t) then Some (s, NU_INVALID_TASK, False)
         else
           (let s1 = upd_ctrl (\<lambda>e. e\<lparr>tc_signals := tc_signals e OR signal_mask\<rparr>) t s;
                e = ctrl s1 t; c = tcbs (lkern s1) t
            in if tc_signals e AND tc_enabled_signals e \<noteq> 0 \<and> \<not> tc_signal_active c \<and>
                  tc_status c \<noteq> NU_TERMINATED \<and> tc_status c \<noteq> NU_FINISHED \<and> tc_signal_handler e \<noteq> NU_NULL
               then
                 (if TCD_Current_Thread (lkern s1) = Task_Thread t
                  then map_option (\<lambda>(s2, _). (s2, NU_SUCCESS, False)) (signal_in_line handler t s1)
                  else (let (s2, preempt) = signal_other esal t
                              (upd_lkern (upd_tcb (tc_signal_active_update (\<lambda>_. True)) t) s1)
                        in Some (s2, NU_SUCCESS, preempt)))
               else Some (s1, NU_SUCCESS, False)))"

end
