(* ===== verification/Task_Signals.thy ===== *)
theory Task_Signals
  imports Tasks
begin

unbundle bit_operations_syntax

text \<open>
  Signals: sending signals to a suspended task runs its handler and suspends it again for the same reason (the ready
  lists, the clean-up information and the timer are as before), as long as no task of a priority of 64 or more
  is ready; when such a task is ready, the end of the handler can make the kernel forget it.
\<close>

section \<open>The loop of the shell\<close>

lemma signal_loop_done: "tc_signals (ctrl s t) AND tc_enabled_signals (ctrl s t) = 0 \<Longrightarrow> signal_loop handler t s = Some s"
  by (subst signal_loop.simps) (simp add: Let_def)

text \<open>A handler that leaves the kernel and the control block of its own task alone.\<close>

definition quiet :: "(nat \<Rightarrow> 32 word \<Rightarrow> lsys \<Rightarrow> lsys) \<Rightarrow> tid \<Rightarrow> bool" where
  "quiet handler t \<longleftrightarrow> (\<forall>n x u. lsem (handler n x u) = lsem u \<and> ctrl (handler n x u) t = ctrl u t)"

lemma quietD: "quiet handler t \<Longrightarrow> lsem (handler n x u) = lsem u" "quiet handler t \<Longrightarrow> ctrl (handler n x u) t = ctrl u t"
  by (simp_all add: quiet_def)

lemma signal_loop_once:
  assumes "quiet handler t" "tc_signals (ctrl s t) AND tc_enabled_signals (ctrl s t) \<noteq> 0"
    "tc_signal_handler (ctrl s t) \<noteq> 0"
  shows "signal_loop handler t s = Some (handler (tc_signal_handler (ctrl s t)) (tc_signals (ctrl s t))
    (upd_ctrl (tc_signals_update (\<lambda>_. 0)) t s))"
  using assms(2,3)
  by (subst signal_loop.simps) (simp add: Let_def signal_loop_done quietD[OF assms(1)])

section \<open>The suspension at the end of the shell\<close>

text \<open>No task of a priority of 64 or more is ready: only the first byte of the group map is in use.\<close>

definition low_ready :: "kernel \<Rightarrow> bool" where
  "low_ready k \<longleftrightarrow> (\<forall>p \<ge> 64. TCD_Priority_List k p = [])"

lemma low_groups:
  assumes m: "map_ok (TCD_Priority_List k) (TCD_Priority_Groups k) (TCD_Sub_Priority_Groups k)"
    and low: "low_ready k" and g: "8 \<le> g"
  shows "\<not> bit (TCD_Priority_Groups k) g"
proof
  assume b: "bit (TCD_Priority_Groups k) g"
  then have g32: "g < 32" using bit_imp_le_length[of "TCD_Priority_Groups k" g] by simp
  then have "TCD_Sub_Priority_Groups k g \<noteq> 0" using m b by (simp add: map_ok_def)
  then obtain j where j: "bit (TCD_Sub_Priority_Groups k g) j" by (auto simp: bit_eq_iff)
  then have j8: "j < 8" using bit_imp_le_length[of "TCD_Sub_Priority_Groups k g" j] by simp
  have "8 * g + j < 256" "(8 * g + j) div 8 = g" "(8 * g + j) mod 8 = j" using g32 j8 by auto
  then have "TCD_Priority_List k (8 * g + j) \<noteq> []" using m j unfolding map_ok_def by metis
  then show False using low g by (simp add: low_ready_def)
qed

lemma cut_complement: "bit (G AND ucast (ucast (NOT x) :: 8 word)) g \<longleftrightarrow> bit G g \<and> g < 8 \<and> \<not> bit x g" for G x :: "32 word"
  using bit_imp_le_length[of G g] by (auto simp: bit_and_iff bit_unsigned_iff bit_not_iff)

lemma unlink_signalled_low:
  assumes "map_ok (TCD_Priority_List k) (TCD_Priority_Groups k) (TCD_Sub_Priority_Groups k)" "low_ready k"
  shows "unlink_signalled t k = unlink_ready t k"
proof -
  have "TCD_Priority_Groups k AND ucast (ucast (NOT x) :: 8 word) = TCD_Priority_Groups k AND NOT x" for x
  proof (rule bit_eqI)
    fix g
    show "bit (TCD_Priority_Groups k AND ucast (ucast (NOT x) :: 8 word)) g = bit (TCD_Priority_Groups k AND NOT x) g"
      using low_groups[OF assms, of g] bit_imp_le_length[of "TCD_Priority_Groups k" g]
      by (cases "8 \<le> g") (auto simp: bit_unsigned_iff bit_and_iff bit_not_iff)
  qed
  then show ?thesis by (simp add: unlink_signalled_def unlink_ready_def Let_def)
qed

text \<open>The state at the end of the shell, in terms of the steps of a suspension.\<close>

definition resuspended :: "tid \<Rightarrow> kernel \<Rightarrow> kernel" where
  "resuspended t k =
    (let p = tc_priority (tcbs k t); k2 = unready k t (tc_saved_status (tcbs k t)) (tc_cleanup (tcbs k t));
         k3 = (if TCD_Priority_List k p = [t] \<and> p = TCD_Highest_Priority k mod 256 then rehighest k2 else k2)
     in k3\<lparr>TCD_Execute_Task := list_head (TCD_Priority_List k3 (TCD_Highest_Priority k3))\<rparr>)"

lemma suspend_signalled_eq:
  assumes inv: "sched_inv k" and low: "low_ready k"
  shows "upd_tcb (\<lambda>c. c\<lparr>tc_cur_time_slice := tc_time_slice c\<rparr>) t (suspend_signalled t k) = resuspended t k"
proof -
  define k1 where "k1 = upd_tcb (\<lambda>c. c\<lparr>tc_status := tc_saved_status c\<rparr>) t k"
  have "map_ok (TCD_Priority_List k1) (TCD_Priority_Groups k1) (TCD_Sub_Priority_Groups k1)" "low_ready k1"
    using inv low by (auto simp: k1_def sched_inv_def ready_ok_def low_ready_def)
  then have u: "unlink_signalled t k1 = unlink_ready t k1" by (rule unlink_signalled_low)
  have f: "tc_priority_head (tcbs k t) = tc_priority (tcbs k t)"
    using sched_inv_fields[OF inv, of t] by (simp add: fields_ok_def)
  have c: "unready k t (tc_saved_status (tcbs k t)) (tc_cleanup (tcbs k t)) =
      upd_tcb (\<lambda>c. c\<lparr>tc_cur_time_slice := tc_time_slice c\<rparr>) t (unlink_ready t k1)"
    by (simp add: unready_def k1_def unlink_ready_def Let_def upd_tcb_def)
  define C where "C \<longleftrightarrow> TCD_Priority_List k (tc_priority (tcbs k t)) = [t] \<and>
     tc_priority (tcbs k t) = TCD_Highest_Priority k mod 256"
  define k2 where "k2 = unlink_ready t k1"
  define k3 where "k3 = (if C then rehighest k2 else k2)"
  have l: "suspend_signalled t k = k3\<lparr>TCD_Execute_Task := list_head (TCD_Priority_List k3 (TCD_Highest_Priority k3))\<rparr>"
    unfolding suspend_signalled_def k1_def[symmetric] Let_def u k2_def[symmetric] k3_def rehighest_def
    by (simp add: f k1_def k2_def C_def[symmetric])
  show ?thesis unfolding resuspended_def Let_def c l C_def[symmetric]
    by (simp add: k3_def k2_def[symmetric] rehighest_def upd_tcb_def)
qed

lemma resuspended_ok:
  assumes inv: "sched_inv k" and r: "tc_status (tcbs k t) = NU_READY" and w: "tc_saved_status (tcbs k t) \<noteq> NU_READY"
  shows "sched_inv (resuspended t k)"
    "TCD_Priority_List (resuspended t k) = (\<lambda>p. remove1 t (TCD_Priority_List k p))"
    "tcbs (resuspended t k) = (tcbs k)(t := (tcbs k t)\<lparr>tc_status := tc_saved_status (tcbs k t),
       tc_cur_time_slice := tc_time_slice (tcbs k t)\<rparr>)"
    "tm (resuspended t k) = tm k" "TCD_Current_Thread (resuspended t k) = TCD_Current_Thread k"
proof -
  define p where "p = tc_priority (tcbs k t)"
  define k2 where "k2 = unready k t (tc_saved_status (tcbs k t)) (tc_cleanup (tcbs k t))"
  define k3 where "k3 = (if TCD_Priority_List k p = [t] \<and> p = TCD_Highest_Priority k mod 256 then rehighest k2 else k2)"
  have e: "resuspended t k = k3\<lparr>TCD_Execute_Task := list_head (TCD_Priority_List k3 (TCD_Highest_Priority k3))\<rparr>"
    unfolding k3_def k2_def p_def by (simp only: resuspended_def Let_def)
  have ok: "ready_ok (ready_set k) k" using inv by (simp add: sched_inv_def)
  have f: "tc_priority_head (tcbs k t) = p" using sched_inv_fields[OF inv, of t] by (simp add: fields_ok_def p_def)
  have "ready_ok (ready_set k3) k3" using unready_ok(1)[OF inv r w] by (simp add: k3_def k2_def)
  moreover have h: "highest_ok k3" unfolding k3_def k2_def p_def by (rule suspend_highest[OF inv r w, THEN conjunct1])
  ultimately show "sched_inv (resuspended t k)" using execute_head[of k3] by (simp add: e sched_inv_def)
  have "remove1 t (TCD_Priority_List k q) = TCD_Priority_List k q" if "q \<noteq> p" for q
    using ready_ok_mem[OF ok, of t q] that by (simp add: remove1_idem p_def)
  then show "TCD_Priority_List (resuspended t k) = (\<lambda>p. remove1 t (TCD_Priority_List k p))"
    by (auto simp: e k3_def k2_def f)
  show "tcbs (resuspended t k) = (tcbs k)(t := (tcbs k t)\<lparr>tc_status := tc_saved_status (tcbs k t),
       tc_cur_time_slice := tc_time_slice (tcbs k t)\<rparr>)"
    "tm (resuspended t k) = tm k" "TCD_Current_Thread (resuspended t k) = TCD_Current_Thread k"
    by (simp_all add: e k3_def k2_def)
qed

text \<open>The task \<open>t\<close> gets the processor.\<close>

definition running :: "tid \<Rightarrow> lsys \<Rightarrow> lsys" where
  "running t = upd_lkern (TCD_Current_Thread_update (\<lambda>_. Task_Thread t))"

lemma running_inv [simp]: "sched_inv (k\<lparr>TCD_Current_Thread := th\<rparr>) = sched_inv k"
  by (simp add: sched_inv_def ready_ok_def ready_set_def highest_ok_def execute_ok_def cong: option.case_cong)

lemma running_simps [simp]:
  "tcbs (lkern (running t s)) = tcbs (lkern s)" "ctrl (running t s) = ctrl s"
  "TCD_Current_Thread (lkern (running t s)) = Task_Thread t" "tm (lkern (running t s)) = tm (lkern s)"
  "TCD_Priority_List (lkern (running t s)) = TCD_Priority_List (lkern s)"
  "sched_inv (lkern (running t s)) = sched_inv (lkern s)" "low_ready (lkern (running t s)) = low_ready (lkern s)"
  by (simp_all add: running_def low_ready_def)

lemma signal_shell_resuspends:
  assumes inv: "sched_inv (lkern s)" and cur: "TCD_Current_Thread (lkern s) = Task_Thread t" and low: "low_ready (lkern s)"
    and q: "quiet handler t" and e: "e = ctrl s t" "tc_signals e AND tc_enabled_signals e \<noteq> 0" "tc_signal_handler e \<noteq> 0"
      "tc_saved_stack_ptr e \<noteq> 0"
    and c: "c = tcbs (lkern s) t" "tc_status c = NU_READY" "tc_saved_status c \<noteq> NU_READY"
  obtains s' where "TCC_Signal_Shell handler s = Some (s', True)" "sched_inv (lkern s')"
    "TCD_Priority_List (lkern s') = (\<lambda>p. remove1 t (TCD_Priority_List (lkern s) p))"
    "tcbs (lkern s') = (tcbs (lkern s))(t := c\<lparr>tc_signal_active := False, tc_status := tc_saved_status c,
       tc_cur_time_slice := tc_time_slice c\<rparr>)"
    "tm (lkern s') = tm (lkern s)"
    "ctrl s' t = e\<lparr>tc_signals := 0, tc_stack_pointer := tc_saved_stack_ptr e, tc_return_addr := tc_saved_return_addr e\<rparr>"
proof -
  define s1 where "s1 = handler (tc_signal_handler e) (tc_signals e) (upd_ctrl (tc_signals_update (\<lambda>_. 0)) t s)"
  have l: "signal_loop handler t s = Some s1" using signal_loop_once[OF q] e by (simp add: s1_def)
  have s1: "lsem s1 = lsem s" "ctrl s1 t = e\<lparr>tc_signals := 0\<rparr>" using quietD[OF q] e by (simp_all add: s1_def)
  define k where "k = upd_tcb (tc_signal_active_update (\<lambda>_. False)) t (lkern s)"
  have ki: "sched_inv k" unfolding k_def
    by (rule sched_inv_upd[OF inv]) (use sched_inv_fields[OF inv, of t] in \<open>auto simp: fields_ok_def\<close>)
  have kl: "low_ready k" using low by (simp add: k_def low_ready_def)
  define s' where "s' = TCCT_Signal_Exit t (upd_lkern (suspend_signalled t) (upd_lkern (upd_tcb (tc_signal_active_update (\<lambda>_. False)) t) s1))"
  have sh: "TCC_Signal_Shell handler s = Some (s', True)"
    using cur l s1 c e by (simp add: TCC_Signal_Shell_def Let_def s'_def)
  have ks: "lkern s' = resuspended t k"
    using suspend_signalled_eq[OF ki kl] by (simp add: s'_def TCCT_Signal_Exit_def s1 k_def)
  have r: "tc_status (tcbs k t) = NU_READY" "tc_saved_status (tcbs k t) \<noteq> NU_READY" using c by (simp_all add: k_def)
  note R = resuspended_ok[OF ki r, folded ks]
  show ?thesis
    by (rule that[OF sh]) (use R c in \<open>simp_all add: k_def s'_def TCCT_Signal_Exit_def s1\<close>)
qed

section \<open>Sending signals\<close>

definition wakeable :: "tcb \<Rightarrow> bool" where
  "wakeable c \<longleftrightarrow> tc_status c \<notin> {NU_READY, NU_PURE_SUSPEND, NU_FINISHED, NU_TERMINATED} \<and>
     tc_debug_suspend c = NU_READY \<and> \<not> tc_delayed_suspend c"

definition signal_frame :: "target \<Rightarrow> task_control \<Rightarrow> task_control" where
  "signal_frame esal e = e\<lparr>tc_saved_stack_ptr := tc_stack_pointer e, tc_saved_return_addr := tc_return_addr e,
     tc_stack_pointer := ESAL_GE_STK_Solicited_Set esal (tc_stack_start e) (ESAL_GE_STK_ALIGN (tc_stack_pointer e))\<rparr>"

lemma lift_suspension_lists:
  "TCD_Priority_List (fst (lift_suspension t k)) = (TCD_Priority_List k)(tc_priority_head (tcbs k t) :=
     TCD_Priority_List k (tc_priority_head (tcbs k t)) @ [t])"
  "tm (fst (lift_suspension t k)) = tm k" "TCD_Current_Thread (fst (lift_suspension t k)) = TCD_Current_Thread k"
  by (simp_all add: lift_suspension_link Let_def split: option.splits)

lemma signal_other_wakes:
  assumes inv: "sched_inv (lkern s)" and c: "c = tcbs (lkern s) t" "wakeable c" "tc_signal_active c"
  obtains s' sw where "signal_other esal t s = (s', sw)" "sched_inv (lkern s')"
    "TCD_Priority_List (lkern s') = (TCD_Priority_List (lkern s))(tc_priority c :=
       TCD_Priority_List (lkern s) (tc_priority c) @ [t])"
    "tcbs (lkern s') = (tcbs (lkern s))(t := c\<lparr>tc_saved_status := tc_status c, tc_status := NU_READY\<rparr>)"
    "tm (lkern s') = tm (lkern s)" "TCD_Current_Thread (lkern s') = TCD_Current_Thread (lkern s)"
    "ctrl s' = (ctrl s)(t := signal_frame esal (ctrl s t))"
proof -
  define k where "k = upd_tcb (\<lambda>c. c\<lparr>tc_saved_status := tc_status c\<rparr>) t (lkern s)"
  have f: "fields_ok c" using sched_inv_fields[OF inv, of t] by (simp add: c)
  have ki: "sched_inv k" unfolding k_def by (rule sched_inv_upd[OF inv]) (use f c in \<open>auto simp: fields_ok_def\<close>)
  have w: "tc_status c \<noteq> NU_READY" "tc_status c \<noteq> NU_PURE_SUSPEND" using c(2) by (auto simp: wakeable_def)
  define s' where "s' = upd_lkern (\<lambda>_. fst (lift_suspension t k)) (upd_ctrl (signal_frame esal) t s)"
  have "TCC_Resume_Task t (tc_status c) k = lift_suspension t k"
    using c by (simp add: TCC_Resume_Task_def Let_def k_def wakeable_def)
  moreover have "tc_status (tcbs k t) = tc_status c" by (simp add: k_def c)
  ultimately have so: "signal_other esal t s = (s', snd (lift_suspension t k))"
    using w by (simp add: signal_other_def Let_def signal_frame_def[symmetric] c(1)[symmetric] k_def[symmetric] split_beta s'_def)
       (simp add: upd_lkern_def upd_ctrl_def upd_skern_def)
  have "tc_status (tcbs k t) \<noteq> NU_READY" using w c by (simp add: k_def)
  then have "sched_inv (fst (lift_suspension t k))" by (rule lift_suspension_inv[OF ki])
  moreover have "tc_priority_head c = tc_priority c" using f by (simp add: fields_ok_def)
  ultimately show ?thesis
    by (intro that[OF so]) (simp_all add: s'_def lift_suspension_lists lift_suspension_tcbs k_def c(1)[symmetric])
qed

text \<open>A task that gets an enabled signal, has a handler for it and is suspended on an object.\<close>

lemma NU_Send_Signals_wakes:
  assumes inv: "sched_inv (lkern s)" and c: "c = tcbs (lkern s) t" "tc_id_valid c" "wakeable c" "\<not> tc_signal_active c"
    and cur: "TCD_Current_Thread (lkern s) \<noteq> Task_Thread t"
    and e: "e = ctrl s t" "(tc_signals e OR sig) AND tc_enabled_signals e \<noteq> 0" "tc_signal_handler e \<noteq> NU_NULL"
  obtains s1 sw where "NU_Send_Signals esal handler (Some t) sig s = Some (s1, NU_SUCCESS, sw)" "sched_inv (lkern s1)"
    "TCD_Priority_List (lkern s1) = (TCD_Priority_List (lkern s))(tc_priority c :=
       TCD_Priority_List (lkern s) (tc_priority c) @ [t])"
    "tcbs (lkern s1) = (tcbs (lkern s))(t := c\<lparr>tc_signal_active := True, tc_saved_status := tc_status c, tc_status := NU_READY\<rparr>)"
    "tm (lkern s1) = tm (lkern s)" "TCD_Current_Thread (lkern s1) = TCD_Current_Thread (lkern s)"
    "ctrl s1 t = signal_frame esal (e\<lparr>tc_signals := tc_signals e OR sig\<rparr>)"
proof -
  define s0 where "s0 = upd_lkern (upd_tcb (tc_signal_active_update (\<lambda>_. True)) t)
     (upd_ctrl (\<lambda>e. e\<lparr>tc_signals := tc_signals e OR sig\<rparr>) t s)"
  have f: "fields_ok c" using sched_inv_fields[OF inv, of t] by (simp add: c)
  have i0: "sched_inv (lkern s0)"
    unfolding s0_def by (simp, rule sched_inv_upd[OF inv]) (use f c in \<open>auto simp: fields_ok_def\<close>)
  have c0: "wakeable (tcbs (lkern s0) t)" "tc_signal_active (tcbs (lkern s0) t)"
    using c by (simp_all add: s0_def wakeable_def)
  obtain s1 sw where S: "signal_other esal t s0 = (s1, sw)" "sched_inv (lkern s1)"
    "TCD_Priority_List (lkern s1) = (TCD_Priority_List (lkern s0))(tc_priority (tcbs (lkern s0) t) :=
       TCD_Priority_List (lkern s0) (tc_priority (tcbs (lkern s0) t)) @ [t])"
    "tcbs (lkern s1) = (tcbs (lkern s0))(t := (tcbs (lkern s0) t)\<lparr>tc_saved_status := tc_status (tcbs (lkern s0) t),
       tc_status := NU_READY\<rparr>)"
    "tm (lkern s1) = tm (lkern s0)" "TCD_Current_Thread (lkern s1) = TCD_Current_Thread (lkern s0)"
    "ctrl s1 = (ctrl s0)(t := signal_frame esal (ctrl s0 t))"
    by (rule signal_other_wakes[OF i0 refl c0])
  have send: "NU_Send_Signals esal handler (Some t) sig s = Some (s1, NU_SUCCESS, sw)"
    using c cur e(2,3) S(1) unfolding s0_def
    by (simp add: NU_Send_Signals_def Let_def e(1)[symmetric] wakeable_def)
  show ?thesis
    by (rule that[OF send S(2)]) (use S(3-7) c(1) e(1) in \<open>simp_all add: s0_def\<close>)
qed

section \<open>When a task of a priority of 64 or more is ready\<close>

lemma list_nonempty_ready:
  assumes "ready_ok R k" "TCD_Priority_List k p \<noteq> []"
  obtains u where "u \<in> R" "tc_priority (tcbs k u) = p"
proof -
  obtain u where "u \<in> set (TCD_Priority_List k p)" using assms(2) by (cases "TCD_Priority_List k p") auto
  then show ?thesis using ready_ok_mem[OF assms(1)] that by blast
qed

text \<open>\<open>t\<close> is the only ready task of a priority below 64, and the only one in its group of eight.\<close>

definition alone_below_64 :: "tid \<Rightarrow> kernel \<Rightarrow> bool" where
  "alone_below_64 t k \<longleftrightarrow> tc_status (tcbs k t) = NU_READY \<and>
     (\<forall>u. u \<noteq> t \<and> tc_status (tcbs k u) = NU_READY \<longrightarrow> 64 \<le> tc_priority (tcbs k u)) \<and> tc_priority (tcbs k t) < 64"

lemma alone_lists:
  assumes inv: "sched_inv k" and a: "alone_below_64 t k"
  shows "TCD_Priority_List k (tc_priority (tcbs k t)) = [t]" "p < 64 \<Longrightarrow> p \<noteq> tc_priority (tcbs k t) \<Longrightarrow> TCD_Priority_List k p = []"
    "TCD_Highest_Priority k = tc_priority (tcbs k t)"
proof -
  let ?p = "tc_priority (tcbs k t)"
  have ok: "ready_ok (ready_set k) k" and h: "highest_ok k" using inv by (auto simp: sched_inv_def)
  have t: "t \<in> ready_set k" using a by (simp add: alone_below_64_def ready_set_def)
  have m: "u \<in> set (TCD_Priority_List k q) \<Longrightarrow> q < 64 \<Longrightarrow> u = t" for u q
    using a ready_ok_mem[OF ok, of u q] by (auto simp: alone_below_64_def ready_set_def)
  have p: "?p < 64" using a by (simp add: alone_below_64_def)
  have "t \<in> set (TCD_Priority_List k ?p)" using ready_ok_mem[OF ok] t by blast
  moreover have "distinct (TCD_Priority_List k ?p)" using ok by (simp add: ready_ok_def)
  moreover have "xs = [t]" if "t \<in> set xs" "distinct xs" "\<forall>u \<in> set xs. u = t" for xs :: "tid list"
  proof (cases xs)
    case (Cons y ys)
    then have y: "y = t" "t \<notin> set ys" "\<forall>u \<in> set ys. u = t" using that by auto
    then have "ys = []" by (cases ys) auto
    then show ?thesis using Cons y by simp
  qed (use that in simp)
  ultimately show l: "TCD_Priority_List k ?p = [t]" using m[OF _ p] by blast
  show e: "p < 64 \<Longrightarrow> p \<noteq> ?p \<Longrightarrow> TCD_Priority_List k p = []" for p
    using m[of _ p] ready_ok_mem[OF ok, of t p] by (cases "TCD_Priority_List k p") auto
  have "TCD_Highest_Priority k \<le> ?p" using highest_le(1)[OF ok h t] by simp
  moreover have "TCD_Priority_List k (TCD_Highest_Priority k) \<noteq> []"
    using h highest_le(2)[OF ok h t] by (simp add: highest_ok_def)
  ultimately show "TCD_Highest_Priority k = ?p" using e[of "TCD_Highest_Priority k"] p by linarith
qed

text \<open>The bit map then describes no ready task at all.\<close>

lemma unlink_signalled_empty:
  assumes inv: "sched_inv k" and a: "alone_below_64 t k"
  shows "TCD_Priority_Groups (unlink_signalled t k) = 0"
proof -
  define p where "p = tc_priority (tcbs k t)"
  have ok: "ready_ok (ready_set k) k" using inv by (simp add: sched_inv_def)
  have m: "map_ok (TCD_Priority_List k) (TCD_Priority_Groups k) (TCD_Sub_Priority_Groups k)"
    using ok by (simp add: ready_ok_def)
  have f: "tc_priority_head (tcbs k t) = p" "tc_priority_group (tcbs k t) = push_bit (p div 8) 1"
    "tc_sub_priority_ptr (tcbs k t) = p div 8" "tc_sub_priority (tcbs k t) = push_bit (p mod 8) 1"
    using fields_okD[OF ok, of t] by (simp_all add: fields_ok_def p_def)
  have p: "p < 64" using a by (simp add: alone_below_64_def p_def)
  note L = alone_lists(1,2)[OF inv a, folded p_def]
  let ?s = "TCD_Sub_Priority_Groups k (p div 8) AND NOT (push_bit (p mod 8) 1)"
  have dm: "8 * g + j < 256" "(8 * g + j) div 8 = g" "(8 * g + j) mod 8 = j" if "g < 8" "j < 8" for g j :: nat
    using that by auto
  have used: "8 * g + j = p" if b: "bit (TCD_Sub_Priority_Groups k g) j" and g: "g < 8" for g j
  proof -
    have j: "j < 8" using bit_imp_le_length[OF b] by simp
    have "TCD_Priority_List k (8 * g + j) \<noteq> []" using m b dm[OF g j] unfolding map_ok_def by metis
    then show ?thesis using L(2)[of "8 * g + j"] g j by auto
  qed
  have s0: "?s = 0"
  proof (rule bit_eqI)
    fix j
    have "8 * (p div 8) + j = p \<Longrightarrow> j = p mod 8" by presburger
    then show "bit ?s j = bit (0 :: 8 word) j" using used[of "p div 8" j] p
      by (auto simp: bit_and_iff bit_not_iff)
  qed
  have g: "g = p div 8" if b: "bit (TCD_Priority_Groups k) g" and "g < 8" for g
  proof -
    have "TCD_Sub_Priority_Groups k g \<noteq> 0" using m that by (simp add: map_ok_def)
    then obtain j where j: "bit (TCD_Sub_Priority_Groups k g) j" by (auto simp: bit_eq_iff)
    then show ?thesis using used[OF j that(2)] bit_imp_le_length[OF j] by auto
  qed
  have "TCD_Priority_Groups k AND ucast (ucast (NOT (push_bit (p div 8) (1 :: 32 word))) :: 8 word) = (0 :: 32 word)"
  proof (rule bit_eqI)
    fix i
    show "bit (TCD_Priority_Groups k AND ucast (ucast (NOT (push_bit (p div 8) (1 :: 32 word))) :: 8 word)) i = bit (0 :: 32 word) i"
      unfolding cut_complement using g[of i] bit_imp_le_length[of "TCD_Priority_Groups k" i] by (auto simp: bit_push_bit_iff)
  qed
  then show ?thesis using L(1) s0 by (simp add: unlink_signalled_def Let_def f del: push_bit_of_1)
qed

section \<open>Properties\<close>

text \<open>
  C31. Sending an enabled signal to a task of a priority below 64 that is suspended on an object (not by
  \<open>NU_Suspend_Task\<close>, not finished or terminated, without a debug or delayed suspension), that is not the current task
  and in no signal handler, with a handler registered and no ready task of a priority of 64 or more, interrupts the
  suspension and restores it: the task becomes ready; when it gets the processor, with nothing else having happened,
  its handler is called with the signals sent and pending; then, if the handler leaves the state of the kernel and the
  control data of its task (signals, handler, stack) as they are (\<open>quiet\<close>; a handler that calls services can change the
  ready lists), its stack is the old one, it is suspended for the same reason, with the same clean-up information and
  timer, and the ready lists are the old ones. The stack pointer of the task is not null.
\<close>

theorem signal_round_trip:
  assumes inv: "sched_inv (lkern s)" and c: "c = tcbs (lkern s) t" "tc_id_valid c" "wakeable c" "\<not> tc_signal_active c"
    and cur: "TCD_Current_Thread (lkern s) \<noteq> Task_Thread t"
    and e: "e = ctrl s t" "(tc_signals e OR sig) AND tc_enabled_signals e \<noteq> 0" "tc_signal_handler e \<noteq> NU_NULL"
      "tc_stack_pointer e \<noteq> NU_NULL"
    and low: "low_ready (lkern s)" "tc_priority c < 64" and q: "quiet handler t"
  shows "\<exists>s1 sw s2 u. NU_Send_Signals esal handler (Some t) sig s = Some (s1, NU_SUCCESS, sw) \<and>
    tc_status (tcbs (lkern s1) t) = NU_READY \<and>
    signal_loop handler t (running t s1) = Some (handler (tc_signal_handler e) (tc_signals e OR sig) u) \<and>
    TCC_Signal_Shell handler (running t s1) = Some (s2, True) \<and> sched_inv (lkern s2) \<and>
    TCD_Priority_List (lkern s2) = TCD_Priority_List (lkern s) \<and>
    tcbs (lkern s2) = (tcbs (lkern s))(t := c\<lparr>tc_saved_status := tc_status c, tc_cur_time_slice := tc_time_slice c\<rparr>) \<and>
    tm (lkern s2) = tm (lkern s) \<and>
    ctrl s2 t = e\<lparr>tc_signals := 0, tc_saved_stack_ptr := tc_stack_pointer e, tc_saved_return_addr := tc_return_addr e\<rparr>"
proof -
  obtain s1 sw where S: "NU_Send_Signals esal handler (Some t) sig s = Some (s1, NU_SUCCESS, sw)" "sched_inv (lkern s1)"
    "TCD_Priority_List (lkern s1) = (TCD_Priority_List (lkern s))(tc_priority c :=
       TCD_Priority_List (lkern s) (tc_priority c) @ [t])"
    "tcbs (lkern s1) = (tcbs (lkern s))(t := c\<lparr>tc_signal_active := True, tc_saved_status := tc_status c, tc_status := NU_READY\<rparr>)"
    "tm (lkern s1) = tm (lkern s)" "TCD_Current_Thread (lkern s1) = TCD_Current_Thread (lkern s)"
    "ctrl s1 t = signal_frame esal (e\<lparr>tc_signals := tc_signals e OR sig\<rparr>)"
    by (rule NU_Send_Signals_wakes[OF inv c cur e(1-3)])
  have nin: "t \<notin> set (TCD_Priority_List (lkern s) p)" for p
    using inv c(3) c(1)[symmetric] ready_ok_mem[of "ready_set (lkern s)" "lkern s" t p]
    by (auto simp: sched_inv_def ready_set_def wakeable_def)
  have low1: "low_ready (lkern s1)" using low by (auto simp: low_ready_def S(3))
  obtain s2 where T: "TCC_Signal_Shell handler (running t s1) = Some (s2, True)" "sched_inv (lkern s2)"
    "TCD_Priority_List (lkern s2) = (\<lambda>p. remove1 t (TCD_Priority_List (lkern s1) p))"
    "tcbs (lkern s2) = (tcbs (lkern s1))(t := (tcbs (lkern s1) t)\<lparr>tc_signal_active := False,
       tc_status := tc_saved_status (tcbs (lkern s1) t), tc_cur_time_slice := tc_time_slice (tcbs (lkern s1) t)\<rparr>)"
    "tm (lkern s2) = tm (lkern s1)"
    "ctrl s2 t = (ctrl s1 t)\<lparr>tc_signals := 0, tc_stack_pointer := tc_saved_stack_ptr (ctrl s1 t),
       tc_return_addr := tc_saved_return_addr (ctrl s1 t)\<rparr>"
    using S(2) low1 e c(3) q
    by (rule_tac signal_shell_resuspends[of "running t s1" t handler "ctrl s1 t" "tcbs (lkern s1) t"])
       (simp_all add: S(4,7) signal_frame_def wakeable_def)
  have loop: "signal_loop handler t (running t s1) = Some (handler (tc_signal_handler e) (tc_signals e OR sig)
      (upd_ctrl (tc_signals_update (\<lambda>_. 0)) t (running t s1)))"
    using signal_loop_once[OF q, of "running t s1"] e by (simp add: S(7) signal_frame_def)
  have "TCD_Priority_List (lkern s2) = TCD_Priority_List (lkern s)"
    using nin by (auto simp: T(3) S(3) remove1_append remove1_idem)
  moreover have "tcbs (lkern s2) = (tcbs (lkern s))(t := c\<lparr>tc_saved_status := tc_status c, tc_cur_time_slice := tc_time_slice c\<rparr>)"
    using c(4) by (cases c) (simp add: T(4) S(4))
  moreover have "tm (lkern s2) = tm (lkern s)" by (simp add: T(5) S(5))
  moreover have "ctrl s2 t = e\<lparr>tc_signals := 0, tc_saved_stack_ptr := tc_stack_pointer e, tc_saved_return_addr := tc_return_addr e\<rparr>"
    by (simp add: T(6) S(7) signal_frame_def)
  ultimately show ?thesis using S(1,4) loop T(1,2) by auto
qed

lemma unlink_signalled_frames [simp]:
  "tcbs (unlink_signalled t k) = tcbs k" "TCD_Highest_Priority (unlink_signalled t k) = TCD_Highest_Priority k"
  "TCD_Current_Thread (unlink_signalled t k) = TCD_Current_Thread k" "tm (unlink_signalled t k) = tm k"
  "TCD_Priority_List (unlink_signalled t k) =
     (TCD_Priority_List k)(tc_priority_head (tcbs k t) :=
        remove1 t (TCD_Priority_List k (tc_priority_head (tcbs k t))))"
  by (auto simp: unlink_signalled_def Let_def)

lemma suspend_signalled_tcbs:
  "tcbs (suspend_signalled t k) = (tcbs k)(t := (tcbs k t)\<lparr>tc_status := tc_saved_status (tcbs k t)\<rparr>)"
  "TCD_Priority_List (suspend_signalled t k) =
     (TCD_Priority_List k)(tc_priority_head (tcbs k t) :=
        remove1 t (TCD_Priority_List k (tc_priority_head (tcbs k t))))"
  by (simp_all add: suspend_signalled_def Let_def)

lemma signal_shell_done:
  assumes "TCD_Current_Thread (lkern s) = Task_Thread t" "signal_loop handler t s = Some s1" "lsem s1 = lsem s"
    "tc_saved_stack_ptr (ctrl s1 t) \<noteq> NU_NULL" "tc_saved_status (tcbs (lkern s) t) \<noteq> NU_READY"
  shows "TCC_Signal_Shell handler s = Some (TCCT_Signal_Exit t (upd_lkern (suspend_signalled t)
      (upd_lkern (upd_tcb (tc_signal_active_update (\<lambda>_. False)) t) s1)), True)"
  using assms by (simp add: TCC_Signal_Shell_def Let_def)

text \<open>
  C38. When a task of a priority below 64 ends its signal handler, with no enabled signal left, and is suspended again
  while every other ready task has a priority of 64 or more, the kernel forgets those tasks: they are ready and on their
  lists, but the group map is empty, the highest priority is 256, the value for none, and there is no task to execute.
\<close>

theorem signal_exit_loses_ready_tasks:
  assumes inv: "sched_inv (lkern s)" and cur: "TCD_Current_Thread (lkern s) = Task_Thread t"
    and a: "alone_below_64 t (lkern s)"
    and e: "tc_signals (ctrl s t) AND tc_enabled_signals (ctrl s t) = 0" "tc_saved_stack_ptr (ctrl s t) \<noteq> NU_NULL"
    and w: "tc_saved_status (tcbs (lkern s) t) \<noteq> NU_READY"
    and u: "u \<noteq> t" "tc_status (tcbs (lkern s) u) = NU_READY"
  shows "\<exists>s'. TCC_Signal_Shell handler s = Some (s', True) \<and> tc_status (tcbs (lkern s') u) = NU_READY \<and>
    u \<in> set (TCD_Priority_List (lkern s') (tc_priority (tcbs (lkern s') u))) \<and>
    TCD_Priority_Groups (lkern s') = 0 \<and> TCD_Highest_Priority (lkern s') = 256 \<and> TCD_Execute_Task (lkern s') = None"
proof -
  define k where "k = upd_tcb (tc_signal_active_update (\<lambda>_. False)) t (lkern s)"
  define k1 where "k1 = upd_tcb (\<lambda>c. c\<lparr>tc_status := tc_saved_status c\<rparr>) t k"
  have ki: "sched_inv k" unfolding k_def
    by (rule sched_inv_upd[OF inv]) (use sched_inv_fields[OF inv, of t] in \<open>auto simp: fields_ok_def\<close>)
  have ka: "alone_below_64 t k" using a by (simp add: k_def alone_below_64_def)
  have f: "tc_priority_head (tcbs k t) = tc_priority (tcbs k t)" using sched_inv_fields[OF ki, of t] by (simp add: fields_ok_def)
  have g: "TCD_Priority_Groups (unlink_signalled t k1) = 0"
    using unlink_signalled_empty[OF ki ka] by (simp add: unlink_signalled_def k1_def Let_def split: if_splits)
  have p: "tc_priority (tcbs k t) < 64" using ka by (simp add: alone_below_64_def)
  have r: "TCD_Priority_List k 256 = []" using ki ready_ok_range[of "ready_set k" k 256] by (simp add: sched_inv_def)
  have sus: "TCD_Highest_Priority (suspend_signalled t k) = 256" "TCD_Execute_Task (suspend_signalled t k) = None"
    "TCD_Priority_Groups (suspend_signalled t k) = 0"
    using alone_lists(1,3)[OF ki ka] p g r
    by (simp_all add: suspend_signalled_def Let_def k1_def[symmetric]) (simp_all add: k1_def f TC_PRIORITIES_def)
  have "u \<in> set (TCD_Priority_List (lkern s) (tc_priority (tcbs (lkern s) u)))"
    using inv u(2) ready_ok_mem[of "ready_set (lkern s)" "lkern s" u] by (auto simp: sched_inv_def ready_set_def)
  then have "u \<in> set (TCD_Priority_List (suspend_signalled t k) (tc_priority (tcbs (lkern s) u)))"
    using u(1) by (auto simp: suspend_signalled_tcbs k_def)
  then show ?thesis
    using signal_shell_done[OF cur signal_loop_done[OF e(1)] refl e(2) w, of handler] u sus
    by (auto simp: TCCT_Signal_Exit_def k_def[symmetric] suspend_signalled_tcbs) (simp_all add: k_def)
qed

text \<open>
  A resumption of a task that was suspended by \<open>NU_Suspend_Task\<close> and has been sent a signal is lost: the task becomes
  ready, runs its signal handler and is then suspended again, as if \<open>NU_Resume_Task\<close> had not been called.
\<close>

theorem resume_of_signalled_task_lost:
  assumes c: "c = tcbs (lkern s) t" "tc_id_valid c" "tc_status c = NU_PURE_SUSPEND" "tc_debug_suspend c = NU_READY"
      "\<not> tc_delayed_suspend c" "\<not> tc_signal_active c"
    and cur: "TCD_Current_Thread (lkern s) \<noteq> Task_Thread t"
    and e: "e = ctrl s t" "(tc_signals e OR sig) AND tc_enabled_signals e \<noteq> 0" "tc_signal_handler e \<noteq> NU_NULL"
      "tc_stack_pointer e \<noteq> NU_NULL"
    and q: "quiet handler t"
  shows "\<exists>s1 k sw s2. NU_Send_Signals esal handler (Some t) sig s = Some (s1, NU_SUCCESS, False) \<and>
    NU_Resume_Task (Some t) (lkern s1) = (NU_SUCCESS, k, sw) \<and> tc_status (tcbs k t) = NU_READY \<and>
    TCC_Signal_Shell handler (running t (upd_lkern (\<lambda>_. k) s1)) = Some (s2, True) \<and>
    tc_status (tcbs (lkern s2) t) = NU_PURE_SUSPEND"
proof -
  define s1 where "s1 = upd_ctrl (signal_frame esal \<circ> (\<lambda>e. e\<lparr>tc_signals := tc_signals e OR sig\<rparr>)) t
     (upd_lkern (upd_tcb (\<lambda>c. c\<lparr>tc_signal_active := True, tc_saved_status := tc_status c\<rparr>) t) s)"
  have send: "NU_Send_Signals esal handler (Some t) sig s = Some (s1, NU_SUCCESS, False)"
    using c cur e(2,3)
    by (simp add: NU_Send_Signals_def signal_other_def Let_def s1_def e(1)[symmetric] c(1)[symmetric] signal_frame_def)
       (simp add: upd_ctrl_def upd_lkern_def upd_skern_def upd_tcb_def e(1) c(1) signal_frame_def)
  have c1: "tcbs (lkern s1) t = c\<lparr>tc_signal_active := True, tc_saved_status := NU_PURE_SUSPEND\<rparr>"
    using c by (simp add: s1_def)
  define k where "k = fst (lift_suspension t (lkern s1))"
  have res: "NU_Resume_Task (Some t) (lkern s1) = (NU_SUCCESS, k, snd (lift_suspension t (lkern s1)))"
    using c(2-5) c1
    by (simp add: NU_Resume_Task_def TCCE_Validate_Resume_def TCC_Resume_Task_def Let_def k_def split_beta)
  have kt: "tcbs k t = c\<lparr>tc_signal_active := True, tc_saved_status := NU_PURE_SUSPEND, tc_status := NU_READY\<rparr>"
    by (simp add: k_def lift_suspension_tcbs c1)
  define s' where "s' = running t (upd_lkern (\<lambda>_. k) s1)"
  have e1: "ctrl s' t = signal_frame esal (e\<lparr>tc_signals := tc_signals e OR sig\<rparr>)" by (simp add: s'_def s1_def e)
  define s2 where "s2 = handler (tc_signal_handler e) (tc_signals e OR sig) (upd_ctrl (tc_signals_update (\<lambda>_. 0)) t s')"
  have loop: "signal_loop handler t s' = Some s2"
    using signal_loop_once[OF q, of s'] e by (simp add: e1 signal_frame_def s2_def)
  have s2: "lsem s2 = lsem s'" "ctrl s2 t = (ctrl s' t)\<lparr>tc_signals := 0\<rparr>" using quietD[OF q] by (simp_all add: s2_def)
  have "TCC_Signal_Shell handler s' = Some (TCCT_Signal_Exit t (upd_lkern (suspend_signalled t)
      (upd_lkern (upd_tcb (tc_signal_active_update (\<lambda>_. False)) t) s2)), True)"
    by (rule signal_shell_done[OF _ loop s2(1)])
       (use e kt in \<open>simp_all add: s2 s1_def signal_frame_def s'_def\<close>)
  then show ?thesis using send res kt
    by (auto simp: s'_def[symmetric] TCCT_Signal_Exit_def suspend_signalled_tcbs s2) (simp add: s'_def)
qed

section \<open>Concrete runs\<close>

definition no_control :: task_control where
  "no_control = \<lparr>tc_entry = 0, tc_argc = 0, tc_argv = 0, tc_stack_start = 4096, tc_stack_size = 512, tc_stack_end = 4608,
     tc_stack_pointer = 4500, tc_return_addr = 0, tc_saved_stack_ptr = 0, tc_saved_return_addr = 0, tc_scheduled = 0,
     tc_grp_id = TC_GRP_ID_SYS, tc_signals = 0, tc_enabled_signals = 1, tc_signal_handler = 7\<rparr>"

definition tasks_on :: "kernel \<Rightarrow> lsys" where
  "tasks_on k = \<lparr>lsem = \<lparr>sems = (\<lambda>_. \<lparr>sm_id_valid = False, sm_semaphore_count = 0, sm_suspend_type = NU_FIFO,
       sm_owner_killed = False, sm_semaphore_owner = None, sm_tasks_waiting = 0, sm_suspension_list = []\<rparr>),
     SMD_Created_Semaphores_List = [], SMD_Total_Semaphores = 0,
     sblocks = (\<lambda>_. \<lparr>sm_cs_priority = 0, sm_semaphore = 0, sm_return_status = NU_SUCCESS\<rparr>),
     tc_semaphore_list = (\<lambda>_. []), skern = k\<rparr>, ctrl = (\<lambda>_. no_control),
     TCD_Created_Tasks_List = [], TCD_Total_Tasks = 0, TCD_App_Task_List = [], TCD_Total_App_Tasks = 0,
     cleanup_calls = []\<rparr>"

lemma tasks_on_simps [simp]:
  "lkern (tasks_on k) = k" "ctrl (tasks_on k) = (\<lambda>_. no_control)" "tc_semaphore_list (lsem (tasks_on k)) = (\<lambda>_. [])"
  by (simp_all add: tasks_on_def)

definition esal0 :: target where
  "esal0 = \<lparr>ESAL_GE_STK_Unsolicited_Set = (\<lambda>_ e. e - 64), ESAL_GE_STK_Solicited_Set = (\<lambda>_ e. e - 40)\<rparr>"

definition handler0 :: "nat \<Rightarrow> 32 word \<Rightarrow> lsys \<Rightarrow> lsys" where
  "handler0 n x s = s"

lemma quiet_handler0: "quiet handler0 t"
  by (simp add: quiet_def handler0_def)

text \<open>Task 2 sleeps, task 1 runs.\<close>

definition kernel_sleep :: kernel where
  "kernel_sleep = fst (TCC_Suspend_Task 2 NU_SLEEP_SUSPEND None NU_SUSPEND kernel2)"

lemma inv_sleep: "sched_inv kernel_sleep"
  unfolding kernel_sleep_def by (rule TCC_Suspend_Task_inv[OF inv_kernel2]) simp

lemma sleep_simps [simp]:
  "tcbs kernel_sleep = (tcbs kernel2)(2 := task0\<lparr>tc_status := NU_SLEEP_SUSPEND\<rparr>)"
  "TCD_Priority_List kernel_sleep = (\<lambda>_. [])(31 := [1])" "TCD_Current_Thread kernel_sleep = Task_Thread 1"
  by (simp_all add: kernel_sleep_def TCC_Suspend_Task_def unlink_ready_def Let_def)
    (auto simp: task0_def)

theorem signal_round_trip_witness:
  "\<exists>s2. TCD_Priority_List (lkern s2) 31 = [1 :: tid] \<and> tc_status (tcbs (lkern s2) 2) = NU_SLEEP_SUSPEND \<and>
     tc_signals (ctrl s2 2) = 0"
proof -
  have "wakeable (tcbs (lkern (tasks_on kernel_sleep)) 2)" by (simp add: wakeable_def task0_def)
  moreover have "low_ready kernel_sleep" by (simp add: low_ready_def)
  ultimately obtain s2 where "TCD_Priority_List (lkern s2) = TCD_Priority_List kernel_sleep"
    "tcbs (lkern s2) 2 = (tcbs kernel_sleep 2)\<lparr>tc_saved_status := tc_status (tcbs kernel_sleep 2),
       tc_cur_time_slice := tc_time_slice (tcbs kernel_sleep 2)\<rparr>" "tc_signals (ctrl s2 2) = 0"
    using signal_round_trip[of "tasks_on kernel_sleep" "tcbs kernel_sleep 2" 2 no_control 1 handler0 esal0]
      inv_sleep quiet_handler0[of 2] by (auto simp: no_control_def task0_def)
  then show ?thesis by (intro exI[of _ s2]) simp
qed

text \<open>Task 1 of priority 31 runs its signal handler, task 2 of priority 100 is ready.\<close>

definition kernel_two :: kernel where
  "kernel_two = fst (TCC_Resume_Task 1 NU_PURE_SUSPEND (fst (TCC_Resume_Task 2 NU_PURE_SUSPEND
     (initial_kernel (\<lambda>t. (new_tcb (if t = 2 then 100 else 31) 0 True)\<lparr>tc_signal_active := t = 1,
        tc_saved_status := (if t = 1 then NU_SLEEP_SUSPEND else NU_READY)\<rparr>) (tm kernel0)))))"

lemma inv_two: "sched_inv kernel_two"
  unfolding kernel_two_def
  by (intro TCC_Resume_Task_inv initial_inv) (auto simp: dormant_def fields_ok_def new_tcb_def)

lemma two_simps [simp]:
  "tc_status (tcbs kernel_two u) = (if u = 1 \<or> u = 2 then NU_READY else NU_PURE_SUSPEND)"
  "tc_priority (tcbs kernel_two u) = (if u = 2 then 100 else 31)"
  "tc_saved_status (tcbs kernel_two u) = (if u = 1 then NU_SLEEP_SUSPEND else NU_READY)"
  by (simp_all add: kernel_two_def TCC_Resume_Task_def lift_suspension_tcbs Let_def initial_kernel_def new_tcb_def)

definition handler_ends :: lsys where
  "handler_ends = running 1 (upd_ctrl (tc_saved_stack_ptr_update (\<lambda>_. 4500)) 1 (tasks_on kernel_two))"

theorem signal_exit_loses_ready_tasks_witness:
  "\<exists>s'. TCC_Signal_Shell handler0 handler_ends = Some (s', True) \<and> tc_status (tcbs (lkern s') 2) = NU_READY \<and>
     TCD_Execute_Task (lkern s') = None"
proof -
  have "alone_below_64 1 (lkern handler_ends)" by (auto simp: handler_ends_def alone_below_64_def)
  moreover have "sched_inv (lkern handler_ends)" by (simp add: handler_ends_def inv_two)
  ultimately show ?thesis
    using signal_exit_loses_ready_tasks[of handler_ends 1 2 handler0]
    by (auto simp: handler_ends_def no_control_def)
qed

theorem resume_of_signalled_task_lost_witness:
  "\<exists>s2. tc_status (tcbs (lkern s2) 5) = NU_PURE_SUSPEND \<and>
     (\<exists>s1 k. NU_Send_Signals esal0 handler0 (Some 5) 1 (tasks_on kernel2) = Some (s1, NU_SUCCESS, False) \<and>
       TCC_Signal_Shell handler0 (running 5 (upd_lkern (\<lambda>_. k) s1)) = Some (s2, True))"
  using resume_of_signalled_task_lost[of "tcbs kernel2 5" "tasks_on kernel2" 5 no_control 1 handler0 esal0] quiet_handler0[of 5]
  by (auto simp: no_control_def task0_def)

end
