(* ===== verification/Task_Lifecycle.thy ===== *)
theory Task_Lifecycle
  imports Task_Signals
begin

text \<open>
  The life of a task: the invariant of the lists of created tasks and of what may wait or be ready, kept by creation,
  reset, deletion, termination, the end of a task and signals; the effect of termination; where the
  services leave something behind.
\<close>

section \<open>Releasing the semaphores of a task\<close>

lemma TCS_Change_Priority_id [simp]:
  "tc_id_valid (tcbs (fst (TCS_Change_Priority t n a k)) u) = tc_id_valid (tcbs k u)"
  "tc_auto_clean (tcbs (fst (TCS_Change_Priority t n a k)) u) = tc_auto_clean (tcbs k u)"
  "TCD_Current_Thread (fst (TCS_Change_Priority t n a k)) = TCD_Current_Thread k"
  by (auto simp: TCS_Change_Priority_def set_priority_fields_def Let_def split: option.splits)

lemma TCC_Resume_Task_id [simp]:
  "tc_id_valid (tcbs (fst (TCC_Resume_Task t r k)) u) = tc_id_valid (tcbs k u)"
  "tc_auto_clean (tcbs (fst (TCC_Resume_Task t r k)) u) = tc_auto_clean (tcbs k u)"
  "TCD_Current_Thread (fst (TCC_Resume_Task t r k)) = TCD_Current_Thread k"
  by (simp_all add: TCC_Resume_Task_def Let_def lift_suspension_tcbs lift_suspension_lists)

lemma SMC_Free_PI_Semaphore_id [simp]:
  "tc_id_valid (tcbs (skern (fst (SMC_Free_PI_Semaphore sp t s))) u) = tc_id_valid (tcbs (skern s) u)"
  "tc_auto_clean (tcbs (skern (fst (SMC_Free_PI_Semaphore sp t s))) u) = tc_auto_clean (tcbs (skern s) u)"
  "TCD_Current_Thread (skern (fst (SMC_Free_PI_Semaphore sp t s))) = TCD_Current_Thread (skern s)"
  by (simp_all add: SMC_Free_PI_Semaphore_def Let_def split_beta)

lemma smc_release_semaphore_id [simp]:
  "tc_id_valid (tcbs (skern (fst (smc_release_semaphore sp t s))) u) = tc_id_valid (tcbs (skern s) u)"
  "tc_auto_clean (tcbs (skern (fst (smc_release_semaphore sp t s))) u) = tc_auto_clean (tcbs (skern s) u)"
  "TCD_Current_Thread (skern (fst (smc_release_semaphore sp t s))) = TCD_Current_Thread (skern s)"
  by (simp_all add: smc_release_semaphore_def Let_def split_beta)

lemma SMC_Kill_Semaphore_Owner_id [simp]:
  "tc_id_valid (tcbs (skern (fst (SMC_Kill_Semaphore_Owner sp t s))) u) = tc_id_valid (tcbs (skern s) u)"
  "tc_auto_clean (tcbs (skern (fst (SMC_Kill_Semaphore_Owner sp t s))) u) = tc_auto_clean (tcbs (skern s) u)"
  "TCD_Current_Thread (skern (fst (SMC_Kill_Semaphore_Owner sp t s))) = TCD_Current_Thread (skern s)"
  by (simp_all add: SMC_Kill_Semaphore_Owner_def Let_def split_beta)

text \<open>A bound on the semaphores, and with it on the number of semaphores a task can own.\<close>

definition few_semaphores :: "ssys \<Rightarrow> bool" where
  "few_semaphores s \<longleftrightarrow> finite {sp. sm_id_valid (sems s sp)} \<and> card {sp. sm_id_valid (sems s sp)} < 255"

lemma few_semaphores_bound:
  assumes inv: "sem_inv s" and few: "few_semaphores s"
  shows "length (tc_semaphore_list s t) < 255"
proof -
  have "set (tc_semaphore_list s t) \<subseteq> {sp. sm_id_valid (sems s sp)}" using owned_okD(5)[OF inv] by blast
  then have "card (set (tc_semaphore_list s t)) \<le> card {sp. sm_id_valid (sems s sp)}"
    using few by (simp add: few_semaphores_def card_mono)
  then show ?thesis using few owned_okD(1)[OF inv, of t] by (simp add: few_semaphores_def distinct_card)
qed

text \<open>
  One round of the loop: the first semaphore of the task is released. Nothing changes for tasks that do not wait for a
  semaphore, apart from priorities.
\<close>

lemma kill_step:
  assumes inv: "sem_inv s" and few: "few_semaphores s" and l: "tc_semaphore_list s t = sp # rest"
  defines "s' \<equiv> fst (SMC_Kill_Semaphore_Owner sp t s)"
  shows "sem_inv s'" "few_semaphores s'" "tc_semaphore_list s' t = rest"
    "\<not> sem_listed s u \<Longrightarrow> wait_view (tcbs (skern s') u) = wait_view (tcbs (skern s) u) \<and> \<not> sem_listed s' u"
    "sem_listed s u \<Longrightarrow> sem_listed s' u \<or> is_ready u (skern s')"
    "wait_view (tcbs (skern s') t) = wait_view (tcbs (skern s) t)"
proof -
  have own: "sp \<in> set (tc_semaphore_list s t)" by (simp add: l)
  have v: "sm_id_valid (sems s sp)" and pi: "sm_suspend_type (sems s sp) = NU_PRIORITY_INHERIT"
    and o: "sm_semaphore_owner (sems s sp) = Some t" using owned_okD(5)[OF inv own] by auto
  note bound = few_semaphores_bound[OF inv few]
  show i': "sem_inv s'" unfolding s'_def by (rule SMC_Kill_Semaphore_Owner_inv[OF inv v pi bound])
  let ?s = "upd_s sp (sm_owner_killed_update (\<lambda>_. True)) s"
  have i0: "sem_inv ?s"
  proof (rule sem_inv_change[OF inv, where sp = sp and C = "{}"])
    show "sem_ok sp ?s" using inv v by (auto simp: sem_inv_def sem_ok_def sem_waiter_def Let_def)
    show "owned_ok u ?s" for u using inv by (auto simp: sem_inv_def owned_ok_def)
  qed (use inv in \<open>auto simp: sem_inv_def\<close>)
  obtain s1 p1 where s1: "(s1, p1) = SMC_Free_PI_Semaphore sp t ?s" by (metis surj_pair)
  obtain st p where r: "(s', st, p) = smc_release_semaphore sp t ?s"
    using o by (simp add: s'_def SMC_Kill_Semaphore_Owner_def split_beta) (metis prod.collapse)
  have F: "tc_semaphore_list s1 = (tc_semaphore_list s)(t := rest)"
    "\<And>u. wait_view (tcbs (skern s1) u) = wait_view (tcbs (skern s) u)" "sems s1 = sems ?s"
    using SMC_Free_PI_Semaphore_facts(1,4,6)[OF i0 _ s1] own l by simp_all
  define L where "L = sm_suspension_list (sems s sp)"
  have tn: "t \<notin> set L" using sem_invD(9)[OF inv v refl pi o] by (simp add: L_def)
  have w: "sm_tasks_waiting (sems s sp) = length L" using sem_invD(3)[OF inv v refl] by (simp add: L_def)
  have idle: "s' = upd_s sp (sm_semaphore_count_update inc32) (upd_s sp (sm_semaphore_owner_update (\<lambda>_. None)) s1)" if "L = []"
    using r pi o that w by (simp add: smc_release_semaphore_def Let_def s1[symmetric] F(3))
  have hand: "tc_semaphore_list s' = (tc_semaphore_list s1)(h := tc_semaphore_list s1 h @ [sp])"
    "\<And>q. sm_id_valid (sems s' q) = sm_id_valid (sems s q)"
    "\<And>q. sm_suspension_list (sems s' q) = (if q = sp then ts else sm_suspension_list (sems s q))" if "L = h # ts" for h ts
    using r pi o that w F(3)
    by (auto simp: smc_release_semaphore_def Let_def split_beta s1[symmetric] L_def)
  have notin: "wait_view (tcbs (skern s') u) = wait_view (tcbs (skern s) u)" if "u \<notin> set L" for u
  proof (cases L)
    case (Cons h ts)
    then show ?thesis
      using release_pi(5)[OF i0 _ _ _ _ r s1, of L h ts u] v pi o bound F(2)[of u] that by (simp add: L_def)
  qed (use idle F(2) in simp)
  then show "wait_view (tcbs (skern s') t) = wait_view (tcbs (skern s) t)" using tn by blast
  have others: "\<not> sem_listed s u \<Longrightarrow> wait_view (tcbs (skern s') u) = wait_view (tcbs (skern s) u)" for u
    using notin[of u] v by (auto simp: sem_listed_def L_def)
  have valid: "sm_id_valid (sems s' q) = sm_id_valid (sems s q)" for q
    using idle F(3) hand(2) by (cases L) auto
  show "few_semaphores s'" using few by (simp add: few_semaphores_def valid)
  show "tc_semaphore_list s' t = rest" using idle hand(1) F(1) tn by (cases L) auto
  have lists: "sm_suspension_list (sems s' q) = (if q = sp then tl L else sm_suspension_list (sems s q))" for q
    using idle F(3) hand(3) by (cases L) (auto simp: L_def)
  have tl: "u \<in> set (tl xs) \<Longrightarrow> u \<in> set xs" for xs :: "tid list" by (cases xs) auto
  show "\<not> sem_listed s u \<Longrightarrow> wait_view (tcbs (skern s') u) = wait_view (tcbs (skern s) u) \<and> \<not> sem_listed s' u"
    using others[of u] v by (auto simp: sem_listed_def valid lists L_def dest: tl split: if_splits)
  show "sem_listed s' u \<or> is_ready u (skern s')" if lu: "sem_listed s u"
  proof (cases "\<exists>h ts. L = h # ts \<and> u = h")
    case True
    then show ?thesis using release_pi(4)[OF i0 _ _ _ _ r s1, of L u "tl L"] v pi o bound by (auto simp: L_def)
  next
    case False
    obtain q where q: "sm_id_valid (sems s q)" "u \<in> set (sm_suspension_list (sems s q))"
      using lu by (auto simp: sem_listed_def)
    then have "u \<in> set (sm_suspension_list (sems s' q))" using False by (cases L) (auto simp: lists L_def)
    then show ?thesis using q(1) valid by (auto simp: sem_listed_def)
  qed
qed

lemma kill_owned_returns:
  assumes "sem_inv s" "few_semaphores s"
  shows "\<exists>x. kill_owned t s = Some x \<and> sem_inv x \<and> tc_semaphore_list x t = [] \<and>
    (\<forall>u. tc_id_valid (tcbs (skern x) u) = tc_id_valid (tcbs (skern s) u) \<and>
       tc_auto_clean (tcbs (skern x) u) = tc_auto_clean (tcbs (skern s) u)) \<and>
    TCD_Current_Thread (skern x) = TCD_Current_Thread (skern s) \<and>
    wait_view (tcbs (skern x) t) = wait_view (tcbs (skern s) t) \<and>
    (\<forall>u. \<not> sem_listed s u \<longrightarrow> wait_view (tcbs (skern x) u) = wait_view (tcbs (skern s) u) \<and> \<not> sem_listed x u) \<and>
    (\<forall>u. sem_listed s u \<longrightarrow> sem_listed x u \<or> is_ready u (skern x))"
  using assms
proof (induction "tc_semaphore_list s t" arbitrary: s)
  case Nil
  then have "tc_semaphore_count (tcbs (skern s) t) = 0" using owned_okD(3)[of s t] by simp
  then have "kill_owned t s = Some s" by (subst kill_owned.simps) simp
  then show ?case using Nil by simp
next
  case (Cons sp rest)
  let ?s = "fst (SMC_Kill_Semaphore_Owner sp t s)"
  note K = kill_step[OF Cons.prems Cons.hyps(2)[symmetric]]
  have "tc_semaphore_count (tcbs (skern s) t) \<noteq> 0"
    using owned_okD(3)[OF Cons.prems(1), of t] Cons.hyps(2)[symmetric] by simp
  then have e: "kill_owned t s = kill_owned t ?s"
    using Cons.hyps(2)[symmetric] by (subst kill_owned.simps) simp
  obtain x where x: "kill_owned t ?s = Some x" "sem_inv x" "tc_semaphore_list x t = []"
    "\<forall>u. tc_id_valid (tcbs (skern x) u) = tc_id_valid (tcbs (skern s) u) \<and>
       tc_auto_clean (tcbs (skern x) u) = tc_auto_clean (tcbs (skern s) u)"
    "TCD_Current_Thread (skern x) = TCD_Current_Thread (skern s)"
    "wait_view (tcbs (skern x) t) = wait_view (tcbs (skern ?s) t)"
    "\<forall>u. \<not> sem_listed ?s u \<longrightarrow> wait_view (tcbs (skern x) u) = wait_view (tcbs (skern ?s) u) \<and> \<not> sem_listed x u"
    "\<forall>u. sem_listed ?s u \<longrightarrow> sem_listed x u \<or> is_ready u (skern x)"
    using Cons.hyps(1)[OF K(3)[symmetric] K(1,2)] by auto
  have "sem_listed x u \<or> is_ready u (skern x)" if "sem_listed s u" for u
  proof (cases "sem_listed ?s u")
    case False
    then have "is_ready u (skern ?s)" using K(5)[OF that] by blast
    then show ?thesis using x(7) False by (auto simp: is_ready_def wait_view_def)
  qed (use x(8) in blast)
  then show ?case using e x K(4,6) by auto
qed

section \<open>Terminating a task\<close>

lemma listed_waiting:
  assumes "sem_inv x" "sem_listed x t"
  shows "wait_view (tcbs (skern x) t) = (NU_SEMAPHORE_SUSPEND, False, Some t, NU_READY, False)"
  using assms(2) sem_invD(6)[OF assms(1) _ refl, of _ t] by (auto simp: sem_listed_def sem_waiter_def)

lemma not_listed: "sem_inv x \<Longrightarrow> tc_status (tcbs (skern x) t) \<noteq> NU_SEMAPHORE_SUSPEND \<Longrightarrow> \<not> sem_listed x t"
  using listed_waiting[of x t] by (auto simp: wait_view_def)

text \<open>A task in no signal handler; one that waits for a semaphore is on its list, with the clean-up routine of semaphores.\<close>

definition undisturbed :: "tid \<Rightarrow> lsys \<Rightarrow> bool" where
  "undisturbed t s \<longleftrightarrow> \<not> tc_signal_active (tcbs (lkern s) t) \<and>
     (tc_status (tcbs (lkern s) t) = NU_SEMAPHORE_SUSPEND \<longrightarrow> sem_listed (lsem s) t)"

definition ended :: "tcb \<Rightarrow> bool" where
  "ended c \<longleftrightarrow> tc_status c = NU_FINISHED \<or> tc_status c = NU_TERMINATED"

lemma terminate_loop_done: "ended (tcbs (lkern s) t) \<Longrightarrow> terminate_loop t s = Some s"
  by (subst terminate_loop.simps) (auto simp: ended_def Let_def)

lemma TCC_Suspend_Task_id [simp]:
  "tc_id_valid (tcbs (fst (TCC_Suspend_Task t r cl n k)) u) = tc_id_valid (tcbs k u)"
  "TCD_Current_Thread (fst (TCC_Suspend_Task t r cl n k)) = TCD_Current_Thread k"
  by (simp_all add: TCC_Suspend_Task_def Let_def unlink_ready_frames(4))

text \<open>What the end of a task keeps of the semaphores, when the task waits on none.\<close>

lemma suspend_sem_inv:
  assumes inv: "sem_inv x" and r: "is_ready t (skern x)" and code: "code \<noteq> NU_READY"
  shows "sem_inv (x\<lparr>skern := fst (TCC_Suspend_Task t code None NU_SUSPEND (skern x))\<rparr>)"
    "tc_status (tcbs (fst (TCC_Suspend_Task t code None NU_SUSPEND (skern x))) t) = code"
    "u \<noteq> t \<Longrightarrow> tcbs (fst (TCC_Suspend_Task t code None NU_SUSPEND (skern x))) u = tcbs (skern x) u"
proof -
  let ?k = "fst (TCC_Suspend_Task t code None NU_SUSPEND (skern x))"
  have si: "sched_inv (skern x)" using inv by (simp add: sem_inv_def)
  show st: "tc_status (tcbs ?k t) = code"
    using r by (simp add: TCC_Suspend_Task_def Let_def is_ready_def)
  show oth: "tcbs ?k u = tcbs (skern x) u" if "u \<noteq> t" for u
    using that r by (simp add: TCC_Suspend_Task_def Let_def is_ready_def)
  have "\<not> sem_listed x t" by (rule not_listed[OF inv]) (use r in \<open>simp add: is_ready_def\<close>)
  then have "wait_view (tcbs ?k u) = wait_view (tcbs (skern x) u)" if "sem_listed x u" for u
    using oth[of u] that by (cases "u = t") auto
  then show "sem_inv (x\<lparr>skern := ?k\<rparr>)"
    by (intro kernel_sem_inv[OF inv TCC_Suspend_Task_inv[OF si code]]) (use owned_okD(4)[OF inv] in auto)
qed

definition terminated :: "tid \<Rightarrow> kernel \<Rightarrow> kernel" where
  "terminated t k =
    (let k1 = upd_tcb (tc_status_update (\<lambda>_. NU_TERMINATED)) t k
     in if tc_timer_active (tcbs k1 t)
        then upd_tcb (tc_timer_active_update (\<lambda>_. False)) t (k1\<lparr>tm := TMC_Stop_Task_Timer (task_timer t) (tm k1)\<rparr>)
        else k1)"

lemma terminated_facts:
  assumes inv: "sched_inv k" and n: "tc_status (tcbs k t) \<noteq> NU_READY"
  shows "sched_inv (terminated t k)"
    "tcbs (terminated t k) = (tcbs k)(t := (tcbs k t)\<lparr>tc_status := NU_TERMINATED, tc_timer_active := False\<rparr>)"
    "TCD_Current_Thread (terminated t k) = TCD_Current_Thread k"
proof -
  let ?k1 = "upd_tcb (tc_status_update (\<lambda>_. NU_TERMINATED)) t k"
  have i1: "sched_inv ?k1" using sched_inv_fields[OF inv, of t] n by (intro sched_inv_upd[OF inv]) auto
  show "sched_inv (terminated t k)"
    using i1 sched_inv_fields[OF i1, of t] by (auto simp: terminated_def Let_def intro!: sched_inv_upd)
  show "tcbs (terminated t k) = (tcbs k)(t := (tcbs k t)\<lparr>tc_status := NU_TERMINATED, tc_timer_active := False\<rparr>)"
    "TCD_Current_Thread (terminated t k) = TCD_Current_Thread k"
    by (auto simp: terminated_def Let_def fun_eq_iff)
qed

lemma SMC_Cleanup_skern [simp]:
  "skern (SMC_Cleanup t x) = skern x" "tc_semaphore_list (SMC_Cleanup t x) = tc_semaphore_list x"
  "sm_id_valid (sems (SMC_Cleanup t x) q) = sm_id_valid (sems x q)"
  by (simp_all add: SMC_Cleanup_def Let_def)

text \<open>The clean-up calls of other components a termination makes.\<close>

definition calls_of :: "tcb \<Rightarrow> (suspend_type \<times> nat) list" where
  "calls_of c = (case tc_cleanup c of
      Some info \<Rightarrow> if tc_status c \<notin> {NU_READY, NU_FINISHED, NU_TERMINATED, NU_SEMAPHORE_SUSPEND} then [(tc_status c, info)] else []
    | None \<Rightarrow> [])"

lemma terminate_suspended_eq:
  assumes inv: "sem_inv (lsem s)" and set: "undisturbed t s" and n: "\<not> ended (tcbs (lkern s) t)" "\<not> is_ready t (lkern s)"
  shows "terminate_suspended t s = s
     \<lparr>lsem := (if sem_listed (lsem s) t then SMC_Cleanup t (lsem s) else lsem s)\<lparr>skern := terminated t (lkern s)\<rparr>,
      cleanup_calls := cleanup_calls s @ calls_of (tcbs (lkern s) t)\<rparr>"
proof -
  let ?c = "tcbs (lkern s) t"
  have listed: "tc_status ?c = NU_SEMAPHORE_SUSPEND \<and> tc_cleanup ?c = Some t" if "sem_listed (lsem s) t"
    using listed_waiting[OF inv that] by (simp add: wait_view_def)
  have reason: "suspended_for ?c = tc_status ?c" using set by (simp add: suspended_for_def undisturbed_def)
  define s1 where "s1 = (case tc_cleanup ?c of None \<Rightarrow> s | Some info \<Rightarrow> run_cleanup (tc_status ?c) info s)"
  have s1: "s1 = s\<lparr>lsem := (if sem_listed (lsem s) t then SMC_Cleanup t (lsem s) else lsem s),
      cleanup_calls := cleanup_calls s @ calls_of ?c\<rparr>"
    using listed set n
    by (auto simp: s1_def run_cleanup_def calls_of_def ended_def is_ready_def undisturbed_def split: option.splits)
  have k1: "lkern s1 = lkern s" by (simp add: s1)
  have "terminate_suspended t s = upd_lkern (terminated t) s1"
    unfolding terminate_suspended_def Let_def reason s1_def[symmetric]
    by (simp add: terminated_def Let_def upd_lkern_def upd_skern_def)
  then show ?thesis by (simp add: s1 upd_lkern_def upd_skern_def)
qed

lemma terminate_suspended_facts:
  assumes inv: "sem_inv (lsem s)" and set: "undisturbed t s" and n: "\<not> ended (tcbs (lkern s) t)" "\<not> is_ready t (lkern s)"
  defines "s' \<equiv> terminate_suspended t s"
  shows "sem_inv (lsem s')" "\<not> sem_listed (lsem s') t"
    "tcbs (lkern s') = (tcbs (lkern s))(t := (tcbs (lkern s) t)\<lparr>tc_status := NU_TERMINATED, tc_timer_active := False\<rparr>)"
    "tc_semaphore_list (lsem s') = tc_semaphore_list (lsem s)"
    "s' = s\<lparr>lsem := lsem s', cleanup_calls := cleanup_calls s @ calls_of (tcbs (lkern s) t)\<rparr>"
    "TCD_Current_Thread (lkern s') = TCD_Current_Thread (lkern s)"
proof -
  note e = terminate_suspended_eq[OF inv set n, folded s'_def]
  have si: "sched_inv (lkern s)" using inv by (simp add: sem_inv_def)
  note T = terminated_facts[OF si, of t] 
  have nr: "tc_status (tcbs (lkern s) t) \<noteq> NU_READY" using n by (simp add: is_ready_def)
  show tcb: "tcbs (lkern s') = (tcbs (lkern s))(t := (tcbs (lkern s) t)\<lparr>tc_status := NU_TERMINATED, tc_timer_active := False\<rparr>)"
    and "tc_semaphore_list (lsem s') = tc_semaphore_list (lsem s)"
    "s' = s\<lparr>lsem := lsem s', cleanup_calls := cleanup_calls s @ calls_of (tcbs (lkern s) t)\<rparr>"
    "TCD_Current_Thread (lkern s') = TCD_Current_Thread (lkern s)"
    using T[OF nr] by (simp_all add: e)
  show "sem_inv (lsem s')"
  proof (cases "sem_listed (lsem s) t")
    case True
    then obtain sp where sp: "sm_id_valid (sems (lsem s) sp)" "t \<in> set (sm_suspension_list (sems (lsem s) sp))"
      by (auto simp: sem_listed_def)
    show ?thesis using True SMC_Cleanup_inv(1)[OF inv sp T(1)[OF nr]] T(2)[OF nr] by (simp add: e)
  next
    case False
    have "sem_inv ((lsem s)\<lparr>skern := terminated t (lkern s)\<rparr>)"
    proof (rule kernel_sem_inv[OF inv T(1)[OF nr]])
      show "wait_view (tcbs (terminated t (lkern s)) u) = wait_view (tcbs (lkern s) u)" if "sem_listed (lsem s) u" for u
        using that False T(2)[OF nr] by (cases "u = t") auto
    qed (use T(2)[OF nr] owned_okD(4)[OF inv] in auto)
    then show ?thesis using False by (simp add: e)
  qed
  then show "\<not> sem_listed (lsem s') t" by (rule not_listed) (simp add: tcb)
qed

text \<open>The loop ends after at most one round.\<close>

lemma terminate_loop_returns:
  assumes inv: "sem_inv (lsem s)" and set: "undisturbed t s" and cur: "TCD_Current_Thread (lkern s) \<noteq> Task_Thread t"
  obtains s' where "terminate_loop t s = Some s'" "sem_inv (lsem s')" "\<not> sem_listed (lsem s') t" "ended (tcbs (lkern s') t)"
    "tc_semaphore_list (lsem s') = tc_semaphore_list (lsem s)"
    "TCD_Created_Tasks_List s' = TCD_Created_Tasks_List s" "TCD_Total_Tasks s' = TCD_Total_Tasks s"
    "TCD_App_Task_List s' = TCD_App_Task_List s" "TCD_Total_App_Tasks s' = TCD_Total_App_Tasks s" "ctrl s' = ctrl s"
    "cleanup_calls s' = cleanup_calls s @ calls_of (tcbs (lkern s) t)"
    "\<forall>u. u \<noteq> t \<longrightarrow> tcbs (lkern s') u = tcbs (lkern s) u" "tc_id_valid (tcbs (lkern s') t) = tc_id_valid (tcbs (lkern s) t)"
proof -
  let ?c = "tcbs (lkern s) t"
  have nl: "\<not> sem_listed (lsem s) t" if "ended ?c \<or> is_ready t (lkern s)"
    by (rule not_listed[OF inv]) (use that in \<open>auto simp: ended_def is_ready_def\<close>)
  consider (over) "ended ?c" | (ready) "is_ready t (lkern s)" "\<not> ended ?c" | (asleep) "\<not> ended ?c" "\<not> is_ready t (lkern s)"
    by blast
  then show ?thesis
  proof cases
    case over
    then have "calls_of ?c = []" by (auto simp: calls_of_def ended_def split: option.splits)
    then show ?thesis using over nl inv by (intro that[OF terminate_loop_done[OF over]]) auto
  next
    case ready
    let ?k = "fst (TCC_Suspend_Task t NU_TERMINATED None NU_SUSPEND (lkern s))"
    note S = suspend_sem_inv[OF inv ready(1), of NU_TERMINATED, simplified]
    have nd: "\<not> snd (snd (TCC_Suspend_Task t NU_TERMINATED None NU_SUSPEND (lkern s)))"
      using cur ready(1) by (simp add: TCC_Suspend_Task_def Let_def is_ready_def unlink_ready_frames(4))
    define s' where "s' = upd_lkern (\<lambda>_. ?k) s"
    have "fst (end_task t NU_TERMINATED s) = s'" using nd by (simp add: end_task_def s'_def split_beta)
    moreover have d: "ended (tcbs (lkern s') t)" using S(2) by (simp add: ended_def s'_def)
    ultimately have l: "terminate_loop t s = Some s'"
      using ready by (subst terminate_loop.simps) (simp add: Let_def ended_def is_ready_def terminate_loop_done)
    have i: "sem_inv (lsem s')" using S(1) by (simp add: s'_def upd_skern_def)
    have "\<not> sem_listed (lsem s') t"
      by (rule not_listed[OF i]) (use d in \<open>auto simp: ended_def\<close>)
    moreover have "calls_of ?c = []" using ready by (auto simp: calls_of_def is_ready_def split: option.splits)
    ultimately show ?thesis using S(3) i d
      by (intro that[OF l]) (simp_all add: s'_def upd_lkern_def)
  next
    case asleep
    note T = terminate_suspended_facts[OF inv set asleep]
    have d: "ended (tcbs (lkern (terminate_suspended t s)) t)" by (simp add: T(3) ended_def)
    then have l: "terminate_loop t s = Some (terminate_suspended t s)"
      using asleep by (subst terminate_loop.simps) (simp add: Let_def ended_def is_ready_def terminate_loop_done)
    define s' where "s' = terminate_suspended t s"
    have "TCD_Created_Tasks_List s' = TCD_Created_Tasks_List s" "TCD_Total_Tasks s' = TCD_Total_Tasks s"
      "TCD_App_Task_List s' = TCD_App_Task_List s" "TCD_Total_App_Tasks s' = TCD_Total_App_Tasks s" "ctrl s' = ctrl s"
      "cleanup_calls s' = cleanup_calls s @ calls_of (tcbs (lkern s) t)"
      by (subst T(5)[folded s'_def], simp)+
    then show ?thesis unfolding s'_def by (intro that[OF l T(1,2) d T(4)]) (use T(3) in auto)
  qed
qed

section \<open>The invariant\<close>

text \<open>
  The list of created tasks has exactly the tasks with a valid identification, the list of application tasks those of
  them in that group, the totals are the lengths, and a task that is not created is neither ready nor waiting.
\<close>

definition resting :: "suspend_type set" where
  "resting = {NU_PURE_SUSPEND, NU_FINISHED, NU_TERMINATED}"

definition linv :: "lsys \<Rightarrow> bool" where
  "linv s \<longleftrightarrow> sem_inv (lsem s) \<and>
     distinct (TCD_Created_Tasks_List s) \<and> set (TCD_Created_Tasks_List s) = {t. tc_id_valid (tcbs (lkern s) t)} \<and>
     length (TCD_Created_Tasks_List s) < 4294967296 \<and> TCD_Total_Tasks s = length (TCD_Created_Tasks_List s) \<and>
     distinct (TCD_App_Task_List s) \<and>
     set (TCD_App_Task_List s) = {t. tc_id_valid (tcbs (lkern s) t) \<and> tc_grp_id (ctrl s t) = TC_GRP_ID_APP} \<and>
     TCD_Total_App_Tasks s = length (TCD_App_Task_List s) \<and>
     (\<forall>t. \<not> tc_id_valid (tcbs (lkern s) t) \<longrightarrow> tc_status (tcbs (lkern s) t) \<in> resting)"

lemma linvD:
  assumes "linv s"
  shows "sem_inv (lsem s)" "sched_inv (lkern s)" "\<not> tc_id_valid (tcbs (lkern s) t) \<Longrightarrow> tc_status (tcbs (lkern s) t) \<in> resting"
    "is_ready t (lkern s) \<Longrightarrow> tc_id_valid (tcbs (lkern s) t)" "sem_listed (lsem s) t \<Longrightarrow> tc_id_valid (tcbs (lkern s) t)"
proof -
  show i: "sem_inv (lsem s)" and "sched_inv (lkern s)"
    and d: "\<not> tc_id_valid (tcbs (lkern s) t) \<Longrightarrow> tc_status (tcbs (lkern s) t) \<in> resting"
    using assms by (auto simp: linv_def sem_inv_def)
  show "is_ready t (lkern s) \<Longrightarrow> tc_id_valid (tcbs (lkern s) t)" using d by (auto simp: is_ready_def resting_def)
  show "sem_listed (lsem s) t \<Longrightarrow> tc_id_valid (tcbs (lkern s) t)"
    using d listed_waiting[OF i, of t] by (auto simp: wait_view_def resting_def)
qed

lemma linv_app_length: "linv s \<Longrightarrow> length (TCD_App_Task_List s) \<le> length (TCD_Created_Tasks_List s)"
proof -
  assume l: "linv s"
  then have "set (TCD_App_Task_List s) \<subseteq> set (TCD_Created_Tasks_List s)" by (auto simp: linv_def)
  then have "card (set (TCD_App_Task_List s)) \<le> card (set (TCD_Created_Tasks_List s))" by (simp add: card_mono)
  moreover have "distinct (TCD_App_Task_List s)" "distinct (TCD_Created_Tasks_List s)" using l by (simp_all add: linv_def)
  ultimately show ?thesis by (simp add: distinct_card)
qed

text \<open>A change that creates and deletes nothing.\<close>

lemma linv_change:
  assumes "linv s" "sem_inv (lsem s')" "\<And>u. tc_id_valid (tcbs (lkern s') u) = tc_id_valid (tcbs (lkern s) u)"
    "\<And>u. \<not> tc_id_valid (tcbs (lkern s) u) \<Longrightarrow>
       tc_status (tcbs (lkern s') u) = tc_status (tcbs (lkern s) u) \<or> tc_status (tcbs (lkern s') u) \<in> resting"
    "TCD_Created_Tasks_List s' = TCD_Created_Tasks_List s" "TCD_Total_Tasks s' = TCD_Total_Tasks s"
    "TCD_App_Task_List s' = TCD_App_Task_List s" "TCD_Total_App_Tasks s' = TCD_Total_App_Tasks s"
    "\<And>u. tc_grp_id (ctrl s' u) = tc_grp_id (ctrl s u)"
  shows "linv s'"
proof -
  have "tc_status (tcbs (lkern s') u) \<in> resting" if "\<not> tc_id_valid (tcbs (lkern s') u)" for u
    using assms(1) assms(3)[of u] assms(4)[of u] that by (auto simp: linv_def)
  then show ?thesis using assms(1,2,3,5-9) by (simp add: linv_def)
qed

text \<open>A change of the kernel around one task that waits for no semaphore.\<close>

lemma sem_kernel:
  assumes inv: "sem_inv x" and k: "sched_inv k" and t: "\<not> sem_listed x t"
    and same: "\<And>u. u \<noteq> t \<Longrightarrow> tcbs k u = tcbs (skern x) u"
    and cnt: "tc_semaphore_count (tcbs k t) = tc_semaphore_count (tcbs (skern x) t)" "tc_base_priority (tcbs k t) < 256"
  shows "sem_inv (x\<lparr>skern := k\<rparr>)"
proof (rule kernel_sem_inv[OF inv k])
  show "wait_view (tcbs k u) = wait_view (tcbs (skern x) u)" if "sem_listed x u" for u
    using that t same[of u] by (cases "u = t") auto
  show "tc_semaphore_count (tcbs k u) = tc_semaphore_count (tcbs (skern x) u) \<and> tc_base_priority (tcbs k u) < 256" for u
    using cnt same[of u] owned_okD(4)[OF inv, of u] by (cases "u = t") auto
qed

lemma linv_kernel:
  assumes inv: "linv s" and k: "sched_inv k" and t: "\<not> sem_listed (lsem s) t"
    and same: "\<And>u. u \<noteq> t \<Longrightarrow> tcbs k u = tcbs (lkern s) u"
    and id: "tc_id_valid (tcbs k t) = tc_id_valid (tcbs (lkern s) t)"
    and st: "\<not> tc_id_valid (tcbs (lkern s) t) \<Longrightarrow> tc_status (tcbs k t) \<in> resting"
    and cnt: "tc_semaphore_count (tcbs k t) = tc_semaphore_count (tcbs (lkern s) t)" "tc_base_priority (tcbs k t) < 256"
  shows "linv (upd_lkern (\<lambda>_. k) s)"
proof (rule linv_change[OF inv])
  show "sem_inv (lsem (upd_lkern (\<lambda>_. k) s))"
    using sem_kernel[OF linvD(1)[OF inv] k t same cnt] by (simp add: upd_skern_def)
  show "tc_id_valid (tcbs (lkern (upd_lkern (\<lambda>_. k) s)) u) = tc_id_valid (tcbs (lkern s) u)" for u
    using id same[of u] by (cases "u = t") auto
  show "\<not> tc_id_valid (tcbs (lkern s) u) \<Longrightarrow> tc_status (tcbs (lkern (upd_lkern (\<lambda>_. k) s)) u) = tc_status (tcbs (lkern s) u) \<or>
      tc_status (tcbs (lkern (upd_lkern (\<lambda>_. k) s)) u) \<in> resting" for u
    using st same[of u] by (cases "u = t") auto
qed simp_all

text \<open>A change of the control block of one task: the kernel's part of it keeps priority and counters.\<close>

lemma linv_upd_tcb:
  assumes inv: "linv s" and t: "\<not> sem_listed (lsem s) t" and k: "sched_inv (upd_tcb f t (lkern s))"
    and f: "tc_id_valid (f (tcbs (lkern s) t)) = tc_id_valid (tcbs (lkern s) t)"
      "tc_semaphore_count (f (tcbs (lkern s) t)) = tc_semaphore_count (tcbs (lkern s) t)"
      "tc_base_priority (f (tcbs (lkern s) t)) = tc_base_priority (tcbs (lkern s) t)"
      "tc_status (f (tcbs (lkern s) t)) = tc_status (tcbs (lkern s) t) \<or> tc_status (f (tcbs (lkern s) t)) \<in> resting"
  shows "linv (upd_lkern (upd_tcb f t) s)"
proof -
  have "linv (upd_lkern (\<lambda>_. upd_tcb f t (lkern s)) s)"
    by (rule linv_kernel[OF inv k t]) (use f linvD(3)[OF inv, of t] owned_okD(4)[OF linvD(1)[OF inv]] in auto)
  then show ?thesis by (simp add: upd_lkern_def upd_skern_def)
qed

text \<open>A change of the other part of the control block that keeps the group.\<close>

lemma linv_upd_ctrl:
  assumes inv: "linv s" and "tc_grp_id (f (ctrl s t)) = tc_grp_id (ctrl s t)"
  shows "linv (upd_ctrl f t s)"
  by (rule linv_change[OF inv]) (use assms linvD(1)[OF inv] in auto)

lemma upd_tcb_sched:
  assumes "sched_inv k" "tc_priority (f (tcbs k t)) = tc_priority (tcbs k t)" "fields_ok (f (tcbs k t)) = fields_ok (tcbs k t)"
    "tc_preemption (f (tcbs k t)) = tc_preemption (tcbs k t)"
    "tc_status (f (tcbs k t)) = NU_READY \<longleftrightarrow> tc_status (tcbs k t) = NU_READY"
  shows "sched_inv (upd_tcb f t k)"
  by (rule sched_inv_upd[OF assms(1)]) (use assms sched_inv_fields[OF assms(1), of t] in auto)

section \<open>The services keep the invariant\<close>

lemma new_tcb_ok: "p < 256 \<Longrightarrow> fields_ok (new_tcb p n b)"
  by (simp add: new_tcb_def fields_ok_def)

lemma NU_Create_Task_created:
  assumes "\<not> tc_id_valid (tcbs (lkern s) t)" "entry \<noteq> NU_NULL" "stack \<noteq> NU_NULL" "250 \<le> sz" "p < 256"
  shows "NU_Create_Task esal (Some t) entry argc argv stack sz p sl (Some pre) (Some start) s =
    (let s1 = build_task t (new_tcb p sl pre) (new_control esal entry argc argv stack sz) s
     in if start then (let (k, preempted) = TCC_Resume_Task t NU_PURE_SUSPEND (lkern s1)
          in (upd_lkern (\<lambda>_. k) s1, NU_SUCCESS, preempted))
        else (s1, NU_SUCCESS, False))"
proof -
  have e: "error_checks
           [((case Some t of None \<Rightarrow> True | Some t \<Rightarrow> tc_id_valid (tcbs (lkern s) t)), NU_INVALID_TASK),
            (entry = NU_NULL, NU_INVALID_ENTRY), (stack = NU_NULL, NU_INVALID_MEMORY),
            (sz < NU_MIN_STACK_SIZE, NU_INVALID_SIZE), (Some pre = None, NU_INVALID_PREEMPT),
            (Some start = None, NU_INVALID_START), (TC_PRIORITIES \<le> p, NU_INVALID_PRIORITY)] NU_SUCCESS = NU_SUCCESS"
    using assms by (simp add: NU_MIN_STACK_SIZE_def TC_PRIORITIES_def)
  show ?thesis
    unfolding NU_Create_Task_def e by (simp add: Let_def)
qed

lemma sched_inv_tm_update [simp]: "sched_inv (tm_update f k) = sched_inv k"
  by (simp add: sched_inv_def ready_ok_def ready_set_def highest_ok_def execute_ok_def cong: option.case_cong)

lemma build_task_facts:
  fixes s :: lsys and t :: tid and c :: tcb and e :: task_control
  defines "s' \<equiv> build_task t c e s"
  shows "tcbs (lkern s') = (tcbs (lkern s))(t := c\<lparr>tc_id_valid := True\<rparr>)" "sems (lsem s') = sems (lsem s)"
    "sblocks (lsem s') = sblocks (lsem s)" "tc_semaphore_list (lsem s') = (tc_semaphore_list (lsem s))(t := [])"
    "lkern s' = upd_tcb (\<lambda>_. c\<lparr>tc_id_valid := True\<rparr>) t (tm_update (tm_remaining_time_update (\<lambda>r. r(task_timer t := 0))) (lkern s))"
    "TCD_Created_Tasks_List s' = TCD_Created_Tasks_List s @ [t]" "TCD_Total_Tasks s' = inc32 (TCD_Total_Tasks s)"
    "\<exists>b. (TCD_App_Task_List s', TCD_Total_App_Tasks s', ctrl s') =
       (if b then (TCD_App_Task_List s @ [t], inc32 (TCD_Total_App_Tasks s), (ctrl s)(t := e\<lparr>tc_grp_id := TC_GRP_ID_APP\<rparr>))
        else (TCD_App_Task_List s, TCD_Total_App_Tasks s, (ctrl s)(t := e)))"
  unfolding s'_def
  by (simp_all add: build_task_def Let_def TCC_Application_Task_Add_def upd_tcb_def split: thread.splits)
     (auto intro: exI[of _ True] exI[of _ False])

lemma build_task_linv:
  assumes inv: "linv s" and n: "\<not> tc_id_valid (tcbs (lkern s) t)" "tc_semaphore_list (lsem s) t = []"
    and room: "TCD_Total_Tasks s < 4294967295" and c: "c = new_tcb p sl pre" "p < 256"
    and e: "tc_grp_id e = TC_GRP_ID_SYS"
  shows "linv (build_task t c e s)"
proof -
  let ?s = "build_task t c e s"
  note B = build_task_facts[of t c e s]
  note I = linvD[OF inv]
  have st: "tc_status (tcbs (lkern s) t) \<in> resting" by (rule I(3)[OF n(1)])
  let ?k0 = "tm_update (tm_remaining_time_update (\<lambda>r. r(task_timer t := 0))) (lkern s)"
  have ex: "TCD_Execute_Task (lkern s) \<noteq> Some t"
    using I(2) st by (auto simp: sched_inv_def execute_ok_def resting_def)
  have si: "sched_inv (lkern ?s)" unfolding B(5)
    by (rule sched_inv_upd) (use I(2) c(2) st ex in \<open>auto simp: c(1) fields_ok_def new_tcb_def resting_def\<close>)
  have nl: "\<not> sem_listed (lsem s) t" using I(5)[of t] n(1) by blast
  have cnt: "tc_semaphore_count (tcbs (lkern s) t) = 0" using owned_okD(3)[OF I(1), of t] n(2) by simp
  have c0: "tc_semaphore_count c = 0" "tc_base_priority c < 256" using c by (simp_all add: new_tcb_def)
  have "sem_inv ((lsem s)\<lparr>skern := lkern ?s\<rparr>)"
    by (rule sem_kernel[OF I(1) si nl]) (use cnt c0 in \<open>simp_all add: B(1)\<close>)
  moreover have "sem_ok sp (lsem ?s) = sem_ok sp ((lsem s)\<lparr>skern := lkern ?s\<rparr>)"
    and "owned_ok u (lsem ?s) = owned_ok u ((lsem s)\<lparr>skern := lkern ?s\<rparr>)" for sp u
    using n(2) by (auto simp: sem_ok_def owned_ok_def sem_waiter_def B(2,3,4) fun_upd_idem)
  ultimately have sem: "sem_inv (lsem ?s)" by (simp add: sem_inv_def B(2))
  have ids: "tc_id_valid (tcbs (lkern ?s) u) \<longleftrightarrow> u = t \<or> tc_id_valid (tcbs (lkern s) u)" for u by (simp add: B(1))
  have nin: "t \<notin> set (TCD_Created_Tasks_List s)" "t \<notin> set (TCD_App_Task_List s)" using inv n(1) by (auto simp: linv_def)
  have L: "distinct (TCD_Created_Tasks_List s)" "set (TCD_Created_Tasks_List s) = {t. tc_id_valid (tcbs (lkern s) t)}"
    "TCD_Total_Tasks s = length (TCD_Created_Tasks_List s)" "distinct (TCD_App_Task_List s)"
    "set (TCD_App_Task_List s) = {t. tc_id_valid (tcbs (lkern s) t) \<and> tc_grp_id (ctrl s t) = TC_GRP_ID_APP}"
    "TCD_Total_App_Tasks s = length (TCD_App_Task_List s)" using inv by (simp_all add: linv_def)
  have lt: "length (TCD_App_Task_List s) < 4294967295" using linv_app_length[OF inv] L(3) room by simp
  obtain b where b: "(TCD_App_Task_List ?s, TCD_Total_App_Tasks ?s, ctrl ?s) =
       (if b then (TCD_App_Task_List s @ [t], inc32 (TCD_Total_App_Tasks s), (ctrl s)(t := e\<lparr>tc_grp_id := TC_GRP_ID_APP\<rparr>))
        else (TCD_App_Task_List s, TCD_Total_App_Tasks s, (ctrl s)(t := e)))" using B(8) by blast
  have app: "set (TCD_App_Task_List ?s) = {u. tc_id_valid (tcbs (lkern ?s) u) \<and> tc_grp_id (ctrl ?s u) = TC_GRP_ID_APP}"
    "distinct (TCD_App_Task_List ?s)" "TCD_Total_App_Tasks ?s = length (TCD_App_Task_List ?s)"
    using b L(4-6) nin lt e n(1)
    by (cases b; simp add: ids inc32_eq TC_GRP_ID_SYS_def TC_GRP_ID_APP_def; fastforce)+
  show ?thesis unfolding linv_def
  proof (intro conjI allI impI)
    show "set (TCD_Created_Tasks_List ?s) = {u. tc_id_valid (tcbs (lkern ?s) u)}" using L(2) by (auto simp: B(6) ids)
    show "tc_status (tcbs (lkern ?s) u) \<in> resting" if "\<not> tc_id_valid (tcbs (lkern ?s) u)" for u
      using that I(3)[of u] by (auto simp: ids B(1))
  qed (use sem app L nin room in \<open>simp_all add: B(6,7) inc32_eq\<close>)
qed

lemma resume_linv:
  assumes inv: "linv s" and t: "tc_id_valid (tcbs (lkern s) t)" "\<not> sem_listed (lsem s) t" and r: "r \<noteq> NU_READY"
  shows "linv (upd_lkern (\<lambda>_. fst (TCC_Resume_Task t r (lkern s))) s)"
  by (rule linv_kernel[OF inv TCC_Resume_Task_inv[OF linvD(2)[OF inv] r] t(2)])
     (use t owned_okD(4)[OF linvD(1)[OF inv]] TCC_Resume_Task_others in auto)

lemma NU_Create_Task_linv:
  assumes inv: "linv s" and n: "tc_semaphore_list (lsem s) t = []" and room: "TCD_Total_Tasks s < 4294967295"
  shows "linv (fst (NU_Create_Task esal (Some t) entry argc argv stack sz p sl pre start s))"
proof (cases "\<not> tc_id_valid (tcbs (lkern s) t) \<and> entry \<noteq> NU_NULL \<and> stack \<noteq> NU_NULL \<and> 250 \<le> sz \<and> p < 256 \<and>
    pre \<noteq> None \<and> start \<noteq> None")
  case True
  then obtain pr st where ps: "pre = Some pr" "start = Some st" by auto
  let ?s = "build_task t (new_tcb p sl pr) (new_control esal entry argc argv stack sz) s"
  have l: "linv ?s"
    by (rule build_task_linv[OF inv _ n room refl]) (use True in \<open>auto simp: new_control_def Let_def\<close>)
  have t: "tc_id_valid (tcbs (lkern ?s) t)" "tc_status (tcbs (lkern ?s) t) = NU_PURE_SUSPEND"
    by (simp_all add: build_task_facts(1) new_tcb_def)
  have "\<not> sem_listed (lsem ?s) t" by (rule not_listed[OF linvD(1)[OF l]]) (simp add: t)
  then have "linv (upd_lkern (\<lambda>_. fst (TCC_Resume_Task t NU_PURE_SUSPEND (lkern ?s))) ?s)"
    by (intro resume_linv[OF l t(1)]) auto
  then show ?thesis using True l by (simp add: ps NU_Create_Task_created Let_def split_beta)
next
  case False
  then have "fst (NU_Create_Task esal (Some t) entry argc argv stack sz p sl pre start s) = s"
    by (auto simp: NU_Create_Task_def NU_MIN_STACK_SIZE_def TC_PRIORITIES_def)
  then show ?thesis using inv by simp
qed

lemma NU_Reset_Task_linv:
  assumes inv: "linv s"
  shows "linv (fst (NU_Reset_Task esal task argc argv s))"
proof (cases task)
  case (Some t)
  let ?f = "\<lambda>c :: tcb. c\<lparr>tc_status := NU_PURE_SUSPEND, tc_delayed_suspend := False, tc_debug_suspend := NU_READY\<rparr>"
  have "linv (upd_lkern (upd_tcb ?f t) s)" if e: "ended (tcbs (lkern s) t)"
  proof (rule linv_upd_tcb[OF inv])
    show "\<not> sem_listed (lsem s) t" by (rule not_listed[OF linvD(1)[OF inv]]) (use e in \<open>auto simp: ended_def\<close>)
    show "sched_inv (upd_tcb ?f t (lkern s))"
      by (rule upd_tcb_sched[OF linvD(2)[OF inv]]) (use e in \<open>auto simp: ended_def\<close>)
  qed (simp_all add: resting_def)
  then show ?thesis using inv Some
    by (auto simp: NU_Reset_Task_def Let_def ended_def intro!: linv_upd_ctrl)
qed (use inv in \<open>simp add: NU_Reset_Task_def\<close>)

lemma NU_Delete_Task_linv:
  assumes inv: "linv s"
  shows "linv (fst (NU_Delete_Task task s))"
proof (cases "\<exists>t. task = Some t \<and> tc_id_valid (tcbs (lkern s) t) \<and> ended (tcbs (lkern s) t)")
  case True
  then obtain t where t: "task = Some t" "tc_id_valid (tcbs (lkern s) t)" "ended (tcbs (lkern s) t)" by blast
  define s' where "s' = fst (NU_Delete_Task task s)"
  have I: "sem_inv (lsem s)" "sched_inv (lkern s)" using linvD[OF inv] by auto
  let ?k = "upd_tcb (tc_id_valid_update (\<lambda>_. False)) t (lkern s)"
  have D: "lsem s' = (lsem s)\<lparr>skern := ?k\<rparr>" "ctrl s' = ctrl s"
    "TCD_Created_Tasks_List s' = remove1 t (TCD_Created_Tasks_List s)" "TCD_Total_Tasks s' = dec32 (TCD_Total_Tasks s)"
    "TCD_App_Task_List s' = (if tc_grp_id (ctrl s t) = TC_GRP_ID_APP then remove1 t (TCD_App_Task_List s) else TCD_App_Task_List s)"
    "TCD_Total_App_Tasks s' = (if tc_grp_id (ctrl s t) = TC_GRP_ID_APP then dec32 (TCD_Total_App_Tasks s) else TCD_Total_App_Tasks s)"
    using t by (auto simp: s'_def NU_Delete_Task_def ended_def Let_def TCC_Application_Task_Remove_def upd_skern_def)
  have nl: "\<not> sem_listed (lsem s) t" by (rule not_listed[OF I(1)]) (use t in \<open>auto simp: ended_def\<close>)
  have k: "sched_inv ?k" by (rule upd_tcb_sched[OF I(2)]) (auto simp: fields_ok_def)
  have sem: "sem_inv (lsem s')" unfolding D(1)
    by (rule sem_kernel[OF I(1) k nl]) (use owned_okD(4)[OF I(1)] in auto)
  have L: "distinct (TCD_Created_Tasks_List s)" "set (TCD_Created_Tasks_List s) = {t. tc_id_valid (tcbs (lkern s) t)}"
    "TCD_Total_Tasks s = length (TCD_Created_Tasks_List s)" "length (TCD_Created_Tasks_List s) < 4294967296"
    "distinct (TCD_App_Task_List s)"
    "set (TCD_App_Task_List s) = {t. tc_id_valid (tcbs (lkern s) t) \<and> tc_grp_id (ctrl s t) = TC_GRP_ID_APP}"
    "TCD_Total_App_Tasks s = length (TCD_App_Task_List s)" using inv by (simp_all add: linv_def)
  have tc: "t \<in> set (TCD_Created_Tasks_List s)" using L(2) t(2) by simp
  have ta: "t \<in> set (TCD_App_Task_List s) \<longleftrightarrow> tc_grp_id (ctrl s t) = TC_GRP_ID_APP" using L(6) t(2) by simp
  have len: "dec32 (length xs) = length (remove1 t xs)" if "t \<in> set xs" "length xs < 4294967296" for xs :: "tid list"
    using that length_pos_if_in_set[OF that(1)] by (simp add: dec32_eq length_remove1)
  have ids: "tc_id_valid (tcbs (lkern s') u) \<longleftrightarrow> u \<noteq> t \<and> tc_id_valid (tcbs (lkern s) u)" for u by (simp add: D(1))
  have app: "length (TCD_App_Task_List s) < 4294967296" using linv_app_length[OF inv] L(4) by simp
  have "linv s'" unfolding linv_def
  proof (intro conjI allI impI)
    show "set (TCD_Created_Tasks_List s') = {u. tc_id_valid (tcbs (lkern s') u)}" using L(1,2) by (auto simp: D(3) ids)
    show "set (TCD_App_Task_List s') = {u. tc_id_valid (tcbs (lkern s') u) \<and> tc_grp_id (ctrl s' u) = TC_GRP_ID_APP}"
      using L(5,6) by (auto simp: D(2,5) ids)
    show "tc_status (tcbs (lkern s') u) \<in> resting" if "\<not> tc_id_valid (tcbs (lkern s') u)" for u
      using that linvD(3)[OF inv, of u] t(3) by (auto simp: ids D(1) ended_def resting_def)
    show "TCD_Total_Tasks s' = length (TCD_Created_Tasks_List s')" using len[OF tc L(4)] by (simp add: D(3,4) L(3))
    show "TCD_Total_App_Tasks s' = length (TCD_App_Task_List s')" using len[OF _ app] ta by (simp add: D(5,6) L(7))
    show "length (TCD_Created_Tasks_List s') < 4294967296" using L(4) by (auto simp: D(3) length_remove1)
  qed (use sem L in \<open>simp_all add: D(3,5)\<close>)
  then show ?thesis by (simp add: s'_def)
next
  case False
  then have "fst (NU_Delete_Task task s) = s"
    by (cases task) (auto simp: NU_Delete_Task_def ended_def Let_def)
  then show ?thesis using inv by simp
qed

lemma end_task_linv:
  assumes inv: "linv s" and r: "is_ready t (lkern s)" and c: "code = NU_FINISHED \<or> code = NU_TERMINATED"
  shows "linv (fst (end_task t code s))"
proof -
  let ?k = "fst (TCC_Suspend_Task t code None NU_SUSPEND (lkern s))"
  have nr: "code \<noteq> NU_READY" using c by auto
  note S = suspend_sem_inv[OF linvD(1)[OF inv] r nr]
  have nl: "\<not> sem_listed (lsem s) t" by (rule not_listed[OF linvD(1)[OF inv]]) (use r in \<open>simp add: is_ready_def\<close>)
  have "linv (upd_lkern (\<lambda>_. ?k) s)"
    by (rule linv_kernel[OF inv TCC_Suspend_Task_inv[OF linvD(2)[OF inv] nr] nl S(3)])
       (use c S(2) owned_okD(4)[OF linvD(1)[OF inv]] in \<open>auto simp: resting_def\<close>)
  then show ?thesis using NU_Delete_Task_linv by (auto simp: end_task_def split_beta Let_def)
qed

lemma calls_of_view: "wait_view c = wait_view d \<Longrightarrow> calls_of c = calls_of d"
  by (auto simp: calls_of_def wait_view_def split: option.splits)

lemma end_task_facts:
  assumes inv: "sem_inv (lsem s)" and r: "is_ready t (lkern s)" and valid: "tc_id_valid (tcbs (lkern s) t)"
    and c: "code = NU_FINISHED \<or> code = NU_TERMINATED"
  defines "s' \<equiv> fst (end_task t code s)"
  shows "tc_status (tcbs (lkern s') t) = code" "tc_semaphore_list (lsem s') = tc_semaphore_list (lsem s)"
    "cleanup_calls s' = cleanup_calls s"
    "tc_id_valid (tcbs (lkern s') t) \<longleftrightarrow> \<not> (TCD_Current_Thread (lkern s) = Task_Thread t \<and> tc_auto_clean (tcbs (lkern s) t))"
proof -
  have nr: "code \<noteq> NU_READY" "code \<noteq> NU_DEBUG_SUSPEND" using c by auto
  let ?T = "TCC_Suspend_Task t code None NU_SUSPEND (lkern s)"
  have d: "snd (snd ?T) \<longleftrightarrow> TCD_Current_Thread (lkern s) = Task_Thread t \<and> tc_auto_clean (tcbs (lkern s) t)"
    using r c nr by (auto simp: TCC_Suspend_Task_def Let_def is_ready_def unlink_ready_frames(4))
  define s1 where "s1 = upd_lkern (\<lambda>_. fst ?T) s"
  have s': "s' = (if snd (snd ?T) then fst (NU_Delete_Task (Some t) s1) else s1)"
    by (simp add: s'_def end_task_def split_beta Let_def s1_def)
  have st: "tc_status (tcbs (lkern s1) t) = code" using suspend_sem_inv(2)[OF inv r nr(1)] by (simp add: s1_def)
  have v: "tc_id_valid (tcbs (lkern s1) t)" using valid by (simp add: s1_def)
  have D: "lkern (fst (NU_Delete_Task (Some t) s1)) = upd_tcb (tc_id_valid_update (\<lambda>_. False)) t (lkern s1)"
    "tc_semaphore_list (lsem (fst (NU_Delete_Task (Some t) s1))) = tc_semaphore_list (lsem s1)"
    "cleanup_calls (fst (NU_Delete_Task (Some t) s1)) = cleanup_calls s1"
    using st v c by (auto simp: NU_Delete_Task_def Let_def TCC_Application_Task_Remove_def)
  show "tc_status (tcbs (lkern s') t) = code" "tc_semaphore_list (lsem s') = tc_semaphore_list (lsem s)"
    "cleanup_calls s' = cleanup_calls s"
    "tc_id_valid (tcbs (lkern s') t) \<longleftrightarrow> \<not> (TCD_Current_Thread (lkern s) = Task_Thread t \<and> tc_auto_clean (tcbs (lkern s) t))"
    using D st v d by (simp_all add: s') (simp_all add: s1_def)
qed

lemma NU_Terminate_Task_facts:
  assumes inv: "linv s" and few: "few_semaphores (lsem s)" and valid: "tc_id_valid (tcbs (lkern s) t)"
    and set: "undisturbed t s" and cur: "TCD_Current_Thread (lkern s) = Task_Thread t \<longrightarrow> is_ready t (lkern s)"
  obtains s' sw where "NU_Terminate_Task (Some t) s = Some (s', NU_SUCCESS, sw)" "linv s'" "ended (tcbs (lkern s') t)"
    "\<not> sem_listed (lsem s') t" "tc_semaphore_list (lsem s') t = []"
    "cleanup_calls s' = cleanup_calls s @ calls_of (tcbs (lkern s) t)"
    "tc_id_valid (tcbs (lkern s') t) \<longleftrightarrow> \<not> (TCD_Current_Thread (lkern s) = Task_Thread t \<and> tc_auto_clean (tcbs (lkern s) t))"
proof -
  obtain x where x: "kill_owned t (lsem s) = Some x" "sem_inv x" "tc_semaphore_list x t = []"
    "\<forall>u. tc_id_valid (tcbs (skern x) u) = tc_id_valid (tcbs (lkern s) u) \<and>
       tc_auto_clean (tcbs (skern x) u) = tc_auto_clean (tcbs (lkern s) u)"
    "TCD_Current_Thread (skern x) = TCD_Current_Thread (lkern s)"
    "wait_view (tcbs (skern x) t) = wait_view (tcbs (lkern s) t)"
    "\<forall>u. \<not> sem_listed (lsem s) u \<longrightarrow> wait_view (tcbs (skern x) u) = wait_view (tcbs (lkern s) u) \<and> \<not> sem_listed x u"
    "\<forall>u. sem_listed (lsem s) u \<longrightarrow> sem_listed x u \<or> is_ready u (skern x)"
    using kill_owned_returns[OF linvD(1)[OF inv] few, of t] by blast
  define s1 where "s1 = s\<lparr>lsem := x\<rparr>"
  have i1: "linv s1"
  proof (rule linv_change[OF inv])
    show "tc_status (tcbs (lkern s1) u) = tc_status (tcbs (lkern s) u) \<or> tc_status (tcbs (lkern s1) u) \<in> resting"
      if "\<not> tc_id_valid (tcbs (lkern s) u)" for u
      using linvD(5)[OF inv, of u] that x(7) by (auto simp: s1_def wait_view_def)
  qed (use x in \<open>auto simp: s1_def\<close>)
  have set1: "undisturbed t s1"
  proof -
    have v: "tc_status (tcbs (skern x) t) = tc_status (tcbs (lkern s) t)"
      "tc_signal_active (tcbs (skern x) t) = tc_signal_active (tcbs (lkern s) t)"
      using x(6) by (simp_all add: wait_view_def)
    have "sem_listed x t" if "tc_status (tcbs (lkern s) t) = NU_SEMAPHORE_SUSPEND"
    proof -
      have "sem_listed (lsem s) t" using that set by (simp add: undisturbed_def)
      then have "sem_listed x t \<or> is_ready t (skern x)" using x(8) by simp
      then show ?thesis using that v(1) by (simp add: is_ready_def)
    qed
    then show ?thesis using set by (simp add: undisturbed_def s1_def v)
  qed
  have calls: "calls_of (tcbs (lkern s1) t) = calls_of (tcbs (lkern s) t)" using x(6) by (intro calls_of_view) (simp add: s1_def)
  show ?thesis
  proof (cases "TCD_Current_Thread (lkern s) = Task_Thread t")
    case True
    then have r: "is_ready t (lkern s1)" using cur x(6) by (simp add: s1_def is_ready_def wait_view_def)
    define s2 where "s2 = fst (end_task t NU_TERMINATED s1)"
    have n: "NU_Terminate_Task (Some t) s = Some (s2, NU_SUCCESS, snd (end_task t NU_TERMINATED s1))"
      using valid x(1,5) True by (simp add: NU_Terminate_Task_def s1_def s2_def split_beta)
    note E = end_task_facts[OF linvD(1)[OF i1] r, of NU_TERMINATED, folded s2_def]
    have v1: "tc_id_valid (tcbs (lkern s1) t)" using valid x(4) by (simp add: s1_def)
    have i2: "linv s2" unfolding s2_def by (rule end_task_linv[OF i1 r]) simp
    have "\<not> sem_listed (lsem s2) t" by (rule not_listed[OF linvD(1)[OF i2]]) (simp add: E(1)[OF v1])
    moreover have "calls_of (tcbs (lkern s1) t) = []" using r by (auto simp: calls_of_def is_ready_def split: option.splits)
    then have "calls_of (tcbs (lkern s) t) = []" using calls by simp
    ultimately show ?thesis
      using E[OF v1] i2 x(3,4,5) True by (intro that[OF n]) (simp_all add: ended_def, simp_all add: s1_def)
  next
    case False
    have c1: "TCD_Current_Thread (lkern s1) \<noteq> Task_Thread t" using False x(5) by (simp add: s1_def)
    obtain s2 where L: "terminate_loop t s1 = Some s2" "sem_inv (lsem s2)" "\<not> sem_listed (lsem s2) t" "ended (tcbs (lkern s2) t)"
      "tc_semaphore_list (lsem s2) = tc_semaphore_list (lsem s1)"
      "TCD_Created_Tasks_List s2 = TCD_Created_Tasks_List s1" "TCD_Total_Tasks s2 = TCD_Total_Tasks s1"
      "TCD_App_Task_List s2 = TCD_App_Task_List s1" "TCD_Total_App_Tasks s2 = TCD_Total_App_Tasks s1" "ctrl s2 = ctrl s1"
      "cleanup_calls s2 = cleanup_calls s1 @ calls_of (tcbs (lkern s1) t)"
      "\<forall>u. u \<noteq> t \<longrightarrow> tcbs (lkern s2) u = tcbs (lkern s1) u" "tc_id_valid (tcbs (lkern s2) t) = tc_id_valid (tcbs (lkern s1) t)"
      by (rule terminate_loop_returns[OF linvD(1)[OF i1] set1 c1])
    have n: "NU_Terminate_Task (Some t) s = Some (s2, NU_SUCCESS, False)"
      using valid x(1,5) False L(1) by (simp add: NU_Terminate_Task_def s1_def)
    have ids: "tc_id_valid (tcbs (lkern s2) u) = tc_id_valid (tcbs (lkern s1) u)" for u using L(12,13) by (cases "u = t") auto
    have stat: "\<not> tc_id_valid (tcbs (lkern s1) u) \<Longrightarrow> tc_status (tcbs (lkern s2) u) = tc_status (tcbs (lkern s1) u) \<or>
        tc_status (tcbs (lkern s2) u) \<in> resting" for u
      using L(4,12) by (cases "u = t") (auto simp: ended_def resting_def)
    have "linv s2" by (rule linv_change[OF i1 L(2) ids stat]) (simp_all add: L(6-10))
    then show ?thesis
      using L(3-5) x(3,4) valid False calls L(11) ids[of t] by (intro that[OF n]) (simp_all add: s1_def)
  qed
qed

section \<open>Groups and signals\<close>

lemma TCS_Change_Group_ID_linv:
  assumes inv: "linv s" and valid: "tc_id_valid (tcbs (lkern s) t)" and g: "g = TC_GRP_ID_SYS \<or> g = TC_GRP_ID_APP"
    and old: "tc_grp_id (ctrl s t) = TC_GRP_ID_SYS \<or> tc_grp_id (ctrl s t) = TC_GRP_ID_APP"
  shows "\<exists>s'. TCS_Change_Group_ID t g s = Some (s', tc_grp_id (ctrl s t)) \<and> linv s' \<and> tc_grp_id (ctrl s' t) = g"
proof (cases "tc_grp_id (ctrl s t) = g")
  case True
  then show ?thesis using inv by (simp add: TCS_Change_Group_ID_def)
next
  case False
  have L: "distinct (TCD_App_Task_List s)" "length (TCD_Created_Tasks_List s) < 4294967296"
    "set (TCD_App_Task_List s) = {t. tc_id_valid (tcbs (lkern s) t) \<and> tc_grp_id (ctrl s t) = TC_GRP_ID_APP}"
    "TCD_Total_App_Tasks s = length (TCD_App_Task_List s)" using inv by (simp_all add: linv_def)
  define s' where "s' = (if g = TC_GRP_ID_APP then TCC_Application_Task_Add t (upd_ctrl (tc_grp_id_update (\<lambda>_. g)) t s)
     else TCC_Application_Task_Remove t (upd_ctrl (tc_grp_id_update (\<lambda>_. g)) t s))"
  have app: "t \<in> set (TCD_App_Task_List s) \<longleftrightarrow> g = TC_GRP_ID_SYS"
    using L(3) valid False old g by (auto simp: TC_GRP_ID_SYS_def TC_GRP_ID_APP_def)
  have r: "TCS_Change_Group_ID t g s = Some (s', tc_grp_id (ctrl s t))"
    using False g app by (auto simp: TCS_Change_Group_ID_def s'_def Let_def)
  have "length (t # TCD_App_Task_List s) \<le> length (TCD_Created_Tasks_List s)" if "t \<notin> set (TCD_App_Task_List s)"
  proof -
    have "set (t # TCD_App_Task_List s) \<subseteq> set (TCD_Created_Tasks_List s)" using inv valid by (auto simp: linv_def)
    then have "card (set (t # TCD_App_Task_List s)) \<le> card (set (TCD_Created_Tasks_List s))" by (intro card_mono) auto
    moreover have "distinct (t # TCD_App_Task_List s)" "distinct (TCD_Created_Tasks_List s)" using inv that by (auto simp: linv_def)
    ultimately show ?thesis by (simp only: distinct_card)
  qed
  then have len: "t \<notin> set (TCD_App_Task_List s) \<Longrightarrow> length (TCD_App_Task_List s) < 4294967295" using L(2) by simp
  have d: "dec32 (length (TCD_App_Task_List s)) = length (remove1 t (TCD_App_Task_List s))" if "t \<in> set (TCD_App_Task_List s)"
    using that length_pos_if_in_set[OF that] linv_app_length[OF inv] L(2) by (simp add: dec32_eq length_remove1)
  have S: "lsem s' = lsem s" "TCD_Created_Tasks_List s' = TCD_Created_Tasks_List s" "TCD_Total_Tasks s' = TCD_Total_Tasks s"
    "TCD_App_Task_List s' = (if g = TC_GRP_ID_APP then TCD_App_Task_List s @ [t] else remove1 t (TCD_App_Task_List s))"
    "TCD_Total_App_Tasks s' = (if g = TC_GRP_ID_APP then inc32 (TCD_Total_App_Tasks s) else dec32 (TCD_Total_App_Tasks s))"
    "tc_grp_id (ctrl s' u) = (if u = t then g else tc_grp_id (ctrl s u))" for u
    by (simp_all add: s'_def TCC_Application_Task_Add_def TCC_Application_Task_Remove_def)
  have a: "g = TC_GRP_ID_APP \<longleftrightarrow> g \<noteq> TC_GRP_ID_SYS" using g by (auto simp: TC_GRP_ID_SYS_def TC_GRP_ID_APP_def)
  have "distinct (TCD_App_Task_List s')" using L(1) app a by (simp add: S(4))
  moreover have "set (TCD_App_Task_List s') = {u. tc_id_valid (tcbs (lkern s') u) \<and> tc_grp_id (ctrl s' u) = TC_GRP_ID_APP}"
    using L(1,3) valid by (auto simp: S)
  moreover have "TCD_Total_App_Tasks s' = length (TCD_App_Task_List s')"
    using len d app a by (cases "g = TC_GRP_ID_APP") (simp_all add: S(4,5) L(4) inc32_eq)
  ultimately have "linv s'" using inv by (simp add: linv_def S(1-3))
  then show ?thesis using r by (auto simp: S(6))
qed

text \<open>What the shell does around the handler; the handler's own actions are steps of their own.\<close>

abbreviation idle_handler :: "nat \<Rightarrow> 32 word \<Rightarrow> lsys \<Rightarrow> lsys" where
  "idle_handler \<equiv> \<lambda>_ _ s. s"

lemma signal_loop_idle:
  "signal_loop idle_handler t s = Some s \<or> signal_loop idle_handler t s = Some (upd_ctrl (tc_signals_update (\<lambda>_. 0)) t s)"
proof (cases "tc_signals (ctrl s t) AND tc_enabled_signals (ctrl s t) = 0")
  case True
  then show ?thesis by (simp add: signal_loop_done)
next
  case False
  then have "signal_loop idle_handler t s = Some (upd_ctrl (tc_signals_update (\<lambda>_. 0)) t s)"
    by (subst signal_loop.simps) (simp add: Let_def signal_loop_done)
  then show ?thesis by simp
qed

lemma shell_linv:
  assumes inv: "linv s" and r: "is_ready t (lkern s)"
    and low: "tc_saved_stack_ptr (ctrl s t) \<noteq> NU_NULL \<longrightarrow> low_ready (lkern s)" 
    and sh: "TCD_Current_Thread (lkern s) = Task_Thread t" "TCC_Signal_Shell idle_handler s = Some (s', b)"
  shows "linv s'"
proof -
  obtain s1 where x: "signal_loop idle_handler t s = Some s1" and i1: "linv s1" and k1: "lsem s1 = lsem s"
    and p1: "tc_saved_stack_ptr (ctrl s1 t) = tc_saved_stack_ptr (ctrl s t)"
    using signal_loop_idle[of t s] inv linv_upd_ctrl[OF inv, of "tc_signals_update (\<lambda>_. 0)" t] by fastforce
  define s2 where "s2 = upd_lkern (upd_tcb (tc_signal_active_update (\<lambda>_. False)) t) s1"
  have nl1: "\<not> sem_listed (lsem s1) t" by (rule not_listed[OF linvD(1)[OF i1]]) (use r in \<open>simp add: k1 is_ready_def\<close>)
  have i2: "linv s2" unfolding s2_def
    by (rule linv_upd_tcb[OF i1 nl1 upd_tcb_sched[OF linvD(2)[OF i1]]]) (auto simp: fields_ok_def)
  have r2: "tc_status (tcbs (lkern s2) t) = NU_READY" using r by (simp add: s2_def k1 is_ready_def)
  have nl2: "\<not> sem_listed (lsem s2) t" by (rule not_listed[OF linvD(1)[OF i2]]) (simp add: r2)
  have v2: "tc_id_valid (tcbs (lkern s2) t)" using linvD(4)[OF i2, of t] r2 by (simp add: is_ready_def)
  have sl: "linv (upd_lkern (upd_tcb (\<lambda>c. c\<lparr>tc_cur_time_slice := tc_time_slice c\<rparr>) t) s2)"
    by (rule linv_upd_tcb[OF i2 nl2 upd_tcb_sched[OF linvD(2)[OF i2]]]) auto
  have sus: "linv (upd_lkern (\<lambda>_. resuspended t (lkern s2)) s2)" if "tc_saved_status (tcbs (lkern s2) t) \<noteq> NU_READY"
  proof -
    note R = resuspended_ok[OF linvD(2)[OF i2] r2 that]
    show ?thesis
      by (rule linv_kernel[OF i2 R(1) nl2]) (use R(3) v2 owned_okD(4)[OF linvD(1)[OF i2]] in auto)
  qed
  have exit: "TCCT_Signal_Exit t (upd_lkern (suspend_signalled t) s2) =
      upd_ctrl (\<lambda>e. e\<lparr>tc_stack_pointer := tc_saved_stack_ptr e, tc_return_addr := tc_saved_return_addr e\<rparr>) t
        (upd_lkern (\<lambda>_. resuspended t (lkern s2)) s2)"
    if "low_ready (lkern s2)"
    using suspend_signalled_eq[OF linvD(2)[OF i2] that, of t]
    by (simp add: TCCT_Signal_Exit_def upd_lkern_def upd_skern_def upd_ctrl_def)
  have ready_exit: "TCCT_Signal_Exit t s2 =
      upd_ctrl (\<lambda>e. e\<lparr>tc_stack_pointer := tc_saved_stack_ptr e, tc_return_addr := tc_saved_return_addr e\<rparr>) t
        (upd_lkern (upd_tcb (\<lambda>c. c\<lparr>tc_cur_time_slice := tc_time_slice c\<rparr>) t) s2)"
    by (simp add: TCCT_Signal_Exit_def upd_lkern_def upd_ctrl_def)
  have lw: "low_ready (lkern s2) = low_ready (lkern s)" by (simp add: s2_def k1 low_ready_def)
  have "s' = s2 \<or> (tc_saved_stack_ptr (ctrl s t) \<noteq> NU_NULL \<and> s' = TCCT_Signal_Exit t
      (if tc_saved_status (tcbs (lkern s2) t) \<noteq> NU_READY then upd_lkern (suspend_signalled t) s2 else s2))"
    using sh x p1
    by (auto simp: TCC_Signal_Shell_def Let_def s2_def split: if_splits)
  then show ?thesis
    using i2 sl sus low by (auto simp: lw exit ready_exit intro!: linv_upd_ctrl)
qed

end
