(* ===== verification/Task_Properties.thy ===== *)
theory Task_Properties
  imports Task_Lifecycle
begin

text \<open>
  The services of tasks and signals as steps on one state, the invariant of the reachable states, the effect of
  terminating a task, and the cases where the services leave something of a task behind.
\<close>

unbundle bit_operations_syntax

section \<open>Signal services keep the invariant\<close>

lemma in_line_linv:
  assumes inv: "linv s" and r: "is_ready t (lkern s)" and cur: "TCD_Current_Thread (lkern s) = Task_Thread t"
    and sh: "signal_in_line idle_handler t s = Some (s', b)"
  shows "linv s'"
proof -
  have nl: "\<not> sem_listed (lsem s) t" by (rule not_listed[OF linvD(1)[OF inv]]) (use r in \<open>simp add: is_ready_def\<close>)
  let ?s = "upd_lkern (upd_tcb (tc_signal_active_update (\<lambda>_. True)) t) s"
  have "linv ?s" by (rule linv_upd_tcb[OF inv nl upd_tcb_sched[OF linvD(2)[OF inv]]]) (auto simp: fields_ok_def)
  then have "linv (upd_ctrl (tc_saved_stack_ptr_update (\<lambda>_. NU_NULL)) t ?s)" by (rule linv_upd_ctrl) simp
  then show ?thesis
    by (rule shell_linv) (use r cur sh in \<open>auto simp: is_ready_def signal_in_line_def\<close>)
qed

lemma NU_Control_Signals_linv:
  assumes "linv s" "\<And>t. TCD_Current_Thread (lkern s) = Task_Thread t \<Longrightarrow> is_ready t (lkern s)"
    "NU_Control_Signals idle_handler m s = Some (s', old)"
  shows "linv s'"
proof (cases "TCD_Current_Thread (lkern s)")
  case (Task_Thread t)
  have "linv (upd_ctrl (tc_enabled_signals_update (\<lambda>_. m)) t s)" by (rule linv_upd_ctrl[OF assms(1)]) simp
  then show ?thesis
    using assms(2,3) Task_Thread in_line_linv[of "upd_ctrl (tc_enabled_signals_update (\<lambda>_. m)) t s" t]
    by (auto simp: NU_Control_Signals_def Let_def split: if_splits)
qed (use assms in \<open>auto simp: NU_Control_Signals_def\<close>)

lemma NU_Register_Signal_Handler_linv:
  assumes "linv s" "\<And>t. TCD_Current_Thread (lkern s) = Task_Thread t \<Longrightarrow> is_ready t (lkern s)"
    "NU_Register_Signal_Handler idle_handler h s = Some (s', st)"
  shows "linv s'"
proof (cases "TCD_Current_Thread (lkern s)")
  case (Task_Thread t)
  have "linv (upd_ctrl (tc_signal_handler_update (\<lambda>_. h)) t s)" by (rule linv_upd_ctrl[OF assms(1)]) simp
  then show ?thesis
    using assms Task_Thread in_line_linv[of "upd_ctrl (tc_signal_handler_update (\<lambda>_. h)) t s" t]
    by (auto simp: NU_Register_Signal_Handler_def Let_def split: if_splits)
qed (use assms in \<open>auto simp: NU_Register_Signal_Handler_def\<close>)

lemma NU_Receive_Signals_linv: "linv s \<Longrightarrow> linv (fst (NU_Receive_Signals s))"
  by (auto simp: NU_Receive_Signals_def split: thread.splits intro!: linv_upd_ctrl)

lemma signal_other_linv:
  assumes inv: "linv s" and t: "tc_id_valid (tcbs (lkern s) t)" "\<not> sem_listed (lsem s) t"
  shows "linv (fst (signal_other esal t s))"
proof -
  define s1 where "s1 = upd_lkern (upd_tcb (\<lambda>c. c\<lparr>tc_saved_status := tc_status c\<rparr>) t) s"
  have "linv s1" unfolding s1_def
    by (rule linv_upd_tcb[OF inv t(2) upd_tcb_sched[OF linvD(2)[OF inv]]]) (auto simp: fields_ok_def)
  moreover define s2 where "s2 = upd_ctrl (\<lambda>e. e\<lparr>tc_saved_stack_ptr := tc_stack_pointer e, tc_saved_return_addr := tc_return_addr e,
      tc_stack_pointer := ESAL_GE_STK_Solicited_Set esal (tc_stack_start e) (ESAL_GE_STK_ALIGN (tc_stack_pointer e))\<rparr>) t s1"
  ultimately have l: "linv s2" by (simp add: linv_upd_ctrl)
  have k: "tc_status (tcbs (lkern s2) u) = tc_status (tcbs (lkern s) u)" "sem_listed (lsem s2) u = sem_listed (lsem s) u"
    "tc_id_valid (tcbs (lkern s2) t)" for u
    using t by (simp_all add: s2_def s1_def sem_listed_def)
  have s12: "lsem s2 = lsem s1" by (simp add: s2_def)
  have e: "fst (signal_other esal t s) =
      (if tc_status (tcbs (lkern s2) t) \<noteq> NU_READY \<and> tc_status (tcbs (lkern s2) t) \<noteq> NU_PURE_SUSPEND
       then upd_lkern (\<lambda>_. fst (TCC_Resume_Task t (tc_status (tcbs (lkern s2) t)) (lkern s2))) s2 else s2)"
    using s12 by (simp add: signal_other_def Let_def s1_def[symmetric] s2_def[symmetric] split_beta)
  show ?thesis unfolding e using l resume_linv[OF l k(3)] t k(2) by auto
qed

lemma NU_Send_Signals_linv:
  assumes inv: "linv s" and t: "\<not> sem_listed (lsem s) t"
    and cur: "TCD_Current_Thread (lkern s) = Task_Thread t \<longrightarrow> is_ready t (lkern s)"
    and r: "NU_Send_Signals esal idle_handler (Some t) m s = Some (s', st, sw)"
  shows "linv s'"
proof (cases "tc_id_valid (tcbs (lkern s) t)")
  case True
  define s1 where "s1 = upd_ctrl (\<lambda>e. e\<lparr>tc_signals := tc_signals e OR m\<rparr>) t s"
  have i1: "linv s1" unfolding s1_def by (rule linv_upd_ctrl[OF inv]) simp
  have k1: "lsem s1 = lsem s" by (simp add: s1_def)
  define s2 where "s2 = upd_lkern (upd_tcb (tc_signal_active_update (\<lambda>_. True)) t) s1"
  have i2: "linv s2" unfolding s2_def
    by (rule linv_upd_tcb[OF i1 _ upd_tcb_sched[OF linvD(2)[OF i1]]]) (use t in \<open>auto simp: fields_ok_def k1\<close>)
  have o: "linv (fst (signal_other esal t s2))"
    by (rule signal_other_linv[OF i2]) (use True t in \<open>simp_all add: s2_def k1 sem_listed_def\<close>)
  have "s' = s1 \<or> s' = fst (signal_other esal t s2) \<or>
      (TCD_Current_Thread (lkern s1) = Task_Thread t \<and> (\<exists>b. signal_in_line idle_handler t s1 = Some (s', b)))"
    using r True
    by (auto simp: NU_Send_Signals_def Let_def s1_def[symmetric] s2_def[symmetric] split_beta split: if_splits)
  then show ?thesis using i1 o in_line_linv[OF i1, of t] cur by (auto simp: k1)
qed (use inv r in \<open>simp add: NU_Send_Signals_def\<close>)

section \<open>Steps\<close>

text \<open>
  The calls of the services, the ends of tasks and of signal handlers (the handler's own calls are steps of their own),
  and the steps of the components below that create and delete no task. A signal is not sent to a task that
  waits for a semaphore, and the handler ends when no task of a priority of 64 or more is ready: in the other cases the
  invariant is lost, see below and \<open>signal_exit_loses_ready_tasks\<close>.
\<close>

inductive lstep :: "lsys \<Rightarrow> lsys \<Rightarrow> bool" where
  create: "tc_semaphore_list (lsem s) t = [] \<Longrightarrow> TCD_Total_Tasks s < 4294967295 \<Longrightarrow>
    lstep s (fst (NU_Create_Task esal (Some t) entry argc argv stack sz p sl pre start s))"
| reset: "lstep s (fst (NU_Reset_Task esal task argc argv s))"
| delete: "lstep s (fst (NU_Delete_Task task s))"
| terminate: "few_semaphores (lsem s) \<Longrightarrow> undisturbed t s \<Longrightarrow>
    (TCD_Current_Thread (lkern s) = Task_Thread t \<longrightarrow> is_ready t (lkern s)) \<Longrightarrow>
    NU_Terminate_Task (Some t) s = Some (s', st, sw) \<Longrightarrow> lstep s s'"
| finish: "lstep s (fst (TCC_Task_Shell_return s))"
| group: "tc_id_valid (tcbs (lkern s) t) \<Longrightarrow> {g, tc_grp_id (ctrl s t)} \<subseteq> {TC_GRP_ID_SYS, TC_GRP_ID_APP} \<Longrightarrow>
    TCS_Change_Group_ID t g s = Some (s', old) \<Longrightarrow> lstep s s'"
| receive: "lstep s (fst (NU_Receive_Signals s))"
| control: "(\<And>t. TCD_Current_Thread (lkern s) = Task_Thread t \<Longrightarrow> is_ready t (lkern s)) \<Longrightarrow>
    NU_Control_Signals idle_handler m s = Some (s', o') \<Longrightarrow> lstep s s'"
| register: "(\<And>t. TCD_Current_Thread (lkern s) = Task_Thread t \<Longrightarrow> is_ready t (lkern s)) \<Longrightarrow>
    NU_Register_Signal_Handler idle_handler h s = Some (s', st) \<Longrightarrow> lstep s s'"
| send: "\<not> sem_listed (lsem s) t \<Longrightarrow> (TCD_Current_Thread (lkern s) = Task_Thread t \<longrightarrow> is_ready t (lkern s)) \<Longrightarrow>
    NU_Send_Signals esal idle_handler (Some t) m s = Some (s', st, sw) \<Longrightarrow> lstep s s'"
| handled: "TCD_Current_Thread (lkern s) = Task_Thread t \<Longrightarrow> is_ready t (lkern s) \<Longrightarrow> low_ready (lkern s) \<Longrightarrow>
    TCC_Signal_Shell idle_handler s = Some (s', b) \<Longrightarrow> lstep s s'"
| other: "sstep (lsem s) x \<Longrightarrow> (\<And>u. tc_id_valid (tcbs (skern x) u) = tc_id_valid (tcbs (lkern s) u)) \<Longrightarrow>
    (\<And>u. \<not> tc_id_valid (tcbs (lkern s) u) \<Longrightarrow> tc_status (tcbs (skern x) u) = tc_status (tcbs (lkern s) u)) \<Longrightarrow>
    lstep s (s\<lparr>lsem := x\<rparr>)"

lemma TCC_Task_Shell_return_linv:
  assumes "linv s" shows "linv (fst (TCC_Task_Shell_return s))"
proof (cases "TCD_Execute_Task (lkern s)")
  case (Some t)
  then have "is_ready t (lkern s)" using linvD(2)[OF assms] by (auto simp: sched_inv_def execute_ok_def is_ready_def)
  then show ?thesis using Some end_task_linv[OF assms] by (simp add: TCC_Task_Shell_return_def)
qed (use assms in \<open>simp add: TCC_Task_Shell_return_def\<close>)

lemma lstep_linv: "lstep s s' \<Longrightarrow> linv s \<Longrightarrow> linv s'"
proof (induction rule: lstep.induct)
  case (terminate s t s' st sw)
  show ?case
  proof (cases "tc_id_valid (tcbs (lkern s) t)")
    case True
    show ?thesis by (rule NU_Terminate_Task_facts[OF terminate(5,1) True terminate(2,3)]) (use terminate(4) in auto)
  qed (use terminate in \<open>simp add: NU_Terminate_Task_def\<close>)
next
  case (group s t g s' old)
  then show ?case using TCS_Change_Group_ID_linv[of s t g] by auto
next
  case (send s t esal m s' st sw)
  then show ?case using NU_Send_Signals_linv by blast
next
  case (handled s t s' b)
  then show ?case using shell_linv by blast
next
  case (other s x)
  show ?case by (rule linv_change[OF other(4)]) (use other linvD(1) in \<open>auto intro: sstep_inv\<close>)
qed (auto intro: NU_Create_Task_linv NU_Reset_Task_linv NU_Delete_Task_linv TCC_Task_Shell_return_linv NU_Receive_Signals_linv
    NU_Control_Signals_linv NU_Register_Signal_Handler_linv)

lemma lsteps_linv: "lstep\<^sup>*\<^sup>* s s' \<Longrightarrow> linv s \<Longrightarrow> linv s'"
  by (induction rule: rtranclp_induct) (auto intro: lstep_linv)

section \<open>Properties\<close>

text \<open>
  C29. From a state with the invariant \<open>linv\<close>, the lists of tasks agree with the control blocks after any sequence of:
  creation (fewer than \<open>2^32 - 1\<close> tasks, a control block that owns no semaphore), reset, deletion, return of an entry
  function, termination of a task in no signal handler that, if its status is waiting for a semaphore, is on a list
  (with fewer than 255 semaphores), moves between the groups of system and application tasks, signal services of ready
  tasks, but no signal to a task that waits for a semaphore, ends of signal handlers with no ready task of priority 64
  or more, and steps as in \<open>semaphores_consistent\<close> that create, delete and ready no task not created. (Else the
  agreement can be lost, cf. \<open>terminate_in_handler_loses_unit\<close>.) The list of created tasks has each task with a valid
  identification once, the total is its length, the list of application tasks has the created tasks of that
  group, and only created tasks are on a ready list or wait for a semaphore.
\<close>

theorem tasks_consistent:
  assumes "linv s0" "lstep\<^sup>*\<^sup>* s0 s"
  shows "distinct (TCD_Created_Tasks_List s) \<and> (t \<in> set (TCD_Created_Tasks_List s) \<longleftrightarrow> tc_id_valid (tcbs (lkern s) t)) \<and>
    TCD_Total_Tasks s = length (TCD_Created_Tasks_List s) \<and> distinct (TCD_App_Task_List s) \<and>
    (t \<in> set (TCD_App_Task_List s) \<longleftrightarrow> tc_id_valid (tcbs (lkern s) t) \<and> tc_grp_id (ctrl s t) = TC_GRP_ID_APP) \<and>
    TCD_Total_App_Tasks s = length (TCD_App_Task_List s) \<and> sched_inv (lkern s) \<and>
    (t \<notin> set (TCD_Created_Tasks_List s) \<longrightarrow>
       (\<forall>p. t \<notin> set (TCD_Priority_List (lkern s) p)) \<and> \<not> sem_listed (lsem s) t)"
proof -
  have l: "linv s" by (rule lsteps_linv[OF assms(2,1)])
  have "t \<notin> set (TCD_Priority_List (lkern s) p)" if "\<not> is_ready t (lkern s)" for p
    using linvD(2)[OF l] that ready_ok_mem[of "ready_set (lkern s)" "lkern s" t p]
    by (auto simp: sched_inv_def ready_set_def is_ready_def)
  then show ?thesis using l linvD(2,4,5)[OF l] by (auto simp: linv_def)
qed

text \<open>
  C30. While fewer than 255 semaphores exist (the 8-bit count of the semaphores a task owns then cannot wrap to 0), and in a
  state with the invariant \<open>linv\<close>, terminating a created task that runs no signal handler, that is on the list of a
  semaphore if its status says it waits for one, and that is ready if it is the current one, always returns, and takes the
  task out of the system: it is on no ready list, waits on no semaphore and owns none, and the clean-up routine of the object
  it was suspended on has run exactly once, with the information given at the suspension; the invariant is kept.
\<close>

theorem NU_Terminate_Task_effect:
  assumes "linv s" "few_semaphores (lsem s)" "tc_id_valid (tcbs (lkern s) t)" "undisturbed t s"
    "TCD_Current_Thread (lkern s) = Task_Thread t \<longrightarrow> is_ready t (lkern s)"
  shows "\<exists>s' sw. NU_Terminate_Task (Some t) s = Some (s', NU_SUCCESS, sw) \<and> linv s' \<and>
    tc_status (tcbs (lkern s') t) \<in> {NU_FINISHED, NU_TERMINATED} \<and> (\<forall>p. t \<notin> set (TCD_Priority_List (lkern s') p)) \<and>
    \<not> sem_listed (lsem s') t \<and> tc_semaphore_list (lsem s') t = [] \<and>
    cleanup_calls s' = cleanup_calls s @ calls_of (tcbs (lkern s) t)"
proof -
  obtain s' sw where T: "NU_Terminate_Task (Some t) s = Some (s', NU_SUCCESS, sw)" "linv s'" "ended (tcbs (lkern s') t)"
    "\<not> sem_listed (lsem s') t" "tc_semaphore_list (lsem s') t = []"
    "cleanup_calls s' = cleanup_calls s @ calls_of (tcbs (lkern s) t)"
    by (rule NU_Terminate_Task_facts[OF assms])
  have "t \<notin> set (TCD_Priority_List (lkern s') p)" for p
    using linvD(2)[OF T(2)] T(3) ready_ok_mem[of "ready_set (lkern s')" "lkern s'" t p]
    by (auto simp: sched_inv_def ready_set_def ended_def)
  then show ?thesis using T by (auto simp: ended_def)
qed

section \<open>What is left behind\<close>

lemma end_ready:
  assumes "tc_status (tcbs (lkern s) t) = NU_READY" "TCD_Current_Thread (lkern s) \<noteq> Task_Thread t"
  defines "k \<equiv> fst (TCC_Suspend_Task t NU_TERMINATED None NU_SUSPEND (lkern s))"
  shows "fst (end_task t NU_TERMINATED s) = upd_lkern (\<lambda>_. k) s"
    "tcbs k = (tcbs (lkern s))(t := (tcbs (lkern s) t)\<lparr>tc_status := NU_TERMINATED, tc_cleanup := None,
       tc_cur_time_slice := tc_time_slice (tcbs (lkern s) t)\<rparr>)"
proof -
  have "\<not> snd (snd (TCC_Suspend_Task t NU_TERMINATED None NU_SUSPEND (lkern s)))"
    using assms(1,2) by (simp add: TCC_Suspend_Task_def Let_def)
  then show "fst (end_task t NU_TERMINATED s) = upd_lkern (\<lambda>_. k) s" by (simp add: end_task_def k_def split_beta)
  show "tcbs k = (tcbs (lkern s))(t := (tcbs (lkern s) t)\<lparr>tc_status := NU_TERMINATED, tc_cleanup := None,
       tc_cur_time_slice := tc_time_slice (tcbs (lkern s) t)\<rparr>)"
    using assms(1) by (simp add: k_def TCC_Suspend_Task_def Let_def)
qed

text \<open>A task that runs the handler of a signal sent while it waited for the semaphore \<open>sp\<close>, the first of its list.\<close>

definition handles_signal_waiting :: "tid \<Rightarrow> addr \<Rightarrow> lsys \<Rightarrow> bool" where
  "handles_signal_waiting t sp s \<longleftrightarrow> tc_id_valid (tcbs (lkern s) t) \<and> tc_status (tcbs (lkern s) t) = NU_READY \<and>
     tc_signal_active (tcbs (lkern s) t) \<and> tc_saved_status (tcbs (lkern s) t) = NU_SEMAPHORE_SUSPEND \<and>
     tc_semaphore_count (tcbs (lkern s) t) = 0 \<and> sp \<noteq> NU_NULL \<and> sm_id_valid (sems (lsem s) sp) \<and>
     sm_suspend_type (sems (lsem s) sp) \<noteq> NU_PRIORITY_INHERIT \<and> sm_semaphore_count (sems (lsem s) sp) = 0 \<and>
     sm_tasks_waiting (sems (lsem s) sp) \<noteq> 0 \<and> (\<exists>ts. sm_suspension_list (sems (lsem s) sp) = t # ts)"

text \<open>
  C40. A task that is terminated while it runs the handler of a signal that interrupted its wait for a semaphore stays on
  the list of the semaphore, because its clean-up routine is not called: the next release gives the unit to the
  terminated task, and it is lost.
\<close>

theorem terminate_in_handler_loses_unit:
  assumes w: "handles_signal_waiting t sp s" and cur: "TCD_Current_Thread (lkern s) \<noteq> Task_Thread t"
  shows "\<exists>s1 x sw. NU_Terminate_Task (Some t) s = Some (s1, NU_SUCCESS, False) \<and>
    tc_status (tcbs (lkern s1) t) = NU_TERMINATED \<and> sems (lsem s1) = sems (lsem s) \<and>
    NU_Release_Semaphore sp (lsem s1) = (x, NU_SUCCESS, sw) \<and> sm_semaphore_count (sems x sp) = 0 \<and>
    sm_suspension_list (sems x sp) = tl (sm_suspension_list (sems (lsem s) sp)) \<and>
    (\<forall>u. tc_status (tcbs (skern x) u) = tc_status (tcbs (lkern s1) u))"
proof -
  note W = w[unfolded handles_signal_waiting_def]
  have r: "tc_status (tcbs (lkern s) t) = NU_READY" using W by blast
  define k where "k = fst (TCC_Suspend_Task t NU_TERMINATED None NU_SUSPEND (lkern s))"
  note E = end_ready[OF r cur, folded k_def]
  define s1 where "s1 = upd_lkern (\<lambda>_. k) s"
  have k1: "lkern s1 = k" "sems (lsem s1) = sems (lsem s)" by (simp_all add: s1_def)
  have "ended (tcbs (lkern s1) t)" by (simp add: k1 E(2) ended_def)
  then have "terminate_loop t s = Some s1"
    using r by (subst terminate_loop.simps) (simp add: Let_def E(1) s1_def[symmetric] terminate_loop_done)
  moreover have "kill_owned t (lsem s) = Some (lsem s)" using W by (subst kill_owned.simps) simp
  ultimately have n: "NU_Terminate_Task (Some t) s = Some (s1, NU_SUCCESS, False)"
    using W cur by (simp add: NU_Terminate_Task_def)
  obtain ts where ts: "sm_suspension_list (sems (lsem s) sp) = t # ts" using W by blast
  define x where "x = fst (NU_Release_Semaphore sp (lsem s1))"
  have stat: "tc_status (tcbs (fst (TCC_Resume_Task t NU_SEMAPHORE_SUSPEND k)) u) = tc_status (tcbs k u)" for u
    by (cases "u = t") (simp_all add: TCC_Resume_Task_def Let_def E(2))
  have rel: "NU_Release_Semaphore sp (lsem s1) = (x, NU_SUCCESS, snd (snd (NU_Release_Semaphore sp (lsem s1))))"
    "sm_semaphore_count (sems x sp) = 0" "sm_suspension_list (sems x sp) = ts"
    "\<forall>u. tc_status (tcbs (skern x) u) = tc_status (tcbs (lkern s1) u)"
    using W ts stat
    by (simp_all add: x_def NU_Release_Semaphore_def smc_release_semaphore_def Let_def k1 split_beta inc32_eq)
  show ?thesis using n rel ts by (intro exI[of _ s1] exI[of _ x]) (auto simp: k1 E(2))
qed

text \<open>
  A task that returns from its entry function while it owns a semaphore with priority inheritance keeps it, and
  \<open>NU_Delete_Task\<close> succeeds on it, although its description promises \<open>NU_INVALID_DELETE\<close>: the semaphore is owned by a task that
  is not created any more, and no release by another task is accepted.
\<close>

theorem deleted_task_owns_semaphore:
  assumes inv: "linv s" and run: "TCD_Execute_Task (lkern s) = Some t" and nac: "\<not> tc_auto_clean (tcbs (lkern s) t)"
    and own: "sp \<in> set (tc_semaphore_list (lsem s) t)" "sp \<noteq> NU_NULL"
    and cnt: "inc32 (sm_semaphore_count (sems (lsem s) sp)) \<noteq> 0"
  shows "\<exists>s1 sw s2. TCC_Task_Shell_return s = (s1, sw) \<and> NU_Delete_Task (Some t) s1 = (s2, NU_SUCCESS, False) \<and>
    \<not> tc_id_valid (tcbs (lkern s2) t) \<and> sm_semaphore_owner (sems (lsem s2) sp) = Some t \<and>
    (\<forall>x. sems x = sems (lsem s2) \<and> current_task (skern x) \<noteq> t \<longrightarrow>
       NU_Release_Semaphore sp x = (x, NU_SEMAPHORE_INVALID_OWNER, False))"
proof -
  have r: "is_ready t (lkern s)" using linvD(2)[OF inv] run by (auto simp: sched_inv_def execute_ok_def is_ready_def)
  define s1 where "s1 = fst (end_task t NU_FINISHED s)"
  note E = end_task_facts[OF linvD(1)[OF inv] r linvD(4)[OF inv r], of NU_FINISHED, simplified, folded s1_def]
  have sems: "sems (lsem s1) = sems (lsem s)"
    by (simp add: s1_def end_task_def split_beta Let_def NU_Delete_Task_def TCC_Application_Task_Remove_def)
  have ac: "tc_auto_clean (tcbs (lkern s1) t) = tc_auto_clean (tcbs (lkern s) t)"
    using r nac by (simp add: s1_def end_task_def split_beta Let_def TCC_Suspend_Task_def is_ready_def)
  define s2 where "s2 = fst (NU_Delete_Task (Some t) s1)"
  have D: "NU_Delete_Task (Some t) s1 = (s2, NU_SUCCESS, False)" "\<not> tc_id_valid (tcbs (lkern s2) t)" "sems (lsem s2) = sems (lsem s1)"
    using E(1,4) ac nac by (simp_all add: s2_def NU_Delete_Task_def Let_def TCC_Application_Task_Remove_def)
  have O: "sm_id_valid (sems (lsem s) sp)" "sm_suspend_type (sems (lsem s) sp) = NU_PRIORITY_INHERIT"
    "sm_semaphore_owner (sems (lsem s) sp) = Some t" using owned_okD(5)[OF linvD(1)[OF inv] own(1)] by auto
  have "NU_Release_Semaphore sp x = (x, NU_SEMAPHORE_INVALID_OWNER, False)"
    if "sems x = sems (lsem s2)" "current_task (skern x) \<noteq> t" for x
    using that O own(2) cnt by (simp add: NU_Release_Semaphore_def smc_release_semaphore_def D(3) sems)
  moreover have "TCC_Task_Shell_return s = (s1, snd (end_task t NU_FINISHED s))"
    using run by (simp add: TCC_Task_Shell_return_def s1_def)
  ultimately show ?thesis using D(1,2) O(3) D(3) sems by metis
qed

text \<open>
  \<open>NU_Reset_Task\<close> leaves the flag of a signal handler in progress set: a task that was terminated inside its handler,
  reset and resumed runs from its entry function, but no service lets it suspend, and no signal sent to it calls
  its handler.
\<close>

theorem reset_keeps_signal_active:
  assumes c: "c = tcbs (lkern s) t" "tc_id_valid c" "tc_status c = NU_TERMINATED" "tc_signal_active c"
  shows "\<exists>s1 k sw. NU_Reset_Task esal (Some t) argc argv s = (s1, NU_SUCCESS) \<and>
    NU_Resume_Task (Some t) (lkern s1) = (NU_SUCCESS, k, sw) \<and> tc_status (tcbs k t) = NU_READY \<and>
    TCCE_Suspend_Error (k\<lparr>TCD_Current_Thread := Task_Thread t\<rparr>) \<and>
    NU_Send_Signals esal handler (Some t) sig (upd_lkern (\<lambda>_. k) s1) =
      Some (upd_ctrl (\<lambda>e. e\<lparr>tc_signals := tc_signals e OR sig\<rparr>) t (upd_lkern (\<lambda>_. k) s1), NU_SUCCESS, False)"
proof -
  define s1 where "s1 = fst (NU_Reset_Task esal (Some t) argc argv s)"
  have r: "NU_Reset_Task esal (Some t) argc argv s = (s1, NU_SUCCESS)"
    "tcbs (lkern s1) t = c\<lparr>tc_status := NU_PURE_SUSPEND, tc_delayed_suspend := False, tc_debug_suspend := NU_READY\<rparr>"
    using c by (simp_all add: s1_def NU_Reset_Task_def Let_def)
  define k where "k = fst (lift_suspension t (lkern s1))"
  have res: "NU_Resume_Task (Some t) (lkern s1) = (NU_SUCCESS, k, snd (lift_suspension t (lkern s1)))"
    using c(2,4) r(2) by (simp add: NU_Resume_Task_def TCCE_Validate_Resume_def TCC_Resume_Task_def Let_def k_def)
  have kt: "tcbs k t = c\<lparr>tc_status := NU_READY, tc_delayed_suspend := False, tc_debug_suspend := NU_READY\<rparr>"
    by (simp add: k_def lift_suspension_tcbs r(2))
  have "NU_Send_Signals esal handler (Some t) sig (upd_lkern (\<lambda>_. k) s1) =
      Some (upd_ctrl (\<lambda>e. e\<lparr>tc_signals := tc_signals e OR sig\<rparr>) t (upd_lkern (\<lambda>_. k) s1), NU_SUCCESS, False)"
    using c(2,4) by (simp add: NU_Send_Signals_def Let_def kt)
  then show ?thesis using r(1) res c(4) by (simp add: kt TCCE_Suspend_Error_def)
qed

text \<open>The start of a new task touches no other task, and its ready list is that of its priority.\<close>

lemma resume_fresh:
  assumes c: "tcbs k t = (new_tcb p n b)\<lparr>tc_id_valid := True\<rparr>"
  shows "tcbs (fst (TCC_Resume_Task t NU_PURE_SUSPEND k)) = (tcbs k)(t := (tcbs k t)\<lparr>tc_status := NU_READY\<rparr>)"
    "TCD_Priority_List (fst (TCC_Resume_Task t NU_PURE_SUSPEND k)) = (TCD_Priority_List k)(p := TCD_Priority_List k p @ [t])"
    "TCD_Priority_List k p = [] \<Longrightarrow> p < TCD_Highest_Priority k \<Longrightarrow> TCD_Execute_Task k = None \<Longrightarrow>
       TCD_Execute_Task (fst (TCC_Resume_Task t NU_PURE_SUSPEND k)) = Some t"
    "snd (TCC_Resume_Task t NU_PURE_SUSPEND k) \<Longrightarrow> TCD_Execute_Task (fst (TCC_Resume_Task t NU_PURE_SUSPEND k)) = Some t"
  by (simp_all add: TCC_Resume_Task_def Let_def c new_tcb_def lift_suspension_tcbs lift_suspension_lists)
     (auto simp: lift_suspension_def Let_def c new_tcb_def split: option.splits if_splits)

text \<open>
  C34. Creating a task with valid arguments adds it to the end of the list of created tasks and changes no other control block;
  with \<open>NU_START\<close> it is ready, at the end of the ready list of its priority, otherwise it is suspended and on no list;
  control is given up only if the new task is the one to execute.
\<close>

theorem NU_Create_Task_effect:
  assumes "linv s" "tc_semaphore_list (lsem s) t = []" "TCD_Total_Tasks s < 4294967295"
    "\<not> tc_id_valid (tcbs (lkern s) t)" "entry \<noteq> NU_NULL" "stack \<noteq> NU_NULL" "250 \<le> sz" "p < 256"
  shows "\<exists>s' sw. NU_Create_Task esal (Some t) entry argc argv stack sz p sl (Some pre) (Some start) s = (s', NU_SUCCESS, sw) \<and>
    linv s' \<and> TCD_Created_Tasks_List s' = TCD_Created_Tasks_List s @ [t] \<and>
    tcbs (lkern s') = (tcbs (lkern s))(t := (new_tcb p sl pre)
      \<lparr>tc_id_valid := True, tc_status := if start then NU_READY else NU_PURE_SUSPEND\<rparr>) \<and>
    TCD_Priority_List (lkern s') = (TCD_Priority_List (lkern s))
      (p := TCD_Priority_List (lkern s) p @ (if start then [t] else [])) \<and>
    (sw \<longrightarrow> TCD_Execute_Task (lkern s') = Some t)"
proof -
  define x where "x = NU_Create_Task esal (Some t) entry argc argv stack sz p sl (Some pre) (Some start) s"
  have l: "linv (fst x)" unfolding x_def by (rule NU_Create_Task_linv[OF assms(1-3)])
  define s1 where "s1 = build_task t (new_tcb p sl pre) (new_control esal entry argc argv stack sz) s"
  note B = build_task_facts[of t "new_tcb p sl pre" "new_control esal entry argc argv stack sz" s, folded s1_def]
  have c: "tcbs (lkern s1) t = (new_tcb p sl pre)\<lparr>tc_id_valid := True\<rparr>" by (simp add: B(1))
  have xs: "x = (if start then (upd_lkern (\<lambda>_. fst (TCC_Resume_Task t NU_PURE_SUSPEND (lkern s1))) s1, NU_SUCCESS,
      snd (TCC_Resume_Task t NU_PURE_SUSPEND (lkern s1))) else (s1, NU_SUCCESS, False))"
    using NU_Create_Task_created[OF assms(4-8)] by (simp add: x_def s1_def Let_def split_beta)
  have st: "(new_tcb p sl pre)\<lparr>tc_id_valid := True, tc_status := NU_PURE_SUSPEND\<rparr> = (new_tcb p sl pre)\<lparr>tc_id_valid := True\<rparr>"
    by (simp add: new_tcb_def)
  have "TCD_Priority_List (lkern s1) = TCD_Priority_List (lkern s)" by (simp add: B(5))
  then have "fst (snd x) = NU_SUCCESS \<and> TCD_Created_Tasks_List (fst x) = TCD_Created_Tasks_List s @ [t] \<and>
    tcbs (lkern (fst x)) = (tcbs (lkern s))(t := (new_tcb p sl pre)
      \<lparr>tc_id_valid := True, tc_status := if start then NU_READY else NU_PURE_SUSPEND\<rparr>) \<and>
    TCD_Priority_List (lkern (fst x)) = (TCD_Priority_List (lkern s))
      (p := TCD_Priority_List (lkern s) p @ (if start then [t] else [])) \<and>
    (snd (snd x) \<longrightarrow> TCD_Execute_Task (lkern (fst x)) = Some t)"
    using resume_fresh[OF c] by (simp add: xs B(1,6) st)
  then show ?thesis using l unfolding x_def[symmetric] by (cases x) auto
qed

section \<open>Concrete runs\<close>

definition no_tasks :: lsys where
  "no_tasks = tasks_on (initial_kernel (\<lambda>_. new_tcb 31 0 True) (tm kernel0))"

lemma no_tasks_simps [simp]:
  "tcbs (lkern no_tasks) = (\<lambda>_. new_tcb 31 0 True)" "TCD_Current_Thread (lkern no_tasks) = No_Thread"
  "tc_semaphore_list (lsem no_tasks) = (\<lambda>_. [])" "\<not> sm_id_valid (sems (lsem no_tasks) sp)"
  "TCD_Created_Tasks_List no_tasks = []" "TCD_Total_Tasks no_tasks = 0" "cleanup_calls no_tasks = []"
  by (simp_all add: no_tasks_def tasks_on_def initial_kernel_def)

lemma no_tasks_linv: "linv no_tasks"
proof -
  have "sched_inv (lkern no_tasks)" unfolding no_tasks_def tasks_on_simps
    by (rule initial_inv) (simp add: dormant_def new_tcb_ok, simp add: new_tcb_def)
  then have "sem_inv (lsem no_tasks)" by (simp add: sem_inv_def owned_ok_def new_tcb_def)
  then show ?thesis by (simp add: linv_def new_tcb_def resting_def) (simp add: no_tasks_def tasks_on_def)
qed

definition one_task :: lsys where
  "one_task = fst (NU_Create_Task esal0 (Some 3) 8192 0 0 4096 512 31 0 (Some True) (Some True) no_tasks)"

lemma one_task_step: "lstep no_tasks one_task"
  unfolding one_task_def by (rule lstep.create) simp_all

lemma one_task_linv: "linv one_task"
  by (rule lstep_linv[OF one_task_step no_tasks_linv])

lemma one_task_simps [simp]:
  "tcbs (lkern one_task) = (\<lambda>_. new_tcb 31 0 True)(3 := (new_tcb 31 0 True)\<lparr>tc_id_valid := True, tc_status := NU_READY\<rparr>)"
  "TCD_Current_Thread (lkern one_task) = No_Thread" "TCD_Created_Tasks_List one_task = [3]"
  "sems (lsem one_task) = sems (lsem no_tasks)" "tc_semaphore_list (lsem one_task) = (\<lambda>_. [])"
  "cleanup_calls one_task = []" "TCD_Execute_Task (lkern one_task) = Some 3"
proof -
  have n: "\<not> tc_id_valid (tcbs (lkern no_tasks) 3)" by (simp add: new_tcb_def)
  note C = NU_Create_Task_created[OF n, of 8192 4096 512 31 esal0 0 0 0 True True, simplified]
  define s where "s = build_task 3 (new_tcb 31 0 True) (new_control esal0 8192 0 0 4096 512) no_tasks"
  note B = build_task_facts[of 3 "new_tcb 31 0 True" "new_control esal0 8192 0 0 4096 512" no_tasks, folded s_def]
  have o: "one_task = upd_lkern (\<lambda>_. fst (TCC_Resume_Task 3 NU_PURE_SUSPEND (lkern s))) s"
    using C by (simp add: one_task_def Let_def split_beta s_def)
  have "tcbs (lkern s) 3 = (new_tcb 31 0 True)\<lparr>tc_id_valid := True\<rparr>" by (simp add: B(1))
  note R = resume_fresh[OF this]
  show "tcbs (lkern one_task) = (\<lambda>_. new_tcb 31 0 True)(3 := (new_tcb 31 0 True)\<lparr>tc_id_valid := True, tc_status := NU_READY\<rparr>)"
    by (simp add: o R B(1))
  have "TCD_Priority_List (lkern s) 31 = []" "TCD_Highest_Priority (lkern s) = 256" "TCD_Execute_Task (lkern s) = None"
    by (simp_all add: B(5)) (simp_all add: no_tasks_def initial_kernel_def TC_PRIORITIES_def)
  then show "TCD_Execute_Task (lkern one_task) = Some 3" by (simp add: o R(3))
  show "TCD_Current_Thread (lkern one_task) = No_Thread" by (simp add: o B(5))
  show "TCD_Created_Tasks_List one_task = [3]" "sems (lsem one_task) = sems (lsem no_tasks)"
    "tc_semaphore_list (lsem one_task) = (\<lambda>_. [])" by (simp_all add: o B fun_eq_iff)
  have "cleanup_calls s = []" by (simp add: s_def build_task_def Let_def)
  then show "cleanup_calls one_task = []" by (simp add: o)
qed

theorem NU_Create_Task_effect_witness:
  "\<exists>s' sw. NU_Create_Task esal0 (Some 4) 8192 0 0 4096 512 31 0 (Some True) (Some True) one_task = (s', NU_SUCCESS, sw) \<and>
     tc_status (tcbs (lkern s') 4) = NU_READY \<and> TCD_Created_Tasks_List s' = [3, 4]"
proof -
  have "TCD_Total_Tasks one_task < 4294967295" using one_task_linv by (simp add: linv_def)
  moreover have "\<not> tc_id_valid (tcbs (lkern one_task) 4)" by (simp add: new_tcb_def)
  ultimately show ?thesis
    using NU_Create_Task_effect[OF one_task_linv, of 4 8192 4096 512 31 esal0 0 0 0 True True] by fastforce
qed

theorem tasks_consistent_witness:
  "TCD_Total_Tasks one_task = 1 \<and> tc_id_valid (tcbs (lkern one_task) 3)"
  using tasks_consistent[OF no_tasks_linv, of one_task 3] one_task_step by auto

theorem NU_Terminate_Task_effect_witness:
  "\<exists>s' sw. NU_Terminate_Task (Some 3) one_task = Some (s', NU_SUCCESS, sw) \<and> cleanup_calls s' = [] \<and>
     3 \<notin> set (TCD_Priority_List (lkern s') 31)"
proof -
  have "calls_of (tcbs (lkern one_task) 3) = []" by (simp add: calls_of_def new_tcb_def)
  then show ?thesis
    using NU_Terminate_Task_effect[OF one_task_linv, of 3]
    by (auto simp: few_semaphores_def undisturbed_def new_tcb_def)
qed

text \<open>Task 3 runs and owns semaphore 7.\<close>

definition one_running :: lsys where
  "one_running = one_task\<lparr>lsem := (lsem one_task)\<lparr>skern := (lkern one_task)\<lparr>TCD_Current_Thread := Task_Thread 3\<rparr>\<rparr>\<rparr>"

definition one_semaphore :: lsys where
  "one_semaphore = one_running\<lparr>lsem := fst (NU_Create_Semaphore 7 1 (Some NU_PRIORITY_INHERIT) (lsem one_running))\<rparr>"

definition one_owner :: lsys where
  "one_owner = one_semaphore\<lparr>lsem := fst (NU_Obtain_Semaphore 7 0 (lsem one_semaphore))\<rparr>"

lemma one_owner_simps:
  "tcbs (lkern one_owner) = (tcbs (lkern one_task))(3 := (tcbs (lkern one_task) 3)\<lparr>tc_semaphore_count := 1\<rparr>)"
  "TCD_Execute_Task (lkern one_owner) = Some 3" "tc_semaphore_list (lsem one_owner) = (\<lambda>_. [])(3 := [7])"
  "sm_semaphore_count (sems (lsem one_owner) 7) = 0"
  by (simp_all add: one_owner_def one_semaphore_def one_running_def NU_Obtain_Semaphore_def NU_Create_Semaphore_def
      own_def Let_def current_task_def dec32_def inc8_def new_tcb_def fun_eq_iff)

lemma one_owner_linv: "linv one_owner"
proof -
  have inv: "sem_inv (lsem one_task)" by (rule linvD(1)[OF one_task_linv])
  have k: "sched_inv ((lkern one_task)\<lparr>TCD_Current_Thread := Task_Thread 3\<rparr>)"
    using linvD(2)[OF one_task_linv] by (simp add: sched_inv_def ready_ok_def ready_set_def highest_ok_def execute_ok_def cong: option.case_cong)
  have a: "lstep one_task one_running" unfolding one_running_def
    by (rule lstep.other[OF sstep.kernel[OF k]]) (use owned_okD(4)[OF inv] in simp_all)
  have b: "lstep one_running one_semaphore" unfolding one_semaphore_def
    by (rule lstep.other[OF sstep.create]) (simp_all add: NU_Create_Semaphore_def)
  have few: "few (lsem one_semaphore)"
    by (simp add: few_def one_semaphore_def one_running_def NU_Create_Semaphore_def) (simp add: no_tasks_def tasks_on_def)
  have c: "lstep one_semaphore one_owner" unfolding one_owner_def
  proof (rule lstep.other[OF sstep.obtain_sem[OF few]])
    let ?k = "skern (fst (NU_Obtain_Semaphore 7 0 (lsem one_semaphore)))"
    have "lkern one_owner = ?k" by (simp add: one_owner_def)
    then have "tcbs ?k = (tcbs (lkern one_task))(3 := (tcbs (lkern one_task) 3)\<lparr>tc_semaphore_count := 1\<rparr>)"
      using one_owner_simps(1) by simp
    moreover have "tcbs (lkern one_semaphore) = tcbs (lkern one_task)"
      by (simp add: one_semaphore_def one_running_def NU_Create_Semaphore_def)
    ultimately show "tc_id_valid (tcbs ?k u) = tc_id_valid (tcbs (lkern one_semaphore) u)"
      "tc_status (tcbs ?k u) = tc_status (tcbs (lkern one_semaphore) u)" for u by simp_all
  qed simp
  show ?thesis by (intro lstep_linv[OF c] lstep_linv[OF b] lstep_linv[OF a] one_task_linv)
qed

theorem deleted_task_owns_semaphore_witness:
  "\<exists>s1 sw s2. TCC_Task_Shell_return one_owner = (s1, sw) \<and> NU_Delete_Task (Some 3) s1 = (s2, NU_SUCCESS, False) \<and>
     \<not> tc_id_valid (tcbs (lkern s2) 3) \<and> sm_semaphore_owner (sems (lsem s2) 7) = Some 3"
proof -
  have "\<not> tc_auto_clean (tcbs (lkern one_owner) 3)" by (simp add: one_owner_simps new_tcb_def)
  moreover have "inc32 (sm_semaphore_count (sems (lsem one_owner) 7)) \<noteq> 0" by (simp add: one_owner_simps inc32_def)
  moreover have "7 \<in> set (tc_semaphore_list (lsem one_owner) 3)" by (simp add: one_owner_simps)
  ultimately show ?thesis
    using deleted_task_owns_semaphore[OF one_owner_linv one_owner_simps(2), of 7] by auto
qed

definition dead_handler :: lsys where
  "dead_handler = tasks_on (upd_tcb (\<lambda>c. c\<lparr>tc_status := NU_TERMINATED, tc_signal_active := True\<rparr>) 5 kernel2)"

theorem reset_keeps_signal_active_witness:
  "\<exists>s1 k sw. NU_Reset_Task esal0 (Some 5) 0 0 dead_handler = (s1, NU_SUCCESS) \<and>
     NU_Resume_Task (Some 5) (lkern s1) = (NU_SUCCESS, k, sw) \<and>
     TCCE_Suspend_Error (k\<lparr>TCD_Current_Thread := Task_Thread 5\<rparr>)"
  using reset_keeps_signal_active[of "tcbs (lkern dead_handler) 5" dead_handler 5 esal0 0 0 handler0 0]
  by (auto simp: dead_handler_def task0_def)

text \<open>Task 2 waited for semaphore 8 and runs the handler of a signal; task 1 is the running task.\<close>

definition handling :: lsys where
  "handling = (tasks_on (upd_tcb (\<lambda>c. c\<lparr>tc_signal_active := True, tc_saved_status := NU_SEMAPHORE_SUSPEND\<rparr>) 2 kernel2))
     \<lparr>lsem := (lsem (tasks_on (upd_tcb (\<lambda>c. c\<lparr>tc_signal_active := True, tc_saved_status := NU_SEMAPHORE_SUSPEND\<rparr>) 2 kernel2)))
       \<lparr>sems := (\<lambda>_. \<lparr>sm_id_valid = True, sm_semaphore_count = 0, sm_suspend_type = NU_FIFO, sm_owner_killed = False,
          sm_semaphore_owner = None, sm_tasks_waiting = 1, sm_suspension_list = [2]\<rparr>)\<rparr>\<rparr>"

theorem terminate_in_handler_loses_unit_witness:
  "\<exists>s1 x sw. NU_Terminate_Task (Some 2) handling = Some (s1, NU_SUCCESS, False) \<and>
     NU_Release_Semaphore 8 (lsem s1) = (x, NU_SUCCESS, sw) \<and> sm_semaphore_count (sems x 8) = 0 \<and>
     sm_suspension_list (sems x 8) = []"
proof -
  have "handles_signal_waiting 2 8 handling" by (simp add: handles_signal_waiting_def handling_def task0_def)
  moreover have "TCD_Current_Thread (lkern handling) \<noteq> Task_Thread 2" by (simp add: handling_def)
  moreover have "tl (sm_suspension_list (sems (lsem handling) 8)) = []" by (simp add: handling_def)
  ultimately show ?thesis using terminate_in_handler_loses_unit[of 2 8 handling] by fastforce
qed

end
