(* ===== verification/HISR_Scheduling.thy ===== *)
theory HISR_Scheduling
  imports Tasks
begin

text \<open>
  High-level interrupt service routines (HISRs) and the scheduler (\<open>tcct_common.c\<close>, \<open>tcct_create.c\<close>,
  \<open>tcc_delete_hisr.c\<close>): threads above all tasks, with three priorities, each a chain of activated HISRs between a head and a
  tail pointer, and a count of activations. The entry function of a HISR is application code: a parameter
  that maps the number of the function and the state, with a state of the application behind it, to a state. Interrupts
  during an entry function are part of what it does.
\<close>

section \<open>Data\<close>

definition TC_HISR_PRIORITIES :: nat where "TC_HISR_PRIORITIES = 3"
definition TC_MAX_HISR_ACTIVATIONS :: nat where "TC_MAX_HISR_ACTIVATIONS = 0xFFFFFFFF"

record hcb =
  hc_id_valid :: bool
  hc_priority :: nat
  hc_scheduled :: nat
  hc_stack_start :: nat
  hc_stack_end :: nat
  hc_stack_pointer :: nat
  hc_stack_size :: nat
  hc_grp_id :: nat
  hc_active_next :: "addr option"
  hc_activation_count :: nat
  hc_entry :: nat

record hsys =
  hcbs :: "addr \<Rightarrow> hcb"
  TCD_Active_HISR_Heads :: "nat \<Rightarrow> addr option"
  TCD_Active_HISR_Tails :: "nat \<Rightarrow> addr option"
  TCD_Highest_Priority_HISR :: nat
  TCD_Execute_HISR :: "addr option"
  TCD_Created_HISRs_List :: "addr list"
  TCD_Total_HISRs :: nat
  TCD_Schedule_Lock :: bool
  TCD_Return_To_Scheduler :: bool
  isr_executing :: bool
  unsolicited_switch :: bool
  current_hisr :: "addr option"
  TCD_Current_App_Task :: "tid option"
  tasks :: lsys

record hisr_target = target +
  ESAL_GE_STK_SOLICITED_RESET :: "nat \<Rightarrow> nat \<Rightarrow> nat"

definition upd_hcb :: "(hcb \<Rightarrow> hcb) \<Rightarrow> addr \<Rightarrow> hsys \<Rightarrow> hsys" where
  "upd_hcb f h s = s\<lparr>hcbs := (hcbs s)(h := f (hcbs s h))\<rparr>"

lemma upd_hcb_simps [simp]:
  "hcbs (upd_hcb f h s) = (hcbs s)(h := f (hcbs s h))"
  "TCD_Active_HISR_Heads (upd_hcb f h s) = TCD_Active_HISR_Heads s"
  "TCD_Active_HISR_Tails (upd_hcb f h s) = TCD_Active_HISR_Tails s"
  "TCD_Highest_Priority_HISR (upd_hcb f h s) = TCD_Highest_Priority_HISR s"
  "TCD_Execute_HISR (upd_hcb f h s) = TCD_Execute_HISR s" "current_hisr (upd_hcb f h s) = current_hisr s"
  "TCD_Created_HISRs_List (upd_hcb f h s) = TCD_Created_HISRs_List s" "TCD_Total_HISRs (upd_hcb f h s) = TCD_Total_HISRs s"
  "tasks (upd_hcb f h s) = tasks s" "TCD_Schedule_Lock (upd_hcb f h s) = TCD_Schedule_Lock s"
  "isr_executing (upd_hcb f h s) = isr_executing s"
  by (simp_all add: upd_hcb_def)

section \<open>Creation and deletion\<close>

definition new_hcb :: "hisr_target \<Rightarrow> nat \<Rightarrow> nat \<Rightarrow> nat \<Rightarrow> nat \<Rightarrow> hcb" where
  "new_hcb esal entry priority stack_address stack_size =
    (let stack_end = ESAL_GE_STK_ALIGN (add32 stack_address stack_size)
     in \<lparr>hc_id_valid = True, hc_priority = priority, hc_scheduled = 0, hc_stack_start = stack_address,
         hc_stack_end = stack_end, hc_stack_pointer = ESAL_GE_STK_Solicited_Set esal stack_address stack_end,
         hc_stack_size = stack_size, hc_grp_id = TC_GRP_ID_SYS, hc_active_next = None, hc_activation_count = 0,
         hc_entry = entry\<rparr>)"

definition NU_Create_HISR ::
    "hisr_target \<Rightarrow> addr \<Rightarrow> nat \<Rightarrow> nat \<Rightarrow> nat \<Rightarrow> nat \<Rightarrow> hsys \<Rightarrow> hsys \<times> status" where
  "NU_Create_HISR esal hisr hisr_entry priority stack_address stack_size s =
    (let status = error_checks
           [(hisr = NU_NULL \<or> hc_id_valid (hcbs s hisr), NU_INVALID_HISR),
            (hisr_entry = NU_NULL, NU_INVALID_ENTRY),
            (stack_address = NU_NULL, NU_INVALID_MEMORY),
            (stack_size < NU_MIN_STACK_SIZE, NU_INVALID_SIZE),
            (TC_HISR_PRIORITIES \<le> priority, NU_INVALID_PRIORITY)] NU_SUCCESS
     in if status = NU_SUCCESS
        then ((upd_hcb (\<lambda>_. new_hcb esal hisr_entry priority stack_address stack_size) hisr s)
               \<lparr>TCD_Created_HISRs_List := TCD_Created_HISRs_List s @ [hisr],
                TCD_Total_HISRs := inc32 (TCD_Total_HISRs s)\<rparr>, NU_SUCCESS)
        else (s, status))"

definition NU_Delete_HISR :: "addr \<Rightarrow> hsys \<Rightarrow> hsys \<times> status" where
  "NU_Delete_HISR hisr s =
    (let status = error_checks [(hisr = NU_NULL \<or> \<not> hc_id_valid (hcbs s hisr), NU_INVALID_HISR)] NU_SUCCESS
     in if status = NU_SUCCESS
        then (upd_hcb (hc_id_valid_update (\<lambda>_. False)) hisr
               (s\<lparr>TCD_Created_HISRs_List := remove1 hisr (TCD_Created_HISRs_List s),
                  TCD_Total_HISRs := dec32 (TCD_Total_HISRs s)\<rparr>), NU_SUCCESS)
        else (s, status))"

text \<open>The current thread is a HISR, and no interrupt is served.\<close>

definition NU_Current_HISR_Pointer :: "hsys \<Rightarrow> addr option" where
  "NU_Current_HISR_Pointer s =
    (case current_hisr s of
       None \<Rightarrow> None
     | Some h \<Rightarrow> if hc_id_valid (hcbs s h) \<and> \<not> isr_executing s then Some h else None)"

section \<open>Activation\<close>

definition first_activation :: "addr \<Rightarrow> hsys \<Rightarrow> hsys" where
  "first_activation hisr s =
    (let hisr_priority = hc_priority (hcbs s hisr)
     in case TCD_Active_HISR_Tails s hisr_priority of
          Some tail \<Rightarrow>
            (let s1 = upd_hcb (hc_active_next_update (\<lambda>_. Some hisr)) tail s
             in s1\<lparr>TCD_Active_HISR_Tails := (TCD_Active_HISR_Tails s1)(hisr_priority := Some hisr)\<rparr>)
        | None \<Rightarrow>
            (let s1 = s\<lparr>TCD_Active_HISR_Heads := (TCD_Active_HISR_Heads s)(hisr_priority := Some hisr),
                        TCD_Active_HISR_Tails := (TCD_Active_HISR_Tails s)(hisr_priority := Some hisr)\<rparr>
             in if hisr_priority < TCD_Highest_Priority_HISR s1 then
                  (let s2 = s1\<lparr>TCD_Execute_HISR := Some hisr, TCD_Highest_Priority_HISR := hisr_priority\<rparr>
                   in if \<not> TCD_Schedule_Lock s2
                      then (if isr_executing s2 then s2\<lparr>unsolicited_switch := True\<rparr> else s2)
                      else s2\<lparr>TCD_Return_To_Scheduler := True\<rparr>)
                else s1))"

definition NU_Activate_HISR :: "addr \<Rightarrow> hsys \<Rightarrow> hsys \<times> status" where
  "NU_Activate_HISR hisr s =
    (let status = error_checks
           [(hisr = NU_NULL, NU_INVALID_HISR), (\<not> hc_id_valid (hcbs s hisr), NU_INVALID_HISR),
            (TC_MAX_HISR_ACTIVATIONS \<le> hc_activation_count (hcbs s hisr), NU_HISR_ACTIVATION_COUNT_ERROR)] NU_SUCCESS
     in if status = NU_SUCCESS
        then (let s1 = upd_hcb (hc_activation_count_update inc32) hisr s
              in (if hc_activation_count (hcbs s1 hisr) = 1 then first_activation hisr s1 else s1, NU_SUCCESS))
        else (s, status))"

section \<open>The scheduler\<close>

text \<open>
  The thread chosen, the HISR to execute before the task to execute; with neither the processor waits for an
  interrupt, which starts the scheduler again.
\<close>

definition TCCT_Schedule :: "hsys \<Rightarrow> hsys" where
  "TCCT_Schedule s =
    (let s1 = s\<lparr>TCD_Return_To_Scheduler := False, current_hisr := None,
                tasks := upd_lkern (\<lambda>k. k\<lparr>TCD_Current_Thread := No_Thread\<rparr>) (tasks s)\<rparr>
     in case TCD_Execute_HISR s1 of
          Some h \<Rightarrow>
            upd_hcb (hc_scheduled_update inc32) h
              (s1\<lparr>current_hisr := Some h, tasks := upd_lkern (\<lambda>k. k\<lparr>TCD_Current_Thread := HISR_Thread\<rparr>) (tasks s1)\<rparr>)
        | None \<Rightarrow>
            (case TCD_Execute_Task (lkern (tasks s1)) of
               None \<Rightarrow> s1
             | Some t \<Rightarrow>
                 s1\<lparr>TCD_Current_App_Task := (if tc_grp_id (ctrl (tasks s1) t) = TC_GRP_ID_APP then Some t
                                             else TCD_Current_App_Task s1),
                    tasks := upd_ctrl (tc_scheduled_update inc32) t
                      (upd_lkern (\<lambda>k. k\<lparr>TCD_Current_Thread := Task_Thread t\<rparr>) (tasks s1))\<rparr>))"

section \<open>The execution shell of a HISR\<close>

partial_function (option) activation_loop ::
    "(nat \<Rightarrow> hsys \<times> 'e \<Rightarrow> hsys \<times> 'e) \<Rightarrow> hsys \<times> 'e \<Rightarrow> (hsys \<times> 'e) option" where
  [code]: "activation_loop entry x =
    (case current_hisr (fst x) of
       None \<Rightarrow> None
     | Some h \<Rightarrow>
         if hc_activation_count (hcbs (fst x) h) \<noteq> 0 then
           (let (s1, e1) = entry (hc_entry (hcbs (fst x) h)) x
            in case current_hisr s1 of
                 None \<Rightarrow> None
               | Some h1 \<Rightarrow> activation_loop entry (upd_hcb (hc_activation_count_update dec32) h1 s1, e1))
         else Some x)"

function next_priority :: "(nat \<Rightarrow> addr option) \<Rightarrow> nat \<Rightarrow> nat" where
  "next_priority heads p = (if heads p = None \<and> p < TC_HISR_PRIORITIES then next_priority heads (p + 1) else p)"
  by auto
termination by (relation "measure (\<lambda>(_, p). TC_HISR_PRIORITIES - p)") auto

declare next_priority.simps [simp del]

definition leave_list :: "addr \<Rightarrow> hsys \<Rightarrow> hsys" where
  "leave_list h s =
    (let hisr_priority = hc_priority (hcbs s h)
     in if TCD_Active_HISR_Tails s hisr_priority = Some h then
          (let s1 = s\<lparr>TCD_Active_HISR_Heads := (TCD_Active_HISR_Heads s)(hisr_priority := None),
                      TCD_Active_HISR_Tails := (TCD_Active_HISR_Tails s)(hisr_priority := None)\<rparr>;
               s2 = (if hisr_priority = TCD_Highest_Priority_HISR s1
                     then s1\<lparr>TCD_Highest_Priority_HISR :=
                            next_priority (TCD_Active_HISR_Heads s1) (TCD_Highest_Priority_HISR s1 + 1)\<rparr>
                     else s1)
           in s2\<lparr>TCD_Execute_HISR := TCD_Active_HISR_Heads s2 (TCD_Highest_Priority_HISR s2)\<rparr>)
        else
          (let s1 = s\<lparr>TCD_Active_HISR_Heads := (TCD_Active_HISR_Heads s)(hisr_priority := hc_active_next (hcbs s h))\<rparr>
           in s1\<lparr>TCD_Execute_HISR := TCD_Active_HISR_Heads s1 hisr_priority\<rparr>))"

definition TCCT_HISR_Shell ::
    "hisr_target \<Rightarrow> (nat \<Rightarrow> hsys \<times> 'e \<Rightarrow> hsys \<times> 'e) \<Rightarrow> hsys \<times> 'e \<Rightarrow> (hsys \<times> 'e) option" where
  "TCCT_HISR_Shell esal entry x =
    (case activation_loop entry x of
       None \<Rightarrow> None
     | Some (s, e) \<Rightarrow>
         (case current_hisr s of
            None \<Rightarrow> None
          | Some h \<Rightarrow>
              Some (TCCT_Schedule
                (upd_hcb (\<lambda>c. c\<lparr>hc_stack_pointer :=
                     ESAL_GE_STK_SOLICITED_RESET esal (hc_stack_start c) (hc_stack_end c)\<rparr>) h (leave_list h s)), e)))"

section \<open>The chains of activated HISRs\<close>

text \<open>
  The chains as lists. The HISRs on them are those with activations; one more, \<open>R\<close>, is there between its last activation and its
  removal.
\<close>

definition chained :: "hsys \<Rightarrow> addr list \<Rightarrow> bool" where
  "chained s xs \<longleftrightarrow> distinct xs \<and> successively (\<lambda>a b. hc_active_next (hcbs s a) = Some b) xs"

definition active_lists :: "addr set \<Rightarrow> hsys \<Rightarrow> (nat \<Rightarrow> addr list) \<Rightarrow> bool" where
  "active_lists R s L \<longleftrightarrow>
     (\<forall>p < 3. chained s (L p) \<and> TCD_Active_HISR_Heads s p = list_head (L p) \<and>
        TCD_Active_HISR_Tails s p = (if L p = [] then None else Some (last (L p))) \<and>
        set (L p) = {h. (hc_activation_count (hcbs s h) \<noteq> 0 \<or> h \<in> R) \<and> hc_priority (hcbs s h) = p}) \<and>
     (\<forall>h. hc_activation_count (hcbs s h) \<noteq> 0 \<or> h \<in> R \<longrightarrow> hc_priority (hcbs s h) < 3) \<and>
     (\<forall>h. hc_activation_count (hcbs s h) < 4294967296 \<and> (hc_id_valid (hcbs s h) \<longrightarrow> hc_priority (hcbs s h) < 3)) \<and>
     TCD_Active_HISR_Heads s 3 = None \<and> TCD_Highest_Priority_HISR s \<le> 3 \<and>
     (\<forall>p < TCD_Highest_Priority_HISR s. L p = []) \<and>
     (TCD_Highest_Priority_HISR s < 3 \<longrightarrow> L (TCD_Highest_Priority_HISR s) \<noteq> [])"

definition executes_highest :: "hsys \<Rightarrow> bool" where
  "executes_highest s \<longleftrightarrow> TCD_Execute_HISR s = TCD_Active_HISR_Heads s (TCD_Highest_Priority_HISR s)"

lemma active_listsD:
  assumes "active_lists R s L" "p < 3"
  shows "chained s (L p)" "TCD_Active_HISR_Heads s p = list_head (L p)"
    "TCD_Active_HISR_Tails s p = (if L p = [] then None else Some (last (L p)))"
    "h \<in> set (L p) \<longleftrightarrow> (hc_activation_count (hcbs s h) \<noteq> 0 \<or> h \<in> R) \<and> hc_priority (hcbs s h) = p"
  using assms unfolding active_lists_def by auto

lemma active_lists_highest:
  assumes "active_lists R s L"
  shows "TCD_Highest_Priority_HISR s \<le> 3" "p < TCD_Highest_Priority_HISR s \<Longrightarrow> L p = []"
    "TCD_Highest_Priority_HISR s < 3 \<Longrightarrow> L (TCD_Highest_Priority_HISR s) \<noteq> []"
    "TCD_Active_HISR_Heads s 3 = None" "hc_activation_count (hcbs s h) < 4294967296"
    "hc_id_valid (hcbs s h) \<Longrightarrow> hc_priority (hcbs s h) < 3"
  using assms by (auto simp: active_lists_def)

lemma chained_upd: "a \<notin> set xs \<Longrightarrow> chained (upd_hcb f a s) xs = chained s xs"
  unfolding chained_def by (intro arg_cong2[where f = "(\<and>)"] refl successively_cong) auto

lemma chain_snoc:
  "xs \<noteq> [] \<Longrightarrow> distinct (xs @ [h]) \<Longrightarrow> successively (\<lambda>a b. nx a = Some b) xs \<Longrightarrow>
   successively (\<lambda>a b. (nx(last xs := Some h)) a = Some b) (xs @ [h])"
  by (induction xs rule: induct_list012) (auto split: if_splits)

lemma chained_snoc:
  assumes "chained s xs" "h \<notin> set xs" "xs \<noteq> []"
  shows "chained (upd_hcb (hc_active_next_update (\<lambda>_. Some h)) (last xs) s) (xs @ [h])"
proof -
  have "successively (\<lambda>a b. ((\<lambda>a. hc_active_next (hcbs s a))(last xs := Some h)) a = Some b) (xs @ [h])"
    by (rule chain_snoc) (use assms in \<open>auto simp: chained_def\<close>)
  moreover have "((\<lambda>a. hc_active_next (hcbs s a))(last xs := Some h)) =
      (\<lambda>a. hc_active_next (((hcbs s)(last xs := (hcbs s (last xs))\<lparr>hc_active_next := Some h\<rparr>)) a))" by auto
  ultimately show ?thesis using assms by (simp add: chained_def)
qed

text \<open>A change of the control blocks that keeps what the chains consist of.\<close>

definition hisr_view :: "hcb \<Rightarrow> bool \<times> nat \<times> addr option" where
  "hisr_view c = (hc_id_valid c, hc_priority c, hc_active_next c)"

lemma active_lists_view:
  assumes "active_lists R s L" "\<And>h. hisr_view (hcbs s' h) = hisr_view (hcbs s h)"
    "\<And>h. (hc_activation_count (hcbs s' h) \<noteq> 0 \<or> h \<in> R') = (hc_activation_count (hcbs s h) \<noteq> 0 \<or> h \<in> R)"
    "\<And>h. hc_activation_count (hcbs s' h) < 4294967296"
    "TCD_Active_HISR_Heads s' = TCD_Active_HISR_Heads s" "TCD_Active_HISR_Tails s' = TCD_Active_HISR_Tails s"
    "TCD_Highest_Priority_HISR s' = TCD_Highest_Priority_HISR s"
  shows "active_lists R' s' L"
  using assms(1) assms(2,4) unfolding active_lists_def assms(3,5-7) by (simp add: chained_def hisr_view_def)

lemma activate_again:
  assumes l: "active_lists {} s L" and h: "hc_activation_count (hcbs s h) \<noteq> 0" "hc_activation_count (hcbs s h) < 4294967295"
  shows "active_lists {} (upd_hcb (hc_activation_count_update inc32) h s) L"
  by (rule active_lists_view[OF l]) (use h active_lists_highest(5)[OF l] in \<open>auto simp: hisr_view_def inc32_eq\<close>)

lemma activate_first:
  assumes l: "active_lists {} s L" and h: "hc_activation_count (hcbs s h) = 0" "hc_id_valid (hcbs s h)"
    and p: "p = hc_priority (hcbs s h)"
  defines "s' \<equiv> first_activation h (upd_hcb (hc_activation_count_update inc32) h s)"
  shows "active_lists {} s' (L(p := L p @ [h]))" "executes_highest s \<Longrightarrow> executes_highest s'"
    "TCD_Execute_HISR s' = (if L p = [] \<and> p < TCD_Highest_Priority_HISR s then Some h else TCD_Execute_HISR s)"
    "TCD_Highest_Priority_HISR s' = min p (TCD_Highest_Priority_HISR s)"
    "current_hisr s' = current_hisr s" "hcbs s' x = (hcbs s x)
      \<lparr>hc_activation_count := (if x = h then 1 else hc_activation_count (hcbs s x)),
       hc_active_next := (if L p \<noteq> [] \<and> x = last (L p) then Some h else hc_active_next (hcbs s x))\<rparr>"
proof -
  have p3: "p < 3" using active_lists_highest(6)[OF l h(2)] p by simp
  note D = active_listsD[OF l]
  note H = active_lists_highest[OF l]
  have new: "h \<notin> set (L q)" if "q < 3" for q using D(4)[OF that] h(1) by simp
  have hp: "L p = [] \<Longrightarrow> p \<noteq> TCD_Highest_Priority_HISR s" using H(3) p3 by auto
  have i: "inc32 0 = 1" by (simp add: inc32_def)
  define s1 where "s1 = upd_hcb (hc_activation_count_update inc32) h s"
  have t: "TCD_Active_HISR_Tails s1 p = (if L p = [] then None else Some (last (L p)))" using D(3)[OF p3] by (simp add: s1_def)
  have c1: "chained s1 (L q)" if "q < 3" for q using D(1)[OF that] new[OF that] by (simp add: s1_def chained_upd)
  have k: "s' = (if L p \<noteq> [] then (upd_hcb (hc_active_next_update (\<lambda>_. Some h)) (last (L p)) s1)
         \<lparr>TCD_Active_HISR_Tails := (TCD_Active_HISR_Tails s)(p := Some h)\<rparr>
       else first_activation h s1)"
    using t by (auto simp: s'_def s1_def[symmetric] first_activation_def Let_def) (simp_all add: s1_def p)
  have e: "TCD_Active_HISR_Heads s' = (if L p \<noteq> [] then TCD_Active_HISR_Heads s else (TCD_Active_HISR_Heads s)(p := Some h))"
    "TCD_Active_HISR_Tails s' = (TCD_Active_HISR_Tails s)(p := Some h)"
    using t p by (auto simp: k first_activation_def Let_def s1_def)
  show x: "TCD_Execute_HISR s' = (if L p = [] \<and> p < TCD_Highest_Priority_HISR s then Some h else TCD_Execute_HISR s)"
    using t p by (auto simp: k first_activation_def Let_def s1_def)
  show g: "TCD_Highest_Priority_HISR s' = min p (TCD_Highest_Priority_HISR s)"
    using t p H(2)[of p] by (auto simp: k first_activation_def Let_def s1_def)
  show "current_hisr s' = current_hisr s" using t p by (auto simp: k first_activation_def Let_def s1_def)
  show b: "hcbs s' x = (hcbs s x)
      \<lparr>hc_activation_count := (if x = h then 1 else hc_activation_count (hcbs s x)),
       hc_active_next := (if L p \<noteq> [] \<and> x = last (L p) then Some h else hc_active_next (hcbs s x))\<rparr>" for x
    using t p h(1) i by (auto simp: k first_activation_def Let_def s1_def)
  show "executes_highest s'" if "executes_highest s"
    using that hp H(2)[of p] by (auto simp: executes_highest_def x g e min_def)
  have ch: "chained s' ((L(p := L p @ [h])) q)" if q: "q < 3" for q
  proof (cases "L p = []")
    case True
    then show ?thesis using c1[OF q] t p by (auto simp: chained_def k first_activation_def Let_def s1_def)
  next
    case False
    then have "last (L p) \<in> set (L p)" by simp
    then have "last (L p) \<notin> set (L q)" if "q \<noteq> p" using D(4)[OF p3] D(4)[OF q] that by auto
    then show ?thesis
      using chained_snoc[OF c1[OF p3] new[OF p3] False] c1[OF q] chained_upd[of "last (L p)" "L q" _ s1] False
      by (simp add: k chained_def)
  qed
  show "active_lists {} s' (L(p := L p @ [h]))"
    unfolding active_lists_def
  proof (intro conjI allI impI)
    fix q :: nat assume q: "q < 3"
    show "chained s' ((L(p := L p @ [h])) q)" by (rule ch[OF q])
    show "TCD_Active_HISR_Heads s' q = list_head ((L(p := L p @ [h])) q)"
      using D(2)[OF q] by (cases "L p") (auto simp: e)
    show "TCD_Active_HISR_Tails s' q = (if (L(p := L p @ [h])) q = [] then None else Some (last ((L(p := L p @ [h])) q)))"
      using D(3)[OF q] by (simp add: e)
    show "set ((L(p := L p @ [h])) q) = {x. (hc_activation_count (hcbs s' x) \<noteq> 0 \<or> x \<in> {}) \<and> hc_priority (hcbs s' x) = q}"
      using D(4)[OF q] h(1) p by (auto simp: b)
  next
    show "TCD_Active_HISR_Heads s' 3 = None" using H(4) p3 by (auto simp: e)
    show "TCD_Highest_Priority_HISR s' \<le> 3" using H(1) by (simp add: g)
    show "(L(p := L p @ [h])) q = []" if "q < TCD_Highest_Priority_HISR s'" for q using that H(2)[of q] by (auto simp: g)
    show "(L(p := L p @ [h])) (TCD_Highest_Priority_HISR s') \<noteq> []" using H(3) p3 by (auto simp: g min_def)
    show "hc_priority (hcbs s' x) < 3" if "hc_activation_count (hcbs s' x) \<noteq> 0 \<or> x \<in> {}" for x
      using that l p3 p by (auto simp: b active_lists_def split: if_splits)
    show "hc_activation_count (hcbs s' x) < 4294967296" for x using H(5)[of x] by (simp add: b)
    show "hc_priority (hcbs s' x) < 3" if "hc_id_valid (hcbs s' x)" for x using that H(6)[of x] by (simp add: b)
  qed
qed

lemma next_priority_spec:
  assumes "q \<le> 3"
  shows "q \<le> next_priority heads q \<and> next_priority heads q \<le> 3 \<and> (\<forall>i. q \<le> i \<and> i < next_priority heads q \<longrightarrow> heads i = None) \<and>
    (next_priority heads q < 3 \<longrightarrow> heads (next_priority heads q) \<noteq> None)"
  using assms
proof (induction heads q rule: next_priority.induct)
  case (1 heads q)
  show ?case
  proof (cases "heads q = None \<and> q < TC_HISR_PRIORITIES")
    case True
    then show ?thesis using 1 by (subst (1 2 3 4 5) next_priority.simps) (auto simp: TC_HISR_PRIORITIES_def Suc_le_eq dest: le_neq_implies_less)
  next
    case False
    then have "next_priority heads q = q" by (subst next_priority.simps) auto
    then show ?thesis using 1(2) False by (auto simp: TC_HISR_PRIORITIES_def)
  qed
qed

lemma leave_list_ok:
  assumes l: "active_lists {h} s L" and h: "hc_activation_count (hcbs s h) = 0"
    and p: "p = hc_priority (hcbs s h)" "L p = h # ts"
  defines "s' \<equiv> leave_list h s"
  shows "active_lists {} s' (L(p := ts))" "hcbs s' = hcbs s" "current_hisr s' = current_hisr s"
    "p = TCD_Highest_Priority_HISR s \<or> ts = [] \<Longrightarrow> executes_highest s'"
    "ts \<noteq> [] \<Longrightarrow> TCD_Execute_HISR s' = Some (hd ts) \<and> TCD_Highest_Priority_HISR s' = TCD_Highest_Priority_HISR s"
proof -
  have p3: "p < 3" using l p(1) unfolding active_lists_def by blast
  note D = active_listsD[OF l]
  note H = active_lists_highest[OF l]
  have dis: "distinct (h # ts)" and nx: "ts \<noteq> [] \<Longrightarrow> hc_active_next (hcbs s h) = Some (hd ts)" and cts: "chained s ts"
    using D(1)[OF p3] p(2) by (auto simp: chained_def successively_Cons)
  have t: "TCD_Active_HISR_Tails s p = Some h \<longleftrightarrow> ts = []"
    using D(3)[OF p3] dis p(2) last_in_set[of ts] by auto
  define g where "g = (if ts = [] \<and> p = TCD_Highest_Priority_HISR s
     then next_priority ((TCD_Active_HISR_Heads s)(p := None)) (p + 1) else TCD_Highest_Priority_HISR s)"
  have f: "TCD_Active_HISR_Heads s' = (TCD_Active_HISR_Heads s)(p := list_head ts)"
    "TCD_Active_HISR_Tails s' = (if ts = [] then (TCD_Active_HISR_Tails s)(p := None) else TCD_Active_HISR_Tails s)"
    "TCD_Highest_Priority_HISR s' = g"
    "TCD_Execute_HISR s' = (if ts = [] then TCD_Active_HISR_Heads s' g else Some (hd ts))"
    using t nx by (cases ts; simp add: s'_def leave_list_def Let_def p(1)[symmetric] g_def)+
  show v: "hcbs s' = hcbs s" "current_hisr s' = current_hisr s" by (simp_all add: s'_def leave_list_def Let_def)
  show "executes_highest s'" if "p = TCD_Highest_Priority_HISR s \<or> ts = []"
    using that by (cases ts) (auto simp: executes_highest_def f g_def)
  show "TCD_Execute_HISR s' = Some (hd ts) \<and> TCD_Highest_Priority_HISR s' = TCD_Highest_Priority_HISR s" if "ts \<noteq> []"
    using that by (simp add: f g_def)
  have hq: "((TCD_Active_HISR_Heads s)(p := None)) q = None \<longleftrightarrow> (L(p := ts)) q = []" if "q < 3" "ts = []" for q
    using D(2)[OF that(1)] that(2) by (cases "L q") auto
  have G: "g \<le> 3" "q < g \<Longrightarrow> (L(p := ts)) q = []" "g < 3 \<Longrightarrow> (L(p := ts)) g \<noteq> []" for q
  proof -
    show "g \<le> 3" using H(1) next_priority_spec[of "p + 1"] p3 by (auto simp: g_def)
    show "(L(p := ts)) q = []" if "q < g"
      using that H(2)[of q] p hq[of q] next_priority_spec[of "p + 1" "(TCD_Active_HISR_Heads s)(p := None)"] p3
      by (cases "q < p"; cases "q = p"; auto simp: g_def split: if_splits)
    show "(L(p := ts)) g \<noteq> []" if "g < 3"
      using that H(3) hq[of g] next_priority_spec[of "p + 1" "(TCD_Active_HISR_Heads s)(p := None)"] p3
      by (auto simp: g_def split: if_splits)
  qed
  show "active_lists {} s' (L(p := ts))" unfolding active_lists_def
  proof (intro conjI allI impI)
    fix q :: nat assume q: "q < 3"
    show "chained s' ((L(p := ts)) q)" using cts D(1)[OF q] by (simp add: chained_def v)
    show "TCD_Active_HISR_Heads s' q = list_head ((L(p := ts)) q)" using D(2)[OF q] by (simp add: f)
    show "TCD_Active_HISR_Tails s' q = (if (L(p := ts)) q = [] then None else Some (last ((L(p := ts)) q)))"
      using D(3)[OF q] p(2) by (simp add: f)
    show "set ((L(p := ts)) q) = {x. (hc_activation_count (hcbs s' x) \<noteq> 0 \<or> x \<in> {}) \<and> hc_priority (hcbs s' x) = q}"
    proof (cases "q = p")
      case True
      have "set ts = set (L p) - {h}" using dis p(2) by auto
      then show ?thesis using True D(4)[OF p3] h by (auto simp: v)
    next
      case False
      then show ?thesis using D(4)[OF q] p(1) by (auto simp: v)
    qed
  next
    show "TCD_Active_HISR_Heads s' 3 = None" using H(4) p3 by (simp add: f)
    show "TCD_Highest_Priority_HISR s' \<le> 3" using G(1) by (simp add: f)
    show "(L(p := ts)) q = []" if "q < TCD_Highest_Priority_HISR s'" for q using G(2) that by (simp add: f)
    show "(L(p := ts)) (TCD_Highest_Priority_HISR s') \<noteq> []" if "TCD_Highest_Priority_HISR s' < 3" using G(3) that by (simp add: f)
    show "hc_priority (hcbs s' x) < 3" if "hc_activation_count (hcbs s' x) \<noteq> 0 \<or> x \<in> {}" for x
      using that l by (simp add: v active_lists_def)
    show "hc_activation_count (hcbs s' x) < 4294967296" for x using H(5) by (simp add: v)
    show "hc_priority (hcbs s' x) < 3" if "hc_id_valid (hcbs s' x)" for x using that H(6) by (simp add: v)
  qed
qed

section \<open>The invariant\<close>

definition hisr_inv :: "hsys \<Rightarrow> bool" where
  "hisr_inv s \<longleftrightarrow> (\<exists>L. active_lists {} s L) \<and>
     (TCD_Execute_HISR s = None \<longleftrightarrow> (\<forall>h. hc_activation_count (hcbs s h) = 0)) \<and>
     (\<forall>h. TCD_Execute_HISR s = Some h \<or> current_hisr s = Some h \<longrightarrow>
        hc_activation_count (hcbs s h) \<noteq> 0 \<and> TCD_Active_HISR_Heads s (hc_priority (hcbs s h)) = Some h)"

text \<open>An entry function may activate HISRs, and be interrupted by others, as long as its HISR runs again at the end.\<close>

definition entry_keeps :: "(nat \<Rightarrow> hsys \<times> 'e \<Rightarrow> hsys \<times> 'e) \<Rightarrow> bool" where
  "entry_keeps entry \<longleftrightarrow> (\<forall>n s e. hisr_inv s \<and> current_hisr s \<noteq> None \<longrightarrow>
     hisr_inv (fst (entry n (s, e))) \<and> current_hisr (fst (entry n (s, e))) = current_hisr s)"

lemma NU_Activate_HISR_eq:
  assumes "hc_activation_count (hcbs s h) < 4294967296"
  shows "fst (NU_Activate_HISR h s) =
    (if h \<noteq> NU_NULL \<and> hc_id_valid (hcbs s h) \<and> hc_activation_count (hcbs s h) < 4294967295
     then (if hc_activation_count (hcbs s h) = 0 then first_activation h (upd_hcb (hc_activation_count_update inc32) h s)
           else upd_hcb (hc_activation_count_update inc32) h s)
     else s)"
proof (cases "h \<noteq> NU_NULL \<and> hc_id_valid (hcbs s h) \<and> hc_activation_count (hcbs s h) < 4294967295")
  case True
  then have "inc32 (hc_activation_count (hcbs s h)) = hc_activation_count (hcbs s h) + 1" by (simp add: inc32_eq)
  then show ?thesis using True by (simp add: NU_Activate_HISR_def TC_MAX_HISR_ACTIVATIONS_def)
next
  case False
  then have "snd (NU_Activate_HISR h s) \<noteq> NU_SUCCESS \<and> fst (NU_Activate_HISR h s) = s"
    by (cases "h = NU_NULL"; cases "hc_id_valid (hcbs s h)") (simp_all add: NU_Activate_HISR_def TC_MAX_HISR_ACTIVATIONS_def)
  then show ?thesis unfolding if_not_P[OF False] by simp
qed

lemma NU_Activate_HISR_inv:
  assumes inv: "hisr_inv s"
  shows "hisr_inv (fst (NU_Activate_HISR h s))" "current_hisr (fst (NU_Activate_HISR h s)) = current_hisr s"
proof -
  obtain L where l: "active_lists {} s L" using inv by (auto simp: hisr_inv_def)
  consider (bad) "fst (NU_Activate_HISR h s) = s"
    | (again) "fst (NU_Activate_HISR h s) = upd_hcb (hc_activation_count_update inc32) h s"
        "hc_activation_count (hcbs s h) \<noteq> 0" "hc_activation_count (hcbs s h) < 4294967295"
    | (new) "fst (NU_Activate_HISR h s) = first_activation h (upd_hcb (hc_activation_count_update inc32) h s)"
        "hc_activation_count (hcbs s h) = 0" "hc_id_valid (hcbs s h)"
  proof -
    define v where "v \<longleftrightarrow> h \<noteq> NU_NULL \<and> hc_id_valid (hcbs s h) \<and> hc_activation_count (hcbs s h) < 4294967295"
    have "fst (NU_Activate_HISR h s) = (if v then (if hc_activation_count (hcbs s h) = 0
        then first_activation h (upd_hcb (hc_activation_count_update inc32) h s)
        else upd_hcb (hc_activation_count_update inc32) h s) else s)"
      unfolding v_def by (rule NU_Activate_HISR_eq[OF active_lists_highest(5)[OF l]])
    moreover have "v \<Longrightarrow> hc_id_valid (hcbs s h) \<and> hc_activation_count (hcbs s h) < 4294967295" by (simp add: v_def)
    ultimately show thesis using that by (cases v; cases "hc_activation_count (hcbs s h) = 0") simp_all
  qed
  then have "hisr_inv (fst (NU_Activate_HISR h s)) \<and> current_hisr (fst (NU_Activate_HISR h s)) = current_hisr s"
  proof cases
    case again
    have i: "inc32 (hc_activation_count (hcbs s h)) \<noteq> 0" using again(3) by (simp add: inc32_eq)
    show ?thesis unfolding again(1) using inv activate_again[OF l again(2,3)] again(2) i
      by (auto simp: hisr_inv_def fun_upd_def)
  next
    case new
    define p where "p = hc_priority (hcbs s h)"
    note A = activate_first[OF l new(2,3) p_def, folded new(1)]
    have p3: "p < 3" using active_lists_highest(6)[OF l new(3)] by (simp add: p_def)
    have hd: "TCD_Active_HISR_Heads (fst (NU_Activate_HISR h s)) q =
        (if q = p \<and> L p = [] then Some h else TCD_Active_HISR_Heads s q)" if "q < 3" for q
      using active_listsD(2)[OF A(1) that] active_listsD(2)[OF l that] by (cases "L p") auto
    have pr: "hc_priority (hcbs s x) < 3" if "hc_activation_count (hcbs s x) \<noteq> 0" for x
      using that l by (simp add: active_lists_def)
    have some: "TCD_Execute_HISR (fst (NU_Activate_HISR h s)) \<noteq> None"
    proof (cases "L p = [] \<and> p < TCD_Highest_Priority_HISR s")
      case False
      then have "TCD_Highest_Priority_HISR s < 3" using p3 active_lists_highest(2)[OF l, of p] by fastforce
      then obtain x where "x \<in> set (L (TCD_Highest_Priority_HISR s))" "TCD_Highest_Priority_HISR s < 3"
        using active_lists_highest(3)[OF l] by (meson last_in_set)
      then have "\<not> (\<forall>x. hc_activation_count (hcbs s x) = 0)" using active_listsD(4)[OF l] by auto
      then show ?thesis using inv False by (auto simp: A(3) hisr_inv_def)
    qed (simp add: A(3))
    have "hc_activation_count (hcbs (fst (NU_Activate_HISR h s)) x) \<noteq> 0 \<and>
        TCD_Active_HISR_Heads (fst (NU_Activate_HISR h s)) (hc_priority (hcbs (fst (NU_Activate_HISR h s)) x)) = Some x"
      if "TCD_Execute_HISR (fst (NU_Activate_HISR h s)) = Some x \<or> current_hisr (fst (NU_Activate_HISR h s)) = Some x" for x
    proof (cases "x = h \<and> L p = []")
      case True
      then show ?thesis using hd[OF p3] by (simp add: A(6) p_def)
    next
      case False
      then have c: "TCD_Execute_HISR s = Some x \<or> current_hisr s = Some x" using that by (auto simp: A(3,5) split: if_splits)
      then have x: "hc_activation_count (hcbs s x) \<noteq> 0" "TCD_Active_HISR_Heads s (hc_priority (hcbs s x)) = Some x"
        using inv by (auto simp: hisr_inv_def)
      have "hc_priority (hcbs s x) = p \<Longrightarrow> L p \<noteq> []" using x(1) active_listsD(4)[OF l p3, of x] by auto
      then show ?thesis using x hd[OF pr[OF x(1)]] by (auto simp: A(6))
    qed
    moreover have "\<not> (\<forall>x. hc_activation_count (hcbs (fst (NU_Activate_HISR h s)) x) = 0)" by (auto simp: A(6) intro!: exI[of _ h])
    ultimately show ?thesis using A(1,5) some by (auto simp: hisr_inv_def)
  qed (use inv in auto)
  then show "hisr_inv (fst (NU_Activate_HISR h s))" "current_hisr (fst (NU_Activate_HISR h s)) = current_hisr s" by simp_all
qed

lemma TCCT_Schedule_frames:
  "hisr_view (hcbs (TCCT_Schedule s) h) = hisr_view (hcbs s h)"
  "hc_activation_count (hcbs (TCCT_Schedule s) h) = hc_activation_count (hcbs s h)"
  "hc_entry (hcbs (TCCT_Schedule s) h) = hc_entry (hcbs s h)"
  "hc_priority (hcbs (TCCT_Schedule s) h) = hc_priority (hcbs s h)"
  "TCD_Active_HISR_Heads (TCCT_Schedule s) = TCD_Active_HISR_Heads s"
  "TCD_Active_HISR_Tails (TCCT_Schedule s) = TCD_Active_HISR_Tails s"
  "TCD_Highest_Priority_HISR (TCCT_Schedule s) = TCD_Highest_Priority_HISR s"
  "TCD_Execute_HISR (TCCT_Schedule s) = TCD_Execute_HISR s"
  "current_hisr (TCCT_Schedule s) = TCD_Execute_HISR s"
  by (auto simp: TCCT_Schedule_def Let_def hisr_view_def split: option.splits)

lemma TCCT_Schedule_lists: "active_lists R s L \<Longrightarrow> active_lists R (TCCT_Schedule s) L"
  by (rule active_lists_view) (auto simp: TCCT_Schedule_frames active_lists_highest(5))

lemma TCCT_Schedule_inv: "hisr_inv s \<Longrightarrow> hisr_inv (TCCT_Schedule s)"
  by (auto simp: hisr_inv_def TCCT_Schedule_frames intro: TCCT_Schedule_lists)

text \<open>Inside the shell: the HISR is at the head of its chain, with or without activations left.\<close>

definition in_shell :: "hsys \<Rightarrow> bool" where
  "in_shell s \<longleftrightarrow> (\<exists>h L. current_hisr s = Some h \<and> active_lists {h} s L \<and>
     TCD_Active_HISR_Heads s (hc_priority (hcbs s h)) = Some h \<and> (hc_activation_count (hcbs s h) \<noteq> 0 \<longrightarrow> hisr_inv s))"

lemma hisr_inv_in_shell: "hisr_inv s \<Longrightarrow> current_hisr s \<noteq> None \<Longrightarrow> in_shell s"
proof -
  assume inv: "hisr_inv s" and "current_hisr s \<noteq> None"
  then obtain h L where h: "current_hisr s = Some h" "active_lists {} s L" by (auto simp: hisr_inv_def)
  then have c: "hc_activation_count (hcbs s h) \<noteq> 0" "TCD_Active_HISR_Heads s (hc_priority (hcbs s h)) = Some h"
    using inv by (auto simp: hisr_inv_def)
  have "active_lists {h} s L" by (rule active_lists_view[OF h(2)]) (use c active_lists_highest(5)[OF h(2)] in auto)
  then show "in_shell s" using h c inv by (auto simp: in_shell_def)
qed

text \<open>One activation is served.\<close>

lemma served_in_shell:
  assumes inv: "hisr_inv s" and h: "current_hisr s = Some h"
  shows "in_shell (upd_hcb (hc_activation_count_update dec32) h s)"
proof -
  let ?s = "upd_hcb (hc_activation_count_update dec32) h s"
  obtain L where l: "active_lists {} s L" using inv by (auto simp: hisr_inv_def)
  have c: "hc_activation_count (hcbs s h) \<noteq> 0" "TCD_Active_HISR_Heads s (hc_priority (hcbs s h)) = Some h"
    using inv h by (auto simp: hisr_inv_def)
  have d: "dec32 (hc_activation_count (hcbs s h)) = hc_activation_count (hcbs s h) - 1"
    using c(1) active_lists_highest(5)[OF l, of h] by (simp add: dec32_eq)
  have l1: "active_lists {h} ?s L"
  proof (rule active_lists_view[OF l])
    show "hc_activation_count (hcbs ?s x) < 4294967296" for x
      using active_lists_highest(5)[OF l, of x] by (auto simp: d)
  qed (use c in \<open>auto simp: hisr_view_def\<close>)
  have "hisr_inv ?s" if e: "hc_activation_count (hcbs ?s h) \<noteq> 0"
  proof -
    have "active_lists {} ?s L" by (rule active_lists_view[OF l1]) (use e active_lists_highest(5)[OF l1] in auto)
    moreover have "(\<forall>x. hc_activation_count (hcbs ?s x) = 0) \<longleftrightarrow> (\<forall>x. hc_activation_count (hcbs s x) = 0)"
      using e c(1) by auto
    ultimately show ?thesis using inv e by (auto simp: hisr_inv_def)
  qed
  then show ?thesis using h c l1 by (auto simp: in_shell_def)
qed

lemma activation_loop_keeps:
  assumes run: "activation_loop entry x = Some y" and keeps: "entry_keeps entry" and sh: "in_shell (fst x)"
  shows "in_shell (fst y) \<and> (\<exists>h. current_hisr (fst y) = Some h \<and> hc_activation_count (hcbs (fst y) h) = 0)"
proof -
  define P :: "(nat \<Rightarrow> hsys \<times> 'a \<Rightarrow> hsys \<times> 'a) \<Rightarrow> hsys \<times> 'a \<Rightarrow> hsys \<times> 'a \<Rightarrow> bool" where
    "P = (\<lambda>entry x y. entry_keeps entry \<longrightarrow> in_shell (fst x) \<longrightarrow>
       in_shell (fst y) \<and> (\<exists>h. current_hisr (fst y) = Some h \<and> hc_activation_count (hcbs (fst y) h) = 0))"
  have "P entry x y"
  proof (rule activation_loop.raw_induct[where P = P and xa = "(entry, x)", unfolded prod.case, OF _ run])
    fix f :: "(nat \<Rightarrow> hsys \<times> 'a \<Rightarrow> hsys \<times> 'a) \<Rightarrow> hsys \<times> 'a \<Rightarrow> (hsys \<times> 'a) option" and entry x y
    assume IH: "\<And>entry x y. f entry x = Some y \<Longrightarrow> P entry x y"
      and eq: "(case current_hisr (fst x) of None \<Rightarrow> None
      | Some h \<Rightarrow>
          if hc_activation_count (hcbs (fst x) h) \<noteq> 0
          then let (s1, e1) = entry (hc_entry (hcbs (fst x) h)) x
               in case current_hisr s1 of None \<Rightarrow> None
                  | Some h1 \<Rightarrow> f entry (upd_hcb (hc_activation_count_update dec32) h1 s1, e1)
          else Some x) = Some y"
    show "P entry x y" unfolding P_def
    proof (intro impI)
      assume keeps: "entry_keeps entry" and sh: "in_shell (fst x)"
      obtain h where h: "current_hisr (fst x) = Some h" "hc_activation_count (hcbs (fst x) h) \<noteq> 0 \<Longrightarrow> hisr_inv (fst x)"
        using sh by (auto simp: in_shell_def)
      show "in_shell (fst y) \<and> (\<exists>h. current_hisr (fst y) = Some h \<and> hc_activation_count (hcbs (fst y) h) = 0)"
      proof (cases "hc_activation_count (hcbs (fst x) h) = 0")
        case True
        then show ?thesis using eq sh h by auto
      next
        case False
        obtain s1 e1 where e: "entry (hc_entry (hcbs (fst x) h)) x = (s1, e1)" by force
        have "hisr_inv s1 \<and> current_hisr s1 = Some h"
          using keeps[unfolded entry_keeps_def, rule_format, of "fst x" "hc_entry (hcbs (fst x) h)" "snd x"] h False e by simp
        then have "in_shell (upd_hcb (hc_activation_count_update dec32) h s1)"
          "f entry (upd_hcb (hc_activation_count_update dec32) h s1, e1) = Some y"
          using eq h False e by (auto intro: served_in_shell)
        then show ?thesis using IH[of entry "(upd_hcb (hc_activation_count_update dec32) h s1, e1)" y] keeps by (simp add: P_def)
      qed
    qed
  qed
  then show ?thesis using keeps sh by (simp add: P_def)
qed

lemma leave_list_inv:
  assumes sh: "in_shell s" and h: "current_hisr s = Some h" "hc_activation_count (hcbs s h) = 0"
  shows "hisr_inv (TCCT_Schedule (upd_hcb (hc_stack_pointer_update f) h (leave_list h s)))"
proof -
  obtain L where l: "active_lists {h} s L" and hd: "TCD_Active_HISR_Heads s (hc_priority (hcbs s h)) = Some h"
    using sh h(1) by (auto simp: in_shell_def)
  define p where "p = hc_priority (hcbs s h)"
  have p3: "p < 3" using l unfolding active_lists_def p_def by blast
  have "list_head (L p) = Some h" using active_listsD(2)[OF l p3] hd by (simp add: p_def)
  then obtain ts where ts: "L p = h # ts" by (auto simp: list_head_def split: list.splits)
  define s2 where "s2 = leave_list h s"
  note E = leave_list_ok[OF l h(2) p_def ts, folded s2_def]
  let ?L = "L(p := ts)"
  have D: "TCD_Active_HISR_Heads s2 q = list_head (?L q)"
    "x \<in> set (?L q) \<Longrightarrow> hc_activation_count (hcbs s2 x) \<noteq> 0 \<and> hc_priority (hcbs s2 x) = q" if "q < 3" for q x
    using active_listsD[OF E(1) that] by auto
  have head: "hc_activation_count (hcbs s2 x) \<noteq> 0 \<and> TCD_Active_HISR_Heads s2 (hc_priority (hcbs s2 x)) = Some x"
    if "TCD_Active_HISR_Heads s2 q = Some x" "q < 3" for x q
    using D(1)[OF that(2)] D(2)[OF that(2), of x] that by (cases "?L q") auto
  have ex: "TCD_Execute_HISR s2 = TCD_Active_HISR_Heads s2 (if ts \<noteq> [] \<and> p \<noteq> TCD_Highest_Priority_HISR s then p else TCD_Highest_Priority_HISR s2)"
    using E(4,5) D(1)[OF p3] by (cases ts) (auto simp: executes_highest_def)
  have g: "TCD_Highest_Priority_HISR s2 \<le> 3" "TCD_Active_HISR_Heads s2 3 = None"
    using active_lists_highest(1,4)[OF E(1)] by auto
  have g3: "TCD_Active_HISR_Heads s2 (TCD_Highest_Priority_HISR s2) \<noteq> None" if "TCD_Highest_Priority_HISR s2 < 3"
    unfolding D(1)[OF that] using active_lists_highest(3)[OF E(1) that]
    by (cases "?L (TCD_Highest_Priority_HISR s2)") simp_all
  have none: "TCD_Execute_HISR s2 = None \<longleftrightarrow> (\<forall>x. hc_activation_count (hcbs s2 x) = 0)"
  proof
    assume n: "TCD_Execute_HISR s2 = None"
    have "TCD_Highest_Priority_HISR s2 = 3" using n g g3 D(1)[OF p3] by (cases ts) (auto simp: ex le_less split: if_splits)
    then have "?L q = []" if "q < 3" for q using active_lists_highest(2)[OF E(1)] that by simp
    then have "hc_activation_count (hcbs s2 x) = 0 \<or> 3 \<le> hc_priority (hcbs s2 x)" for x
      using active_listsD(4)[OF E(1), of "hc_priority (hcbs s2 x)" x] by fastforce
    moreover have "hc_activation_count (hcbs s2 x) \<noteq> 0 \<longrightarrow> hc_priority (hcbs s2 x) < 3" for x
      using E(1) unfolding active_lists_def by blast
    ultimately show "\<forall>x. hc_activation_count (hcbs s2 x) = 0" by (meson not_le)
  next
    assume "\<forall>x. hc_activation_count (hcbs s2 x) = 0"
    then have "TCD_Active_HISR_Heads s2 q = None" if "q < 3" for q using head[OF _ that] by (cases "TCD_Active_HISR_Heads s2 q") auto
    then show "TCD_Execute_HISR s2 = None" using g p3 by (auto simp: ex le_less)
  qed
  have e: "hc_activation_count (hcbs s2 x) \<noteq> 0 \<and> TCD_Active_HISR_Heads s2 (hc_priority (hcbs s2 x)) = Some x"
    if "TCD_Execute_HISR s2 = Some x" for x
  proof -
    let ?q = "if ts \<noteq> [] \<and> p \<noteq> TCD_Highest_Priority_HISR s then p else TCD_Highest_Priority_HISR s2"
    have "?q < 3" using that g(1,2) p3 by (auto simp: ex le_less split: if_splits)
    then show ?thesis using that head unfolding ex by blast
  qed
  have l3: "active_lists {} (upd_hcb (hc_stack_pointer_update f) h s2) ?L"
    by (rule active_lists_view[OF E(1)]) (use active_lists_highest(5)[OF E(1)] in \<open>auto simp: hisr_view_def\<close>)
  show ?thesis unfolding s2_def[symmetric] hisr_inv_def TCCT_Schedule_frames
    using TCCT_Schedule_lists[OF l3] none e by auto
qed

lemma TCCT_HISR_Shell_inv:
  assumes "hisr_inv s" "current_hisr s \<noteq> None" "entry_keeps entry" "TCCT_HISR_Shell esal entry (s, e) = Some (s', e')"
  shows "hisr_inv s'"
proof -
  obtain s1 e1 where a: "activation_loop entry (s, e) = Some (s1, e1)"
    using assms(4) by (auto simp: TCCT_HISR_Shell_def split: option.splits)
  obtain h where h: "in_shell s1" "current_hisr s1 = Some h" "hc_activation_count (hcbs s1 h) = 0"
    using activation_loop_keeps[OF a assms(3)] hisr_inv_in_shell[OF assms(1,2)] by auto
  have f: "(\<lambda>c :: hcb. c\<lparr>hc_stack_pointer := g (hc_stack_start c) (hc_stack_end c)\<rparr>) = (\<lambda>c. hc_stack_pointer_update (\<lambda>_. g (hc_stack_start c) (hc_stack_end c)) c)" for g
    by simp
  have "s' = TCCT_Schedule (upd_hcb (hc_stack_pointer_update (\<lambda>_.
      ESAL_GE_STK_SOLICITED_RESET esal (hc_stack_start (hcbs s1 h)) (hc_stack_end (hcbs s1 h)))) h (leave_list h s1))"
    using assms(4) a h(2) by (auto simp: TCCT_HISR_Shell_def upd_hcb_def leave_list_def Let_def)
  then show ?thesis using leave_list_inv[OF h] by simp
qed

end
