(* ===== verification/HISR_Properties.thy ===== *)
theory HISR_Properties
  imports HISR_Scheduling Task_Signals
begin

text \<open>
  The steps of HISRs and the invariant of the reachable states; every activation is served once, in the order of
  the priorities and of the activations; a HISR of a higher priority that waits behind the others.
\<close>

section \<open>Steps\<close>

lemma entry_keeps_activations:
  "entry_keeps (\<lambda>n (s, e). (fold (\<lambda>h s. fst (NU_Activate_HISR h s)) (acts n) s, e))"
proof -
  have "hisr_inv s \<Longrightarrow> hisr_inv (fold (\<lambda>h s. fst (NU_Activate_HISR h s)) hs s) \<and>
      current_hisr (fold (\<lambda>h s. fst (NU_Activate_HISR h s)) hs s) = current_hisr s" for s hs
    by (induction hs arbitrary: s) (simp_all add: NU_Activate_HISR_inv)
  then show ?thesis by (simp add: entry_keeps_def)
qed

lemma dormant_upd:
  assumes inv: "hisr_inv s" and h: "hc_activation_count (hcbs s h) = 0" "hc_activation_count (f (hcbs s h)) = 0"
    "hc_id_valid (f (hcbs s h)) \<Longrightarrow> hc_priority (f (hcbs s h)) < 3"
  shows "hisr_inv (upd_hcb f h s)"
proof -
  obtain L where l: "active_lists {} s L" using inv by (auto simp: hisr_inv_def)
  have nin: "h \<notin> set (L p)" if "p < 3" for p using active_listsD(4)[OF l that] h(1) by simp
  have "active_lists {} (upd_hcb f h s) L" unfolding active_lists_def
  proof (intro conjI allI impI)
    fix p :: nat assume p: "p < 3"
    show "chained (upd_hcb f h s) (L p)" using active_listsD(1)[OF l p] chained_upd[OF nin[OF p]] by simp
    show "set (L p) = {x. (hc_activation_count (hcbs (upd_hcb f h s) x) \<noteq> 0 \<or> x \<in> {}) \<and> hc_priority (hcbs (upd_hcb f h s) x) = p}"
      using active_listsD(4)[OF l p] h by auto
  qed (use l h in \<open>auto simp: active_lists_def split: if_splits\<close>)
  moreover have "(\<forall>x. hc_activation_count (hcbs (upd_hcb f h s) x) = 0) = (\<forall>x. hc_activation_count (hcbs s x) = 0)"
    using h by (auto, metis)
  ultimately show ?thesis using inv h by (auto simp: hisr_inv_def)
qed

lemma hisr_inv_frame:
  "hisr_inv s \<Longrightarrow> hcbs s' = hcbs s \<Longrightarrow> TCD_Active_HISR_Heads s' = TCD_Active_HISR_Heads s \<Longrightarrow>
   TCD_Active_HISR_Tails s' = TCD_Active_HISR_Tails s \<Longrightarrow> TCD_Highest_Priority_HISR s' = TCD_Highest_Priority_HISR s \<Longrightarrow>
   TCD_Execute_HISR s' = TCD_Execute_HISR s \<Longrightarrow> current_hisr s' = current_hisr s \<Longrightarrow> hisr_inv s'"
  by (simp add: hisr_inv_def active_lists_def chained_def)

lemma NU_Create_HISR_inv:
  assumes "hisr_inv s" "hc_activation_count (hcbs s h) = 0"
  shows "hisr_inv (fst (NU_Create_HISR esal h entry p a n s))"
proof (cases "p < 3")
  case True
  have "hisr_inv (upd_hcb (\<lambda>_. new_hcb esal entry p a n) h s)"
    by (rule dormant_upd) (use assms True in \<open>simp_all add: new_hcb_def Let_def\<close>)
  then have "hisr_inv ((upd_hcb (\<lambda>_. new_hcb esal entry p a n) h s)
      \<lparr>TCD_Created_HISRs_List := TCD_Created_HISRs_List s @ [h], TCD_Total_HISRs := inc32 (TCD_Total_HISRs s)\<rparr>)"
    by (rule hisr_inv_frame) simp_all
  then show ?thesis using assms(1) by (simp add: NU_Create_HISR_def)
next
  case False
  then have "snd (NU_Create_HISR esal h entry p a n s) \<noteq> NU_SUCCESS \<and> fst (NU_Create_HISR esal h entry p a n s) = s"
    by (simp add: NU_Create_HISR_def TC_HISR_PRIORITIES_def)
  then show ?thesis using assms(1) by simp
qed

lemma NU_Delete_HISR_inv:
  assumes "hisr_inv s" "hc_activation_count (hcbs s h) = 0"
  shows "hisr_inv (fst (NU_Delete_HISR h s))"
proof -
  have i: "hisr_inv (s\<lparr>TCD_Created_HISRs_List := xs, TCD_Total_HISRs := n\<rparr>)" for xs n
    by (rule hisr_inv_frame[OF assms(1)]) simp_all
  show ?thesis
    using dormant_upd[OF i, where h = h and f = "hc_id_valid_update (\<lambda>_. False)"] assms
    by (simp add: NU_Delete_HISR_def Let_def)
qed

inductive hisr_step :: "hsys \<Rightarrow> hsys \<Rightarrow> bool" where
  create: "hc_activation_count (hcbs s h) = 0 \<Longrightarrow> hisr_step s (fst (NU_Create_HISR esal h entry p a n s))"
| delete: "hc_activation_count (hcbs s h) = 0 \<Longrightarrow> hisr_step s (fst (NU_Delete_HISR h s))"
| activate: "hisr_step s (fst (NU_Activate_HISR h s))"
| schedule: "hisr_step s (TCCT_Schedule s)"
| shell: "current_hisr s \<noteq> None \<Longrightarrow> entry_keeps entry \<Longrightarrow> TCCT_HISR_Shell esal entry (s, ()) = Some (s', u) \<Longrightarrow> hisr_step s s'"
| outside: "hisr_step s (s\<lparr>TCD_Schedule_Lock := lock, isr_executing := isr, unsolicited_switch := sw, tasks := k\<rparr>)"

lemma hisr_step_inv: "hisr_step s s' \<Longrightarrow> hisr_inv s \<Longrightarrow> hisr_inv s'"
  by (induction rule: hisr_step.induct)
     (auto intro: NU_Create_HISR_inv NU_Delete_HISR_inv NU_Activate_HISR_inv TCCT_Schedule_inv TCCT_HISR_Shell_inv
       elim: hisr_inv_frame)

lemma hisr_steps_inv: "hisr_step\<^sup>*\<^sup>* s s' \<Longrightarrow> hisr_inv s \<Longrightarrow> hisr_inv s'"
  by (induction rule: rtranclp_induct) (auto intro: hisr_step_inv)

section \<open>Serving every activation\<close>

text \<open>
  Entry functions that leave the HISRs alone (tasks, locks and the state of the application may change), a record of
  the calls of entry functions, and the runs of HISRs until a task is scheduled.
\<close>

definition hisr_part :: "hsys \<Rightarrow> (addr \<Rightarrow> hcb) \<times> (nat \<Rightarrow> addr option) \<times> (nat \<Rightarrow> addr option) \<times> nat \<times> addr option \<times> addr option" where
  "hisr_part s = (hcbs s, TCD_Active_HISR_Heads s, TCD_Active_HISR_Tails s, TCD_Highest_Priority_HISR s,
     TCD_Execute_HISR s, current_hisr s)"

definition activates_nothing :: "(nat \<Rightarrow> hsys \<times> 'e \<Rightarrow> hsys \<times> 'e) \<Rightarrow> bool" where
  "activates_nothing entry \<longleftrightarrow> (\<forall>n s e. hisr_part (fst (entry n (s, e))) = hisr_part s)"

definition logged :: "(nat \<Rightarrow> hsys \<times> 'e \<Rightarrow> hsys \<times> 'e) \<Rightarrow> nat \<Rightarrow> hsys \<times> 'e \<times> nat list \<Rightarrow> hsys \<times> 'e \<times> nat list" where
  "logged entry n = (\<lambda>(s, e, ns). let (s', e') = entry n (s, e) in (s', e', ns @ [n]))"

fun run_hisrs :: "hisr_target \<Rightarrow> (nat \<Rightarrow> hsys \<times> 'e \<Rightarrow> hsys \<times> 'e) \<Rightarrow> nat \<Rightarrow> hsys \<times> 'e \<Rightarrow> (hsys \<times> 'e) option" where
  "run_hisrs esal entry 0 x = Some x"
| "run_hisrs esal entry (Suc n) x =
    (if current_hisr (fst x) = None then Some x
     else case TCCT_HISR_Shell esal entry x of None \<Rightarrow> None | Some y \<Rightarrow> run_hisrs esal entry n y)"

definition calls_due :: "hsys \<Rightarrow> addr list \<Rightarrow> nat list" where
  "calls_due s hs = concat (map (\<lambda>h. replicate (hc_activation_count (hcbs s h)) (hc_entry (hcbs s h))) hs)"

text \<open>The scheduler has run: the thread is the HISR to execute, otherwise the task to execute.\<close>

definition scheduled :: "hsys \<Rightarrow> bool" where
  "scheduled s \<longleftrightarrow> current_hisr s = TCD_Execute_HISR s \<and>
     (TCD_Execute_HISR s = None \<longrightarrow> TCD_Current_Thread (lkern (tasks s)) =
        (case TCD_Execute_Task (lkern (tasks s)) of None \<Rightarrow> No_Thread | Some t \<Rightarrow> Task_Thread t))"

lemma TCCT_Schedule_scheduled: "scheduled (TCCT_Schedule s)"
  by (auto simp: scheduled_def TCCT_Schedule_def Let_def split: option.splits)

text \<open>The state of the HISRs when the activations of the HISR \<open>h\<close> have been served.\<close>

definition served_part :: "addr \<Rightarrow> hsys \<Rightarrow> hsys \<Rightarrow> bool" where
  "served_part h s s' \<longleftrightarrow> hisr_part s' = hisr_part (upd_hcb (hc_activation_count_update (\<lambda>_. 0)) h s)"

lemma served_partD:
  assumes "served_part h s s'"
  shows "hcbs s' = (hcbs s)(h := (hcbs s h)\<lparr>hc_activation_count := 0\<rparr>)"
    "TCD_Active_HISR_Heads s' = TCD_Active_HISR_Heads s" "TCD_Active_HISR_Tails s' = TCD_Active_HISR_Tails s"
    "TCD_Highest_Priority_HISR s' = TCD_Highest_Priority_HISR s" "TCD_Execute_HISR s' = TCD_Execute_HISR s"
    "current_hisr s' = current_hisr s"
  using assms by (simp_all add: served_part_def hisr_part_def)

lemma activation_loop_logged:
  assumes "activates_nothing entry"
  shows "current_hisr s = Some h \<Longrightarrow> hc_activation_count (hcbs s h) = n \<Longrightarrow> n < 4294967296 \<Longrightarrow>
   \<exists>s1 e1. activation_loop entry (s, e) = Some (s1, e1) \<and> served_part h s s1 \<and>
     activation_loop (logged entry) (s, e, ns) = Some (s1, e1, ns @ replicate n (hc_entry (hcbs s h)))"
proof (induction n arbitrary: s e ns)
  case 0
  have "(hcbs s h)\<lparr>hc_activation_count := 0\<rparr> = hcbs s h" using 0(2) by (cases "hcbs s h") simp
  then have "served_part h s s" by (simp add: served_part_def upd_hcb_def)
  moreover have "activation_loop entry (s, e) = Some (s, e)" "activation_loop (logged entry) (s, e, ns) = Some (s, e, ns)"
    using 0 by (subst activation_loop.simps, simp)+
  ultimately show ?case by simp
next
  case (Suc n)
  obtain s1 e1 where r: "entry (hc_entry (hcbs s h)) (s, e) = (s1, e1)" by (cases "entry (hc_entry (hcbs s h)) (s, e)")
  then have p: "hisr_part s1 = hisr_part s" using assms by (metis activates_nothing_def fst_conv)
  then have q: "hcbs s1 = hcbs s" "current_hisr s1 = Some h" using Suc.prems(1) by (simp_all add: hisr_part_def)
  define s2 where "s2 = upd_hcb (hc_activation_count_update dec32) h s1"
  have d: "dec32 (hc_activation_count (hcbs s h)) = n" using Suc.prems by (simp add: dec32_eq)
  have l: "activation_loop entry (s, e) = activation_loop entry (s2, e1)"
    using Suc.prems r q by (subst activation_loop.simps) (simp add: s2_def)
  have "activation_loop (logged entry) (s, e, ns) = activation_loop (logged entry) (s2, e1, ns @ [hc_entry (hcbs s h)])"
    using Suc.prems r q by (subst activation_loop.simps) (simp add: logged_def s2_def)
  moreover have "current_hisr s2 = Some h" "hc_activation_count (hcbs s2 h) = n" "n < 4294967296"
    using q d Suc.prems by (simp_all add: s2_def)
  note Suc.IH[OF this, of e1 "ns @ [hc_entry (hcbs s h)]"]
  moreover have "served_part h s2 x \<Longrightarrow> served_part h s x" for x
    using p by (simp add: served_part_def hisr_part_def s2_def)
  moreover have "hc_entry (hcbs s2 h) = hc_entry (hcbs s h)" by (simp add: s2_def q)
  ultimately show ?case unfolding l by fastforce
qed

lemma shell_logged:
  assumes l: "active_lists {} s L" and g: "g = TCD_Highest_Priority_HISR s" "g < 3"
    and L: "L g = h # ts" and cur: "current_hisr s = Some h" and en: "activates_nothing entry"
  obtains s' e' where "TCCT_HISR_Shell esal entry (s, e) = Some (s', e')"
    "TCCT_HISR_Shell esal (logged entry) (s, e, ns) =
      Some (s', e', ns @ replicate (hc_activation_count (hcbs s h)) (hc_entry (hcbs s h)))"
    "active_lists {} s' (L(g := ts))" "executes_highest s'" "scheduled s'"
    "\<forall>x. hc_entry (hcbs s' x) = hc_entry (hcbs s x) \<and>
       hc_activation_count (hcbs s' x) = (if x = h then 0 else hc_activation_count (hcbs s x))"
proof -
  from activation_loop_logged[OF en cur refl active_lists_highest(5)[OF l], of e ns] obtain s1 e1 where A:
    "activation_loop entry (s, e) = Some (s1, e1)" "served_part h s s1"
    "activation_loop (logged entry) (s, e, ns) =
      Some (s1, e1, ns @ replicate (hc_activation_count (hcbs s h)) (hc_entry (hcbs s h)))" by blast
  note P = served_partD[OF A(2)]
  have h: "hc_activation_count (hcbs s h) \<noteq> 0" "hc_priority (hcbs s h) = g"
    using active_listsD(4)[OF l g(2), of h] L by auto
  have l1: "active_lists {h} s1 L"
    by (rule active_lists_view[OF l]) (use h active_lists_highest(5)[OF l] in \<open>auto simp: P hisr_view_def\<close>)
  have h1: "hc_activation_count (hcbs s1 h) = 0" "g = hc_priority (hcbs s1 h)" using h by (simp_all add: P)
  note E = leave_list_ok[OF l1 h1 L]
  define s2 where "s2 = upd_hcb (\<lambda>c. c\<lparr>hc_stack_pointer :=
      ESAL_GE_STK_SOLICITED_RESET esal (hc_stack_start c) (hc_stack_end c)\<rparr>) h (leave_list h s1)"
  have sh: "TCCT_HISR_Shell esal entry (s, e) = Some (TCCT_Schedule s2, e1)"
    "TCCT_HISR_Shell esal (logged entry) (s, e, ns) =
      Some (TCCT_Schedule s2, e1, ns @ replicate (hc_activation_count (hcbs s h)) (hc_entry (hcbs s h)))"
    using A(1,3) cur by (simp_all add: TCCT_HISR_Shell_def s2_def P)
  have "active_lists {} s2 (L(g := ts))"
    by (rule active_lists_view[OF E(1)]) (use active_lists_highest(5)[OF E(1)] in \<open>auto simp: s2_def hisr_view_def\<close>)
  then have l3: "active_lists {} (TCCT_Schedule s2) (L(g := ts))" by (rule TCCT_Schedule_lists)
  have "executes_highest (leave_list h s1)" by (rule E(4)) (simp add: g P)
  then have "executes_highest (TCCT_Schedule s2)" by (simp add: executes_highest_def TCCT_Schedule_frames s2_def)
  moreover have "hc_entry (hcbs (TCCT_Schedule s2) x) = hc_entry (hcbs s x) \<and>
      hc_activation_count (hcbs (TCCT_Schedule s2) x) = (if x = h then 0 else hc_activation_count (hcbs s x))" for x
    by (simp add: TCCT_Schedule_frames s2_def E(2)) (simp add: P)
  ultimately show thesis by (intro that[OF sh l3]) (simp_all add: TCCT_Schedule_scheduled)
qed

lemma no_active:
  assumes "active_lists {} s L" "L 0 @ L 1 @ L 2 = []"
  shows "hc_activation_count (hcbs s h) = 0"
proof (rule ccontr)
  assume c: "hc_activation_count (hcbs s h) \<noteq> 0"
  then have p: "hc_priority (hcbs s h) < 3" using assms(1) by (simp add: active_lists_def)
  then have "h \<in> set (L (hc_priority (hcbs s h)))" using active_listsD(4)[OF assms(1) p, of h] c by simp
  moreover have "hc_priority (hcbs s h) \<in> {0, 1, 2}" using p by auto
  ultimately show False using assms(2) by auto
qed

lemma run_hisrs_logged:
  assumes "activates_nothing entry"
  shows "active_lists {} s L \<Longrightarrow> executes_highest s \<Longrightarrow> scheduled s \<Longrightarrow> n = length (L 0 @ L 1 @ L 2) \<Longrightarrow>
    \<exists>s' e'. run_hisrs esal entry n (s, e) = Some (s', e') \<and>
      run_hisrs esal (logged entry) n (s, e, ns) = Some (s', e', ns @ calls_due s (L 0 @ L 1 @ L 2)) \<and>
      scheduled s' \<and> TCD_Execute_HISR s' = None \<and> (\<forall>h. hc_activation_count (hcbs s' h) = 0)"
proof (induction n arbitrary: s L e ns)
  case 0
  have e: "L 0 @ L 1 @ L 2 = []" using 0(4) by simp
  have "TCD_Active_HISR_Heads s (TCD_Highest_Priority_HISR s) = None"
  proof (cases "TCD_Highest_Priority_HISR s = 3")
    case False
    then have "TCD_Highest_Priority_HISR s < 3" "TCD_Highest_Priority_HISR s \<in> {0, 1, 2}" using active_lists_highest(1)[OF 0(1)] by auto
    then show ?thesis using active_lists_highest(3)[OF 0(1)] e by auto
  qed (simp add: active_lists_highest(4)[OF 0(1)])
  then show ?case using no_active[OF 0(1) e] 0(2,3) e by (simp add: executes_highest_def calls_due_def)
next
  case (Suc n)
  define g where "g = TCD_Highest_Priority_HISR s"
  note H = active_lists_highest[OF Suc.prems(1), folded g_def]
  have g3: "g < 3"
  proof (rule ccontr)
    assume "\<not> g < 3"
    then have "L 0 = []" "L 1 = []" "L 2 = []" using H(1) H(2)[of 0] H(2)[of 1] H(2)[of 2] by auto
    then show False using Suc.prems(4) by simp
  qed
  then obtain h ts where h: "L g = h # ts" using H(3) by (cases "L g") auto
  have cur: "current_hisr s = Some h"
    using Suc.prems(2,3) active_listsD(2)[OF Suc.prems(1) g3] h by (simp add: executes_highest_def scheduled_def g_def)
  obtain s1 e1 where R: "TCCT_HISR_Shell esal entry (s, e) = Some (s1, e1)"
    and S: "TCCT_HISR_Shell esal (logged entry) (s, e, ns) =
      Some (s1, e1, ns @ replicate (hc_activation_count (hcbs s h)) (hc_entry (hcbs s h)))"
    "active_lists {} s1 (L(g := ts))" "executes_highest s1" "scheduled s1"
    "\<forall>x. hc_entry (hcbs s1 x) = hc_entry (hcbs s x) \<and>
       hc_activation_count (hcbs s1 x) = (if x = h then 0 else hc_activation_count (hcbs s x))"
    by (rule shell_logged[OF Suc.prems(1) g_def g3 h cur assms])
  let ?L = "L(g := ts)"
  have g012: "g = 0 \<or> g = 1 \<or> g = 2" using g3 by auto
  have order: "L 0 @ L 1 @ L 2 = h # (?L 0 @ ?L 1 @ ?L 2)" using g012 h H(2)[of 0] H(2)[of 1] by auto
  have nin: "h \<notin> set (?L p)" if "p < 3" for p using active_listsD(4)[OF S(2) that, of h] S(5) by simp
  have "h \<notin> set (?L 0 @ ?L 1 @ ?L 2)" using nin[of 0] nin[of 1] nin[of 2] by (simp only: set_append Un_iff) simp
  then have due: "calls_due s1 (?L 0 @ ?L 1 @ ?L 2) = calls_due s (?L 0 @ ?L 1 @ ?L 2)"
    unfolding calls_due_def by (intro arg_cong[where f = concat] map_cong refl) (use S(5) in auto)
  have "n = length (?L 0 @ ?L 1 @ ?L 2)" using Suc.prems(4) unfolding order by simp
  from Suc.IH[OF S(2-4) this, of e1 "ns @ replicate (hc_activation_count (hcbs s h)) (hc_entry (hcbs s h))"]
  show ?case unfolding due order using R S(1) cur by (auto simp: calls_due_def)
qed

section \<open>Properties\<close>

text \<open>
  C33. In every reachable state the HISRs with activations to be served are those on the chain of their priority, each
  once, between its head and its tail pointer; no chain above the highest priority has one; there is a HISR to execute exactly
  when one has activations, and it is the head of its chain.
\<close>

theorem hisr_chains_consistent:
  assumes "hisr_inv s0" "hisr_step\<^sup>*\<^sup>* s0 s"
  shows "\<exists>L. (\<forall>p < 3. set (L p) = {h. hc_activation_count (hcbs s h) \<noteq> 0 \<and> hc_priority (hcbs s h) = p} \<and> distinct (L p) \<and>
      successively (\<lambda>a b. hc_active_next (hcbs s a) = Some b) (L p) \<and> TCD_Active_HISR_Heads s p = list_head (L p) \<and>
      TCD_Active_HISR_Tails s p = (if L p = [] then None else Some (last (L p)))) \<and>
    (\<forall>p < TCD_Highest_Priority_HISR s. L p = []) \<and>
    (TCD_Execute_HISR s = None \<longleftrightarrow> (\<forall>h. hc_activation_count (hcbs s h) = 0)) \<and>
    (\<forall>h. TCD_Execute_HISR s = Some h \<longrightarrow> TCD_Active_HISR_Heads s (hc_priority (hcbs s h)) = Some h)"
proof -
  have inv: "hisr_inv s" by (rule hisr_steps_inv[OF assms(2,1)])
  then obtain L where l: "active_lists {} s L" by (auto simp: hisr_inv_def)
  show ?thesis
    using inv active_listsD[OF l] active_lists_highest(2)[OF l]
    by (intro exI[of _ L]) (auto simp: hisr_inv_def chained_def)
qed

text \<open>
  C32. Every activation is served exactly once, in a state whose HISR to execute is the head of the chain of the highest
  priority (\<open>executes_highest\<close>; a HISR that activates one of a higher priority can break it, see \<open>hisr_priority_inversion\<close>):
  whatever the entry functions do to tasks, locks and the state of the application, when neither they nor the interrupts
  during them activate, create or delete a HISR, the runs of the activated HISRs end, each entry function has been called once
  per activation, in the order of the priorities and, within a priority, of the first activations (\<open>logged\<close> records the calls of the same
  run), and then no activation is left and the task to execute, if there is one, is the current thread.
\<close>

theorem hisr_activations_served:
  assumes "active_lists {} s L" "executes_highest s" "activates_nothing entry"
  shows "\<exists>s' e'. run_hisrs esal entry (length (L 0 @ L 1 @ L 2)) (TCCT_Schedule s, e) = Some (s', e') \<and>
    run_hisrs esal (logged entry) (length (L 0 @ L 1 @ L 2)) (TCCT_Schedule s, e, []) =
      Some (s', e', calls_due s (L 0 @ L 1 @ L 2)) \<and>
    current_hisr s' = None \<and> (\<forall>h. hc_activation_count (hcbs s' h) = 0) \<and>
    TCD_Current_Thread (lkern (tasks s')) =
      (case TCD_Execute_Task (lkern (tasks s')) of None \<Rightarrow> No_Thread | Some t \<Rightarrow> Task_Thread t)"
proof -
  have "executes_highest (TCCT_Schedule s)" using assms(2) by (simp add: executes_highest_def TCCT_Schedule_frames)
  from run_hisrs_logged[OF assms(3) TCCT_Schedule_lists[OF assms(1)] this TCCT_Schedule_scheduled refl, of esal e "[]"]
  obtain s' e' where R: "run_hisrs esal entry (length (L 0 @ L 1 @ L 2)) (TCCT_Schedule s, e) = Some (s', e')"
    "run_hisrs esal (logged entry) (length (L 0 @ L 1 @ L 2)) (TCCT_Schedule s, e, []) =
      Some (s', e', calls_due (TCCT_Schedule s) (L 0 @ L 1 @ L 2))"
    "scheduled s'" "TCD_Execute_HISR s' = None" "\<forall>h. hc_activation_count (hcbs s' h) = 0" by auto
  have "calls_due (TCCT_Schedule s) hs = calls_due s hs" for hs by (simp add: calls_due_def TCCT_Schedule_frames)
  then show ?thesis using R by (simp add: scheduled_def)
qed

text \<open>
  C39. A HISR of a higher priority waits behind one of a lower: when a HISR whose chain has another one activates, in its last
  call, a HISR of a higher priority, the next thread is the other HISR of its own chain, although the higher one is activated
  and at the head of its chain.
\<close>

theorem hisr_priority_inversion:
  assumes l: "active_lists {} s L" and p: "p = TCD_Highest_Priority_HISR s" "p < 3" "L p = h # c # ts"
    and cur: "current_hisr s = Some h" "hc_activation_count (hcbs s h) = 1"
    and a: "a \<noteq> NU_NULL" "hc_id_valid (hcbs s a)" "hc_priority (hcbs s a) < p"
    and entry: "\<And>n x e. entry n (x, e) = (fst (NU_Activate_HISR a x), e)"
  shows "\<exists>s'. TCCT_HISR_Shell esal entry (s, e) = Some (s', e) \<and> current_hisr s' = Some c \<and>
    hc_activation_count (hcbs s' a) = 1 \<and> TCD_Active_HISR_Heads s' (hc_priority (hcbs s' a)) = Some a \<and>
    hc_priority (hcbs s' a) < hc_priority (hcbs s' c)"
proof -
  define q where "q = hc_priority (hcbs s a)"
  have q: "q < p" "q < 3" "L q = []" using a(3) p active_lists_highest(2)[OF l] by (auto simp: q_def)
  have h: "hc_priority (hcbs s h) = p" and c: "hc_priority (hcbs s c) = p"
    using active_listsD(4)[OF l p(2)] p(3) by auto
  have a0: "hc_activation_count (hcbs s a) = 0" using active_listsD(4)[OF l q(2), of a] q(3) by (simp add: q_def)
  have ah: "a \<noteq> h" "a \<noteq> c" using h c q by (auto simp: q_def)
  define s1 where "s1 = fst (NU_Activate_HISR a s)"
  have s1: "s1 = first_activation a (upd_hcb (hc_activation_count_update inc32) a s)"
    using NU_Activate_HISR_eq[of s a] a a0 by (simp add: s1_def)
  note A = activate_first[OF l a0 a(2) q_def, folded s1]
  define s2 where "s2 = upd_hcb (hc_activation_count_update dec32) h s1"
  let ?L = "L(q := [a])"
  have h2: "hc_activation_count (hcbs s2 h) = 0" "p = hc_priority (hcbs s2 h)"
    using cur(2) h ah by (simp_all add: s2_def A(6) dec32_def)
  have "activation_loop entry (s, e) = activation_loop entry (s2, e)"
    using cur A(5) by (subst activation_loop.simps) (simp add: entry s1_def[symmetric] s2_def)
  also have "\<dots> = Some (s2, e)" using h2 A(5) cur by (subst activation_loop.simps) (simp add: s2_def)
  finally have loop: "activation_loop entry (s, e) = Some (s2, e)" .
  have l1: "active_lists {} s1 ?L" using A(1) q by simp
  have l2: "active_lists {h} s2 ?L"
    by (rule active_lists_view[OF l1])
       (use active_lists_highest(5)[OF l1] cur(2) ah in \<open>auto simp: s2_def hisr_view_def A(6) dec32_def\<close>)
  have Lp: "?L p = h # c # ts" using p(3) q by simp
  note E = leave_list_ok[OF l2 h2 Lp]
  define s3 where "s3 = upd_hcb (\<lambda>c. c\<lparr>hc_stack_pointer :=
      ESAL_GE_STK_SOLICITED_RESET esal (hc_stack_start c) (hc_stack_end c)\<rparr>) h (leave_list h s2)"
  have sh: "TCCT_HISR_Shell esal entry (s, e) = Some (TCCT_Schedule s3, e)"
    using loop A(5) cur by (simp add: TCCT_HISR_Shell_def s3_def s2_def)
  have "current_hisr (TCCT_Schedule s3) = Some c" using E(5) by (simp add: TCCT_Schedule_frames s3_def)
  moreover have "hc_activation_count (hcbs (TCCT_Schedule s3) a) = 1" using ah
    by (simp add: TCCT_Schedule_frames s3_def E(2)) (simp add: s2_def A(6))
  moreover have pr: "hc_priority (hcbs (TCCT_Schedule s3) a) = q" "hc_priority (hcbs (TCCT_Schedule s3) c) = p"
    using c h by (simp_all add: TCCT_Schedule_frames s3_def E(2)) (simp_all add: s2_def A(6) q_def)
  moreover have "TCD_Active_HISR_Heads (TCCT_Schedule s3) q = Some a"
    using active_listsD(2)[OF E(1) q(2)] q by (simp add: TCCT_Schedule_frames s3_def)
  ultimately show ?thesis using sh q by auto
qed

section \<open>Concrete runs\<close>

definition hisr_esal :: hisr_target where
  "hisr_esal = \<lparr>ESAL_GE_STK_Unsolicited_Set = (\<lambda>_ e. e - 64), ESAL_GE_STK_Solicited_Set = (\<lambda>_ e. e - 40),
     ESAL_GE_STK_SOLICITED_RESET = (\<lambda>_ e. e - 40)\<rparr>"

definition no_hisrs :: "lsys \<Rightarrow> hsys" where
  "no_hisrs k = \<lparr>hcbs = (\<lambda>_. \<lparr>hc_id_valid = False, hc_priority = 0, hc_scheduled = 0, hc_stack_start = 0, hc_stack_end = 0,
     hc_stack_pointer = 0, hc_stack_size = 0, hc_grp_id = 0, hc_active_next = None, hc_activation_count = 0, hc_entry = 0\<rparr>),
     TCD_Active_HISR_Heads = (\<lambda>_. None), TCD_Active_HISR_Tails = (\<lambda>_. None), TCD_Highest_Priority_HISR = 3,
     TCD_Execute_HISR = None, TCD_Created_HISRs_List = [], TCD_Total_HISRs = 0, TCD_Schedule_Lock = False,
     TCD_Return_To_Scheduler = False, isr_executing = False, unsolicited_switch = False, current_hisr = None,
     TCD_Current_App_Task = None, tasks = k\<rparr>"

lemma no_hisrs_lists: "active_lists {} (no_hisrs k) (\<lambda>_. [])"
  by (simp add: active_lists_def no_hisrs_def chained_def)

lemma no_hisrs_inv: "hisr_inv (no_hisrs k)"
  using no_hisrs_lists by (auto simp: hisr_inv_def) (simp_all add: no_hisrs_def)

text \<open>HISRs 100 and 200 of priority 1 and 300 of priority 0.\<close>

definition hisr_seq :: "lsys \<Rightarrow> hsys" where
  "hisr_seq k = fst (NU_Create_HISR hisr_esal 300 77 0 12288 512 (fst (NU_Create_HISR hisr_esal 200 66 1 8192 512
     (fst (NU_Create_HISR hisr_esal 100 55 1 4096 512 (no_hisrs k))))))"

definition hisr_busy :: "lsys \<Rightarrow> hsys" where
  "hisr_busy k = TCCT_Schedule (fst (NU_Activate_HISR 200 (fst (NU_Activate_HISR 100 (hisr_seq k)))))"

lemma hisr_seq_steps: "hisr_step\<^sup>*\<^sup>* (no_hisrs k) (hisr_seq k)"
proof -
  define a where "a = fst (NU_Create_HISR hisr_esal 100 55 1 4096 512 (no_hisrs k))"
  define b where "b = fst (NU_Create_HISR hisr_esal 200 66 1 8192 512 a)"
  have "hc_activation_count (hcbs (no_hisrs k) 100) = 0" by (simp add: no_hisrs_def)
  then have 1: "hisr_step (no_hisrs k) a" unfolding a_def by (rule hisr_step.create)
  have "hc_activation_count (hcbs a 200) = 0" by (simp add: a_def NU_Create_HISR_def no_hisrs_def TC_HISR_PRIORITIES_def NU_MIN_STACK_SIZE_def)
  then have 2: "hisr_step a b" unfolding b_def by (rule hisr_step.create)
  have "hc_activation_count (hcbs b 300) = 0"
    by (simp add: a_def b_def NU_Create_HISR_def no_hisrs_def TC_HISR_PRIORITIES_def NU_MIN_STACK_SIZE_def)
  then have "hisr_step b (hisr_seq k)" unfolding hisr_seq_def a_def[symmetric] b_def[symmetric] by (rule hisr_step.create)
  then show ?thesis using 1 2 by (blast intro: converse_rtranclp_into_rtranclp)
qed

lemma hisr_busy_steps: "hisr_step\<^sup>*\<^sup>* (no_hisrs k) (hisr_busy k)"
  unfolding hisr_busy_def
  by (rule rtranclp.rtrancl_into_rtrancl[OF rtranclp.rtrancl_into_rtrancl[OF rtranclp.rtrancl_into_rtrancl[OF hisr_seq_steps]]])
     (rule hisr_step.activate hisr_step.schedule)+

lemma hisr_seq_hcb:
  "hcbs (hisr_seq k) 100 = new_hcb hisr_esal 55 1 4096 512" "hcbs (hisr_seq k) 200 = new_hcb hisr_esal 66 1 8192 512"
  "hcbs (hisr_seq k) 300 = new_hcb hisr_esal 77 0 12288 512" "hc_activation_count (hcbs (hisr_seq k) h) = 0"
  "TCD_Highest_Priority_HISR (hisr_seq k) = 3" "executes_highest (hisr_seq k)"
  by (simp_all add: hisr_seq_def NU_Create_HISR_def no_hisrs_def TC_HISR_PRIORITIES_def NU_MIN_STACK_SIZE_def executes_highest_def)
     (simp add: new_hcb_def Let_def)

lemma hisr_busy_lists:
  obtains L where "active_lists {} (hisr_busy k) L" "L 0 = []" "L 1 = [100, 200]" "L 2 = []" "executes_highest (hisr_busy k)"
    "current_hisr (hisr_busy k) = Some 100" "TCD_Highest_Priority_HISR (hisr_busy k) = 1"
    "\<forall>h. hc_activation_count (hcbs (hisr_busy k) h) = (if h = 100 \<or> h = 200 then 1 else 0)"
    "\<forall>h. hc_entry (hcbs (hisr_busy k) h) = hc_entry (hcbs (hisr_seq k) h)"
    "\<forall>h. hisr_view ((hcbs (hisr_busy k) h)\<lparr>hc_active_next := None\<rparr>) = hisr_view ((hcbs (hisr_seq k) h)\<lparr>hc_active_next := None\<rparr>)"
proof -
  obtain L where l: "active_lists {} (hisr_seq k) L"
    using hisr_steps_inv[OF hisr_seq_steps no_hisrs_inv, of k] unfolding hisr_inv_def by blast
  have e: "L p = []" if "p < 3" for p using active_listsD(4)[OF l that] by (cases "L p") (auto simp: hisr_seq_hcb)
  define s1 where "s1 = fst (NU_Activate_HISR 100 (hisr_seq k))"
  have s1: "s1 = first_activation 100 (upd_hcb (hc_activation_count_update inc32) 100 (hisr_seq k))"
    using NU_Activate_HISR_eq[of "hisr_seq k" 100] hisr_seq_hcb(4)[of k 100] by (simp add: s1_def hisr_seq_hcb(1) new_hcb_def Let_def)
  note A = activate_first[OF l, of 100 1, folded s1]
  have v1: "hc_id_valid (hcbs (hisr_seq k) 100)" "1 = hc_priority (hcbs (hisr_seq k) 100)"
    by (simp_all add: hisr_seq_hcb new_hcb_def Let_def)
  note A1 = A[OF hisr_seq_hcb(4) v1]
  define s2 where "s2 = fst (NU_Activate_HISR 200 s1)"
  have b1: "hc_activation_count (hcbs s1 200) = 0" by (simp add: A1(6) hisr_seq_hcb(4))
  have v2: "hc_id_valid (hcbs s1 200)" "1 = hc_priority (hcbs s1 200)"
    by (simp_all add: A1(6) hisr_seq_hcb new_hcb_def Let_def)
  have s2: "s2 = first_activation 200 (upd_hcb (hc_activation_count_update inc32) 200 s1)"
    using NU_Activate_HISR_eq[of s1 200] b1 v2 by (simp add: s2_def)
  note A2 = activate_first[OF A1(1) b1 v2, folded s2]
  have ex: "executes_highest s2" by (rule A2(2)[OF A1(2)[OF hisr_seq_hcb(6)]])
  have busy: "hisr_busy k = TCCT_Schedule s2" by (simp add: hisr_busy_def s1_def s2_def)
  have g: "TCD_Highest_Priority_HISR s2 = 1" by (simp add: A2(4) A1(4) hisr_seq_hcb)
  show thesis
  proof (rule that)
    show "active_lists {} (hisr_busy k) (L(1 := [100, 200]))" using TCCT_Schedule_lists[OF A2(1)] e[of 1] by (simp add: busy)
    show "executes_highest (hisr_busy k)" using ex by (simp add: busy executes_highest_def TCCT_Schedule_frames)
    show "current_hisr (hisr_busy k) = Some 100"
      using ex active_listsD(2)[OF A2(1), of 1] e[of 1] by (simp add: busy executes_highest_def TCCT_Schedule_frames g)
    show "TCD_Highest_Priority_HISR (hisr_busy k) = 1" by (simp add: busy TCCT_Schedule_frames g)
    show "\<forall>h. hc_activation_count (hcbs (hisr_busy k) h) = (if h = 100 \<or> h = 200 then 1 else 0)"
      by (simp add: busy TCCT_Schedule_frames A2(6) A1(6) hisr_seq_hcb)
    show "\<forall>h. hc_entry (hcbs (hisr_busy k) h) = hc_entry (hcbs (hisr_seq k) h)"
      by (simp add: busy TCCT_Schedule_frames A2(6) A1(6))
    show "\<forall>h. hisr_view ((hcbs (hisr_busy k) h)\<lparr>hc_active_next := None\<rparr>) = hisr_view ((hcbs (hisr_seq k) h)\<lparr>hc_active_next := None\<rparr>)"
      using TCCT_Schedule_frames(1)[of s2] by (simp add: busy hisr_view_def A2(6) A1(6))
  qed (use e[of 0] e[of 2] in simp_all)
qed

theorem hisr_chains_consistent_witness:
  "TCD_Execute_HISR (hisr_busy (tasks_on kernel0)) \<noteq> None"
proof -
  obtain L where "\<forall>h. hc_activation_count (hcbs (hisr_busy (tasks_on kernel0)) h) = (if h = 100 \<or> h = 200 then 1 else 0)"
    using hisr_busy_lists[of "tasks_on kernel0"] by metis
  then have "hc_activation_count (hcbs (hisr_busy (tasks_on kernel0)) 100) \<noteq> 0" by simp
  then show ?thesis using hisr_chains_consistent[OF no_hisrs_inv hisr_busy_steps, of "tasks_on kernel0"] by metis
qed

theorem hisr_activations_served_witness:
  "\<exists>s' e'. run_hisrs hisr_esal (logged (\<lambda>n (s, e). (s\<lparr>TCD_Schedule_Lock := True\<rparr>, e + n))) 2
     (TCCT_Schedule (hisr_busy (tasks_on kernel0)), 0, []) = Some (s', e', [55, 66]) \<and> current_hisr s' = None"
proof -
  have en: "activates_nothing (\<lambda>n (s, e :: nat). (s\<lparr>TCD_Schedule_Lock := True\<rparr>, e + n))"
    by (simp add: activates_nothing_def hisr_part_def)
  obtain L where L: "active_lists {} (hisr_busy (tasks_on kernel0)) L" "L 0 = []" "L 1 = [100, 200]" "L 2 = []"
    "executes_highest (hisr_busy (tasks_on kernel0))"
    "\<forall>h. hc_activation_count (hcbs (hisr_busy (tasks_on kernel0)) h) = (if h = 100 \<or> h = 200 then 1 else 0)"
    "\<forall>h. hc_entry (hcbs (hisr_busy (tasks_on kernel0)) h) = hc_entry (hcbs (hisr_seq (tasks_on kernel0)) h)"
    using hisr_busy_lists[of "tasks_on kernel0"] by metis
  have "calls_due (hisr_busy (tasks_on kernel0)) (L 0 @ L 1 @ L 2) = [55, 66]"
    by (simp only: L(2-4)) (simp add: calls_due_def L(6,7) hisr_seq_hcb new_hcb_def Let_def)
  moreover have "length (L 0 @ L 1 @ L 2) = 2" by (simp only: L(2-4)) simp
  ultimately show ?thesis using hisr_activations_served[OF L(1,5) en, of hisr_esal 0] by auto
qed

theorem hisr_priority_inversion_witness:
  "\<exists>s'. TCCT_HISR_Shell hisr_esal (\<lambda>n (x, e). (fst (NU_Activate_HISR 300 x), e)) (hisr_busy (tasks_on kernel0), ()) = Some (s', ()) \<and>
     current_hisr s' = Some 200 \<and> hc_activation_count (hcbs s' 300) = 1"
proof -
  obtain L where L: "active_lists {} (hisr_busy (tasks_on kernel0)) L" "L 1 = [100, 200]"
    "current_hisr (hisr_busy (tasks_on kernel0)) = Some 100" "TCD_Highest_Priority_HISR (hisr_busy (tasks_on kernel0)) = 1"
    "\<forall>h. hc_activation_count (hcbs (hisr_busy (tasks_on kernel0)) h) = (if h = 100 \<or> h = 200 then 1 else 0)"
    "\<forall>h. hisr_view ((hcbs (hisr_busy (tasks_on kernel0)) h)\<lparr>hc_active_next := None\<rparr>) =
       hisr_view ((hcbs (hisr_seq (tasks_on kernel0)) h)\<lparr>hc_active_next := None\<rparr>)"
    using hisr_busy_lists[of "tasks_on kernel0"] by metis
  have "hc_id_valid (hcbs (hisr_busy (tasks_on kernel0)) 300)" "hc_priority (hcbs (hisr_busy (tasks_on kernel0)) 300) = 0"
    using spec[OF L(6), of 300] by (simp_all add: hisr_view_def hisr_seq_hcb new_hcb_def Let_def)
  then show ?thesis
    using hisr_priority_inversion[OF L(1) refl _ _ L(3), of 200 "[]" 300 "\<lambda>n (x, e). (fst (NU_Activate_HISR 300 x), e)" hisr_esal "()"]
    by (auto simp: L(2)[simplified] L(4,5))
qed

end
