(* ===== verification/Dynamic_Memory.thy ===== *)
theory Dynamic_Memory
  imports Scheduler Common_Services
begin

text \<open>
  Dynamic memory pools (\<open>dmc_common.c\<close>, \<open>dmc_deallocate.c\<close>, \<open>dmc_add_memory.c\<close>, \<open>dmc_reallocate.c\<close>, \<open>dmc_delete.c\<close>).

  A pool is memory cut into blocks. In front of each block lies a header; the headers are linked in the order of
  their addresses (\<open>dm_next_memory\<close>, \<open>dm_previous_memory\<close>), with a small trailer at the end of each section of memory, and the free
  blocks are linked in a second ring (\<open>dm_next_free\<close>, \<open>dm_previous_free\<close>). The model keeps the headers in a store by address,
  performs the writes of the code in their order, and keeps addresses and sizes as 32-bit numbers. The contents of
  the blocks are in the byte store \<open>dbytes\<close>. The search for a block follows links, so it is a partial function.
\<close>

section \<open>Data\<close>

record dm_header =
  dm_next_memory :: addr
  dm_previous_memory :: addr
  dm_memory_free :: bool
  dm_memory_pool :: addr
  dm_next_free :: addr
  dm_previous_free :: addr

record dm_pcb =
  dm_id_valid :: bool
  dm_start_address :: addr
  dm_pool_size :: nat
  dm_min_allocation :: nat
  dm_available :: nat
  dm_memory_list :: addr
  dm_fifo_suspend :: bool
  dm_tasks_waiting :: nat
  dm_suspension_list :: "tid list"

record dm_suspend =
  ds_cs_priority :: nat
  ds_memory_pool :: addr
  dm_request_size :: nat
  dm_return_pointer :: addr
  dm_return_status :: status
  dm_alignment :: nat

type_synonym headers = "addr \<Rightarrow> dm_header"

record dsys =
  mpools :: "addr \<Rightarrow> dm_pcb"
  DMD_Created_Pools_List :: "addr list"
  DMD_Total_Pools :: nat
  hdrs :: headers
  dbytes :: "addr \<Rightarrow> 8 word"
  dblocks :: "tid \<Rightarrow> dm_suspend"
  dkern :: kernel

text \<open>The size of the header of an allocated block, and the room a free block needs for its two further links.\<close>

definition DM_OVERHEAD :: nat where "DM_OVERHEAD = 16"
definition DM_MIN_ALLOCATION :: nat where "DM_MIN_ALLOCATION = 8"

definition DM_ADJUSTED_SIZE :: "nat \<Rightarrow> nat" where
  "DM_ADJUSTED_SIZE sz = (add32 sz 3 div 4) * 4"

definition hset :: "(dm_header \<Rightarrow> dm_header) \<Rightarrow> addr \<Rightarrow> headers \<Rightarrow> headers" where
  "hset f x h = h(x := f (h x))"

definition upd_mpool :: "addr \<Rightarrow> (dm_pcb \<Rightarrow> dm_pcb) \<Rightarrow> dsys \<Rightarrow> dsys" where
  "upd_mpool p f s = s\<lparr>mpools := (mpools s)(p := f (mpools s p))\<rparr>"

definition upd_dblock :: "tid \<Rightarrow> (dm_suspend \<Rightarrow> dm_suspend) \<Rightarrow> dsys \<Rightarrow> dsys" where
  "upd_dblock t f s = s\<lparr>dblocks := (dblocks s)(t := f (dblocks s t))\<rparr>"

section \<open>Blocks\<close>

text \<open>
  \<open>DMC_Split_Block\<close>: the block at \<open>x\<close> is cut \<open>size\<close> bytes behind its header address; the new block is linked behind it in
  both rings. The blocks of a pool are a pair of control block and header store.
\<close>

definition DMC_Split_Block ::
    "addr \<Rightarrow> addr \<Rightarrow> nat \<Rightarrow> bool \<Rightarrow> dm_pcb \<times> headers \<Rightarrow> (dm_pcb \<times> headers) \<times> addr" where
  "DMC_Split_Block pool_ptr memory_ptr sz front_split = (\<lambda>(pc, h).
    (let new_ptr = add32 memory_ptr sz;
         h1 = hset (\<lambda>b. b\<lparr>dm_memory_free := True, dm_memory_pool := pool_ptr, dm_previous_memory := memory_ptr\<rparr>) new_ptr h;
         h2 = hset (\<lambda>b. b\<lparr>dm_next_memory := dm_next_memory (h1 memory_ptr)\<rparr>) new_ptr h1;
         h3 = hset (\<lambda>b. b\<lparr>dm_previous_memory := new_ptr\<rparr>) (dm_next_memory (h2 new_ptr)) h2;
         h4 = hset (\<lambda>b. b\<lparr>dm_next_memory := new_ptr\<rparr>) memory_ptr h3;
         h5 = hset (\<lambda>b. b\<lparr>dm_previous_free := memory_ptr\<rparr>) new_ptr h4;
         h6 = hset (\<lambda>b. b\<lparr>dm_next_free := dm_next_free (h5 memory_ptr)\<rparr>) new_ptr h5;
         h7 = hset (\<lambda>b. b\<lparr>dm_previous_free := new_ptr\<rparr>) (dm_next_free (h6 new_ptr)) h6;
         h8 = hset (\<lambda>b. b\<lparr>dm_next_free := new_ptr\<rparr>) memory_ptr h7
     in ((pc\<lparr>dm_available := sub32 (dm_available pc) (if front_split then DM_OVERHEAD else sz)\<rparr>, h8), new_ptr)))"

text \<open>The size of a block between its header and the next one.\<close>

definition block_room :: "headers \<Rightarrow> addr \<Rightarrow> nat" where
  "block_room h memory_ptr = sub32 (sub32 (dm_next_memory (h memory_ptr)) memory_ptr) DM_OVERHEAD"

text \<open>
  The computation of the next aligned address and the bytes in front of it: with too few bytes for a block
  of their own a second, later address is taken. The third component is the block size, 0 when the second
  address is of no use.
\<close>

definition whole_multiple :: "nat \<Rightarrow> nat \<Rightarrow> nat" where
  "whole_multiple alignment a = (a div alignment) * alignment"

definition front_split_of :: "nat \<Rightarrow> nat \<Rightarrow> nat \<Rightarrow> nat \<Rightarrow> nat \<Rightarrow> nat \<times> nat \<times> nat" where
  "front_split_of min_allocation sz alignment address block_size =
    (let next_aligned = whole_multiple alignment (add32 address (alignment - 1));
         split_size = sub32 next_aligned address
     in if split_size < add32 (2 * DM_OVERHEAD) min_allocation then
          (let next_aligned = whole_multiple alignment
                 (add32 (add32 (add32 address (2 * DM_OVERHEAD)) min_allocation) (alignment - 1));
               split_size = sub32 next_aligned address
           in (next_aligned, split_size, if add32 split_size sz > block_size then 0 else block_size))
        else (next_aligned, split_size, block_size))"

text \<open>
  The body of the search loop: the pointer for the next round, the block size found, and the variables \<open>address\<close> and
  \<open>split_size\<close>, which keep their value when they are not assigned.
\<close>

definition examine_block ::
    "nat \<Rightarrow> nat \<Rightarrow> nat \<Rightarrow> headers \<Rightarrow> addr \<Rightarrow> addr \<times> nat \<Rightarrow> addr \<times> nat \<times> addr \<times> nat" where
  "examine_block min_allocation sz alignment h memory_ptr = (\<lambda>(address, split_size).
    (let block_size = block_room h memory_ptr
     in if block_size < sz then (dm_next_free (h memory_ptr), block_size, address, split_size)
        else if alignment \<noteq> 0 then
          (let address = add32 memory_ptr DM_OVERHEAD
           in if address mod alignment \<noteq> 0 then
                (let (next_aligned, split_size, block_size1) =
                       front_split_of min_allocation sz alignment address block_size;
                     block_size2 = (if block_size1 > 0 \<and> next_aligned > add32 address block_size1 then 0 else block_size1);
                     block_size3 = (if block_size2 > split_size then block_size2 - split_size else block_size2)
                 in (if block_size3 < sz then dm_next_free (h memory_ptr) else memory_ptr,
                     block_size3, address, split_size))
              else (memory_ptr, block_size, address, split_size))
        else (memory_ptr, block_size, address, split_size)))"

partial_function (option) search_blocks ::
    "nat \<Rightarrow> nat \<Rightarrow> nat \<Rightarrow> headers \<Rightarrow> addr \<Rightarrow> addr \<Rightarrow> addr \<times> nat \<Rightarrow> (addr \<times> nat \<times> addr \<times> nat) option" where
  "search_blocks min_allocation sz alignment h head memory_ptr vars =
    (let (memory_ptr', block_size, vars') = examine_block min_allocation sz alignment h memory_ptr vars
     in if memory_ptr' \<noteq> head \<and> block_size < sz
        then search_blocks min_allocation sz alignment h head memory_ptr' vars'
        else Some (memory_ptr', block_size, vars'))"

text \<open>
  What is done with the block found: a front split when the block is not aligned, then (\<open>claim_block\<close>) the split behind
  the bytes requested, the flag, and the removal from the ring of free blocks (\<open>unlink_block\<close>).
\<close>

definition drop_free :: "addr \<Rightarrow> headers \<Rightarrow> headers" where
  "drop_free memory_ptr h =
    (let h1 = hset (\<lambda>b. b\<lparr>dm_next_free := dm_next_free (h memory_ptr)\<rparr>) (dm_previous_free (h memory_ptr)) h
     in hset (\<lambda>b. b\<lparr>dm_previous_free := dm_previous_free (h1 memory_ptr)\<rparr>) (dm_next_free (h1 memory_ptr)) h1)"

definition unlink_block :: "addr \<Rightarrow> dm_pcb \<times> headers \<Rightarrow> dm_pcb \<times> headers" where
  "unlink_block memory_ptr = (\<lambda>(pc, h).
    (let h1 = hset (\<lambda>b. b\<lparr>dm_memory_free := False\<rparr>) memory_ptr h
     in if dm_available pc = 0 then (pc\<lparr>dm_memory_list := NU_NULL\<rparr>, h1)
        else
          (let h2 = drop_free memory_ptr h1
           in (if dm_memory_list pc = memory_ptr
               then pc\<lparr>dm_memory_list := dm_next_free (h2 memory_ptr)\<rparr> else pc, h2))))"

definition claim_block :: "addr \<Rightarrow> nat \<Rightarrow> nat \<Rightarrow> addr \<Rightarrow> dm_pcb \<times> headers \<Rightarrow> dm_pcb \<times> headers" where
  "claim_block pool_ptr sz block_size memory_ptr ph =
    unlink_block memory_ptr
      (if block_size \<ge> add32 (add32 sz DM_OVERHEAD) (dm_min_allocation (fst ph))
       then fst (DMC_Split_Block pool_ptr memory_ptr (add32 sz DM_OVERHEAD) False ph)
       else map_prod (dm_available_update (\<lambda>a. sub32 a block_size)) id ph)"

definition take_block ::
    "addr \<Rightarrow> nat \<Rightarrow> nat \<Rightarrow> addr \<times> nat \<times> addr \<times> nat \<Rightarrow> dm_pcb \<times> headers \<Rightarrow> (dm_pcb \<times> headers) \<times> addr" where
  "take_block pool_ptr sz alignment = (\<lambda>(memory_ptr, block_size, address, split_size) ph.
    (let (ph1, memory_ptr1) =
           (if alignment \<noteq> 0 \<and> address mod alignment \<noteq> 0
            then DMC_Split_Block pool_ptr memory_ptr split_size True ph else (ph, memory_ptr))
     in (claim_block pool_ptr sz block_size memory_ptr1 ph1, memory_ptr1)))"

definition DMC_Allocate :: "addr \<Rightarrow> nat \<Rightarrow> nat \<Rightarrow> dm_pcb \<times> headers \<Rightarrow> ((dm_pcb \<times> headers) \<times> addr) option" where
  "DMC_Allocate pool_ptr sz alignment = (\<lambda>(pc, h).
    (if dm_memory_list pc \<noteq> NU_NULL then
       (case search_blocks (dm_min_allocation pc) sz alignment h (dm_memory_list pc) (dm_memory_list pc) (0, 0) of
          None \<Rightarrow> None
        | Some (memory_ptr, block_size, vars) \<Rightarrow>
            Some (if block_size \<ge> sz then take_block pool_ptr sz alignment (memory_ptr, block_size, vars) (pc, h)
                  else ((pc, h), NU_NULL)))
     else Some ((pc, h), NU_NULL)))"

text \<open>\<open>DMC_Deallocate\<close>: merging with the previous neighbour, with the next neighbour, and the free ring.\<close>

definition merge_previous :: "addr \<Rightarrow> dm_pcb \<times> headers \<Rightarrow> (dm_pcb \<times> headers) \<times> addr \<times> bool" where
  "merge_previous header_ptr = (\<lambda>(pc, h).
    (if dm_memory_free (h (dm_previous_memory (h header_ptr))) then
       (let h1 = hset (\<lambda>b. b\<lparr>dm_next_memory := dm_next_memory (h header_ptr)\<rparr>) (dm_previous_memory (h header_ptr)) h;
            h2 = hset (\<lambda>b. b\<lparr>dm_previous_memory := dm_previous_memory (h1 header_ptr)\<rparr>) (dm_next_memory (h1 header_ptr)) h1
        in ((pc\<lparr>dm_available := add32 (dm_available pc) DM_OVERHEAD\<rparr>, h2), dm_previous_memory (h2 header_ptr), True))
     else ((pc, h), header_ptr, False)))"

text \<open>\<open>header_ptr\<close> takes the place of \<open>new_ptr\<close> in the ring of free blocks.\<close>

definition adopt_free :: "addr \<Rightarrow> addr \<Rightarrow> headers \<Rightarrow> headers" where
  "adopt_free header_ptr new_ptr h =
    (let h1 = hset (\<lambda>b. b\<lparr>dm_previous_free := dm_previous_free (h new_ptr)\<rparr>) header_ptr h;
         h2 = hset (\<lambda>b. b\<lparr>dm_next_free := dm_next_free (h1 new_ptr)\<rparr>) header_ptr h1;
         h3 = hset (\<lambda>b. b\<lparr>dm_previous_free := header_ptr\<rparr>) (dm_next_free (h2 new_ptr)) h2
     in hset (\<lambda>b. b\<lparr>dm_next_free := header_ptr\<rparr>) (dm_previous_free (h3 new_ptr)) h3)"

definition merge_next :: "addr \<Rightarrow> bool \<Rightarrow> dm_pcb \<times> headers \<Rightarrow> (dm_pcb \<times> headers) \<times> bool" where
  "merge_next header_ptr in_free_list = (\<lambda>(pc, h).
    (if dm_memory_free (h (dm_next_memory (h header_ptr))) then
       (let new_ptr = dm_next_memory (h header_ptr);
            h1 = hset (\<lambda>b. b\<lparr>dm_previous_memory := header_ptr\<rparr>) (dm_next_memory (h new_ptr)) h;
            h2 = hset (\<lambda>b. b\<lparr>dm_next_memory := dm_next_memory (h1 new_ptr)\<rparr>) header_ptr h1;
            h3 = (if dm_next_free (h2 new_ptr) = new_ptr
                  then hset (\<lambda>b. b\<lparr>dm_next_free := header_ptr\<rparr>) header_ptr
                         (hset (\<lambda>b. b\<lparr>dm_previous_free := header_ptr\<rparr>) header_ptr h2)
                  else if \<not> in_free_list then adopt_free header_ptr new_ptr h2
                  else drop_free new_ptr h2)
        in ((pc\<lparr>dm_available := add32 (dm_available pc) DM_OVERHEAD\<rparr>, h3), True))
     else ((pc, h), in_free_list)))"

definition link_free :: "addr \<Rightarrow> dm_pcb \<times> headers \<Rightarrow> headers" where
  "link_free header_ptr = (\<lambda>(pc, h).
    (if dm_memory_list pc = NU_NULL
     then hset (\<lambda>b. b\<lparr>dm_previous_free := header_ptr\<rparr>) header_ptr (hset (\<lambda>b. b\<lparr>dm_next_free := header_ptr\<rparr>) header_ptr h)
     else
       (let h1 = hset (\<lambda>b. b\<lparr>dm_previous_free := dm_previous_free (h (dm_memory_list pc))\<rparr>) header_ptr h;
            h2 = hset (\<lambda>b. b\<lparr>dm_next_free := header_ptr\<rparr>) (dm_previous_free (h1 header_ptr)) h1;
            h3 = hset (\<lambda>b. b\<lparr>dm_next_free := dm_memory_list pc\<rparr>) header_ptr h2
        in hset (\<lambda>b. b\<lparr>dm_previous_free := header_ptr\<rparr>) (dm_next_free (h3 header_ptr)) h3)))"

definition DMC_Deallocate :: "addr \<Rightarrow> dm_pcb \<times> headers \<Rightarrow> dm_pcb \<times> headers" where
  "DMC_Deallocate header_ptr = (\<lambda>(pc, h).
    (let h1 = hset (\<lambda>b. b\<lparr>dm_memory_free := True\<rparr>) header_ptr h;
         pc1 = pc\<lparr>dm_available := sub32 (add32 (dm_available pc) (sub32 (dm_next_memory (h1 header_ptr)) header_ptr)) DM_OVERHEAD\<rparr>;
         (ph2, header_ptr2, in_free_list) = merge_previous header_ptr (pc1, h1);
         ((pc3, h3), in_free_list3) = merge_next header_ptr2 in_free_list ph2;
         h4 = (if in_free_list3 then h3 else link_free header_ptr2 (pc3, h3))
     in (pc3\<lparr>dm_memory_list := header_ptr2\<rparr>, h4)))"

section \<open>Services\<close>

definition NU_Create_Memory_Pool :: "addr \<Rightarrow> addr \<Rightarrow> nat \<Rightarrow> nat \<Rightarrow> bool option \<Rightarrow> dsys \<Rightarrow> dsys \<times> status" where
  "NU_Create_Memory_Pool p start_address pool_size0 min_allocation0 fifo s =
    (let min_allocation1 = DM_ADJUSTED_SIZE min_allocation0;
         min_allocation = (if min_allocation1 < DM_MIN_ALLOCATION \<and> min_allocation1 \<noteq> 0 then DM_MIN_ALLOCATION
                           else min_allocation1);
         pool_size = DM_ADJUSTED_SIZE pool_size0;
         status = error_checks
           [(p = NU_NULL \<or> dm_id_valid (mpools s p), NU_INVALID_POOL), (start_address = NU_NULL, NU_INVALID_MEMORY),
            (start_address mod 4 \<noteq> 0, NU_NOT_ALIGNED),
            (min_allocation = 0 \<or> add32 min_allocation (2 * DM_OVERHEAD) > pool_size, NU_INVALID_SIZE),
            (fifo = None, NU_INVALID_SUSPEND)] NU_SUCCESS
     in if status = NU_SUCCESS then
          (let available = sub32 pool_size (2 * DM_OVERHEAD);
               trailer = add32 (add32 start_address available) DM_OVERHEAD;
               h1 = hset (\<lambda>b. b\<lparr>dm_memory_pool := p, dm_next_memory := trailer, dm_previous_memory := trailer,
                       dm_memory_free := True, dm_next_free := start_address, dm_previous_free := start_address\<rparr>)
                      start_address (hdrs s);
               h2 = hset (\<lambda>b. b\<lparr>dm_next_memory := start_address, dm_previous_memory := start_address,
                       dm_memory_free := False, dm_memory_pool := p\<rparr>) trailer h1
           in (s\<lparr>mpools := (mpools s)(p := \<lparr>dm_id_valid = True, dm_start_address = start_address, dm_pool_size = pool_size,
                   dm_min_allocation = min_allocation, dm_available = available, dm_memory_list = start_address,
                   dm_fifo_suspend = (fifo = Some True), dm_tasks_waiting = 0, dm_suspension_list = []\<rparr>),
                 DMD_Created_Pools_List := DMD_Created_Pools_List s @ [p],
                 DMD_Total_Pools := inc32 (DMD_Total_Pools s), hdrs := h2,
                 dbytes := (\<lambda>a. if start_address \<le> a \<and> a < start_address + pool_size then 255 else dbytes s a)\<rparr>,
              NU_SUCCESS))
        else (s, status))"

text \<open>
  The result of an allocation is the state, the status (\<open>None\<close> when the caller has been suspended), the value written to
  \<open>*return_pointer\<close> (the flag \<open>dest\<close> tells whether that pointer is not null) and whether control goes to the system.
\<close>

definition enlist_memory_caller :: "addr \<Rightarrow> tid \<Rightarrow> nat \<Rightarrow> nat \<Rightarrow> dsys \<Rightarrow> dsys" where
  "enlist_memory_caller p task sz alignment s =
    (let s1 = upd_mpool p (dm_tasks_waiting_update inc32) s;
         s2 = upd_dblock task (\<lambda>b. b\<lparr>ds_memory_pool := p, dm_request_size := sz, dm_alignment := alignment\<rparr>) s1
     in if dm_fifo_suspend (mpools s2 p)
        then upd_mpool p (\<lambda>q. q\<lparr>dm_suspension_list := dm_suspension_list q @ [task]\<rparr>) s2
        else
          (let s3 = upd_dblock task (\<lambda>b. b\<lparr>ds_cs_priority := tc_priority (tcbs (dkern s2) task)\<rparr>) s2
           in upd_mpool p (\<lambda>q. q\<lparr>dm_suspension_list :=
                priority_place (\<lambda>u. ds_cs_priority (dblocks s3 u)) task (dm_suspension_list q)\<rparr>) s3))"

definition adjusted_request :: "nat \<Rightarrow> nat \<Rightarrow> nat" where
  "adjusted_request min_allocation sz = (if sz < min_allocation then min_allocation else DM_ADJUSTED_SIZE sz)"

definition NU_Allocate_Aligned_Memory ::
    "addr \<Rightarrow> bool \<Rightarrow> nat \<Rightarrow> nat \<Rightarrow> nat \<Rightarrow> dsys \<Rightarrow> (dsys \<times> status option \<times> addr option \<times> bool) option" where
  "NU_Allocate_Aligned_Memory p dest size0 alignment0 suspend s =
    (let pc = mpools s p;
         status = error_checks
           [(p = NU_NULL, NU_INVALID_POOL), (\<not> dm_id_valid pc, NU_INVALID_POOL), (\<not> dest, NU_INVALID_POINTER),
            (size0 = 0 \<or> size0 > sub32 (dm_pool_size pc) (2 * DM_OVERHEAD), NU_INVALID_SIZE),
            (suspend \<noteq> 0 \<and> TCCE_Suspend_Error (dkern s), NU_INVALID_SUSPEND)] NU_SUCCESS
     in if status = NU_SUCCESS then
          (let sz = adjusted_request (dm_min_allocation pc) size0;
               alignment = (if alignment0 \<noteq> 0 then DM_ADJUSTED_SIZE alignment0 else alignment0)
           in case DMC_Allocate p sz alignment (pc, hdrs s) of
                None \<Rightarrow> None
              | Some ((pc1, h1), memory_ptr) \<Rightarrow>
                  Some (let s1 = s\<lparr>mpools := (mpools s)(p := pc1), hdrs := h1\<rparr>
                        in if memory_ptr \<noteq> NU_NULL
                           then (s1, Some NU_SUCCESS, Some (add32 memory_ptr DM_OVERHEAD), False)
                           else if suspend \<noteq> 0 then
                             (let task = current_task (dkern s1);
                                  s2 = enlist_memory_caller p task sz alignment s1;
                                  (k, leaves, _) = TCC_Suspend_Task task NU_MEMORY_SUSPEND (Some task) suspend (dkern s2)
                              in (s2\<lparr>dkern := k\<rparr>, None, None, leaves))
                           else (s1, Some NU_NO_MEMORY, Some NU_NULL, False)))
        else Some (s, Some status, None, False))"

text \<open>The end of the service when the suspended task \<open>t\<close> runs again: its status and pointer.\<close>

definition allocate_resumed :: "tid \<Rightarrow> dsys \<Rightarrow> status \<times> addr" where
  "allocate_resumed t s = (dm_return_status (dblocks s t), dm_return_pointer (dblocks s t))"

text \<open>The loop of \<open>NU_Deallocate_Memory\<close> over the waiting tasks: it stops at the first that cannot be served.\<close>

fun serve_waiting :: "addr \<Rightarrow> tid list \<Rightarrow> dsys \<times> bool \<Rightarrow> (dsys \<times> bool) option" where
  "serve_waiting p [] (s, preempt) = Some (s, preempt)"
| "serve_waiting p (t # ts) (s, preempt) =
    (case DMC_Allocate p (dm_request_size (dblocks s t)) (dm_alignment (dblocks s t)) (mpools s p, hdrs s) of
       None \<Rightarrow> None
     | Some ((pc1, h1), header_ptr) \<Rightarrow>
         (if header_ptr \<noteq> NU_NULL then
            (let s1 = s\<lparr>mpools := (mpools s)(p := pc1), hdrs := h1\<rparr>;
                 s2 = upd_mpool p (\<lambda>q. q\<lparr>dm_tasks_waiting := dec32 (dm_tasks_waiting q),
                        dm_suspension_list := remove1 t (dm_suspension_list q)\<rparr>) s1;
                 s3 = upd_dblock t (\<lambda>b. b\<lparr>dm_return_pointer := add32 header_ptr DM_OVERHEAD,
                        dm_return_status := NU_SUCCESS\<rparr>) s2;
                 (k, r) = TCC_Resume_Task t NU_MEMORY_SUSPEND (dkern s3)
             in serve_waiting p ts (s3\<lparr>dkern := k\<rparr>, preempt \<or> r))
          else Some (s\<lparr>mpools := (mpools s)(p := pc1), hdrs := h1\<rparr>, preempt)))"

definition NU_Deallocate_Memory :: "addr \<Rightarrow> dsys \<Rightarrow> (dsys \<times> status \<times> bool) option" where
  "NU_Deallocate_Memory memory s =
    (let header_ptr = sub32 memory DM_OVERHEAD;
         p = dm_memory_pool (hdrs s header_ptr);
         status = error_checks
           [(memory = NU_NULL, NU_INVALID_POINTER), (header_ptr = NU_NULL, NU_INVALID_POINTER),
            (p = NU_NULL, NU_INVALID_POINTER), (\<not> dm_id_valid (mpools s p), NU_INVALID_POINTER),
            (dm_memory_free (hdrs s header_ptr), NU_INVALID_POINTER)] NU_SUCCESS
     in if status = NU_SUCCESS then
          (let (pc1, h1) = DMC_Deallocate header_ptr (mpools s p, hdrs s);
               s1 = s\<lparr>mpools := (mpools s)(p := pc1), hdrs := h1\<rparr>
           in case serve_waiting p (dm_suspension_list (mpools s1 p)) (s1, False) of
                None \<Rightarrow> None
              | Some (s2, preempt) \<Rightarrow> Some (s2, NU_SUCCESS, preempt))
        else Some (s, status, False))"

definition NU_Add_Memory :: "addr \<Rightarrow> addr \<Rightarrow> nat \<Rightarrow> dsys \<Rightarrow> dsys \<times> status" where
  "NU_Add_Memory p memory_start_address memory_size0 s =
    (let memory_size = DM_ADJUSTED_SIZE memory_size0;
         pc = mpools s p;
         status = error_checks
           [(p = NU_NULL \<or> \<not> dm_id_valid pc, NU_INVALID_POOL), (memory_start_address = NU_NULL, NU_INVALID_MEMORY),
            (memory_start_address mod 4 \<noteq> 0, NU_NOT_ALIGNED),
            (add32 (dm_min_allocation pc) (2 * DM_OVERHEAD) > memory_size, NU_INVALID_SIZE)] NU_SUCCESS
     in if status = NU_SUCCESS then
          (let pc1 = pc\<lparr>dm_pool_size := add32 (dm_pool_size pc) memory_size,
                       dm_available := add32 (dm_available pc) (sub32 memory_size (2 * DM_OVERHEAD))\<rparr>;
               trailer = sub32 (add32 memory_start_address memory_size) DM_OVERHEAD;
               h1 = hset (\<lambda>b. b\<lparr>dm_memory_pool := p, dm_next_memory := trailer, dm_previous_memory := trailer,
                       dm_memory_free := True\<rparr>) memory_start_address (hdrs s);
               (pc2, h2) =
                 (if dm_memory_list pc1 = NU_NULL
                  then (pc1\<lparr>dm_memory_list := memory_start_address\<rparr>,
                        hset (\<lambda>b. b\<lparr>dm_next_free := memory_start_address, dm_previous_free := memory_start_address\<rparr>)
                          memory_start_address h1)
                  else
                    (let old_header_ptr = dm_memory_list pc1;
                         g1 = hset (\<lambda>b. b\<lparr>dm_next_free := old_header_ptr,
                                dm_previous_free := dm_previous_free (h1 old_header_ptr)\<rparr>) memory_start_address h1;
                         g2 = hset (\<lambda>b. b\<lparr>dm_next_free := memory_start_address\<rparr>) (dm_previous_free (g1 old_header_ptr)) g1
                     in (pc1, hset (\<lambda>b. b\<lparr>dm_previous_free := memory_start_address\<rparr>) old_header_ptr g2)));
               h3 = hset (\<lambda>b. b\<lparr>dm_next_memory := memory_start_address, dm_previous_memory := memory_start_address,
                       dm_memory_free := False, dm_memory_pool := p\<rparr>) (dm_next_memory (h2 memory_start_address)) h2
           in (s\<lparr>mpools := (mpools s)(p := pc2), hdrs := h3\<rparr>, NU_SUCCESS))
        else (s, status))"

text \<open>
  Reallocation. \<open>memory_ptr\<close> is \<open>None\<close> for a null pointer and otherwise the value it points to; the third component of the
  result is the value it points to afterwards. \<open>reallocate_finish\<close> is the part behind a successful allocation.
\<close>

definition reallocate_finish :: "addr \<Rightarrow> addr \<Rightarrow> nat \<Rightarrow> dsys \<Rightarrow> (dsys \<times> status \<times> bool) option" where
  "reallocate_finish orig_ptr new_ptr sz s =
    (if orig_ptr \<noteq> NU_NULL then
       (let header_ptr = sub32 orig_ptr DM_OVERHEAD
        in if dm_id_valid (mpools s (dm_memory_pool (hdrs s header_ptr))) \<and> \<not> dm_memory_free (hdrs s header_ptr) then
             (let block_size0 = block_room (hdrs s) header_ptr;
                  block_size = (if block_size0 > sz then sz else block_size0);
                  s1 = s\<lparr>dbytes := (\<lambda>a. if new_ptr \<le> a \<and> a < new_ptr + block_size
                                     then dbytes s (orig_ptr + (a - new_ptr)) else dbytes s a)\<rparr>
              in NU_Deallocate_Memory orig_ptr s1)
           else Some (s, NU_SUCCESS, False))
     else Some (s, NU_SUCCESS, False))"

definition NU_Reallocate_Aligned_Memory ::
    "addr \<Rightarrow> addr option \<Rightarrow> nat \<Rightarrow> nat \<Rightarrow> nat \<Rightarrow> dsys \<Rightarrow> (dsys \<times> status option \<times> addr option \<times> bool) option" where
  "NU_Reallocate_Aligned_Memory p memory_ptr sz alignment suspend s =
    (let status = error_checks
           [(p = NU_NULL, NU_INVALID_POOL), (\<not> dm_id_valid (mpools s p), NU_INVALID_POOL),
            (memory_ptr = None, NU_INVALID_POINTER),
            (sz > sub32 (dm_pool_size (mpools s p)) (2 * DM_OVERHEAD), NU_INVALID_SIZE),
            (suspend \<noteq> 0 \<and> TCCE_Suspend_Error (dkern s), NU_INVALID_SUSPEND)] NU_SUCCESS;
         orig_ptr = the memory_ptr
     in if status = NU_SUCCESS then
          (if sz = 0 \<and> orig_ptr \<noteq> NU_NULL then
             (case NU_Deallocate_Memory orig_ptr s of
                None \<Rightarrow> None
              | Some (s1, st, preempt) \<Rightarrow> Some (s1, Some st, Some NU_NULL, preempt))
           else
             (case NU_Allocate_Aligned_Memory p True sz alignment suspend s of
                None \<Rightarrow> None
              | Some (s1, None, _, leaves) \<Rightarrow> Some (s1, None, memory_ptr, leaves)
              | Some (s1, Some st, ret, leaves) \<Rightarrow>
                  if st = NU_SUCCESS then
                    (case reallocate_finish orig_ptr (the ret) sz s1 of
                       None \<Rightarrow> None
                     | Some (s2, st2, preempt) \<Rightarrow> Some (s2, Some st2, ret, preempt))
                  else Some (s1, Some st, memory_ptr, leaves)))
        else Some (s, Some status, memory_ptr, False))"

definition DMC_Cleanup :: "tid \<Rightarrow> dsys \<Rightarrow> dsys" where
  "DMC_Cleanup t s =
    (let p = ds_memory_pool (dblocks s t)
     in upd_mpool p (\<lambda>q. q\<lparr>dm_tasks_waiting := dec32 (dm_tasks_waiting q),
                       dm_suspension_list := remove1 t (dm_suspension_list q)\<rparr>)
          (upd_dblock t (\<lambda>b. b\<lparr>dm_return_pointer := NU_NULL, dm_return_status := NU_TIMEOUT\<rparr>) s))"

definition NU_Delete_Memory_Pool :: "addr \<Rightarrow> dsys \<Rightarrow> dsys \<times> status \<times> bool" where
  "NU_Delete_Memory_Pool p s =
    (let status = error_checks [(p = NU_NULL, NU_INVALID_POOL), (\<not> dm_id_valid (mpools s p), NU_INVALID_POOL)] NU_SUCCESS
     in if status = NU_SUCCESS then
          (let s1 = (upd_mpool p (dm_id_valid_update (\<lambda>_. False)) s)
                      \<lparr>DMD_Created_Pools_List := remove1 p (DMD_Created_Pools_List s),
                       DMD_Total_Pools := dec32 (DMD_Total_Pools s)\<rparr>;
               ts = dm_suspension_list (mpools s1 p);
               (k, preempt) = resume_each TCC_Resume_Task NU_MEMORY_SUSPEND ts (dkern s1, False)
           in (s1\<lparr>dblocks := (\<lambda>t. if t \<in> set ts
                    then (dblocks s1 t)\<lparr>dm_return_pointer := NU_NULL, dm_return_status := NU_POOL_DELETED\<rparr>
                    else dblocks s1 t),
                  dkern := k\<rparr>, NU_SUCCESS, preempt))
        else (s, status, False))"

text \<open>A time-out of a suspended task (\<open>TCC_Task_Timeout\<close> with the clean-up routine of memory pools).\<close>

definition memory_timeout :: "tid \<Rightarrow> dsys \<Rightarrow> dsys" where
  "memory_timeout t s =
    (let (k, s1) = TCC_Task_Timeout DMC_Cleanup t (dkern s, s) in s1\<lparr>dkern := k\<rparr>)"

end
