(* ===== verification/Memory_Blocks.thy ===== *)
theory Memory_Blocks
  imports Dynamic_Memory
begin

text \<open>
  The block structure of memory pools: what splitting, allocating and deallocating do to the blocks.

  A set \<open>B\<close> of header addresses \<^emph>\<open>tiles\<close> memory when the links through \<open>dm_next_memory\<close> and \<open>dm_previous_memory\<close> lead from each block to
  its neighbour and no block begins inside another. The memory covered, \<open>area\<close>, is the same before and after every
  operation. The free blocks are exactly the members of the second ring (\<open>free_ring\<close>), no two of them are
  neighbours, and \<open>dm_available\<close> is the sum of their sizes (\<open>pool_ok\<close>).
\<close>

section \<open>The ring of free blocks\<close>

abbreviation nm :: "headers \<Rightarrow> addr \<Rightarrow> addr" where "nm h x \<equiv> dm_next_memory (h x)"
abbreviation pm :: "headers \<Rightarrow> addr \<Rightarrow> addr" where "pm h x \<equiv> dm_previous_memory (h x)"
abbreviation fr :: "headers \<Rightarrow> addr \<Rightarrow> bool" where "fr h x \<equiv> dm_memory_free (h x)"
abbreviation nf :: "headers \<Rightarrow> addr \<Rightarrow> addr" where "nf h x \<equiv> dm_next_free (h x)"
abbreviation pf :: "headers \<Rightarrow> addr \<Rightarrow> addr" where "pf h x \<equiv> dm_previous_free (h x)"

definition free_view :: "headers \<Rightarrow> cs_store" where
  "free_view h = (\<lambda>x. \<lparr>cs_previous = pf h x, cs_next = nf h x, cs_priority = 0\<rparr>)"

lemma free_view_simps [simp]: "cs_next (free_view h x) = nf h x" "cs_previous (free_view h x) = pf h x"
  by (simp_all add: free_view_def)

definition free_ring :: "headers \<Rightarrow> addr \<Rightarrow> addr set \<Rightarrow> bool" where
  "free_ring h head F \<longleftrightarrow> (\<exists>xs. cs_ring (free_view h) head xs \<and> set xs = F)"

text \<open>Only the links of the nodes of a ring matter.\<close>

lemma cs_ring_links:
  assumes "cs_ring m x xs" "\<forall>a \<in> set xs. cs_next (m' a) = cs_next (m a) \<and> cs_previous (m' a) = cs_previous (m a)"
  shows "cs_ring m' x xs"
proof (cases xs)
  case (Cons y ys)
  with assms(1) have "dseg m y ys y" by simp
  then have "dseg m' y ys y" by (rule dseg_frame) (use assms Cons in auto)
  then show ?thesis using assms Cons by simp
qed (use assms in simp)

lemma cs_ring_rotate_to:
  assumes "cs_ring m head (as @ y # bs)"
  shows "cs_ring m y (y # bs @ as)"
  using assms by (cases as) (auto simp: dseg_append)

lemma free_ring_from:
  assumes "free_ring h head F" "x \<in> F"
  obtains xs where "cs_ring (free_view h) x (x # xs)" "F = insert x (set xs)" "x \<notin> set xs" "0 \<notin> F"
proof -
  from assms obtain as bs where r: "cs_ring (free_view h) head (as @ x # bs)" and F: "set (as @ x # bs) = F"
    unfolding free_ring_def by (metis in_set_conv_decomp)
  have c: "cs_ring (free_view h) x (x # bs @ as)" by (rule cs_ring_rotate_to[OF r])
  then show thesis by (rule that) (use c F in auto)
qed

lemma free_ring_rotate:
  assumes "free_ring h head F" "x \<in> F"
  shows "free_ring h x F"
proof -
  from assms obtain xs where "cs_ring (free_view h) x (x # xs)" "F = insert x (set xs)" by (rule free_ring_from)
  then show ?thesis unfolding free_ring_def by (intro exI[of _ "x # xs"]) simp
qed

lemma free_ring_head: "free_ring h head F \<Longrightarrow> head = 0 \<longleftrightarrow> F = {}" "free_ring h head F \<Longrightarrow> F \<noteq> {} \<Longrightarrow> head \<in> F"
  "free_ring h head F \<Longrightarrow> finite F"
proof -
  assume "free_ring h head F"
  then obtain xs where "cs_ring (free_view h) head xs" "set xs = F" by (auto simp: free_ring_def)
  then show "head = 0 \<longleftrightarrow> F = {}" "F \<noteq> {} \<Longrightarrow> head \<in> F" "finite F" by (cases xs; auto)+
qed

lemma free_ring_empty [simp]: "free_ring h 0 {}"
  by (auto simp: free_ring_def intro: exI[of _ "[]"])

lemma free_ring_links:
  assumes "free_ring h head F" "x \<in> F"
  shows "nf h x \<in> F" "pf h x \<in> F" "pf h (nf h x) = x" "nf h (pf h x) = x" "nf h x = x \<longleftrightarrow> F = {x}" "x \<noteq> 0"
proof -
  from assms obtain xs where r: "cs_ring (free_view h) x (x # xs)" and F: "F = insert x (set xs)" "x \<notin> set xs" "0 \<notin> F"
    by (rule free_ring_from)
  from r have seg: "dseg (free_view h) x xs x" by simp
  have n: "nf h x = hd (xs @ [x])" using dseg_next[OF seg] by simp
  have p: "pf h x = last (x # xs)" using dseg_previous[OF seg] by simp
  show "nf h x \<in> F" using n F by (cases xs) auto
  show "pf h x \<in> F" using p F last_in_set[of "x # xs"] by (simp del: last.simps)
  show "pf h (nf h x) = x" using seg by (cases xs) auto
  show "nf h x = x \<longleftrightarrow> F = {x}" using n F by (cases xs) auto
  show "x \<noteq> 0" using F by auto
  show "nf h (pf h x) = x"
  proof (cases xs rule: rev_cases)
    case (snoc ys l)
    then have "dseg (free_view h) l [] x" using seg by (simp add: dseg_append)
    then show ?thesis using p snoc by simp
  qed (use seg in simp)
qed

lemma free_ring_same:
  assumes "free_ring h head F" "\<forall>a \<in> F. nf h' a = nf h a \<and> pf h' a = pf h a"
  shows "free_ring h' head F"
  using assms cs_ring_links[of "free_view h" head _ "free_view h'"] unfolding free_ring_def
  by (metis free_view_simps)

lemma free_ring_insert:
  assumes ring: "free_ring h head F" "x \<in> F" and new: "new \<notin> F" "new \<noteq> 0"
    and n: "\<forall>a \<in> insert new F. nf h' a = (if a = new then nf h x else if a = x then new else nf h a)"
    and p: "\<forall>a \<in> insert new F. pf h' a = (if a = nf h x then new else if a = new then x else pf h a)"
  shows "free_ring h' x (insert new F)"
proof -
  from ring obtain xs where r: "cs_ring (free_view h) x (x # xs)" and F: "F = insert x (set xs)" "x \<notin> set xs"
    by (rule free_ring_from)
  have n': "new \<noteq> nf h x" using free_ring_links(1)[OF ring] new by auto
  have l: "cs_ring (insert_before (free_view h) (nf h x) new) x (x # new # xs)"
  proof (cases xs)
    case Nil
    then show ?thesis using cs_ring_insert_before_head[OF r] r new F by simp
  next
    case (Cons y ys)
    then show ?thesis using cs_ring_insert_before[of "free_view h" x "[]" y ys new] r new F by simp
  qed
  have "cs_previous (free_view h (nf h x)) = x" using free_ring_links(3)[OF ring] by simp
  then have "cs_ring (free_view h') x (x # new # xs)"
    by (intro cs_ring_links[OF l] ballI) (use n p new n' ring F in \<open>auto simp: insert_before_links\<close>)
  then show ?thesis using F unfolding free_ring_def by (intro exI[of _ "x # new # xs"]) auto
qed

lemma free_ring_remove:
  assumes ring: "free_ring h head F" "x \<in> F" "F \<noteq> {x}"
    and n: "\<forall>a \<in> F - {x}. nf h' a = (if a = pf h x then nf h x else nf h a)"
    and p: "\<forall>a \<in> F - {x}. pf h' a = (if a = nf h x then pf h x else pf h a)"
  shows "free_ring h' (nf h x) (F - {x})"
proof -
  from ring(1,2) obtain xs where r: "cs_ring (free_view h) x (x # xs)" and F: "F = insert x (set xs)" "x \<notin> set xs"
    by (rule free_ring_from)
  from ring F obtain y ys where xs: "xs = y # ys" by (cases xs) auto
  have y: "nf h x = y" using r xs by simp
  have nx: "nf h x \<noteq> x" "pf h x \<noteq> x"
    using free_ring_links(3,4,5)[OF ring(1,2)] ring(3) by auto
  have l: "cs_ring (unlink (free_view h) x) y (y # ys)" by (rule unlink_head) (use r xs in simp)
  have "cs_ring (free_view h') y (y # ys)"
    by (intro cs_ring_links[OF l] ballI) (use n p F xs nx in \<open>auto simp: unlink_def\<close>)
  then show ?thesis using F xs y unfolding free_ring_def by (intro exI[of _ "y # ys"]) auto
qed

lemma free_ring_replace:
  assumes ring: "free_ring h head F" "y \<in> F" "F \<noteq> {y}" and x: "x \<notin> F" "x \<noteq> 0"
    and n: "\<forall>a \<in> insert x (F - {y}). nf h' a = (if a = x then nf h y else if a = pf h y then x else nf h a)"
    and p: "\<forall>a \<in> insert x (F - {y}). pf h' a = (if a = x then pf h y else if a = nf h y then x else pf h a)"
  shows "free_ring h' x (insert x (F - {y}))"
proof -
  define g where "g = (\<lambda>a. (h a)\<lparr>dm_next_free := (if a = x then nf h y else if a = y then x else nf h a),
    dm_previous_free := (if a = nf h y then x else if a = x then y else pf h a)\<rparr>)"
  have ny: "nf h y \<noteq> y" "pf h y \<noteq> y" "nf h y \<in> F" "pf h y \<in> F"
    using free_ring_links[OF ring(1,2)] ring(3) by auto
  have g: "free_ring g y (insert x F)"
    by (rule free_ring_insert[OF ring(1,2) x]) (auto simp: g_def)
  have "free_ring h' (nf g y) (insert x F - {y})"
    by (rule free_ring_remove[OF g]) (use n p ny x ring in \<open>auto simp: g_def\<close>)
  moreover have "nf g y = x" "insert x F - {y} = insert x (F - {y})" using x ring by (auto simp: g_def)
  ultimately show ?thesis by simp
qed

lemma free_ring_single: "nf h x = x \<Longrightarrow> pf h x = x \<Longrightarrow> x \<noteq> 0 \<Longrightarrow> free_ring h x {x}"
  unfolding free_ring_def by (intro exI[of _ "[x]"]) simp

section \<open>Tilings\<close>

text \<open>The end of a block; a trailer, which is followed by a block at a lower address, is only a header.\<close>

definition blk_end :: "headers \<Rightarrow> addr \<Rightarrow> addr" where
  "blk_end h x = (if x < nm h x then nm h x else x + 16)"

definition area :: "addr set \<Rightarrow> headers \<Rightarrow> addr set" where
  "area B h = (\<Union>x\<in>B. {x..<blk_end h x})"

text \<open>Pools lie below the last 128 bytes of the address space, so that no address computation wraps around.\<close>

abbreviation memory_top :: addr where "memory_top \<equiv> 4294967168"

definition tiles :: "addr \<Rightarrow> nat \<Rightarrow> addr set \<Rightarrow> headers \<Rightarrow> bool" where
  "tiles p mn B h \<longleftrightarrow> finite B \<and> 0 \<notin> B \<and>
    (\<forall>x\<in>B. nm h x \<in> B \<and> pm h x \<in> B \<and> pm h (nm h x) = x \<and> nm h (pm h x) = x \<and>
       dm_memory_pool (h x) = p \<and> x mod 4 = 0 \<and> blk_end h x \<le> memory_top \<and>
       (\<forall>b\<in>B. \<not> (x < b \<and> b < blk_end h x)) \<and>
       (x < nm h x \<longrightarrow> x + 16 + mn \<le> nm h x) \<and> (fr h x \<longrightarrow> x < nm h x))"

lemma tilesD:
  assumes "tiles p mn B h" "x \<in> B"
  shows "nm h x \<in> B" "pm h x \<in> B" "pm h (nm h x) = x" "nm h (pm h x) = x" "dm_memory_pool (h x) = p" "x mod 4 = 0"
    "blk_end h x \<le> memory_top" "b \<in> B \<Longrightarrow> x < b \<Longrightarrow> b < blk_end h x \<Longrightarrow> False"
    "x < nm h x \<Longrightarrow> x + 16 + mn \<le> nm h x" "fr h x \<Longrightarrow> x < nm h x" "x \<noteq> 0"
  using assms by (auto simp: tiles_def intro!: gr0I)

lemma tiles_inj: "tiles p mn B h \<Longrightarrow> x \<in> B \<Longrightarrow> y \<in> B \<Longrightarrow> nm h x = nm h y \<longleftrightarrow> x = y"
  by (metis tilesD(3))

lemma tiles_finite: "tiles p mn B h \<Longrightarrow> finite B"
  by (simp add: tiles_def)

lemma tiles_split:
  assumes t: "tiles p mn B h" "x \<in> B" "x + 16 + mn \<le> n" "n + 16 + mn \<le> nm h x" "n mod 4 = 0"
    and h': "\<And>a. nm h' a = (if a = n then nm h x else if a = x then n else nm h a)"
      "\<And>a. pm h' a = (if a = nm h x then n else if a = n then x else pm h a)"
      "\<And>a. fr h' a = (a = n \<or> fr h a)" "\<And>a. dm_memory_pool (h' a) = (if a = n then p else dm_memory_pool (h a))"
  shows "tiles p mn (insert n B) h'" "area (insert n B) h' = area B h" "n \<notin> B"
proof -
  let ?E = "nm h x"
  have x: "x < n" "n < ?E" "x < ?E" using assms(3,4) by auto
  then have e: "blk_end h x = ?E" by (simp add: blk_end_def)
  show nB: "n \<notin> B" using tilesD(8)[OF t(1,2), of n] x e by auto
  have ends: "blk_end h' n = ?E" "blk_end h' x = n" "a \<noteq> n \<Longrightarrow> a \<noteq> x \<Longrightarrow> blk_end h' a = blk_end h a" for a
    using x by (auto simp: blk_end_def h')
  have apart: "\<not> (a < n \<and> n < blk_end h a)" if "a \<in> B" "a \<noteq> x" for a
    using tilesD(8)[OF t(1) that(1) t(2)] tilesD(8)[OF t(1,2) that(1)] that x e by force
  show "tiles p mn (insert n B) h'"
    unfolding tiles_def
  proof (intro conjI ballI)
    show "finite (insert n B)" "0 \<notin> insert n B" using t(1) x by (auto simp: tiles_def)
    fix a assume a: "a \<in> insert n B"
    note D = tilesD[OF t(1)] and X = tilesD[OF t(1,2)]
    show "nm h' a \<in> insert n B" "pm h' a \<in> insert n B" using a D t(2) by (auto simp: h')
    show "pm h' (nm h' a) = a" "nm h' (pm h' a) = a"
      using a D X t(2) nB x tiles_inj[OF t(1) _ t(2)] by (auto simp: h' split: if_splits)
    show "dm_memory_pool (h' a) = p" "a mod 4 = 0" using a D t(5) by (auto simp: h')
    show "blk_end h' a \<le> memory_top" using a ends D(7)[of a] X(7) e x by (cases "a = n"; cases "a = x") auto
    show "\<not> (a < b \<and> b < blk_end h' a)" if "b \<in> insert n B" for b
    proof -
      consider "a = n" | "a = x" | "a \<in> B" "a \<noteq> x" "a \<noteq> n" using a by auto
      then show ?thesis
      proof cases
        case 1 then show ?thesis using that ends X(8)[of b] x e by auto
      next
        case 2 then show ?thesis using that ends X(8)[of b] x e by auto
      next
        case 3 then show ?thesis using that ends(3) apart D(8)[of a b] by auto
      qed
    qed
    show "a < nm h' a \<longrightarrow> a + 16 + mn \<le> nm h' a" using a D(9)[of a] t(3,4) by (auto simp: h')
    show "fr h' a \<longrightarrow> a < nm h' a" using a D(10)[of a] x by (auto simp: h')
  qed
  have "insert n B = insert n (insert x (B - {x}))" using t(2) by auto
  then have "area (insert n B) h' = {n..<?E} \<union> {x..<n} \<union> (\<Union>a\<in>B - {x}. {a..<blk_end h' a})"
    using ends(1,2) unfolding area_def by (simp add: Un_assoc del: insert_Diff_single)
  also have "(\<Union>a\<in>B - {x}. {a..<blk_end h' a}) = (\<Union>a\<in>B - {x}. {a..<blk_end h a})"
    by (rule SUP_cong[OF refl]) (metis DiffE ends(3) nB singletonI)
  also have "{n..<?E} \<union> {x..<n} \<union> (\<Union>a\<in>B - {x}. {a..<blk_end h a}) =
      {x..<blk_end h x} \<union> (\<Union>a\<in>B - {x}. {a..<blk_end h a})" using x e by auto
  also have "\<dots> = area B h" using t(2) by (auto simp: area_def)
  finally show "area (insert n B) h' = area B h" .
qed

lemma tiles_merge:
  assumes t: "tiles p mn B h" "x \<in> B" "x < nm h x" and y: "y = nm h x" "y < nm h y"
    and h': "\<And>a. nm h' a = (if a = x then nm h y else nm h a)"
      "\<And>a. pm h' a = (if a = nm h y then x else pm h a)"
      "\<And>a. fr h' a = fr h a" "\<And>a. dm_memory_pool (h' a) = dm_memory_pool (h a)"
  shows "tiles p mn (B - {y}) h'" "area (B - {y}) h' = area B h"
proof -
  note D = tilesD[OF t(1)] and X = tilesD[OF t(1,2)]
  have yB: "y \<in> B" using X(1) y by simp
  note Y = D[OF yB]
  have e: "blk_end h x = y" "blk_end h y = nm h y" using t y by (simp_all add: blk_end_def)
  have ends: "blk_end h' x = nm h y" "a \<noteq> x \<Longrightarrow> blk_end h' a = blk_end h a" for a
    using t y by (auto simp: blk_end_def h')
  show "tiles p mn (B - {y}) h'"
    unfolding tiles_def
  proof (intro conjI ballI)
    show "finite (B - {y})" "0 \<notin> B - {y}" using t(1) by (auto simp: tiles_def)
    fix a assume a: "a \<in> B - {y}"
    then have aB: "a \<in> B" "a \<noteq> y" by auto
    show "nm h' a \<in> B - {y}" using aB D(1,3)[OF aB(1)] Y X y by (auto simp: h')
    show "pm h' a \<in> B - {y}" using aB D(2,4)[OF aB(1)] Y X y t by (auto simp: h')
    show "pm h' (nm h' a) = a" using aB D(3)[OF aB(1)] Y X y by (auto simp: h')
    show "nm h' (pm h' a) = a" using aB D(4)[OF aB(1)] Y X y by (auto simp: h')
    show "dm_memory_pool (h' a) = p" "a mod 4 = 0" using D[OF aB(1)] by (auto simp: h')
    show "blk_end h' a \<le> memory_top" using ends D(7)[OF aB(1)] Y(7) e by (cases "a = x") auto
    show "\<not> (a < b \<and> b < blk_end h' a)" if "b \<in> B - {y}" for b
      using that ends X(8)[of b] Y(8)[of b] D(8)[OF aB(1), of b] e by (cases "a = x") force+
    show "a < nm h' a \<longrightarrow> a + 16 + mn \<le> nm h' a" using D(9)[OF aB(1)] X(9)[OF t(3)] Y(9)[OF y(2)] y by (auto simp: h')
    show "fr h' a \<longrightarrow> a < nm h' a" using D(10)[OF aB(1)] t y by (auto simp: h')
  qed
  have "B - {y} = insert x (B - {x, y})" using t y by auto
  then have "area (B - {y}) h' = {x..<nm h y} \<union> (\<Union>a\<in>B - {x, y}. {a..<blk_end h' a})"
    using ends(1) unfolding area_def by simp
  also have "(\<Union>a\<in>B - {x, y}. {a..<blk_end h' a}) = (\<Union>a\<in>B - {x, y}. {a..<blk_end h a})"
    by (rule SUP_cong[OF refl]) (metis DiffE ends(2) insertI1)
  also have "{x..<nm h y} \<union> (\<Union>a\<in>B - {x, y}. {a..<blk_end h a}) = {x..<blk_end h x} \<union> {y..<blk_end h y} \<union> (\<Union>a\<in>B - {x, y}. {a..<blk_end h a})"
    using e y t by auto
  also have "\<dots> = area B h" using t(2) yB by (auto simp: area_def)
  finally show "area (B - {y}) h' = area B h" .
qed

section \<open>Well-formed pools\<close>

definition frees :: "addr set \<Rightarrow> headers \<Rightarrow> addr set" where
  "frees B h = {x \<in> B. fr h x}"

definition used :: "addr set \<Rightarrow> headers \<Rightarrow> addr set" where
  "used B h = {x \<in> B. \<not> fr h x}"

text \<open>The bytes of a block behind its header.\<close>

definition room :: "headers \<Rightarrow> addr \<Rightarrow> nat" where
  "room h x = nm h x - x - 16"

definition avail :: "addr set \<Rightarrow> headers \<Rightarrow> nat" where
  "avail B h = (\<Sum>x\<in>frees B h. room h x)"

definition pool_ok :: "addr \<Rightarrow> addr set \<Rightarrow> dm_pcb \<Rightarrow> headers \<Rightarrow> bool" where
  "pool_ok p B pc h \<longleftrightarrow> tiles p (dm_min_allocation pc) B h \<and>
    free_ring h (dm_memory_list pc) (frees B h) \<and> dm_available pc = avail B h \<and>
    (\<forall>x\<in>frees B h. \<not> fr h (nm h x)) \<and>
    8 \<le> dm_min_allocation pc \<and> dm_min_allocation pc mod 4 = 0 \<and>
    dm_min_allocation pc + 32 \<le> dm_pool_size pc \<and> dm_pool_size pc = card (area B h) \<and>
    dm_pool_size pc \<le> 1073741824"

lemma pool_okD:
  assumes "pool_ok p B pc h"
  shows "tiles p (dm_min_allocation pc) B h" "free_ring h (dm_memory_list pc) (frees B h)"
    "dm_available pc = avail B h" "x \<in> frees B h \<Longrightarrow> \<not> fr h (nm h x)" "8 \<le> dm_min_allocation pc"
    "dm_min_allocation pc mod 4 = 0" "dm_min_allocation pc + 32 \<le> dm_pool_size pc" "dm_pool_size pc = card (area B h)"
    "dm_pool_size pc \<le> 1073741824"
  using assms by (auto simp: pool_ok_def)

lemma tiles_room:
  assumes "tiles p mn B h" "x \<in> B" "x < nm h x"
  shows "nm h x = x + 16 + room h x" "mn \<le> room h x" "nm h x \<le> memory_top" "block_room h x = room h x"
proof -
  show r: "nm h x = x + 16 + room h x" and "mn \<le> room h x"
    using tilesD(9)[OF assms] by (auto simp: room_def)
  show t: "nm h x \<le> memory_top" using tilesD(7)[OF assms(1,2)] assms(3) by (simp add: blk_end_def)
  show "block_room h x = room h x" using r t by (simp add: block_room_def DM_OVERHEAD_def sub32_eq)
qed

lemma frees_lt: "tiles p mn B h \<Longrightarrow> x \<in> frees B h \<Longrightarrow> x < nm h x"
  by (auto simp: frees_def dest: tilesD(10))

lemma finite_frees: "tiles p mn B h \<Longrightarrow> finite (frees B h)"
  by (simp add: frees_def tiles_finite)

text \<open>Blocks do not overlap, so the memory covered is the sum of their sizes.\<close>

lemma tiles_disjoint:
  assumes "tiles p mn B h" "x \<in> B" "y \<in> B" "x \<noteq> y"
  shows "{x..<blk_end h x} \<inter> {y..<blk_end h y} = {}"
  using tilesD(8)[OF assms(1,2,3)] tilesD(8)[OF assms(1,3,2)] assms(4)
  by (cases x y rule: linorder_cases) auto

lemma card_area:
  assumes "tiles p mn B h"
  shows "card (area B h) = (\<Sum>x\<in>B. blk_end h x - x)"
  unfolding area_def using assms
  by (subst card_UN_disjoint) (auto simp: tiles_finite dest: tiles_disjoint)

lemma finite_area: "tiles p mn B h \<Longrightarrow> finite (area B h)"
  by (simp add: area_def tiles_finite)

lemma avail_le:
  assumes t: "tiles p mn B h"
  shows "avail B h + 16 * card (frees B h) \<le> card (area B h)" "x \<in> frees B h \<Longrightarrow> room h x \<le> avail B h"
proof -
  have "avail B h + 16 * card (frees B h) = (\<Sum>x\<in>frees B h. room h x + 16)" by (simp add: avail_def sum.distrib)
  also have "\<dots> = (\<Sum>x\<in>frees B h. blk_end h x - x)"
  proof (rule sum.cong[OF refl])
    fix x assume "x \<in> frees B h"
    then show "room h x + 16 = blk_end h x - x"
      using tiles_room(1)[OF t, of x] frees_lt[OF t] by (simp add: frees_def blk_end_def)
  qed
  also have "\<dots> \<le> (\<Sum>x\<in>B. blk_end h x - x)" by (rule sum_mono2) (auto simp: tiles_finite[OF t] frees_def)
  finally show "avail B h + 16 * card (frees B h) \<le> card (area B h)" using card_area[OF t] by simp
  show "x \<in> frees B h \<Longrightarrow> room h x \<le> avail B h"
    unfolding avail_def by (rule member_le_sum) (auto simp: finite_frees[OF t])
qed

section \<open>Splitting\<close>

lemma hset_simps [simp]: "hset f x h y = (if y = x then f (h x) else h y)"
  by (simp add: hset_def)

text \<open>Reading one field through a write, without unfolding the others.\<close>

lemma hset_fields:
  "nm (hset (dm_next_memory_update g) x h) a = (if a = x then g (nm h x) else nm h a)" "pm (hset (dm_next_memory_update g) x h) a = pm h a" "nf (hset (dm_next_memory_update g) x h) a = nf h a"
    "pf (hset (dm_next_memory_update g) x h) a = pf h a" "fr (hset (dm_next_memory_update g) x h) a = fr h a" "dm_memory_pool (hset (dm_next_memory_update g) x h a) = dm_memory_pool (h a)"
  "nm (hset (dm_previous_memory_update g) x h) a = nm h a" "pm (hset (dm_previous_memory_update g) x h) a = (if a = x then g (pm h x) else pm h a)" "nf (hset (dm_previous_memory_update g) x h) a = nf h a"
    "pf (hset (dm_previous_memory_update g) x h) a = pf h a" "fr (hset (dm_previous_memory_update g) x h) a = fr h a" "dm_memory_pool (hset (dm_previous_memory_update g) x h a) = dm_memory_pool (h a)"
  "nm (hset (dm_next_free_update g) x h) a = nm h a" "pm (hset (dm_next_free_update g) x h) a = pm h a" "nf (hset (dm_next_free_update g) x h) a = (if a = x then g (nf h x) else nf h a)"
    "pf (hset (dm_next_free_update g) x h) a = pf h a" "fr (hset (dm_next_free_update g) x h) a = fr h a" "dm_memory_pool (hset (dm_next_free_update g) x h a) = dm_memory_pool (h a)"
  "nm (hset (dm_previous_free_update g) x h) a = nm h a" "pm (hset (dm_previous_free_update g) x h) a = pm h a" "nf (hset (dm_previous_free_update g) x h) a = nf h a"
    "pf (hset (dm_previous_free_update g) x h) a = (if a = x then g (pf h x) else pf h a)" "fr (hset (dm_previous_free_update g) x h) a = fr h a" "dm_memory_pool (hset (dm_previous_free_update g) x h a) = dm_memory_pool (h a)"
  by (simp_all add: hset_def)

lemma drop_free_links:
  assumes "nf h y \<noteq> y" "pf h y \<noteq> y"
  shows "nf (drop_free y h) a = (if a = pf h y then nf h y else nf h a)"
    "pf (drop_free y h) a = (if a = nf h y then pf h y else pf h a)"
  using assms assms[symmetric] by (simp_all add: drop_free_def Let_def)

lemma drop_free_other [simp]:
  "nm (drop_free y h) a = nm h a" "pm (drop_free y h) a = pm h a" "fr (drop_free y h) a = fr h a"
  "dm_memory_pool (drop_free y h a) = dm_memory_pool (h a)" "a \<notin> {y, nf h y, pf h y} \<Longrightarrow> drop_free y h a = h a"
  by (simp_all add: drop_free_def Let_def)

lemma adopt_free_links:
  assumes "nf h y \<noteq> y" "pf h y \<noteq> y" "nf h y \<noteq> x" "pf h y \<noteq> x" "x \<noteq> y"
  shows "nf (adopt_free x y h) a = (if a = x then nf h y else if a = pf h y then x else nf h a)"
    "pf (adopt_free x y h) a = (if a = x then pf h y else if a = nf h y then x else pf h a)"
  using assms assms[symmetric] by (simp_all add: adopt_free_def Let_def)

lemma adopt_free_other [simp]:
  "nm (adopt_free x y h) a = nm h a" "pm (adopt_free x y h) a = pm h a" "fr (adopt_free x y h) a = fr h a"
  "dm_memory_pool (adopt_free x y h a) = dm_memory_pool (h a)"
  "x \<noteq> y \<Longrightarrow> a \<notin> {x, y, nf h y, pf h y} \<Longrightarrow> adopt_free x y h a = h a"
  by (simp_all add: adopt_free_def Let_def)

lemma split_block_links:
  assumes "n = add32 x k" "n \<noteq> x" "n \<noteq> nm h x" "n \<noteq> nf h x" "DMC_Split_Block p x k f (pc, h) = ((pc', h'), r)"
  shows "r = n" "pc' = pc\<lparr>dm_available := sub32 (dm_available pc) (if f then 16 else k)\<rparr>"
    "nm h' a = (if a = n then nm h x else if a = x then n else nm h a)"
    "pm h' a = (if a = nm h x then n else if a = n then x else pm h a)"
    "fr h' a = (a = n \<or> fr h a)" "dm_memory_pool (h' a) = (if a = n then p else dm_memory_pool (h a))"
    "nf h' a = (if a = n then nf h x else if a = x then n else nf h a)"
    "pf h' a = (if a = nf h x then n else if a = n then x else pf h a)"
    "a \<notin> {n, x, nm h x, nf h x} \<Longrightarrow> h' a = h a"
proof -
  have h': "h' = snd (fst (DMC_Split_Block p x k f (pc, h)))" and rp: "r = snd (DMC_Split_Block p x k f (pc, h))"
    "pc' = fst (fst (DMC_Split_Block p x k f (pc, h)))" using assms(5) by simp_all
  note D = DMC_Split_Block_def Let_def DM_OVERHEAD_def assms(1)[symmetric]
  show "r = n" "pc' = pc\<lparr>dm_available := sub32 (dm_available pc) (if f then 16 else k)\<rparr>"
    by (simp_all add: rp D)
  show "nm h' a = (if a = n then nm h x else if a = x then n else nm h a)"
    using assms(2,3,4) assms(2,3,4)[symmetric] unfolding h' by (simp add: D)
  show "pm h' a = (if a = nm h x then n else if a = n then x else pm h a)"
    using assms(2,3,4) assms(2,3,4)[symmetric] unfolding h' by (simp add: D)
  show "fr h' a = (a = n \<or> fr h a)" "dm_memory_pool (h' a) = (if a = n then p else dm_memory_pool (h a))"
    using assms(2,3,4) assms(2,3,4)[symmetric] unfolding h' by (simp_all add: D)
  show "nf h' a = (if a = n then nf h x else if a = x then n else nf h a)"
    using assms(2,3,4) assms(2,3,4)[symmetric] unfolding h' by (simp add: D)
  show "pf h' a = (if a = nf h x then n else if a = n then x else pf h a)"
    using assms(2,3,4) assms(2,3,4)[symmetric] unfolding h' by (simp add: D)
  show "a \<notin> {n, x, nm h x, nf h x} \<Longrightarrow> h' a = h a"
    using assms(2,3,4) assms(2,3,4)[symmetric] unfolding h' by (simp add: D)
qed

lemma split_block:
  assumes t: "tiles p mn B h" "free_ring h head (frees B h)" "x \<in> frees B h"
    and k: "16 + mn \<le> k" "k + 16 + mn \<le> nm h x - x" "k mod 4 = 0"
    and run: "DMC_Split_Block p x k f (pc, h) = ((pc', h'), n)"
  shows "n = x + k" "n \<notin> B" "tiles p mn (insert n B) h'" "area (insert n B) h' = area B h"
    "free_ring h' head (frees (insert n B) h')" "frees (insert n B) h' = insert n (frees B h)"
    "pc' = pc\<lparr>dm_available := sub32 (dm_available pc) (if f then 16 else k)\<rparr>"
    "nm h' a = (if a = n then nm h x else if a = x then n else nm h a)" "fr h' a = (a = n \<or> fr h a)"
    "a \<notin> insert n B \<Longrightarrow> h' a = h a"
proof -
  have x: "x \<in> B" "fr h x" "x < nm h x" using t(3) frees_lt[OF t(1,3)] by (auto simp: frees_def)
  have top: "nm h x \<le> memory_top" using tiles_room(3)[OF t(1) x(1,3)] .
  have nf: "nf h x \<in> frees B h" "nf h x \<in> B" using free_ring_links(1)[OF t(2,3)] by (auto simp: frees_def)
  have n: "add32 x k = x + k" using k top by (simp add: add32_eq)
  have le: "x + 16 + mn \<le> x + k" "x + k + 16 + mn \<le> nm h x" "(x + k) mod 4 = 0"
    using k tilesD(6)[OF t(1) x(1)] by (auto simp: mod_add_eq[symmetric])
  have nB: "x + k \<notin> B" using tilesD(8)[OF t(1) x(1), of "x + k"] x(3) le by (auto simp: blk_end_def)
  note L = split_block_links[OF n[symmetric] _ _ _ run]
  have ne: "x + k \<noteq> x" "x + k \<noteq> nm h x" "x + k \<noteq> nf h x" using le nB nf by auto
  show nx: "n = x + k" using L(1)[OF ne] .
  note L = L[OF ne, folded nx]
  show "n \<notin> B" using nB nx by simp
  note T = tiles_split[OF t(1) x(1) le[folded nx] L(3-6)]
  show "tiles p mn (insert n B) h'" "area (insert n B) h' = area B h" by (rule T)+
  show F: "frees (insert n B) h' = insert n (frees B h)" using nB nx by (auto simp: frees_def L(5))
  have "free_ring h' x (insert n (frees B h))"
    by (rule free_ring_insert[OF t(2,3)]) (use nB nx L(7,8) le in \<open>auto simp: frees_def\<close>)
  moreover have "head \<in> insert n (frees B h)" using free_ring_head(2)[OF t(2)] t(3) by auto
  ultimately show "free_ring h' head (frees (insert n B) h')" unfolding F by (rule free_ring_rotate)
  show "pc' = pc\<lparr>dm_available := sub32 (dm_available pc) (if f then 16 else k)\<rparr>"
    "nm h' a = (if a = n then nm h x else if a = x then n else nm h a)" "fr h' a = (a = n \<or> fr h a)" by (rule L)+
  show "a \<notin> insert n B \<Longrightarrow> h' a = h a" by (rule L(9)) (use x nf tilesD(1)[OF t(1) x(1)] in auto)
qed

end
