(* ===== verification/Memory_Allocation.thy ===== *)
theory Memory_Allocation
  imports Memory_Blocks
begin

text \<open>
  Allocation and deallocation of blocks in a well-formed pool: \<open>DMC_Allocate\<close> finds a block exactly when one fits, takes it
  and keeps the pool well formed; \<open>DMC_Deallocate\<close> gives a block back and merges it with its free neighbours.
\<close>

section \<open>Taking a block\<close>

lemma free_room_pos:
  assumes "tiles p mn B h" "0 < mn" "F \<subseteq> frees B h"
  shows "(\<Sum>x\<in>F. room h x) = 0 \<longleftrightarrow> F = {}"
proof -
  have "finite F" using finite_frees[OF assms(1)] assms(3) by (rule finite_subset[rotated])
  moreover have "room h x \<noteq> 0" if "x \<in> F" for x
    using tiles_room(2)[OF assms(1), of x] frees_lt[OF assms(1), of x] assms(2,3) that by (auto simp: frees_def)
  ultimately show ?thesis by auto
qed

text \<open>Changes that keep the memory links keep the tiling.\<close>

lemma tiles_same_links:
  assumes "tiles p mn B h"
    "\<And>a. a \<in> B \<Longrightarrow> nm h' a = nm h a \<and> pm h' a = pm h a \<and> dm_memory_pool (h' a) = dm_memory_pool (h a)"
    "\<And>a. a \<in> B \<Longrightarrow> fr h' a \<Longrightarrow> a < nm h a"
  shows "tiles p mn B h'" "area B h' = area B h"
proof -
  have e: "blk_end h' a = blk_end h a" if "a \<in> B" for a using assms(2)[OF that] by (simp add: blk_end_def)
  show "area B h' = area B h" unfolding area_def using e by (intro SUP_cong) auto
  have "pm h' (nm h' a) = pm h (nm h a)" "nm h' (pm h' a) = nm h (pm h a)" if "a \<in> B" for a
    using assms(2)[OF that] assms(2)[of "nm h a"] assms(2)[of "pm h a"] tilesD(1,2)[OF assms(1) that] by auto
  then show "tiles p mn B h'" using assms e unfolding tiles_def by auto
qed

definition settled :: "addr set \<Rightarrow> headers \<Rightarrow> bool" where
  "settled B h \<longleftrightarrow> (\<forall>x\<in>frees B h. \<not> fr h (nm h x))"

lemma unlink_block_ok:
  assumes t: "tiles p mn B h" "free_ring h (dm_memory_list pc) (frees B h)" "r \<in> frees B h" "0 < mn"
    and av: "dm_available pc = (\<Sum>x\<in>frees B h - {r}. room h x)"
    and adj: "\<And>x. x \<in> frees B h - {r} \<Longrightarrow> fr h (nm h x) \<Longrightarrow> nm h x = r"
    and run: "unlink_block r (pc, h) = (pc', h')"
  shows "tiles p mn B h'" "area B h' = area B h" "frees B h' = frees B h - {r}" "used B h' = insert r (used B h)"
    "free_ring h' (dm_memory_list pc') (frees B h')" "dm_available pc' = avail B h'" "settled B h'"
    "nm h' a = nm h a" "a \<notin> B \<Longrightarrow> h' a = h a" "\<exists>m. pc' = pc\<lparr>dm_memory_list := m\<rparr>"
proof -
  let ?F = "frees B h"
  have r: "r \<in> B" "r \<in> ?F" using t(3) by (auto simp: frees_def)
  have e: "dm_available pc = 0 \<longleftrightarrow> ?F = {r}" unfolding av using free_room_pos[OF t(1,4), of "?F - {r}"] r by auto
  note R = free_ring_links[OF t(2,3)]
  have h': "h' = snd (unlink_block r (pc, h))" and pc': "pc' = fst (unlink_block r (pc, h))" using run by simp_all
  show nm: "nm h' a = nm h a" for a unfolding h' by (simp add: unlink_block_def Let_def)
  have pm: "pm h' a = pm h a" "dm_memory_pool (h' a) = dm_memory_pool (h a)" "fr h' a = (fr h a \<and> a \<noteq> r)" for a
    unfolding h' by (simp_all add: unlink_block_def Let_def)
  show F: "frees B h' = ?F - {r}" and "used B h' = insert r (used B h)"
    using r by (auto simp: frees_def used_def pm)
  show "tiles p mn B h'" "area B h' = area B h"
    by (rule tiles_same_links[OF t(1)]; use nm pm tilesD(10)[OF t(1)] in auto)+
  show "settled B h'" unfolding settled_def F using adj by (auto simp: nm pm)
  have "\<exists>m. pc' = pc\<lparr>dm_memory_list := m\<rparr>" unfolding pc'
    by (auto simp: unlink_block_def Let_def intro: exI[of _ "dm_memory_list pc"])
  then show "\<exists>m. pc' = pc\<lparr>dm_memory_list := m\<rparr>" .
  then show "dm_available pc' = avail B h'" unfolding avail_def F using av by (auto simp: room_def nm)
  show "a \<notin> B \<Longrightarrow> h' a = h a"
    using r R(1,2) unfolding h' by (auto simp: unlink_block_def drop_free_def Let_def frees_def)
  show "free_ring h' (dm_memory_list pc') (frees B h')"
  proof (cases "?F = {r}")
    case True
    then show ?thesis using e F unfolding pc' by (simp add: unlink_block_def Let_def)
  next
    case False
    then have ne: "nf h r \<noteq> r" "pf h r \<noteq> r" using R by auto
    have l: "nf h' a = (if a = pf h r then nf h r else nf h a)" "pf h' a = (if a = nf h r then pf h r else pf h a)" for a
      unfolding h' using False e ne by (simp_all add: unlink_block_def drop_free_links Let_def)
    have ring: "free_ring h' (nf h r) (?F - {r})" by (rule free_ring_remove[OF t(2,3) False]) (simp_all add: l)
    show ?thesis
    proof (cases "dm_memory_list pc = r")
      case True
      then have "dm_memory_list pc' = nf h r" unfolding pc' using False e ne by (simp add: unlink_block_def drop_free_links Let_def)
      then show ?thesis using ring F by simp
    next
      case other: False
      then have "dm_memory_list pc' = dm_memory_list pc" unfolding pc' using False e by (simp add: unlink_block_def Let_def)
      moreover have "dm_memory_list pc \<in> ?F - {r}" using free_ring_head(2)[OF t(2)] r other by auto
      ultimately show ?thesis using free_ring_rotate[OF ring] F by simp
    qed
  qed
qed

text \<open>
  What taking the block \<open>r\<close> for \<open>sz\<close> bytes changes: the blocks in use and their sizes are kept, \<open>r\<close> is a further one with
  enough room, the memory covered is the same, and nothing outside the pool changes.
\<close>

definition granted :: "addr set \<Rightarrow> headers \<Rightarrow> addr set \<Rightarrow> headers \<Rightarrow> addr \<Rightarrow> nat \<Rightarrow> bool" where
  "granted B h B' h' r sz \<longleftrightarrow> B \<subseteq> B' \<and> area B' h' = area B h \<and> used B' h' = insert r (used B h) \<and> r \<notin> used B h \<and>
     (\<forall>a\<in>used B h. nm h' a = nm h a) \<and> r + 16 + sz \<le> nm h' r \<and> (\<forall>a. a \<notin> B' \<longrightarrow> h' a = h a)"

text \<open>The parts of the control block that tell a pool's configuration and its waiting tasks.\<close>

definition same_pool :: "dm_pcb \<Rightarrow> dm_pcb \<Rightarrow> bool" where
  "same_pool pc pc' \<longleftrightarrow> (\<exists>v m. pc' = pc\<lparr>dm_available := v, dm_memory_list := m\<rparr>)"

lemma same_pool_simps:
  assumes "same_pool pc pc'"
  shows "dm_min_allocation pc' = dm_min_allocation pc" "dm_pool_size pc' = dm_pool_size pc"
    "dm_id_valid pc' = dm_id_valid pc" "dm_suspension_list pc' = dm_suspension_list pc"
    "dm_tasks_waiting pc' = dm_tasks_waiting pc" "dm_fifo_suspend pc' = dm_fifo_suspend pc"
  using assms by (auto simp: same_pool_def)

lemma same_pool_available: "same_pool pc (pc\<lparr>dm_available := v\<rparr>)"
  unfolding same_pool_def by (intro exI[of _ v] exI[of _ "dm_memory_list pc"]) (cases pc; simp)

lemma same_pool_trans: "same_pool pc pc1 \<Longrightarrow> same_pool pc1 pc2 \<Longrightarrow> same_pool pc pc2"
  by (clarsimp simp: same_pool_def) blast

lemma avail_remove:
  assumes "tiles p mn B h" "r \<in> frees B h"
  shows "avail B h = room h r + (\<Sum>x\<in>frees B h - {r}. room h x)"
  unfolding avail_def using sum.remove[OF finite_frees[OF assms(1)] assms(2)] by simp

lemma dm_available_upd: "dm_available_update f pc = pc\<lparr>dm_available := f (dm_available pc)\<rparr>"
  by (cases pc) simp

lemma claim_block_ok:
  assumes t: "tiles p mn B h" "free_ring h (dm_memory_list pc) (frees B h)" "r \<in> frees B h" "0 < mn"
    and mn: "mn = dm_min_allocation pc" and av: "dm_available pc = avail B h" "avail B h < 4294967296"
    and adj: "\<And>x. x \<in> frees B h \<Longrightarrow> fr h (nm h x) \<Longrightarrow> nm h x = r"
    and sz: "sz \<le> room h r" "mn \<le> sz" "sz mod 4 = 0" "room h r + 16 + mn < 4294967296"
    and run: "claim_block p sz (room h r) r (pc, h) = (pc', h')"
  shows "\<exists>B'. tiles p mn B' h' \<and> free_ring h' (dm_memory_list pc') (frees B' h') \<and> dm_available pc' = avail B' h' \<and>
    settled B' h' \<and> granted B h B' h' r sz \<and> same_pool pc pc'"
proof -
  have r: "r \<in> B" "r < nm h r" "fr h r" using t(3) frees_lt[OF t(1,3)] by (auto simp: frees_def)
  note R = tiles_room[OF t(1) r(1,2)] and A = avail_remove[OF t(1,3)]
  have nfr: "\<not> fr h (nm h r)" using adj[OF t(3)] r by auto
  have add: "add32 sz 16 = sz + 16" "add32 (sz + 16) mn = sz + 16 + mn" using sz by (simp_all add: add32_eq)
  have rU: "r \<notin> used B h" using r by (simp add: used_def)
  show ?thesis
  proof (cases "sz + 16 + mn \<le> room h r")
    case True
    obtain pc2 h2 n where s: "DMC_Split_Block p r (sz + 16) False (pc, h) = ((pc2, h2), n)" by (metis surj_pair)
    have k: "16 + mn \<le> sz + 16" "sz + 16 + 16 + mn \<le> nm h r - r" "(sz + 16) mod 4 = 0"
      using sz True R(1) by (simp_all add: mod_add_eq[symmetric])
    note S = split_block[OF t(1-3) k s]
    have run2: "unlink_block r (pc2, h2) = (pc', h')"
      using run True s by (simp add: claim_block_def DM_OVERHEAD_def add mn[symmetric])
    have ring: "free_ring h2 (dm_memory_list pc2) (frees (insert n B) h2)" using S(5,7) by simp
    have n: "n \<notin> frees B h" "n \<noteq> r" "room h2 n = room h r - (sz + 16)" "room h2 r = sz"
      using S(1,2) R(1) r True by (auto simp: frees_def room_def S(8))
    have rest: "(\<Sum>x\<in>frees B h - {r}. room h2 x) = (\<Sum>x\<in>frees B h - {r}. room h x)"
      by (rule sum.cong) (use n in \<open>auto simp: room_def S(8)\<close>)
    have "(\<Sum>x\<in>insert n (frees B h) - {r}. room h2 x) = room h2 n + (\<Sum>x\<in>frees B h - {r}. room h2 x)"
      using n finite_frees[OF t(1)] by (subst insert_Diff_if) auto
    then have av2: "dm_available pc2 = (\<Sum>x\<in>frees (insert n B) h2 - {r}. room h2 x)"
      using S(7) av A True n(3) by (simp add: S(6) rest sub32_eq)
    have adj2: "nm h2 x = r" if "x \<in> frees (insert n B) h2 - {r}" "fr h2 (nm h2 x)" for x
    proof -
      have "nm h x \<in> B" if "x \<in> frees B h" using that tilesD(1)[OF t(1)] by (auto simp: frees_def)
      then show ?thesis using that adj[of x] nfr S(2) tilesD(1)[OF t(1) r(1)]
        by (auto simp: S(6,8,9) split: if_splits)
    qed
    have r2: "r \<in> frees (insert n B) h2" using t(3) S(6) by simp
    note U = unlink_block_ok[OF S(3) ring r2 t(4) av2 adj2 run2]
    have "granted B h (insert n B) h' r sz"
      unfolding granted_def
    proof (intro conjI allI ballI impI)
      show "area (insert n B) h' = area B h" using U(2) S(4) by simp
      show "used (insert n B) h' = insert r (used B h)" using U(4) S(2) by (auto simp: used_def S(9))
      show "nm h' a = nm h a" if "a \<in> used B h" for a
        using that r(3) S(2) U(8)[of a] S(8)[of a] by (auto simp: used_def)
      show "r + 16 + sz \<le> nm h' r" using n(2) S(1) U(8)[of r] S(8)[of r] by simp
      show "h' a = h a" if "a \<notin> insert n B" for a using that U(9)[of a] S(10)[of a] by simp
    qed (use rU in auto)
    moreover have "same_pool pc pc'" using U(10) S(7) by (auto simp: same_pool_def)
    ultimately show ?thesis using U(1,5,6,7) by blast
  next
    case False
    define pc2 where "pc2 = pc\<lparr>dm_available := sub32 (dm_available pc) (room h r)\<rparr>"
    have run2: "unlink_block r (pc2, h) = (pc', h')"
      using run False by (simp add: claim_block_def DM_OVERHEAD_def add mn[symmetric] pc2_def dm_available_upd[of "\<lambda>a. sub32 a (room h r)"])
    have ring: "free_ring h (dm_memory_list pc2) (frees B h)" using t(2) by (simp add: pc2_def)
    have av2: "dm_available pc2 = (\<Sum>x\<in>frees B h - {r}. room h x)" using av A by (simp add: pc2_def sub32_eq)
    have adj2: "nm h x = r" if "x \<in> frees B h - {r}" "fr h (nm h x)" for x using adj that by blast
    note U = unlink_block_ok[OF t(1) ring t(3,4) av2 adj2 run2]
    have "granted B h B h' r sz"
      unfolding granted_def using U(2,4,8,9) rU R(1) sz(1) by auto
    moreover have "same_pool pc pc'" using U(10) by (auto simp: same_pool_def pc2_def)
    ultimately show ?thesis using U(1,5,6,7) by blast
  qed
qed

section \<open>Searching\<close>

text \<open>
  The address at which the memory of a request begins in a free block: behind the header when that is aligned, and
  otherwise the first aligned address that leaves room for a block in front, looked for in two steps.
\<close>

definition roundup :: "nat \<Rightarrow> nat \<Rightarrow> nat" where
  "roundup al a = ((a + (al - 1)) div al) * al"

definition start_of :: "nat \<Rightarrow> nat \<Rightarrow> addr \<Rightarrow> addr" where
  "start_of mn al x =
    (if al = 0 \<or> (x + 16) mod al = 0 then x + 16
     else if roundup al (x + 16) - (x + 16) < 32 + mn then roundup al (x + 16 + 32 + mn) else roundup al (x + 16))"

lemma roundup_props:
  assumes "0 < al"
  shows "a \<le> roundup al a" "roundup al a < a + al" "roundup al a mod al = 0"
proof -
  have "(a + (al - 1)) mod al < al" using assms by simp
  moreover have "roundup al a + (a + (al - 1)) mod al = a + (al - 1)" by (simp add: roundup_def)
  ultimately show "a \<le> roundup al a" "roundup al a < a + al" using assms by linarith+
  show "roundup al a mod al = 0" by (simp add: roundup_def)
qed

lemma start_of_props:
  shows "x + 16 \<le> start_of mn al x" "al \<noteq> 0 \<Longrightarrow> start_of mn al x mod al = 0"
    "al \<noteq> 0 \<Longrightarrow> (x + 16) mod al \<noteq> 0 \<Longrightarrow> x + 16 + 32 + mn \<le> start_of mn al x"
    "al \<noteq> 0 \<Longrightarrow> start_of mn al x < x + 16 + 32 + mn + al"
  using roundup_props[of al "x + 16"] roundup_props[of al "x + 16 + 32 + mn"] by (auto simp: start_of_def)

text \<open>
  Requests whose alignment is sound for the free blocks: addresses do not wrap around, and the chosen address is
  not the very end of the block. Small alignments always are.
\<close>

definition alignable :: "nat \<Rightarrow> nat \<Rightarrow> addr set \<Rightarrow> headers \<Rightarrow> bool" where
  "alignable mn al F h \<longleftrightarrow> al \<le> 1073741824 \<and>
     (\<forall>x\<in>F. al \<noteq> 0 \<longrightarrow> x + 48 + mn + al \<le> 4294967296 \<and> (roundup al (x + 16) - (x + 16) < 32 + mn \<or> start_of mn al x \<noteq> nm h x))"

lemma examine_block_eq:
  assumes t: "tiles p mn B h" "x \<in> frees B h" "alignable mn al (frees B h) h" "0 < sz"
    "mn \<le> 1073741824" "room h x \<le> 1073741824"
    and run: "examine_block mn sz al h x v = (m, bs, a, sp)"
  shows "start_of mn al x + sz \<le> nm h x \<Longrightarrow> m = x \<and> bs = nm h x - start_of mn al x \<and> (al \<noteq> 0 \<longrightarrow> a = x + 16) \<and>
      (al \<noteq> 0 \<longrightarrow> (x + 16) mod al \<noteq> 0 \<longrightarrow> sp = start_of mn al x - (x + 16))"
    and "\<not> start_of mn al x + sz \<le> nm h x \<Longrightarrow> m = nf h x \<and> bs < sz"
proof -
  have x: "x \<in> B" "x < nm h x" using t(2) frees_lt[OF t(1,2)] by (auto simp: frees_def)
  note R = tiles_room[OF t(1) x]
  have a16: "add32 x 16 = x + 16" "add32 (x + 16) (room h x) = nm h x" using R by (simp_all add: add32_eq)
  obtain a0 sp0 where v: "v = (a0, sp0)" by force
  note E = run[unfolded examine_block_def v prod.case R(4) Let_def DM_OVERHEAD_def a16]
  note S = start_of_props[where x = x and mn = mn and al = al]
  consider "room h x < sz" | "sz \<le> room h x" "al = 0 \<or> (x + 16) mod al = 0"
    | "sz \<le> room h x" "al \<noteq> 0" "(x + 16) mod al \<noteq> 0" by linarith
  then have "(start_of mn al x + sz \<le> nm h x \<longrightarrow> m = x \<and> bs = nm h x - start_of mn al x \<and> (al \<noteq> 0 \<longrightarrow> a = x + 16) \<and>
      (al \<noteq> 0 \<longrightarrow> (x + 16) mod al \<noteq> 0 \<longrightarrow> sp = start_of mn al x - (x + 16))) \<and>
      (\<not> start_of mn al x + sz \<le> nm h x \<longrightarrow> m = nf h x \<and> bs < sz)"
  proof cases
    case 1
    then show ?thesis using E S(1) R(1) by auto
  next
    case 2
    then have "start_of mn al x = x + 16" by (auto simp: start_of_def)
    then show ?thesis using E 2 R(1) by (auto split: if_splits)
  next
    case 3
    have al: "0 < al" "x + 48 + mn + al \<le> 4294967296" "al \<le> 1073741824"
      "roundup al (x + 16) - (x + 16) < 32 + mn \<or> start_of mn al x \<noteq> nm h x"
      using t(2,3) 3 by (auto simp: alignable_def)
    let ?a = "x + 16" and ?n1 = "roundup al (x + 16)" and ?n2 = "roundup al (x + 16 + 32 + mn)"
    note P1 = roundup_props[OF al(1), of ?a] and P2 = roundup_props[OF al(1), of "?a + 32 + mn"]
    have w1: "whole_multiple al (add32 ?a (al - 1)) = ?n1"
      using al by (simp add: whole_multiple_def roundup_def add32_eq)
    have w2: "whole_multiple al (add32 (add32 (add32 ?a 32) mn) (al - 1)) = ?n2"
      using al by (simp add: whole_multiple_def roundup_def add32_eq)
    have s1: "sub32 ?n1 ?a = ?n1 - ?a" and s2: "sub32 ?n2 ?a = ?n2 - ?a"
      using P1 P2 al by (auto intro!: sub32_eq)
    have s3: "add32 (?n2 - ?a) sz = ?n2 - ?a + sz" using P2 al t(5,6) 3 by (intro add32_eq) linarith
    have m32: "add32 32 mn = 32 + mn" using t(5) by (simp add: add32_eq)
    show ?thesis
    proof (cases "?n1 - ?a < 32 + mn")
      case True
      then have st: "start_of mn al x = ?n2" using 3 by (simp add: start_of_def)
      have f: "front_split_of mn sz al ?a (room h x) = (?n2, ?n2 - ?a, if ?n2 - ?a + sz > room h x then 0 else room h x)"
        using True by (simp add: front_split_of_def Let_def DM_OVERHEAD_def w1[simplified] w2[simplified] s1 s2[simplified] s3[simplified] m32)
      show ?thesis
      proof (cases "?n2 + sz \<le> nm h x")
        case True
        have "\<not> room h x < ?n2 - ?a + sz" "?n2 - ?a < room h x" "\<not> nm h x < ?n2"
          "room h x - (?n2 - ?a) = nm h x - ?n2" using True P2(1) R(1) t(4) by linarith+
        then show ?thesis using E 3 True f st t(4) by (auto simp: a16 split: if_splits)
      next
        case False
        then have "?n2 - ?a + sz > room h x" using R(1) P2(1) by linarith
        then show ?thesis using E 3 False f st t(4) by (auto split: if_splits)
      qed
    next
      case False
      then have st: "start_of mn al x = ?n1" using 3 by (simp add: start_of_def)
      then have ne: "?n1 \<noteq> nm h x" using al(4) False by auto
      have f: "front_split_of mn sz al ?a (room h x) = (?n1, ?n1 - ?a, room h x)"
        using False by (simp add: front_split_of_def Let_def DM_OVERHEAD_def w1[simplified] s1 m32)
      show ?thesis
      proof (cases "?n1 < nm h x")
        case True
        have "?n1 - ?a < room h x" "room h x - (?n1 - ?a) = nm h x - ?n1" using True P1(1) R(1) by linarith+
        then show ?thesis using E 3 True f st t(4) by (auto simp: a16 split: if_splits)
      next
        case b: False
        then have "?n1 > nm h x" using ne by simp
        then show ?thesis using E 3 f st t(4) by (auto simp: a16 split: if_splits)
      qed
    qed
  qed
  then show "start_of mn al x + sz \<le> nm h x \<Longrightarrow> m = x \<and> bs = nm h x - start_of mn al x \<and> (al \<noteq> 0 \<longrightarrow> a = x + 16) \<and>
      (al \<noteq> 0 \<longrightarrow> (x + 16) mod al \<noteq> 0 \<longrightarrow> sp = start_of mn al x - (x + 16))"
    "\<not> start_of mn al x + sz \<le> nm h x \<Longrightarrow> m = nf h x \<and> bs < sz" by blast+
qed

lemma search_blocks_seg:
  assumes "dseg (free_view h) x xs head" "head \<notin> set xs"
    and "\<And>y v m bs vs. y \<in> set (x # xs) \<Longrightarrow> examine_block mn sz al h y v = (m, bs, vs) \<Longrightarrow>
      (if good y then m = y \<and> sz \<le> bs else m = nf h y \<and> bs < sz)"
  shows "\<exists>m bs vs. search_blocks mn sz al h head x v = Some (m, bs, vs) \<and>
    ((\<exists>v'. m \<in> set (x # xs) \<and> good m \<and> examine_block mn sz al h m v' = (m, bs, vs)) \<or>
     ((\<forall>y\<in>set (x # xs). \<not> good y) \<and> bs < sz))"
  using assms
proof (induction xs arbitrary: x v)
  case (Nil x v)
  obtain m bs vs where e: "examine_block mn sz al h x v = (m, bs, vs)" by (metis surj_pair)
  have "nf h x = head" using Nil.prems(1) by simp
  moreover have c: "if good x then m = x \<and> sz \<le> bs else m = nf h x \<and> bs < sz" by (rule Nil.prems(3)[OF _ e]) simp
  ultimately have "search_blocks mn sz al h head x v = Some (m, bs, vs)"
    using e by (simp add: search_blocks.simps[of mn sz al h head x v] split: if_splits)
  then show ?case using e c by (metis list.set_intros(1) set_ConsD empty_iff empty_set)
next
  case (Cons y ys x v)
  obtain m bs vs where e: "examine_block mn sz al h x v = (m, bs, vs)" by (metis surj_pair)
  have seg: "nf h x = y" "dseg (free_view h) y ys head" "y \<noteq> head" "head \<notin> set ys" using Cons.prems(1,2) by auto
  show ?case
  proof (cases "good x")
    case True
    then have "m = x" "sz \<le> bs" using Cons.prems(3)[OF _ e] by auto
    then have "search_blocks mn sz al h head x v = Some (m, bs, vs)"
      using e by (simp add: search_blocks.simps[of mn sz al h head x v])
    then show ?thesis using e True \<open>m = x\<close> by (metis list.set_intros(1))
  next
    case False
    then have "m = y" "bs < sz" using Cons.prems(3)[OF _ e] seg by auto
    then have "search_blocks mn sz al h head x v = search_blocks mn sz al h head y vs"
      using seg e by (simp add: search_blocks.simps[of mn sz al h head x v])
    moreover have "\<exists>m bs vs'. search_blocks mn sz al h head y vs = Some (m, bs, vs') \<and>
      ((\<exists>v'. m \<in> set (y # ys) \<and> good m \<and> examine_block mn sz al h m v' = (m, bs, vs')) \<or>
       ((\<forall>z\<in>set (y # ys). \<not> good z) \<and> bs < sz))"
      by (rule Cons.IH[OF seg(2,4)], rule Cons.prems(3)) simp_all
    ultimately show ?thesis using False by (metis list.set_intros(2) set_ConsD)
  qed
qed

section \<open>Allocating\<close>

definition fits :: "nat \<Rightarrow> nat \<Rightarrow> nat \<Rightarrow> headers \<Rightarrow> addr \<Rightarrow> bool" where
  "fits mn sz al h x \<longleftrightarrow> start_of mn al x + sz \<le> nm h x"

lemma pool_room:
  assumes "pool_ok p B pc h" "x \<in> frees B h"
  shows "room h x + 16 \<le> 1073741824" "dm_min_allocation pc \<le> 1073741824" "avail B h < 4294967296"
proof -
  have "room h x \<le> avail B h" "avail B h + 16 * card (frees B h) \<le> dm_pool_size pc"
    using avail_le[OF pool_okD(1)[OF assms(1)]] assms pool_okD(8)[OF assms(1)] by auto
  moreover have "0 < card (frees B h)" using finite_frees[OF pool_okD(1)[OF assms(1)]] assms(2) by (auto simp: card_gt_0_iff)
  ultimately show "room h x + 16 \<le> 1073741824" "dm_min_allocation pc \<le> 1073741824" "avail B h < 4294967296"
    using pool_okD(7,9)[OF assms(1)] by linarith+
qed

lemma pool_okI:
  assumes "pool_ok p B pc h" "same_pool pc pc'" "area B' h' = area B h"
    and "tiles p (dm_min_allocation pc) B' h'" "free_ring h' (dm_memory_list pc') (frees B' h')"
    "dm_available pc' = avail B' h'" "settled B' h'"
  shows "pool_ok p B' pc' h'"
  using assms by (auto simp: pool_ok_def settled_def same_pool_simps)

lemma front_split_ok:
  assumes ok: "pool_ok p B pc h" "m \<in> frees B h" and mn: "mn = dm_min_allocation pc"
    and k: "16 + mn \<le> k" "k + 16 + mn \<le> nm h m - m" "k mod 4 = 0"
    and run: "DMC_Split_Block p m k True (pc, h) = ((pc1, h1), r)"
  shows "dm_available pc1 = avail (insert r B) h1" "avail (insert r B) h1 < 4294967296"
    "\<And>x. x \<in> frees (insert r B) h1 \<Longrightarrow> fr h1 (nm h1 x) \<Longrightarrow> nm h1 x = r"
    "used (insert r B) h1 = used B h" "a \<in> used B h \<Longrightarrow> nm h1 a = nm h a"
proof -
  note D = pool_okD[OF ok(1), folded mn] and S = split_block[OF pool_okD(1,2)[OF ok(1), folded mn] ok(2) k run]
  have m: "m \<in> B" "fr h m" "m < nm h m" using ok(2) frees_lt[OF D(1) ok(2)] by (auto simp: frees_def)
  have n: "r \<notin> frees B h" "r \<noteq> m" "m < r" "r < nm h m" "room h1 r + room h1 m + 16 = room h m"
    using S(1,2) k m by (auto simp: frees_def room_def S(8))
  have rest: "(\<Sum>x\<in>frees B h - {m}. room h1 x) = (\<Sum>x\<in>frees B h - {m}. room h x)"
    by (rule sum.cong) (use n in \<open>auto simp: room_def S(8)\<close>)
  have "avail (insert r B) h1 = room h1 r + (\<Sum>x\<in>frees B h. room h1 x)"
    unfolding avail_def S(6) using n finite_frees[OF D(1)] by simp
  also have "(\<Sum>x\<in>frees B h. room h1 x) = room h1 m + (\<Sum>x\<in>frees B h - {m}. room h1 x)"
    by (rule sum.remove[OF finite_frees[OF D(1)] ok(2)])
  finally have av: "avail (insert r B) h1 + 16 = avail B h" using rest avail_remove[OF D(1) ok(2)] n(5) by simp
  then show "dm_available pc1 = avail (insert r B) h1" "avail (insert r B) h1 < 4294967296"
    using S(7) D(3) pool_room(3)[OF ok] by (auto simp: sub32_eq)
  have B: "nm h x \<in> B" if "x \<in> frees B h" for x using that tilesD(1)[OF D(1)] by (auto simp: frees_def)
  show "nm h1 x = r" if "x \<in> frees (insert r B) h1" "fr h1 (nm h1 x)" for x
    using that D(4) B S(2) n ok(2) by (auto simp: S(6,8,9) split: if_splits)
  show "used (insert r B) h1 = used B h" using S(2) by (auto simp: used_def S(9))
  show "a \<in> used B h \<Longrightarrow> nm h1 a = nm h a" using S(2) m by (auto simp: used_def S(8))
qed

lemma take_block_ok:
  assumes ok: "pool_ok p B pc h" "m \<in> frees B h" and mn: "mn = dm_min_allocation pc"
    and fit: "fits mn sz al h m" and sz: "mn \<le> sz" "sz mod 4 = 0" "al mod 4 = 0"
    and vars: "bs = nm h m - start_of mn al m" "al \<noteq> 0 \<longrightarrow> a = m + 16"
      "al \<noteq> 0 \<longrightarrow> (m + 16) mod al \<noteq> 0 \<longrightarrow> sp = start_of mn al m - (m + 16)"
    and run: "take_block p sz al (m, bs, a, sp) (pc, h) = ((pc', h'), r)"
  shows "r + 16 = start_of mn al m" "same_pool pc pc'" "\<exists>B'. pool_ok p B' pc' h' \<and> granted B h B' h' r sz"
proof -
  note D = pool_okD[OF ok(1), folded mn]
  have m: "m \<in> B" "m < nm h m" using ok(2) frees_lt[OF D(1) ok(2)] by (auto simp: frees_def)
  note R = tiles_room[OF D(1) m] and S = start_of_props[where x = m and mn = mn and al = al] and P = pool_room[OF ok, folded mn]
  have mn0: "0 < mn" using D(5) by simp
  have "r + 16 = start_of mn al m \<and> same_pool pc pc' \<and> (\<exists>B'. pool_ok p B' pc' h' \<and> granted B h B' h' r sz)"
  proof (cases "al \<noteq> 0 \<and> (m + 16) mod al \<noteq> 0")
    case False
    then have st: "start_of mn al m = m + 16" by (auto simp: start_of_def)
    then have c: "claim_block p sz (room h m) m (pc, h) = (pc', h')" "r = m"
      using run False vars R(1) by (auto simp: take_block_def Let_def)
    have "sz \<le> room h m" using fit st R(1) by (simp add: fits_def)
    then obtain B' where B': "tiles p mn B' h'" "free_ring h' (dm_memory_list pc') (frees B' h')"
      "dm_available pc' = avail B' h'" "settled B' h'" "granted B h B' h' m sz" "same_pool pc pc'"
      using claim_block_ok[OF D(1,2) ok(2) mn0 mn D(3) P(3) _ _ sz(1,2) _ c(1)] D(4) P(1,2) mn
      by auto
    have "pool_ok p B' pc' h'" by (rule pool_okI[OF ok(1) B'(6)]) (use B' mn in \<open>auto simp: granted_def\<close>)
    then show ?thesis using B' c st by auto
  next
    case True
    obtain pc1 h1 r1 where s: "DMC_Split_Block p m sp True (pc, h) = ((pc1, h1), r1)" by (metis surj_pair)
    have c: "claim_block p sz bs r (pc1, h1) = (pc', h')" "r = r1"
      using run True vars s by (auto simp: take_block_def Let_def)
    have sp: "sp = start_of mn al m - (m + 16)" using vars True by auto
    have st: "m + 16 + 32 + mn \<le> start_of mn al m" "start_of mn al m + sz \<le> nm h m" "start_of mn al m mod al = 0"
      using S True fit by (auto simp: fits_def)
    then have "start_of mn al m mod 4 = 0" using sz(3) True by (metis dvd_eq_mod_eq_0 dvd_trans)
    moreover have "(m + 16) mod 4 = 0" using tilesD(6)[OF D(1) m(1)] by (simp add: mod_add_eq[symmetric])
    ultimately have "sp mod 4 = 0" unfolding sp by (metis dvd_diff_nat dvd_eq_mod_eq_0)
    then have k: "16 + mn \<le> sp" "sp + 16 + mn \<le> nm h m - m" "sp mod 4 = 0" using st sz(1) sp by auto
    note T = split_block[OF D(1,2) ok(2) k s] and F = front_split_ok[OF ok mn k s]
    have r: "r + 16 = start_of mn al m" using T(1) c st sp by simp
    have rF: "r \<in> frees (insert r B) h1" using T(9) c by (simp add: frees_def)
    have bs: "bs = room h1 r" using vars(1) r st c by (simp add: room_def T(8))
    then have "sz \<le> room h1 r" "room h1 r + 16 + mn < 4294967296" using vars(1) st P(1,2) R(1) by linarith+
    moreover have "mn = dm_min_allocation pc1" "dm_memory_list pc1 = dm_memory_list pc" "same_pool pc pc1"
      using T(7) mn same_pool_available by auto
    ultimately obtain B' where B': "tiles p mn B' h'" "free_ring h' (dm_memory_list pc') (frees B' h')"
      "dm_available pc' = avail B' h'" "settled B' h'" "granted (insert r B) h1 B' h' r sz" "same_pool pc pc'"
      using claim_block_ok[OF T(3)[folded c(2)] _ rF mn0 _ F(1,2)[folded c(2)] F(3)[folded c(2)] _ sz(1,2) _ c(1)[unfolded bs]]
        T(5)[folded c(2)] same_pool_trans[of pc pc1 pc'] by auto
    have g: "granted B h B' h' r sz"
      using B'(5) F(4,5)[folded c(2)] T(4,10)[folded c(2)] unfolding granted_def
      by (metis (no_types, lifting) insert_subset subsetD)
    have "pool_ok p B' pc' h'" by (rule pool_okI[OF ok(1) B'(6)]) (use B' g mn in \<open>auto simp: granted_def\<close>)
    then show ?thesis using r g B' by auto
  qed
  then show "r + 16 = start_of mn al m" "same_pool pc pc'" "\<exists>B'. pool_ok p B' pc' h' \<and> granted B h B' h' r sz" by auto
qed

lemma alignable_small:
  assumes "tiles p mn B h" "8 \<le> mn" "al \<le> 40"
  shows "alignable mn al (frees B h) h"
  unfolding alignable_def
proof (intro conjI ballI impI)
  show "al \<le> 1073741824" using assms(3) by simp
  fix x assume x: "x \<in> frees B h" and al: "al \<noteq> 0"
  have "x + 16 + mn \<le> nm h x" "nm h x \<le> memory_top"
    using tilesD(9)[OF assms(1)] tiles_room(3)[OF assms(1)] frees_lt[OF assms(1) x] x by (auto simp: frees_def)
  then show "x + 48 + mn + al \<le> 4294967296" using assms(3) by simp
  show "roundup al (x + 16) - (x + 16) < 32 + mn \<or> start_of mn al x \<noteq> nm h x"
    using roundup_props(2)[of al "x + 16"] al assms(2,3) by linarith
qed

text \<open>\<open>DMC_Allocate\<close> returns, finds a block exactly when one fits, and leaves a well-formed pool with that block taken.\<close>

lemma DMC_Allocate_ok:
  assumes ok: "pool_ok p B pc h" and mn: "mn = dm_min_allocation pc"
    and al: "alignable mn al (frees B h) h" "al mod 4 = 0" and sz: "mn \<le> sz" "sz mod 4 = 0"
  shows "\<forall>x\<in>frees B h. \<not> fits mn sz al h x \<Longrightarrow> DMC_Allocate p sz al (pc, h) = Some ((pc, h), NU_NULL)"
    and "\<exists>x\<in>frees B h. fits mn sz al h x \<Longrightarrow>
      \<exists>pc' h' B' r. DMC_Allocate p sz al (pc, h) = Some ((pc', h'), r) \<and> r \<noteq> NU_NULL \<and> pool_ok p B' pc' h' \<and>
        granted B h B' h' r sz \<and> same_pool pc pc' \<and> (al \<noteq> 0 \<longrightarrow> (r + 16) mod al = 0) \<and>
        (\<exists>m\<in>frees B h. r + 16 = start_of mn al m)"
proof -
  note D = pool_okD[OF ok, folded mn]
  have sz0: "0 < sz" using sz D(5) by simp
  have ex: "if fits mn sz al h y then m = y \<and> sz \<le> bs else m = nf h y \<and> bs < sz"
    if "y \<in> frees B h" "examine_block mn sz al h y v = (m, bs, vs)" for y v m bs vs
  proof -
    obtain a sp where vs: "vs = (a, sp)" by force
    have "mn \<le> 1073741824" "room h y \<le> 1073741824" using pool_room[OF ok that(1)] mn by auto
    from examine_block_eq[OF D(1) that(1) al(1) sz0 this that(2)[unfolded vs]] show ?thesis
      by (auto simp: fits_def)
  qed
  have main: "(\<forall>x\<in>frees B h. \<not> fits mn sz al h x) \<and> DMC_Allocate p sz al (pc, h) = Some ((pc, h), NU_NULL) \<or>
    (\<exists>m bs v vs. m \<in> frees B h \<and> fits mn sz al h m \<and> examine_block mn sz al h m v = (m, bs, vs) \<and>
       DMC_Allocate p sz al (pc, h) = Some (take_block p sz al (m, bs, vs) (pc, h)))"
  proof (cases "frees B h = {}")
    case True
    then show ?thesis using free_ring_head(1)[OF D(2)] by (simp add: DMC_Allocate_def)
  next
    case False
    let ?head = "dm_memory_list pc"
    have hd: "?head \<in> frees B h" "?head \<noteq> 0" using free_ring_head[OF D(2)] False by auto
    from D(2) hd(1) obtain xs where r: "cs_ring (free_view h) ?head (?head # xs)" and F: "frees B h = insert ?head (set xs)"
      by (rule free_ring_from)
    then have seg: "dseg (free_view h) ?head xs ?head" "?head \<notin> set xs" and F': "set (?head # xs) = frees B h" by auto
    have "\<exists>m bs vs. search_blocks mn sz al h ?head ?head (0, 0) = Some (m, bs, vs) \<and>
      ((\<exists>v'. m \<in> set (?head # xs) \<and> fits mn sz al h m \<and> examine_block mn sz al h m v' = (m, bs, vs)) \<or>
       ((\<forall>y\<in>set (?head # xs). \<not> fits mn sz al h y) \<and> bs < sz))"
      by (rule search_blocks_seg[OF seg], rule ex) (use F in auto)
    then obtain m bs vs where s: "search_blocks mn sz al h ?head ?head (0, 0) = Some (m, bs, vs)"
      and c: "(\<exists>v'. m \<in> frees B h \<and> fits mn sz al h m \<and> examine_block mn sz al h m v' = (m, bs, vs)) \<or>
       ((\<forall>y\<in>frees B h. \<not> fits mn sz al h y) \<and> bs < sz)"
      unfolding F' by blast
    have "DMC_Allocate p sz al (pc, h) =
        Some (if sz \<le> bs then take_block p sz al (m, bs, vs) (pc, h) else ((pc, h), NU_NULL))"
      using s hd(2) mn by (simp add: DMC_Allocate_def)
    then show ?thesis using c ex by (smt (verit) linorder_not_less)
  qed
  then show "\<forall>x\<in>frees B h. \<not> fits mn sz al h x \<Longrightarrow> DMC_Allocate p sz al (pc, h) = Some ((pc, h), NU_NULL)" by blast
  assume "\<exists>x\<in>frees B h. fits mn sz al h x"
  with main obtain m bs v a sp where m: "m \<in> frees B h" "fits mn sz al h m"
    and e: "examine_block mn sz al h m v = (m, bs, a, sp)"
    and run: "DMC_Allocate p sz al (pc, h) = Some (take_block p sz al (m, bs, a, sp) (pc, h))" by auto
  obtain pc' h' r where t: "take_block p sz al (m, bs, a, sp) (pc, h) = ((pc', h'), r)" by (metis surj_pair)
  have "mn \<le> 1073741824" "room h m \<le> 1073741824" using pool_room[OF ok m(1)] mn by auto
  from examine_block_eq(1)[OF D(1) m(1) al(1) sz0 this e] m(2)
  have v: "bs = nm h m - start_of mn al m" "al \<noteq> 0 \<longrightarrow> a = m + 16"
    "al \<noteq> 0 \<longrightarrow> (m + 16) mod al \<noteq> 0 \<longrightarrow> sp = start_of mn al m - (m + 16)" by (auto simp: fits_def)
  note T = take_block_ok[OF ok m(1) mn m(2) sz al(2) v t]
  from T(3) obtain B' where B': "pool_ok p B' pc' h'" "granted B h B' h' r sz" by blast
  have "r \<in> B'" using B'(2) by (auto simp: granted_def used_def)
  then have "r \<noteq> NU_NULL" using tilesD(11)[OF pool_okD(1)[OF B'(1)]] by simp
  moreover have "al \<noteq> 0 \<longrightarrow> (r + 16) mod al = 0" using start_of_props(2) T(1) by simp
  ultimately show "\<exists>pc' h' B' r. DMC_Allocate p sz al (pc, h) = Some ((pc', h'), r) \<and> r \<noteq> NU_NULL \<and> pool_ok p B' pc' h' \<and>
        granted B h B' h' r sz \<and> same_pool pc pc' \<and> (al \<noteq> 0 \<longrightarrow> (r + 16) mod al = 0) \<and>
        (\<exists>m\<in>frees B h. r + 16 = start_of mn al m)"
    using B' T run t m(1) by (intro exI[of _ pc'] exI[of _ h'] exI[of _ B'] exI[of _ r]) auto
qed

section \<open>Deallocating\<close>

text \<open>
  While a block is given back: it is marked free and possibly merged with its predecessor, and it may not be in the
  ring yet. Only the given block may have a free successor.
\<close>

definition returning :: "addr \<Rightarrow> nat \<Rightarrow> addr set \<Rightarrow> dm_pcb \<Rightarrow> headers \<Rightarrow> addr \<Rightarrow> bool \<Rightarrow> bool" where
  "returning p mn B pc h x in_free \<longleftrightarrow> tiles p mn B h \<and> x \<in> frees B h \<and>
     free_ring h (dm_memory_list pc) (if in_free then frees B h else frees B h - {x}) \<and> dm_available pc = avail B h \<and>
     (\<forall>y\<in>frees B h. fr h (nm h y) \<longrightarrow> y = x)"

lemma merged_avail:
  assumes t: "tiles p mn B h" "x \<in> frees B h" "y = nm h x" "y \<in> frees B h"
    and h': "\<And>a. nm h' a = (if a = x then nm h y else nm h a)" "\<And>a. fr h' a = fr h a"
  shows "frees (B - {y}) h' = frees B h - {y}" "avail (B - {y}) h' = avail B h + 16"
proof -
  show F: "frees (B - {y}) h' = frees B h - {y}" by (auto simp: frees_def h')
  have xy: "x < y" "x \<noteq> y" "x \<in> frees B h - {y}" "y < nm h y" "nm h y = y + 16 + room h y" "y = x + 16 + room h x"
    using frees_lt[OF t(1,2)] frees_lt[OF t(1,4)] tiles_room(1)[OF t(1), of x] tiles_room(1)[OF t(1), of y] t(2-4)
    by (auto simp: frees_def)
  have fin: "finite (frees B h)" by (rule finite_frees[OF t(1)])
  have "(\<Sum>z\<in>frees B h - {y} - {x}. room h' z) = (\<Sum>z\<in>frees B h - {y} - {x}. room h z)"
    by (rule sum.cong) (auto simp: room_def h')
  moreover have "room h' x = room h x + room h y + 16"
    using xy(5,6) unfolding room_def[of h' x] h'(1)[of x] if_P[OF refl] by linarith
  moreover have "avail (B - {y}) h' = room h' x + (\<Sum>z\<in>frees B h - {y} - {x}. room h' z)"
    unfolding avail_def F using fin xy by (intro sum.remove) auto
  moreover have "avail B h = room h y + (room h x + (\<Sum>z\<in>frees B h - {y} - {x}. room h z))"
    unfolding avail_def using sum.remove[OF fin t(4), of "room h"] sum.remove[OF _ xy(3), of "room h"] fin
    by (simp only: finite_Diff simp_thms)
  ultimately show "avail (B - {y}) h' = avail B h + 16" by simp
qed

lemma merge_next_links:
  assumes "merge_next x in_free (pc, h) = ((pc', h'), in_free')" "fr h (nm h x)" "y = nm h x" "x \<noteq> y" "nm h y \<noteq> y"
  shows "in_free'" "pc' = pc\<lparr>dm_available := add32 (dm_available pc) 16\<rparr>"
    "nm h' a = (if a = x then nm h y else nm h a)" "pm h' a = (if a = nm h y then x else pm h a)"
    "fr h' a = fr h a" "dm_memory_pool (h' a) = dm_memory_pool (h a)"
    "nf h y = y \<Longrightarrow> nf h' x = x \<and> pf h' x = x"
    "nf h y \<noteq> y \<Longrightarrow> pf h y \<noteq> y \<Longrightarrow> \<not> in_free \<Longrightarrow> nf h y \<noteq> x \<Longrightarrow> pf h y \<noteq> x \<Longrightarrow>
       nf h' a = (if a = x then nf h y else if a = pf h y then x else nf h a) \<and>
       pf h' a = (if a = x then pf h y else if a = nf h y then x else pf h a)"
    "nf h y \<noteq> y \<Longrightarrow> pf h y \<noteq> y \<Longrightarrow> in_free \<Longrightarrow>
       nf h' a = (if a = pf h y then nf h y else nf h a) \<and> pf h' a = (if a = nf h y then pf h y else pf h a)"
    "a \<notin> {x, y, nm h y, nf h y, pf h y} \<Longrightarrow> h' a = h a"
proof -
  have r: "h' = snd (fst (merge_next x in_free (pc, h)))" "pc' = fst (fst (merge_next x in_free (pc, h)))"
    "in_free' = snd (merge_next x in_free (pc, h))" using assms(1) by simp_all
  note D = merge_next_def Let_def DM_OVERHEAD_def assms(3)[symmetric]
  have f: "fr h y" using assms by simp
  show "in_free'" "pc' = pc\<lparr>dm_available := add32 (dm_available pc) 16\<rparr>"
    using f by (simp_all add: r D)
  note ne = assms(4,5) assms(4,5)[symmetric]
  show "nm h' a = (if a = x then nm h y else nm h a)" "pm h' a = (if a = nm h y then x else pm h a)"
    "fr h' a = fr h a" "dm_memory_pool (h' a) = dm_memory_pool (h a)"
    using f ne by (simp_all add: r D)
  show "nf h y = y \<Longrightarrow> nf h' x = x \<and> pf h' x = x" using f ne by (simp add: r D)
  show "nf h' a = (if a = x then nf h y else if a = pf h y then x else nf h a) \<and>
       pf h' a = (if a = x then pf h y else if a = nf h y then x else pf h a)"
    if "nf h y \<noteq> y" "pf h y \<noteq> y" "\<not> in_free" "nf h y \<noteq> x" "pf h y \<noteq> x"
    using f ne that that(1,2,4,5)[symmetric] by (simp add: r D adopt_free_links)
  show "nf h' a = (if a = pf h y then nf h y else nf h a) \<and> pf h' a = (if a = nf h y then pf h y else pf h a)"
    if "nf h y \<noteq> y" "pf h y \<noteq> y" "in_free" using f ne that that(1,2)[symmetric] by (simp add: r D drop_free_links)
  show "a \<notin> {x, y, nm h y, nf h y, pf h y} \<Longrightarrow> h' a = h a" using f ne by (simp add: r D)
qed

text \<open>The second half: merging with the successor and linking the block.\<close>

lemma merge_next_ok:
  assumes ret: "returning p mn B pc h x in_free" and y: "y = nm h x" "fr h y" and av: "avail B h + 16 < 4294967296"
    and run: "merge_next x in_free (pc, h) = ((pc', h'), in_free')"
  shows "in_free'" "tiles p mn (B - {y}) h'" "area (B - {y}) h' = area B h" "free_ring h' x (frees (B - {y}) h')"
    "dm_available pc' = avail (B - {y}) h'" "settled (B - {y}) h'" "used (B - {y}) h' = used B h"
    "a \<in> used B h \<Longrightarrow> nm h' a = nm h a" "a \<notin> B \<Longrightarrow> h' a = h a" "same_pool pc pc'" "x \<in> B - {y}"
proof -
  let ?F = "frees B h" and ?R = "if in_free then frees B h else frees B h - {x}"
  from ret have t: "tiles p mn B h" "x \<in> ?F" "free_ring h (dm_memory_list pc) ?R" "dm_available pc = avail B h"
    "\<And>z. z \<in> ?F \<Longrightarrow> fr h (nm h z) \<Longrightarrow> z = x" by (auto simp: returning_def)
  have x: "x \<in> B" "x < y" "x \<noteq> y" "fr h x" using frees_lt[OF t(1,2)] t(2) y by (auto simp: frees_def)
  have yF: "y \<in> ?F" "y \<in> ?R" "y \<in> B" using tilesD(1)[OF t(1) x(1)] y x by (auto simp: frees_def)
  have ny: "y < nm h y" "nm h y \<noteq> y" using frees_lt[OF t(1) yF(1)] by auto
  note L = merge_next_links[OF run y(2)[unfolded y(1)] y(1) x(3) ny(2)]
  show "in_free'" by (rule L)
  show "tiles p mn (B - {y}) h'" "area (B - {y}) h' = area B h"
    by (rule tiles_merge[OF t(1) x(1) _ y(1) ny(1)]; use L(3-6) x(2) y(1) in simp)+
  note F = merged_avail[OF t(1,2) y(1) yF(1) L(3,5)]
  show "dm_available pc' = avail (B - {y}) h'" using L(2) F(2) t(4) av by (simp add: add32_eq)
  show "same_pool pc pc'" using L(2) same_pool_available by simp
  show "used (B - {y}) h' = used B h" using y(2) by (auto simp: used_def L(5))
  show "a \<in> used B h \<Longrightarrow> nm h' a = nm h a" using x by (auto simp: L(3) used_def)
  show "x \<in> B - {y}" using x by simp
  show "settled (B - {y}) h'"
    unfolding settled_def F(1) using t(5)[OF yF(1)] t(5) x(3) by (auto simp: L(3,5))
  note R = free_ring_links[OF t(3) yF(2)]
  show "a \<notin> B \<Longrightarrow> h' a = h a"
    by (rule L(10)) (use R(1,2) x yF tilesD(1)[OF t(1) yF(3)] in \<open>auto simp: frees_def split: if_splits\<close>)
  show "free_ring h' x (frees (B - {y}) h')"
  proof (cases "nf h y = y")
    case True
    then have "?R = {y}" using R(5) by simp
    then have "\<not> in_free" "frees B h - {x} = {y}" using t(2) x(3) by (auto split: if_splits)
    then have "frees (B - {y}) h' = {x}" using F(1) t(2) x(3) by auto
    then show ?thesis using L(7)[OF True] tilesD(11)[OF t(1) x(1)] by (simp add: free_ring_single)
  next
    case ny: False
    then have py: "pf h y \<noteq> y" "?R \<noteq> {y}" using R by auto
    show ?thesis
    proof (cases in_free)
      case True
      have "free_ring h' (nf h y) (?R - {y})" by (rule free_ring_remove[OF t(3) yF(2) py(2)]) (use L(9)[OF ny py(1) True] in auto)
      then show ?thesis using free_ring_rotate[of h' "nf h y" "?R - {y}" x] True F(1) t(2) x(3) by simp
    next
      case False
      then have "nf h y \<noteq> x" "pf h y \<noteq> x" "x \<notin> ?R" using R(1,2) by auto
      then have "free_ring h' x (insert x (?R - {y}))"
        by (intro free_ring_replace[OF t(3) yF(2) py(2)]) (use L(8)[OF ny py(1) False] tilesD(11)[OF t(1) x(1)] in auto)
      moreover have "insert x (?R - {y}) = frees (B - {y}) h'" using F(1) False t(2) x(3) by auto
      ultimately show ?thesis by simp
    qed
  qed
qed

lemma link_free_ok:
  assumes ret: "returning p mn B pc h x False" and h': "h' = link_free x (pc, h)"
  shows "free_ring h' x (frees B h')" "nm h' a = nm h a" "pm h' a = pm h a" "fr h' a = fr h a"
    "dm_memory_pool (h' a) = dm_memory_pool (h a)" "a \<notin> B \<Longrightarrow> h' a = h a"
proof -
  let ?R = "frees B h - {x}" and ?hd = "dm_memory_list pc"
  from ret have t: "tiles p mn B h" "x \<in> frees B h" "free_ring h ?hd ?R" by (auto simp: returning_def)
  have x: "x \<in> B" "x \<noteq> 0" using t(2) tilesD(11)[OF t(1)] by (auto simp: frees_def)
  show "nm h' a = nm h a" "pm h' a = pm h a" "dm_memory_pool (h' a) = dm_memory_pool (h a)"
    unfolding h' by (simp_all add: link_free_def Let_def)
  show f: "fr h' a = fr h a" for a unfolding h' by (simp add: link_free_def Let_def)
  have F: "frees B h' = insert x ?R" using t(2) by (auto simp: frees_def f)
  show "free_ring h' x (frees B h')"
  proof (cases "?hd = 0")
    case True
    then have "?R = {}" using free_ring_head(1)[OF t(3)] by simp
    moreover have "free_ring h' x {x}"
      by (rule free_ring_single) (use True x in \<open>simp_all add: h' link_free_def\<close>)
    ultimately show ?thesis unfolding F by (simp only:)
  next
    case False
    then have hd: "?hd \<in> ?R" using free_ring_head[OF t(3)] by auto
    note R = free_ring_links[OF t(3) hd]
    let ?p = "pf h ?hd"
    have ne: "?hd \<noteq> x" "?p \<noteq> x" using hd R(2) by auto
    have "free_ring h' ?p (insert x ?R)"
      by (rule free_ring_insert[OF t(3) R(2)]) (use False ne R(4) x in \<open>auto simp: h' link_free_def Let_def\<close>)
    then show ?thesis unfolding F by (rule free_ring_rotate) simp
  qed
  show "a \<notin> B \<Longrightarrow> h' a = h a"
  proof (cases "?hd = 0")
    case False
    then have hd: "?hd \<in> ?R" using free_ring_head[OF t(3)] by auto
    then have "?hd \<in> B" "pf h ?hd \<in> B" "?hd \<noteq> x" using free_ring_links(2)[OF t(3) hd] by (auto simp: frees_def)
    then show "a \<notin> B \<Longrightarrow> h' a = h a" using x unfolding h' by (auto simp: link_free_def Let_def)
  qed (use x in \<open>auto simp: h' link_free_def\<close>)
qed

text \<open>The first half: marking the block and merging it with the predecessor.\<close>

lemma merge_previous_ok:
  assumes ok: "pool_ok p B pc h" "x \<in> used B h" "x < nm h x" and mn: "mn = dm_min_allocation pc"
    and h1: "h1 = hset (\<lambda>b. b\<lparr>dm_memory_free := True\<rparr>) x h"
    and pc1: "pc1 = pc\<lparr>dm_available := avail B h + room h x\<rparr>"
    and run: "merge_previous x (pc1, h1) = ((pc2, h2), x2, in_free)"
    and B2: "B2 = (if fr h (pm h x) then B - {x} else B)"
  shows "returning p mn B2 pc2 h2 x2 in_free" "area B2 h2 = area B h" "used B2 h2 = used B h - {x}"
    "a \<in> used B h - {x} \<Longrightarrow> nm h2 a = nm h a" "a \<notin> B \<Longrightarrow> h2 a = h a" "same_pool pc pc2"
    "x2 = (if fr h (pm h x) then pm h x else x)" "nm h2 x2 = nm h x" "fr h2 (nm h x) = fr h (nm h x)"
proof -
  note D = pool_okD[OF ok(1), folded mn]
  have x: "x \<in> B" "\<not> fr h x" using ok(2) by (auto simp: used_def)
  note X = tilesD[OF D(1) x(1)]
  have k: "nm h1 a = nm h a" "pm h1 a = pm h a" "nf h1 a = nf h a" "pf h1 a = pf h a" "fr h1 a = (a = x \<or> fr h a)"
    "dm_memory_pool (h1 a) = dm_memory_pool (h a)" "a \<noteq> x \<Longrightarrow> h1 a = h a" for a by (auto simp: h1)
  have t1: "tiles p mn B h1" "area B h1 = area B h"
    by (rule tiles_same_links[OF D(1)]; use k ok(3) tilesD(10)[OF D(1)] in auto)+
  have F1: "frees B h1 = insert x (frees B h)" "x \<notin> frees B h" using x by (auto simp: frees_def k)
  have av1: "dm_available pc1 = avail B h1"
    using F1 finite_frees[OF D(1)] by (simp add: pc1 avail_def room_def k)
  have ring1: "free_ring h1 (dm_memory_list pc1) (frees B h)"
    by (rule free_ring_same[of h]) (use D(2) k in \<open>auto simp: pc1\<close>)
  have adj: "z = pm h x" if "z \<in> frees B h" "fr h1 (nm h z)" for z
    using that D(4)[OF that(1)] k(5) tilesD(3)[OF D(1), of z] by (auto simp: frees_def)
  have sp: "same_pool pc pc1" by (simp add: pc1 same_pool_available)
  have all: "returning p mn B2 pc2 h2 x2 in_free \<and> area B2 h2 = area B h \<and> used B2 h2 = used B h - {x} \<and>
    (\<forall>a\<in>used B h - {x}. nm h2 a = nm h a) \<and> (\<forall>a. a \<notin> B \<longrightarrow> h2 a = h a) \<and> same_pool pc pc2 \<and>
    x2 = (if fr h (pm h x) then pm h x else x) \<and> nm h2 x2 = nm h x \<and> fr h2 (nm h x) = fr h (nm h x)"
  proof (cases "fr h (pm h x)")
    case False
    have "pm h x \<noteq> x" using X(4) ok(3) by auto
    then have r: "pc2 = pc1" "h2 = h1" "x2 = x" "\<not> in_free" "B2 = B"
      using run False B2 by (auto simp: merge_previous_def k split: if_splits)
    have "y = x" if "y \<in> frees B h1" "fr h1 (nm h1 y)" for y
      using that adj[of y] False F1 by (auto simp: k frees_def)
    then have "returning p mn B2 pc2 h2 x2 in_free"
      using t1 F1 ring1 av1 r(4) unfolding returning_def r(1,2,3,5) by auto
    moreover have "\<forall>a. a \<notin> B \<longrightarrow> h1 a = h a" using k(7) x(1) by metis
    ultimately show ?thesis unfolding r using t1 k(1-6) x False sp ok(3) by (auto simp: used_def)
  next
    case True
    let ?v = "pm h x"
    have v: "?v \<in> B" "?v \<in> frees B h" "?v < x" "?v \<noteq> x" "nm h ?v = x"
      using X(2,4) True tilesD(10)[OF D(1), of ?v] by (auto simp: frees_def)
    have h2: "h2 = snd (fst (merge_previous x (pc1, h1)))" using run by simp
    have nx: "nm h x \<noteq> x" "nm h x \<noteq> ?v" using ok(3) v(3) by auto
    have l: "nm h2 a = (if a = ?v then nm h1 x else nm h1 a)" "pm h2 a = (if a = nm h1 x then ?v else pm h1 a)"
      "fr h2 a = fr h1 a" "dm_memory_pool (h2 a) = dm_memory_pool (h1 a)" "nf h2 a = nf h1 a" "pf h2 a = pf h1 a"
      "a \<notin> {?v, nm h x, x} \<Longrightarrow> h2 a = h a" for a
      unfolding h2 using True v(4) v(4)[symmetric] nx nx[symmetric] by (simp_all add: merge_previous_def Let_def k)
    have r: "pc2 = pc1\<lparr>dm_available := add32 (dm_available pc1) 16\<rparr>" "x2 = ?v" "in_free" "B2 = B - {x}"
      using run True B2 v(4) nx by (auto simp: merge_previous_def Let_def k DM_OVERHEAD_def)
    have t2: "tiles p mn (B - {x}) h2" "area (B - {x}) h2 = area B h1"
      by (rule tiles_merge[OF t1(1) v(1)]; use l(1-4) v ok(3) in \<open>simp add: k\<close>)+
    have vF: "?v \<in> frees B h1" "x \<in> frees B h1" using F1 v by auto
    have F2: "frees (B - {x}) h2 = frees B h1 - {x}" "avail (B - {x}) h2 = avail B h1 + 16"
      by (rule merged_avail[OF t1(1) vF(1) _ vF(2)]; use l(1,3) v in \<open>simp add: k\<close>)+
    have F2': "frees (B - {x}) h2 = frees B h" using F2(1) F1 by auto
    have "avail B h1 + 16 * card (frees B h1) \<le> 1073741824"
      using avail_le(1)[OF t1(1)] D(8,9) t1(2) by simp
    moreover have "0 < card (frees B h1)" using finite_frees[OF t1(1)] vF by (auto simp: card_gt_0_iff)
    ultimately have "avail B h1 + 16 < 4294967296" by linarith
    then have "dm_available pc2 = avail (B - {x}) h2" using r av1 F2(2) by (simp add: add32_eq)
    moreover have "free_ring h2 (dm_memory_list pc2) (frees (B - {x}) h2)"
      unfolding F2' by (rule free_ring_same[of h1]) (use l r ring1 in \<open>simp_all add: pc1\<close>)
    moreover have "y = ?v" if "y \<in> frees B h" "fr h2 (nm h2 y)" for y
      using that adj[of y] l(1)[of y] l(3)[of "nm h y"] k(1)[of y] by metis
    ultimately have "returning p mn B2 pc2 h2 x2 in_free"
      using t2 r(2,3) v unfolding returning_def r(4) F2' by auto
    moreover have "used (B - {x}) h2 = used B h - {x}" by (auto simp: used_def l k)
    moreover have "\<forall>a\<in>used B h - {x}. nm h2 a = nm h a" using True by (auto simp: used_def l k)
    moreover have "\<forall>a. a \<notin> B \<longrightarrow> h2 a = h a" using X(1) v(1) x(1) by (intro allI impI l(7)) auto
    moreover have "same_pool pc pc2" using r(1) same_pool_available same_pool_trans[OF sp] by simp
    ultimately show ?thesis using t2 t1 r True nx by (auto simp: l k)
  qed
  then show "returning p mn B2 pc2 h2 x2 in_free" "area B2 h2 = area B h" "used B2 h2 = used B h - {x}"
    "a \<in> used B h - {x} \<Longrightarrow> nm h2 a = nm h a" "a \<notin> B \<Longrightarrow> h2 a = h a" "same_pool pc pc2"
    "x2 = (if fr h (pm h x) then pm h x else x)" "nm h2 x2 = nm h x" "fr h2 (nm h x) = fr h (nm h x)" by blast+
qed

text \<open>
  \<open>DMC_Deallocate\<close> on a block in use, not a trailer: the block and its free neighbours become one free block; every other
  block in use is kept.
\<close>

definition merged_blocks :: "addr set \<Rightarrow> headers \<Rightarrow> addr \<Rightarrow> addr set" where
  "merged_blocks B h x = B - (if fr h (pm h x) then {x} else {}) - (if fr h (nm h x) then {nm h x} else {})"

definition returned :: "addr set \<Rightarrow> headers \<Rightarrow> addr set \<Rightarrow> headers \<Rightarrow> addr \<Rightarrow> bool" where
  "returned B h B' h' x \<longleftrightarrow> B' = merged_blocks B h x \<and> area B' h' = area B h \<and> used B' h' = used B h - {x} \<and>
     (\<forall>a\<in>used B h - {x}. nm h' a = nm h a) \<and> (\<forall>a. a \<notin> B \<longrightarrow> h' a = h a)"

lemma DMC_Deallocate_ok:
  assumes ok: "pool_ok p B pc h" "x \<in> used B h" "x < nm h x" and run: "DMC_Deallocate x (pc, h) = (pc', h')"
  shows "\<exists>B'. pool_ok p B' pc' h' \<and> returned B h B' h' x" "same_pool pc pc'"
proof -
  let ?mn = "dm_min_allocation pc"
  note D = pool_okD[OF ok(1)]
  have xB: "x \<in> B" using ok(2) by (simp add: used_def)
  note R = tiles_room[OF D(1) xB ok(3)]
  define h1 where "h1 = hset (\<lambda>b. b\<lparr>dm_memory_free := True\<rparr>) x h"
  define pc1 where "pc1 = pc\<lparr>dm_available := avail B h + room h x\<rparr>"
  have "avail B h \<le> 1073741824" using avail_le(1)[OF D(1)] D(8,9) by linarith
  moreover have "room h x + 16 \<le> 1073741824"
  proof -
    have "{x..<nm h x} \<subseteq> area B h" using xB ok(3) by (auto simp: area_def blk_end_def)
    from card_mono[OF finite_area[OF D(1)] this] show ?thesis using R(1) D(8,9) by simp
  qed
  ultimately have av: "sub32 (add32 (dm_available pc) (sub32 (nm h x) x)) 16 = avail B h + room h x"
    using R(1,3) D(3) by (simp add: add32_eq sub32_eq)
  obtain pc2 h2 x2 i where m: "merge_previous x (pc1, h1) = ((pc2, h2), x2, i)" by (metis surj_pair)
  obtain pc3 h3 i3 where n: "merge_next x2 i (pc2, h2) = ((pc3, h3), i3)" by (metis surj_pair)
  have run': "pc' = pc3\<lparr>dm_memory_list := x2\<rparr>" "h' = (if i3 then h3 else link_free x2 (pc3, h3))"
    using run m n av by (auto simp: DMC_Deallocate_def Let_def DM_OVERHEAD_def h1_def[symmetric] pc1_def[symmetric])
  define B2 where "B2 = (if fr h (pm h x) then B - {x} else B)"
  note M = merge_previous_ok[OF ok refl h1_def pc1_def m B2_def]
  have t2: "tiles p ?mn B2 h2" "x2 \<in> frees B2 h2" "dm_available pc2 = avail B2 h2"
    "\<forall>y\<in>frees B2 h2. fr h2 (nm h2 y) \<longrightarrow> y = x2" using M(1) by (auto simp: returning_def)
  have sp: "same_pool pc (q\<lparr>dm_memory_list := v\<rparr>)" if "same_pool pc q" for q v using that by (auto simp: same_pool_def) blast
  have B2B: "B2 \<subseteq> B" by (auto simp: B2_def)
  have "(\<exists>B'. pool_ok p B' pc' h' \<and> returned B h B' h' x) \<and> same_pool pc pc'"
  proof (cases "fr h (nm h x)")
    case True
    have "avail B2 h2 + 16 * card (frees B2 h2) \<le> 1073741824" using avail_le(1)[OF t2(1)] M(2) D(8,9) by simp
    moreover have "0 < card (frees B2 h2)" using finite_frees[OF t2(1)] t2(2) by (auto simp: card_gt_0_iff)
    ultimately have lt: "avail B2 h2 + 16 < 4294967296" by linarith
    have y: "nm h x = nm h2 x2" "fr h2 (nm h x)" using M(8,9) True by auto
    note N = merge_next_ok[OF M(1) y lt n]
    let ?B = "B2 - {nm h x}"
    have s3: "same_pool pc pc3" by (rule same_pool_trans[OF M(6) N(10)])
    then have sp': "same_pool pc pc'" unfolding run' by (rule sp)
    have h': "h' = h3" using run'(2) N(1) by simp
    have "pool_ok p ?B pc' h'"
      by (rule pool_okI[OF ok(1) sp']) (use N(2-6) M(2) in \<open>simp_all add: h' run'(1)\<close>)
    moreover have "returned B h ?B h' x"
      unfolding returned_def
    proof (intro conjI ballI allI impI)
      show "?B = merged_blocks B h x" using True by (auto simp: merged_blocks_def B2_def)
      show "area ?B h' = area B h" "used ?B h' = used B h - {x}" using N(3,7) M(2,3) by (simp_all add: h')
      show "nm h' a = nm h a" if "a \<in> used B h - {x}" for a using N(8)[of a] M(3,4) that by (simp add: h')
      show "h' a = h a" if "a \<notin> B" for a using N(9)[of a] M(5)[OF that] B2B that by (auto simp: h')
    qed
    ultimately show ?thesis using sp' by blast
  next
    case False
    then have nf: "\<not> fr h2 (nm h2 x2)" using M(8,9) by simp
    then have r: "pc3 = pc2" "h3 = h2" "i3 = i" using n by (auto simp: merge_next_def)
    have sp': "same_pool pc pc'" unfolding run' r by (rule sp[OF M(6)])
    have k: "free_ring h' x2 (frees B2 h') \<and> (\<forall>a. nm h' a = nm h2 a \<and> pm h' a = pm h2 a \<and> fr h' a = fr h2 a \<and>
        dm_memory_pool (h' a) = dm_memory_pool (h2 a) \<and> (a \<notin> B2 \<longrightarrow> h' a = h2 a))"
    proof (cases i)
      case True
      have "free_ring h2 x2 (frees B2 h2)"
        by (rule free_ring_rotate[OF _ t2(2)]) (use M(1) True in \<open>auto simp: returning_def\<close>)
      then show ?thesis using True run' r by simp
    next
      case False
      then have h': "h' = link_free x2 (pc2, h2)" using run' r by simp
      have "returning p ?mn B2 pc2 h2 x2 False" using M(1) False by simp
      from link_free_ok[OF this h'] show ?thesis by blast
    qed
    have F: "frees B2 h' = frees B2 h2" "avail B2 h' = avail B2 h2" using k by (auto simp: frees_def avail_def room_def)
    have t': "tiles p ?mn B2 h'" "area B2 h' = area B2 h2"
      by (rule tiles_same_links[OF t2(1)]; use k tilesD(10)[OF t2(1)] in auto)+
    have "settled B2 h'" unfolding settled_def F(1) using t2(4) nf k by auto
    then have "pool_ok p B2 pc' h'"
      by (intro pool_okI[OF ok(1) sp']) (use t' k F t2(3) M(2) in \<open>simp_all add: run'(1) r\<close>)
    moreover have "returned B h B2 h' x"
      unfolding returned_def
    proof (intro conjI ballI allI impI)
      show "B2 = merged_blocks B h x" using False by (auto simp: merged_blocks_def B2_def)
      show "area B2 h' = area B h" "used B2 h' = used B h - {x}" using t'(2) M(2,3) k by (auto simp: used_def)
      show "nm h' a = nm h a" if "a \<in> used B h - {x}" for a using k M(4)[OF that] by simp
      show "h' a = h a" if "a \<notin> B" for a using k M(5)[OF that] B2B that by auto
    qed
    ultimately show ?thesis using sp' by blast
  qed
  then show "\<exists>B'. pool_ok p B' pc' h' \<and> returned B h B' h' x" "same_pool pc pc'" by auto
qed

end
