(* ===== verification/Memory_Services.thy ===== *)
theory Memory_Services
  imports Memory_Allocation
begin

text \<open>
  The services on memory pools: the invariant \<open>mem_inv\<close> of all pools and their waiting tasks, the step relation \<open>mstep\<close>
  that also records the memory given to each pool and the pointers the application holds, and the properties.
\<close>

section \<open>Frames\<close>

lemma pool_ok_same:
  assumes ok: "pool_ok p B pc h" and h': "\<forall>a\<in>B. nm h' a = nm h a \<and> pm h' a = pm h a \<and> fr h' a = fr h a \<and>
      dm_memory_pool (h' a) = dm_memory_pool (h a)" "\<forall>a\<in>frees B h. nf h' a = nf h a \<and> pf h' a = pf h a"
  shows "pool_ok p B pc h'" "area B h' = area B h" "used B h' = used B h" "frees B h' = frees B h"
proof -
  note D = pool_okD[OF ok]
  show F: "frees B h' = frees B h" and "used B h' = used B h" using h' by (auto simp: frees_def used_def)
  have t: "tiles p (dm_min_allocation pc) B h'" "area B h' = area B h"
    by (rule tiles_same_links[OF D(1)]; use h' tilesD(10)[OF D(1)] in auto)+
  then show "area B h' = area B h" by simp
  have n: "nm h' a = nm h a \<and> fr h' (nm h a) = fr h (nm h a)" if "a \<in> frees B h" for a
    using h'(1) tilesD(1)[OF D(1), of a] that by (auto simp: frees_def)
  have "free_ring h' (dm_memory_list pc) (frees B h)" by (rule free_ring_same[OF D(2)]) (use h' in auto)
  moreover have "avail B h' = avail B h" unfolding avail_def F using n by (intro sum.cong) (auto simp: room_def)
  ultimately show "pool_ok p B pc h'" using ok t n unfolding pool_ok_def F by auto
qed

lemma blocks_in_area: "tiles p mn B h \<Longrightarrow> B \<subseteq> area B h"
  by (force simp: area_def blk_end_def)

lemma pool_ok_frame:
  assumes "pool_ok p B pc h" "\<forall>a\<in>area B h. h' a = h a"
  shows "pool_ok p B pc h'" "area B h' = area B h" "used B h' = used B h"
  using pool_ok_same[OF assms(1), of h'] assms(2) blocks_in_area[OF pool_okD(1)[OF assms(1)]]
  by (auto simp: frees_def subset_iff)

text \<open>A new section of memory: one free block and its trailer.\<close>

lemma tiles_add:
  assumes t: "tiles p mn B h" and x: "x \<noteq> 0" "x mod 4 = 0" "n mod 4 = 0" "mn + 32 \<le> n" "x + n \<le> memory_top"
    and e: "e = x + n - 16" and dis: "{x..<x + n} \<inter> area B h = {}"
    and h': "\<And>a. nm h' a = (if a = x then e else if a = e then x else nm h a)"
      "\<And>a. pm h' a = (if a = x then e else if a = e then x else pm h a)"
      "\<And>a. fr h' a = (if a = x then True else if a = e then False else fr h a)"
      "\<And>a. dm_memory_pool (h' a) = (if a = x \<or> a = e then p else dm_memory_pool (h a))"
  shows "tiles p mn (insert x (insert e B)) h'" "area (insert x (insert e B)) h' = {x..<x + n} \<union> area B h"
    "x \<notin> B" "e \<notin> B"
proof -
  have xe: "x < e" "x + 16 + mn \<le> e" "e + 16 = x + n" "x \<noteq> e" "e \<in> {x..<x + n}" "x \<in> {x..<x + n}" using x e by auto
  have B: "b \<notin> {x..<x + n}" if "b \<in> B" for b using dis blocks_in_area[OF t] that by auto
  show nB: "x \<notin> B" "e \<notin> B" using B[of x] B[of e] xe(5,6) by blast+
  have ends: "blk_end h' x = e" "blk_end h' e = x + n" "a \<in> B \<Longrightarrow> blk_end h' a = blk_end h a" for a
    using xe nB by (auto simp: blk_end_def h')
  have area: "area (insert x (insert e B)) h' = {x..<e} \<union> {e..<x + n} \<union> (\<Union>a\<in>B. {a..<blk_end h' a})"
    by (simp add: area_def ends(1,2) Un_assoc)
  also have "(\<Union>a\<in>B. {a..<blk_end h' a}) = area B h" unfolding area_def by (rule SUP_cong[OF refl]) (metis ends(3))
  finally show "area (insert x (insert e B)) h' = {x..<x + n} \<union> area B h"
    using ivl_disj_un_two(3)[of x e "x + n"] xe by simp
  have out: "\<not> (a < b \<and> b < blk_end h a)" if "a \<in> B" "b \<in> {x..<x + n}" for a b
    using dis that by (fastforce simp: area_def)
  show "tiles p mn (insert x (insert e B)) h'"
    unfolding tiles_def
  proof (intro conjI ballI)
    show "finite (insert x (insert e B))" "0 \<notin> insert x (insert e B)" using t x xe by (auto simp: tiles_def)
    fix a assume a: "a \<in> insert x (insert e B)"
    note D = tilesD[OF t]
    have ab: "a \<in> B \<Longrightarrow> nm h a \<noteq> x \<and> nm h a \<noteq> e \<and> pm h a \<noteq> x \<and> pm h a \<noteq> e" using D(1,2)[of a] nB by auto
    show "nm h' a \<in> insert x (insert e B)" "pm h' a \<in> insert x (insert e B)" using a D(1,2)[of a] by (auto simp: h')
    show "pm h' (nm h' a) = a" "nm h' (pm h' a) = a" using a D(3,4)[of a] ab xe by (auto simp: h')
    have e4: "e mod 4 = 0" using x(2,3) xe(3) by presburger
    show "dm_memory_pool (h' a) = p" "a mod 4 = 0" using a D(5,6)[of a] x(2) e4 by (auto simp: h')
    show "blk_end h' a \<le> memory_top" using a ends D(7)[of a] x(5) xe by auto
    show "\<not> (a < b \<and> b < blk_end h' a)" if b: "b \<in> insert x (insert e B)" for b
    proof (cases "a \<in> B")
      case True
      then show ?thesis using b out[OF True] D(8)[OF True, of b] ends(3)[OF True] xe by auto
    next
      case False
      then show ?thesis using a b B[of b] ends(1,2) xe by auto
    qed
    show "a < nm h' a \<longrightarrow> a + 16 + mn \<le> nm h' a" using a D(9)[of a] xe by (auto simp: h')
    show "fr h' a \<longrightarrow> a < nm h' a" using a D(10)[of a] xe by (auto simp: h' split: if_splits)
  qed
qed

section \<open>The invariant\<close>

lemma upd_mpool_simps [simp]:
  "mpools (upd_mpool p f s) = (mpools s)(p := f (mpools s p))" "hdrs (upd_mpool p f s) = hdrs s"
  "dblocks (upd_mpool p f s) = dblocks s" "dkern (upd_mpool p f s) = dkern s" "dbytes (upd_mpool p f s) = dbytes s"
  by (simp_all add: upd_mpool_def)

lemma upd_dblock_simps [simp]:
  "mpools (upd_dblock t g s) = mpools s" "hdrs (upd_dblock t g s) = hdrs s"
  "dblocks (upd_dblock t g s) = (dblocks s)(t := g (dblocks s t))" "dkern (upd_dblock t g s) = dkern s"
  "dbytes (upd_dblock t g s) = dbytes s"
  by (simp_all add: upd_dblock_def)

text \<open>
  The requests for which the search is sound in every state of a pool: adjusted to multiples of 4, with an alignment of
  at most 40 bytes (see \<open>alignable_small\<close>).
\<close>

definition request_ok :: "nat \<Rightarrow> nat \<Rightarrow> nat \<Rightarrow> bool" where
  "request_ok mn sz al \<longleftrightarrow> mn \<le> sz \<and> sz mod 4 = 0 \<and> al mod 4 = 0 \<and> al \<le> 40"

definition memory_waiter :: "addr \<Rightarrow> dsys \<Rightarrow> tid \<Rightarrow> bool" where
  "memory_waiter p s t \<longleftrightarrow> waits_for t NU_MEMORY_SUSPEND (dkern s) \<and> \<not> tc_signal_active (tcbs (dkern s) t) \<and>
     tc_cleanup (tcbs (dkern s) t) = Some t \<and> ds_memory_pool (dblocks s t) = p \<and>
     request_ok (dm_min_allocation (mpools s p)) (dm_request_size (dblocks s t)) (dm_alignment (dblocks s t))"

definition waiters_ok :: "addr \<Rightarrow> dsys \<Rightarrow> bool" where
  "waiters_ok p s \<longleftrightarrow> distinct (dm_suspension_list (mpools s p)) \<and>
     dm_tasks_waiting (mpools s p) = length (dm_suspension_list (mpools s p)) mod 4294967296 \<and>
     (\<forall>t \<in> set (dm_suspension_list (mpools s p)). memory_waiter p s t)"

text \<open>\<open>A p\<close> is the memory given to the pool \<open>p\<close>, \<open>B p\<close> the addresses of its block headers.\<close>

definition mem_inv :: "(addr \<Rightarrow> addr set) \<Rightarrow> (addr \<Rightarrow> addr set) \<Rightarrow> dsys \<Rightarrow> bool" where
  "mem_inv A B s \<longleftrightarrow> sched_inv (dkern s) \<and>
     (\<forall>p. dm_id_valid (mpools s p) \<longrightarrow> p \<noteq> NU_NULL \<and> pool_ok p (B p) (mpools s p) (hdrs s) \<and>
        area (B p) (hdrs s) = A p \<and> waiters_ok p s) \<and>
     (\<forall>p q. dm_id_valid (mpools s p) \<longrightarrow> dm_id_valid (mpools s q) \<longrightarrow> p \<noteq> q \<longrightarrow> A p \<inter> A q = {})"

lemma mem_invD:
  assumes "mem_inv A B s" "dm_id_valid (mpools s p)"
  shows "sched_inv (dkern s)" "p \<noteq> NU_NULL" "pool_ok p (B p) (mpools s p) (hdrs s)" "area (B p) (hdrs s) = A p"
    "waiters_ok p s" "dm_id_valid (mpools s q) \<Longrightarrow> p \<noteq> q \<Longrightarrow> A p \<inter> A q = {}"
  using assms unfolding mem_inv_def by blast+

lemma waitersD:
  assumes "waiters_ok p s"
  shows "distinct (dm_suspension_list (mpools s p))"
    "dm_tasks_waiting (mpools s p) = length (dm_suspension_list (mpools s p)) mod 4294967296"
    "t \<in> set (dm_suspension_list (mpools s p)) \<Longrightarrow> memory_waiter p s t"
  using assms by (auto simp: waiters_ok_def)

lemma waiters_frame:
  assumes "waiters_ok p s" "dm_suspension_list (mpools s' p) = dm_suspension_list (mpools s p)"
    "dm_tasks_waiting (mpools s' p) = dm_tasks_waiting (mpools s p)"
    "dm_min_allocation (mpools s' p) = dm_min_allocation (mpools s p)"
    "\<And>t. t \<in> set (dm_suspension_list (mpools s p)) \<Longrightarrow> tcbs (dkern s') t = tcbs (dkern s) t \<and> dblocks s' t = dblocks s t"
  shows "waiters_ok p s'"
  using assms by (simp add: waiters_ok_def memory_waiter_def waits_for_def)

lemma other_pool:
  assumes "waiters_ok p s" "waiters_ok q s" "q \<noteq> p"
    "t \<in> set (dm_suspension_list (mpools s p))"
  shows "t \<notin> set (dm_suspension_list (mpools s q))"
  using waitersD(3)[OF assms(1,4)] waitersD(3)[OF assms(2), of t] assms(3) by (auto simp: memory_waiter_def)

text \<open>A pool that is new or has got more memory.\<close>

lemma mem_inv_extend:
  assumes inv: "mem_inv A B s" and p: "p \<noteq> NU_NULL" and oth: "\<And>q. q \<noteq> p \<Longrightarrow> mpools s' q = mpools s q"
    and ok: "pool_ok p B' (mpools s' p) (hdrs s')" "area B' (hdrs s') = Ap" "\<And>a. a \<notin> Ap \<Longrightarrow> hdrs s' a = hdrs s a"
    and dis: "\<And>q. q \<noteq> p \<Longrightarrow> dm_id_valid (mpools s q) \<Longrightarrow> Ap \<inter> A q = {}"
    and k: "sched_inv (dkern s')" "\<And>q. dm_id_valid (mpools s' q) \<Longrightarrow> waiters_ok q s'"
  shows "mem_inv (A(p := Ap)) (B(p := B')) s'"
  unfolding mem_inv_def
proof (intro conjI allI impI)
  fix q assume q: "dm_id_valid (mpools s' q)"
  show "waiters_ok q s'" by (rule k(2)[OF q])
  have "q \<noteq> NU_NULL \<and> pool_ok q ((B(p := B')) q) (mpools s' q) (hdrs s') \<and> area ((B(p := B')) q) (hdrs s') = (A(p := Ap)) q"
  proof (cases "q = p")
    case False
    with q oth have v: "dm_id_valid (mpools s q)" by simp
    note I = mem_invD[OF inv v]
    have "\<forall>a\<in>area (B q) (hdrs s). hdrs s' a = hdrs s a" using I(4) dis[OF False v] ok(3) by auto
    from pool_ok_frame[OF I(3) this] I(2,4) show ?thesis using False oth by simp
  qed (use ok p in auto)
  then show "q \<noteq> NU_NULL" "pool_ok q ((B(p := B')) q) (mpools s' q) (hdrs s')"
    "area ((B(p := B')) q) (hdrs s') = (A(p := Ap)) q" by auto
  show "(A(p := Ap)) q \<inter> (A(p := Ap)) r = {}" if "dm_id_valid (mpools s' r)" "q \<noteq> r" for r
    using that q dis[of q] dis[of r] oth[of q] oth[of r] mem_invD(6)[OF inv, of q r] by (cases "q = p"; cases "r = p") auto
qed (use k in auto)

text \<open>A change of one pool that stays inside its memory.\<close>

lemma mem_inv_change:
  assumes inv: "mem_inv A B s" and p: "dm_id_valid (mpools s p)" "dm_id_valid (mpools s' p)"
    and oth: "\<And>q. q \<noteq> p \<Longrightarrow> mpools s' q = mpools s q"
    and ok: "pool_ok p B' (mpools s' p) (hdrs s')" "area B' (hdrs s') = A p" "\<And>a. a \<notin> A p \<Longrightarrow> hdrs s' a = hdrs s a"
    and k: "sched_inv (dkern s')" "\<And>q. dm_id_valid (mpools s' q) \<Longrightarrow> waiters_ok q s'"
  shows "mem_inv A (B(p := B')) s'"
  using mem_inv_extend[OF inv mem_invD(2)[OF inv p(1)] oth ok _ k] mem_invD(6)[OF inv p(1)] by simp

section \<open>Allocating\<close>

lemma adjusted_size:
  assumes "n < 4294967292"
  shows "n \<le> DM_ADJUSTED_SIZE n" "DM_ADJUSTED_SIZE n < n + 4" "DM_ADJUSTED_SIZE n mod 4 = 0"
proof -
  have "DM_ADJUSTED_SIZE n = ((n + 3) div 4) * 4" using assms by (simp add: DM_ADJUSTED_SIZE_def add32_eq)
  then show "n \<le> DM_ADJUSTED_SIZE n" "DM_ADJUSTED_SIZE n < n + 4" "DM_ADJUSTED_SIZE n mod 4 = 0" by presburger+
qed

definition adjusted_alignment :: "nat \<Rightarrow> nat" where
  "adjusted_alignment al = (if al \<noteq> 0 then DM_ADJUSTED_SIZE al else al)"

lemma request_adjusted:
  assumes "pool_ok p B pc h" "sz \<le> dm_pool_size pc - 32" "al \<le> 40"
  shows "request_ok (dm_min_allocation pc) (adjusted_request (dm_min_allocation pc) sz) (adjusted_alignment al)"
    "sz \<le> adjusted_request (dm_min_allocation pc) sz"
proof -
  have "sz < 4294967292" "dm_min_allocation pc mod 4 = 0" using assms(2) pool_okD(6,9)[OF assms(1)] by auto
  moreover have "DM_ADJUSTED_SIZE al \<le> 40" using assms(3) by (simp add: DM_ADJUSTED_SIZE_def add32_eq)
  ultimately show "request_ok (dm_min_allocation pc) (adjusted_request (dm_min_allocation pc) sz) (adjusted_alignment al)"
    "sz \<le> adjusted_request (dm_min_allocation pc) sz"
    using adjusted_size[of sz] adjusted_size(3)[of al] assms(3)
    by (auto simp: request_ok_def adjusted_request_def adjusted_alignment_def)
qed

text \<open>\<open>DMC_Allocate\<close> on a pool of the system.\<close>

definition fits_in :: "addr \<Rightarrow> nat \<Rightarrow> nat \<Rightarrow> (addr \<Rightarrow> addr set) \<Rightarrow> dsys \<Rightarrow> bool" where
  "fits_in p sz al B s \<longleftrightarrow> (\<exists>x\<in>frees (B p) (hdrs s). fits (dm_min_allocation (mpools s p)) sz al (hdrs s) x)"

lemma DMC_Allocate_inv:
  assumes inv: "mem_inv A B s" "dm_id_valid (mpools s p)" and rq: "request_ok (dm_min_allocation (mpools s p)) sz al"
  shows "\<not> fits_in p sz al B s \<Longrightarrow> DMC_Allocate p sz al (mpools s p, hdrs s) = Some ((mpools s p, hdrs s), NU_NULL)"
    "fits_in p sz al B s \<Longrightarrow> \<exists>pc' h' B' r. DMC_Allocate p sz al (mpools s p, hdrs s) = Some ((pc', h'), r) \<and> r \<noteq> NU_NULL \<and>
       add32 r DM_OVERHEAD = r + 16 \<and> pool_ok p B' pc' h' \<and> granted (B p) (hdrs s) B' h' r sz \<and> same_pool (mpools s p) pc' \<and>
       (al \<noteq> 0 \<longrightarrow> (r + 16) mod al = 0) \<and> area B' h' = A p \<and> (\<forall>a. a \<notin> A p \<longrightarrow> h' a = hdrs s a)"
proof -
  note I = mem_invD[OF inv] and D = pool_okD[OF mem_invD(3)[OF inv]]
  have al: "alignable (dm_min_allocation (mpools s p)) al (frees (B p) (hdrs s)) (hdrs s)"
    by (rule alignable_small[OF D(1,5)]) (use rq in \<open>simp add: request_ok_def\<close>)
  note R = DMC_Allocate_ok[OF I(3) refl al, of sz, folded fits_in_def]
  show "\<not> fits_in p sz al B s \<Longrightarrow> DMC_Allocate p sz al (mpools s p, hdrs s) = Some ((mpools s p, hdrs s), NU_NULL)"
    by (rule R(1)) (use rq in \<open>auto simp: request_ok_def fits_in_def\<close>)
  assume "fits_in p sz al B s"
  then obtain pc' h' B' r where r: "DMC_Allocate p sz al (mpools s p, hdrs s) = Some ((pc', h'), r)" "r \<noteq> NU_NULL"
      "pool_ok p B' pc' h'" "granted (B p) (hdrs s) B' h' r sz" "same_pool (mpools s p) pc'"
      "al \<noteq> 0 \<longrightarrow> (r + 16) mod al = 0"
    using R(2) rq by (auto simp: request_ok_def)
  have t: "tiles p (dm_min_allocation pc') B' h'" "r \<in> B'" "r < nm h' r"
    using pool_okD(1)[OF r(3)] r(4) by (auto simp: granted_def used_def)
  have "add32 r DM_OVERHEAD = r + 16" using tiles_room(1,3)[OF t] by (simp add: DM_OVERHEAD_def add32_eq)
  moreover have "area B' h' = A p" using r(4) I(4) by (simp add: granted_def)
  moreover have "\<forall>a. a \<notin> A p \<longrightarrow> h' a = hdrs s a"
    using r(4) blocks_in_area[OF t(1)] \<open>area B' h' = A p\<close> by (auto simp: granted_def)
  ultimately show "\<exists>pc' h' B' r. DMC_Allocate p sz al (mpools s p, hdrs s) = Some ((pc', h'), r) \<and> r \<noteq> NU_NULL \<and>
       add32 r DM_OVERHEAD = r + 16 \<and> pool_ok p B' pc' h' \<and> granted (B p) (hdrs s) B' h' r sz \<and> same_pool (mpools s p) pc' \<and>
       (al \<noteq> 0 \<longrightarrow> (r + 16) mod al = 0) \<and> area B' h' = A p \<and> (\<forall>a. a \<notin> A p \<longrightarrow> h' a = hdrs s a)"
    using r by (intro exI[of _ pc'] exI[of _ h'] exI[of _ B'] exI[of _ r]) simp
qed

text \<open>The state with the pool \<open>p\<close> changed by an allocation.\<close>

lemma take_inv:
  assumes inv: "mem_inv A B s" "dm_id_valid (mpools s p)" and pc: "same_pool (mpools s p) pc'"
    and ok: "pool_ok p B' pc' h'" "area B' h' = A p" "\<forall>a. a \<notin> A p \<longrightarrow> h' a = hdrs s a"
  shows "mem_inv A (B(p := B')) (s\<lparr>mpools := (mpools s)(p := pc'), hdrs := h'\<rparr>)"
proof (rule mem_inv_change[OF inv(1,2)])
  let ?s = "s\<lparr>mpools := (mpools s)(p := pc'), hdrs := h'\<rparr>"
  note S = same_pool_simps[OF pc]
  show "waiters_ok q ?s" if "dm_id_valid (mpools ?s q)" for q
  proof -
    have "waiters_ok q s" using mem_invD(5)[OF inv(1), of q] that inv(2) by (auto split: if_splits)
    then show ?thesis by (rule waiters_frame) (use S in auto)
  qed
qed (use ok mem_invD(1)[OF inv] same_pool_simps[OF pc] inv(2) in auto)

text \<open>Control blocks that describe the same blocks; waiting tasks may differ.\<close>

definition same_layout :: "dm_pcb \<Rightarrow> dm_pcb \<Rightarrow> bool" where
  "same_layout a b \<longleftrightarrow> dm_id_valid a = dm_id_valid b \<and> dm_min_allocation a = dm_min_allocation b \<and>
     dm_pool_size a = dm_pool_size b \<and> dm_available a = dm_available b \<and> dm_memory_list a = dm_memory_list b"

lemma pool_ok_layout: "pool_ok p B pc h \<Longrightarrow> same_layout pc' pc \<Longrightarrow> pool_ok p B pc' h"
  by (simp add: pool_ok_def same_layout_def)

lemma suspend_memory_caller:
  assumes inv: "mem_inv A B s" "dm_id_valid (mpools s p)" and r: "may_suspend (dkern s)" and t: "t = current_task (dkern s)"
    and rq: "request_ok (dm_min_allocation (mpools s p)) sz al"
    and s': "s' = (enlist_memory_caller p t sz al s)\<lparr>dkern := fst (TCC_Suspend_Task t NU_MEMORY_SUSPEND (Some t) suspend (dkern s))\<rparr>"
  shows "mem_inv A B s'" "set (dm_suspension_list (mpools s' p)) = insert t (set (dm_suspension_list (mpools s p)))"
    "dm_fifo_suspend (mpools s p) \<Longrightarrow> dm_suspension_list (mpools s' p) = dm_suspension_list (mpools s p) @ [t]"
    "waits_for t NU_MEMORY_SUSPEND (dkern s')" "hdrs s' = hdrs s"
    "dm_request_size (dblocks s' t) = sz" "dm_alignment (dblocks s' t) = al" "u \<noteq> t \<Longrightarrow> tcbs (dkern s') u = tcbs (dkern s) u"
proof -
  let ?L = "dm_suspension_list (mpools s p)"
  note I = mem_invD[OF inv]
  have rf: "runs_freely t (dkern s)" "\<not> tc_signal_active (tcbs (dkern s) t)" using r t by (auto simp: may_suspend_def)
  note S = TCC_Suspend_Task_waits[OF I(1) rf(1), where s = NU_MEMORY_SUSPEND and cl = "Some t" and timeout = suspend, simplified]
  have dk: "dkern s' = fst (TCC_Suspend_Task t NU_MEMORY_SUSPEND (Some t) suspend (dkern s))" by (simp add: s')
  have fl: "tc_cleanup (tcbs (dkern s') t) = Some t" "\<not> tc_signal_active (tcbs (dkern s') t)"
    using rf by (simp_all add: dk TCC_Suspend_Task_def Let_def runs_freely_def is_ready_def)
  have nin: "t \<notin> set (dm_suspension_list (mpools s q))" if "dm_id_valid (mpools s q)" for q
    using waitersD(3)[OF mem_invD(5)[OF inv(1) that], of t] rf(1)
    by (auto simp: memory_waiter_def waits_for_def runs_freely_def is_ready_def)
  have m: "mpools s' q = mpools s q" if "q \<noteq> p" for q using that by (simp add: s' enlist_memory_caller_def Let_def)
  have pc1: "dm_tasks_waiting (mpools s' p) = inc32 (dm_tasks_waiting (mpools s p))"
    and pc2: "same_layout (mpools s' p) (mpools s p)"
    by (simp_all add: same_layout_def s' enlist_memory_caller_def Let_def)
  have b: "dblocks s' u = dblocks s u" if "u \<noteq> t" for u using that by (simp add: s' enlist_memory_caller_def Let_def)
  show bt: "dm_request_size (dblocks s' t) = sz" "dm_alignment (dblocks s' t) = al" and hd: "hdrs s' = hdrs s"
    by (simp_all add: s' enlist_memory_caller_def Let_def)
  have bp: "ds_memory_pool (dblocks s' t) = p" by (simp add: s' enlist_memory_caller_def Let_def)
  show set: "set (dm_suspension_list (mpools s' p)) = insert t (set ?L)" by (simp add: s' enlist_memory_caller_def Let_def)
  show "dm_fifo_suspend (mpools s p) \<Longrightarrow> dm_suspension_list (mpools s' p) = ?L @ [t]"
    by (simp add: s' enlist_memory_caller_def Let_def)
  show w: "waits_for t NU_MEMORY_SUSPEND (dkern s')" and others: "\<And>u. u \<noteq> t \<Longrightarrow> tcbs (dkern s') u = tcbs (dkern s) u"
    using S by (simp_all add: dk)
  have len: "length (dm_suspension_list (mpools s' p)) = Suc (length ?L)" by (simp add: s' enlist_memory_caller_def Let_def)
  have dis: "distinct (dm_suspension_list (mpools s' p))"
    using waitersD(1)[OF I(5)] nin[OF inv(2)] len set by (simp add: card_distinct distinct_card)
  have wp: "waiters_ok p s'"
    unfolding waiters_ok_def
  proof (intro conjI ballI)
    show "distinct (dm_suspension_list (mpools s' p))" by (rule dis)
    show "dm_tasks_waiting (mpools s' p) = length (dm_suspension_list (mpools s' p)) mod 4294967296"
      using waitersD(2)[OF I(5)] pc1 len by (simp add: inc32_def mod_Suc_eq)
    fix u assume "u \<in> set (dm_suspension_list (mpools s' p))"
    then show "memory_waiter p s' u"
      using waitersD(3)[OF I(5), of u] nin[OF inv(2)] set w fl bp bt rq pc2[unfolded same_layout_def] b[of u] others[of u]
      by (cases "u = t") (auto simp: memory_waiter_def waits_for_def)
  qed
  have wq: "waiters_ok q s'" if q: "dm_id_valid (mpools s' q)" for q
  proof (cases "q = p")
    case False
    then have v: "dm_id_valid (mpools s q)" using q m by simp
    have "\<And>u. u \<in> set (dm_suspension_list (mpools s q)) \<Longrightarrow> u \<noteq> t" using nin[OF v] by blast
    then show ?thesis by (intro waiters_frame[OF mem_invD(5)[OF inv(1) v]]) (use m[OF False] b others in auto)
  qed (use wp in simp)
  have "pool_ok p (B p) (mpools s' p) (hdrs s')" using I(3) pc2 unfolding pool_ok_def hd same_layout_def by simp
  then have "mem_inv A (B(p := B p)) s'"
    by (intro mem_inv_change[OF inv(1,2)]) (use pc2[unfolded same_layout_def] inv(2) m I(4) wq S(1) in \<open>auto simp: hd dk\<close>)
  then show "mem_inv A B s'" by simp
qed

section \<open>Serving waiting tasks\<close>

text \<open>The header of the block whose address a task has been given.\<close>

definition given :: "dsys \<Rightarrow> tid \<Rightarrow> addr" where
  "given s t = dm_return_pointer (dblocks s t) - 16"

text \<open>A task that leaves the list of a pool with the address of its block and is resumed.\<close>

lemma dismiss_inv:
  assumes inv: "mem_inv A B s" "dm_id_valid (mpools s p)" and t: "t \<in> set (dm_suspension_list (mpools s p))"
    and s': "mpools s' = (mpools s)(p := (mpools s p)\<lparr>dm_tasks_waiting := dec32 (dm_tasks_waiting (mpools s p)),
        dm_suspension_list := remove1 t (dm_suspension_list (mpools s p))\<rparr>)"
      "hdrs s' = hdrs s" "\<And>u. u \<noteq> t \<Longrightarrow> dblocks s' u = dblocks s u"
    and k: "sched_inv (dkern s')" "\<And>u. u \<noteq> t \<Longrightarrow> tcbs (dkern s') u = tcbs (dkern s) u"
  shows "mem_inv A B s'"
proof -
  let ?L = "dm_suspension_list (mpools s p)"
  note I = mem_invD[OF inv]
  have wp: "waiters_ok p s'"
    unfolding waiters_ok_def
  proof (intro conjI ballI)
    show "distinct (dm_suspension_list (mpools s' p))" using waitersD(1)[OF I(5)] by (simp add: s'(1))
    have "1 \<le> length ?L" using t by (cases ?L) auto
    then show "dm_tasks_waiting (mpools s' p) = length (dm_suspension_list (mpools s' p)) mod 4294967296"
      using dec32_funpow[of 1 "length ?L"] waitersD(2)[OF I(5)] t by (simp add: s'(1) length_remove1)
    fix u assume "u \<in> set (dm_suspension_list (mpools s' p))"
    then have "u \<in> set ?L" "u \<noteq> t" using waitersD(1)[OF I(5)] by (auto simp: s'(1))
    then show "memory_waiter p s' u"
      using waitersD(3)[OF I(5), of u] s'(3)[of u] k(2)[of u] by (auto simp: memory_waiter_def waits_for_def s'(1))
  qed
  have "waiters_ok q s'" if q: "dm_id_valid (mpools s' q)" for q
  proof (cases "q = p")
    case False
    then have v: "dm_id_valid (mpools s q)" using q by (simp add: s'(1))
    have "\<And>u. u \<in> set (dm_suspension_list (mpools s q)) \<Longrightarrow> u \<noteq> t"
      using other_pool[OF I(5) mem_invD(5)[OF inv(1) v] False t] by blast
    then show ?thesis by (intro waiters_frame[OF mem_invD(5)[OF inv(1) v]]) (use False s' k in auto)
  qed (use wp in simp)
  moreover have "pool_ok p (B p) (mpools s' p) (hdrs s')"
    by (rule pool_ok_layout[of _ _ "mpools s p"]) (use I(3) in \<open>auto simp: s' same_layout_def\<close>)
  ultimately have "mem_inv A (B(p := B p)) s'"
    by (intro mem_inv_change[OF inv(1,2)]) (use inv(2) I(4) k in \<open>auto simp: s'\<close>)
  then show ?thesis by simp
qed

definition served :: "addr \<Rightarrow> (addr \<Rightarrow> addr set) \<Rightarrow> dsys \<Rightarrow> addr set \<Rightarrow> dsys \<Rightarrow> tid list \<Rightarrow> bool" where
  "served p B s B' s' ts \<longleftrightarrow>
     used B' (hdrs s') = used (B p) (hdrs s) \<union> given s' ` set ts \<and> inj_on (given s') (set ts) \<and>
     given s' ` set ts \<inter> used (B p) (hdrs s) = {} \<and>
     (\<forall>a\<in>used (B p) (hdrs s). nm (hdrs s') a = nm (hdrs s) a) \<and>
     (\<forall>t\<in>set ts. is_ready t (dkern s') \<and> dm_return_status (dblocks s' t) = NU_SUCCESS \<and>
        dm_return_pointer (dblocks s' t) = given s' t + 16 \<and>
        given s' t + 16 + dm_request_size (dblocks s t) \<le> nm (hdrs s') (given s' t) \<and>
        (dm_alignment (dblocks s t) \<noteq> 0 \<longrightarrow> dm_return_pointer (dblocks s' t) mod dm_alignment (dblocks s t) = 0)) \<and>
     (\<forall>t. t \<notin> set ts \<longrightarrow> tcbs (dkern s') t = tcbs (dkern s) t \<and> dblocks s' t = dblocks s t)"

lemma serve_waiting_ok:
  assumes "mem_inv A B s" "dm_id_valid (mpools s p)" "dm_suspension_list (mpools s p) = ts"
  shows "\<exists>s' pre' B' k. serve_waiting p ts (s, pre) = Some (s', pre') \<and> k \<le> length ts \<and> mem_inv A (B(p := B')) s' \<and>
    dm_id_valid (mpools s' p) \<and> dm_min_allocation (mpools s' p) = dm_min_allocation (mpools s p) \<and>
    dm_suspension_list (mpools s' p) = drop k ts \<and> served p B s B' s' (take k ts) \<and>
    (k < length ts \<longrightarrow> \<not> fits_in p (dm_request_size (dblocks s (ts ! k))) (dm_alignment (dblocks s (ts ! k))) (B(p := B')) s') \<and>
    (\<forall>q. q \<noteq> p \<longrightarrow> mpools s' q = mpools s q) \<and> (\<forall>a. a \<notin> A p \<longrightarrow> hdrs s' a = hdrs s a) \<and> dbytes s' = dbytes s"
  using assms
proof (induction ts arbitrary: s B pre)
  case Nil
  then show ?case by (intro exI[of _ s] exI[of _ pre] exI[of _ "B p"] exI[of _ 0]) (auto simp: served_def)
next
  case (Cons t ts)
  note inv = Cons.prems(1,2) and L = Cons.prems(3)
  note I = mem_invD[OF inv]
  let ?sz = "dm_request_size (dblocks s t)" and ?al = "dm_alignment (dblocks s t)"
  have w: "memory_waiter p s t" using waitersD(3)[OF I(5), of t] L by simp
  then have rq: "request_ok (dm_min_allocation (mpools s p)) ?sz ?al" by (simp add: memory_waiter_def)
  note A = DMC_Allocate_inv[OF inv rq]
  show ?case
  proof (cases "fits_in p ?sz ?al B s")
    case False
    then have "serve_waiting p (t # ts) (s, pre) = Some (s, pre)" using A(1) by simp
    then show ?thesis using Cons.prems False
      by (intro exI[of _ s] exI[of _ pre] exI[of _ "B p"] exI[of _ 0]) (auto simp: served_def)
  next
    case True
    from A(2)[OF True] obtain pc' h' B1 r where a: "DMC_Allocate p ?sz ?al (mpools s p, hdrs s) = Some ((pc', h'), r)"
      "r \<noteq> NU_NULL" "add32 r DM_OVERHEAD = r + 16" and g: "pool_ok p B1 pc' h'" "granted (B p) (hdrs s) B1 h' r ?sz"
      "same_pool (mpools s p) pc'" "?al \<noteq> 0 \<longrightarrow> (r + 16) mod ?al = 0" "area B1 h' = A p" "\<forall>a. a \<notin> A p \<longrightarrow> h' a = hdrs s a"
      by (elim exE conjE) (rule that)
    define s1 where "s1 = s\<lparr>mpools := (mpools s)(p := pc'), hdrs := h'\<rparr>"
    define s3 where "s3 = upd_dblock t (\<lambda>b. b\<lparr>dm_return_pointer := add32 r DM_OVERHEAD, dm_return_status := NU_SUCCESS\<rparr>)
      (upd_mpool p (\<lambda>q. q\<lparr>dm_tasks_waiting := dec32 (dm_tasks_waiting q), dm_suspension_list := remove1 t (dm_suspension_list q)\<rparr>) s1)"
    define s4 where "s4 = s3\<lparr>dkern := fst (TCC_Resume_Task t NU_MEMORY_SUSPEND (dkern s3))\<rparr>"
    define pre4 where "pre4 = (pre \<or> snd (TCC_Resume_Task t NU_MEMORY_SUSPEND (dkern s3)))"
    have run: "serve_waiting p (t # ts) (s, pre) = serve_waiting p ts (s4, pre4)"
      using a by (simp add: s4_def s3_def s1_def pre4_def Let_def split_beta)
    have inv1: "mem_inv A (B(p := B1)) s1" unfolding s1_def by (rule take_inv[OF inv g(3,1,5,6)])
    note P = same_pool_simps[OF g(3)]
    have v1: "dm_id_valid (mpools s1 p)" "dm_suspension_list (mpools s1 p) = t # ts"
      using P inv(2) L by (simp_all add: s1_def)
    have k3: "dkern s3 = dkern s" by (simp add: s3_def s1_def)
    have wt: "waits_for t NU_MEMORY_SUSPEND (dkern s)" using w by (simp add: memory_waiter_def)
    have si: "sched_inv (dkern s4)" "is_ready t (dkern s4)"
      using tc.resume_inv[OF I(1) wt] tc.resume_ready[OF I(1) wt] by (simp_all add: s4_def k3)
    have tc4: "tcbs (dkern s4) u = tcbs (dkern s) u" if "u \<noteq> t" for u using that by (simp add: s4_def k3 TCC_Resume_Task_others)
    have b4: "dblocks s4 u = dblocks s u" if "u \<noteq> t" for u using that by (simp add: s4_def s3_def s1_def)
    have inv4: "mem_inv A (B(p := B1)) s4"
      by (rule dismiss_inv[OF inv1 v1(1), of t])
        (use v1 si tc4 in \<open>auto simp: s4_def s3_def s1_def TCC_Resume_Task_others\<close>)
    have v4: "dm_id_valid (mpools s4 p)" "dm_suspension_list (mpools s4 p) = ts"
      "dm_min_allocation (mpools s4 p) = dm_min_allocation (mpools s p)" "hdrs s4 = h'" "dbytes s4 = dbytes s"
      "\<And>q. q \<noteq> p \<Longrightarrow> mpools s4 q = mpools s q"
      "dm_return_pointer (dblocks s4 t) = r + 16" "dm_return_status (dblocks s4 t) = NU_SUCCESS"
      using P inv(2) L a(3) by (simp_all add: s4_def s3_def s1_def)
    obtain s' pre' B' k where ih: "serve_waiting p ts (s4, pre4) = Some (s', pre')" "k \<le> length ts"
      "mem_inv A (B(p := B')) s'" "dm_id_valid (mpools s' p)"
      "dm_min_allocation (mpools s' p) = dm_min_allocation (mpools s4 p)" "dm_suspension_list (mpools s' p) = drop k ts"
      "served p (B(p := B1)) s4 B' s' (take k ts)"
      "k < length ts \<longrightarrow> \<not> fits_in p (dm_request_size (dblocks s4 (ts ! k))) (dm_alignment (dblocks s4 (ts ! k))) (B(p := B')) s'"
      "\<forall>q. q \<noteq> p \<longrightarrow> mpools s' q = mpools s4 q" "\<forall>a. a \<notin> A p \<longrightarrow> hdrs s' a = hdrs s4 a" "dbytes s' = dbytes s4"
      using Cons.IH[OF inv4 v4(1,2), of pre4, unfolded fun_upd_upd] by (elim exE conjE) (rule that)
    have tn: "t \<notin> set ts" "t \<notin> set (take k ts)" using waitersD(1)[OF I(5)] L by (auto dest: in_set_takeD)
    have ne: "u \<noteq> t" if "u \<in> set ts" for u using that tn by auto
    have S: "used B1 h' = insert r (used (B p) (hdrs s))" "r \<notin> used (B p) (hdrs s)"
      "\<forall>a\<in>used (B p) (hdrs s). nm h' a = nm (hdrs s) a" "r + 16 + ?sz \<le> nm h' r" using g(2) by (auto simp: granted_def)
    note V = ih(7)[unfolded served_def fun_upd_same v4(4) S(1)]
    have t': "dblocks s' t = dblocks s4 t" "tcbs (dkern s') t = tcbs (dkern s4) t" "given s' t = r"
      using V tn v4 by (auto simp: given_def)
    have sv: "served p B s B' s' (t # take k ts)"
      unfolding served_def
    proof (intro conjI)
      show "used B' (hdrs s') = used (B p) (hdrs s) \<union> given s' ` set (t # take k ts)" using V t' by auto
      have "r \<notin> given s' ` set (take k ts)" using V by auto
      then show "inj_on (given s') (set (t # take k ts))" using V t' tn by auto
      show "given s' ` set (t # take k ts) \<inter> used (B p) (hdrs s) = {}" using V t' S(2) by auto
      show "\<forall>a\<in>used (B p) (hdrs s). nm (hdrs s') a = nm (hdrs s) a" using V S(3) by auto
      have "\<forall>u\<in>set (take k ts). dblocks s4 u = dblocks s u" using b4 ne by (auto dest: in_set_takeD)
      moreover have "nm (hdrs s') r = nm h' r" using V by auto
      ultimately show "\<forall>u\<in>set (t # take k ts). is_ready u (dkern s') \<and> dm_return_status (dblocks s' u) = NU_SUCCESS \<and>
        dm_return_pointer (dblocks s' u) = given s' u + 16 \<and>
        given s' u + 16 + dm_request_size (dblocks s u) \<le> nm (hdrs s') (given s' u) \<and>
        (dm_alignment (dblocks s u) \<noteq> 0 \<longrightarrow> dm_return_pointer (dblocks s' u) mod dm_alignment (dblocks s u) = 0)"
        using V t' v4(7,8) S(4) g(4) si(2) by (auto simp: is_ready_def)
      show "\<forall>u. u \<notin> set (t # take k ts) \<longrightarrow> tcbs (dkern s') u = tcbs (dkern s) u \<and> dblocks s' u = dblocks s u"
        using V b4 tc4 by auto
    qed
    have nx: "dblocks s4 (ts ! k) = dblocks s (ts ! k)" if "k < length ts" using that b4 ne[OF nth_mem[OF that]] by simp
    show ?thesis
    proof (intro exI[of _ s'] exI[of _ pre'] exI[of _ B'] exI[of _ "Suc k"] conjI)
      show "serve_waiting p (t # ts) (s, pre) = Some (s', pre')" unfolding run by (rule ih(1))
      show "mem_inv A (B(p := B')) s'" "dm_id_valid (mpools s' p)" "dbytes s' = dbytes s" using ih(3,4,11) v4(5) by simp_all
      show "served p B s B' s' (take (Suc k) (t # ts))" using sv by simp
      show "Suc k < length (t # ts) \<longrightarrow> \<not> fits_in p (dm_request_size (dblocks s ((t # ts) ! Suc k)))
          (dm_alignment (dblocks s ((t # ts) ! Suc k))) (B(p := B')) s'"
        using ih(8) nx by (simp del: fun_upd_apply)
      show "\<forall>a. a \<notin> A p \<longrightarrow> hdrs s' a = hdrs s a" using ih(10) v4(4) g(6) by simp
    qed (use ih(2,5,6,9) v4(3,6) in simp_all)
  qed
qed

section \<open>The services keep the invariant\<close>

lemma NU_Allocate_facts:
  assumes inv: "mem_inv A B s" "dm_id_valid (mpools s p)" and size: "sz0 \<noteq> 0" "sz0 \<le> dm_pool_size (mpools s p) - 32"
    and al0: "al0 \<le> 40" and sus: "suspend \<noteq> 0 \<longrightarrow> \<not> TCCE_Suspend_Error (dkern s) \<and> may_suspend (dkern s)"
    and sz: "sz = adjusted_request (dm_min_allocation (mpools s p)) sz0" and al: "al = adjusted_alignment al0"
  shows "fits_in p sz al B s \<Longrightarrow> \<exists>s' B' r. NU_Allocate_Aligned_Memory p True sz0 al0 suspend s =
      Some (s', Some NU_SUCCESS, Some (r + 16), False) \<and> mem_inv A (B(p := B')) s' \<and>
      granted (B p) (hdrs s) B' (hdrs s') r sz \<and> (al \<noteq> 0 \<longrightarrow> (r + 16) mod al = 0) \<and>
      (\<exists>pc'. same_pool (mpools s p) pc' \<and> s' = s\<lparr>mpools := (mpools s)(p := pc'), hdrs := hdrs s'\<rparr>)"
    "\<not> fits_in p sz al B s \<Longrightarrow> suspend = 0 \<Longrightarrow>
      NU_Allocate_Aligned_Memory p True sz0 al0 suspend s = Some (s, Some NU_NO_MEMORY, Some NU_NULL, False)"
    "\<not> fits_in p sz al B s \<Longrightarrow> suspend \<noteq> 0 \<Longrightarrow> t = current_task (dkern s) \<Longrightarrow> \<exists>leaves.
      NU_Allocate_Aligned_Memory p True sz0 al0 suspend s =
      Some ((enlist_memory_caller p t sz al s)\<lparr>dkern := fst (TCC_Suspend_Task t NU_MEMORY_SUSPEND (Some t) suspend (dkern s))\<rparr>,
        None, None, leaves)"
proof -
  note I = mem_invD[OF inv]
  have rq: "request_ok (dm_min_allocation (mpools s p)) sz al" unfolding sz al by (rule request_adjusted[OF I(3) size(2) al0])
  note A = DMC_Allocate_inv[OF inv rq]
  have "sub32 (dm_pool_size (mpools s p)) 32 = dm_pool_size (mpools s p) - 32"
    using pool_okD(7,9)[OF I(3)] by (simp add: sub32_eq)
  then have chk: "error_checks
     [(p = NU_NULL, NU_INVALID_POOL), (\<not> dm_id_valid (mpools s p), NU_INVALID_POOL), (\<not> True, NU_INVALID_POINTER),
      (sz0 = 0 \<or> sz0 > sub32 (dm_pool_size (mpools s p)) (2 * DM_OVERHEAD), NU_INVALID_SIZE),
      (suspend \<noteq> 0 \<and> TCCE_Suspend_Error (dkern s), NU_INVALID_SUSPEND)] NU_SUCCESS = NU_SUCCESS"
    using I(2) inv(2) size sus by (auto simp: DM_OVERHEAD_def)
  have run: "NU_Allocate_Aligned_Memory p True sz0 al0 suspend s =
     (case DMC_Allocate p sz al (mpools s p, hdrs s) of None \<Rightarrow> None
      | Some ((pc1, h1), memory_ptr) \<Rightarrow>
          Some (let s1 = s\<lparr>mpools := (mpools s)(p := pc1), hdrs := h1\<rparr>
                in if memory_ptr \<noteq> NU_NULL then (s1, Some NU_SUCCESS, Some (add32 memory_ptr DM_OVERHEAD), False)
                   else if suspend \<noteq> 0 then
                     (let task = current_task (dkern s1); s2 = enlist_memory_caller p task sz al s1;
                          (k, leaves, _) = TCC_Suspend_Task task NU_MEMORY_SUSPEND (Some task) suspend (dkern s2)
                      in (s2\<lparr>dkern := k\<rparr>, None, None, leaves))
                   else (s1, Some NU_NO_MEMORY, Some NU_NULL, False)))"
    unfolding NU_Allocate_Aligned_Memory_def Let_def chk sz al adjusted_alignment_def by simp
  show "\<exists>s' B' r. NU_Allocate_Aligned_Memory p True sz0 al0 suspend s =
      Some (s', Some NU_SUCCESS, Some (r + 16), False) \<and> mem_inv A (B(p := B')) s' \<and>
      granted (B p) (hdrs s) B' (hdrs s') r sz \<and> (al \<noteq> 0 \<longrightarrow> (r + 16) mod al = 0) \<and>
      (\<exists>pc'. same_pool (mpools s p) pc' \<and> s' = s\<lparr>mpools := (mpools s)(p := pc'), hdrs := hdrs s'\<rparr>)" if "fits_in p sz al B s"
  proof -
    from A(2)[OF that] obtain pc' h' B' r where a: "DMC_Allocate p sz al (mpools s p, hdrs s) = Some ((pc', h'), r)"
      "r \<noteq> NU_NULL" "add32 r DM_OVERHEAD = r + 16" and g: "pool_ok p B' pc' h'" "granted (B p) (hdrs s) B' h' r sz"
      "same_pool (mpools s p) pc'" "al \<noteq> 0 \<longrightarrow> (r + 16) mod al = 0" "area B' h' = A p" "\<forall>a. a \<notin> A p \<longrightarrow> h' a = hdrs s a"
      by (elim exE conjE) (rule that)
    let ?s = "s\<lparr>mpools := (mpools s)(p := pc'), hdrs := h'\<rparr>"
    have "mem_inv A (B(p := B')) ?s" by (rule take_inv[OF inv g(3,1,5,6)])
    then show ?thesis using run a g(2-4)
      by (intro exI[of _ ?s] exI[of _ B'] exI[of _ r]) (auto simp del: fun_upd_apply)
  qed
  have same: "s\<lparr>mpools := (mpools s)(p := mpools s p), hdrs := hdrs s\<rparr> = s" by simp
  show "NU_Allocate_Aligned_Memory p True sz0 al0 suspend s = Some (s, Some NU_NO_MEMORY, Some NU_NULL, False)"
    if "\<not> fits_in p sz al B s" "suspend = 0"
    using run A(1)[OF that(1)] that(2) by (simp add: same Let_def)
  show "\<exists>leaves. NU_Allocate_Aligned_Memory p True sz0 al0 suspend s =
      Some ((enlist_memory_caller p t sz al s)\<lparr>dkern := fst (TCC_Suspend_Task t NU_MEMORY_SUSPEND (Some t) suspend (dkern s))\<rparr>,
        None, None, leaves)" if "\<not> fits_in p sz al B s" "suspend \<noteq> 0" "t = current_task (dkern s)"
  proof -
    have "dkern (enlist_memory_caller p t sz al s) = dkern s" by (simp add: enlist_memory_caller_def Let_def)
    then show ?thesis using run A(1)[OF that(1)] that(2,3) by (simp add: same Let_def split_beta)
  qed
qed

lemma NU_Allocate_error:
  assumes "dm_id_valid (mpools s p) \<longrightarrow> pool_ok p B (mpools s p) h"
    and "\<not> (p \<noteq> NU_NULL \<and> dm_id_valid (mpools s p) \<and> dest \<and> sz0 \<noteq> 0 \<and> sz0 \<le> dm_pool_size (mpools s p) - 32 \<and>
       \<not> (suspend \<noteq> 0 \<and> TCCE_Suspend_Error (dkern s)))"
  shows "\<exists>st. NU_Allocate_Aligned_Memory p dest sz0 al0 suspend s = Some (s, Some st, None, False) \<and> st \<noteq> NU_SUCCESS"
proof -
  have "sub32 (dm_pool_size (mpools s p)) 32 = dm_pool_size (mpools s p) - 32" if "dm_id_valid (mpools s p)"
    using pool_okD(7,9)[of p B "mpools s p" h] assms(1) that by (simp add: sub32_eq)
  then show ?thesis using assms(2) unfolding NU_Allocate_Aligned_Memory_def by (auto simp: Let_def DM_OVERHEAD_def)
qed

lemma NU_Deallocate_facts:
  assumes inv: "mem_inv A B s" "dm_id_valid (mpools s p)" and x: "x \<in> used (B p) (hdrs s)" "x < nm (hdrs s) x"
  shows "\<exists>s1 B1 s' pre B' k. NU_Deallocate_Memory (x + 16) s = Some (s', NU_SUCCESS, pre) \<and>
    mem_inv A (B(p := B1)) s1 \<and> returned (B p) (hdrs s) B1 (hdrs s1) x \<and> dm_id_valid (mpools s1 p) \<and>
    (\<exists>pc1. same_pool (mpools s p) pc1 \<and> s1 = s\<lparr>mpools := (mpools s)(p := pc1), hdrs := hdrs s1\<rparr>) \<and>
    k \<le> length (dm_suspension_list (mpools s p)) \<and> mem_inv A (B(p := B')) s' \<and> dm_id_valid (mpools s' p) \<and>
    dm_suspension_list (mpools s' p) = drop k (dm_suspension_list (mpools s p)) \<and>
    served p (B(p := B1)) s1 B' s' (take k (dm_suspension_list (mpools s p))) \<and>
    (k < length (dm_suspension_list (mpools s p)) \<longrightarrow>
       \<not> fits_in p (dm_request_size (dblocks s (dm_suspension_list (mpools s p) ! k)))
           (dm_alignment (dblocks s (dm_suspension_list (mpools s p) ! k))) (B(p := B')) s') \<and>
    (\<forall>q. q \<noteq> p \<longrightarrow> mpools s' q = mpools s q) \<and> (\<forall>a. a \<notin> A p \<longrightarrow> hdrs s' a = hdrs s a) \<and> dbytes s' = dbytes s"
proof -
  note I = mem_invD[OF inv] and D = pool_okD[OF mem_invD(3)[OF inv]]
  have xB: "x \<in> B p" "\<not> fr (hdrs s) x" using x by (auto simp: used_def)
  have xp: "dm_memory_pool (hdrs s x) = p" "x \<noteq> 0" using tilesD(5,11)[OF D(1) xB(1)] by auto
  have top: "x + 16 < 4294967296" using tiles_room(1,3)[OF D(1) xB(1) x(2)] by simp
  then have hp: "sub32 (x + 16) DM_OVERHEAD = x" by (simp add: DM_OVERHEAD_def sub32_eq)
  obtain pc1 h1 where d: "DMC_Deallocate x (mpools s p, hdrs s) = (pc1, h1)" by force
  obtain B1 where B1: "pool_ok p B1 pc1 h1" "returned (B p) (hdrs s) B1 h1 x" and sp: "same_pool (mpools s p) pc1"
    using DMC_Deallocate_ok[OF I(3) x d] by blast
  define s1 where "s1 = s\<lparr>mpools := (mpools s)(p := pc1), hdrs := h1\<rparr>"
  have ar: "area B1 h1 = A p" "\<forall>a. a \<notin> A p \<longrightarrow> h1 a = hdrs s a"
    using B1(2) I(4) blocks_in_area[OF D(1)] by (auto simp: returned_def)
  have inv1: "mem_inv A (B(p := B1)) s1" unfolding s1_def by (rule take_inv[OF inv sp B1(1) ar])
  have v1: "dm_id_valid (mpools s1 p)" "dm_suspension_list (mpools s1 p) = dm_suspension_list (mpools s p)"
    using same_pool_simps[OF sp] inv(2) by (simp_all add: s1_def)
  let ?L = "dm_suspension_list (mpools s p)"
  obtain s' pre B' k where sv: "serve_waiting p ?L (s1, False) = Some (s', pre)" "k \<le> length ?L" "mem_inv A (B(p := B')) s'"
    "dm_id_valid (mpools s' p)" "dm_min_allocation (mpools s' p) = dm_min_allocation (mpools s1 p)"
    "dm_suspension_list (mpools s' p) = drop k ?L" "served p (B(p := B1)) s1 B' s' (take k ?L)"
    "k < length ?L \<longrightarrow> \<not> fits_in p (dm_request_size (dblocks s1 (?L ! k))) (dm_alignment (dblocks s1 (?L ! k))) (B(p := B')) s'"
    "\<forall>q. q \<noteq> p \<longrightarrow> mpools s' q = mpools s1 q" "\<forall>a. a \<notin> A p \<longrightarrow> hdrs s' a = hdrs s1 a" "dbytes s' = dbytes s1"
    using serve_waiting_ok[OF inv1 v1, of False, unfolded fun_upd_upd] by (elim exE conjE) (rule that)
  have run: "NU_Deallocate_Memory (x + 16) s = Some (s', NU_SUCCESS, pre)"
    unfolding NU_Deallocate_Memory_def hp xp(1) d Let_def prod.case
    using xp(2) xB(2) inv(2) I(2) sv(1) v1(2) by (simp add: s1_def[symmetric] del: fun_upd_apply)
  have eq1: "s1 = s\<lparr>mpools := (mpools s)(p := pc1), hdrs := hdrs s1\<rparr>" "dblocks s1 = dblocks s" "dbytes s1 = dbytes s"
    "hdrs s1 = h1" "\<And>q. q \<noteq> p \<Longrightarrow> mpools s1 q = mpools s q" by (simp_all add: s1_def)
  show ?thesis
  proof (rule exI[of _ s1], rule exI[of _ B1], rule exI[of _ s'], rule exI[of _ pre], rule exI[of _ B'], rule exI[of _ k],
      intro conjI)
    show "\<exists>pc1. same_pool (mpools s p) pc1 \<and> s1 = s\<lparr>mpools := (mpools s)(p := pc1), hdrs := hdrs s1\<rparr>"
      using sp eq1(1) by blast
    show "k < length ?L \<longrightarrow> \<not> fits_in p (dm_request_size (dblocks s (?L ! k))) (dm_alignment (dblocks s (?L ! k))) (B(p := B')) s'"
      using sv(8) unfolding eq1(2) .
    show "\<forall>a. a \<notin> A p \<longrightarrow> hdrs s' a = hdrs s a" using sv(10) eq1(4) ar(2) by simp
    show "\<forall>q. q \<noteq> p \<longrightarrow> mpools s' q = mpools s q" using sv(9) eq1(5) by simp
    show "dbytes s' = dbytes s" using sv(11) eq1(3) by simp
    show "returned (B p) (hdrs s) B1 (hdrs s1) x" using B1(2) eq1(4) by simp
  qed (rule run inv1 v1(1) sv(2,3,4,6,7))+
qed

end
