(* ===== verification/Memory_Safety.thy ===== *)
theory Memory_Safety
  imports Memory_Services
begin

text \<open>
  What the application sees of the memory pools. The step relation \<open>mstep\<close> runs every service of the pools, time-outs, the
  rest of the kernel and the application's own stores; it records the memory given to each pool and the pointers
  the application holds with the sizes it asked for. The properties are stated on the states that are reached.
\<close>

section \<open>Sections of memory\<close>

text \<open>The blocks of a pool after a new section, \<open>h'\<close> being the headers \<open>h\<close> with the free block \<open>x\<close> and the trailer \<open>e\<close>.\<close>

lemma section_ok:
  assumes t: "tiles p mn B h" "settled B h" and x: "x \<noteq> 0" "x mod 4 = 0" "n mod 4 = 0" "mn + 32 \<le> n" "x + n \<le> memory_top"
    and e: "e = x + n - 16" and dis: "{x..<x + n} \<inter> area B h = {}"
    and h': "\<And>a. nm h' a = (if a = x then e else if a = e then x else nm h a)"
      "\<And>a. pm h' a = (if a = x then e else if a = e then x else pm h a)"
      "\<And>a. fr h' a = (if a = x then True else if a = e then False else fr h a)"
      "\<And>a. dm_memory_pool (h' a) = (if a = x \<or> a = e then p else dm_memory_pool (h a))"
    and B': "B' = insert x (insert e B)"
  shows "tiles p mn B' h'" "area B' h' = {x..<x + n} \<union> area B h" "frees B' h' = insert x (frees B h)"
    "used B' h' = insert e (used B h)" "avail B' h' = avail B h + (n - 32)" "settled B' h'"
    "card (area B' h') = n + card (area B h)" "x \<notin> B" "e \<notin> B" "x \<noteq> e" "a \<in> B \<Longrightarrow> nm h' a = nm h a" "nm h' e = x"
proof -
  note T = tiles_add[OF t(1) x e dis h', folded B']
  show "tiles p mn B' h'" and ar: "area B' h' = {x..<x + n} \<union> area B h" and nB: "x \<notin> B" "e \<notin> B" using T by auto
  show xe: "x \<noteq> e" using x e by auto
  show "a \<in> B \<Longrightarrow> nm h' a = nm h a" "nm h' e = x" using nB xe by (auto simp: h')
  show F: "frees B' h' = insert x (frees B h)" and "used B' h' = insert e (used B h)"
    using nB xe by (auto simp: frees_def used_def h' B')
  have "(\<Sum>a\<in>frees B h. room h' a) = (\<Sum>a\<in>frees B h. room h a)"
    by (rule sum.cong) (use nB in \<open>auto simp: room_def h' frees_def\<close>)
  moreover have "room h' x = n - 32" "x \<notin> frees B h" using e nB by (auto simp: room_def h' frees_def)
  ultimately show "avail B' h' = avail B h + (n - 32)" using finite_frees[OF t(1)] by (simp add: avail_def F)
  show "settled B' h'"
    using t(2) tilesD(1)[OF t(1)] nB xe unfolding settled_def F by (auto simp: h' frees_def)
  show "card (area B' h') = n + card (area B h)"
    unfolding ar using dis finite_area[OF t(1)] by (subst card_Un_disjoint) auto
qed

lemma smallest_allocation:
  assumes "mn0 \<noteq> 0" "mn0 \<le> 1073741824" and m: "m = DM_ADJUSTED_SIZE mn0" and mn: "mn = (if m < DM_MIN_ALLOCATION \<and> m \<noteq> 0 then DM_MIN_ALLOCATION else m)"
  shows "8 \<le> mn" "mn mod 4 = 0" "mn \<le> 1073741828" "mn0 \<le> mn" "mn < mn0 + 8"
  using adjusted_size[of mn0] assms(1,2) unfolding mn m DM_MIN_ALLOCATION_def by auto

lemma NU_Create_Memory_Pool_facts:
  assumes inv: "mem_inv A B s" and run: "NU_Create_Memory_Pool p x n0 mn0 fifo s = (s', NU_SUCCESS)"
    and sz: "n0 \<le> 1073741824" "mn0 \<le> 1073741824" and n: "n = DM_ADJUSTED_SIZE n0" "x + n \<le> memory_top"
    and dis: "\<And>q. dm_id_valid (mpools s q) \<Longrightarrow> {x..<x + n} \<inter> A q = {}"
    and B': "B' = {x, x + n - 16}"
  shows "mem_inv (A(p := {x..<x + n})) (B(p := B')) s'" "\<not> dm_id_valid (mpools s p)" "dm_id_valid (mpools s' p)"
    "frees B' (hdrs s') = {x}" "used B' (hdrs s') = {x + n - 16}" "nm (hdrs s') (x + n - 16) = x"
    "\<And>q. q \<noteq> p \<Longrightarrow> mpools s' q = mpools s q" "\<And>a. a \<notin> {x..<x + n} \<Longrightarrow> hdrs s' a = hdrs s a"
    "dm_pool_size (mpools s' p) = n" "dm_available (mpools s' p) = n - 32" "dkern s' = dkern s"
proof -
  let ?m = "DM_ADJUSTED_SIZE mn0"
  define mn where "mn = (if ?m < DM_MIN_ALLOCATION \<and> ?m \<noteq> 0 then DM_MIN_ALLOCATION else ?m)"
  let ?e = "add32 (add32 x (sub32 n (2 * DM_OVERHEAD))) DM_OVERHEAD"
  have c: "p \<noteq> NU_NULL" "\<not> dm_id_valid (mpools s p)" "x \<noteq> NU_NULL" "x mod 4 = 0" "mn \<noteq> 0" "add32 mn (2 * DM_OVERHEAD) \<le> n" "fifo \<noteq> None"
    using run by (auto simp: NU_Create_Memory_Pool_def Let_def n(1) mn_def split: if_splits)
  show "\<not> dm_id_valid (mpools s p)" by (rule c(2))
  have "DM_ADJUSTED_SIZE 0 = 0" by (simp add: DM_ADJUSTED_SIZE_def add32_eq)
  then have mn0: "mn0 \<noteq> 0" using c(5) by (cases "mn0 = 0") (auto simp: mn_def)
  note M = smallest_allocation[OF mn0 sz(2) refl mn_def]
  have n4: "n mod 4 = 0" "n \<le> 1073741824" using adjusted_size(1,2,3)[of n0] sz(1) n(1) by presburger+
  have mn32: "mn + 32 \<le> n" using c(6) M(3) by (simp add: DM_OVERHEAD_def add32_eq)
  have e: "?e = x + n - 16" "sub32 n (2 * DM_OVERHEAD) = n - 32" "x + n - 16 \<noteq> x"
    using n(2) mn32 n4 by (auto simp: DM_OVERHEAD_def add32_eq sub32_eq)
  have s': "s' = s\<lparr>mpools := (mpools s)(p := \<lparr>dm_id_valid = True, dm_start_address = x, dm_pool_size = n,
                   dm_min_allocation = mn, dm_available = n - 32, dm_memory_list = x,
                   dm_fifo_suspend = (fifo = Some True), dm_tasks_waiting = 0, dm_suspension_list = []\<rparr>),
                 DMD_Created_Pools_List := DMD_Created_Pools_List s @ [p],
                 DMD_Total_Pools := inc32 (DMD_Total_Pools s),
                 hdrs := hset (\<lambda>b. b\<lparr>dm_next_memory := x, dm_previous_memory := x,
                       dm_memory_free := False, dm_memory_pool := p\<rparr>) (x + n - 16)
                   (hset (\<lambda>b. b\<lparr>dm_memory_pool := p, dm_next_memory := x + n - 16, dm_previous_memory := x + n - 16,
                       dm_memory_free := True, dm_next_free := x, dm_previous_free := x\<rparr>) x (hdrs s)),
                 dbytes := (\<lambda>a. if x \<le> a \<and> a < x + n then 255 else dbytes s a)\<rparr>"
    using run c unfolding NU_Create_Memory_Pool_def Let_def n(1)[symmetric] mn_def[symmetric] e(2) e(1)[unfolded e(2)] by auto
  show P: "dm_id_valid (mpools s' p)" "dm_pool_size (mpools s' p) = n" "dm_available (mpools s' p) = n - 32"
      "\<And>q. q \<noteq> p \<Longrightarrow> mpools s' q = mpools s q" "dkern s' = dkern s"
    and H: "\<And>a. a \<notin> {x..<x + n} \<Longrightarrow> hdrs s' a = hdrs s a"
    using mn32 by (auto simp: s' hset_def)
  have T: "tiles p mn {} (hdrs s)" "settled {} (hdrs s)" by (auto simp: tiles_def settled_def frees_def)
  note N = section_ok[OF T c(3,4) n4(1) mn32 n(2) refl, of "hdrs s'" B']
  have N': "tiles p mn B' (hdrs s')" "area B' (hdrs s') = {x..<x + n}" "frees B' (hdrs s') = {x}"
    "used B' (hdrs s') = {x + n - 16}" "avail B' (hdrs s') = n - 32" "settled B' (hdrs s')" "card (area B' (hdrs s')) = n"
    "nm (hdrs s') (x + n - 16) = x"
    using N e(3) B' by (auto simp: s' hset_def area_def frees_def used_def avail_def)
  show "frees B' (hdrs s') = {x}" "used B' (hdrs s') = {x + n - 16}" "nm (hdrs s') (x + n - 16) = x" by (rule N')+
  have "free_ring (hdrs s') x {x}" using c(3) e(3) by (intro free_ring_single) (auto simp: s' hset_def)
  then have ok: "pool_ok p B' (mpools s' p) (hdrs s')"
    unfolding pool_ok_def using N' M mn32 n4 by (auto simp: s' settled_def)
  have "waiters_ok q s'" if "dm_id_valid (mpools s' q)" for q
  proof (cases "q = p")
    case True
    then show ?thesis by (simp add: waiters_ok_def s')
  next
    case False
    with that have "waiters_ok q s" using mem_invD(5)[OF inv, of q] P(4) by simp
    then show ?thesis by (rule waiters_frame) (use False in \<open>auto simp: s'\<close>)
  qed
  then show "mem_inv (A(p := {x..<x + n})) (B(p := B')) s'"
    using mem_inv_extend[OF inv c(1) P(4) ok N'(2)] H dis inv P(5) by (simp add: mem_inv_def)
qed

lemma NU_Add_Memory_facts:
  assumes inv: "mem_inv A B s" and run: "NU_Add_Memory p x n0 s = (s', NU_SUCCESS)"
    and sz: "n0 \<le> 1073741824" and n: "n = DM_ADJUSTED_SIZE n0" "x + n \<le> memory_top" "dm_pool_size (mpools s p) + n \<le> 1073741824"
    and dis: "\<And>q. dm_id_valid (mpools s q) \<Longrightarrow> {x..<x + n} \<inter> A q = {}"
    and B': "B' = insert x (insert (x + n - 16) (B p))" and Ap: "Ap = {x..<x + n} \<union> A p"
  shows "mem_inv (A(p := Ap)) (B(p := B')) s'" "dm_id_valid (mpools s p)" "dm_id_valid (mpools s' p)"
    "used B' (hdrs s') = insert (x + n - 16) (used (B p) (hdrs s))" "nm (hdrs s') (x + n - 16) = x"
    "\<And>a. a \<in> B p \<Longrightarrow> nm (hdrs s') a = nm (hdrs s) a"
    "\<And>q. q \<noteq> p \<Longrightarrow> mpools s' q = mpools s q" "\<And>a. a \<notin> Ap \<Longrightarrow> hdrs s' a = hdrs s a"
    "dm_pool_size (mpools s' p) = dm_pool_size (mpools s p) + n"
    "dm_available (mpools s' p) = dm_available (mpools s p) + (n - 32)" "0 < n"
proof -
  let ?pc = "mpools s p" and ?h = "hdrs s" and ?e = "x + n - 16"
  let ?head = "dm_memory_list ?pc"
  have c: "p \<noteq> NU_NULL" "dm_id_valid ?pc" "x \<noteq> NU_NULL" "x mod 4 = 0" "add32 (dm_min_allocation ?pc) (2 * DM_OVERHEAD) \<le> n"
    using run by (auto simp: NU_Add_Memory_def Let_def n(1) split: if_splits)
  note I = mem_invD[OF inv c(2)]
  note D = pool_okD[OF I(3)]
  show v: "dm_id_valid ?pc" by (rule c(2))
  have n4: "n mod 4 = 0" using adjusted_size(3)[of n0] sz n(1) by simp
  have mn32: "dm_min_allocation ?pc + 32 \<le> n" using c(5) D(7,9) by (simp add: DM_OVERHEAD_def add32_eq)
  then show "0 < n" by simp
  have av: "avail (B p) ?h \<le> dm_pool_size ?pc" using avail_le(1)[OF D(1)] D(8) by simp
  have e: "sub32 (add32 x n) DM_OVERHEAD = ?e" "?e \<noteq> x" "sub32 n (2 * DM_OVERHEAD) = n - 32"
    "add32 (dm_pool_size ?pc) n = dm_pool_size ?pc + n" "add32 (dm_available ?pc) (n - 32) = dm_available ?pc + (n - 32)"
    using n mn32 av D(3) by (auto simp: DM_OVERHEAD_def add32_eq sub32_eq)
  have dp: "{x..<x + n} \<inter> area (B p) ?h = {}" using dis[OF c(2)] I(4) by simp
  have "x \<in> {x..<x + n}" "?e \<in> {x..<x + n}" using mn32 by auto
  then have nB: "x \<notin> B p" "?e \<notin> B p" using dp blocks_in_area[OF D(1)] by blast+
  have hd: "?head = NU_NULL \<longleftrightarrow> frees (B p) ?h = {}" "?head \<noteq> NU_NULL \<Longrightarrow> ?head \<in> frees (B p) ?h"
    using free_ring_head[OF D(2)] by auto
  let ?new = "hset (\<lambda>b. b\<lparr>dm_memory_pool := p, dm_next_memory := ?e, dm_previous_memory := ?e, dm_memory_free := True\<rparr>) x ?h"
  let ?old = "hset (\<lambda>b. b\<lparr>dm_next_free := ?head, dm_previous_free := dm_previous_free (?new ?head)\<rparr>) x ?new"
  let ?ring = "if ?head = NU_NULL then hset (\<lambda>b. b\<lparr>dm_next_free := x, dm_previous_free := x\<rparr>) x ?new
    else hset (\<lambda>b. b\<lparr>dm_previous_free := x\<rparr>) ?head
      (hset (\<lambda>b. b\<lparr>dm_next_free := x\<rparr>) (dm_previous_free (?old ?head)) ?old)"
  let ?pc' = "?pc\<lparr>dm_pool_size := dm_pool_size ?pc + n, dm_available := dm_available ?pc + (n - 32),
    dm_memory_list := (if ?head = NU_NULL then x else ?head)\<rparr>"
  let ?h' = "hset (\<lambda>b. b\<lparr>dm_next_memory := x, dm_previous_memory := x, dm_memory_free := False, dm_memory_pool := p\<rparr>)"
  have hx: "?head \<noteq> x" using hd(2) nB c(3) by (auto simp: frees_def)
  then have nx: "nm ?ring x = ?e" by (simp add: hset_def)
  have "NU_Add_Memory p x n0 s = (s\<lparr>mpools := (mpools s)(p := ?pc'), hdrs := ?h' (nm ?ring x) ?ring\<rparr>, NU_SUCCESS)"
    using c by (cases "?head = NU_NULL")
      (simp_all add: NU_Add_Memory_def Let_def n(1)[symmetric] e(1,3,4,5) not_less del: fun_upd_apply)
  then have s': "s' = s\<lparr>mpools := (mpools s)(p := ?pc'), hdrs := ?h' ?e ?ring\<rparr>" using run unfolding nx by simp
  have pc': "mpools s' = (mpools s)(p := ?pc')" and h': "hdrs s' = ?h' ?e ?ring"
    and rest: "dblocks s' = dblocks s" "dkern s' = dkern s" by (simp_all add: s')
  show P: "dm_id_valid (mpools s' p)" "dm_pool_size (mpools s' p) = dm_pool_size ?pc + n"
      "dm_available (mpools s' p) = dm_available ?pc + (n - 32)" "\<And>q. q \<noteq> p \<Longrightarrow> mpools s' q = mpools s q"
    using c(2) by (auto simp: pc')
  have st: "settled (B p) ?h" using D(4) by (auto simp: settled_def)
  have F: "a \<in> frees (B p) ?h \<Longrightarrow> a \<noteq> x \<and> a \<noteq> ?e" for a using nB by (auto simp: frees_def)
  have pfF: "?head \<noteq> NU_NULL \<Longrightarrow> pf ?h ?head \<in> frees (B p) ?h" using hd(2) free_ring_links(2)[OF D(2)] by blast
  note N = section_ok[OF D(1) st c(3,4) n4 mn32 n(2) refl dp _ _ _ _ B', of "hdrs s'"]
  have L: "nm (hdrs s') a = (if a = x then ?e else if a = ?e then x else nm ?h a)"
      "pm (hdrs s') a = (if a = x then ?e else if a = ?e then x else pm ?h a)"
      "fr (hdrs s') a = (if a = x then True else if a = ?e then False else fr ?h a)"
      "dm_memory_pool (hdrs s' a) = (if a = x \<or> a = ?e then p else dm_memory_pool (?h a))" for a
    using e(2) by (auto simp: h' hset_def)
  note N = N[OF L]
  show "used B' (hdrs s') = insert ?e (used (B p) ?h)" "nm (hdrs s') ?e = x" "\<And>a. a \<in> B p \<Longrightarrow> nm (hdrs s') a = nm ?h a"
    by (fact N)+
  have BA: "a \<in> Ap" if "a \<in> B p" for a using that blocks_in_area[OF D(1)] I(4) Ap by auto
  show H: "hdrs s' a = ?h a" if "a \<notin> Ap" for a
  proof -
    have "a \<noteq> x" "a \<noteq> ?e" "a \<notin> frees (B p) ?h" using that BA mn32 by (auto simp: Ap frees_def)
    then have "?head \<noteq> NU_NULL \<Longrightarrow> a \<noteq> ?head \<and> a \<noteq> pf ?h ?head" using hd(2) pfF by auto
    then show ?thesis using \<open>a \<noteq> x\<close> \<open>a \<noteq> ?e\<close> F[OF hd(2)] by (auto simp: h' hset_def)
  qed
  have ring: "free_ring (hdrs s') (if ?head = NU_NULL then x else ?head) (insert x (frees (B p) ?h))"
  proof (cases "?head = NU_NULL")
    case True
    then show ?thesis using hd(1) c(3) e(2) by (auto intro!: free_ring_single simp: h' hset_def)
  next
    case False
    note hF = hd(2)[OF False] and pF = pfF[OF False]
    note K = free_ring_links[OF D(2) hF]
    have xF: "x \<notin> frees (B p) ?h" using F by blast
    have fl: "nf (hdrs s') a = (if a = x then ?head else if a = pf ?h ?head then x else nf ?h a)"
      "pf (hdrs s') a = (if a = ?head then x else if a = x then pf ?h ?head else pf ?h a)" for a
      using False F[OF hF] F[OF pF] by (auto simp: h' hset_def)
    have "free_ring (hdrs s') (pf ?h ?head) (insert x (frees (B p) ?h))"
      by (rule free_ring_insert[OF D(2) pF xF]) (use c(3) in \<open>auto simp: fl K(4)\<close>)
    then show ?thesis using free_ring_rotate hF False by auto
  qed
  have ok: "pool_ok p B' (mpools s' p) (hdrs s')"
    unfolding pool_ok_def using N(1,3,5,6,7) ring D(3,5-8) n(3) mn32 by (simp add: pc' settled_def)
  have "waiters_ok q s'" if "dm_id_valid (mpools s' q)" for q
  proof -
    have "waiters_ok q s" using mem_invD(5)[OF inv, of q] c(2) P(4) that by (cases "q = p") auto
    then show ?thesis by (rule waiters_frame) (auto simp: pc' rest)
  qed
  moreover have "area B' (hdrs s') = Ap" using N(2) I(4) Ap by simp
  moreover have "Ap \<inter> A q = {}" if "q \<noteq> p" "dm_id_valid (mpools s q)" for q
    using dis[OF that(2)] I(6)[OF that(2)] that(1) Ap by blast
  ultimately show "mem_inv (A(p := Ap)) (B(p := B')) s'"
    using mem_inv_extend[OF inv c(1) P(4) ok _ H] I(1) rest(2) by simp
qed

section \<open>Time-outs, deletion and the rest of the kernel\<close>

definition waiting_for_memory :: "dsys \<Rightarrow> tid \<Rightarrow> bool" where
  "waiting_for_memory s t \<longleftrightarrow> (\<exists>p. dm_id_valid (mpools s p) \<and> t \<in> set (dm_suspension_list (mpools s p)))"

lemma memory_timeout_facts:
  assumes inv: "mem_inv A B s" and p: "dm_id_valid (mpools s p)" "t \<in> set (dm_suspension_list (mpools s p))"
    and s': "s' = memory_timeout t s"
  shows "mem_inv A B s'" "hdrs s' = hdrs s" "dm_id_valid (mpools s' q) = dm_id_valid (mpools s q)"
proof -
  note I = mem_invD[OF inv p(1)]
  have w: "memory_waiter p s t" by (rule waitersD(3)[OF I(5) p(2)])
  let ?k1 = "upd_tcb (tc_timer_active_update (\<lambda>_. False)) t (dkern s)"
  have st: "tc_status (tcbs (dkern s) t) = NU_MEMORY_SUSPEND" "\<not> tc_signal_active (tcbs (dkern s) t)"
    "tc_cleanup (tcbs (dkern s) t) = Some t" "ds_memory_pool (dblocks s t) = p"
    using w by (auto simp: memory_waiter_def waits_for_def)
  have "mem_inv A B s' \<and> hdrs s' = hdrs s \<and> dm_id_valid (mpools s' q) = dm_id_valid (mpools s q)"
  proof (cases "tc_timer_active (tcbs (dkern s) t) \<and> tm_remaining_time (tm (dkern s)) (task_timer t) = 0")
    case False
    then have "s' = s" by (auto simp: s' memory_timeout_def TCC_Task_Timeout_def Let_def)
    then show ?thesis using inv by simp
  next
    case True
    have eq: "s' = (DMC_Cleanup t s)\<lparr>dkern := fst (TCC_Resume_Task t NU_MEMORY_SUSPEND ?k1)\<rparr>"
      using True st by (simp add: s' memory_timeout_def TCC_Task_Timeout_def Let_def)
    have "sched_inv (fst (TCC_Task_Timeout DMC_Cleanup t (dkern s, s)))"
      using I(1) st by (intro TCC_Task_Timeout_inv) (auto simp: suspended_for_def)
    then have si: "sched_inv (dkern s')" by (simp add: s' memory_timeout_def split_beta Let_def)
    have "mem_inv A B s'"
      by (rule dismiss_inv[OF inv p _ _ _ si])
        (simp_all add: eq DMC_Cleanup_def Let_def st(4) TCC_Resume_Task_others)
    then show ?thesis by (simp add: eq DMC_Cleanup_def Let_def st(4))
  qed
  then show "mem_inv A B s'" "hdrs s' = hdrs s" "dm_id_valid (mpools s' q) = dm_id_valid (mpools s q)" by blast+
qed

lemma NU_Delete_Memory_Pool_facts:
  assumes inv: "mem_inv A B s" and p: "p \<noteq> NU_NULL" "dm_id_valid (mpools s p)" and L: "L = dm_suspension_list (mpools s p)"
  shows "\<exists>s' pre. NU_Delete_Memory_Pool p s = (s', NU_SUCCESS, pre) \<and> mem_inv A B s' \<and> hdrs s' = hdrs s \<and> dbytes s' = dbytes s \<and>
    mpools s' = (mpools s)(p := (mpools s p)\<lparr>dm_id_valid := False\<rparr>) \<and>
    DMD_Created_Pools_List s' = remove1 p (DMD_Created_Pools_List s) \<and>
    (\<forall>t \<in> set L. is_ready t (dkern s') \<and> allocate_resumed t s' = (NU_POOL_DELETED, NU_NULL)) \<and>
    (\<forall>t. t \<notin> set L \<longrightarrow> tcbs (dkern s') t = tcbs (dkern s) t \<and> dblocks s' t = dblocks s t)"
proof -
  note I = mem_invD[OF inv p(2)]
  let ?r = "resume_each TCC_Resume_Task NU_MEMORY_SUSPEND L (dkern s, False)"
  let ?s1 = "(upd_mpool p (dm_id_valid_update (\<lambda>_. False)) s)
    \<lparr>DMD_Created_Pools_List := remove1 p (DMD_Created_Pools_List s), DMD_Total_Pools := dec32 (DMD_Total_Pools s)\<rparr>"
  let ?s' = "?s1\<lparr>dblocks := (\<lambda>t. if t \<in> set L
      then (dblocks ?s1 t)\<lparr>dm_return_pointer := NU_NULL, dm_return_status := NU_POOL_DELETED\<rparr> else dblocks ?s1 t),
     dkern := fst ?r\<rparr>"
  have run: "NU_Delete_Memory_Pool p s = (?s', NU_SUCCESS, snd ?r)"
    using p by (simp add: NU_Delete_Memory_Pool_def L Let_def split_beta)
  have "distinct L" "\<And>t. t \<in> set L \<Longrightarrow> waits_for t NU_MEMORY_SUSPEND (dkern s)"
    using waitersD[OF I(5)] by (auto simp: L memory_waiter_def)
  note R = tc.resume_each_all[OF I(1) this, of False]
  have "waiters_ok q ?s'" if q: "dm_id_valid (mpools ?s' q)" for q
  proof -
    have n: "q \<noteq> p" "dm_id_valid (mpools s q)" using q by (auto split: if_splits)
    have "\<And>t. t \<in> set (dm_suspension_list (mpools s q)) \<Longrightarrow> t \<notin> set L"
      using other_pool[OF mem_invD(5)[OF inv n(2)] I(5)] n(1) L by auto
    then show ?thesis
      by (intro waiters_frame[OF mem_invD(5)[OF inv n(2)]]) (use n(1) in \<open>auto simp: resume_each_others\<close>)
  qed
  moreover have "sched_inv (fst ?r)" using R by simp
  ultimately have "mem_inv A B ?s'" using inv unfolding mem_inv_def by auto
  then show ?thesis
    by (intro exI[of _ ?s'] exI[of _ "snd ?r"] conjI)
      (use run R in \<open>auto simp: resume_each_others allocate_resumed_def\<close>)
qed

lemma kernel_step_mem_inv:
  assumes inv: "mem_inv A B s" and k: "sched_inv k" "\<And>t. waiting_for_memory s t \<Longrightarrow> tcbs k t = tcbs (dkern s) t"
  shows "mem_inv A B (s\<lparr>dkern := k\<rparr>)"
proof -
  have "waiters_ok p (s\<lparr>dkern := k\<rparr>)" if p: "dm_id_valid (mpools s p)" for p
    by (rule waiters_frame[OF mem_invD(5)[OF inv p]]) (use k p in \<open>auto simp: waiting_for_memory_def\<close>)
  then show ?thesis using inv k(1) by (simp add: mem_inv_def)
qed

section \<open>Live pointers\<close>

text \<open>The pointers to the blocks in use (a trailer is no block).\<close>

definition live_of :: "addr set \<Rightarrow> headers \<Rightarrow> addr set" where
  "live_of B h = (\<lambda>x. x + 16) ` {x \<in> used B h. x < nm h x}"

definition live :: "(addr \<Rightarrow> addr set) \<Rightarrow> dsys \<Rightarrow> addr set" where
  "live B s = (\<Union>p\<in>{p. dm_id_valid (mpools s p)}. live_of (B p) (hdrs s))"

lemma live_of_iff: "m \<in> live_of B h \<longleftrightarrow> 16 \<le> m \<and> m - 16 \<in> used B h \<and> m - 16 < nm h (m - 16)"
  unfolding live_of_def by (auto simp: image_iff)

lemma live_of_area:
  assumes "tiles p mn B h" "m \<in> live_of B h"
  shows "{m - 16..<nm h (m - 16)} \<subseteq> area B h" "m \<in> area B h" "m + mn \<le> nm h (m - 16)"
proof -
  have m: "16 \<le> m" "m - 16 \<in> B" "m - 16 < nm h (m - 16)" using assms(2) by (auto simp: live_of_iff used_def)
  then show s: "{m - 16..<nm h (m - 16)} \<subseteq> area B h" by (force simp: area_def blk_end_def)
  show "m + mn \<le> nm h (m - 16)" using tilesD(9)[OF assms(1) m(2,3)] m(1) by simp
  show "m \<in> area B h"
  proof (cases "m < nm h (m - 16)")
    case False
    then have "mn = 0" "nm h (m - 16) = m" using tilesD(9)[OF assms(1) m(2,3)] m(1) by auto
    then show ?thesis using tilesD(1)[OF assms(1) m(2)] blocks_in_area[OF assms(1)] by auto
  qed (use s m in auto)
qed

lemma live_of_disjoint:
  assumes "tiles p mn B h" "m \<in> live_of B h" "a \<in> B" "a \<noteq> m - 16"
  shows "{m - 16..<nm h (m - 16)} \<inter> {a..<blk_end h a} = {}"
proof -
  have m: "m - 16 \<in> B" "blk_end h (m - 16) = nm h (m - 16)" using assms(2) by (auto simp: live_of_iff used_def blk_end_def)
  then show ?thesis using tiles_disjoint[OF assms(1) m(1) assms(3)] assms(4) by auto
qed

text \<open>\<open>L\<close> maps each pointer the application holds to the size it asked for.\<close>

type_synonym holdings = "addr \<rightharpoonup> nat"
type_synonym mconf = "dsys \<times> (addr \<Rightarrow> addr set) \<times> holdings"

definition held :: "holdings \<Rightarrow> addr set" where
  "held L = (\<Union>m\<in>dom L. {m..<m + the (L m)})"

definition conf_ok :: "(addr \<Rightarrow> addr set) \<Rightarrow> (addr \<Rightarrow> addr set) \<Rightarrow> dsys \<Rightarrow> holdings \<Rightarrow> bool" where
  "conf_ok A B s L \<longleftrightarrow> mem_inv A B s \<and> dom L = live B s \<and> (\<forall>m n. L m = Some n \<longrightarrow> m + n \<le> nm (hdrs s) (m - 16))"

lemma live_area:
  assumes "mem_inv A B s" "dm_id_valid (mpools s p)" "m \<in> live_of (B p) (hdrs s)"
  shows "m \<in> A p" "m - 16 \<in> A p" "{m - 16..<nm (hdrs s) (m - 16)} \<subseteq> A p"
proof -
  note I = mem_invD[OF assms(1,2)]
  note T = live_of_area[OF pool_okD(1)[OF I(3)] assms(3), unfolded I(4)]
  show "m \<in> A p" "{m - 16..<nm (hdrs s) (m - 16)} \<subseteq> A p" by (rule T)+
  moreover have "m - 16 \<in> {m - 16..<nm (hdrs s) (m - 16)}" using assms(3) by (simp add: live_of_iff)
  ultimately show "m - 16 \<in> A p" by blast
qed

text \<open>A change in one pool.\<close>

lemma conf_change:
  assumes inv: "conf_ok A B s L" and new: "mem_inv A' (B(p := B')) s'" "dm_id_valid (mpools s' p)"
    and oth: "\<And>q. q \<noteq> p \<Longrightarrow> mpools s' q = mpools s q \<and> A' q = A q" and sub: "dm_id_valid (mpools s p) \<Longrightarrow> A p \<subseteq> A' p"
    and h: "\<And>a. a \<notin> A' p \<Longrightarrow> hdrs s' a = hdrs s a"
    and L: "\<And>m. m \<notin> A' p \<Longrightarrow> L' m = L m" "dom L' \<inter> A' p = live_of B' (hdrs s')"
      "\<And>m n. m \<in> A' p \<Longrightarrow> L' m = Some n \<Longrightarrow> m + n \<le> nm (hdrs s') (m - 16)"
  shows "conf_ok A' (B(p := B')) s' L'"
proof -
  have I: "mem_inv A B s" "dom L = live B s" "\<And>m n. L m = Some n \<Longrightarrow> m + n \<le> nm (hdrs s) (m - 16)"
    using inv by (auto simp: conf_ok_def)
  have dj: "A q \<inter> A' p = {}" if "q \<noteq> p" "dm_id_valid (mpools s q)" for q
    using mem_invD(6)[OF new(1) _ new(2), of q] oth[OF that(1)] that by simp
  have other: "m \<notin> A' p \<and> m - 16 \<notin> A' p" if "q \<noteq> p" "dm_id_valid (mpools s q)" "m \<in> live_of (B q) (hdrs s)" for q m
    using live_area(1,2)[OF I(1) that(2,3)] dj[OF that(1,2)] by blast
  have o': "live_of (B q) (hdrs s') = live_of (B q) (hdrs s)" if q: "q \<noteq> p" "dm_id_valid (mpools s q)" for q
  proof -
    have "hdrs s' a = hdrs s a" if "a \<in> B q" for a
      using that h[of a] dj[OF q] blocks_in_area[OF pool_okD(1)[OF mem_invD(3)[OF I(1) q(2)]]] mem_invD(4)[OF I(1) q(2)] by blast
    then show ?thesis by (auto simp: live_of_iff used_def)
  qed
  have split: "m \<in> live B s \<and> m \<notin> A' p \<longleftrightarrow> (\<exists>q. q \<noteq> p \<and> dm_id_valid (mpools s q) \<and> m \<in> live_of (B q) (hdrs s))" for m
  proof -
    have "m \<in> A' p" if "dm_id_valid (mpools s p)" "m \<in> live_of (B p) (hdrs s)"
      using live_area(1)[OF I(1) that] sub[OF that(1)] by blast
    moreover have "m \<in> live B s \<longleftrightarrow> (\<exists>q. dm_id_valid (mpools s q) \<and> m \<in> live_of (B q) (hdrs s))" by (auto simp: live_def)
    ultimately show ?thesis using other[of _ m] by metis
  qed
  have "m \<in> dom L' \<longleftrightarrow> m \<in> live (B(p := B')) s'" for m
  proof -
    have "m \<in> live (B(p := B')) s' \<longleftrightarrow> m \<in> live_of B' (hdrs s') \<or> (\<exists>q. q \<noteq> p \<and> dm_id_valid (mpools s q) \<and> m \<in> live_of (B q) (hdrs s))"
      using o' oth new(2) unfolding live_def by (auto split: if_splits)
    also have "\<dots> \<longleftrightarrow> m \<in> dom L' \<inter> A' p \<or> m \<in> dom L \<and> m \<notin> A' p" using split L(2) I(2) by simp
    also have "\<dots> \<longleftrightarrow> m \<in> dom L'" using L(1)[of m] by (cases "m \<in> A' p") (simp_all add: domIff)
    finally show ?thesis by simp
  qed
  then have "dom L' = live (B(p := B')) s'" by blast
  moreover have "m + n \<le> nm (hdrs s') (m - 16)" if "L' m = Some n" for m n
  proof (cases "m \<in> A' p")
    case False
    then have "L m = Some n" using L(1) that by simp
    then have m: "m + n \<le> nm (hdrs s) (m - 16)" "m \<in> live B s" using I(2,3) by auto
    then have "m - 16 \<notin> A' p" using split[of m] False other[of _ m] by blast
    then show ?thesis using m h by simp
  qed (use L(3) that in blast)
  ultimately show ?thesis using new(1) by (simp add: conf_ok_def)
qed

text \<open>No change of blocks.\<close>

lemma conf_same:
  assumes "conf_ok A B s L" "mem_inv A B s'" "hdrs s' = hdrs s" "\<And>p. dm_id_valid (mpools s' p) = dm_id_valid (mpools s p)"
  shows "conf_ok A B s' L"
  using assms by (simp add: conf_ok_def live_def)

section \<open>Steps\<close>

text \<open>
  The tasks served when a block is returned are those that have left the front of the pool's list; each now holds the
  block of its request. A store changes only bytes of blocks the application holds, and the words of those blocks that
  are read as header fields elsewhere: the fields of a header at \<open>a\<close> lie at \<open>a\<close>, \<open>a + 4\<close>, \<open>a + 8\<close>, \<open>a + 12\<close>, \<open>a + 16\<close>, \<open>a + 20\<close>.
\<close>

definition handed :: "tid list \<Rightarrow> dsys \<Rightarrow> dsys \<Rightarrow> holdings" where
  "handed ts s s' = map_of (map (\<lambda>t. (dm_return_pointer (dblocks s' t), dm_request_size (dblocks s t))) ts)"

definition left :: "addr \<Rightarrow> dsys \<Rightarrow> dsys \<Rightarrow> tid list" where
  "left p s s' = take (length (dm_suspension_list (mpools s p)) - length (dm_suspension_list (mpools s' p)))
     (dm_suspension_list (mpools s p))"

definition stores_in :: "addr set \<Rightarrow> headers \<Rightarrow> headers \<Rightarrow> bool" where
  "stores_in U h h' \<longleftrightarrow> (\<forall>a. ({a..<a + 4} \<inter> U = {} \<longrightarrow> nm h' a = nm h a) \<and> ({a + 4..<a + 8} \<inter> U = {} \<longrightarrow> pm h' a = pm h a) \<and>
     ({a + 8..<a + 12} \<inter> U = {} \<longrightarrow> fr h' a = fr h a) \<and>
     ({a + 12..<a + 16} \<inter> U = {} \<longrightarrow> dm_memory_pool (h' a) = dm_memory_pool (h a)) \<and>
     ({a + 16..<a + 20} \<inter> U = {} \<longrightarrow> nf h' a = nf h a) \<and> ({a + 20..<a + 24} \<inter> U = {} \<longrightarrow> pf h' a = pf h a))"

inductive mstep :: "mconf \<Rightarrow> mconf \<Rightarrow> bool" where
  create: "NU_Create_Memory_Pool p x n mn fifo s = (s', NU_SUCCESS) \<Longrightarrow> n \<le> 1073741824 \<Longrightarrow> mn \<le> 1073741824 \<Longrightarrow>
    M = {x..<x + DM_ADJUSTED_SIZE n} \<Longrightarrow> x + DM_ADJUSTED_SIZE n \<le> memory_top \<Longrightarrow>
    (\<And>q. dm_id_valid (mpools s q) \<Longrightarrow> M \<inter> A q = {}) \<Longrightarrow> mstep (s, A, L) (s', A(p := M), L)"
| add: "NU_Add_Memory p x n s = (s', NU_SUCCESS) \<Longrightarrow> n \<le> 1073741824 \<Longrightarrow>
    dm_pool_size (mpools s p) + DM_ADJUSTED_SIZE n \<le> 1073741824 \<Longrightarrow>
    M = {x..<x + DM_ADJUSTED_SIZE n} \<Longrightarrow> x + DM_ADJUSTED_SIZE n \<le> memory_top \<Longrightarrow>
    (\<And>q. dm_id_valid (mpools s q) \<Longrightarrow> M \<inter> A q = {}) \<Longrightarrow> mstep (s, A, L) (s', A(p := M \<union> A p), L)"
| allocate: "NU_Allocate_Aligned_Memory p dest n al suspend s = Some (s', st, ret, leaves) \<Longrightarrow> al \<le> 40 \<Longrightarrow>
    (suspend \<noteq> 0 \<Longrightarrow> may_suspend (dkern s)) \<Longrightarrow>
    mstep (s, A, L) (s', A, if st = Some NU_SUCCESS then L(the ret \<mapsto> n) else L)"
| deallocate: "L m \<noteq> None \<Longrightarrow> NU_Deallocate_Memory m s = Some (s', st, preempt) \<Longrightarrow> p = dm_memory_pool (hdrs s (m - 16)) \<Longrightarrow>
    mstep (s, A, L) (s', A, L(m := None) ++ handed (left p s s') s s')"
| time_out: "waiting_for_memory s t \<Longrightarrow> mstep (s, A, L) (memory_timeout t s, A, L)"
| delete: "NU_Delete_Memory_Pool p s = (s', NU_SUCCESS, preempt) \<Longrightarrow> mstep (s, A, L) (s', A, L |` (- A p))"
| kernel: "sched_inv k \<Longrightarrow> (\<And>t. waiting_for_memory s t \<Longrightarrow> tcbs k t = tcbs (dkern s) t) \<Longrightarrow>
    mstep (s, A, L) (s\<lparr>dkern := k\<rparr>, A, L)"
| store: "stores_in (held L) (hdrs s) h \<Longrightarrow> (\<And>a. a \<notin> held L \<Longrightarrow> b a = dbytes s a) \<Longrightarrow>
    mstep (s, A, L) (s\<lparr>hdrs := h, dbytes := b\<rparr>, A, L)"

lemma confD:
  assumes "conf_ok A B s L"
  shows "mem_inv A B s" "dom L = live B s" "L m = Some n \<Longrightarrow> m + n \<le> nm (hdrs s) (m - 16)"
    "dm_id_valid (mpools s p) \<Longrightarrow> dom L \<inter> A p = live_of (B p) (hdrs s)"
proof -
  show I: "mem_inv A B s" "dom L = live B s" "L m = Some n \<Longrightarrow> m + n \<le> nm (hdrs s) (m - 16)"
    using assms by (auto simp: conf_ok_def)
  assume p: "dm_id_valid (mpools s p)"
  have "m \<in> live_of (B p) (hdrs s)" if "dm_id_valid (mpools s q)" "m \<in> live_of (B q) (hdrs s)" "m \<in> A p" for m q
    using that live_area(1)[OF I(1) that(1,2)] mem_invD(6)[OF I(1) p that(1)] by (cases "q = p") auto
  then show "dom L \<inter> A p = live_of (B p) (hdrs s)" using live_area(1)[OF I(1) p] p unfolding I(2) live_def by auto
qed

lemma granted_live:
  assumes "granted B h B' h' r sz"
  shows "live_of B' h' = insert (r + 16) (live_of B h)" "m \<in> live_of B h \<Longrightarrow> nm h' (m - 16) = nm h (m - 16)"
    "r + 16 + sz \<le> nm h' r"
proof -
  have g: "used B' h' = insert r (used B h)" "\<forall>a\<in>used B h. nm h' a = nm h a" "r + 16 + sz \<le> nm h' r"
    using assms by (auto simp: granted_def)
  then show "live_of B' h' = insert (r + 16) (live_of B h)" unfolding live_of_def by auto
  show "m \<in> live_of B h \<Longrightarrow> nm h' (m - 16) = nm h (m - 16)" "r + 16 + sz \<le> nm h' r"
    using g by (auto simp: live_of_iff)
qed

lemma allocate_conf:
  assumes ok: "conf_ok A B s L" and run: "NU_Allocate_Aligned_Memory p dest n al suspend s = Some (s', st, ret, leaves)"
    and al: "al \<le> 40" and sus: "suspend \<noteq> 0 \<Longrightarrow> may_suspend (dkern s)"
  shows "\<exists>B'. conf_ok A B' s' (if st = Some NU_SUCCESS then L(the ret \<mapsto> n) else L)"
proof (cases "p \<noteq> NU_NULL \<and> dm_id_valid (mpools s p) \<and> dest \<and> n \<noteq> 0 \<and> n \<le> dm_pool_size (mpools s p) - 32 \<and>
    \<not> (suspend \<noteq> 0 \<and> TCCE_Suspend_Error (dkern s))")
  case False
  then have "s' = s \<and> st \<noteq> Some NU_SUCCESS"
    using NU_Allocate_error[of s p "B p" "hdrs s" dest n suspend al] mem_invD(3)[OF confD(1)[OF ok], of p] run by fastforce
  then show ?thesis using ok by auto
next
  case True
  note I = confD[OF ok] and d = True
  let ?sz = "adjusted_request (dm_min_allocation (mpools s p)) n" and ?al = "adjusted_alignment al"
  have v: "dm_id_valid (mpools s p)" and n: "n \<noteq> 0" "n \<le> dm_pool_size (mpools s p) - 32" and dest: "dest = True"
    and su: "suspend \<noteq> 0 \<longrightarrow> \<not> TCCE_Suspend_Error (dkern s) \<and> may_suspend (dkern s)"
    using True sus by auto
  note F = NU_Allocate_facts[OF I(1) v n al su refl refl]
  note R = request_adjusted[OF mem_invD(3)[OF I(1) v] n(2) al]
  consider "fits_in p ?sz ?al B s" | "\<not> fits_in p ?sz ?al B s" "suspend = 0" | "\<not> fits_in p ?sz ?al B s" "suspend \<noteq> 0" by blast
  then show ?thesis
  proof cases
    case 1
    from F(1)[OF this] obtain t B' r pc' where r: "NU_Allocate_Aligned_Memory p True n al suspend s = Some (t, Some NU_SUCCESS, Some (r + 16), False)"
      "mem_inv A (B(p := B')) t" "granted (B p) (hdrs s) B' (hdrs t) r ?sz" "same_pool (mpools s p) pc'"
      "t = s\<lparr>mpools := (mpools s)(p := pc'), hdrs := hdrs t\<rparr>" by (elim exE conjE) (rule that)
    then have e: "s' = t" "st = Some NU_SUCCESS" "ret = Some (r + 16)" using run dest by auto
    note G = granted_live[OF r(3)]
    have "mpools t = (mpools s)(p := pc')" by (subst r(5)) simp
    then have P: "dm_id_valid (mpools t p)" "\<And>q. q \<noteq> p \<Longrightarrow> mpools t q = mpools s q"
      using same_pool_simps(3)[OF r(4)] v by simp_all
    note J = mem_invD[OF r(2) P(1), unfolded fun_upd_same]
    have h: "a \<notin> A p \<Longrightarrow> hdrs t a = hdrs s a" for a
      using r(3) blocks_in_area[OF pool_okD(1)[OF J(3)]] J(4) by (auto simp: granted_def)
    have rA: "r + 16 \<in> A p" using live_area(1)[OF r(2) P(1), of "r + 16"] G(1) by simp
    have "conf_ok A (B(p := B')) t (L(r + 16 \<mapsto> n))"
    proof (rule conf_change[OF ok r(2) P(1) _ _ h])
      show "dom (L(r + 16 \<mapsto> n)) \<inter> A p = live_of B' (hdrs t)" using I(4)[OF v] G(1) rA by auto
      fix m k assume m: "m \<in> A p" "(L(r + 16 \<mapsto> n)) m = Some k"
      show "m + k \<le> nm (hdrs t) (m - 16)"
      proof (cases "m = r + 16")
        case False
        then have "m \<in> live_of (B p) (hdrs s)" "L m = Some k" using m I(4)[OF v] by auto
        then show ?thesis using I(3) G(2) by simp
      qed (use m G(3) R(2) in simp)
    qed (use P(2) rA in auto)
    then show ?thesis by (auto simp: e)
  next
    case 2
    then show ?thesis using F(2) run dest ok by auto
  next
    case 3
    let ?t = "current_task (dkern s)"
    let ?s = "(enlist_memory_caller p ?t ?sz ?al s)
      \<lparr>dkern := fst (TCC_Suspend_Task ?t NU_MEMORY_SUSPEND (Some ?t) suspend (dkern s))\<rparr>"
    from F(3)[OF 3 refl] have e: "s' = ?s" "st = None" using run dest by auto
    have "mem_inv A B ?s" "hdrs ?s = hdrs s" using suspend_memory_caller[OF I(1) v _ refl R(1) refl] 3 sus by auto
    moreover have "dm_id_valid (mpools ?s q) = dm_id_valid (mpools s q)" for q by (simp add: enlist_memory_caller_def Let_def)
    ultimately have "conf_ok A B ?s L" by (intro conf_same[OF ok]) auto
    then show ?thesis by (auto simp: e)
  qed
qed

lemma handed_SomeD:
  assumes "handed ts s s' m = Some n"
  shows "\<exists>t\<in>set ts. m = dm_return_pointer (dblocks s' t) \<and> n = dm_request_size (dblocks s t)"
  using map_of_SomeD[OF assms[unfolded handed_def]] by auto

lemma dom_handed: "dom (handed ts s s') = (\<lambda>t. dm_return_pointer (dblocks s' t)) ` set ts"
  by (simp add: handed_def dom_map_of_conv_image_fst image_image)

lemma served_live:
  assumes sv: "served p B s B' s' ts"
  shows "live_of B' (hdrs s') = live_of (B p) (hdrs s) \<union> (\<lambda>t. dm_return_pointer (dblocks s' t)) ` set ts"
    "m \<in> live_of (B p) (hdrs s) \<Longrightarrow> nm (hdrs s') (m - 16) = nm (hdrs s) (m - 16)"
    "t \<in> set ts \<Longrightarrow> dm_return_pointer (dblocks s' t) + dm_request_size (dblocks s t) \<le>
       nm (hdrs s') (dm_return_pointer (dblocks s' t) - 16)"
proof -
  note V = sv[unfolded served_def]
  have u: "used B' (hdrs s') = used (B p) (hdrs s) \<union> given s' ` set ts" using V by blast
  have n: "a \<in> used (B p) (hdrs s) \<Longrightarrow> nm (hdrs s') a = nm (hdrs s) a" for a using V by blast
  have g: "dm_return_pointer (dblocks s' t) = given s' t + 16" "given s' t + 16 + dm_request_size (dblocks s t) \<le> nm (hdrs s') (given s' t)"
    if "t \<in> set ts" for t using V that by auto
  show "live_of B' (hdrs s') = live_of (B p) (hdrs s) \<union> (\<lambda>t. dm_return_pointer (dblocks s' t)) ` set ts" (is "?l = ?r")
  proof (intro set_eqI iffI)
    fix m assume "m \<in> ?l"
    then obtain x where x: "m = x + 16" "x \<in> used B' (hdrs s')" "x < nm (hdrs s') x" by (auto simp: live_of_def)
    then show "m \<in> ?r" using u n[of x] g(1) by (auto simp: live_of_def)
  next
    fix m assume "m \<in> ?r"
    then consider "m \<in> live_of (B p) (hdrs s)" | t where "t \<in> set ts" "m = given s' t + 16" using g(1) by auto
    then show "m \<in> ?l"
    proof cases
      case 1
      then show ?thesis using u n[of "m - 16"] by (simp add: live_of_iff)
    next
      case 2
      then show ?thesis using u g(2)[of t] by (simp add: live_of_iff)
    qed
  qed
  show "m \<in> live_of (B p) (hdrs s) \<Longrightarrow> nm (hdrs s') (m - 16) = nm (hdrs s) (m - 16)" using n by (simp add: live_of_iff)
  show "t \<in> set ts \<Longrightarrow> dm_return_pointer (dblocks s' t) + dm_request_size (dblocks s t) \<le>
       nm (hdrs s') (dm_return_pointer (dblocks s' t) - 16)" using g[of t] by simp
qed

lemma returned_live:
  assumes "returned B h B' h' x"
  shows "live_of B' h' = live_of B h - {x + 16}" "m \<in> live_of B h \<Longrightarrow> m \<noteq> x + 16 \<Longrightarrow> nm h' (m - 16) = nm h (m - 16)"
proof -
  have r: "used B' h' = used B h - {x}" "\<forall>a\<in>used B h - {x}. nm h' a = nm h a" using assms by (auto simp: returned_def)
  then show "live_of B' h' = live_of B h - {x + 16}" unfolding live_of_def by auto
  assume m: "m \<in> live_of B h" "m \<noteq> x + 16"
  then have "m - 16 \<in> used B h - {x}" by (auto simp: live_of_iff)
  then show "nm h' (m - 16) = nm h (m - 16)" using r(2) by blast
qed

lemma live_pool:
  assumes "conf_ok A B s L" "L m \<noteq> None" "p = dm_memory_pool (hdrs s (m - 16))"
  shows "dm_id_valid (mpools s p)" "m \<in> live_of (B p) (hdrs s)"
proof -
  have "m \<in> live B s" using confD(2)[OF assms(1)] assms(2) by auto
  then obtain q where q: "dm_id_valid (mpools s q)" "m \<in> live_of (B q) (hdrs s)" by (auto simp: live_def)
  then have "m - 16 \<in> B q" by (auto simp: live_of_iff used_def)
  then have "q = p" using tilesD(5)[OF pool_okD(1)[OF mem_invD(3)[OF confD(1)[OF assms(1)] q(1)]]] assms(3) by simp
  then show "dm_id_valid (mpools s p)" "m \<in> live_of (B p) (hdrs s)" using q by auto
qed

lemma deallocate_conf:
  assumes ok: "conf_ok A B s L" and m: "L m \<noteq> None" and p: "p = dm_memory_pool (hdrs s (m - 16))"
  shows "\<exists>s' preempt B'. NU_Deallocate_Memory m s = Some (s', NU_SUCCESS, preempt) \<and>
    conf_ok A B' s' (L(m := None) ++ handed (left p s s') s s')"
proof -
  note I = confD[OF ok] and v = live_pool(1)[OF ok m p] and M = live_pool(2)[OF ok m p]
  let ?L = "dm_suspension_list (mpools s p)"
  have x: "m - 16 \<in> used (B p) (hdrs s)" "m - 16 < nm (hdrs s) (m - 16)" "m - 16 + 16 = m" using M by (auto simp: live_of_iff)
  obtain s1 B1 s' pre B' k pc1 where d: "NU_Deallocate_Memory m s = Some (s', NU_SUCCESS, pre)"
    "returned (B p) (hdrs s) B1 (hdrs s1) (m - 16)" "s1 = s\<lparr>mpools := (mpools s)(p := pc1), hdrs := hdrs s1\<rparr>"
    "k \<le> length ?L" "mem_inv A (B(p := B')) s'" "dm_id_valid (mpools s' p)" "dm_suspension_list (mpools s' p) = drop k ?L"
    "served p (B(p := B1)) s1 B' s' (take k ?L)" "\<forall>q. q \<noteq> p \<longrightarrow> mpools s' q = mpools s q" "\<forall>a. a \<notin> A p \<longrightarrow> hdrs s' a = hdrs s a"
    using NU_Deallocate_facts[OF I(1) v x(1,2), unfolded x(3)] by (elim exE conjE) (rule that)
  note R = returned_live[OF d(2), unfolded x(3)] and S = served_live[OF d(8), unfolded fun_upd_same]
  have b1: "dblocks s1 = dblocks s" by (subst d(3)) simp
  have lf: "left p s s' = take k ?L" using d(4,7) by (simp add: left_def)
  let ?h = "handed (take k ?L) s s'" and ?ptr = "\<lambda>t. dm_return_pointer (dblocks s' t)"
  have lv: "live_of B' (hdrs s') = (live_of (B p) (hdrs s) - {m}) \<union> ?ptr ` set (take k ?L)" using R(1) S(1) by simp
  have sub: "live_of B' (hdrs s') \<subseteq> A p" using live_area(1)[OF d(5,6)] by auto
  have ptr: "?ptr t \<in> A p" if "t \<in> set (take k ?L)" for t using that lv sub by auto
  have mA: "m \<in> A p" using live_area(1)[OF I(1) v M] .
  have "conf_ok A (B(p := B')) s' (L(m := None) ++ ?h)"
  proof (rule conf_change[OF ok d(5,6)])
    show "dom (L(m := None) ++ ?h) \<inter> A p = live_of B' (hdrs s')"
      unfolding lv dom_map_add dom_handed using I(4)[OF v] ptr by auto
    show "(L(m := None) ++ ?h) a = L a" if "a \<notin> A p" for a
    proof -
      have "a \<notin> dom ?h" "a \<noteq> m" using that ptr mA unfolding dom_handed by auto
      then show ?thesis by (simp add: map_add_dom_app_simps)
    qed
    fix a n assume a: "a \<in> A p" "(L(m := None) ++ ?h) a = Some n"
    show "a + n \<le> nm (hdrs s') (a - 16)"
    proof (cases "?h a")
      case None
      then have La: "L a = Some n" "a \<noteq> m" using a(2) by (auto simp: map_add_def split: if_splits)
      then have l: "a \<in> live_of (B p) (hdrs s)" using a(1) I(4)[OF v] by auto
      then have "nm (hdrs s') (a - 16) = nm (hdrs s) (a - 16)" using R S(2)[of a] La(2) by simp
      then show ?thesis using I(3) La(1) by simp
    next
      case (Some k')
      then have "?h a = Some n" using a(2) by (simp add: map_add_def)
      from handed_SomeD[OF this] show ?thesis using S(3) unfolding b1 by auto
    qed
  qed (use d(9,10) in auto)
  then show ?thesis using d(1) lf by auto
qed

text \<open>Stores to memory that is held change nothing the allocator reads.\<close>

lemma held_block:
  assumes ok: "conf_ok A B s L" and p: "dm_id_valid (mpools s p)" and a: "a \<in> B p"
  shows "{a..<a + 16} \<inter> held L = {}" "fr (hdrs s) a \<Longrightarrow> {a + 16..<a + 24} \<inter> held L = {}"
proof -
  note I = confD[OF ok] and J = mem_invD[OF confD(1)[OF ok] p]
  note D = pool_okD[OF J(3)]
  have ext: "x + 16 \<le> blk_end (hdrs s) x" if "x \<in> B p" for x using tilesD(9)[OF D(1) that] by (auto simp: blk_end_def)
  have out: "b \<notin> {m..<m + n}" if m: "L m = Some n" and b: "b \<in> {a..<blk_end (hdrs s) a}" "b < a + 16 \<or> fr (hdrs s) a" for m n b
  proof -
    obtain q where q: "dm_id_valid (mpools s q)" "m \<in> live_of (B q) (hdrs s)" using I(2) m by (auto simp: live_def)
    have le: "m + n \<le> nm (hdrs s) (m - 16)" by (rule I(3)[OF m])
    have m16: "16 \<le> m" "m - 16 \<in> B q" "\<not> fr (hdrs s) (m - 16)" using q(2) by (auto simp: live_of_iff used_def)
    show ?thesis
    proof (cases "q = p")
      case False
      have "b \<in> A p" using b(1) a J(4) by (auto simp: area_def)
      then have "b \<notin> A q" using J(6)[OF q(1)] False by auto
      moreover have "{m..<m + n} \<subseteq> {m - 16..<nm (hdrs s) (m - 16)}" using le by auto
      ultimately show ?thesis using live_area(3)[OF I(1) q] by blast
    next
      case True
      show ?thesis
      proof (cases "a = m - 16")
        case False
        then show ?thesis using live_of_disjoint[OF D(1), of m a] q(2) a b(1) le True by auto
      qed (use b(2) m16 in auto)
    qed
  qed
  show "{a..<a + 16} \<inter> held L = {}" using out ext[OF a] unfolding held_def by fastforce
  assume f: "fr (hdrs s) a"
  then have "a + 24 \<le> blk_end (hdrs s) a" using tilesD(9,10)[OF D(1) a] D(5) by (auto simp: blk_end_def)
  then show "{a + 16..<a + 24} \<inter> held L = {}" using out f unfolding held_def by fastforce
qed

lemma store_conf:
  assumes ok: "conf_ok A B s L" and st: "stores_in (held L) (hdrs s) h"
  shows "conf_ok A B (s\<lparr>hdrs := h, dbytes := b\<rparr>) L"
proof -
  note I = confD[OF ok]
  have keep: "nm h a = nm (hdrs s) a \<and> pm h a = pm (hdrs s) a \<and> fr h a = fr (hdrs s) a \<and>
      dm_memory_pool (h a) = dm_memory_pool (hdrs s a)" "fr (hdrs s) a \<Longrightarrow> nf h a = nf (hdrs s) a \<and> pf h a = pf (hdrs s) a"
    if "dm_id_valid (mpools s p)" "a \<in> B p" for p a
  proof -
    note S = st[unfolded stores_in_def, rule_format, of a]
    have "{a..<a + 4} \<subseteq> {a..<a + 16}" "{a + 4..<a + 8} \<subseteq> {a..<a + 16}" "{a + 8..<a + 12} \<subseteq> {a..<a + 16}"
      "{a + 12..<a + 16} \<subseteq> {a..<a + 16}" by auto
    then show "nm h a = nm (hdrs s) a \<and> pm h a = pm (hdrs s) a \<and> fr h a = fr (hdrs s) a \<and>
      dm_memory_pool (h a) = dm_memory_pool (hdrs s a)" using S held_block(1)[OF ok that] by blast
    have "{a + 16..<a + 20} \<subseteq> {a + 16..<a + 24}" "{a + 20..<a + 24} \<subseteq> {a + 16..<a + 24}" by auto
    then show "nf h a = nf (hdrs s) a \<and> pf h a = pf (hdrs s) a" if "fr (hdrs s) a"
      using S held_block(2)[OF ok \<open>dm_id_valid (mpools s p)\<close> \<open>a \<in> B p\<close> that] by blast
  qed
  let ?s = "s\<lparr>hdrs := h, dbytes := b\<rparr>"
  have pool: "pool_ok p (B p) (mpools s p) h" "area (B p) h = area (B p) (hdrs s)" "used (B p) h = used (B p) (hdrs s)"
    if "dm_id_valid (mpools s p)" for p
    by (rule pool_ok_same[OF mem_invD(3)[OF I(1) that]]; use keep[OF that] in \<open>auto simp: frees_def\<close>)+
  have lv: "live_of (B p) h = live_of (B p) (hdrs s)" "m \<in> live_of (B p) (hdrs s) \<Longrightarrow> nm h (m - 16) = nm (hdrs s) (m - 16)"
    if "dm_id_valid (mpools s p)" for p m
    using pool(3)[OF that] keep(1)[OF that] by (auto simp: live_of_iff used_def)
  have "waiters_ok p ?s" if "dm_id_valid (mpools s p)" for p by (rule waiters_frame[OF mem_invD(5)[OF I(1) that]]) auto
  then have "mem_inv A B ?s" using I(1) pool unfolding mem_inv_def by simp
  moreover have "live B ?s = live B s" using lv(1) by (simp add: live_def)
  moreover have "m + n \<le> nm h (m - 16)" if "L m = Some n" for m n
  proof -
    have "m \<in> live B s" using I(2) that by auto
    then obtain p where "dm_id_valid (mpools s p)" "m \<in> live_of (B p) (hdrs s)" by (auto simp: live_def)
    then show ?thesis using lv(2) I(3)[OF that] by simp
  qed
  ultimately show ?thesis using I(2) by (simp add: conf_ok_def)
qed

lemma create_conf:
  assumes ok: "conf_ok A B s L" and run: "NU_Create_Memory_Pool p x n mn fifo s = (s', NU_SUCCESS)"
    and sz: "n \<le> 1073741824" "mn \<le> 1073741824" and M: "M = {x..<x + DM_ADJUSTED_SIZE n}" "x + DM_ADJUSTED_SIZE n \<le> memory_top"
    and dis: "\<And>q. dm_id_valid (mpools s q) \<Longrightarrow> M \<inter> A q = {}"
  shows "\<exists>B'. conf_ok (A(p := M)) B' s' L"
proof -
  note I = confD[OF ok]
  note F = NU_Create_Memory_Pool_facts[OF I(1) run sz refl M(2) dis[unfolded M(1)] refl, folded M(1)]
  let ?e = "x + DM_ADJUSTED_SIZE n - 16"
  have "32 \<le> DM_ADJUSTED_SIZE n" using pool_okD(7)[OF mem_invD(3)[OF F(1,3)]] F(9) by simp
  then have nl: "live_of {x, ?e} (hdrs s') = {}" using F(5,6) by (auto simp: live_of_def)
  have LM: "dom L \<inter> M = {}"
    using live_area(1)[OF I(1)] dis unfolding I(2) live_def by blast
  have "conf_ok (A(p := M)) (B(p := {x, ?e})) s' L"
    by (rule conf_change[OF ok F(1,3)]) (use F(2,7,8) LM nl in auto)
  then show ?thesis by blast
qed

lemma add_conf:
  assumes ok: "conf_ok A B s L" and run: "NU_Add_Memory p x n s = (s', NU_SUCCESS)"
    and sz: "n \<le> 1073741824" "dm_pool_size (mpools s p) + DM_ADJUSTED_SIZE n \<le> 1073741824"
    and M: "M = {x..<x + DM_ADJUSTED_SIZE n}" "x + DM_ADJUSTED_SIZE n \<le> memory_top"
    and dis: "\<And>q. dm_id_valid (mpools s q) \<Longrightarrow> M \<inter> A q = {}"
  shows "\<exists>B'. conf_ok (A(p := M \<union> A p)) B' s' L"
proof -
  note I = confD[OF ok]
  let ?e = "x + DM_ADJUSTED_SIZE n - 16"
  let ?B = "insert x (insert ?e (B p))"
  note F = NU_Add_Memory_facts[OF I(1) run sz(1) refl M(2) sz(2) dis[unfolded M(1)] refl refl, folded M(1)]
  have "dm_min_allocation (mpools s p) + 32 \<le> DM_ADJUSTED_SIZE n"
    using run pool_okD(7,9)[OF mem_invD(3)[OF I(1) F(2)]]
    by (auto simp: NU_Add_Memory_def Let_def DM_OVERHEAD_def add32_eq split: if_splits)
  then have e: "\<not> ?e < x" by simp
  have u: "a \<in> used (B p) (hdrs s) \<Longrightarrow> nm (hdrs s') a = nm (hdrs s) a" for a using F(6) by (simp add: used_def)
  have lv: "live_of ?B (hdrs s') = live_of (B p) (hdrs s)" using F(4,5) e u by (auto simp: live_of_def)
  have LM: "dom L \<inter> M = {}"
    using live_area(1)[OF I(1)] dis unfolding I(2) live_def by blast
  have "conf_ok (A(p := M \<union> A p)) (B(p := ?B)) s' L"
  proof (rule conf_change[OF ok F(1,3)])
    show "dom L \<inter> (A(p := M \<union> A p)) p = live_of ?B (hdrs s')" using LM I(4)[OF F(2)] lv by auto
    fix m k assume "m \<in> (A(p := M \<union> A p)) p" and Lm: "L m = Some k"
    then have "m \<in> live_of (B p) (hdrs s)" using LM I(4)[OF F(2)] by auto
    then show "m + k \<le> nm (hdrs s') (m - 16)" using I(3)[OF Lm] u by (simp add: live_of_iff)
  qed (use F(7,8) in auto)
  then show ?thesis by blast
qed

lemma delete_conf:
  assumes ok: "conf_ok A B s L" and run: "NU_Delete_Memory_Pool p s = (s', NU_SUCCESS, preempt)"
  shows "conf_ok A B s' (L |` (- A p))"
proof -
  note I = confD[OF ok]
  have p: "p \<noteq> NU_NULL" "dm_id_valid (mpools s p)" using run by (auto simp: NU_Delete_Memory_Pool_def Let_def split: if_splits)
  have F: "mem_inv A B s'" "hdrs s' = hdrs s" "mpools s' = (mpools s)(p := (mpools s p)\<lparr>dm_id_valid := False\<rparr>)"
    using NU_Delete_Memory_Pool_facts[OF I(1) p refl] run by auto
  have "m \<in> live B s' \<longleftrightarrow> m \<in> live B s \<and> m \<notin> A p" for m
  proof -
    have "m \<notin> A p" if "dm_id_valid (mpools s q)" "m \<in> live_of (B q) (hdrs s)" "q \<noteq> p" for q
      using live_area(1)[OF I(1) that(1,2)] mem_invD(6)[OF I(1) p(2) that(1)] that(3) by auto
    moreover have "m \<in> A p" if "m \<in> live_of (B p) (hdrs s)" using live_area(1)[OF I(1) p(2) that] .
    moreover have "m \<in> live B s' \<longleftrightarrow> (\<exists>q. q \<noteq> p \<and> dm_id_valid (mpools s q) \<and> m \<in> live_of (B q) (hdrs s))"
      "m \<in> live B s \<longleftrightarrow> (\<exists>q. dm_id_valid (mpools s q) \<and> m \<in> live_of (B q) (hdrs s))"
      by (auto simp: live_def F(2,3))
    ultimately show ?thesis by metis
  qed
  then have "dom (L |` (- A p)) = live B s'" using I(2) by auto
  then show ?thesis using F(1) I(3) by (auto simp: conf_ok_def F(2) restrict_map_def split: if_splits)
qed

fun conf_inv :: "mconf \<Rightarrow> bool" where
  "conf_inv (s, A, L) \<longleftrightarrow> (\<exists>B. conf_ok A B s L)"

lemma mstep_inv:
  assumes "mstep c c'" "conf_inv c"
  shows "conf_inv c'"
  using assms
proof (induction rule: mstep.induct)
  case create
  then show ?case by (metis conf_inv.simps create_conf)
next
  case add
  then show ?case by (metis conf_inv.simps add_conf)
next
  case (allocate p dest n al suspend s s' st ret leaves A L)
  then obtain B where "conf_ok A B s L" by auto
  from allocate_conf[OF this allocate(1,2)] allocate(3) show ?case by simp
next
  case (deallocate L m s s' st preempt p A)
  then obtain B where "conf_ok A B s L" by auto
  from deallocate_conf[OF this deallocate(1,3)] deallocate(2) show ?case by auto
next
  case (time_out s t A L)
  then obtain B p where ok: "conf_ok A B s L" and p: "dm_id_valid (mpools s p)" "t \<in> set (dm_suspension_list (mpools s p))"
    by (auto simp: waiting_for_memory_def)
  note F = memory_timeout_facts[OF confD(1)[OF ok] p refl]
  have "conf_ok A B (memory_timeout t s) L" by (rule conf_same[OF ok F])
  then show ?case by auto
next
  case delete
  then show ?case by (metis conf_inv.simps delete_conf)
next
  case (kernel k s A L)
  then obtain B where ok: "conf_ok A B s L" by auto
  have "conf_ok A B (s\<lparr>dkern := k\<rparr>) L"
    by (rule conf_same[OF ok kernel_step_mem_inv[OF confD(1)[OF ok] kernel(1)]]) (use kernel(2) in auto)
  then show ?case by auto
next
  case store
  then show ?case by (metis conf_inv.simps store_conf)
qed

lemma msteps_inv: "mstep\<^sup>*\<^sup>* c c' \<Longrightarrow> conf_inv c \<Longrightarrow> conf_inv c'"
  by (induction rule: rtranclp_induct) (auto intro: mstep_inv)

lemma conf_start:
  assumes "sched_inv (dkern s)" "\<forall>p. \<not> dm_id_valid (mpools s p)"
  shows "conf_inv (s, A, Map.empty)"
  using assms by (auto simp: conf_ok_def mem_inv_def live_def)

end
