(* ===== verification/Memory_Properties.thy ===== *)
theory Memory_Properties
  imports Memory_Safety
begin

text \<open>The properties of the memory pools, with the layout of a pool as a function of its blocks in use.\<close>

section \<open>The layout is determined by the blocks in use\<close>

text \<open>A free block follows a block in use, and its end is the next block behind it.\<close>

lemma layout_unique:
  assumes ok: "pool_ok p B pc h" "pool_ok p B' pc' h'" and u: "used B' h' = used B h" "\<And>a. a \<in> used B h \<Longrightarrow> nm h' a = nm h a"
  shows "B' = B" "frees B' h' = frees B h" "a \<in> B \<Longrightarrow> nm h' a = nm h a" "dm_available pc' = dm_available pc"
proof -
  have after: "\<exists>a\<in>used C g. nm g a = x" if "pool_ok p C c g" "x \<in> frees C g" for C c g x
  proof -
    note D = pool_okD[OF that(1)]
    have x: "x \<in> C" "fr g x" using that(2) by (auto simp: frees_def)
    have "pm g x \<in> C" "nm g (pm g x) = x" using tilesD(2,4)[OF D(1) x(1)] .
    then show ?thesis using D(4)[of "pm g x"] x(2) by (auto simp: frees_def used_def)
  qed
  note D = pool_okD[OF ok(1)] and D' = pool_okD[OF ok(2)]
  have sub: "frees B h \<subseteq> frees B' h'"
  proof
    fix x assume x: "x \<in> frees B h"
    then obtain a where "a \<in> used B h" "nm h a = x" using after[OF ok(1)] by blast
    then have "x \<in> B'" using u tilesD(1)[OF D'(1), of a] by (auto simp: used_def)
    moreover have "x \<notin> used B h" using x by (simp add: frees_def used_def)
    ultimately show "x \<in> frees B' h'" unfolding u(1)[symmetric] by (auto simp: frees_def used_def)
  qed
  have sub': "frees B' h' \<subseteq> frees B h"
  proof
    fix x assume x: "x \<in> frees B' h'"
    then obtain a where "a \<in> used B h" "nm h a = x" using after[OF ok(2)] u by (metis)
    then have "x \<in> B" using tilesD(1)[OF D(1), of a] by (auto simp: used_def)
    moreover have "x \<notin> used B' h'" using x by (simp add: frees_def used_def)
    ultimately show "x \<in> frees B h" unfolding u(1) by (auto simp: frees_def used_def)
  qed
  show F: "frees B' h' = frees B h" using sub sub' by blast
  have "C = used C g \<union> frees C g" for C g by (auto simp: used_def frees_def)
  then show B: "B' = B" using F u(1) by metis
  show nx: "nm h' a = nm h a" if a: "a \<in> B" for a
  proof (cases "a \<in> used B h")
    case False
    then have f: "a \<in> frees B h" "a \<in> frees B' h'" using a F by (auto simp: used_def frees_def)
    have lt: "a < nm h a" "a < nm h' a" using frees_lt[OF D(1) f(1)] frees_lt[OF D'(1) f(2)] .
    have "nm h a \<in> B" "nm h' a \<in> B" using tilesD(1)[OF D(1) a] tilesD(1)[OF D'(1), of a] a B by auto
    then have "\<not> nm h' a < nm h a" "\<not> nm h a < nm h' a"
      using tilesD(8)[OF D(1) a, of "nm h' a"] tilesD(8)[OF D'(1), of a "nm h a"] a B lt by (auto simp: blk_end_def)
    then show ?thesis by simp
  qed (rule u(2))
  have "avail B' h' = avail B h" unfolding avail_def F by (rule sum.cong) (use nx in \<open>auto simp: room_def frees_def\<close>)
  then show "dm_available pc' = dm_available pc" using D(3) D'(3) by simp
qed

text \<open>Different pointers held never overlap, with the headers in front of them.\<close>

lemma held_disjoint:
  assumes ok: "conf_ok A B s L" and L: "L m = Some n" and L': "L m' = Some n'" "m' \<noteq> m"
  shows "{m - 16..<m + n} \<inter> {m' - 16..<m' + n'} = {}"
proof -
  note I = confD[OF ok]
  define p q where "p = dm_memory_pool (hdrs s (m - 16))" and "q = dm_memory_pool (hdrs s (m' - 16))"
  have m: "dm_id_valid (mpools s p)" "m \<in> live_of (B p) (hdrs s)" using live_pool[OF ok _ p_def] L by auto
  have q: "dm_id_valid (mpools s q)" "m' \<in> live_of (B q) (hdrs s)" using live_pool[OF ok _ q_def] L' by auto
  have blk: "{x - 16..<x + k} \<subseteq> {x - 16..<nm (hdrs s) (x - 16)}" if "L x = Some k" for x k using I(3)[OF that] by auto
  have in_p: "{m - 16..<m + n} \<subseteq> A p" using live_area(3)[OF I(1) m] blk[OF L] by blast
  have in_q: "{m' - 16..<m' + n'} \<subseteq> A q" using live_area(3)[OF I(1) q] blk[OF L'(1)] by blast
  show ?thesis
  proof (cases "q = p")
    case False
    then show ?thesis using mem_invD(6)[OF I(1) m(1) q(1)] in_p in_q by blast
  next
    case True
    have "m' - 16 \<in> B p" "m' - 16 \<noteq> m - 16" "blk_end (hdrs s) (m' - 16) = nm (hdrs s) (m' - 16)"
      using q(2) L'(2) m(2) True by (auto simp: live_of_iff used_def blk_end_def)
    then have "{m - 16..<nm (hdrs s) (m - 16)} \<inter> {m' - 16..<nm (hdrs s) (m' - 16)} = {}"
      using live_of_disjoint[OF pool_okD(1)[OF mem_invD(3)[OF I(1) m(1)]] m(2), of "m' - 16"] by simp
    then show ?thesis using blk[OF L] blk[OF L'(1)] by blast
  qed
qed

section \<open>Properties\<close>

text \<open>
  C21. Memory safety. Whatever services of the memory pools, time-outs, other kernel activities and stores of the application
  to memory it holds follow one another from a state without pools (pools of at most 1 GB below the last 128
  bytes of the address space, alignments of at most 40): the bytes an application holds, together with the header in
  front of them, lie inside the memory of the pool named in the header, and they are disjoint from those of every
  other pointer held.
\<close>

theorem memory_safety:
  assumes "sched_inv (dkern s0)" and "\<forall>p. \<not> dm_id_valid (mpools s0 p)" and "mstep\<^sup>*\<^sup>* (s0, A0, Map.empty) (s, A, L)"
    and "L m = Some n" and "p = dm_memory_pool (hdrs s (m - 16))"
  shows "dm_id_valid (mpools s p) \<and> {m - 16..<m + n} \<subseteq> A p \<and> \<not> dm_memory_free (hdrs s (m - 16)) \<and>
    (\<forall>m' n'. L m' = Some n' \<and> m' \<noteq> m \<longrightarrow> {m - 16..<m + n} \<inter> {m' - 16..<m' + n'} = {})"
proof -
  have "conf_inv (s, A, L)" by (rule msteps_inv[OF assms(3) conf_start[OF assms(1,2)]])
  then obtain B where ok: "conf_ok A B s L" by auto
  note I = confD[OF ok]
  have m: "dm_id_valid (mpools s p)" "m \<in> live_of (B p) (hdrs s)" using live_pool[OF ok _ assms(5)] assms(4) by auto
  have in_p: "{m - 16..<m + n} \<subseteq> A p" using live_area(3)[OF I(1) m] I(3)[OF assms(4)] by fastforce
  have "{m - 16..<m + n} \<inter> {m' - 16..<m' + n'} = {}" if "L m' = Some n'" "m' \<noteq> m" for m' n'
    by (rule held_disjoint[OF ok assms(4) that])
  then show ?thesis using m in_p by (auto simp: live_of_iff used_def)
qed

text \<open>
  C22. The control block of every pool is well formed in the states reached, from one without pools, by the services of the
  memory pools (pools of at most 1 GB below the last 128 bytes of the address space, alignments of at most 40),
  time-outs, stores of the application to memory it holds, and other changes of the kernel that leave the control blocks of the
  tasks waiting for memory as they are (no signal is sent to such a task, which would be ready while on the list, and it is
  not resumed, terminated or suspended otherwise): its size is the number of bytes it was given, the available bytes do
  not exceed it, the list of free blocks is null exactly when nothing is available and otherwise points to a free, aligned
  block header of this pool, and the counter of waiting tasks is the length of the list of tasks modulo \<open>2^32\<close>, all of which
  are suspended for memory.
\<close>

theorem memory_pool_well_formed:
  assumes "sched_inv (dkern s0)" and "\<forall>p. \<not> dm_id_valid (mpools s0 p)" and "mstep\<^sup>*\<^sup>* (s0, A0, Map.empty) (s, A, L)"
    and "dm_id_valid (mpools s p)" and "pc = mpools s p" and "x = dm_memory_list pc"
  shows "dm_pool_size pc = card (A p) \<and> dm_available pc \<le> dm_pool_size pc \<and> dm_pool_size pc \<le> 1073741824 \<and>
    (x = NU_NULL \<longleftrightarrow> dm_available pc = 0) \<and>
    (x \<noteq> NU_NULL \<longrightarrow> x \<in> A p \<and> x mod 4 = 0 \<and> x < 4294967296 \<and> dm_memory_free (hdrs s x) \<and> dm_memory_pool (hdrs s x) = p) \<and>
    dm_tasks_waiting pc = length (dm_suspension_list pc) mod 4294967296 \<and> distinct (dm_suspension_list pc) \<and>
    (\<forall>t \<in> set (dm_suspension_list pc). waits_for t NU_MEMORY_SUSPEND (dkern s))"
proof -
  have "conf_inv (s, A, L)" by (rule msteps_inv[OF assms(3) conf_start[OF assms(1,2)]])
  then obtain B where "conf_ok A B s L" by auto
  note I = mem_invD[OF confD(1)[OF this] assms(4), folded assms(5)] and W = waitersD[where p = p and s = s, folded assms(5)]
  note D = pool_okD[OF I(3)]
  have av: "avail (B p) (hdrs s) + 16 * card (frees (B p) (hdrs s)) \<le> card (area (B p) (hdrs s))" by (rule avail_le(1)[OF D(1)])
  have hd: "x = NU_NULL \<longleftrightarrow> frees (B p) (hdrs s) = {}" "x \<noteq> NU_NULL \<Longrightarrow> x \<in> frees (B p) (hdrs s)"
    using free_ring_head[OF D(2)] assms(6) by auto
  have blk: "x \<in> B p \<and> fr (hdrs s) x \<and> x < nm (hdrs s) x" if "x \<noteq> NU_NULL"
    using hd(2)[OF that] frees_lt[OF D(1)] by (auto simp: frees_def)
  have "dm_available pc \<noteq> 0" if n: "x \<noteq> 0"
    using avail_le(2)[OF D(1) hd(2)[OF n]] tiles_room(2)[OF D(1), of x] blk[OF n] D(3,5) by auto
  moreover have "dm_available pc = 0" if "x = 0" using that hd(1) D(3) by (simp add: avail_def)
  ultimately have "x = 0 \<longleftrightarrow> dm_available pc = 0" by blast
  moreover have "x \<in> A p \<and> x mod 4 = 0 \<and> x < 4294967296 \<and> dm_memory_pool (hdrs s x) = p" if n: "x \<noteq> NU_NULL"
    using blk[OF n] blocks_in_area[OF D(1)] I(4) tilesD(5,6)[OF D(1), of x] tiles_room(3)[OF D(1), of x] by auto
  moreover have "distinct (dm_suspension_list pc)" "dm_tasks_waiting pc = length (dm_suspension_list pc) mod 4294967296"
    "\<forall>t \<in> set (dm_suspension_list pc). waits_for t NU_MEMORY_SUSPEND (dkern s)"
    using W[OF I(5)] by (auto simp: memory_waiter_def)
  ultimately show ?thesis using av D(3,8,9) I(4) blk by auto
qed

text \<open>
  C26. Every service returns: in a state reached this way an allocation ends with a result, whatever its size, and giving
  back a pointer that is held succeeds; afterwards the pointer is no longer held unless a waiting task has got it.
\<close>

theorem memory_services_return:
  assumes "sched_inv (dkern s0)" and "\<forall>p. \<not> dm_id_valid (mpools s0 p)" and "mstep\<^sup>*\<^sup>* (s0, A0, Map.empty) (s, A, L)"
    and "L m \<noteq> None" and "al \<le> 40" and "suspend \<noteq> 0 \<longrightarrow> may_suspend (dkern s)"
  shows "(\<exists>s' preempt. NU_Deallocate_Memory m s = Some (s', NU_SUCCESS, preempt) \<and>
      conf_inv (s', A, L(m := None) ++ handed (left (dm_memory_pool (hdrs s (m - 16))) s s') s s')) \<and>
    NU_Allocate_Aligned_Memory p dest n al suspend s \<noteq> None"
proof -
  have "conf_inv (s, A, L)" by (rule msteps_inv[OF assms(3) conf_start[OF assms(1,2)]])
  then obtain B where ok: "conf_ok A B s L" by auto
  note I = confD[OF ok]
  have "NU_Allocate_Aligned_Memory p dest n al suspend s \<noteq> None"
  proof (cases "p \<noteq> NU_NULL \<and> dm_id_valid (mpools s p) \<and> dest \<and> n \<noteq> 0 \<and> n \<le> dm_pool_size (mpools s p) - 32 \<and>
      \<not> (suspend \<noteq> 0 \<and> TCCE_Suspend_Error (dkern s))")
    case False
    then show ?thesis using NU_Allocate_error[of s p "B p" "hdrs s" dest n suspend al] mem_invD(3)[OF I(1), of p] by force
  next
    case True
    then have v: "dm_id_valid (mpools s p)" and n: "n \<noteq> 0" "n \<le> dm_pool_size (mpools s p) - 32" and d: "dest = True"
      and su: "suspend \<noteq> 0 \<longrightarrow> \<not> TCCE_Suspend_Error (dkern s) \<and> may_suspend (dkern s)" using assms(6) by auto
    note F = NU_Allocate_facts[OF I(1) v n assms(5) su refl refl]
    show ?thesis using F(1) F(2) F(3)[OF _ _ refl] unfolding d by (metis not_None_eq)
  qed
  then show ?thesis using deallocate_conf[OF ok assms(4) refl] by auto
qed

text \<open>
  C23. The effect of an allocation of a valid size with an alignment of at most 40 (greater ones can be served outside the
  pool, see \<open>aligned_allocation_outside_pool\<close>), in a state with the invariant of the pools (\<open>mem_inv\<close>, by which waiting
  requests have such alignments, too), by a caller that may suspend if it asks for it. With \<open>sz\<close> and \<open>al\<close> the size and
  alignment rounded up by the service, and a free block in which they fit, it returns the address of \<open>sz\<close> bytes at a
  multiple of \<open>al\<close>, now a block of their own; other blocks in use stay where they are. They fit when \<open>sz\<close> bytes
  lie behind the first multiple of \<open>al\<close> in the block, where one behind the beginning counts only with room before it for a
  free block of its own (two headers and the least size of the pool; a block that has the aligned bytes without that room
  is refused). Otherwise it fails with \<open>NU_NO_MEMORY\<close> and changes nothing, or suspends the caller in the list of the pool.
\<close>

theorem NU_Allocate_Aligned_Memory_effect:
  assumes "mem_inv A B s" "dm_id_valid (mpools s p)" and "sz0 \<noteq> 0" "sz0 \<le> dm_pool_size (mpools s p) - 32" "al0 \<le> 40"
    and "suspend \<noteq> 0 \<longrightarrow> \<not> TCCE_Suspend_Error (dkern s) \<and> may_suspend (dkern s)"
    and "sz = adjusted_request (dm_min_allocation (mpools s p)) sz0" "al = adjusted_alignment al0" "t = current_task (dkern s)"
  shows "if fits_in p sz al B s
    then \<exists>s' m B'. NU_Allocate_Aligned_Memory p True sz0 al0 suspend s = Some (s', Some NU_SUCCESS, Some m, False) \<and>
      mem_inv A (B(p := B')) s' \<and> sz0 \<le> sz \<and> (al \<noteq> 0 \<longrightarrow> m mod al = 0) \<and>
      live_of B' (hdrs s') = insert m (live_of (B p) (hdrs s)) \<and> m \<notin> live_of (B p) (hdrs s) \<and>
      m + sz \<le> nm (hdrs s') (m - 16) \<and> (\<forall>a\<in>used (B p) (hdrs s). nm (hdrs s') a = nm (hdrs s) a) \<and>
      dkern s' = dkern s \<and> dm_suspension_list (mpools s' p) = dm_suspension_list (mpools s p)
    else if suspend = 0
    then NU_Allocate_Aligned_Memory p True sz0 al0 suspend s = Some (s, Some NU_NO_MEMORY, Some NU_NULL, False)
    else \<exists>s' leaves. NU_Allocate_Aligned_Memory p True sz0 al0 suspend s = Some (s', None, None, leaves) \<and> mem_inv A B s' \<and>
      hdrs s' = hdrs s \<and> waits_for t NU_MEMORY_SUSPEND (dkern s') \<and>
      set (dm_suspension_list (mpools s' p)) = insert t (set (dm_suspension_list (mpools s p)))"
proof -
  note F = NU_Allocate_facts[OF assms(1-8)]
  note I = mem_invD[OF assms(1,2)]
  note R = request_adjusted[OF I(3) assms(4,5), folded assms(7,8)]
  consider "fits_in p sz al B s" | "\<not> fits_in p sz al B s" "suspend = 0" | "\<not> fits_in p sz al B s" "suspend \<noteq> 0" by blast
  then show ?thesis
  proof cases
    case 1
    from F(1)[OF 1] obtain s' B' r pc' where r: "NU_Allocate_Aligned_Memory p True sz0 al0 suspend s =
        Some (s', Some NU_SUCCESS, Some (r + 16), False)" "mem_inv A (B(p := B')) s'" "granted (B p) (hdrs s) B' (hdrs s') r sz"
      "al \<noteq> 0 \<longrightarrow> (r + 16) mod al = 0" "same_pool (mpools s p) pc'" "s' = s\<lparr>mpools := (mpools s)(p := pc'), hdrs := hdrs s'\<rparr>"
      by (elim exE conjE) (rule that)
    have "mpools s' = (mpools s)(p := pc')" "dkern s' = dkern s" by (subst r(6); simp)+
    then have "dkern s' = dkern s" "dm_suspension_list (mpools s' p) = dm_suspension_list (mpools s p)"
      using same_pool_simps(4)[OF r(5)] by simp_all
    moreover have "r + 16 \<notin> live_of (B p) (hdrs s)" "r + 16 + sz \<le> nm (hdrs s') r"
      "\<forall>a\<in>used (B p) (hdrs s). nm (hdrs s') a = nm (hdrs s) a" using r(3) by (auto simp: granted_def live_of_iff)
    ultimately have "\<exists>s' m B'. NU_Allocate_Aligned_Memory p True sz0 al0 suspend s = Some (s', Some NU_SUCCESS, Some m, False) \<and>
      mem_inv A (B(p := B')) s' \<and> sz0 \<le> sz \<and> (al \<noteq> 0 \<longrightarrow> m mod al = 0) \<and>
      live_of B' (hdrs s') = insert m (live_of (B p) (hdrs s)) \<and> m \<notin> live_of (B p) (hdrs s) \<and>
      m + sz \<le> nm (hdrs s') (m - 16) \<and> (\<forall>a\<in>used (B p) (hdrs s). nm (hdrs s') a = nm (hdrs s) a) \<and>
      dkern s' = dkern s \<and> dm_suspension_list (mpools s' p) = dm_suspension_list (mpools s p)"
      using r(1,2,4) R(2) granted_live(1)[OF r(3)]
      by (intro exI[of _ s'], intro exI[of _ "r + 16"], intro exI[of _ B']) (simp del: fun_upd_apply)
    then show ?thesis using 1 by simp
  next
    case 2
    then show ?thesis using F(2) by simp
  next
    case 3
    let ?s = "(enlist_memory_caller p t sz al s)
      \<lparr>dkern := fst (TCC_Suspend_Task t NU_MEMORY_SUSPEND (Some t) suspend (dkern s))\<rparr>"
    obtain leaves where run: "NU_Allocate_Aligned_Memory p True sz0 al0 suspend s = Some (?s, None, None, leaves)"
      using F(3)[OF 3 assms(9)] by blast
    note S = suspend_memory_caller[OF assms(1,2) _ assms(9) R(1) refl]
    show ?thesis using 3 run S(1,2,4,5) assms(6) by auto
  qed
qed

text \<open>
  C24. Giving a block back serves the waiting tasks in the order of the list, in a state with the invariant of the pools
  (\<open>mem_inv\<close>), which includes that all waiting tasks are suspended for memory and asked for alignments of at most 40 (a
  greater one could be served outside the pool, see \<open>aligned_allocation_outside_pool\<close>): the first \<open>k\<close> of them become ready
  with a block of the size and alignment they asked for, all different and apart from the blocks still in use; the next
  task, if there is one, is one whose request does not fit (in the sense of the allocation, with room for a block in
  front), and the others are untouched.
\<close>

theorem NU_Deallocate_Memory_serves:
  assumes "mem_inv A B s" "dm_id_valid (mpools s p)" and "m \<in> live_of (B p) (hdrs s)" and "ts = dm_suspension_list (mpools s p)"
  shows "\<exists>s' preempt B' k ptr. NU_Deallocate_Memory m s = Some (s', NU_SUCCESS, preempt) \<and> mem_inv A (B(p := B')) s' \<and>
    ptr = (\<lambda>t. dm_return_pointer (dblocks s' t)) \<and> k \<le> length ts \<and> dm_suspension_list (mpools s' p) = drop k ts \<and>
    live_of B' (hdrs s') = (live_of (B p) (hdrs s) - {m}) \<union> ptr ` set (take k ts) \<and>
    inj_on ptr (set (take k ts)) \<and> ptr ` set (take k ts) \<inter> (live_of (B p) (hdrs s) - {m}) = {} \<and>
    (\<forall>t \<in> set (take k ts). is_ready t (dkern s') \<and> allocate_resumed t s' = (NU_SUCCESS, ptr t) \<and>
      ptr t + dm_request_size (dblocks s t) \<le> nm (hdrs s') (ptr t - 16) \<and>
      (dm_alignment (dblocks s t) \<noteq> 0 \<longrightarrow> ptr t mod dm_alignment (dblocks s t) = 0)) \<and>
    (k < length ts \<longrightarrow> \<not> fits_in p (dm_request_size (dblocks s (ts ! k))) (dm_alignment (dblocks s (ts ! k))) (B(p := B')) s') \<and>
    (\<forall>t. t \<notin> set (take k ts) \<longrightarrow> tcbs (dkern s') t = tcbs (dkern s) t \<and> dblocks s' t = dblocks s t)"
proof -
  have x: "m - 16 \<in> used (B p) (hdrs s)" "m - 16 < nm (hdrs s) (m - 16)" "m - 16 + 16 = m" using assms(3) by (auto simp: live_of_iff)
  obtain s1 B1 s' pre B' k pc1 where d: "NU_Deallocate_Memory m s = Some (s', NU_SUCCESS, pre)"
    "returned (B p) (hdrs s) B1 (hdrs s1) (m - 16)" "s1 = s\<lparr>mpools := (mpools s)(p := pc1), hdrs := hdrs s1\<rparr>"
    "k \<le> length ts" "mem_inv A (B(p := B')) s'" "dm_suspension_list (mpools s' p) = drop k ts"
    "served p (B(p := B1)) s1 B' s' (take k ts)"
    "k < length ts \<longrightarrow> \<not> fits_in p (dm_request_size (dblocks s (ts ! k))) (dm_alignment (dblocks s (ts ! k))) (B(p := B')) s'"
    using NU_Deallocate_facts[OF assms(1,2) x(1,2), unfolded x(3), folded assms(4)] by (elim exE conjE) (rule that)
  let ?ptr = "\<lambda>t. dm_return_pointer (dblocks s' t)" and ?T = "set (take k ts)"
  have s1: "dblocks s1 = dblocks s" "dkern s1 = dkern s" by (subst d(3); simp)+
  note V = d(7)[unfolded served_def fun_upd_same s1]
  note S = served_live[OF d(7), unfolded fun_upd_same s1]
  have g: "?ptr t = given s' t + 16" if "t \<in> ?T" for t using V that by blast
  have lv: "live_of B' (hdrs s') = (live_of (B p) (hdrs s) - {m}) \<union> ?ptr ` ?T" using S(1) returned_live(1)[OF d(2)] x(3) by simp
  have "inj_on ?ptr ?T" using V g by (simp add: inj_on_def)
  moreover have "?ptr ` ?T \<inter> (live_of (B p) (hdrs s) - {m}) = {}"
  proof -
    have "given s' t \<notin> used B1 (hdrs s1)" if "t \<in> ?T" for t using V that by blast
    then have "?ptr t \<notin> live_of B1 (hdrs s1)" if "t \<in> ?T" for t using that g by (simp add: live_of_iff)
    then show ?thesis using returned_live(1)[OF d(2)] x(3) by auto
  qed
  moreover have "is_ready t (dkern s') \<and> allocate_resumed t s' = (NU_SUCCESS, ?ptr t) \<and>
      ?ptr t + dm_request_size (dblocks s t) \<le> nm (hdrs s') (?ptr t - 16) \<and>
      (dm_alignment (dblocks s t) \<noteq> 0 \<longrightarrow> ?ptr t mod dm_alignment (dblocks s t) = 0)" if "t \<in> ?T" for t
    using V S(3)[OF that] that by (auto simp: allocate_resumed_def)
  moreover have "\<forall>t. t \<notin> ?T \<longrightarrow> tcbs (dkern s') t = tcbs (dkern s) t \<and> dblocks s' t = dblocks s t" using V by blast
  ultimately show ?thesis using d(1,4,5,6,8) lv
    by (intro exI[of _ s'], intro exI[of _ pre], intro exI[of _ B'], intro exI[of _ k], intro exI[of _ ?ptr]) (simp del: fun_upd_apply)
qed

text \<open>
  C25. Allocating a block, of a valid size and with an alignment of at most 40, and giving it back restores the pool, in a
  state with the invariant of the pools (\<open>mem_inv\<close>): the same blocks, the same of them free, each with the same end, and
  the same number of available bytes (while no task waits for memory of the pool). With a greater alignment the number
  need not be restored, when the block was served outside the pool (\<open>aligned_allocation_outside_pool\<close>).
\<close>

theorem allocate_deallocate_roundtrip:
  assumes "mem_inv A B s" "dm_id_valid (mpools s p)" and "sz0 \<noteq> 0" "sz0 \<le> dm_pool_size (mpools s p) - 32" "al0 \<le> 40"
    and "suspend \<noteq> 0 \<longrightarrow> \<not> TCCE_Suspend_Error (dkern s) \<and> may_suspend (dkern s)"
    and "dm_suspension_list (mpools s p) = []"
    and "NU_Allocate_Aligned_Memory p True sz0 al0 suspend s = Some (s1, Some NU_SUCCESS, Some m, leaves)"
  shows "\<exists>s2 preempt. NU_Deallocate_Memory m s1 = Some (s2, NU_SUCCESS, preempt) \<and> mem_inv A B s2 \<and>
    frees (B p) (hdrs s2) = frees (B p) (hdrs s) \<and> (\<forall>a \<in> B p. dm_next_memory (hdrs s2 a) = dm_next_memory (hdrs s a)) \<and>
    dm_available (mpools s2 p) = dm_available (mpools s p)"
proof -
  let ?sz = "adjusted_request (dm_min_allocation (mpools s p)) sz0" and ?al = "adjusted_alignment al0"
  note N = NU_Allocate_facts[OF assms(1-6) refl refl]
  have "fits_in p ?sz ?al B s"
    using N(2) N(3)[OF _ _ refl] assms(8) by fastforce
  from N(1)[OF this] obtain s' B1 r pc' where r': "NU_Allocate_Aligned_Memory p True sz0 al0 suspend s =
      Some (s', Some NU_SUCCESS, Some (r + 16), False)" "mem_inv A (B(p := B1)) s'" "granted (B p) (hdrs s) B1 (hdrs s') r ?sz"
    "same_pool (mpools s p) pc'" "s' = s\<lparr>mpools := (mpools s)(p := pc'), hdrs := hdrs s'\<rparr>"
    by (elim exE conjE) (rule that)
  then have e: "s' = s1" "m = r + 16" using assms(8) by simp_all
  note r = e(2) r'(2-)[unfolded e(1)]
  have "mpools s1 = (mpools s)(p := pc')" by (subst r(5)) simp
  then have v1: "dm_id_valid (mpools s1 p)" "dm_suspension_list (mpools s1 p) = []"
    using same_pool_simps(3,4)[OF r(4)] assms(2,7) by simp_all
  have g: "r \<in> used B1 (hdrs s1)" "r < nm (hdrs s1) r" "used B1 (hdrs s1) - {r} = used (B p) (hdrs s)"
    "\<And>a. a \<in> used (B p) (hdrs s) \<Longrightarrow> nm (hdrs s1) a = nm (hdrs s) a" using r(3) by (auto simp: granted_def)
  obtain s2 B2 s3 pre B3 k where d: "NU_Deallocate_Memory (r + 16) s1 = Some (s3, NU_SUCCESS, pre)"
    "returned B1 (hdrs s1) B2 (hdrs s2) r" "mem_inv A (B(p := B3)) s3" "dm_id_valid (mpools s3 p)"
    "served p (B(p := B2)) s2 B3 s3 (take k ([] :: tid list))"
    using NU_Deallocate_facts[OF r(2) v1(1), unfolded fun_upd_same fun_upd_upd, OF g(1,2), unfolded v1(2)] by (elim exE conjE) (rule that)
  have u: "nm (hdrs s3) a = nm (hdrs s) a" if "a \<in> used (B p) (hdrs s)" for a
    using d(2,5) g(3) g(4)[of a] that by (auto simp: returned_def served_def)
  have u': "used B3 (hdrs s3) = used (B p) (hdrs s)" using d(2,5) g(3) by (auto simp: returned_def served_def)
  note U = layout_unique[OF mem_invD(3)[OF assms(1,2)] mem_invD(3)[OF d(3,4), unfolded fun_upd_same] u' u]
  have "B(p := B3) = B" using U(1) by auto
  then show ?thesis using d(1,3) U r(1) by auto
qed

lemma reallocate_finish_copies:
  assumes ok: "conf_ok A B s L" and L: "L m = Some old" "L m' = Some n" "m' \<noteq> m"
  shows "\<exists>s' preempt L'. reallocate_finish m m' n s = Some (s', NU_SUCCESS, preempt) \<and> mstep\<^sup>*\<^sup>* (s, A, L) (s', A, L') \<and>
    (\<forall>i < min old n. dbytes s' (m' + i) = dbytes s (m + i)) \<and> (\<forall>a. a \<notin> {m'..<m' + n} \<longrightarrow> dbytes s' a = dbytes s a)"
proof -
  note I = confD[OF ok]
  let ?q = "dm_memory_pool (hdrs s (m - 16))"
  have m: "dm_id_valid (mpools s ?q)" "m \<in> live_of (B ?q) (hdrs s)" using live_pool[OF ok _ refl] L by auto
  have x: "16 \<le> m" "m - 16 \<in> B ?q" "\<not> fr (hdrs s) (m - 16)" "m - 16 < nm (hdrs s) (m - 16)"
    using m(2) by (auto simp: live_of_iff used_def)
  note T = tiles_room[OF pool_okD(1)[OF mem_invD(3)[OF I(1) m(1)]] x(2,4)]
  have hp: "sub32 m DM_OVERHEAD = m - 16" using x T(1,3) by (simp add: DM_OVERHEAD_def sub32_eq)
  let ?k = "if room (hdrs s) (m - 16) > n then n else room (hdrs s) (m - 16)"
  have k: "?k \<le> n" "min old n \<le> ?k" using I(3)[OF L(1)] T(1) x(1) by auto
  let ?b = "\<lambda>a. if m' \<le> a \<and> a < m' + ?k then dbytes s (m + (a - m')) else dbytes s a"
  let ?s = "s\<lparr>hdrs := hdrs s, dbytes := ?b\<rparr>"
  have held: "{m'..<m' + n} \<subseteq> held L" using L(2) by (force simp: held_def)
  have store: "mstep (s, A, L) (?s, A, L)"
  proof (rule mstep.store)
    fix a assume "a \<notin> held L"
    then have "a \<notin> {m'..<m' + n}" using held by blast
    then show "?b a = dbytes s a" using k(1) by auto
  qed (simp add: stores_in_def)
  obtain B2 where ok2: "conf_ok A B2 ?s L" using mstep_inv[OF store] ok by auto
  obtain s' preempt where d: "NU_Deallocate_Memory m ?s = Some (s', NU_SUCCESS, preempt)" and cont: "dbytes s' = ?b"
  proof -
    have l: "dm_id_valid (mpools ?s ?q)" "m \<in> live_of (B2 ?q) (hdrs ?s)" using live_pool[OF ok2 _ refl, of m] L by auto
    have y: "m - 16 \<in> used (B2 ?q) (hdrs ?s)" "m - 16 < nm (hdrs ?s) (m - 16)" "m - 16 + 16 = m"
      using l(2) by (auto simp: live_of_iff)
    from NU_Deallocate_facts[OF confD(1)[OF ok2] l(1) y(1,2), unfolded y(3)] show thesis
      by (elim exE conjE) (rule that, assumption, simp)
  qed
  have "mstep (?s, A, L) (s', A, L(m := None) ++ handed (left ?q ?s s') ?s s')"
    by (rule mstep.deallocate[OF _ d]) (use L in simp_all)
  then have "mstep\<^sup>*\<^sup>* (s, A, L) (s', A, L(m := None) ++ handed (left ?q ?s s') ?s s')"
    using store by (meson converse_rtranclp_into_rtranclp rtranclp.rtrancl_refl)
  moreover have "reallocate_finish m m' n s = Some (s', NU_SUCCESS, preempt)"
    using d m(1) x by (simp add: reallocate_finish_def hp T(4) Let_def)
  moreover have "\<forall>i < min old n. dbytes s' (m' + i) = dbytes s (m + i)"
  proof (intro allI impI)
    fix i assume "i < min old n"
    then have "m' + i < m' + ?k" using k(2) by linarith
    then show "dbytes s' (m' + i) = dbytes s (m + i)" unfolding cont by simp
  qed
  moreover have "\<forall>a. a \<notin> {m'..<m' + n} \<longrightarrow> dbytes s' a = dbytes s a" using k(1) by (auto simp: cont)
  ultimately show ?thesis by blast
qed

text \<open>
  C27. Reallocation of a pointer that is held, with a valid size and an alignment of at most 40, when the new block can be had
  (the request fits in a free block of the pool, with room for a block in front when the address is not aligned; the
  caller may suspend if it asks for it), in a state with the invariant of the pools: it returns another pointer, which was
  not held, whose first bytes are those of the old block, up to the smaller of the two sizes; the bytes of every other
  pointer held are unchanged. (Of the memory nobody holds nothing is claimed: headers and links of free blocks are written
  there.) The service has the effect of an allocation, a store to the new block and the return of the old one.
\<close>

theorem NU_Reallocate_Aligned_Memory_moves:
  assumes "conf_ok A B s L" and "L m = Some old" and "dm_id_valid (mpools s p)" and "n \<noteq> 0" "n \<le> dm_pool_size (mpools s p) - 32" "al \<le> 40"
    and "suspend \<noteq> 0 \<longrightarrow> \<not> TCCE_Suspend_Error (dkern s) \<and> may_suspend (dkern s)"
    and "fits_in p (adjusted_request (dm_min_allocation (mpools s p)) n) (adjusted_alignment al) B s"
  shows "\<exists>s' m' preempt L'. NU_Reallocate_Aligned_Memory p (Some m) n al suspend s = Some (s', Some NU_SUCCESS, Some m', preempt) \<and>
    m' \<notin> dom L \<and> mstep\<^sup>*\<^sup>* (s, A, L) (s', A, L') \<and> (\<forall>i < min old n. dbytes s' (m' + i) = dbytes s (m + i)) \<and>
    (\<forall>q z. q \<noteq> m \<longrightarrow> L q = Some z \<longrightarrow> (\<forall>i < z. dbytes s' (q + i) = dbytes s (q + i)))"
proof -
  note ok = assms(1) and I = confD[OF assms(1)]
  note J = mem_invD[OF I(1) assms(3)]
  from NU_Allocate_facts(1)[OF I(1) assms(3-7) refl refl assms(8)] obtain s1 B1 r pc' where
    r: "NU_Allocate_Aligned_Memory p True n al suspend s = Some (s1, Some NU_SUCCESS, Some (r + 16), False)"
    "mem_inv A (B(p := B1)) s1" "granted (B p) (hdrs s) B1 (hdrs s1) r (adjusted_request (dm_min_allocation (mpools s p)) n)"
    "same_pool (mpools s p) pc'" "s1 = s\<lparr>mpools := (mpools s)(p := pc'), hdrs := hdrs s1\<rparr>"
    by (elim exE conjE) (rule that)
  have s1: "mpools s1 = (mpools s)(p := pc')" "dbytes s1 = dbytes s" by (subst r(5); simp)+
  have "r + 16 \<in> A p"
    using live_area(1)[OF r(2), of p "r + 16"] s1(1) same_pool_simps(3)[OF r(4)] assms(3) granted_live(1)[OF r(3)] by simp
  moreover have "r + 16 \<notin> live_of (B p) (hdrs s)" using r(3) by (auto simp: granted_def live_of_iff)
  ultimately have new: "r + 16 \<notin> dom L" using I(4)[OF assms(3)] by blast
  let ?L = "L(r + 16 \<mapsto> n)"
  have alloc: "mstep (s, A, L) (s1, A, ?L)" using mstep.allocate[OF r(1) assms(6), of A L] assms(7) by simp
  obtain B' where ok1: "conf_ok A B' s1 ?L" using mstep_inv[OF alloc] ok by auto
  have mL: "?L m = Some old" "?L (r + 16) = Some n" "r + 16 \<noteq> m" using new assms(2) by auto
  obtain s' preempt L' where f: "reallocate_finish m (r + 16) n s1 = Some (s', NU_SUCCESS, preempt)"
    "mstep\<^sup>*\<^sup>* (s1, A, ?L) (s', A, L')" "\<forall>i < min old n. dbytes s' (r + 16 + i) = dbytes s1 (m + i)"
    "\<forall>a. a \<notin> {r + 16..<r + 16 + n} \<longrightarrow> dbytes s' a = dbytes s1 a"
    using reallocate_finish_copies[OF ok1 mL] by blast
  have "sub32 (dm_pool_size (mpools s p)) (2 * DM_OVERHEAD) = dm_pool_size (mpools s p) - 32"
    using pool_okD(7,9)[OF J(3)] by (simp add: sub32_eq DM_OVERHEAD_def)
  then have "NU_Reallocate_Aligned_Memory p (Some m) n al suspend s = Some (s', Some NU_SUCCESS, Some (r + 16), preempt)"
    using J(2) assms(3-7) r(1) f(1) by (cases "suspend = 0") (simp_all add: NU_Reallocate_Aligned_Memory_def Let_def)
  moreover have "mstep\<^sup>*\<^sup>* (s, A, L) (s', A, L')" using alloc f(2) by (rule converse_rtranclp_into_rtranclp)
  moreover have "dbytes s' (q + i) = dbytes s (q + i)" if q: "q \<noteq> m" "L q = Some z" "i < z" for q z i
  proof -
    have n: "q \<noteq> r + 16" using new q(2) by auto
    then have "?L q = Some z" using q(2) by simp
    from held_disjoint[OF ok1 mL(2) this n] have "q + i \<notin> {r + 16..<r + 16 + n}" using q(3) by auto
    then show ?thesis using f(4) unfolding s1(2) by blast
  qed
  ultimately show ?thesis using f(3) new unfolding s1(2) by blast
qed

lemma checked_result:
  assumes "(if status = NU_SUCCESS then (a, NU_SUCCESS) else (s, status)) = (s', NU_SUCCESS)"
  shows "status = NU_SUCCESS" "s' = a"
  using assms by (auto split: if_splits)

lemma adjusted_multiple:
  assumes "k mod 4 = 0" "k \<le> 1073741824"
  shows "DM_ADJUSTED_SIZE k = k"
proof -
  have "k \<le> DM_ADJUSTED_SIZE k" "DM_ADJUSTED_SIZE k < k + 4" "DM_ADJUSTED_SIZE k mod 4 = 0"
    using adjusted_size[of k] assms(2) by auto
  then show ?thesis using assms(1) by presburger
qed

text \<open>The search in a single block of \<open>n - 32\<close> bytes whose end is the first aligned address.\<close>

lemma search_exact_end:
  assumes h: "nm h x = x + n - 16" and n: "mn + 64 \<le> n" "x + n \<le> memory_top" and al: "n - 32 < al" "al \<le> n" "(x + n - 16) mod al = 0"
    and sz: "sz \<le> n - 32"
  shows "search_blocks mn sz al h x x (0, 0) = Some (x, n - 32, x + 16, n - 32)" "(x + 16) mod al \<noteq> 0"
proof -
  let ?e = "x + n - 16"
  have room: "block_room h x = n - 32" using n by (simp add: block_room_def h DM_OVERHEAD_def sub32_eq)
  have a: "add32 x DM_OVERHEAD = x + 16" "add32 (x + 16) (al - 1) = x + 16 + (al - 1)" "sub32 ?e (x + 16) = n - 32"
    "add32 (x + 16) (n - 32) = ?e" "add32 (2 * DM_OVERHEAD) mn = mn + 32"
    using n al(2) by (auto simp: DM_OVERHEAD_def add32_eq sub32_eq)
  obtain q where q: "?e = al * q" using al(3) by auto
  have mult: "whole_multiple al (x + 16 + (al - 1)) = ?e"
  proof -
    have "al * q \<le> x + 16 + (al - 1)" "x + 16 + (al - 1) < al * q + al" using n(1) al(1) q[symmetric] by auto
    then have "(x + 16 + (al - 1)) div al = q" by (intro div_nat_eqI) (auto simp: algebra_simps)
    then show ?thesis using q by (simp add: whole_multiple_def mult.commute)
  qed
  show na: "(x + 16) mod al \<noteq> 0"
  proof
    assume "(x + 16) mod al = 0"
    then have "al dvd x + 16" "al dvd ?e" using al(3) by (simp_all only: dvd_eq_mod_eq_0)
    then have "al dvd ?e - (x + 16)" by (rule dvd_diff_nat[rotated])
    then show False using n(1) al(1) by (auto dest: dvd_imp_le)
  qed
  have "(n - 32 < mn + 32) = False" using n(1) by auto
  then have fs: "front_split_of mn sz al (x + 16) (n - 32) = (?e, n - 32, n - 32)"
    unfolding front_split_of_def Let_def a(2) mult a(3,5) by (simp only: if_False)
  have "examine_block mn sz al h x (0, 0) = (x, n - 32, x + 16, n - 32)"
    unfolding examine_block_def Let_def room a(1) prod.case fs a(4) using na n(1) al(1) sz by simp
  then show "search_blocks mn sz al h x x (0, 0) = Some (x, n - 32, x + 16, n - 32)"
    by (subst search_blocks.simps) simp
qed

text \<open>
  C28. An aligned allocation can lie outside its pool. When the first aligned address behind the header is the end of
  the block (here: of the only block of a new pool), the search takes the whole block as usable, because it compares
  with \<open>>\<close> and does not subtract the front part when that is the whole block: the service returns the address of
  the trailer's header, 16 bytes before the end of the pool, for any size up to that of the block.
\<close>

theorem aligned_allocation_outside_pool:
  assumes "NU_Create_Memory_Pool p x n mn fifo s = (s1, NU_SUCCESS)" and "n mod 4 = 0" "8 \<le> mn" "mn mod 4 = 0" "mn + 64 \<le> n"
    and "x + n \<le> memory_top" and "al mod 4 = 0" "n - 32 < al" "al \<le> n" "n \<le> 1073741824" "(x + n - 16) mod al = 0"
    and "mn \<le> sz" "16 < sz" "sz mod 4 = 0" "sz \<le> n - 32"
  shows "\<exists>s2 m. NU_Allocate_Aligned_Memory p True sz al 0 s1 = Some (s2, Some NU_SUCCESS, Some m, False) \<and>
    m = x + n - 16 \<and> \<not> {m..<m + sz} \<subseteq> {x..<x + n}"
proof -
  let ?e = "x + n - 16" and ?h = "hdrs s1"
  have "mn \<le> 1073741824" "sz \<le> 1073741824" "al \<le> 1073741824" using assms(5,9,10,15) by linarith+
  note n = adjusted_multiple[OF assms(2,10)] adjusted_multiple[OF assms(4) this(1)] adjusted_multiple[OF assms(14) this(2)]
    adjusted_multiple[OF assms(7) this(3)]
  note R = checked_result[OF assms(1)[unfolded NU_Create_Memory_Pool_def Let_def n]]
  have mn: "(if mn < DM_MIN_ALLOCATION \<and> mn \<noteq> 0 then DM_MIN_ALLOCATION else mn) = mn" using assms(3) by (simp add: DM_MIN_ALLOCATION_def)
  have c: "p \<noteq> NU_NULL" "x \<noteq> NU_NULL" using R(1) by (auto split: if_splits)
  have w: "sub32 n 32 = n - 32" "add32 (add32 x (n - 32)) DM_OVERHEAD = ?e" "?e \<noteq> x"
    using assms(5,6) by (auto simp: DM_OVERHEAD_def add32_eq sub32_eq)
  have P: "mpools s1 p = \<lparr>dm_id_valid = True, dm_start_address = x, dm_pool_size = n, dm_min_allocation = mn,
      dm_available = n - 32, dm_memory_list = x, dm_fifo_suspend = (fifo = Some True), dm_tasks_waiting = 0, dm_suspension_list = []\<rparr>"
    and H: "nm ?h x = ?e" using w unfolding R(2) mn by (simp_all add: hset_def DM_OVERHEAD_def)
  note S = search_exact_end[where h = "hdrs s1" and x = x and n = n and al = al and sz = sz and mn = mn, OF H assms(5,6,8,9,11,15)]
  have sp: "snd (DMC_Split_Block p' y k f ph) = add32 y k" for p' y k f ph
    by (simp add: DMC_Split_Block_def split_beta Let_def)
  have "0 < al" using assms(5,8) by simp
  then obtain ph where d: "DMC_Allocate p sz al (mpools s1 p, ?h) = Some (ph, add32 x (n - 32))"
    using c(2) S assms(5,15) unfolding DMC_Allocate_def P by (simp add: take_block_def Let_def split_beta sp)
  have m: "add32 x (n - 32) = x + n - 32" "add32 (x + n - 32) DM_OVERHEAD = ?e" "x + n - 32 \<noteq> 0"
    using assms(5,6) by (auto simp: DM_OVERHEAD_def add32_eq)
  have "\<exists>s2. NU_Allocate_Aligned_Memory p True sz al 0 s1 = Some (s2, Some NU_SUCCESS, Some ?e, False)"
    using c(1) assms(12,13,15) w(1) d
    by (auto simp: NU_Allocate_Aligned_Memory_def Let_def P n adjusted_request_def m DM_OVERHEAD_def[THEN arg_cong[of _ _ "(*) 2"]] split: prod.splits)
  moreover have "\<not> {?e..<?e + sz} \<subseteq> {x..<x + n}" using assms(5,13) by auto
  ultimately show ?thesis by blast
qed

section \<open>Witnesses\<close>

text \<open>A pool of 256 bytes at 4096; the current task 1 takes 20 bytes, then all that is left, then it waits for 40 more.\<close>

definition mem0 :: dsys where
  "mem0 = \<lparr>mpools = (\<lambda>_. \<lparr>dm_id_valid = False, dm_start_address = 0, dm_pool_size = 0, dm_min_allocation = 0, dm_available = 0,
      dm_memory_list = 0, dm_fifo_suspend = False, dm_tasks_waiting = 0, dm_suspension_list = []\<rparr>),
    DMD_Created_Pools_List = [], DMD_Total_Pools = 0,
    hdrs = (\<lambda>_. \<lparr>dm_next_memory = 0, dm_previous_memory = 0, dm_memory_free = False, dm_memory_pool = 0, dm_next_free = 0,
      dm_previous_free = 0\<rparr>), dbytes = (\<lambda>_. 0),
    dblocks = (\<lambda>_. \<lparr>ds_cs_priority = 0, ds_memory_pool = 0, dm_request_size = 0, dm_return_pointer = 0, dm_return_status = NU_SUCCESS,
      dm_alignment = 0\<rparr>), dkern = kernel2\<rparr>"

definition mem1 :: dsys where
  "mem1 = fst (NU_Create_Memory_Pool 7 4096 256 8 (Some True) mem0)"

definition mem2 :: dsys where
  "mem2 = fst (the (NU_Allocate_Aligned_Memory 7 True 20 0 0 mem1))"

lemmas mem_eval = DM_ADJUSTED_SIZE_def DM_OVERHEAD_def DM_MIN_ALLOCATION_def add32_eq sub32_eq Let_def hset_def

lemma mem1: "NU_Create_Memory_Pool 7 4096 256 8 (Some True) mem0 = (mem1, NU_SUCCESS)"
  "mpools mem1 7 = \<lparr>dm_id_valid = True, dm_start_address = 4096, dm_pool_size = 256, dm_min_allocation = 8, dm_available = 224,
     dm_memory_list = 4096, dm_fifo_suspend = True, dm_tasks_waiting = 0, dm_suspension_list = []\<rparr>"
  "nm (hdrs mem1) 4096 = 4336" "nf (hdrs mem1) 4096 = 4096" "pf (hdrs mem1) 4096 = 4096" "dkern mem1 = kernel2"
  by (simp_all add: mem1_def NU_Create_Memory_Pool_def mem0_def mem_eval)

lemma mem2: "NU_Allocate_Aligned_Memory 7 True 20 0 0 mem1 = Some (mem2, Some NU_SUCCESS, Some 4112, False)"
proof -
  have "search_blocks 8 20 0 (hdrs mem1) 4096 4096 (0, 0) = Some (4096, 224, 0, 0)"
    by (subst search_blocks.simps) (simp add: examine_block_def block_room_def mem1 mem_eval)
  then have "\<exists>ph. DMC_Allocate 7 20 0 (mpools mem1 7, hdrs mem1) = Some (ph, 4096)"
    by (simp add: DMC_Allocate_def mem1 take_block_def)
  then show ?thesis
    by (auto simp: mem2_def NU_Allocate_Aligned_Memory_def mem1 adjusted_request_def mem_eval split: prod.splits)
qed

definition A1 :: "addr \<Rightarrow> addr set" where
  "A1 = (\<lambda>_. {})(7 := {4096..<4352})"

definition B1 :: "addr \<Rightarrow> addr set" where
  "B1 = (\<lambda>_. {})(7 := {4096, 4336})"

definition mem3 :: dsys where
  "mem3 = fst (the (NU_Allocate_Aligned_Memory 7 True 224 0 0 mem1))"

definition mem4 :: dsys where
  "mem4 = fst (the (NU_Allocate_Aligned_Memory 7 True 40 0 NU_SUSPEND mem3))"

lemma mem0: "sched_inv (dkern mem0)" "\<forall>p. \<not> dm_id_valid (mpools mem0 p)"
  by (simp_all add: mem0_def inv_kernel2)

lemma steps1: "mstep\<^sup>*\<^sup>* (mem0, \<lambda>_. {}, Map.empty) (mem1, A1, Map.empty)"
proof -
  have "mstep (mem0, \<lambda>_. {}, Map.empty) (mem1, (\<lambda>_. {})(7 := {4096..<4352}), Map.empty)"
    by (rule mstep.create[OF mem1(1)]) (simp_all add: mem_eval)
  then show ?thesis by (simp add: A1_def)
qed

lemma steps2: "mstep\<^sup>*\<^sup>* (mem0, \<lambda>_. {}, Map.empty) (mem2, A1, [4112 \<mapsto> 20])"
  using steps1 mstep.allocate[OF mem2, of A1 Map.empty] by (simp add: rtranclp.rtrancl_into_rtrancl)

lemma mem1_inv: "mem_inv A1 B1 mem1" "frees (B1 7) (hdrs mem1) = {4096}"
proof -
  have "mem_inv (\<lambda>_. {}) (\<lambda>_. {}) mem0" using mem0 by (simp add: mem_inv_def)
  note F = NU_Create_Memory_Pool_facts[OF this mem1(1), of 256 "{4096, 4336}"]
  show "mem_inv A1 B1 mem1" "frees (B1 7) (hdrs mem1) = {4096}"
    using F(1,4) by (simp_all add: mem_eval A1_def B1_def del: fun_upd_apply) (simp add: B1_def)
qed

lemma fits1: "fits_in 7 20 0 B1 mem1"
  by (simp add: fits_in_def mem1_inv fits_def mem1 start_of_def)

lemma mem2_pool: "dm_memory_pool (hdrs mem2 4096) = 7"
proof -
  obtain B where ok: "conf_ok A1 B mem2 [4112 \<mapsto> 20]"
    using msteps_inv[OF steps2 conf_start[OF mem0]] by auto
  have "dm_memory_pool (hdrs mem2 (4112 - 16)) = 7"
  proof (rule ccontr)
    assume n: "dm_memory_pool (hdrs mem2 (4112 - 16)) \<noteq> 7"
    note D = live_pool[OF ok _ refl, of 4112]
    have "4112 \<in> A1 (dm_memory_pool (hdrs mem2 (4112 - 16)))"
      using live_area(1)[OF confD(1)[OF ok]] D by simp
    then show False using n by (simp add: A1_def)
  qed
  then show ?thesis by simp
qed

theorem memory_safety_witness:
  "dm_id_valid (mpools mem2 7) \<and> {4096..<4132} \<subseteq> A1 7 \<and> \<not> dm_memory_free (hdrs mem2 4096)"
  using memory_safety[OF mem0 steps2, of 4112 20 7] by (simp add: mem2_pool)

theorem memory_services_return_witness:
  "\<exists>s' preempt. NU_Deallocate_Memory 4112 mem2 = Some (s', NU_SUCCESS, preempt)"
proof -
  from memory_services_return[OF mem0 steps2, of 4112 0 0] show ?thesis by (simp del: conf_inv.simps) blast
qed

theorem NU_Allocate_Aligned_Memory_effect_witness:
  "\<exists>s' m B'. NU_Allocate_Aligned_Memory 7 True 20 0 0 mem1 = Some (s', Some NU_SUCCESS, Some m, False) \<and>
     m \<in> live_of B' (hdrs s') \<and> m + 20 \<le> dm_next_memory (hdrs s' (m - 16))"
proof -
  have "20 = adjusted_request (dm_min_allocation (mpools mem1 7)) 20" "0 = adjusted_alignment 0"
    by (simp_all add: mem1 adjusted_request_def adjusted_alignment_def mem_eval)
  from NU_Allocate_Aligned_Memory_effect[where suspend = 0, OF mem1_inv(1) _ _ _ _ _ this refl] fits1
  show ?thesis by (simp add: mem1) blast
qed

theorem allocate_deallocate_roundtrip_witness:
  "\<exists>s preempt. NU_Deallocate_Memory 4112 mem2 = Some (s, NU_SUCCESS, preempt) \<and> dm_available (mpools s 7) = 224"
proof -
  from allocate_deallocate_roundtrip[OF mem1_inv(1) _ _ _ _ _ _ mem2] show ?thesis by (simp add: mem1) blast
qed

theorem aligned_allocation_outside_pool_witness:
  "\<exists>s. NU_Allocate_Aligned_Memory 7 True 20 64 0 (fst (NU_Create_Memory_Pool 7 4100 76 8 (Some True) mem0)) =
     Some (s, Some NU_SUCCESS, Some 4160, False)"
proof -
  have "NU_Create_Memory_Pool 7 4100 76 8 (Some True) mem0 =
      (fst (NU_Create_Memory_Pool 7 4100 76 8 (Some True) mem0), NU_SUCCESS)"
    by (simp add: NU_Create_Memory_Pool_def mem0_def mem_eval)
  from aligned_allocation_outside_pool[OF this, of 64 20] show ?thesis by auto
qed

lemma mem3: "NU_Allocate_Aligned_Memory 7 True 224 0 0 mem1 = Some (mem3, Some NU_SUCCESS, Some 4112, False)"
  "mpools mem3 7 = \<lparr>dm_id_valid = True, dm_start_address = 4096, dm_pool_size = 256, dm_min_allocation = 8, dm_available = 0,
     dm_memory_list = 0, dm_fifo_suspend = True, dm_tasks_waiting = 0, dm_suspension_list = []\<rparr>"
  "dkern mem3 = kernel2" "\<not> fr (hdrs mem3) 4096" "hdrs mem3 4336 = hdrs mem1 4336" "nm (hdrs mem3) 4096 = 4336" "pm (hdrs mem3) 4096 = 4336"
  "dm_memory_pool (hdrs mem3 4096) = 7"
proof -
  have "search_blocks 8 224 0 (hdrs mem1) 4096 4096 (0, 0) = Some (4096, 224, 0, 0)"
    by (subst search_blocks.simps) (simp add: examine_block_def block_room_def mem1 mem_eval)
  then have d: "DMC_Allocate 7 224 0 (mpools mem1 7, hdrs mem1) = Some (((mpools mem1 7)\<lparr>dm_available := 0, dm_memory_list := 0\<rparr>,
      (hdrs mem1)(4096 := (hdrs mem1 4096)\<lparr>dm_memory_free := False\<rparr>)), 4096)"
    by (simp add: DMC_Allocate_def mem1 take_block_def claim_block_def unlink_block_def mem_eval)
  have h1: "pm (hdrs mem1) 4096 = 4336" "dm_memory_pool (hdrs mem1 4096) = 7"
    by (simp_all add: mem1_def NU_Create_Memory_Pool_def mem0_def mem_eval)
  show run: "NU_Allocate_Aligned_Memory 7 True 224 0 0 mem1 = Some (mem3, Some NU_SUCCESS, Some 4112, False)"
    using d by (simp add: mem3_def NU_Allocate_Aligned_Memory_def mem1 adjusted_request_def mem_eval)
  show "mpools mem3 7 = \<lparr>dm_id_valid = True, dm_start_address = 4096, dm_pool_size = 256, dm_min_allocation = 8, dm_available = 0,
     dm_memory_list = 0, dm_fifo_suspend = True, dm_tasks_waiting = 0, dm_suspension_list = []\<rparr>"
    "dkern mem3 = kernel2" "\<not> fr (hdrs mem3) 4096" "hdrs mem3 4336 = hdrs mem1 4336" "nm (hdrs mem3) 4096 = 4336" "pm (hdrs mem3) 4096 = 4336"
    "dm_memory_pool (hdrs mem3 4096) = 7"
    using d by (simp_all add: mem3_def NU_Allocate_Aligned_Memory_def adjusted_request_def mem1 h1 mem_eval)
qed

lemma mem4: "\<exists>leaves. NU_Allocate_Aligned_Memory 7 True 40 0 NU_SUSPEND mem3 = Some (mem4, None, None, leaves)"
  "mpools mem4 7 = (mpools mem3 7)\<lparr>dm_tasks_waiting := 1, dm_suspension_list := [1]\<rparr>" "hdrs mem4 = hdrs mem3"
  "dm_request_size (dblocks mem4 1) = 40" "dm_alignment (dblocks mem4 1) = 0"
  by (simp_all add: mem4_def NU_Allocate_Aligned_Memory_def DMC_Allocate_def mem3 adjusted_request_def enlist_memory_caller_def
      runs_kernel2[unfolded One_nat_def] NU_SUSPEND_def inc32_def mem_eval split_beta)

lemma steps4: "mstep\<^sup>*\<^sup>* (mem0, \<lambda>_. {}, Map.empty) (mem4, A1, [4112 \<mapsto> 224])"
proof -
  from mem4(1) obtain leaves where run: "NU_Allocate_Aligned_Memory 7 True 40 0 NU_SUSPEND mem3 = Some (mem4, None, None, leaves)" ..
  have "mstep (mem1, A1, Map.empty) (mem3, A1, [4112 \<mapsto> 224])" using mstep.allocate[OF mem3(1), of A1 Map.empty] by simp
  moreover have "mstep (mem3, A1, [4112 \<mapsto> 224]) (mem4, A1, [4112 \<mapsto> 224])"
    using mstep.allocate[OF run, of A1 "[4112 \<mapsto> 224]"] by (simp add: mem3 runs_kernel2)
  ultimately show ?thesis using steps1 by (meson rtranclp.rtrancl_into_rtrancl)
qed

lemma mem4_served: "dm_suspension_list (mpools (fst (the (NU_Deallocate_Memory 4112 mem4))) 7) = []"
proof -
  have h1: "nm (hdrs mem1) 4336 = 4096" "\<not> fr (hdrs mem1) 4336" by (simp_all add: mem1_def NU_Create_Memory_Pool_def mem0_def mem_eval)
  define ph where "ph = DMC_Deallocate 4096 (mpools mem4 7, hdrs mem4)"
  have ph: "snd ph 4096 = \<lparr>dm_next_memory = 4336, dm_previous_memory = 4336, dm_memory_free = True, dm_memory_pool = 7,
      dm_next_free = 4096, dm_previous_free = 4096\<rparr>"
    "fst ph = (mpools mem4 7)\<lparr>dm_available := 224, dm_memory_list := 4096\<rparr>"
    by (simp_all add: ph_def DMC_Deallocate_def merge_previous_def merge_next_def link_free_def mem4 mem3 h1 mem_eval)
  obtain pc h where p: "ph = (pc, h)" by force
  have "search_blocks 8 40 0 h 4096 4096 (0, 0) = Some (4096, 224, 0, 0)"
    using ph by (subst search_blocks.simps) (simp add: p examine_block_def block_room_def mem_eval)
  then have "\<exists>pc' h'. DMC_Allocate 7 40 0 (pc, h) = Some ((pc', h'), 4096) \<and> dm_suspension_list pc' = [1]"
    using ph by (simp add: p DMC_Allocate_def mem4 mem3 take_block_def claim_block_def unlink_block_def DMC_Split_Block_def mem_eval)
  then obtain pc' h' where "DMC_Allocate 7 40 0 (pc, h) = Some ((pc', h'), 4096)" "dm_suspension_list pc' = [1]" by blast
  then show ?thesis
    using p ph unfolding ph_def
    by (simp add: NU_Deallocate_Memory_def mem4 mem4(4,5)[unfolded One_nat_def] mem3 mem_eval split_beta)
qed

theorem NU_Deallocate_Memory_serves_witness:
  "\<exists>s preempt. NU_Deallocate_Memory 4112 mem4 = Some (s, NU_SUCCESS, preempt) \<and> dm_suspension_list (mpools s 7) = [] \<and>
     is_ready 1 (dkern s) \<and> fst (allocate_resumed 1 s) = NU_SUCCESS \<and>
     snd (allocate_resumed 1 s) + 40 \<le> dm_next_memory (hdrs s (snd (allocate_resumed 1 s) - 16))"
proof -
  obtain B where ok: "conf_ok A1 B mem4 [4112 \<mapsto> 224]"
    using msteps_inv[OF steps4 conf_start[OF mem0]] by auto
  have v: "dm_id_valid (mpools mem4 7)" by (simp add: mem4 mem3)
  have m: "4112 \<in> live_of (B 7) (hdrs mem4)" using confD(4)[OF ok v] by (auto simp: A1_def)
  have ts: "[1] = dm_suspension_list (mpools mem4 7)" by (simp add: mem4)
  obtain s preempt k ptr where r: "NU_Deallocate_Memory 4112 mem4 = Some (s, NU_SUCCESS, preempt)"
    "ptr = (\<lambda>t. dm_return_pointer (dblocks s t))" "k \<le> length ([1] :: tid list)" "dm_suspension_list (mpools s 7) = drop k [1]"
    "\<forall>t \<in> set (take k [1]). is_ready t (dkern s) \<and> allocate_resumed t s = (NU_SUCCESS, ptr t) \<and>
      ptr t + dm_request_size (dblocks mem4 t) \<le> nm (hdrs s) (ptr t - 16) \<and>
      (dm_alignment (dblocks mem4 t) \<noteq> 0 \<longrightarrow> ptr t mod dm_alignment (dblocks mem4 t) = 0)"
    using NU_Deallocate_Memory_serves[OF confD(1)[OF ok] v m ts] by (elim exE conjE) (rule that)
  have "k = 1" using r(1,3,4) mem4_served by (cases k) auto
  then show ?thesis using r mem4(4) by simp
qed

lemma mem2_blocks: "nm (hdrs mem2) 4096 = 4132" "fr (hdrs mem2) 4132" "nm (hdrs mem2) 4132 = 4336"
    "mpools mem2 7 = (mpools mem1 7)\<lparr>dm_available := 188, dm_memory_list := 4132\<rparr>"
proof -
  have "search_blocks 8 20 0 (hdrs mem1) 4096 4096 (0, 0) = Some (4096, 224, 0, 0)"
    by (subst search_blocks.simps) (simp add: examine_block_def block_room_def mem1 mem_eval)
  then show "nm (hdrs mem2) 4096 = 4132" "fr (hdrs mem2) 4132" "nm (hdrs mem2) 4132 = 4336"
    "mpools mem2 7 = (mpools mem1 7)\<lparr>dm_available := 188, dm_memory_list := 4132\<rparr>"
    by (simp_all add: mem2_def NU_Allocate_Aligned_Memory_def DMC_Allocate_def take_block_def claim_block_def unlink_block_def
        drop_free_def DMC_Split_Block_def mem1 adjusted_request_def mem_eval)
qed

theorem NU_Reallocate_Aligned_Memory_moves_witness:
  "\<exists>s m preempt. NU_Reallocate_Aligned_Memory 7 (Some 4112) 40 0 0 mem2 = Some (s, Some NU_SUCCESS, Some m, preempt) \<and>
     m \<noteq> 4112 \<and> (\<forall>i < 20. dbytes s (m + i) = dbytes mem2 (4112 + i))"
proof -
  obtain B where ok: "conf_ok A1 B mem2 [4112 \<mapsto> 20]"
    using msteps_inv[OF steps2 conf_start[OF mem0]] by auto
  have v: "dm_id_valid (mpools mem2 7)" by (simp add: mem2_blocks mem1)
  have "4112 \<in> live_of (B 7) (hdrs mem2)" using confD(4)[OF ok v] by (auto simp: A1_def)
  then have "4096 \<in> B 7" by (simp add: live_of_iff used_def)
  then have "4132 \<in> frees (B 7) (hdrs mem2)"
    using tilesD(1)[OF pool_okD(1)[OF mem_invD(3)[OF confD(1)[OF ok] v]], of 4096] mem2_blocks by (simp add: frees_def)
  then have "fits_in 7 (adjusted_request (dm_min_allocation (mpools mem2 7)) 40) (adjusted_alignment 0) B mem2"
    unfolding fits_in_def by (rule bexI[rotated]) (simp add: fits_def start_of_def adjusted_alignment_def adjusted_request_def mem2_blocks mem1 mem_eval)
  from NU_Reallocate_Aligned_Memory_moves[OF ok _ v _ _ _ _ this, of 4112 20 0] show ?thesis
    by (simp add: mem2_blocks mem1) blast
qed

theorem memory_pool_well_formed_witness:
  "dm_pool_size (mpools mem4 7) = card (A1 7) \<and> dm_available (mpools mem4 7) = 0 \<and> waits_for 1 NU_MEMORY_SUSPEND (dkern mem4)"
  using memory_pool_well_formed[OF mem0 steps4, of 7] by (simp add: mem4 mem3)

end
