(* ===== verification/Net_Buffers.thy ===== *)
theory Net_Buffers
  imports Prelude "HOL-Library.Signed_Division"
begin

unbundle bit_operations_syntax

text \<open>
  Network buffers (\<open>os/networking/net/src/mem.c\<close>, \<open>mem_bi.c\<close>, \<open>mem_bcd.c\<close>, \<open>dev.c\<close>): a fixed pool of
  buffers, lists of buffers linked by \<open>next\<close> (free list, received packets, transmit queue), and packets
  as chains linked by \<open>next_buffer\<close>.

  The store maps addresses to buffer records; a list header holds the head and tail addresses, as in the
  code. \<open>packet\<close> is the byte array of the union \<open>me_data\<close>; the header fields that overlay its last bytes
  in a parent buffer are separate fields here, so nothing below depends on their value in a child buffer
  whose data extends over them. \<open>data_ptr\<close> is the offset of the data in the packet (\<open>None\<close> for the null
  pointer). The interrupt lock-out around each operation is not modelled: an operation is one step.

  The lemmas show that the pointer code implements FIFO queues (locale \<open>buffer_queues\<close>), that the chain
  operations move exactly the buffers of a chain, and that \<open>MEM_Buffers_Used\<close> counts the buffers that
  are not on the free list.
\<close>

section \<open>Data\<close>

definition MAX_BUFFERS :: nat where "MAX_BUFFERS = 50"
definition NET_PARENT_BUFFER_SIZE :: nat where "NET_PARENT_BUFFER_SIZE = 128"
definition me_bufhdr_size :: nat where "me_bufhdr_size = 28"
definition NET_MAX_BUFFER_SIZE :: nat where "NET_MAX_BUFFER_SIZE = NET_PARENT_BUFFER_SIZE + me_bufhdr_size"
definition NET_FREE_BUFFER_THRESHOLD :: nat where "NET_FREE_BUFFER_THRESHOLD = 10"
definition NET_PARENT :: "16 word" where "NET_PARENT = 0x200"
definition NET_TX_QUEUE :: "16 word" where "NET_TX_QUEUE = 0x1000"

text \<open>The list headers, by the object they are: two globals, a device's transmit queue, a port's lists.\<close>

datatype buffer_header = MEM_Buffer_Freelist | MEM_Buffer_List | dev_transq | port_list nat

type_synonym byte = "8 word"

record net_buffer =
  packet :: "byte list"
  mem_seqnum :: nat
  mem_dlist :: "buffer_header option"
  mem_buf_device :: "nat option"
  mem_option_len :: nat
  mem_retransmits :: int
  mem_tcp_data_len :: nat
  mem_total_data_len :: nat
  mem_port_index :: int
  nb_next :: addr
  next_buffer :: addr
  data_ptr :: "nat option"
  data_len :: nat
  mem_flags :: "16 word"
  chk_sum :: nat
  sum_data_ptr :: "nat option"

record mem =
  bufs :: "addr \<Rightarrow> net_buffer"
  hd_of :: "buffer_header \<Rightarrow> addr"
  tl_of :: "buffer_header \<Rightarrow> addr"
  MEM_Buffers_Used :: "16 word"
  waiting_tasks :: bool
  HISR_activations :: nat

definition upd_buf :: "(net_buffer \<Rightarrow> net_buffer) \<Rightarrow> addr \<Rightarrow> mem \<Rightarrow> mem" where
  "upd_buf f a m = m\<lparr>bufs := (bufs m)(a := f (bufs m a))\<rparr>"

lemma upd_buf_simps [simp]:
  "bufs (upd_buf f a m) = (bufs m)(a := f (bufs m a))"
  "hd_of (upd_buf f a m) = hd_of m" "tl_of (upd_buf f a m) = tl_of m"
  "MEM_Buffers_Used (upd_buf f a m) = MEM_Buffers_Used m"
  "waiting_tasks (upd_buf f a m) = waiting_tasks m"
  "HISR_activations (upd_buf f a m) = HISR_activations m"
  by (simp_all add: upd_buf_def)

section \<open>Operations\<close>

text \<open>The header of a buffer taken from the free list is cleared.\<close>

definition clear_header :: "net_buffer \<Rightarrow> net_buffer" where
  "clear_header n =
     n\<lparr>mem_seqnum := 0, mem_dlist := Some MEM_Buffer_Freelist, mem_buf_device := None,
       mem_option_len := 0, mem_retransmits := 0, mem_tcp_data_len := 0, mem_total_data_len := 0,
       mem_port_index := -1, chk_sum := 0, nb_next := NU_NULL, next_buffer := NU_NULL,
       data_ptr := None, data_len := 0, mem_flags := 0, sum_data_ptr := None\<rparr>"

definition MEM_Buffer_Dequeue :: "buffer_header option \<Rightarrow> mem \<Rightarrow> mem \<times> addr" where
  "MEM_Buffer_Dequeue hdr m =
    (case hdr of
       None \<Rightarrow> (m, NU_NULL)
     | Some h \<Rightarrow>
         if hd_of m h \<noteq> NU_NULL then
           (let node = hd_of m h;
                m1 = m\<lparr>hd_of := (hd_of m)(h := nb_next (bufs m node))\<rparr>;
                m2 = (if hd_of m1 h = NU_NULL then m1\<lparr>tl_of := (tl_of m1)(h := NU_NULL)\<rparr> else m1);
                m3 = (if h = MEM_Buffer_Freelist
                      then (upd_buf clear_header node m2)\<lparr>MEM_Buffers_Used := MEM_Buffers_Used m2 + 1\<rparr>
                      else m2)
            in (m3, node))
         else (m, NU_NULL))"

definition MEM_Buffer_Enqueue :: "buffer_header option \<Rightarrow> addr \<Rightarrow> mem \<Rightarrow> mem" where
  "MEM_Buffer_Enqueue hdr item m =
    (case hdr of
       None \<Rightarrow> m
     | Some h \<Rightarrow>
         if item \<noteq> NU_NULL then
           (let m1 = upd_buf (nb_next_update (\<lambda>_. NU_NULL)) item m;
                m2 = (if hd_of m1 h \<noteq> NU_NULL
                      then (upd_buf (nb_next_update (\<lambda>_. item)) (tl_of m1 h) m1)\<lparr>tl_of := (tl_of m1)(h := item)\<rparr>
                      else m1\<lparr>hd_of := (hd_of m1)(h := item), tl_of := (tl_of m1)(h := item)\<rparr>)
            in if h = MEM_Buffer_Freelist
               then m2\<lparr>MEM_Buffers_Used := MEM_Buffers_Used m2 - 1\<rparr>
               else m2)
         else m)"

text \<open>Waking the tasks that wait for buffers, at the end of every operation that frees some.\<close>

definition wake_waiting :: "mem \<Rightarrow> mem" where
  "wake_waiting m =
    (if waiting_tasks m \<and> int MAX_BUFFERS - uint (MEM_Buffers_Used m) > int NET_FREE_BUFFER_THRESHOLD
     then m\<lparr>HISR_activations := HISR_activations m + 1\<rparr> else m)"

text \<open>The loop that puts the buffers of a chain on a list; it ends when the chain does.\<close>

partial_function (option) free_chain :: "buffer_header option \<Rightarrow> addr \<Rightarrow> mem \<Rightarrow> mem option" where
  "free_chain dest tmp_ptr m =
    (if tmp_ptr = NU_NULL then Some m
     else (let m1 = MEM_Buffer_Enqueue dest tmp_ptr m
           in free_chain dest (next_buffer (bufs m1 tmp_ptr)) m1))"

declare free_chain.simps [code]

definition MEM_Buffer_Chain_Free :: "buffer_header option \<Rightarrow> buffer_header option \<Rightarrow> mem \<Rightarrow> mem option" where
  "MEM_Buffer_Chain_Free source dest m =
    (if source = None \<or> dest = None then Some m
     else (let (m1, tmp_ptr) = MEM_Buffer_Dequeue source m
           in map_option wake_waiting (free_chain dest tmp_ptr m1)))"

definition MEM_One_Buffer_Chain_Free :: "addr \<Rightarrow> buffer_header option \<Rightarrow> mem \<Rightarrow> mem option" where
  "MEM_One_Buffer_Chain_Free source dest m =
    (if source = NU_NULL \<or> dest = None then Some m
     else map_option wake_waiting
       (if dest = Some MEM_Buffer_Freelist then free_chain dest source m
        else Some (MEM_Buffer_Enqueue dest source m)))"

text \<open>The \<open>do ... while\<close> loop of \<open>MEM_Multiple_Buffer_Chain_Free\<close>; it returns \<open>source\<close> at its end.\<close>

partial_function (option) free_parts :: "addr \<Rightarrow> addr \<Rightarrow> mem \<Rightarrow> (mem \<times> addr) option" where
  "free_parts temp_ptr source m =
    (let m1 = MEM_Buffer_Enqueue (mem_dlist (bufs m temp_ptr)) source m;
         source' = next_buffer (bufs m1 source);
         temp_ptr' = (if source' \<noteq> NU_NULL \<and> mem_flags (bufs m1 source') AND NET_PARENT \<noteq> 0
                      then source' else temp_ptr)
     in if source' \<noteq> NU_NULL \<and> mem_dlist (bufs m1 temp_ptr') = Some MEM_Buffer_Freelist
        then free_parts temp_ptr' source' m1
        else Some (m1, source'))"

declare free_parts.simps [code]

definition MEM_Multiple_Buffer_Chain_Free :: "addr \<Rightarrow> mem \<Rightarrow> mem option" where
  "MEM_Multiple_Buffer_Chain_Free source m =
    (if source = NU_NULL then Some m
     else map_option (\<lambda>(m1, rest).
       wake_waiting
         (if rest \<noteq> NU_NULL then
            (if mem_dlist (bufs m1 rest) = None
             then upd_buf (mem_flags_update (\<lambda>f. f AND NOT NET_TX_QUEUE)) rest m1
             else MEM_Buffer_Enqueue (mem_dlist (bufs m1 rest)) rest m1)
          else m1)) (free_parts source source m))"

definition MEM_Update_Buffer_Lists :: "buffer_header option \<Rightarrow> buffer_header option \<Rightarrow> mem \<Rightarrow> mem \<times> addr" where
  "MEM_Update_Buffer_Lists source dest m =
    (let (m1, tmp_ptr) = MEM_Buffer_Dequeue source m
     in (if tmp_ptr \<noteq> NU_NULL then MEM_Buffer_Enqueue dest tmp_ptr m1 else m1, tmp_ptr))"

definition MEM_Buffer_Insert :: "buffer_header \<Rightarrow> addr \<Rightarrow> addr \<Rightarrow> addr \<Rightarrow> mem \<Rightarrow> mem" where
  "MEM_Buffer_Insert h item lpos fpos m =
    (let m1 = upd_buf (nb_next_update (\<lambda>_. lpos)) item m;
         m2 = (if fpos = NU_NULL then m1\<lparr>hd_of := (hd_of m1)(h := item)\<rparr>
               else upd_buf (nb_next_update (\<lambda>_. item)) fpos m1)
     in if fpos = tl_of m2 h then m2\<lparr>tl_of := (tl_of m2)(h := item)\<rparr> else m2)"

text \<open>
  The loop that links further buffers to a chain; \<open>None\<close> as second component: the list ran out (the
  caller then gives the chain back), otherwise the last buffer of the chain.
\<close>

fun link_buffers :: "nat \<Rightarrow> buffer_header option \<Rightarrow> addr \<Rightarrow> mem \<Rightarrow> mem \<times> addr option" where
  "link_buffers 0 header work m = (m, Some work)"
| "link_buffers (Suc n) header work m =
    (let (m1, b) = MEM_Buffer_Dequeue header m;
         m2 = upd_buf (next_buffer_update (\<lambda>_. b)) work m1
     in if b \<noteq> NU_NULL
        then link_buffers n header b (upd_buf (nb_next_update (\<lambda>_. NU_NULL)) work m2)
        else (m2, None))"

definition chain_rest :: "nat \<Rightarrow> buffer_header option \<Rightarrow> addr \<Rightarrow> mem \<Rightarrow> (mem \<times> addr) option" where
  "chain_rest n header ret m =
    (let (m3, work) = MEM_Buffer_Dequeue header m;
         m4 = upd_buf (next_buffer_update (\<lambda>_. work)) ret m3
     in if work \<noteq> NU_NULL then
          (case link_buffers n header work m4 of
             (m5, Some l) \<Rightarrow>
               Some (upd_buf (nb_next_update (\<lambda>_. NU_NULL)) l
                      (upd_buf (next_buffer_update (\<lambda>_. NU_NULL)) l m5), ret)
           | (m5, None) \<Rightarrow>
               map_option (\<lambda>m6. (m6, NU_NULL))
                 (MEM_One_Buffer_Chain_Free ret (Some MEM_Buffer_Freelist) m5))
        else map_option (\<lambda>m5. (m5, NU_NULL))
               (MEM_One_Buffer_Chain_Free ret (Some MEM_Buffer_Freelist) m4))"

text \<open>
  The value that a 32-bit signed variable (\<open>INT32\<close>) holds for the mathematical value \<open>z\<close>, and
  \<open>MEM_Buffer_Chain_Dequeue\<close>, which computes the number of further buffers in such a variable: \<open>sdiv\<close>
  truncates as the division of C does, and the loop from 1 runs \<open>num_bufs - 1\<close> times, or not at all.
\<close>

definition int32 :: "int \<Rightarrow> int" where
  "int32 z = (z + 2 ^ 31) mod 2 ^ 32 - 2 ^ 31"

definition MEM_Buffer_Chain_Dequeue :: "buffer_header option \<Rightarrow> int \<Rightarrow> mem \<Rightarrow> (mem \<times> addr) option" where
  "MEM_Buffer_Chain_Dequeue header nbytes m =
    (if header = None \<or> nbytes \<le> 0 then Some (m, NU_NULL)
     else
       (let (m1, ret) = MEM_Buffer_Dequeue header m
        in if ret = NU_NULL then Some (m1, NU_NULL)
           else
             (let m2 = upd_buf (next_buffer_update (\<lambda>_. NU_NULL)) ret
                         (upd_buf (nb_next_update (\<lambda>_. NU_NULL)) ret m1);
                  num_bufs = int32 (nbytes + (int me_bufhdr_size - 1)) sdiv int NET_MAX_BUFFER_SIZE
              in if num_bufs = 0 then Some (m2, ret)
                 else chain_rest (nat (num_bufs - 1)) header ret m2)))"

text \<open>
  \<open>MEM_Init\<close>: the headers are cleared, the buffers that \<open>NU_Allocate_Memory\<close> returns (\<open>alloc i\<close> for the
  \<open>i\<close>-th call, \<open>None\<close> when it fails) are aligned and put on the free list. \<open>None\<close> is the error \<open>NU_MEM_ALLOC\<close>.
  The creation of the suspension HISR at the end is left out.
\<close>

definition REQ_ALIGNMENT :: nat where "REQ_ALIGNMENT = 16"

definition align_ptr :: "addr \<Rightarrow> addr" where
  "align_ptr ptr = (if ptr mod REQ_ALIGNMENT \<noteq> 0 then ptr + (REQ_ALIGNMENT - ptr mod REQ_ALIGNMENT) else ptr)"

fun init_buffers :: "(nat \<Rightarrow> addr option) \<Rightarrow> nat list \<Rightarrow> mem \<Rightarrow> mem option" where
  "init_buffers alloc [] m = Some m"
| "init_buffers alloc (i # is) m =
    (case alloc i of
       None \<Rightarrow> None
     | Some ptr \<Rightarrow> init_buffers alloc is (MEM_Buffer_Enqueue (Some MEM_Buffer_Freelist) (align_ptr ptr) m))"

definition MEM_Init :: "(nat \<Rightarrow> addr option) \<Rightarrow> mem \<Rightarrow> mem option" where
  "MEM_Init alloc m =
    (let m1 = m\<lparr>hd_of := (hd_of m)(MEM_Buffer_List := NU_NULL, MEM_Buffer_Freelist := NU_NULL),
               tl_of := (tl_of m)(MEM_Buffer_List := NU_NULL, MEM_Buffer_Freelist := NU_NULL),
               waiting_tasks := False, MEM_Buffers_Used := of_nat MAX_BUFFERS\<rparr>
     in map_option (\<lambda>m2. m2\<lparr>MEM_Buffers_Used := 0\<rparr>) (init_buffers alloc [0..<MAX_BUFFERS] m1))"

section \<open>Linked lists in the store\<close>

fun path :: "(addr \<Rightarrow> addr) \<Rightarrow> addr \<Rightarrow> addr list \<Rightarrow> bool" where
  "path f p [] \<longleftrightarrow> p = NU_NULL"
| "path f p (x # xs) \<longleftrightarrow> p = x \<and> x \<noteq> NU_NULL \<and> path f (f x) xs"

lemma path_upd [simp]: "a \<notin> set xs \<Longrightarrow> path (f(a := v)) p xs = path f p xs"
  by (induction xs arbitrary: p) auto

lemma path_cong: "(\<And>a. a \<in> set xs \<Longrightarrow> f a = g a) \<Longrightarrow> path f p xs = path g p xs"
  by (induction xs arbitrary: p) auto

lemma path_nonnull: "path f p xs \<Longrightarrow> NU_NULL \<notin> set xs"
  by (induction xs arbitrary: p) auto

lemma path_head: "path f p xs \<Longrightarrow> p = NU_NULL \<longleftrightarrow> xs = []"
  by (cases xs) auto

lemma path_unique: "path f p xs \<Longrightarrow> path f p ys \<Longrightarrow> xs = ys"
proof (induction xs arbitrary: p ys)
  case Nil
  then show ?case by (cases ys) auto
next
  case (Cons x xs)
  then show ?case by (cases ys) auto
qed

lemma path_snoc:
  "path f p xs \<Longrightarrow> xs \<noteq> [] \<Longrightarrow> distinct xs \<Longrightarrow> y \<notin> set xs \<Longrightarrow> y \<noteq> NU_NULL \<Longrightarrow>
   path (f(y := NU_NULL, last xs := y)) p (xs @ [y])"
proof (induction xs arbitrary: p)
  case (Cons x xs)
  show ?case
  proof (cases xs)
    case Nil
    then show ?thesis using Cons.prems by auto
  next
    case (Cons x' xs')
    then have "x \<noteq> last xs" using Cons.prems(3) by auto
    moreover have "path (f(y := NU_NULL, last xs := y)) (f x) (xs @ [y])"
      by (rule Cons.IH) (use Cons.prems Cons in auto)
    moreover have "last (x # xs) = last xs" using Cons by simp
    ultimately show ?thesis using Cons.prems(1,4) by (simp add: fun_upd_def del: last.simps)
  qed
qed simp

lemma path_last_null: "path f p xs \<Longrightarrow> xs \<noteq> [] \<Longrightarrow> f (last xs) = NU_NULL"
  by (induction xs arbitrary: p) auto

lemma path_end: "path f p xs \<Longrightarrow> xs \<noteq> [] \<Longrightarrow> path (f(last xs := NU_NULL)) p xs"
  by (metis fun_upd_triv path_last_null)

definition nxt :: "mem \<Rightarrow> addr \<Rightarrow> addr" where
  "nxt m = (\<lambda>a. nb_next (bufs m a))"

definition nbf :: "mem \<Rightarrow> addr \<Rightarrow> addr" where
  "nbf m = (\<lambda>a. next_buffer (bufs m a))"

lemma links_upd [simp]:
  "nxt (upd_buf f a m) = (nxt m)(a := nb_next (f (bufs m a)))"
  "nbf (upd_buf f a m) = (nbf m)(a := next_buffer (f (bufs m a)))"
  "nxt (m\<lparr>hd_of := x\<rparr>) = nxt m" "nxt (m\<lparr>tl_of := x\<rparr>) = nxt m" "nxt (m\<lparr>MEM_Buffers_Used := u\<rparr>) = nxt m"
  "nbf (m\<lparr>hd_of := x\<rparr>) = nbf m" "nbf (m\<lparr>tl_of := x\<rparr>) = nbf m" "nbf (m\<lparr>MEM_Buffers_Used := u\<rparr>) = nbf m"
  "nxt (m\<lparr>HISR_activations := n\<rparr>) = nxt m" "nbf (m\<lparr>HISR_activations := n\<rparr>) = nbf m"
  by (auto simp: nxt_def nbf_def)

text \<open>
  \<open>pool m Q\<close>: header \<open>h\<close> heads the list \<open>Q h\<close>, no buffer is on two lists or twice on one, and
  \<open>MEM_Buffers_Used\<close> is the number of buffers of the pool that are not free.
\<close>

definition queue_rep :: "mem \<Rightarrow> buffer_header \<Rightarrow> addr list \<Rightarrow> bool" where
  "queue_rep m h xs \<longleftrightarrow> path (nxt m) (hd_of m h) xs \<and> distinct xs \<and>
     tl_of m h = (if xs = [] then NU_NULL else last xs)"

type_synonym queues = "buffer_header \<Rightarrow> addr list"

definition pool :: "mem \<Rightarrow> queues \<Rightarrow> bool" where
  "pool m Q \<longleftrightarrow>
     (\<forall>h. queue_rep m h (Q h)) \<and> (\<forall>h h'. h \<noteq> h' \<longrightarrow> set (Q h) \<inter> set (Q h') = {}) \<and>
     MEM_Buffers_Used m + of_nat (length (Q MEM_Buffer_Freelist)) = of_nat MAX_BUFFERS"

definition unlisted :: "addr \<Rightarrow> queues \<Rightarrow> bool" where
  "unlisted a Q \<longleftrightarrow> (\<forall>h. a \<notin> set (Q h))"

lemma pool_empty: "pool m Q \<Longrightarrow> Q h = [] \<longleftrightarrow> hd_of m h = NU_NULL"
  using path_head[of "nxt m" "hd_of m h" "Q h"] by (auto simp: pool_def queue_rep_def)

lemma pool_nonnull: "pool m Q \<Longrightarrow> a \<in> set (Q h) \<Longrightarrow> a \<noteq> NU_NULL"
  using path_nonnull[of "nxt m" "hd_of m h" "Q h"] by (metis pool_def queue_rep_def)

lemma pool_disj: "pool m Q \<Longrightarrow> g \<noteq> h \<Longrightarrow> a \<in> set (Q g) \<Longrightarrow> a \<notin> set (Q h)"
  unfolding pool_def by blast

lemma pool_disj_upd:
  assumes "pool m Q" "g \<noteq> g'" "set xs \<subseteq> insert a (set (Q h))" "\<And>g. a \<notin> set (Q g) \<or> g = h"
  shows "set ((Q(h := xs)) g) \<inter> set ((Q(h := xs)) g') = {}"
proof -
  have key: "b \<notin> set (Q k)" if "b \<in> set xs" "k \<noteq> h" for b k
    using assms(3) assms(4)[of k] pool_disj[OF assms(1), of h k b] that by auto
  show ?thesis
  proof (cases "g = h")
    case True
    then show ?thesis using key assms(2) by auto
  next
    case False
    then show ?thesis using key[OF _ False] pool_disj[OF assms(1,2)] by (cases "g' = h") auto
  qed
qed

lemma Dequeue_empty: "pool m Q \<Longrightarrow> Q h = [] \<Longrightarrow> MEM_Buffer_Dequeue (Some h) m = (m, NU_NULL)"
  using pool_empty by (simp add: MEM_Buffer_Dequeue_def)

lemma Dequeue_Cons:
  assumes pool: "pool m Q" and Q: "Q h = x # xs"
  shows "snd (MEM_Buffer_Dequeue (Some h) m) = x"
    and "pool (fst (MEM_Buffer_Dequeue (Some h) m)) (Q(h := xs))"
    and "bufs (fst (MEM_Buffer_Dequeue (Some h) m)) =
      (if h = MEM_Buffer_Freelist then (bufs m)(x := clear_header (bufs m x)) else bufs m)"
proof -
  have q: "queue_rep m g (Q g)" for g using pool by (simp add: pool_def)
  have x: "hd_of m h = x" "x \<noteq> NU_NULL" "path (nxt m) (nb_next (bufs m x)) xs" "x \<notin> set xs" "distinct xs"
    "tl_of m h = (if xs = [] then x else last xs)"
    using q[of h] Q by (auto simp: queue_rep_def nxt_def)
  have xo: "x \<notin> set (Q g)" if "g \<noteq> h" for g using pool_disj[OF pool, of h g x] Q that by simp
  have e: "nb_next (bufs m x) = NU_NULL \<longleftrightarrow> xs = []" using path_head[OF x(3)] .
  show "snd (MEM_Buffer_Dequeue (Some h) m) = x" "bufs (fst (MEM_Buffer_Dequeue (Some h) m)) =
      (if h = MEM_Buffer_Freelist then (bufs m)(x := clear_header (bufs m x)) else bufs m)"
    using x by (simp_all add: MEM_Buffer_Dequeue_def Let_def)
  have "queue_rep (fst (MEM_Buffer_Dequeue (Some h) m)) g ((Q(h := xs)) g)" for g
    using q[of g] x xo e by (auto simp: queue_rep_def MEM_Buffer_Dequeue_def Let_def)
  moreover have "set ((Q(h := xs)) g) \<inter> set ((Q(h := xs)) g') = {}" if "g \<noteq> g'" for g g'
    by (rule pool_disj_upd[OF pool that, of _ x]) (use Q xo in auto)
  moreover have "MEM_Buffers_Used (fst (MEM_Buffer_Dequeue (Some h) m)) +
      of_nat (length ((Q(h := xs)) MEM_Buffer_Freelist)) = of_nat MAX_BUFFERS"
    using pool Q x by (auto simp: pool_def MEM_Buffer_Dequeue_def Let_def algebra_simps)
  ultimately show "pool (fst (MEM_Buffer_Dequeue (Some h) m)) (Q(h := xs))" by (simp add: pool_def)
qed

text \<open>Putting a buffer on a list changes no field of any buffer but \<open>next\<close>.\<close>

lemma Enqueue_bufs:
  "(bufs (MEM_Buffer_Enqueue hdr item m) a)\<lparr>nb_next := v\<rparr> = (bufs m a)\<lparr>nb_next := v\<rparr>"
  by (auto simp: MEM_Buffer_Enqueue_def Let_def split: option.splits)

lemma Enqueue_fields [simp]:
  "next_buffer (bufs (MEM_Buffer_Enqueue hdr item m) a) = next_buffer (bufs m a)"
  "packet (bufs (MEM_Buffer_Enqueue hdr item m) a) = packet (bufs m a)"
  "data_ptr (bufs (MEM_Buffer_Enqueue hdr item m) a) = data_ptr (bufs m a)"
  "data_len (bufs (MEM_Buffer_Enqueue hdr item m) a) = data_len (bufs m a)"
  "mem_dlist (bufs (MEM_Buffer_Enqueue hdr item m) a) = mem_dlist (bufs m a)"
  "mem_flags (bufs (MEM_Buffer_Enqueue hdr item m) a) = mem_flags (bufs m a)"
  "mem_total_data_len (bufs (MEM_Buffer_Enqueue hdr item m) a) = mem_total_data_len (bufs m a)"
  by (auto simp: MEM_Buffer_Enqueue_def Let_def split: option.splits)

lemma Enqueue_nbf [simp]: "nbf (MEM_Buffer_Enqueue hdr item m) = nbf m"
  by (simp add: nbf_def)

lemma Enqueue_pool:
  assumes pool: "pool m Q" and item: "unlisted item Q" "item \<noteq> NU_NULL"
  shows "pool (MEM_Buffer_Enqueue (Some h) item m) (Q(h := Q h @ [item]))"
proof -
  let ?m = "MEM_Buffer_Enqueue (Some h) item m"
  have q: "queue_rep m g (Q g)" for g using pool by (simp add: pool_def)
  have un: "item \<notin> set (Q g)" for g using item by (simp add: unlisted_def)
  have last: "last (Q h) \<notin> set (Q g)" if "g \<noteq> h" "Q h \<noteq> []" for g
    using pool_disj[OF pool, of h g] that last_in_set[of "Q h"] by simp
  have il: "Q h \<noteq> [] \<Longrightarrow> last (Q h) \<noteq> item" using un[of h] last_in_set by metis
  have "queue_rep ?m g ((Q(h := Q h @ [item])) g)" for g
  proof (cases "Q h = []")
    case True
    then show ?thesis using q[of g] un[of g] item(2) pool_empty[OF pool, of h]
      by (auto simp: queue_rep_def MEM_Buffer_Enqueue_def Let_def)
  next
    case False
    then have hd: "hd_of m h \<noteq> NU_NULL" "tl_of m h = last (Q h)"
      using pool_empty[OF pool] q[of h] by (auto simp: queue_rep_def)
    have nx: "nxt ?m = (nxt m)(item := NU_NULL, last (Q h) := item)"
      using hd item(2) il[OF False] by (auto simp: MEM_Buffer_Enqueue_def Let_def)
    have hdtl: "hd_of ?m = hd_of m" "tl_of ?m = (tl_of m)(h := item)"
      using hd item(2) by (auto simp: MEM_Buffer_Enqueue_def Let_def)
    have "path (nxt ?m) (hd_of m h) (Q h @ [item])"
      unfolding nx by (rule path_snoc) (use q[of h] un False item(2) in \<open>auto simp: queue_rep_def\<close>)
    then show ?thesis using q[of g] un last[OF _ False]
      by (auto simp: queue_rep_def hdtl) (auto simp: nx)
  qed
  moreover have "set ((Q(h := Q h @ [item])) g) \<inter> set ((Q(h := Q h @ [item])) g') = {}" if "g \<noteq> g'" for g g'
    by (rule pool_disj_upd[OF pool that, of _ item]) (use un in auto)
  moreover have "MEM_Buffers_Used ?m + of_nat (length ((Q(h := Q h @ [item])) MEM_Buffer_Freelist)) = of_nat MAX_BUFFERS"
    using pool item(2) by (auto simp: pool_def MEM_Buffer_Enqueue_def Let_def algebra_simps)
  ultimately show ?thesis by (simp add: pool_def)
qed

section \<open>The queue interface\<close>

text \<open>
  What the driver and the chain operations rely on: \<open>enq\<close> appends, \<open>deq\<close> takes the first element or
  returns the null address, other queues stay as they are.
\<close>

locale buffer_queues =
  fixes rep :: "'m \<Rightarrow> ('h \<Rightarrow> 'a list) \<Rightarrow> bool"
    and enq :: "'h \<Rightarrow> 'a \<Rightarrow> 'm \<Rightarrow> 'm" and deq :: "'h \<Rightarrow> 'm \<Rightarrow> 'm \<times> 'a" and null :: 'a
  assumes rep_null: "rep m Q \<Longrightarrow> null \<notin> set (Q h)"
    and deq_empty: "rep m Q \<Longrightarrow> Q h = [] \<Longrightarrow> deq h m = (m, null)"
    and deq_Cons: "rep m Q \<Longrightarrow> Q h = x # xs \<Longrightarrow> snd (deq h m) = x \<and> rep (fst (deq h m)) (Q(h := xs))"
    and enq_rep: "rep m Q \<Longrightarrow> x \<noteq> null \<Longrightarrow> (\<And>h. x \<notin> set (Q h)) \<Longrightarrow> rep (enq h x m) (Q(h := Q h @ [x]))"
begin

lemma enq_all:
  "rep m Q \<Longrightarrow> distinct xs \<Longrightarrow> null \<notin> set xs \<Longrightarrow> (\<And>x h. x \<in> set xs \<Longrightarrow> x \<notin> set (Q h)) \<Longrightarrow>
   rep (fold (enq h) xs m) (Q(h := Q h @ xs))"
proof (induction xs arbitrary: m Q)
  case (Cons x xs)
  have "rep (enq h x m) (Q(h := Q h @ [x]))"
    by (rule enq_rep) (use Cons.prems in auto)
  then have "rep (fold (enq h) xs (enq h x m)) ((Q(h := Q h @ [x]))(h := (Q(h := Q h @ [x])) h @ xs))"
    by (rule Cons.IH) (use Cons.prems in \<open>auto split: if_splits\<close>)
  moreover have "(Q(h := Q h @ [x]))(h := (Q(h := Q h @ [x])) h @ xs) = Q(h := Q h @ x # xs)" by auto
  ultimately show ?case by (simp only: fold_simps)
qed simp

lemma move:
  assumes rep: "rep m Q" and Q: "Q s = x # xs" and disj: "\<And>h. h \<noteq> s \<Longrightarrow> x \<notin> set (Q h)" "x \<notin> set xs"
  shows "rep (enq d (snd (deq s m)) (fst (deq s m))) (Q(s := xs, d := (Q(s := xs)) d @ [x]))"
proof -
  have d: "snd (deq s m) = x" "rep (fst (deq s m)) (Q(s := xs))" using deq_Cons[OF rep Q] by auto
  have "x \<noteq> null" using rep_null[OF rep, of s] Q by auto
  then have "rep (enq d x (fst (deq s m))) ((Q(s := xs))(d := (Q(s := xs)) d @ [x]))"
    by (rule enq_rep[OF d(2)]) (use disj in auto)
  then show ?thesis by (simp add: d)
qed

end

interpretation nbq: buffer_queues pool "\<lambda>h. MEM_Buffer_Enqueue (Some h)" "\<lambda>h. MEM_Buffer_Dequeue (Some h)" NU_NULL
proof unfold_locales
  fix m :: mem and Q :: queues and h x xs
  assume p: "pool m Q"
  show "NU_NULL \<notin> set (Q h)" using pool_nonnull[OF p] by blast
  show "Q h = [] \<Longrightarrow> MEM_Buffer_Dequeue (Some h) m = (m, NU_NULL)" by (rule Dequeue_empty[OF p])
  show "Q h = x # xs \<Longrightarrow> snd (MEM_Buffer_Dequeue (Some h) m) = x \<and>
      pool (fst (MEM_Buffer_Dequeue (Some h) m)) (Q(h := xs))"
    using Dequeue_Cons[OF p] by blast
  show "x \<noteq> NU_NULL \<Longrightarrow> (\<And>h. x \<notin> set (Q h)) \<Longrightarrow> pool (MEM_Buffer_Enqueue (Some h) x m) (Q(h := Q h @ [x]))"
    using Enqueue_pool[OF p] by (simp add: unlisted_def)
qed

section \<open>Chains\<close>

abbreviation enq_free :: "addr \<Rightarrow> mem \<Rightarrow> mem" where
  "enq_free \<equiv> MEM_Buffer_Enqueue (Some MEM_Buffer_Freelist)"

lemma fold_enq_fields [simp]:
  "next_buffer (bufs (fold (MEM_Buffer_Enqueue d) cs m) a) = next_buffer (bufs m a)"
  "packet (bufs (fold (MEM_Buffer_Enqueue d) cs m) a) = packet (bufs m a)"
  "data_ptr (bufs (fold (MEM_Buffer_Enqueue d) cs m) a) = data_ptr (bufs m a)"
  "data_len (bufs (fold (MEM_Buffer_Enqueue d) cs m) a) = data_len (bufs m a)"
  "mem_dlist (bufs (fold (MEM_Buffer_Enqueue d) cs m) a) = mem_dlist (bufs m a)"
  "mem_flags (bufs (fold (MEM_Buffer_Enqueue d) cs m) a) = mem_flags (bufs m a)"
  "mem_total_data_len (bufs (fold (MEM_Buffer_Enqueue d) cs m) a) = mem_total_data_len (bufs m a)"
  "nbf (fold (MEM_Buffer_Enqueue d) cs m) = nbf m"
  by (induction cs arbitrary: m) simp_all

text \<open>The loop over a chain ends, and puts its buffers on the list in the order of the chain.\<close>

lemma free_chain_path:
  "path (nbf m) p cs \<Longrightarrow> free_chain d p m = Some (fold (MEM_Buffer_Enqueue d) cs m)"
proof (induction cs arbitrary: p m)
  case Nil
  then show ?case by (subst free_chain.simps) simp
next
  case (Cons c cs)
  have "free_chain d (nbf m c) (MEM_Buffer_Enqueue d c m) =
      Some (fold (MEM_Buffer_Enqueue d) cs (MEM_Buffer_Enqueue d c m))"
    by (rule Cons.IH) (use Cons.prems in simp)
  then show ?case using Cons.prems by (subst free_chain.simps) (simp add: nbf_def)
qed

definition freeable :: "addr \<Rightarrow> addr list \<Rightarrow> mem \<Rightarrow> bool" where
  "freeable t cs m \<longleftrightarrow> mem_dlist (bufs m t) = Some MEM_Buffer_Freelist \<and>
     (\<forall>c \<in> set cs. mem_flags (bufs m c) AND NET_PARENT \<noteq> 0 \<longrightarrow> mem_dlist (bufs m c) = Some MEM_Buffer_Freelist)"

lemma free_parts_path:
  "path (nbf m) c (c # cs) \<Longrightarrow> freeable t (c # cs) m \<Longrightarrow>
   free_parts t c m = Some (fold enq_free (c # cs) m, NU_NULL)"
proof (induction cs arbitrary: t c m)
  case Nil
  then show ?case
    by (subst free_parts.simps) (simp add: freeable_def Let_def nbf_def)
next
  case (Cons c' cs)
  define m1 where "m1 = enq_free c m"
  define t' where "t' = (if mem_flags (bufs m1 c') AND NET_PARENT \<noteq> 0 then c' else t)"
  have c': "next_buffer (bufs m c) = c'" "c' \<noteq> NU_NULL" using Cons.prems(1) by (auto simp: nbf_def)
  have fr: "freeable t' (c' # cs) m1" using Cons.prems(2) by (auto simp: freeable_def m1_def t'_def)
  have "free_parts t c m = free_parts t' c' m1"
    using Cons.prems(2) c' fr
    by (subst free_parts.simps) (simp add: freeable_def Let_def m1_def t'_def)
  also have "\<dots> = Some (fold enq_free (c' # cs) m1, NU_NULL)"
    by (rule Cons.IH) (use Cons.prems(1) fr in \<open>auto simp: m1_def\<close>)
  finally show ?case by (simp add: m1_def)
qed

lemma wake_simps [simp]:
  "bufs (wake_waiting m) = bufs m" "hd_of (wake_waiting m) = hd_of m" "tl_of (wake_waiting m) = tl_of m"
  "MEM_Buffers_Used (wake_waiting m) = MEM_Buffers_Used m" "nxt (wake_waiting m) = nxt m"
  "nbf (wake_waiting m) = nbf m"
  by (simp_all add: wake_waiting_def)

lemma wake_pool [simp]: "pool (wake_waiting m) Q = pool m Q"
  by (simp add: pool_def queue_rep_def)

lemma Multiple_Free_path:
  assumes "path (nbf m) c (c # cs)" "freeable c (c # cs) m"
  shows "MEM_Multiple_Buffer_Chain_Free c m = Some (wake_waiting (fold enq_free (c # cs) m))"
  using free_parts_path[OF assms] assms(1) by (simp add: MEM_Multiple_Buffer_Chain_Free_def)

lemma Dequeue_free_nbf:
  "pool m Q \<Longrightarrow> Q MEM_Buffer_Freelist = x # xs \<Longrightarrow>
   nbf (fst (MEM_Buffer_Dequeue (Some MEM_Buffer_Freelist) m)) = (nbf m)(x := NU_NULL)"
  using Dequeue_Cons(3)[of m Q MEM_Buffer_Freelist x xs] by (auto simp: nbf_def clear_header_def)

lemma pool_upd_unlisted:
  assumes "pool m Q" "unlisted a Q"
  shows "pool (upd_buf f a m) Q"
  using assms by (simp add: pool_def queue_rep_def unlisted_def)

lemma pool_upd_nbf:
  assumes "pool m Q" "\<And>n. nb_next (f n) = nb_next n"
  shows "pool (upd_buf f a m) Q"
proof -
  have "nxt (upd_buf f a m) = nxt m" using assms(2) by (auto simp: nxt_def)
  then show ?thesis using assms(1) by (simp add: pool_def queue_rep_def del: links_upd)
qed

lemma unlisted_dequeued:
  "pool m Q \<Longrightarrow> Q h = x # xs \<Longrightarrow> unlisted x (Q(h := xs))"
  unfolding unlisted_def
proof
  fix g assume p: "pool m Q" and Q: "Q h = x # xs"
  have "distinct (Q h)" using p by (simp add: pool_def queue_rep_def)
  then show "x \<notin> set ((Q(h := xs)) g)" using Q pool_disj[OF p, of h g x] by auto
qed

text \<open>
  Linking \<open>n\<close> further buffers of the free list behind \<open>work\<close>: either the list is long enough and the
  chain has exactly its first \<open>n\<close> buffers, or the chain takes the whole list.
\<close>

lemma link_buffers_chain:
  assumes "pool m Q" "Q MEM_Buffer_Freelist = bs" "unlisted work Q" "work \<noteq> NU_NULL" "nbf m work = NU_NULL"
  shows "let (m', l) = link_buffers n (Some MEM_Buffer_Freelist) work m in
    pool m' (Q(MEM_Buffer_Freelist := drop n bs)) \<and> path (nbf m') work (work # take n bs) \<and>
    (\<forall>a. a \<notin> insert work (set bs) \<longrightarrow> nbf m' a = nbf m a) \<and>
    l = (if n \<le> length bs then Some (last (work # take n bs)) else None)"
  using assms
proof (induction n arbitrary: work m Q bs)
  case 0
  then have "Q(MEM_Buffer_Freelist := drop 0 bs) = Q" by auto
  then show ?case using 0 by (simp only: link_buffers.simps Let_def prod.case) simp
next
  case (Suc n)
  let ?deq = "MEM_Buffer_Dequeue (Some MEM_Buffer_Freelist) m"
  show ?case
  proof (cases bs)
    case Nil
    have "pool (upd_buf (next_buffer_update (\<lambda>_. NU_NULL)) work m) Q"
      by (rule pool_upd_nbf[OF Suc.prems(1)]) simp
    then show ?thesis using Dequeue_empty[OF Suc.prems(1)] Suc.prems Nil by (auto simp: fun_upd_idem)
  next
    case (Cons b bs')
    have Q: "Q MEM_Buffer_Freelist = b # bs'" using Suc.prems(2) Cons by simp
    define m1 where "m1 = fst ?deq"
    have d: "?deq = (m1, b)" "pool m1 (Q(MEM_Buffer_Freelist := bs'))" "nbf m1 = (nbf m)(b := NU_NULL)"
      using Dequeue_Cons[OF Suc.prems(1) Q] Dequeue_free_nbf[OF Suc.prems(1) Q] by (auto simp: m1_def prod_eq_iff)
    define m3 where "m3 = upd_buf (nb_next_update (\<lambda>_. NU_NULL)) work (upd_buf (next_buffer_update (\<lambda>_. b)) work m1)"
    have bn: "b \<noteq> NU_NULL" "b \<notin> set bs'" using pool_nonnull[OF Suc.prems(1), of b MEM_Buffer_Freelist] Q Suc.prems(1)
      by (auto simp: pool_def queue_rep_def) (metis distinct.simps(2))
    have wb: "work \<noteq> b" "work \<notin> set bs'" using Suc.prems(3) Q by (auto simp: unlisted_def) (metis list.set_intros)+
    have uw: "unlisted work (Q(MEM_Buffer_Freelist := bs'))" using Suc.prems(3) wb by (simp add: unlisted_def)
    have p3: "pool m3 (Q(MEM_Buffer_Freelist := bs'))" unfolding m3_def
      by (intro pool_upd_unlisted uw d)
    have nb3: "nbf m3 = (nbf m)(b := NU_NULL, work := b)" by (simp add: m3_def d(3))
    have q1: "(Q(MEM_Buffer_Freelist := bs')) MEM_Buffer_Freelist = bs'" by simp
    have n0: "nbf m3 b = NU_NULL" using wb(1) by (simp add: nb3)
    obtain m' l where r: "link_buffers n (Some MEM_Buffer_Freelist) b m3 = (m', l)" by force
    have IH: "pool m' (Q(MEM_Buffer_Freelist := drop n bs'))" "path (nbf m') b (b # take n bs')"
      "\<forall>a. a \<notin> insert b (set bs') \<longrightarrow> nbf m' a = nbf m3 a"
      "l = (if n \<le> length bs' then Some (last (b # take n bs')) else None)"
      using Suc.IH[OF p3 q1 unlisted_dequeued[OF Suc.prems(1) Q] bn(1) n0]
      by (auto simp: Let_def r simp del: fun_upd_apply)
    have "link_buffers (Suc n) (Some MEM_Buffer_Freelist) work m = (m', l)"
      using d(1) bn(1) r by (simp add: m3_def)
    moreover have "nbf m' work = b" using IH(3) wb nb3 by simp
    moreover have "\<forall>a. a \<notin> insert work (set bs) \<longrightarrow> nbf m' a = nbf m a" using IH(3) Cons nb3 by simp
    ultimately show ?thesis using IH(1,2,4) Cons Suc.prems(4)
      by (simp del: fun_upd_apply link_buffers.simps)
  qed
qed

section \<open>Properties\<close>

text \<open>
  The lists of network buffers are FIFO queues: \<open>MEM_Update_Buffer_Lists\<close> takes the first buffer of
  the source list, appends it to the destination list (the two may be the same list) and returns it;
  from an empty list it returns \<open>NU_NULL\<close> and changes nothing. The links in the store stay well formed and
  the count of used buffers stays right.
\<close>

theorem MEM_Update_Buffer_Lists_moves:
  assumes "pool m Q"
  shows "case Q s of
      [] \<Rightarrow> MEM_Update_Buffer_Lists (Some s) (Some d) m = (m, NU_NULL)
    | x # xs \<Rightarrow> snd (MEM_Update_Buffer_Lists (Some s) (Some d) m) = x \<and>
        pool (fst (MEM_Update_Buffer_Lists (Some s) (Some d) m)) (Q(s := xs, d := (Q(s := xs)) d @ [x]))"
proof (cases "Q s")
  case Nil
  then show ?thesis using Dequeue_empty[OF assms] by (simp add: MEM_Update_Buffer_Lists_def)
next
  case (Cons x xs)
  have x: "x \<noteq> NU_NULL" using pool_nonnull[OF assms, of x s] Cons by simp
  have u: "unlisted x (Q(s := xs))" by (rule unlisted_dequeued[OF assms Cons])
  have "pool (MEM_Buffer_Enqueue (Some d) x (fst (MEM_Buffer_Dequeue (Some s) m)))
      ((Q(s := xs))(d := (Q(s := xs)) d @ [x]))"
    by (rule Enqueue_pool[OF Dequeue_Cons(2)[OF assms Cons] u x])
  then show ?thesis using Cons x Dequeue_Cons(1)[OF assms Cons]
    by (simp add: MEM_Update_Buffer_Lists_def case_prod_beta del: fun_upd_apply)
qed

text \<open>
  Freeing a chain to the free list ends, appends exactly the buffers of the chain, in their order,
  and keeps the lists well formed and \<open>MEM_Buffers_Used\<close> equal to the number of buffers in use.
\<close>

theorem MEM_One_Buffer_Chain_Free_chain:
  assumes "pool m Q" and "path (\<lambda>a. next_buffer (bufs m a)) c cs" and "cs \<noteq> []" and "distinct cs"
    and "\<forall>x \<in> set cs. \<forall>h. x \<notin> set (Q h)"
  shows "\<exists>m'. MEM_One_Buffer_Chain_Free c (Some MEM_Buffer_Freelist) m = Some m' \<and>
    pool m' (Q(MEM_Buffer_Freelist := Q MEM_Buffer_Freelist @ cs))"
proof -
  have p: "path (nbf m) c cs" using assms(2) by (simp add: nbf_def)
  have c: "c \<noteq> NU_NULL" "NU_NULL \<notin> set cs" using path_head[OF p] path_nonnull[OF p] assms(3) by auto
  have "pool (fold enq_free cs m) (Q(MEM_Buffer_Freelist := Q MEM_Buffer_Freelist @ cs))"
    by (rule nbq.enq_all[OF assms(1,4) c(2)]) (use assms(5) in blast)
  then show ?thesis using free_chain_path[OF p] c
    by (simp add: MEM_One_Buffer_Chain_Free_def del: fun_upd_apply)
qed

text \<open>The state after a dequeue from the free list, with the chain so far.\<close>

lemma Dequeue_free_eq:
  assumes "pool m Q" "Q MEM_Buffer_Freelist = x # xs"
  obtains m' where "MEM_Buffer_Dequeue (Some MEM_Buffer_Freelist) m = (m', x)"
    "pool m' (Q(MEM_Buffer_Freelist := xs))" "nbf m' = (nbf m)(x := NU_NULL)"
    "unlisted x (Q(MEM_Buffer_Freelist := xs))" "x \<noteq> NU_NULL" "x \<notin> set xs"
proof
  show "MEM_Buffer_Dequeue (Some MEM_Buffer_Freelist) m = (fst (MEM_Buffer_Dequeue (Some MEM_Buffer_Freelist) m), x)"
    using Dequeue_Cons(1)[OF assms] by (simp add: prod_eq_iff)
  show "pool (fst (MEM_Buffer_Dequeue (Some MEM_Buffer_Freelist) m)) (Q(MEM_Buffer_Freelist := xs))"
    by (rule Dequeue_Cons(2)[OF assms])
  show "nbf (fst (MEM_Buffer_Dequeue (Some MEM_Buffer_Freelist) m)) = (nbf m)(x := NU_NULL)"
    by (rule Dequeue_free_nbf[OF assms])
  show "unlisted x (Q(MEM_Buffer_Freelist := xs))" by (rule unlisted_dequeued[OF assms])
  then show "x \<notin> set xs" unfolding unlisted_def by (metis fun_upd_same)
  show "x \<noteq> NU_NULL" using pool_nonnull[OF assms(1), of x MEM_Buffer_Freelist] assms(2) by simp
qed

text \<open>Giving a whole chain back restores the free list it was taken from.\<close>

lemma give_back:
  assumes "pool m (Q(MEM_Buffer_Freelist := []))" "path (nbf m) x xs" "xs \<noteq> []" "Q MEM_Buffer_Freelist = xs"
    and "distinct xs" "\<And>y h. y \<in> set xs \<Longrightarrow> h \<noteq> MEM_Buffer_Freelist \<Longrightarrow> y \<notin> set (Q h)"
  shows "\<exists>m'. MEM_One_Buffer_Chain_Free x (Some MEM_Buffer_Freelist) m = Some m' \<and> pool m' Q"
proof -
  have x: "x \<noteq> NU_NULL" "NU_NULL \<notin> set xs" using path_head[OF assms(2)] path_nonnull[OF assms(2)] assms(3) by auto
  have "pool (fold enq_free xs m) ((Q(MEM_Buffer_Freelist := []))
      (MEM_Buffer_Freelist := (Q(MEM_Buffer_Freelist := [])) MEM_Buffer_Freelist @ xs))"
    by (rule nbq.enq_all[OF assms(1,5) x(2)]) (use assms(6) in auto)
  moreover have "(Q(MEM_Buffer_Freelist := []))
      (MEM_Buffer_Freelist := (Q(MEM_Buffer_Freelist := [])) MEM_Buffer_Freelist @ xs) = Q"
    using assms(4) by auto
  ultimately have "pool (fold enq_free xs m) Q" by (simp only:)
  then show ?thesis using free_chain_path[OF assms(2)] x by (simp add: MEM_One_Buffer_Chain_Free_def)
qed

text \<open>The part of \<open>MEM_Buffer_Chain_Dequeue\<close> after the first buffer, which chains \<open>Suc n\<close> more.\<close>

lemma Chain_Dequeue_more:
  fixes n :: nat
  assumes pool: "pool m (Q(MEM_Buffer_Freelist := ys))" and F: "Q MEM_Buffer_Freelist = x # ys"
    and d: "distinct (x # ys)" "\<And>z h. z \<in> set (x # ys) \<Longrightarrow> h \<noteq> MEM_Buffer_Freelist \<Longrightarrow> z \<notin> set (Q h)"
    and x: "x \<noteq> NU_NULL"
  defines "r \<equiv> chain_rest n (Some MEM_Buffer_Freelist) x m"
  shows "if n < length ys
    then \<exists>m'. r = Some (m', x) \<and> pool m' (Q(MEM_Buffer_Freelist := drop (Suc n) ys)) \<and>
      path (nbf m') x (x # take (Suc n) ys)
    else \<exists>m'. r = Some (m', NU_NULL) \<and> pool m' Q"
proof (cases ys)
  case Nil
  have "pool (upd_buf (next_buffer_update (\<lambda>_. NU_NULL)) x m) (Q(MEM_Buffer_Freelist := []))"
    using pool Nil by (intro pool_upd_nbf) (simp_all del: fun_upd_apply)
  then have "\<exists>m'. MEM_One_Buffer_Chain_Free x (Some MEM_Buffer_Freelist)
      (upd_buf (next_buffer_update (\<lambda>_. NU_NULL)) x m) = Some m' \<and> pool m' Q"
    by (rule give_back[where xs = "[x]"]) (use F Nil x d in auto)
  then show ?thesis using Dequeue_empty[OF pool, of MEM_Buffer_Freelist] Nil by (auto simp: r_def chain_rest_def)
next
  case (Cons y zs)
  have "(Q(MEM_Buffer_Freelist := ys)) MEM_Buffer_Freelist = y # zs" using Cons by simp
  from Dequeue_free_eq[OF pool this] obtain m3 where m3:
    "MEM_Buffer_Dequeue (Some MEM_Buffer_Freelist) m = (m3, y)"
    "pool m3 (Q(MEM_Buffer_Freelist := zs))" "nbf m3 = (nbf m)(y := NU_NULL)"
    "unlisted y (Q(MEM_Buffer_Freelist := zs))" "y \<noteq> NU_NULL"
    by (auto simp del: fun_upd_apply)
  define m4 where "m4 = upd_buf (next_buffer_update (\<lambda>_. y)) x m3"
  have p4: "pool m4 (Q(MEM_Buffer_Freelist := zs))" unfolding m4_def by (rule pool_upd_nbf[OF m3(2)]) simp
  have nb4: "nbf m4 = (nbf m)(y := NU_NULL, x := y)" by (simp add: m4_def m3(3))
  have xy: "x \<noteq> y" "x \<notin> set zs" using d(1) Cons by auto
  obtain m5 l where l: "link_buffers n (Some MEM_Buffer_Freelist) y m4 = (m5, l)" by force
  have q4: "(Q(MEM_Buffer_Freelist := zs)) MEM_Buffer_Freelist = zs" "nbf m4 y = NU_NULL" using xy nb4 by auto
  have m5: "pool m5 (Q(MEM_Buffer_Freelist := drop n zs))" "path (nbf m5) y (y # take n zs)"
    "nbf m5 x = y" "l = (if n \<le> length zs then Some (last (y # take n zs)) else None)"
    using link_buffers_chain[OF p4 q4(1) m3(4,5) q4(2), of n] l xy nb4
    by (auto simp: Let_def simp del: fun_upd_apply) simp
  have px: "path (nbf m5) x (x # y # take n zs)" using m5(2,3) x by simp
  show ?thesis
  proof (cases "n \<le> length zs")
    case False
    then have "\<exists>m'. MEM_One_Buffer_Chain_Free x (Some MEM_Buffer_Freelist) m5 = Some m' \<and> pool m' Q"
      using m5(1) px F Cons d by (intro give_back[where xs = "x # y # zs"]) (auto simp del: fun_upd_apply)
    then show ?thesis using False Cons m3(1,5) l m5(4) by (auto simp: r_def chain_rest_def m4_def[symmetric])
  next
    case True
    define e where "e = last (y # take n zs)"
    define m' where "m' = upd_buf (nb_next_update (\<lambda>_. NU_NULL)) e (upd_buf (next_buffer_update (\<lambda>_. NU_NULL)) e m5)"
    have dz: "distinct (y # zs)" using d(1) Cons by simp
    have e: "e \<in> set (y # take n zs)" unfolding e_def by (rule last_in_set) simp
    have "e \<notin> set (drop n zs)" using e dz set_take_disj_set_drop_if_distinct[of zs n n]
      by (auto dest: in_set_dropD)
    then have "unlisted e (Q(MEM_Buffer_Freelist := drop n zs))"
      using e d(2)[of e] Cons by (auto simp: unlisted_def dest: in_set_takeD)
    then have p': "pool m' (Q(MEM_Buffer_Freelist := drop n zs))"
      unfolding m'_def by (intro pool_upd_unlisted m5(1))
    have "path ((nbf m5)(e := NU_NULL)) x (x # y # take n zs)"
      unfolding e_def using px path_end[of "nbf m5" x "x # y # take n zs"] by simp
    then have "path (nbf m') x (x # y # take n zs)" by (simp add: m'_def)
    moreover have "r = Some (m', x)"
      using True m3(1,5) l m5(4) by (simp add: r_def chain_rest_def m4_def[symmetric] m'_def e_def)
    ultimately show ?thesis using p' True Cons by (auto simp del: fun_upd_apply)
  qed
qed

text \<open>The number of further buffers as the 32-bit computation gives it: right up to the overflow, then negative.\<close>

lemma num_bufs_exact:
  assumes "0 < nbytes" "nbytes + 27 < 2 ^ 31"
  shows "int32 (nbytes + (int me_bufhdr_size - 1)) sdiv int NET_MAX_BUFFER_SIZE =
    int ((nat nbytes + 27) div NET_MAX_BUFFER_SIZE)"
proof -
  have "int32 (nbytes + 27) = nbytes + 27" using assms by (simp add: int32_def)
  moreover have "int (nat nbytes + 27) = nbytes + 27" using assms(1) by simp
  ultimately show ?thesis using assms(1)
    by (simp add: me_bufhdr_size_def NET_MAX_BUFFER_SIZE_def NET_PARENT_BUFFER_SIZE_def signed_divide_int_def zdiv_int)
qed

lemma num_bufs_overflow:
  assumes "nbytes < 2 ^ 31" "2 ^ 31 \<le> nbytes + 27"
  shows "int32 (nbytes + (int me_bufhdr_size - 1)) sdiv int NET_MAX_BUFFER_SIZE < 0"
proof -
  have "(nbytes + 27 + 2 ^ 31) mod 2 ^ 32 = (nbytes + 27 + 2 ^ 31 - 2 ^ 32) mod (2 ^ 32 :: int)"
    by (rule minus_mod_self2[symmetric])
  also have "\<dots> = nbytes + 27 + 2 ^ 31 - 2 ^ 32" by (rule mod_pos_pos_trivial) (use assms in simp_all)
  finally have "int32 (nbytes + 27) = nbytes + 27 - 2 ^ 32" by (simp add: int32_def)
  moreover have "0 < \<bar>nbytes + 27 - 2 ^ 32\<bar> div 156" "sgn (nbytes + 27 - 2 ^ 32) = - 1"
    using assms by (simp_all add: pos_imp_zdiv_pos_iff)
  ultimately show ?thesis
    by (simp add: me_bufhdr_size_def NET_MAX_BUFFER_SIZE_def NET_PARENT_BUFFER_SIZE_def signed_divide_int_def)
qed

text \<open>
  C35. \<open>MEM_Buffer_Chain_Dequeue\<close> on the free list, for any positive number of bytes of the type
  \<open>INT32\<close> up to \<open>2^31 - 28\<close>: with enough free buffers it returns a chain of the first \<open>k + 1\<close> of them,
  which hold at least \<open>nbytes\<close> bytes (one parent buffer and \<open>k\<close> full ones), and leaves the others free;
  with too few it returns \<open>NU_NULL\<close> and the free list is exactly what it was. For the 27 greater values
  of the type, where the 32-bit sum overflows, it takes two buffers (\<open>k = 1\<close>) instead of failing. It always
  returns.
\<close>

theorem MEM_Buffer_Chain_Dequeue_correct:
  assumes pool: "pool m Q" and "0 < nbytes" "nbytes < 2 ^ 31"
  shows "let k = (if nbytes \<le> 2 ^ 31 - 28 then (nat nbytes + 27) div NET_MAX_BUFFER_SIZE else 1);
             free = Q MEM_Buffer_Freelist;
             r = MEM_Buffer_Chain_Dequeue (Some MEM_Buffer_Freelist) nbytes m
         in (nbytes \<le> 2 ^ 31 - 28 \<longrightarrow> nbytes \<le> int (NET_PARENT_BUFFER_SIZE + k * NET_MAX_BUFFER_SIZE)) \<and>
            (if k < length free
             then \<exists>m'. r = Some (m', hd free) \<and> pool m' (Q(MEM_Buffer_Freelist := drop (Suc k) free)) \<and>
               path (\<lambda>a. next_buffer (bufs m' a)) (hd free) (take (Suc k) free)
             else \<exists>m'. r = Some (m', NU_NULL) \<and> pool m' Q)"
proof -
  define k where "k = (if nbytes \<le> 2 ^ 31 - 28 then (nat nbytes + 27) div NET_MAX_BUFFER_SIZE else 1)"
  define z where "z = int32 (nbytes + (int me_bufhdr_size - 1)) sdiv int NET_MAX_BUFFER_SIZE"
  have k': "z = 0 \<longleftrightarrow> k = 0" "nat (z - 1) = k - 1"
    using num_bufs_exact[of nbytes] num_bufs_overflow[of nbytes] assms(2,3)
    by (auto simp: k_def z_def nat_diff_distrib')
  have cap: "nbytes \<le> int (NET_PARENT_BUFFER_SIZE + k * NET_MAX_BUFFER_SIZE)" if "nbytes \<le> 2 ^ 31 - 28"
  proof -
    have "nat nbytes + 27 < 156 * Suc k"
      using dividend_less_div_times[of 156 "nat nbytes + 27"] that
      by (simp add: k_def NET_MAX_BUFFER_SIZE_def NET_PARENT_BUFFER_SIZE_def me_bufhdr_size_def)
    then show ?thesis
      by (simp add: NET_MAX_BUFFER_SIZE_def NET_PARENT_BUFFER_SIZE_def me_bufhdr_size_def)
  qed
  let ?r = "MEM_Buffer_Chain_Dequeue (Some MEM_Buffer_Freelist) nbytes m"
  have "if k < length (Q MEM_Buffer_Freelist)
     then \<exists>m'. ?r = Some (m', hd (Q MEM_Buffer_Freelist)) \<and>
       pool m' (Q(MEM_Buffer_Freelist := drop (Suc k) (Q MEM_Buffer_Freelist))) \<and>
       path (nbf m') (hd (Q MEM_Buffer_Freelist)) (take (Suc k) (Q MEM_Buffer_Freelist))
     else \<exists>m'. ?r = Some (m', NU_NULL) \<and> pool m' Q"
  proof (cases "Q MEM_Buffer_Freelist")
    case Nil
    then show ?thesis using Dequeue_empty[OF pool] assms(2) pool by (simp add: MEM_Buffer_Chain_Dequeue_def)
  next
    case (Cons x ys)
    from Dequeue_free_eq[OF pool Cons] obtain m1 where m1:
      "MEM_Buffer_Dequeue (Some MEM_Buffer_Freelist) m = (m1, x)"
      "pool m1 (Q(MEM_Buffer_Freelist := ys))" "nbf m1 = (nbf m)(x := NU_NULL)"
      "unlisted x (Q(MEM_Buffer_Freelist := ys))" "x \<noteq> NU_NULL" "x \<notin> set ys" by metis
    define m2 where "m2 = upd_buf (next_buffer_update (\<lambda>_. NU_NULL)) x (upd_buf (nb_next_update (\<lambda>_. NU_NULL)) x m1)"
    have p2: "pool m2 (Q(MEM_Buffer_Freelist := ys))" unfolding m2_def by (intro pool_upd_unlisted m1)
    have nb2: "nbf m2 = (nbf m)(x := NU_NULL)" by (simp add: m2_def m1(3))
    show ?thesis
    proof (cases k)
      case 0
      then show ?thesis using m1 p2 nb2 Cons assms(2) k'
        by (auto simp: MEM_Buffer_Chain_Dequeue_def m2_def[symmetric] z_def[symmetric] simp del: fun_upd_apply) simp
    next
      case (Suc n)
      have d: "distinct (x # ys)" using pool Cons[symmetric] by (simp add: pool_def queue_rep_def)
      have dd: "z \<notin> set (Q h)" if "z \<in> set (x # ys)" "h \<noteq> MEM_Buffer_Freelist" for z h
        using pool_disj[OF pool, of MEM_Buffer_Freelist h z] that Cons by simp
      show ?thesis using Chain_Dequeue_more[OF p2 Cons d dd m1(5), of n] m1(1,5) Suc Cons assms(2) k'
        by (simp add: MEM_Buffer_Chain_Dequeue_def m2_def[symmetric] z_def[symmetric] Let_def
              del: fun_upd_apply split: if_splits)
    qed
  qed
  then show ?thesis using cap unfolding Let_def k_def[symmetric] nbf_def by simp
qed

text \<open>The loop of \<open>MEM_Init\<close> when every allocation succeeds.\<close>

lemma init_buffers_fold:
  "(\<And>i. i \<in> set is \<Longrightarrow> alloc i = Some (p i)) \<Longrightarrow>
   init_buffers alloc is m = Some (fold enq_free (map (align_ptr \<circ> p) is) m)"
  by (induction "is" arbitrary: m) auto

text \<open>
  After \<open>MEM_Init\<close> succeeds with 50 distinct buffers, all of them are on the free list in the order
  of allocation, every other list is empty, and no buffer is in use.
\<close>

theorem MEM_Init_pool:
  assumes "\<forall>i < MAX_BUFFERS. alloc i = Some (p i)" and "distinct (map (align_ptr \<circ> p) [0..<MAX_BUFFERS])"
    and "\<forall>i < MAX_BUFFERS. align_ptr (p i) \<noteq> NU_NULL"
    and "\<forall>h. h \<noteq> MEM_Buffer_List \<and> h \<noteq> MEM_Buffer_Freelist \<longrightarrow> hd_of m h = NU_NULL \<and> tl_of m h = NU_NULL"
  shows "\<exists>m'. MEM_Init alloc m = Some m' \<and> MEM_Buffers_Used m' = 0 \<and>
    pool m' ((\<lambda>_. [])(MEM_Buffer_Freelist := map (align_ptr \<circ> p) [0..<MAX_BUFFERS]))"
proof -
  define m1 where "m1 = m\<lparr>hd_of := (hd_of m)(MEM_Buffer_List := NU_NULL, MEM_Buffer_Freelist := NU_NULL),
     tl_of := (tl_of m)(MEM_Buffer_List := NU_NULL, MEM_Buffer_Freelist := NU_NULL),
     waiting_tasks := False, MEM_Buffers_Used := of_nat MAX_BUFFERS\<rparr>"
  let ?ps = "map (align_ptr \<circ> p) [0..<MAX_BUFFERS]"
  have "pool m1 (\<lambda>_. [])" using assms(4) by (auto simp: pool_def queue_rep_def m1_def)
  then have pl: "pool (fold enq_free ?ps m1) ((\<lambda>_. [])(MEM_Buffer_Freelist := [] @ ?ps))"
    by (rule nbq.enq_all) (use assms(2,3) in auto)
  then have u: "MEM_Buffers_Used (fold enq_free ?ps m1) = 0" by (simp add: pool_def)
  have "MEM_Init alloc m = Some ((fold enq_free ?ps m1)\<lparr>MEM_Buffers_Used := 0\<rparr>)"
    using init_buffers_fold[of "[0..<MAX_BUFFERS]" alloc p m1] assms(1)
    by (simp add: MEM_Init_def m1_def[symmetric])
  moreover have "(fold enq_free ?ps m1)\<lparr>MEM_Buffers_Used := 0\<rparr> = fold enq_free ?ps m1" using u by simp
  ultimately show ?thesis using pl u by (metis append_Nil)
qed

section \<open>A concrete pool\<close>

definition buffer0 :: net_buffer where
  "buffer0 = \<lparr>packet = replicate 156 0, mem_seqnum = 0, mem_dlist = None, mem_buf_device = None,
     mem_option_len = 0, mem_retransmits = 0, mem_tcp_data_len = 0, mem_total_data_len = 0,
     mem_port_index = 0, nb_next = NU_NULL, next_buffer = NU_NULL, data_ptr = None, data_len = 0,
     mem_flags = 0, chk_sum = 0, sum_data_ptr = None\<rparr>"

definition mem0 :: mem where
  "mem0 = \<lparr>bufs = (\<lambda>_. buffer0), hd_of = (\<lambda>_. NU_NULL), tl_of = (\<lambda>_. NU_NULL), MEM_Buffers_Used = 0,
     waiting_tasks = False, HISR_activations = 0\<rparr>"

definition alloc0 :: "nat \<Rightarrow> addr" where
  "alloc0 i = 4096 + 256 * i"

definition pool0 :: queues where
  "pool0 = (\<lambda>_. [])(MEM_Buffer_Freelist := map alloc0 [0..<MAX_BUFFERS])"

lemma align_alloc0 [simp]: "align_ptr (alloc0 i) = alloc0 i"
proof -
  have "alloc0 i = 16 * (256 + 16 * i)" by (simp add: alloc0_def)
  then have "alloc0 i mod 16 = 0" by presburger
  then show ?thesis by (simp add: align_ptr_def REQ_ALIGNMENT_def)
qed

lemma align_alloc0_comp [simp]: "align_ptr \<circ> alloc0 = alloc0"
  by (simp add: fun_eq_iff)

lemma distinct_alloc0: "distinct (map alloc0 [0..<n])"
  by (simp add: distinct_map inj_on_def alloc0_def)

theorem MEM_Init_pool_witness:
  "\<exists>m'. MEM_Init (\<lambda>i. Some (alloc0 i)) mem0 = Some m' \<and> MEM_Buffers_Used m' = 0 \<and> pool m' pool0"
  using MEM_Init_pool[of "\<lambda>i. Some (alloc0 i)" alloc0 mem0]
  by (simp add: distinct_alloc0 mem0_def pool0_def del: fun_upd_apply) (simp add: alloc0_def)

definition mem1 :: mem where
  "mem1 = fold enq_free (map alloc0 [0..<MAX_BUFFERS]) (mem0\<lparr>MEM_Buffers_Used := of_nat MAX_BUFFERS\<rparr>)"

lemma pool_mem1: "pool mem1 pool0"
proof -
  have "pool (mem0\<lparr>MEM_Buffers_Used := of_nat MAX_BUFFERS\<rparr>) (\<lambda>_. [])"
    by (simp add: pool_def queue_rep_def mem0_def)
  then have "pool mem1 ((\<lambda>_. [])(MEM_Buffer_Freelist := [] @ map alloc0 [0..<MAX_BUFFERS]))"
    unfolding mem1_def by (rule nbq.enq_all) (auto simp: distinct_alloc0 alloc0_def)
  then show ?thesis by (simp only: pool0_def append_Nil)
qed

lemma pool0_free: "pool0 MEM_Buffer_Freelist = map alloc0 [0..<50]" and pool0_other [simp]:
  "h \<noteq> MEM_Buffer_Freelist \<Longrightarrow> pool0 h = []"
  by (simp_all add: pool0_def MAX_BUFFERS_def)

theorem MEM_Update_Buffer_Lists_moves_witness:
  "snd (MEM_Update_Buffer_Lists (Some MEM_Buffer_Freelist) (Some MEM_Buffer_List) mem1) = alloc0 0"
proof -
  have "pool0 MEM_Buffer_Freelist = alloc0 0 # map alloc0 [1..<50]"
    unfolding pool0_free by (simp add: upt_conv_Cons)
  then show ?thesis
    using MEM_Update_Buffer_Lists_moves[OF pool_mem1, of MEM_Buffer_Freelist MEM_Buffer_List] by simp
qed

theorem MEM_One_Buffer_Chain_Free_chain_witness:
  "\<exists>m'. MEM_One_Buffer_Chain_Free 64 (Some MEM_Buffer_Freelist) mem1 = Some m' \<and>
     pool m' (pool0(MEM_Buffer_Freelist := pool0 MEM_Buffer_Freelist @ [64]))"
proof -
  have b: "next_buffer (bufs mem1 64) = NU_NULL" by (simp add: mem1_def mem0_def buffer0_def)
  have "64 \<notin> set (pool0 h)" for h by (cases "h = MEM_Buffer_Freelist") (auto simp: pool0_free alloc0_def)
  then show ?thesis
    using MEM_One_Buffer_Chain_Free_chain[OF pool_mem1, of 64 "[64]"] b by (simp del: fun_upd_apply)
qed

theorem MEM_Buffer_Chain_Dequeue_correct_witness:
  "(\<exists>m'. MEM_Buffer_Chain_Dequeue (Some MEM_Buffer_Freelist) 300 mem1 = Some (m', alloc0 0)) \<and>
   (\<exists>m'. MEM_Buffer_Chain_Dequeue (Some MEM_Buffer_Freelist) 60000 mem1 = Some (m', NU_NULL) \<and> pool m' pool0)"
proof -
  have l: "length (pool0 MEM_Buffer_Freelist) = 50" "hd (pool0 MEM_Buffer_Freelist) = alloc0 0"
    by (simp_all add: pool0_free hd_map)
  have 1: "\<exists>m'. MEM_Buffer_Chain_Dequeue (Some MEM_Buffer_Freelist) 300 mem1 = Some (m', alloc0 0)"
    using MEM_Buffer_Chain_Dequeue_correct[OF pool_mem1, of 300] l
    by (auto simp: Let_def NET_MAX_BUFFER_SIZE_def NET_PARENT_BUFFER_SIZE_def me_bufhdr_size_def)
  have 2: "\<exists>m'. MEM_Buffer_Chain_Dequeue (Some MEM_Buffer_Freelist) 60000 mem1 = Some (m', NU_NULL) \<and> pool m' pool0"
    using MEM_Buffer_Chain_Dequeue_correct[OF pool_mem1, of 60000] l
    by (auto simp: Let_def NET_MAX_BUFFER_SIZE_def NET_PARENT_BUFFER_SIZE_def me_bufhdr_size_def)
  show ?thesis using 1 2 by blast
qed

end
