(* ===== verification/Ifspi.thy ===== *)
theory Ifspi
  imports Net_Buffers "HOL-Library.Monad_Syntax"
begin

unbundle bit_operations_syntax

text \<open>
  The SPI network interface (\<open>bsp/iar_stm32f429ii_sk/drivers/ifspi/ifspi_tgt.c\<close>): packets of the stack cross
  the SPI link as frames of at most 128 bytes, one frame in each direction per DMA transfer. The frame with
  the FS bit starts a packet; a frame of length 0, or the next FS frame, ends it.

  One iteration of \<open>IFSPI_Task_Entry\<close> is \<open>IFSPI_prepare_tx\<close>, the DMA transfer (the frame received from the
  other side is an input), and \<open>IFSPI_handle_rx\<close>. A result \<open>None\<close> means that the code reads through a null
  data pointer, or that freeing a chain does not end. \<open>exchange\<close> couples two interfaces over the link.
  \<open>mem_buf_device\<close> is the number of the device; \<open>NU_Set_Events\<close> is represented by the event word it sets.
\<close>

section \<open>Data\<close>

definition IFSPI_FRAME_SOF :: "32 word" where "IFSPI_FRAME_SOF = 0xAAAA5555"
definition IFSPI_FRAME_EOF :: "32 word" where "IFSPI_FRAME_EOF = 0xAA55AA55"
definition IFSPI_FRAME_FS :: "16 word" where "IFSPI_FRAME_FS = 0x8000"
definition IFSPI_DATA_LEN_MASK :: "16 word" where "IFSPI_DATA_LEN_MASK = 0x0FFF"
definition IFSPI_FRAME_BLANK :: "16 word" where "IFSPI_FRAME_BLANK = 0x0000"
definition IF_SPI_BUF_SIZE :: nat where "IF_SPI_BUF_SIZE = 128"

record if_spi_frame =
  sof :: "32 word"
  frame_len :: "16 word"
  frame_data :: "byte list"
  eof :: "32 word"

datatype spi_role = SPI_CFG_DEV_SLAVE | SPI_CFG_DEV_MASTER

record ifspi =
  nb :: mem
  device :: nat
  dev_transq_length :: nat
  spi_dev_ctrl :: spi_role
  tx_frame :: if_spi_frame
  rx_frame :: if_spi_frame
  buf_ptr :: addr
  headP :: addr
  prevP :: addr
  currP :: addr
  pktSize :: nat
  Buffers_Available :: "32 word"

text \<open>\<open>memcpy\<close> and \<open>memset\<close> on byte arrays.\<close>

definition memcpy :: "byte list \<Rightarrow> byte list \<Rightarrow> nat \<Rightarrow> byte list" where
  "memcpy dst src n = take n src @ drop n dst"

definition memset :: "byte list \<Rightarrow> byte \<Rightarrow> nat \<Rightarrow> byte list" where
  "memset dst v n = replicate n v @ drop n dst"

section \<open>Operations\<close>

definition DEV_Recover_TX_Buffers :: "ifspi \<Rightarrow> ifspi option" where
  "DEV_Recover_TX_Buffers s =
    (if hd_of (nb s) dev_transq \<noteq> NU_NULL then
       (let (m1, b) = MEM_Buffer_Dequeue (Some dev_transq) (nb s)
        in map_option (\<lambda>m2. s\<lparr>nb := m2, dev_transq_length := dec32 (dev_transq_length s)\<rparr>)
             (MEM_Multiple_Buffer_Chain_Free b m1))
     else Some s)"

definition blank_frame :: "ifspi \<Rightarrow> ifspi" where
  "blank_frame s = s\<lparr>tx_frame := (tx_frame s)\<lparr>frame_len := IFSPI_FRAME_BLANK,
     frame_data := memset (frame_data (tx_frame s)) 0 IF_SPI_BUF_SIZE\<rparr>\<rparr>"

text \<open>Loading the segment at \<open>buf_ptr\<close> into the frame; \<open>fs\<close> is the FS bit or 0.\<close>

definition load_segment :: "16 word \<Rightarrow> ifspi \<Rightarrow> ifspi option" where
  "load_segment fs s =
    (let b = buf_ptr s;
         m = (if data_len (bufs (nb s) b) > IF_SPI_BUF_SIZE
              then upd_buf (data_len_update (\<lambda>_. IF_SPI_BUF_SIZE)) b (nb s) else nb s);
         n = data_len (bufs m b)
     in case data_ptr (bufs m b) of
          None \<Rightarrow> None
        | Some off \<Rightarrow>
            (let s1 = s\<lparr>nb := m,
                        tx_frame := (tx_frame s)\<lparr>frame_len := fs OR of_nat n,
                          frame_data := memcpy (frame_data (tx_frame s)) (drop off (packet (bufs m b))) n\<rparr>,
                        buf_ptr := next_buffer (bufs m b)\<rparr>
             in if buf_ptr s1 = NU_NULL then DEV_Recover_TX_Buffers s1 else Some s1))"

definition IFSPI_prepare_tx :: "ifspi \<Rightarrow> ifspi option" where
  "IFSPI_prepare_tx s0 =
    (let s = s0\<lparr>tx_frame := (tx_frame s0)\<lparr>sof := IFSPI_FRAME_SOF, eof := IFSPI_FRAME_EOF\<rparr>\<rparr>;
         head = hd_of (nb s) dev_transq
     in if head = NU_NULL \<and> buf_ptr s = NU_NULL then Some (blank_frame s)
        else if head \<noteq> NU_NULL \<and> buf_ptr s = NU_NULL then load_segment IFSPI_FRAME_FS (s\<lparr>buf_ptr := head\<rparr>)
        else if buf_ptr s \<noteq> NU_NULL \<and> data_len (bufs (nb s) (buf_ptr s)) \<noteq> 0 then load_segment 0 s
        else Some (blank_frame s))"

text \<open>Handing the packet under assembly to the stack.\<close>

definition dispatch :: "ifspi \<Rightarrow> ifspi" where
  "dispatch s =
     s\<lparr>nb := MEM_Buffer_Enqueue (Some MEM_Buffer_List) (headP s)
               (upd_buf (mem_total_data_len_update (\<lambda>_. pktSize s)) (headP s) (nb s)),
       Buffers_Available := Buffers_Available s OR 2,
       headP := NU_NULL\<rparr>"

text \<open>Filling the buffer at \<open>currP\<close> from the frame: \<open>memcpy\<close> starts at the buffer's first byte.\<close>

definition fill_buffer :: "ifspi \<Rightarrow> ifspi" where
  "fill_buffer s =
    (let n = unat (frame_len (rx_frame s))
     in s\<lparr>nb := upd_buf (\<lambda>b. b\<lparr>packet := memcpy (packet b) (frame_data (rx_frame s)) n,
                                mem_buf_device := Some (device s), data_ptr := Some 0, data_len := n\<rparr>)
                 (currP s) (nb s)\<rparr>)"

definition take_buffer :: "ifspi \<Rightarrow> ifspi" where
  "take_buffer s =
    (let (m, b) = MEM_Buffer_Dequeue (Some MEM_Buffer_Freelist) (nb s) in s\<lparr>nb := m, currP := b\<rparr>)"

definition IFSPI_handle_rx :: "ifspi \<Rightarrow> ifspi" where
  "IFSPI_handle_rx s =
    (if frame_len (rx_frame s) AND IFSPI_FRAME_FS \<noteq> 0 then
       (let s1 = (if headP s \<noteq> NU_NULL then dispatch s else s);
            s2 = s1\<lparr>rx_frame := (rx_frame s1)\<lparr>frame_len := frame_len (rx_frame s1) AND IFSPI_DATA_LEN_MASK\<rparr>\<rparr>;
            s3 = take_buffer s2;
            n = unat (frame_len (rx_frame s3))
        in if currP s3 \<noteq> NU_NULL \<and> n \<le> IF_SPI_BUF_SIZE
           then (fill_buffer s3)\<lparr>pktSize := n, headP := currP s3, prevP := currP s3\<rparr>
           else s3)
     else if headP s \<noteq> NU_NULL then
       (if frame_len (rx_frame s) = 0 then dispatch s
        else
          (let s3 = take_buffer s; n = unat (frame_len (rx_frame s3))
           in if currP s3 \<noteq> NU_NULL \<and> n \<le> IF_SPI_BUF_SIZE
              then (let s4 = fill_buffer s3
                    in s4\<lparr>pktSize := add32 (pktSize s4) n,
                          nb := upd_buf (next_buffer_update (\<lambda>_. currP s4)) (prevP s4) (nb s4),
                          prevP := currP s4\<rparr>)
              else s3))
     else s)"

text \<open>One iteration of the task's loop; the flag tells whether the master sleeps for a tick at its end.\<close>

definition IFSPI_iteration :: "if_spi_frame \<Rightarrow> ifspi \<Rightarrow> (ifspi \<times> bool) option" where
  "IFSPI_iteration received s =
     map_option (\<lambda>s1. (IFSPI_handle_rx (s1\<lparr>rx_frame := received\<rparr>), spi_dev_ctrl s1 = SPI_CFG_DEV_MASTER))
       (IFSPI_prepare_tx s)"

definition IF_SPI_Tgt_Get_Address :: "ifspi \<Rightarrow> byte list" where
  "IF_SPI_Tgt_Get_Address s =
     [0x00, 0x22, 0x00, 0x00, 0x00, if spi_dev_ctrl s = SPI_CFG_DEV_MASTER then 1 else 0]"

text \<open>Two interfaces joined by the link: each receives the frame the other has prepared.\<close>

fun exchange :: "nat \<Rightarrow> ifspi \<times> ifspi \<Rightarrow> (ifspi \<times> ifspi) option" where
  "exchange 0 st = Some st"
| "exchange (Suc n) (a, b) =
    do { a1 \<leftarrow> IFSPI_prepare_tx a;
         b1 \<leftarrow> IFSPI_prepare_tx b;
         (a2, _) \<leftarrow> IFSPI_iteration (tx_frame b1) a;
         (b2, _) \<leftarrow> IFSPI_iteration (tx_frame a1) b;
         exchange n (a2, b2) }"

section \<open>Segments and frames\<close>

definition seg :: "mem \<Rightarrow> addr \<Rightarrow> byte list" where
  "seg m a = (case data_ptr (bufs m a) of
     None \<Rightarrow> [] | Some off \<Rightarrow> take (data_len (bufs m a)) (drop off (packet (bufs m a))))"

text \<open>A buffer whose data lies inside its packet array and fits a frame.\<close>

definition good_buf :: "mem \<Rightarrow> addr \<Rightarrow> bool" where
  "good_buf m a \<longleftrightarrow> (\<exists>off. data_ptr (bufs m a) = Some off \<and>
     off + data_len (bufs m a) \<le> length (packet (bufs m a))) \<and> data_len (bufs m a) \<le> IF_SPI_BUF_SIZE"

lemma length_seg [simp]: "good_buf m a \<Longrightarrow> length (seg m a) = data_len (bufs m a)"
  by (auto simp: good_buf_def seg_def)

definition carries :: "if_spi_frame \<Rightarrow> 16 word \<Rightarrow> byte list \<Rightarrow> bool" where
  "carries f fs d \<longleftrightarrow> length d \<le> IF_SPI_BUF_SIZE \<and> frame_len f = fs OR of_nat (length d) \<and>
     take (length d) (frame_data f) = d"

lemma FS_bit: "bit IFSPI_FRAME_FS i \<longleftrightarrow> i = 15"
proof -
  have "IFSPI_FRAME_FS = 2 ^ 15" by (simp add: IFSPI_FRAME_FS_def)
  then show ?thesis unfolding \<open>IFSPI_FRAME_FS = 2 ^ 15\<close> bit_exp_iff by auto
qed

lemma mask_take_bit: "w AND IFSPI_DATA_LEN_MASK = take_bit 12 w"
  by (simp add: IFSPI_DATA_LEN_MASK_def take_bit_eq_mask mask_eq_exp_minus_1)

text \<open>The length field: a length of at most 128 leaves the FS bit alone.\<close>

lemma small_word:
  assumes "n \<le> IF_SPI_BUF_SIZE"
  shows "(of_nat n :: 16 word) AND IFSPI_FRAME_FS = 0"
    and "(IFSPI_FRAME_FS OR of_nat n) AND IFSPI_FRAME_FS \<noteq> 0"
    and "(IFSPI_FRAME_FS OR of_nat n) AND IFSPI_DATA_LEN_MASK = of_nat n"
    and "unat (of_nat n :: 16 word) = n"
    and "(of_nat n :: 16 word) = 0 \<longleftrightarrow> n = 0"
proof -
  have n: "n < 2 ^ 12" using assms by (simp add: IF_SPI_BUF_SIZE_def)
  have "take_bit 12 (of_nat n :: 16 word) = of_nat (take_bit 12 n)" by (rule take_bit_of_nat)
  then have t: "take_bit 12 (of_nat n :: 16 word) = of_nat n" using n by (simp add: take_bit_nat_eq_self)
  have b: "\<not> bit (of_nat n :: 16 word) 15"
    using bit_take_bit_iff[of 12 "of_nat n :: 16 word" 15] t by simp
  show "(of_nat n :: 16 word) AND IFSPI_FRAME_FS = 0"
    by (rule bit_eqI) (use b in \<open>auto simp: bit_and_iff FS_bit\<close>)
  have "bit ((IFSPI_FRAME_FS OR of_nat n) AND IFSPI_FRAME_FS) 15" by (simp add: bit_and_iff bit_or_iff FS_bit)
  then show "(IFSPI_FRAME_FS OR of_nat n) AND IFSPI_FRAME_FS \<noteq> 0" by auto
  have "take_bit 12 IFSPI_FRAME_FS = 0" by (simp add: IFSPI_FRAME_FS_def)
  then show "(IFSPI_FRAME_FS OR of_nat n) AND IFSPI_DATA_LEN_MASK = of_nat n"
    using t by (simp add: mask_take_bit)
  show u: "unat (of_nat n :: 16 word) = n" using n by (simp add: unat_of_nat)
  show "(of_nat n :: 16 word) = 0 \<longleftrightarrow> n = 0" using unat_eq_0[of "of_nat n :: 16 word"] unfolding u by simp
qed

section \<open>The transmit path\<close>

text \<open>
  \<open>tx_state s Q pkts cur\<close>: the packets of the transmit queue are the pkts of buffers \<open>pkts\<close>; when
  \<open>cur\<close> is not empty it is the part of the first packet that is still to be sent. The buffers hold
  segments of at most 128 bytes, those after the first are not empty, and all belong to the free list.
\<close>

definition chain_ok :: "mem \<Rightarrow> addr list \<Rightarrow> bool" where
  "chain_ok m c \<longleftrightarrow> c \<noteq> [] \<and> path (nbf m) (hd c) c \<and> freeable (hd c) c m \<and>
     (\<forall>a \<in> set c. good_buf m a) \<and> (\<forall>a \<in> set (tl c). data_len (bufs m a) \<noteq> 0)"

definition tx_state :: "ifspi \<Rightarrow> queues \<Rightarrow> addr list list \<Rightarrow> addr list \<Rightarrow> bool" where
  "tx_state s Q pkts cur \<longleftrightarrow>
     pool (nb s) Q \<and> Q dev_transq = map hd pkts \<and> (\<forall>c \<in> set pkts. chain_ok (nb s) c) \<and>
     distinct (concat pkts) \<and> (\<forall>c \<in> set pkts. \<forall>a \<in> set (tl c). unlisted a Q) \<and>
     (if cur = [] then buf_ptr s = NU_NULL
      else \<exists>pre. pkts \<noteq> [] \<and> pre \<noteq> [] \<and> hd pkts = pre @ cur \<and> buf_ptr s = hd cur)"

lemma same_fields:
  assumes "(n' :: net_buffer)\<lparr>nb_next := 0\<rparr> = n\<lparr>nb_next := 0\<rparr>"
  shows "next_buffer n' = next_buffer n" "packet n' = packet n" "data_ptr n' = data_ptr n"
    "data_len n' = data_len n" "mem_dlist n' = mem_dlist n" "mem_flags n' = mem_flags n"
    "mem_total_data_len n' = mem_total_data_len n"
  using arg_cong[OF assms, of next_buffer] arg_cong[OF assms, of packet] arg_cong[OF assms, of data_ptr]
    arg_cong[OF assms, of data_len] arg_cong[OF assms, of mem_dlist] arg_cong[OF assms, of mem_flags]
    arg_cong[OF assms, of mem_total_data_len] by simp_all

lemma chain_ok_cong:
  assumes "\<And>a. a \<in> set c \<Longrightarrow> (bufs m' a)\<lparr>nb_next := 0\<rparr> = (bufs m a)\<lparr>nb_next := 0\<rparr>"
  shows "chain_ok m' c = chain_ok m c"
proof -
  have f: "next_buffer (bufs m' a) = next_buffer (bufs m a) \<and> packet (bufs m' a) = packet (bufs m a) \<and>
     data_ptr (bufs m' a) = data_ptr (bufs m a) \<and> data_len (bufs m' a) = data_len (bufs m a) \<and>
     mem_dlist (bufs m' a) = mem_dlist (bufs m a) \<and> mem_flags (bufs m' a) = mem_flags (bufs m a)"
    if "a \<in> set c" for a
    using same_fields[OF assms[OF that]] by blast
  have p: "path (nbf m') (hd c) c = path (nbf m) (hd c) c"
    by (rule path_cong) (use f in \<open>simp add: nbf_def\<close>)
  have g: "(\<forall>a \<in> set c. good_buf m' a) = (\<forall>a \<in> set c. good_buf m a)" using f by (simp add: good_buf_def)
  have t: "(\<forall>a \<in> set (tl c). data_len (bufs m' a) \<noteq> 0) = (\<forall>a \<in> set (tl c). data_len (bufs m a) \<noteq> 0)"
    using f by (metis list.sel(2) list.set_sel(2))
  show ?thesis
  proof (cases c)
    case (Cons a as)
    then have "freeable (hd c) c m' = freeable (hd c) c m" using f by (simp add: freeable_def)
    then show ?thesis unfolding chain_ok_def p g t by simp
  qed (simp add: chain_ok_def)
qed

lemma Enqueue_bufs_fold:
  "(bufs (fold (MEM_Buffer_Enqueue d) cs m) a)\<lparr>nb_next := v\<rparr> = (bufs m a)\<lparr>nb_next := v\<rparr>"
  by (induction cs arbitrary: m) (simp_all add: Enqueue_bufs)

text \<open>Recovering the buffers of the packet that has been sent.\<close>

lemma Recover_TX:
  assumes pool: "pool (nb s) Q" and Q: "Q dev_transq = map hd (c # cs)"
    and ok: "\<forall>c' \<in> set (c # cs). chain_ok (nb s) c'" and d: "distinct (concat (c # cs))"
    and un: "\<forall>a \<in> set (tl c). unlisted a Q"
  shows "\<exists>m'. DEV_Recover_TX_Buffers s = Some (s\<lparr>nb := m', dev_transq_length := dec32 (dev_transq_length s)\<rparr>) \<and>
    pool m' (Q(dev_transq := map hd cs, MEM_Buffer_Freelist := Q MEM_Buffer_Freelist @ c)) \<and>
    (\<forall>a. (bufs m' a)\<lparr>nb_next := 0\<rparr> = (bufs (nb s) a)\<lparr>nb_next := 0\<rparr>)"
proof -
  obtain x xs where c: "c = x # xs" using ok by (cases c) (auto simp: chain_ok_def)
  have Qx: "Q dev_transq = x # map hd cs" using Q c by simp
  define m1 where "m1 = fst (MEM_Buffer_Dequeue (Some dev_transq) (nb s))"
  have deq: "MEM_Buffer_Dequeue (Some dev_transq) (nb s) = (m1, x)" "pool m1 (Q(dev_transq := map hd cs))"
    "bufs m1 = bufs (nb s)"
    using Dequeue_Cons[OF pool Qx] by (auto simp: m1_def prod_eq_iff)
  have okc: "chain_ok m1 c" using ok chain_ok_cong[of c m1 "nb s"] deq(3) by simp
  then have pf: "path (nbf m1) x (x # xs)" "freeable x (x # xs) m1" by (simp_all add: chain_ok_def c)
  have free: "MEM_Multiple_Buffer_Chain_Free x m1 = Some (wake_waiting (fold enq_free c m1))"
    using Multiple_Free_path[OF pf] c by simp
  have "unlisted x (Q(dev_transq := map hd cs))" by (rule unlisted_dequeued[OF pool Qx])
  moreover have "unlisted a (Q(dev_transq := map hd cs))" if "a \<in> set xs" for a
  proof -
    have "a \<notin> set (Q h)" for h using un that c by (simp add: unlisted_def)
    from this this[of dev_transq] show ?thesis using Qx by (simp add: unlisted_def)
  qed
  ultimately have un': "a \<notin> set ((Q(dev_transq := map hd cs)) h)" if "a \<in> set c" for a h
    using that c unfolding unlisted_def by (metis set_ConsD)
  have "pool (fold enq_free c m1)
      ((Q(dev_transq := map hd cs))(MEM_Buffer_Freelist := (Q(dev_transq := map hd cs)) MEM_Buffer_Freelist @ c))"
    by (rule nbq.enq_all[OF deq(2)]) (use d path_nonnull[OF pf(1)] c un' in auto)
  moreover have "(Q(dev_transq := map hd cs))(MEM_Buffer_Freelist := (Q(dev_transq := map hd cs)) MEM_Buffer_Freelist @ c)
      = Q(dev_transq := map hd cs, MEM_Buffer_Freelist := Q MEM_Buffer_Freelist @ c)" by auto
  ultimately have "pool (wake_waiting (fold enq_free c m1))
      (Q(dev_transq := map hd cs, MEM_Buffer_Freelist := Q MEM_Buffer_Freelist @ c))" by (simp only: wake_pool)
  moreover have "hd_of (nb s) dev_transq \<noteq> NU_NULL" using pool_empty[OF pool, of dev_transq] Qx by simp
  ultimately show ?thesis using deq(1) free
    by (intro exI[of _ "wake_waiting (fold enq_free c m1)"])
       (simp add: DEV_Recover_TX_Buffers_def Enqueue_bufs_fold deq(3) del: fun_upd_apply)
qed

lemma seg_cong:
  assumes "(bufs m' a)\<lparr>nb_next := 0\<rparr> = (bufs m a)\<lparr>nb_next := 0\<rparr>"
  shows "seg m' a = seg m a"
  using same_fields(2-4)[OF assms] by (simp add: seg_def cong: option.case_cong)

text \<open>The parts of the driver's state that the transmit path does not touch.\<close>

definition rx_same :: "ifspi \<Rightarrow> ifspi \<Rightarrow> bool" where
  "rx_same s s' \<longleftrightarrow> headP s' = headP s \<and> prevP s' = prevP s \<and> currP s' = currP s \<and> pktSize s' = pktSize s \<and>
     Buffers_Available s' = Buffers_Available s \<and> device s' = device s \<and> spi_dev_ctrl s' = spi_dev_ctrl s"

text \<open>What is left of the queue when the last segment of the first packet has been loaded.\<close>

definition after_load :: "queues \<Rightarrow> addr list list \<Rightarrow> addr list \<Rightarrow> queues" where
  "after_load Q pkts rest =
    (if rest = [] then Q(dev_transq := map hd (tl pkts), MEM_Buffer_Freelist := Q MEM_Buffer_Freelist @ hd pkts) else Q)"

lemma load_segment_step:
  assumes pool: "pool (nb s) Q" "Q dev_transq = map hd pkts" "\<forall>c \<in> set pkts. chain_ok (nb s) c"
      "distinct (concat pkts)" "\<forall>c \<in> set pkts. \<forall>a \<in> set (tl c). unlisted a Q"
    and pk: "pkts \<noteq> []" "hd pkts = pre @ b # rest" "buf_ptr s = b"
  shows "\<exists>s'. load_segment fs s = Some s' \<and> carries (tx_frame s') fs (seg (nb s) b) \<and> rx_same s s' \<and>
    tx_state s' (after_load Q pkts rest) (if rest = [] then tl pkts else pkts) rest \<and>
    (\<forall>a. (bufs (nb s') a)\<lparr>nb_next := 0\<rparr> = (bufs (nb s) a)\<lparr>nb_next := 0\<rparr>)"
proof -
  obtain c cs where pkts: "pkts = c # cs" using pk(1) by (cases pkts) auto
  have c: "c = pre @ b # rest" using pk(2) pkts by simp
  have okc: "chain_ok (nb s) c" using pool(3) pkts by simp
  have g: "good_buf (nb s) b" using okc c by (simp add: chain_ok_def)
  then obtain off where off: "data_ptr (bufs (nb s) b) = Some off"
    "off + data_len (bufs (nb s) b) \<le> length (packet (bufs (nb s) b))" "data_len (bufs (nb s) b) \<le> IF_SPI_BUF_SIZE"
    by (auto simp: good_buf_def)
  have nx: "path (nbf (nb s)) (nbf (nb s) b) rest"
  proof -
    have "path f p (xs @ b # ys) \<Longrightarrow> path f (f b) ys" for f p xs ys by (induction xs arbitrary: p) auto
    then show ?thesis using okc c by (auto simp: chain_ok_def)
  qed
  define n where "n = data_len (bufs (nb s) b)"
  define s1 where "s1 = s\<lparr>tx_frame := (tx_frame s)\<lparr>frame_len := fs OR of_nat n,
      frame_data := memcpy (frame_data (tx_frame s)) (drop off (packet (bufs (nb s) b))) n\<rparr>,
      buf_ptr := next_buffer (bufs (nb s) b)\<rparr>"
  have ls: "load_segment fs s = (if buf_ptr s1 = NU_NULL then DEV_Recover_TX_Buffers s1 else Some s1)"
    using off pk(3) by (simp add: load_segment_def Let_def s1_def n_def not_less)
  have sg: "seg (nb s) b = take n (drop off (packet (bufs (nb s) b)))" by (simp add: seg_def off(1) n_def)
  have car: "carries (tx_frame s1) fs (seg (nb s) b)"
    using off g by (simp add: carries_def s1_def n_def[symmetric] memcpy_def sg)
  have nbs: "nb s1 = nb s" "buf_ptr s1 = nbf (nb s) b" "rx_same s s1" by (simp_all add: s1_def nbf_def rx_same_def)
  show ?thesis
  proof (cases rest)
    case Nil
    then have z: "buf_ptr s1 = NU_NULL" using nx nbs(2) by simp
    have pool1: "pool (nb s1) Q" "Q dev_transq = map hd (c # cs)" "\<forall>c' \<in> set (c # cs). chain_ok (nb s1) c'"
      "distinct (concat (c # cs))" "\<forall>a \<in> set (tl c). unlisted a Q" using pool pkts by (simp_all add: nbs)
    from Recover_TX[OF pool1] obtain m' where m':
      "DEV_Recover_TX_Buffers s1 = Some (s1\<lparr>nb := m', dev_transq_length := dec32 (dev_transq_length s1)\<rparr>)"
      "pool m' (Q(dev_transq := map hd cs, MEM_Buffer_Freelist := Q MEM_Buffer_Freelist @ c))"
      "\<forall>a. (bufs m' a)\<lparr>nb_next := 0\<rparr> = (bufs (nb s1) a)\<lparr>nb_next := 0\<rparr>" by blast
    define s2 where "s2 = s1\<lparr>nb := m', dev_transq_length := dec32 (dev_transq_length s1)\<rparr>"
    let ?Q = "Q(dev_transq := map hd cs, MEM_Buffer_Freelist := Q MEM_Buffer_Freelist @ c)"
    have "unlisted a ?Q" if "c' \<in> set cs" "a \<in> set (tl c')" for c' a
    proof -
      have u: "a \<notin> set (Q h)" for h using pool(5) that pkts by (auto simp: unlisted_def)
      have "c' \<noteq> []" using that(2) by auto
      then have "a \<in> set (concat cs)" using that by (auto dest: list.set_sel(2))
      then have "a \<notin> set c" using pool1(4) by auto
      moreover have "a \<notin> set (map hd cs)" using u[of dev_transq] pool1(2) by simp
      ultimately show ?thesis using u by (simp add: unlisted_def)
    qed
    moreover have "chain_ok m' c'" if "c' \<in> set cs" for c'
      using chain_ok_cong[of c' m' "nb s"] m'(3) pool(3) that pkts nbs(1) by simp
    ultimately have "tx_state s2 ?Q cs []"
      using m'(2) pool1(4) z by (simp add: tx_state_def s2_def)
    then show ?thesis using ls z m'(1,3) car nbs Nil pkts
      by (intro exI[of _ s2]) (simp add: s2_def after_load_def rx_same_def del: fun_upd_apply)
  next
    case (Cons b' rest')
    then have nz: "buf_ptr s1 \<noteq> NU_NULL" "buf_ptr s1 = b'" using nx nbs(2) by auto
    have "\<exists>pre'. pre' \<noteq> [] \<and> hd pkts = pre' @ rest" using pk(2) by (intro exI[of _ "pre @ [b]"]) simp
    then have "tx_state s1 Q pkts rest" using pool pk(1) nz Cons by (simp add: tx_state_def nbs)
    then show ?thesis using ls nz car nbs Cons by (intro exI[of _ s1]) (simp add: after_load_def)
  qed
qed

text \<open>The three ways an iteration prepares its frame.\<close>

lemma prepare_idle:
  assumes "tx_state s Q [] []"
  shows "\<exists>s'. IFSPI_prepare_tx s = Some s' \<and> frame_len (tx_frame s') = 0 \<and> rx_same s s' \<and>
    nb s' = nb s \<and> tx_state s' Q [] []"
proof -
  have "hd_of (nb s) dev_transq = NU_NULL"
    using assms pool_empty[of "nb s" Q dev_transq] by (simp add: tx_state_def)
  then show ?thesis using assms
    by (simp add: IFSPI_prepare_tx_def Let_def tx_state_def blank_frame_def IFSPI_FRAME_BLANK_def rx_same_def)
qed

lemma rx_same_trans: "rx_same s s1 \<Longrightarrow> rx_same s1 s2 \<Longrightarrow> rx_same s s2"
  by (simp add: rx_same_def)

lemma prepare_first:
  assumes tx: "tx_state s Q ((b # rest) # cs) []"
  shows "\<exists>s'. IFSPI_prepare_tx s = Some s' \<and> carries (tx_frame s') IFSPI_FRAME_FS (seg (nb s) b) \<and> rx_same s s' \<and>
    tx_state s' (after_load Q ((b # rest) # cs) rest) (if rest = [] then cs else (b # rest) # cs) rest \<and>
    (\<forall>a. (bufs (nb s') a)\<lparr>nb_next := 0\<rparr> = (bufs (nb s) a)\<lparr>nb_next := 0\<rparr>)"
proof -
  define s1 where "s1 = s\<lparr>tx_frame := (tx_frame s)\<lparr>sof := IFSPI_FRAME_SOF, eof := IFSPI_FRAME_EOF\<rparr>, buf_ptr := b\<rparr>"
  have pool: "pool (nb s) Q" "Q dev_transq = map hd ((b # rest) # cs)" using tx by (simp_all add: tx_state_def)
  have h: "hd_of (nb s) dev_transq = b" "b \<noteq> NU_NULL" "buf_ptr s = NU_NULL"
    using tx pool_nonnull[OF pool(1), of b dev_transq]
    by (auto simp: tx_state_def pool_def) (metis list.sel(1) list.simps(3) path.simps(2) queue_rep_def)
  have "IFSPI_prepare_tx s = load_segment IFSPI_FRAME_FS s1"
    using h by (simp add: IFSPI_prepare_tx_def Let_def s1_def)
  moreover have "nb s1 = nb s" "buf_ptr s1 = b" "rx_same s s1" by (simp_all add: s1_def rx_same_def)
  ultimately show ?thesis
    using load_segment_step[of s1 Q "(b # rest) # cs" "[]" b rest IFSPI_FRAME_FS] tx rx_same_trans[of s s1]
    by (auto simp: tx_state_def)
qed

lemma prepare_next:
  assumes tx: "tx_state s Q pkts (b # rest)"
  shows "\<exists>s'. IFSPI_prepare_tx s = Some s' \<and> carries (tx_frame s') 0 (seg (nb s) b) \<and> rx_same s s' \<and>
    tx_state s' (after_load Q pkts rest) (if rest = [] then tl pkts else pkts) rest \<and>
    (\<forall>a. (bufs (nb s') a)\<lparr>nb_next := 0\<rparr> = (bufs (nb s) a)\<lparr>nb_next := 0\<rparr>)"
proof -
  define s1 where "s1 = s\<lparr>tx_frame := (tx_frame s)\<lparr>sof := IFSPI_FRAME_SOF, eof := IFSPI_FRAME_EOF\<rparr>\<rparr>"
  obtain pre where pre: "pkts \<noteq> []" "pre \<noteq> []" "hd pkts = pre @ b # rest" "buf_ptr s = b"
    using tx by (auto simp: tx_state_def)
  have ok: "chain_ok (nb s) (hd pkts)" using tx pre(1) by (simp add: tx_state_def)
  have "b \<noteq> NU_NULL" using ok path_nonnull[of "nbf (nb s)" "hd (hd pkts)" "hd pkts"] pre(3) by (auto simp: chain_ok_def)
  moreover have "b \<in> set (tl (hd pkts))" using pre(2,3) by simp
  then have "data_len (bufs (nb s) b) \<noteq> 0" using ok by (auto simp: chain_ok_def)
  ultimately have "IFSPI_prepare_tx s = load_segment 0 s1"
    using pre(4) by (simp add: IFSPI_prepare_tx_def Let_def s1_def)
  moreover have "nb s1 = nb s" "buf_ptr s1 = b" "rx_same s s1" using pre(4) by (simp_all add: s1_def rx_same_def)
  ultimately show ?thesis
    using load_segment_step[of s1 Q pkts pre b rest 0] tx pre(1,3) rx_same_trans[of s s1]
    by (auto simp: tx_state_def)
qed

section \<open>The receive path\<close>

text \<open>
  \<open>rx_state s Q rcs parts\<close>: the packets handed to the stack are the chains \<open>rcs\<close>, each with its total
  length in its first buffer, and \<open>parts\<close> are the buffers of the packet under assembly.
\<close>

definition psize :: "mem \<Rightarrow> addr list \<Rightarrow> nat" where
  "psize m c = sum_list (map (\<lambda>a. length (seg m a)) c)"

definition delivered :: "mem \<Rightarrow> queues \<Rightarrow> addr list \<Rightarrow> bool" where
  "delivered m Q c \<longleftrightarrow> c \<noteq> [] \<and> path (nbf m) (hd c) c \<and> (\<forall>a \<in> set (tl c). unlisted a Q) \<and>
     mem_total_data_len (bufs m (hd c)) = psize m c mod 4294967296"

definition rx_state :: "ifspi \<Rightarrow> queues \<Rightarrow> addr list list \<Rightarrow> addr list \<Rightarrow> bool" where
  "rx_state s Q rcs parts \<longleftrightarrow>
     pool (nb s) Q \<and> (\<forall>a. IF_SPI_BUF_SIZE \<le> length (packet (bufs (nb s) a))) \<and>
     Q MEM_Buffer_List = map hd rcs \<and> (\<forall>c \<in> set rcs. delivered (nb s) Q c) \<and>
     distinct (concat rcs @ parts) \<and> (\<forall>a \<in> set parts. unlisted a Q) \<and>
     (if parts = [] then headP s = NU_NULL
      else headP s = hd parts \<and> prevP s = last parts \<and> path (nbf (nb s)) (hd parts) parts \<and>
        pktSize s = psize (nb s) parts mod 4294967296)"

lemma delivered_cong:
  assumes "delivered m Q c" "\<And>a. a \<in> set c \<Longrightarrow> nbf m' a = nbf m a \<and> seg m' a = seg m a"
    and "mem_total_data_len (bufs m' (hd c)) = mem_total_data_len (bufs m (hd c))"
    and "\<And>a. a \<in> set (tl c) \<Longrightarrow> unlisted a Q'"
  shows "delivered m' Q' c"
proof -
  have "path (nbf m') (hd c) c" using assms(1) path_cong[of c "nbf m'" "nbf m"] assms(2) by (simp add: delivered_def)
  moreover have "psize m' c = psize m c" unfolding psize_def
    by (rule arg_cong[where f = sum_list]) (use assms(2) in simp)
  ultimately show ?thesis using assms by (simp add: delivered_def)
qed

lemma unlisted_upd: "unlisted a Q \<Longrightarrow> a \<notin> set xs \<Longrightarrow> unlisted a (Q(h := xs))"
  by (simp add: unlisted_def)

lemma dispatch_rx:
  assumes rx: "rx_state s Q rcs parts" and "parts \<noteq> []"
  shows "rx_state (dispatch s) (Q(MEM_Buffer_List := Q MEM_Buffer_List @ [hd parts])) (rcs @ [parts]) [] \<and>
    (\<forall>a. seg (nb (dispatch s)) a = seg (nb s) a) \<and> buf_ptr (dispatch s) = buf_ptr s \<and>
    rx_frame (dispatch s) = rx_frame s"
proof -
  define m where "m = nb s"
  define h where "h = hd parts"
  define m1 where "m1 = upd_buf (mem_total_data_len_update (\<lambda>_. pktSize s)) h m"
  define m2 where "m2 = MEM_Buffer_Enqueue (Some MEM_Buffer_List) h m1"
  have hP: "headP s = h" using assms by (simp add: rx_state_def h_def)
  have d: "nb (dispatch s) = m2" "headP (dispatch s) = NU_NULL" by (simp_all add: dispatch_def hP m2_def m1_def m_def)
  have pa: "path (nbf m) h parts" using assms by (simp add: rx_state_def m_def h_def)
  have hp: "h \<in> set parts" using assms(2) by (simp add: h_def)
  then have h0: "h \<noteq> NU_NULL" using path_nonnull[OF pa] by metis
  have un: "unlisted a Q" if "a \<in> set parts" for a using rx that by (simp add: rx_state_def)
  have "pool m1 Q" unfolding m1_def m_def by (rule pool_upd_nbf) (use rx in \<open>simp_all add: rx_state_def\<close>)
  then have pl: "pool m2 (Q(MEM_Buffer_List := Q MEM_Buffer_List @ [h]))"
    unfolding m2_def by (rule Enqueue_pool) (use un hp h0 in auto)
  have fields: "nbf m2 = nbf m" "packet (bufs m2 a) = packet (bufs m a)" "data_ptr (bufs m2 a) = data_ptr (bufs m a)"
    "data_len (bufs m2 a) = data_len (bufs m a)" for a
    by (simp_all add: m2_def m1_def fun_upd_idem_iff) (simp_all add: nbf_def)
  have sg: "seg m2 a = seg m a" for a using fields by (simp add: seg_def cong: option.case_cong)
  have tot: "mem_total_data_len (bufs m2 a) = (if a = h then pktSize s else mem_total_data_len (bufs m a))" for a
    by (simp add: m2_def m1_def)
  have ps: "psize m2 c = psize m c" for c by (simp add: psize_def sg)
  have hr: "h \<notin> set (concat rcs)" using rx hp by (auto simp: rx_state_def)
  have "delivered m2 (Q(MEM_Buffer_List := Q MEM_Buffer_List @ [h])) c" if c: "c \<in> set rcs" for c
  proof (rule delivered_cong[of m Q])
    show "delivered m Q c" using rx c by (simp add: rx_state_def m_def)
    then have "hd c \<in> set c" by (simp add: delivered_def)
    then have hc: "h \<notin> set c" "hd c \<noteq> h" using hr c by auto
    show "mem_total_data_len (bufs m2 (hd c)) = mem_total_data_len (bufs m (hd c))" using hc by (simp add: tot)
    fix a assume a: "a \<in> set (tl c)"
    then have "a \<noteq> h" using hc(1) by (metis list.sel(2) list.set_sel(2))
    moreover have "unlisted a Q" using \<open>delivered m Q c\<close> a by (simp add: delivered_def)
    ultimately show "unlisted a (Q(MEM_Buffer_List := Q MEM_Buffer_List @ [h]))" by (simp add: unlisted_def)
  qed (use fields sg in simp_all)
  moreover have "delivered m2 (Q(MEM_Buffer_List := Q MEM_Buffer_List @ [h])) parts"
  proof -
    have "a \<noteq> h" "unlisted a Q" if "a \<in> set (tl parts)" for a
      using that rx un[of a] assms(2) by (cases parts; auto simp: rx_state_def h_def)+
    then have "unlisted a (Q(MEM_Buffer_List := Q MEM_Buffer_List @ [h]))" if "a \<in> set (tl parts)" for a
      using that by (simp add: unlisted_def)
    then show ?thesis using assms pa rx by (simp add: delivered_def fields tot ps h_def[symmetric] rx_state_def m_def)
  qed
  ultimately have "rx_state (dispatch s) (Q(MEM_Buffer_List := Q MEM_Buffer_List @ [h])) (rcs @ [parts]) []"
    using rx pl fields(2) by (simp add: rx_state_def d h_def m_def)
  then show ?thesis by (simp add: d sg m_def[symmetric] h_def) (simp add: dispatch_def)
qed

text \<open>Taking a buffer from the free list and filling it with the frame's bytes.\<close>

lemma take_fill:
  assumes pool: "pool (nb s) Q" and len: "\<forall>a. IF_SPI_BUF_SIZE \<le> length (packet (bufs (nb s) a))"
    and free: "Q MEM_Buffer_Freelist = x # xs"
    and f: "length d \<le> IF_SPI_BUF_SIZE" "frame_len (rx_frame s) = of_nat (length d)" "take (length d) (frame_data (rx_frame s)) = d"
  defines "s1 \<equiv> fill_buffer (take_buffer s)"
  shows "currP (take_buffer s) = x" "x \<noteq> NU_NULL" "unlisted x (Q(MEM_Buffer_Freelist := xs))"
    "s1 = s\<lparr>nb := nb s1, currP := x\<rparr>" "pool (nb s1) (Q(MEM_Buffer_Freelist := xs))"
    "seg (nb s1) x = d" "nbf (nb s1) = (nbf (nb s))(x := NU_NULL)"
    "\<And>a. a \<noteq> x \<Longrightarrow> bufs (nb s1) a = bufs (nb s) a"
    "\<forall>a. IF_SPI_BUF_SIZE \<le> length (packet (bufs (nb s1) a))"
proof -
  from Dequeue_free_eq[OF pool free] obtain m1 where m1:
    "MEM_Buffer_Dequeue (Some MEM_Buffer_Freelist) (nb s) = (m1, x)"
    "pool m1 (Q(MEM_Buffer_Freelist := xs))" "nbf m1 = (nbf (nb s))(x := NU_NULL)"
    "unlisted x (Q(MEM_Buffer_Freelist := xs))" "x \<noteq> NU_NULL" by metis
  have bm1: "bufs m1 = (bufs (nb s))(x := clear_header (bufs (nb s) x))"
    using Dequeue_Cons(3)[OF pool free] m1(1) by simp
  have n: "unat (frame_len (rx_frame s)) = length d" using f small_word(4) by simp
  have tb: "take_buffer s = s\<lparr>nb := m1, currP := x\<rparr>" by (simp add: take_buffer_def m1)
  define g where "g = (\<lambda>b :: net_buffer. b\<lparr>packet := memcpy (packet b) (frame_data (rx_frame s)) (length d),
     mem_buf_device := Some (device s), data_ptr := Some 0, data_len := length d\<rparr>)"
  have nb1: "nb s1 = upd_buf g x m1" by (simp add: s1_def fill_buffer_def tb n g_def Let_def)
  show "currP (take_buffer s) = x" "x \<noteq> NU_NULL" "unlisted x (Q(MEM_Buffer_Freelist := xs))" using m1 by (simp_all add: tb)
  show "s1 = s\<lparr>nb := nb s1, currP := x\<rparr>" unfolding nb1 by (simp add: s1_def fill_buffer_def tb n g_def Let_def)
  show "pool (nb s1) (Q(MEM_Buffer_Freelist := xs))" unfolding nb1 by (rule pool_upd_nbf[OF m1(2)]) (simp add: g_def)
  show "nbf (nb s1) = (nbf (nb s))(x := NU_NULL)" unfolding nb1
    by (simp add: m1(3) bm1 g_def clear_header_def)
  show "seg (nb s1) x = d" unfolding nb1
    using f by (simp add: seg_def g_def memcpy_def)
  show "\<And>a. a \<noteq> x \<Longrightarrow> bufs (nb s1) a = bufs (nb s) a" unfolding nb1 by (simp add: bm1)
  have "IF_SPI_BUF_SIZE \<le> length (memcpy (packet (bufs (nb s) x)) (frame_data (rx_frame s)) (length d))"
    using f(3) len by (simp add: memcpy_def) (metis diff_add_inverse2 le_add_diff_inverse le_add2 le_trans nat_le_linear
        add.commute diff_is_0_eq add_0_right)
  then show "\<forall>a. IF_SPI_BUF_SIZE \<le> length (packet (bufs (nb s1) a))"
    unfolding nb1 using len by (simp add: bm1 g_def clear_header_def)
qed

text \<open>The packets already delivered are not affected by filling a free buffer.\<close>

lemma delivered_frame:
  assumes "delivered m Q c" "pool m Q" "Q MEM_Buffer_Freelist = x # xs" "x \<notin> set c"
    and "\<And>a. a \<noteq> x \<Longrightarrow> a \<noteq> p \<Longrightarrow> bufs m' a = bufs m a" "p \<notin> set c"
  shows "delivered m' (Q(MEM_Buffer_Freelist := xs)) c"
proof (rule delivered_cong[OF assms(1)])
  fix a assume "a \<in> set c"
  then have "bufs m' a = bufs m a" using assms(4-6) by metis
  then show "nbf m' a = nbf m a \<and> seg m' a = seg m a" unfolding nbf_def seg_def by (simp cong: option.case_cong)
next
  have "hd c \<in> set c" using assms(1) by (simp add: delivered_def)
  then show "mem_total_data_len (bufs m' (hd c)) = mem_total_data_len (bufs m (hd c))"
    using assms(4-6) by metis
next
  fix a assume "a \<in> set (tl c)"
  then have "unlisted a Q" using assms(1) by (simp add: delivered_def)
  then have "\<And>h. a \<notin> set (Q h)" "a \<notin> set xs" using assms(3) by (auto simp: unlisted_def) (metis list.set_intros(2))
  then show "unlisted a (Q(MEM_Buffer_Freelist := xs))" by (simp add: unlisted_def)
qed

lemma rx_free_not_in:
  assumes "rx_state s Q rcs parts" "Q MEM_Buffer_Freelist = x # xs"
  shows "x \<notin> set (concat rcs)" "x \<notin> set parts"
proof -
  have pool: "pool (nb s) Q" using assms(1) by (simp add: rx_state_def)
  have xf: "x \<in> set (Q MEM_Buffer_Freelist)" using assms(2) by simp
  show "x \<notin> set parts" using assms(1) xf by (auto simp: rx_state_def unlisted_def)
  show "x \<notin> set (concat rcs)"
  proof
    assume "x \<in> set (concat rcs)"
    then obtain c where c: "c \<in> set rcs" "x \<in> set c" by auto
    then have "delivered (nb s) Q c" using assms(1) by (simp add: rx_state_def)
    then have "x = hd c \<or> unlisted x Q" using c(2) by (cases c) (auto simp: delivered_def)
    moreover have "hd c \<in> set (Q MEM_Buffer_List)" using assms(1) c(1) by (simp add: rx_state_def)
    ultimately show False using xf pool_disj[OF pool, of MEM_Buffer_Freelist MEM_Buffer_List x]
      by (auto simp: unlisted_def)
  qed
qed

lemma psize_append [simp]: "psize m (xs @ ys) = psize m xs + psize m ys"
  by (simp add: psize_def)

lemma psize_cong: "(\<And>a. a \<in> set c \<Longrightarrow> seg m' a = seg m a) \<Longrightarrow> psize m' c = psize m c"
  unfolding psize_def by (rule arg_cong[where f = sum_list]) simp

text \<open>A frame that starts a packet, with no packet under assembly.\<close>

lemma rx_start:
  assumes rx: "rx_state s Q rcs []" and free: "Q MEM_Buffer_Freelist = x # xs"
    and f: "length d \<le> IF_SPI_BUF_SIZE" "frame_len (rx_frame s) = of_nat (length d)" "take (length d) (frame_data (rx_frame s)) = d"
  defines "s' \<equiv> (fill_buffer (take_buffer s))\<lparr>pktSize := length d, headP := x, prevP := x\<rparr>"
  shows "rx_state s' (Q(MEM_Buffer_Freelist := xs)) rcs [x] \<and> seg (nb s') x = d \<and>
    (\<forall>a. a \<noteq> x \<longrightarrow> seg (nb s') a = seg (nb s) a) \<and> buf_ptr s' = buf_ptr s"
proof -
  have pool: "pool (nb s) Q" and len: "\<forall>a. IF_SPI_BUF_SIZE \<le> length (packet (bufs (nb s) a))"
    using rx by (auto simp: rx_state_def)
  note t = take_fill[OF pool len free f]
  define s1 where "s1 = fill_buffer (take_buffer s)"
  have nb': "nb s' = nb s1" by (simp add: s'_def s1_def)
  have bp: "buf_ptr s' = buf_ptr s" using arg_cong[OF t(4), of buf_ptr] by (simp add: s'_def)
  have dl: "delivered (nb s1) (Q(MEM_Buffer_Freelist := xs)) c" if "c \<in> set rcs" for c
  proof (rule delivered_frame[where p = x and x = x])
    show "delivered (nb s) Q c" using rx that by (simp add: rx_state_def)
    show "x \<notin> set c" "x \<notin> set c" using rx_free_not_in[OF rx free] that by auto
  qed (use pool free t(8) s1_def in auto)
  have sx: "seg (nb s1) x = d" "nbf (nb s1) x = NU_NULL" using t(6,7) by (simp_all add: s1_def)
  then have "psize (nb s1) [x] mod 4294967296 = length d" using f(1) by (simp add: psize_def IF_SPI_BUF_SIZE_def)
  then have "rx_state s' (Q(MEM_Buffer_Freelist := xs)) rcs [x]"
    using rx t(2,3,5,9) dl sx rx_free_not_in[OF rx free]
    by (simp add: rx_state_def nb' s1_def del: fun_upd_apply) (simp add: s'_def)
  moreover have "seg (nb s1) a = seg (nb s) a" if "a \<noteq> x" for a
    using t(8)[OF that] unfolding s1_def seg_def by (simp cong: option.case_cong)
  ultimately show ?thesis using sx bp by (simp add: nb')
qed

lemma path_snoc_last:
  assumes "path f p xs" "xs \<noteq> []" "distinct xs" "y \<notin> set xs" "y \<noteq> NU_NULL" "g = f(y := NU_NULL, last xs := y)"
  shows "path g p (xs @ [y])"
  using path_snoc[OF assms(1-5)] assms(6) by simp

text \<open>A frame that continues the packet under assembly.\<close>

lemma rx_continue:
  assumes rx: "rx_state s Q rcs parts" and ne: "parts \<noteq> []" and free: "Q MEM_Buffer_Freelist = x # xs"
    and f: "length d \<le> IF_SPI_BUF_SIZE" "frame_len (rx_frame s) = of_nat (length d)" "take (length d) (frame_data (rx_frame s)) = d"
  defines "s4 \<equiv> fill_buffer (take_buffer s)"
  defines "s' \<equiv> s4\<lparr>pktSize := add32 (pktSize s4) (length d),
     nb := upd_buf (next_buffer_update (\<lambda>_. currP s4)) (prevP s4) (nb s4), prevP := currP s4\<rparr>"
  shows "rx_state s' (Q(MEM_Buffer_Freelist := xs)) rcs (parts @ [x]) \<and> seg (nb s') x = d \<and>
    (\<forall>a. a \<noteq> x \<longrightarrow> seg (nb s') a = seg (nb s) a) \<and> buf_ptr s' = buf_ptr s"
proof -
  have pool: "pool (nb s) Q" and len: "\<forall>a. IF_SPI_BUF_SIZE \<le> length (packet (bufs (nb s) a))"
    using rx by (auto simp: rx_state_def)
  note t = take_fill[OF pool len free f, folded s4_def]
  have fs: "currP s4 = x" "prevP s4 = last parts" "pktSize s4 = psize (nb s) parts mod 4294967296"
    "headP s4 = hd parts" "buf_ptr s4 = buf_ptr s"
    using arg_cong[OF t(4), of currP] arg_cong[OF t(4), of prevP] arg_cong[OF t(4), of pktSize]
      arg_cong[OF t(4), of headP] arg_cong[OF t(4), of buf_ptr] rx ne by (simp_all add: rx_state_def)
  have nb': "nb s' = upd_buf (next_buffer_update (\<lambda>_. x)) (last parts) (nb s4)" by (simp add: s'_def fs)
  have xn: "x \<notin> set (concat rcs)" "x \<notin> set parts" using rx_free_not_in[OF rx free] by auto
  have lp: "last parts \<in> set parts" "last parts \<noteq> x" using ne xn(2) by (auto intro: last_in_set)
  have un: "unlisted a Q" if "a \<in> set parts" for a using rx that by (simp add: rx_state_def)
  have sg4: "seg (nb s') a = seg (nb s4) a" for a unfolding nb' seg_def by (simp cong: option.case_cong)
  have sg: "seg (nb s') a = seg (nb s) a" if "a \<noteq> x" for a
  proof -
    have "seg (nb s4) a = seg (nb s) a" using t(8)[OF that] unfolding seg_def by (simp cong: option.case_cong)
    then show ?thesis by (simp add: sg4)
  qed
  have pl: "pool (nb s') (Q(MEM_Buffer_Freelist := xs))"
    unfolding nb' by (rule pool_upd_nbf[OF t(5)]) simp
  have nbf': "nbf (nb s') = (nbf (nb s))(x := NU_NULL, last parts := x)" by (simp add: nb' t(7))
  have dl: "delivered (nb s') (Q(MEM_Buffer_Freelist := xs)) c" if "c \<in> set rcs" for c
  proof (rule delivered_frame[where p = "last parts" and x = x])
    show "delivered (nb s) Q c" using rx that by (simp add: rx_state_def)
    show "x \<notin> set c" using xn that by auto
    show "last parts \<notin> set c" using rx that lp(1) by (auto simp: rx_state_def)
    show "bufs (nb s') a = bufs (nb s) a" if "a \<noteq> x" "a \<noteq> last parts" for a using t(8) that by (simp add: nb')
  qed (use pool free in auto)
  have pp: "path (nbf (nb s')) (hd parts) (parts @ [x])"
    by (rule path_snoc_last[OF _ ne _ xn(2) t(2) nbf']) (use rx ne in \<open>simp_all add: rx_state_def\<close>)
  have "psize (nb s') parts = psize (nb s) parts" by (rule psize_cong) (use sg xn(2) in metis)
  moreover have "seg (nb s') x = d" using sg4 t(6) by simp
  ultimately have ps: "psize (nb s') (parts @ [x]) = psize (nb s) parts + length d" by (simp add: psize_def)
  have pk: "pktSize s' = psize (nb s') (parts @ [x]) mod 4294967296"
    unfolding ps by (simp add: s'_def fs add32_def mod_simps)
  have up: "unlisted a (Q(MEM_Buffer_Freelist := xs))" if "a \<in> set (parts @ [x])" for a
  proof (cases "a = x")
    case False
    then have "a \<notin> set xs" using un[of a] that free by (auto simp: unlisted_def) (metis list.set_intros(2))
    then show ?thesis using un[of a] that False by (simp add: unlisted_upd)
  qed (use t(3) in simp)
  have "\<forall>a. IF_SPI_BUF_SIZE \<le> length (packet (bufs (nb s') a))" using t(9) by (simp add: nb')
  moreover have "headP s' = hd parts" "prevP s' = x" "buf_ptr s' = buf_ptr s" by (simp_all add: s'_def fs)
  ultimately show ?thesis
    using rx pl dl pp pk up xn ne \<open>seg (nb s') x = d\<close> sg by (simp add: rx_state_def del: fun_upd_apply) simp
qed

lemma rx_frame_irrelevant [simp]:
  "rx_state (s\<lparr>rx_frame := f\<rparr>) Q rcs parts = rx_state s Q rcs parts"
  "tx_state (s\<lparr>rx_frame := f\<rparr>) Q pkts cur = tx_state s Q pkts cur"
  by (simp_all add: rx_state_def tx_state_def)

definition finished :: "addr list list \<Rightarrow> addr list \<Rightarrow> addr list list" where
  "finished rcs parts = (if parts = [] then rcs else rcs @ [parts])"

definition q_finished :: "queues \<Rightarrow> addr list \<Rightarrow> queues" where
  "q_finished Q parts = (if parts = [] then Q else Q(MEM_Buffer_List := Q MEM_Buffer_List @ [hd parts]))"

lemma handle_FS:
  assumes rx: "rx_state s Q rcs parts" and free: "Q MEM_Buffer_Freelist = x # xs"
    and f: "frame_len f AND IFSPI_FRAME_FS \<noteq> 0" "frame_len f AND IFSPI_DATA_LEN_MASK = of_nat (length d)"
      "length d \<le> IF_SPI_BUF_SIZE" "take (length d) (frame_data f) = d"
  defines "s' \<equiv> IFSPI_handle_rx (s\<lparr>rx_frame := f\<rparr>)"
  shows "rx_state s' ((q_finished Q parts)(MEM_Buffer_Freelist := xs)) (finished rcs parts) [x] \<and>
    seg (nb s') x = d \<and> (\<forall>a. a \<noteq> x \<longrightarrow> seg (nb s') a = seg (nb s) a) \<and> buf_ptr s' = buf_ptr s"
proof -
  define s0 where "s0 = s\<lparr>rx_frame := f\<rparr>"
  define s1 where "s1 = (if headP s0 \<noteq> NU_NULL then dispatch s0 else s0)"
  define s2 where "s2 = s1\<lparr>rx_frame := (rx_frame s1)\<lparr>frame_len := frame_len (rx_frame s1) AND IFSPI_DATA_LEN_MASK\<rparr>\<rparr>"
  have rx0: "rx_state s0 Q rcs parts" using rx by (simp add: s0_def)
  have hp: "headP s0 \<noteq> NU_NULL \<longleftrightarrow> parts \<noteq> []"
    using rx0 path_head[of "nbf (nb s0)" "hd parts" parts] by (auto simp: rx_state_def)
  have s1: "rx_state s1 (q_finished Q parts) (finished rcs parts) [] \<and> (\<forall>a. seg (nb s1) a = seg (nb s0) a) \<and>
      buf_ptr s1 = buf_ptr s0 \<and> rx_frame s1 = rx_frame s0"
  proof (cases "parts = []")
    case True
    then show ?thesis using rx0 hp by (simp add: s1_def q_finished_def finished_def)
  next
    case False
    then show ?thesis using dispatch_rx[OF rx0 False] hp
      by (simp add: s1_def q_finished_def finished_def del: fun_upd_apply)
  qed
  have d: "length d \<le> IF_SPI_BUF_SIZE" by (rule f(3))
  have fr: "frame_len (rx_frame s2) = of_nat (length d)" "take (length d) (frame_data (rx_frame s2)) = d"
    using f s1 by (simp_all add: s2_def s0_def)
  have rx2: "rx_state s2 (q_finished Q parts) (finished rcs parts) []" using s1 by (simp add: s2_def)
  have fr2: "(q_finished Q parts) MEM_Buffer_Freelist = x # xs" using free by (simp add: q_finished_def)
  have pool2: "pool (nb s2) (q_finished Q parts)" "\<forall>a. IF_SPI_BUF_SIZE \<le> length (packet (bufs (nb s2) a))"
    using rx2 by (auto simp: rx_state_def)
  note t = take_fill(1,2)[OF pool2 fr2 d fr]
  have rf: "rx_frame (take_buffer s2) = rx_frame s2" by (simp add: take_buffer_def case_prod_beta)
  have nz: "frame_len (rx_frame s0) AND IFSPI_FRAME_FS \<noteq> 0"
    using f(1) by (simp add: s0_def)
  have "s' = (if currP (take_buffer s2) \<noteq> NU_NULL \<and> unat (frame_len (rx_frame (take_buffer s2))) \<le> IF_SPI_BUF_SIZE
      then (fill_buffer (take_buffer s2))\<lparr>pktSize := unat (frame_len (rx_frame (take_buffer s2))),
             headP := currP (take_buffer s2), prevP := currP (take_buffer s2)\<rparr>
      else take_buffer s2)"
    unfolding s'_def s0_def[symmetric] IFSPI_handle_rx_def Let_def s2_def s1_def if_P[OF nz] by (rule refl)
  then have "s' = (fill_buffer (take_buffer s2))\<lparr>pktSize := length d, headP := x, prevP := x\<rparr>"
    using small_word(4)[OF d] fr t d rf by simp
  then show ?thesis using rx_start[OF rx2 fr2 d fr] s1 by (simp add: s2_def s0_def del: fun_upd_apply)
qed

lemma carries_FS:
  assumes "carries f IFSPI_FRAME_FS d"
  shows "frame_len f AND IFSPI_FRAME_FS \<noteq> 0" "frame_len f AND IFSPI_DATA_LEN_MASK = of_nat (length d)"
    "length d \<le> IF_SPI_BUF_SIZE" "take (length d) (frame_data f) = d"
  using assms small_word(2,3)[of "length d"] by (simp_all add: carries_def del: word_ao_absorbs)

lemma handle_cont:
  assumes rx: "rx_state s Q rcs parts" and ne: "parts \<noteq> []" and free: "Q MEM_Buffer_Freelist = x # xs"
    and f: "carries f 0 d" "d \<noteq> []"
  defines "s' \<equiv> IFSPI_handle_rx (s\<lparr>rx_frame := f\<rparr>)"
  shows "rx_state s' (Q(MEM_Buffer_Freelist := xs)) rcs (parts @ [x]) \<and>
    seg (nb s') x = d \<and> (\<forall>a. a \<noteq> x \<longrightarrow> seg (nb s') a = seg (nb s) a) \<and> buf_ptr s' = buf_ptr s"
proof -
  define s0 where "s0 = s\<lparr>rx_frame := f\<rparr>"
  have rx0: "rx_state s0 Q rcs parts" using rx by (simp add: s0_def)
  have hp: "headP s0 \<noteq> NU_NULL"
    using rx0 ne path_head[of "nbf (nb s0)" "hd parts" parts] by (auto simp: rx_state_def)
  have d: "length d \<le> IF_SPI_BUF_SIZE" using f by (simp add: carries_def)
  have fr: "frame_len (rx_frame s0) = of_nat (length d)" "take (length d) (frame_data (rx_frame s0)) = d"
    using f by (simp_all add: carries_def s0_def)
  have pool0: "pool (nb s0) Q" "\<forall>a. IF_SPI_BUF_SIZE \<le> length (packet (bufs (nb s0) a))"
    using rx0 by (auto simp: rx_state_def)
  note t = take_fill(1,2)[OF pool0 free d fr]
  have rf: "rx_frame (take_buffer s0) = rx_frame s0" by (simp add: take_buffer_def case_prod_beta)
  have nz: "frame_len (rx_frame s0) AND IFSPI_FRAME_FS = 0" "frame_len (rx_frame s0) \<noteq> 0"
    "unat (frame_len (rx_frame s0)) = length d"
    unfolding fr(1) using small_word[OF d] f(2) by auto
  have "s' = (let s4 = fill_buffer (take_buffer s0) in s4\<lparr>pktSize := add32 (pktSize s4) (length d),
     nb := upd_buf (next_buffer_update (\<lambda>_. currP s4)) (prevP s4) (nb s4), prevP := currP s4\<rparr>)"
    unfolding s'_def s0_def[symmetric] using nz hp t d rf by (simp add: IFSPI_handle_rx_def Let_def)
  then show ?thesis using rx_continue[OF rx0 ne free d fr] by (simp add: s0_def Let_def del: fun_upd_apply)
qed

lemma handle_blank:
  assumes rx: "rx_state s Q rcs parts" and f: "frame_len f = 0"
  defines "s' \<equiv> IFSPI_handle_rx (s\<lparr>rx_frame := f\<rparr>)"
  shows "rx_state s' (q_finished Q parts) (finished rcs parts) [] \<and>
    (\<forall>a. seg (nb s') a = seg (nb s) a) \<and> buf_ptr s' = buf_ptr s"
proof -
  define s0 where "s0 = s\<lparr>rx_frame := f\<rparr>"
  have rx0: "rx_state s0 Q rcs parts" using rx by (simp add: s0_def)
  have hp: "headP s0 \<noteq> NU_NULL \<longleftrightarrow> parts \<noteq> []"
    using rx0 path_head[of "nbf (nb s0)" "hd parts" parts] by (auto simp: rx_state_def)
  have "s' = (if headP s0 \<noteq> NU_NULL then dispatch s0 else s0)"
    unfolding s'_def s0_def[symmetric] using f by (simp add: IFSPI_handle_rx_def s0_def)
  then show ?thesis using rx0 hp dispatch_rx[OF rx0]
    by (cases "parts = []") (simp_all add: q_finished_def finished_def s0_def del: fun_upd_apply)
qed

section \<open>Both ends of the link\<close>

text \<open>A sender whose receive path is idle, and a receiver whose transmit path is idle.\<close>

definition coupled ::
    "ifspi \<Rightarrow> queues \<Rightarrow> addr list list \<Rightarrow> addr list \<Rightarrow> ifspi \<Rightarrow> queues \<Rightarrow> addr list list \<Rightarrow> addr list \<Rightarrow> bool" where
  "coupled a Qa pkts cur b Qb rcs parts \<longleftrightarrow>
     tx_state a Qa pkts cur \<and> headP a = NU_NULL \<and>
     rx_state b Qb rcs parts \<and> Qb dev_transq = [] \<and> buf_ptr b = NU_NULL"

lemma exchange_step:
  assumes "IFSPI_prepare_tx a = Some a1" "IFSPI_prepare_tx b = Some b1" "frame_len (tx_frame b1) = 0" "headP a1 = NU_NULL"
  shows "exchange (Suc n) (a, b) =
    exchange n (a1\<lparr>rx_frame := tx_frame b1\<rparr>, IFSPI_handle_rx (b1\<lparr>rx_frame := tx_frame a1\<rparr>))"
  using assms by (simp add: IFSPI_iteration_def IFSPI_handle_rx_def)

declare exchange.simps(2) [simp del]

lemma idle_receiver:
  assumes "rx_state b Qb rcs parts" "Qb dev_transq = []" "buf_ptr b = NU_NULL"
  shows "\<exists>b1. IFSPI_prepare_tx b = Some b1 \<and> frame_len (tx_frame b1) = 0 \<and> nb b1 = nb b \<and>
    rx_state b1 Qb rcs parts \<and> buf_ptr b1 = NU_NULL"
proof -
  have "tx_state b Qb [] []" using assms by (simp add: tx_state_def rx_state_def)
  from prepare_idle[OF this] obtain b1 where b1: "IFSPI_prepare_tx b = Some b1" "frame_len (tx_frame b1) = 0"
    "rx_same b b1" "nb b1 = nb b" "tx_state b1 Qb [] []" by blast
  then have "rx_state b1 Qb rcs parts" using assms(1) by (simp add: rx_state_def rx_same_def)
  then show ?thesis using b1 by (auto simp: tx_state_def)
qed

text \<open>One exchange in each of the three situations.\<close>

lemma exchange_first:
  assumes c: "coupled a Qa ((x # rest) # cs) [] b Qb rcs parts" and free: "Qb MEM_Buffer_Freelist = y # ys"
  shows "\<exists>a' b' Qb'. (\<forall>n. exchange (Suc n) (a, b) = exchange n (a', b')) \<and>
    coupled a' (after_load Qa ((x # rest) # cs) rest) (if rest = [] then cs else (x # rest) # cs) rest
      b' Qb' (finished rcs parts) [y] \<and> Qb' MEM_Buffer_Freelist = ys \<and>
    seg (nb b') y = seg (nb a) x \<and> (\<forall>z. z \<noteq> y \<longrightarrow> seg (nb b') z = seg (nb b) z) \<and>
    (\<forall>z. seg (nb a') z = seg (nb a) z)"
proof -
  from prepare_first[of a Qa x rest cs] c obtain a1 where a1: "IFSPI_prepare_tx a = Some a1"
    "carries (tx_frame a1) IFSPI_FRAME_FS (seg (nb a) x)" "rx_same a a1"
    "tx_state a1 (after_load Qa ((x # rest) # cs) rest) (if rest = [] then cs else (x # rest) # cs) rest"
    "\<forall>z. (bufs (nb a1) z)\<lparr>nb_next := 0\<rparr> = (bufs (nb a) z)\<lparr>nb_next := 0\<rparr>" by (auto simp: coupled_def)
  from idle_receiver[of b Qb rcs parts] c obtain b1 where b1: "IFSPI_prepare_tx b = Some b1"
    "frame_len (tx_frame b1) = 0" "nb b1 = nb b" "rx_state b1 Qb rcs parts" "buf_ptr b1 = NU_NULL"
    by (auto simp: coupled_def)
  define b2 where "b2 = IFSPI_handle_rx (b1\<lparr>rx_frame := tx_frame a1\<rparr>)"
  note h = handle_FS[OF b1(4) free carries_FS[OF a1(2)], folded b2_def]
  have "headP a1 = NU_NULL" using a1(3) c by (simp add: rx_same_def coupled_def)
  note e = exchange_step[OF a1(1) b1(1,2) this, folded b2_def]
  have "((q_finished Qb parts)(MEM_Buffer_Freelist := ys)) dev_transq = []"
    using c by (simp add: coupled_def q_finished_def)
  moreover have "\<forall>z. seg (nb a1) z = seg (nb a) z" using a1(5) seg_cong by blast
  ultimately show ?thesis using e h a1(3,4) b1(3,5) c
    by (rule_tac x = "a1\<lparr>rx_frame := tx_frame b1\<rparr>" in exI, rule_tac x = b2 in exI,
        rule_tac x = "(q_finished Qb parts)(MEM_Buffer_Freelist := ys)" in exI)
       (simp add: coupled_def rx_same_def fun_upd_same del: fun_upd_apply)
qed

lemma exchange_next:
  assumes c: "coupled a Qa pkts (x # rest) b Qb rcs parts" "parts \<noteq> []" and free: "Qb MEM_Buffer_Freelist = y # ys"
    and nz: "seg (nb a) x \<noteq> []"
  shows "\<exists>a' b' Qb'. (\<forall>n. exchange (Suc n) (a, b) = exchange n (a', b')) \<and>
    coupled a' (after_load Qa pkts rest) (if rest = [] then tl pkts else pkts) rest
      b' Qb' rcs (parts @ [y]) \<and> Qb' MEM_Buffer_Freelist = ys \<and>
    seg (nb b') y = seg (nb a) x \<and> (\<forall>z. z \<noteq> y \<longrightarrow> seg (nb b') z = seg (nb b) z) \<and>
    (\<forall>z. seg (nb a') z = seg (nb a) z)"
proof -
  from prepare_next[of a Qa pkts x rest] c obtain a1 where a1: "IFSPI_prepare_tx a = Some a1"
    "carries (tx_frame a1) 0 (seg (nb a) x)" "rx_same a a1"
    "tx_state a1 (after_load Qa pkts rest) (if rest = [] then tl pkts else pkts) rest"
    "\<forall>z. (bufs (nb a1) z)\<lparr>nb_next := 0\<rparr> = (bufs (nb a) z)\<lparr>nb_next := 0\<rparr>" by (auto simp: coupled_def)
  from idle_receiver[of b Qb rcs parts] c obtain b1 where b1: "IFSPI_prepare_tx b = Some b1"
    "frame_len (tx_frame b1) = 0" "nb b1 = nb b" "rx_state b1 Qb rcs parts" "buf_ptr b1 = NU_NULL"
    by (auto simp: coupled_def)
  define b2 where "b2 = IFSPI_handle_rx (b1\<lparr>rx_frame := tx_frame a1\<rparr>)"
  note h = handle_cont[OF b1(4) c(2) free a1(2) nz, folded b2_def]
  have "headP a1 = NU_NULL" using a1(3) c by (simp add: rx_same_def coupled_def)
  note e = exchange_step[OF a1(1) b1(1,2) this, folded b2_def]
  have "(Qb(MEM_Buffer_Freelist := ys)) dev_transq = []" using c by (simp add: coupled_def)
  moreover have "\<forall>z. seg (nb a1) z = seg (nb a) z" using a1(5) seg_cong by blast
  ultimately show ?thesis using e h a1(3,4) b1(3,5) c
    by (rule_tac x = "a1\<lparr>rx_frame := tx_frame b1\<rparr>" in exI, rule_tac x = b2 in exI,
        rule_tac x = "Qb(MEM_Buffer_Freelist := ys)" in exI)
       (simp add: coupled_def rx_same_def fun_upd_same del: fun_upd_apply)
qed

lemma exchange_blank:
  assumes c: "coupled a Qa [] [] b Qb rcs parts"
  shows "\<exists>a' b' Qb'. (\<forall>n. exchange (Suc n) (a, b) = exchange n (a', b')) \<and>
    coupled a' Qa [] [] b' Qb' (finished rcs parts) [] \<and> (\<forall>z. seg (nb b') z = seg (nb b) z)"
proof -
  from prepare_idle[of a Qa] c obtain a1 where a1: "IFSPI_prepare_tx a = Some a1"
    "frame_len (tx_frame a1) = 0" "rx_same a a1" "tx_state a1 Qa [] []" by (auto simp: coupled_def)
  from idle_receiver[of b Qb rcs parts] c obtain b1 where b1: "IFSPI_prepare_tx b = Some b1"
    "frame_len (tx_frame b1) = 0" "nb b1 = nb b" "rx_state b1 Qb rcs parts" "buf_ptr b1 = NU_NULL"
    by (auto simp: coupled_def)
  define b2 where "b2 = IFSPI_handle_rx (b1\<lparr>rx_frame := tx_frame a1\<rparr>)"
  note h = handle_blank[OF b1(4) a1(2), folded b2_def]
  have "headP a1 = NU_NULL" using a1(3) c by (simp add: rx_same_def coupled_def)
  note e = exchange_step[OF a1(1) b1(1,2) this, folded b2_def]
  have "q_finished Qb parts dev_transq = []" using c by (simp add: coupled_def q_finished_def)
  then show ?thesis using e h a1(3,4) b1(3,5) c
    by (rule_tac x = "a1\<lparr>rx_frame := tx_frame b1\<rparr>" in exI, rule_tac x = b2 in exI,
        rule_tac x = "q_finished Qb parts" in exI)
       (simp add: coupled_def rx_same_def fun_upd_same del: fun_upd_apply)
qed

text \<open>The rest of a packet: as many exchanges as segments.\<close>

definition sent :: "queues \<Rightarrow> addr list list \<Rightarrow> queues" where
  "sent Q pkts = Q(dev_transq := [], MEM_Buffer_Freelist := Q MEM_Buffer_Freelist @ concat pkts)"

lemma coupled_nonempty:
  assumes "coupled a Qa (c # cs) cur b Qb rcs parts" "z \<in> set cur"
  shows "seg (nb a) z \<noteq> []"
proof -
  obtain pre where "pre \<noteq> []" "c = pre @ cur" using assms by (cases cur) (auto simp: coupled_def tx_state_def)
  then have "z \<in> set (tl c)" "z \<in> set c" using assms(2) by auto
  moreover have "chain_ok (nb a) c" using assms(1) by (simp add: coupled_def tx_state_def)
  ultimately have "good_buf (nb a) z" "data_len (bufs (nb a) z) \<noteq> 0" by (auto simp: chain_ok_def)
  then show ?thesis using length_seg by fastforce
qed

lemma exchange_rest:
  assumes "coupled a Qa (c # cs) cur b Qb rcs parts" "parts \<noteq> []" "cur \<noteq> []"
    "length cur \<le> length (Qb MEM_Buffer_Freelist)"
  shows "\<exists>a' b' Qb' ys. (\<forall>n. exchange (length cur + n) (a, b) = exchange n (a', b')) \<and>
    coupled a' (Qa(dev_transq := map hd cs, MEM_Buffer_Freelist := Qa MEM_Buffer_Freelist @ c)) cs []
      b' Qb' rcs (parts @ ys) \<and>
    Qb' MEM_Buffer_Freelist = drop (length cur) (Qb MEM_Buffer_Freelist) \<and>
    map (seg (nb b')) ys = map (seg (nb a)) cur \<and>
    (\<forall>z \<in> set (concat rcs @ parts). seg (nb b') z = seg (nb b) z) \<and> (\<forall>z. seg (nb a') z = seg (nb a) z)"
  using assms
proof (induction cur arbitrary: a Qa b Qb parts)
  case (Cons x rest)
  obtain y ys0 where y: "Qb MEM_Buffer_Freelist = y # ys0" using Cons.prems(4) by (cases "Qb MEM_Buffer_Freelist") auto
  have nz: "seg (nb a) x \<noteq> []" using coupled_nonempty[OF Cons.prems(1)] by simp
  from exchange_next[OF Cons.prems(1,2) y nz] obtain a1 b1 Q1 where s:
    "\<forall>n. exchange (Suc n) (a, b) = exchange n (a1, b1)"
    "coupled a1 (after_load Qa (c # cs) rest) (if rest = [] then cs else c # cs) rest b1 Q1 rcs (parts @ [y])"
    "Q1 MEM_Buffer_Freelist = ys0" "seg (nb b1) y = seg (nb a) x"
    "\<forall>z. z \<noteq> y \<longrightarrow> seg (nb b1) z = seg (nb b) z" "\<forall>z. seg (nb a1) z = seg (nb a) z"
    unfolding list.sel by blast
  have yn: "y \<notin> set (concat rcs @ parts)" using rx_free_not_in[of b Qb rcs parts] y Cons.prems(1) by (simp add: coupled_def)
  have old: "\<forall>z \<in> set (concat rcs @ parts). seg (nb b1) z = seg (nb b) z" using s(5) yn by metis
  show ?case
  proof (cases rest)
    case Nil
    then show ?thesis using s y old
      by (rule_tac x = a1 in exI, rule_tac x = b1 in exI, rule_tac x = Q1 in exI, rule_tac x = "[y]" in exI)
         (simp add: after_load_def del: fun_upd_apply)
  next
    case (Cons x' rest')
    have c1: "coupled a1 Qa (c # cs) rest b1 Q1 rcs (parts @ [y])" using s(2) Cons by (simp add: after_load_def)
    have ne: "parts @ [y] \<noteq> []" "rest \<noteq> []" using Cons by simp_all
    have "length rest \<le> length (Q1 MEM_Buffer_Freelist)" using Cons.prems(4) y s(3) by simp
    from Cons.IH[OF c1 ne this] obtain a' b' Qb' ys where i:
      "\<forall>n. exchange (length rest + n) (a1, b1) = exchange n (a', b')"
      "coupled a' (Qa(dev_transq := map hd cs, MEM_Buffer_Freelist := Qa MEM_Buffer_Freelist @ c)) cs []
         b' Qb' rcs ((parts @ [y]) @ ys)"
      "Qb' MEM_Buffer_Freelist = drop (length rest) (Q1 MEM_Buffer_Freelist)"
      "map (seg (nb b')) ys = map (seg (nb a1)) rest"
      "\<forall>z \<in> set (concat rcs @ parts @ [y]). seg (nb b') z = seg (nb b1) z" "\<forall>z. seg (nb a') z = seg (nb a1) z"
      by blast
    show ?thesis
    proof (intro exI conjI)
      show "\<forall>n. exchange (length (x # rest) + n) (a, b) = exchange n (a', b')" using s(1) i(1) by simp
      show "coupled a' (Qa(dev_transq := map hd cs, MEM_Buffer_Freelist := Qa MEM_Buffer_Freelist @ c)) cs []
          b' Qb' rcs (parts @ y # ys)" using i(2) by simp
      show "Qb' MEM_Buffer_Freelist = drop (length (x # rest)) (Qb MEM_Buffer_Freelist)" using i(3) s(3) y by simp
      show "map (seg (nb b')) (y # ys) = map (seg (nb a)) (x # rest)" using i(4,5) s(4,6) by simp
      show "\<forall>z \<in> set (concat rcs @ parts). seg (nb b') z = seg (nb b) z" using i(5) old by simp
      show "\<forall>z. seg (nb a') z = seg (nb a) z" using i(6) s(6) by simp
    qed
  qed
qed simp

lemma exchange_packet:
  assumes "coupled a Qa (c # cs) [] b Qb rcs parts" "length c \<le> length (Qb MEM_Buffer_Freelist)"
  shows "\<exists>a' b' Qb' ys. (\<forall>n. exchange (length c + n) (a, b) = exchange n (a', b')) \<and>
    coupled a' (Qa(dev_transq := map hd cs, MEM_Buffer_Freelist := Qa MEM_Buffer_Freelist @ c)) cs []
      b' Qb' (finished rcs parts) ys \<and> ys \<noteq> [] \<and>
    Qb' MEM_Buffer_Freelist = drop (length c) (Qb MEM_Buffer_Freelist) \<and>
    map (seg (nb b')) ys = map (seg (nb a)) c \<and>
    (\<forall>z \<in> set (concat (finished rcs parts)). seg (nb b') z = seg (nb b) z) \<and> (\<forall>z. seg (nb a') z = seg (nb a) z)"
proof -
  have "chain_ok (nb a) c" using assms(1) by (simp add: coupled_def tx_state_def)
  then obtain x rest where c: "c = x # rest" by (cases c) (auto simp: chain_ok_def)
  obtain y ys0 where y: "Qb MEM_Buffer_Freelist = y # ys0" using assms(2) c by (cases "Qb MEM_Buffer_Freelist") auto
  from exchange_first[OF assms(1)[unfolded c] y] obtain a1 b1 Q1 where s:
    "\<forall>n. exchange (Suc n) (a, b) = exchange n (a1, b1)"
    "coupled a1 (after_load Qa (c # cs) rest) (if rest = [] then cs else c # cs) rest b1 Q1 (finished rcs parts) [y]"
    "Q1 MEM_Buffer_Freelist = ys0" "seg (nb b1) y = seg (nb a) x"
    "\<forall>z. z \<noteq> y \<longrightarrow> seg (nb b1) z = seg (nb b) z" "\<forall>z. seg (nb a1) z = seg (nb a) z"
    unfolding c[symmetric] by blast
  have "y \<notin> set (concat rcs)" "y \<notin> set parts"
    using rx_free_not_in[of b Qb rcs parts] y assms(1) by (simp_all add: coupled_def)
  then have yn: "y \<notin> set (concat (finished rcs parts))" by (simp add: finished_def)
  have old: "\<forall>z \<in> set (concat (finished rcs parts)). seg (nb b1) z = seg (nb b) z" using s(5) yn by metis
  show ?thesis
  proof (cases "rest = []")
    case True
    then show ?thesis using s y old c
      by (rule_tac x = a1 in exI, rule_tac x = b1 in exI, rule_tac x = Q1 in exI, rule_tac x = "[y]" in exI)
         (simp add: after_load_def del: fun_upd_apply)
  next
    case False
    have c1: "coupled a1 Qa (c # cs) rest b1 Q1 (finished rcs parts) [y]" using s(2) False by (simp add: after_load_def)
    have "length rest \<le> length (Q1 MEM_Buffer_Freelist)" using assms(2) y s(3) c by simp
    from exchange_rest[OF c1 _ False this] obtain a' b' Qb' ys where i:
      "\<forall>n. exchange (length rest + n) (a1, b1) = exchange n (a', b')"
      "coupled a' (Qa(dev_transq := map hd cs, MEM_Buffer_Freelist := Qa MEM_Buffer_Freelist @ c)) cs []
         b' Qb' (finished rcs parts) ([y] @ ys)"
      "Qb' MEM_Buffer_Freelist = drop (length rest) (Q1 MEM_Buffer_Freelist)"
      "map (seg (nb b')) ys = map (seg (nb a1)) rest"
      "\<forall>z \<in> set (concat (finished rcs parts) @ [y]). seg (nb b') z = seg (nb b1) z" "\<forall>z. seg (nb a') z = seg (nb a1) z"
      by (auto simp del: fun_upd_apply)
    show ?thesis
    proof (intro exI conjI)
      show "\<forall>n. exchange (length c + n) (a, b) = exchange n (a', b')" using s(1) i(1) c by simp
      show "coupled a' (Qa(dev_transq := map hd cs, MEM_Buffer_Freelist := Qa MEM_Buffer_Freelist @ c)) cs []
          b' Qb' (finished rcs parts) ([y] @ ys)" by (rule i(2))
      show "Qb' MEM_Buffer_Freelist = drop (length c) (Qb MEM_Buffer_Freelist)" using i(3) s(3) y c by simp
      show "map (seg (nb b')) ([y] @ ys) = map (seg (nb a)) c" using i(4,5) s(4,6) c by simp
      show "\<forall>z \<in> set (concat (finished rcs parts)). seg (nb b') z = seg (nb b) z" using i(5) old by simp
      show "\<forall>z. seg (nb a') z = seg (nb a) z" using i(6) s(6) by simp
    qed simp
  qed
qed

lemma exchange_all:
  assumes "coupled a Qa pkts [] b Qb rcs parts" "length (concat pkts) \<le> length (Qb MEM_Buffer_Freelist)"
  shows "\<exists>a' b' Qb' rcs' parts'. (\<forall>n. exchange (length (concat pkts) + n) (a, b) = exchange n (a', b')) \<and>
    coupled a' (sent Qa pkts) [] [] b' Qb' rcs' parts' \<and>
    map (map (seg (nb b'))) (finished rcs' parts') =
      map (map (seg (nb b))) (finished rcs parts) @ map (map (seg (nb a))) pkts"
  using assms
proof (induction pkts arbitrary: a Qa b Qb rcs parts)
  case Nil
  have "sent Qa [] = Qa" using Nil(1) by (auto simp: sent_def coupled_def tx_state_def)
  then show ?case using Nil(1)
    by (rule_tac x = a in exI, rule_tac x = b in exI, rule_tac x = Qb in exI, rule_tac x = rcs in exI,
        rule_tac x = parts in exI) simp
next
  case (Cons c cs)
  from exchange_packet[OF Cons.prems(1)] Cons.prems(2) obtain a1 b1 Q1 ys where s:
    "\<forall>n. exchange (length c + n) (a, b) = exchange n (a1, b1)"
    "coupled a1 (Qa(dev_transq := map hd cs, MEM_Buffer_Freelist := Qa MEM_Buffer_Freelist @ c)) cs []
       b1 Q1 (finished rcs parts) ys" "ys \<noteq> []"
    "Q1 MEM_Buffer_Freelist = drop (length c) (Qb MEM_Buffer_Freelist)"
    "map (seg (nb b1)) ys = map (seg (nb a)) c"
    "\<forall>z \<in> set (concat (finished rcs parts)). seg (nb b1) z = seg (nb b) z" "\<forall>z. seg (nb a1) z = seg (nb a) z"
    by (auto simp del: fun_upd_apply)
  let ?Q1 = "Qa(dev_transq := map hd cs, MEM_Buffer_Freelist := Qa MEM_Buffer_Freelist @ c)"
  have "length (concat cs) \<le> length (Q1 MEM_Buffer_Freelist)" using Cons.prems(2) s(4) by simp
  from Cons.IH[OF s(2) this] obtain a' b' Qb' rcs' parts' where i:
    "\<forall>n. exchange (length (concat cs) + n) (a1, b1) = exchange n (a', b')"
    "coupled a' (sent ?Q1 cs) [] [] b' Qb' rcs' parts'"
    "map (map (seg (nb b'))) (finished rcs' parts') =
      map (map (seg (nb b1))) (finished (finished rcs parts) ys) @ map (map (seg (nb a1))) cs" by blast
  have q: "sent ?Q1 cs = sent Qa (c # cs)" by (auto simp: sent_def)
  have old: "map (map (seg (nb b1))) (finished rcs parts) = map (map (seg (nb b))) (finished rcs parts)"
    using s(6) by (auto intro!: map_cong)
  have "map (map (seg (nb b1))) (finished (finished rcs parts) ys) =
      map (map (seg (nb b))) (finished rcs parts) @ [map (seg (nb a)) c]"
    using s(3,5) old by (simp add: finished_def[of "finished rcs parts"])
  moreover have "map (map (seg (nb a1))) cs = map (map (seg (nb a))) cs" using s(7) by simp
  ultimately have "map (map (seg (nb b'))) (finished rcs' parts') =
      map (map (seg (nb b))) (finished rcs parts) @ map (map (seg (nb a))) (c # cs)" using i(3) by simp
  moreover have "\<forall>n. exchange (length (concat (c # cs)) + n) (a, b) = exchange n (a', b')"
    using s(1) i(1) by (simp add: add.assoc)
  ultimately show ?case using i(2) unfolding q by blast
qed

section \<open>Properties\<close>

text \<open>
  C1. End to end: the sender's transmit queue holds any number of packets, none of them begun, each a chain of
  buffers of at most 128 bytes whose buffers after the first are not empty and which all go back to the free list when
  they are sent (their \<open>mem_dlist\<close> is the free list; the data buffers of TCP, kept for retransmission, are not
  meant); the receiver has a free buffer for each, and no packet under assembly. The other direction is idle: the
  receiver has nothing to send, and the sender has no packet under assembly. Then, with frames transferred as they are and
  nothing else happening at the stations, after one exchange per buffer and one more (blank) exchange, the receiver has
  handed exactly these packets to its stack, in order, segment by segment and with the right total lengths, behind those
  it had handed over before; the sender's queue is empty and all the buffers of its packets are back on its free list.
  No step fails.
\<close>

theorem ifspi_link_delivers:
  assumes "tx_state a Qa pkts []" and "headP a = NU_NULL"
    and "rx_state b Qb rcs []" and "Qb dev_transq = []" and "buf_ptr b = NU_NULL"
    and "length (concat pkts) \<le> length (Qb MEM_Buffer_Freelist)"
  shows "\<exists>a' b' Qb' rcs'. exchange (length (concat pkts) + 1) (a, b) = Some (a', b') \<and>
    pool (nb a') (Qa(dev_transq := [], MEM_Buffer_Freelist := Qa MEM_Buffer_Freelist @ concat pkts)) \<and>
    pool (nb b') Qb' \<and> Qb' MEM_Buffer_List = map hd rcs' \<and> (\<forall>c \<in> set rcs'. delivered (nb b') Qb' c) \<and>
    map (map (seg (nb b'))) rcs' = map (map (seg (nb b))) rcs @ map (map (seg (nb a))) pkts"
proof -
  have "coupled a Qa pkts [] b Qb rcs []" using assms by (simp add: coupled_def)
  from exchange_all[OF this assms(6)] obtain a1 b1 Q1 rcs1 parts1 where s:
    "\<forall>n. exchange (length (concat pkts) + n) (a, b) = exchange n (a1, b1)"
    "coupled a1 (sent Qa pkts) [] [] b1 Q1 rcs1 parts1"
    "map (map (seg (nb b1))) (finished rcs1 parts1) =
      map (map (seg (nb b))) (finished rcs []) @ map (map (seg (nb a))) pkts" by blast
  from exchange_blank[OF s(2)] obtain a' b' Qb' where e:
    "\<forall>n. exchange (Suc n) (a1, b1) = exchange n (a', b')"
    "coupled a' (sent Qa pkts) [] [] b' Qb' (finished rcs1 parts1) []" "\<forall>z. seg (nb b') z = seg (nb b1) z" by blast
  have sg: "seg (nb b') = seg (nb b1)" using e(3) by (simp add: fun_eq_iff)
  have "exchange (length (concat pkts) + 1) (a, b) = Some (a', b')"
    using s(1)[rule_format, of 1] e(1)[rule_format, of 0] by simp
  moreover have "map (map (seg (nb b'))) (finished rcs1 parts1) =
      map (map (seg (nb b))) rcs @ map (map (seg (nb a))) pkts"
    using s(3) unfolding sg by (simp add: finished_def[of rcs])
  moreover have "pool (nb a') (sent Qa pkts)" "rx_state b' Qb' (finished rcs1 parts1) []"
    using e(2) by (simp_all add: coupled_def tx_state_def)
  ultimately show ?thesis
    by (rule_tac x = a' in exI, rule_tac x = b' in exI, rule_tac x = Qb' in exI,
        rule_tac x = "finished rcs1 parts1" in exI) (simp add: sent_def rx_state_def del: fun_upd_apply)
qed

lemma take_buffer_rx:
  assumes rx: "rx_state s Q rcs parts"
  shows "\<exists>Q'. rx_state (take_buffer s) Q' rcs parts \<and>
    (\<forall>a \<in> set (concat rcs @ parts). seg (nb (take_buffer s)) a = seg (nb s) a)"
proof (cases "Q MEM_Buffer_Freelist")
  case Nil
  then have "take_buffer s = s\<lparr>currP := NU_NULL\<rparr>"
    using Dequeue_empty[of "nb s" Q MEM_Buffer_Freelist] rx by (simp add: take_buffer_def rx_state_def)
  then show ?thesis using rx by (auto simp: rx_state_def)
next
  case (Cons x xs)
  have pool: "pool (nb s) Q" using rx by (simp add: rx_state_def)
  from Dequeue_free_eq[OF pool Cons] obtain m where m:
    "MEM_Buffer_Dequeue (Some MEM_Buffer_Freelist) (nb s) = (m, x)"
    "pool m (Q(MEM_Buffer_Freelist := xs))" "nbf m = (nbf (nb s))(x := NU_NULL)" by metis
  have bm: "bufs m = (bufs (nb s))(x := clear_header (bufs (nb s) x))"
    using Dequeue_Cons(3)[OF pool Cons] m(1) by simp
  note xn = rx_free_not_in[OF rx Cons]
  have sg: "seg m a = seg (nb s) a" if "a \<noteq> x" for a using that by (simp add: seg_def bm cong: option.case_cong)
  have dl: "delivered m (Q(MEM_Buffer_Freelist := xs)) c" if "c \<in> set rcs" for c
  proof (rule delivered_frame[where p = x and x = x])
    show "delivered (nb s) Q c" using rx that by (simp add: rx_state_def)
    show "x \<notin> set c" "x \<notin> set c" using xn that by auto
  qed (use pool Cons bm in auto)
  have un: "unlisted a (Q(MEM_Buffer_Freelist := xs))" if "a \<in> set parts" for a
  proof -
    have "unlisted a Q" using rx that by (simp add: rx_state_def)
    then have "a \<notin> set xs" using Cons unfolding unlisted_def by (metis list.set_intros(2))
    then show ?thesis using \<open>unlisted a Q\<close> by (simp add: unlisted_upd)
  qed
  have ps: "psize m parts = psize (nb s) parts" by (rule psize_cong) (use sg xn(2) in metis)
  have pt: "path (nbf m) p parts = path (nbf (nb s)) p parts" for p
    by (rule path_cong) (use m(3) xn(2) in auto)
  have "\<forall>a. IF_SPI_BUF_SIZE \<le> length (packet (bufs m a))"
    using rx by (simp add: rx_state_def bm clear_header_def)
  then have "rx_state (take_buffer s) (Q(MEM_Buffer_Freelist := xs)) rcs parts"
    using rx m(1,2) dl un by (simp add: rx_state_def take_buffer_def ps pt del: fun_upd_apply) simp
  moreover have "seg (nb (take_buffer s)) a = seg (nb s) a" if "a \<in> set (concat rcs @ parts)" for a
    using sg[of a] that xn m(1) by (auto simp: take_buffer_def)
  ultimately show ?thesis by blast
qed

lemma headP_parts: "rx_state s Q rcs parts \<Longrightarrow> headP s \<noteq> NU_NULL \<longleftrightarrow> parts \<noteq> []"
  using path_head[of "nbf (nb s)" "hd parts" parts] by (auto simp: rx_state_def)

text \<open>A frame that cannot be stored: no free buffer, or a length of more than 128.\<close>

lemma handle_FS_reject:
  assumes rx: "rx_state s Q rcs parts" and fs: "frame_len f AND IFSPI_FRAME_FS \<noteq> 0"
    and rej: "Q MEM_Buffer_Freelist = [] \<or> IF_SPI_BUF_SIZE < unat (frame_len f AND IFSPI_DATA_LEN_MASK)"
  shows "\<exists>Q'. rx_state (IFSPI_handle_rx (s\<lparr>rx_frame := f\<rparr>)) Q' (finished rcs parts) [] \<and>
    (\<forall>a \<in> set (concat rcs @ parts). seg (nb (IFSPI_handle_rx (s\<lparr>rx_frame := f\<rparr>))) a = seg (nb s) a)"
proof -
  define s0 where "s0 = s\<lparr>rx_frame := f\<rparr>"
  define s1 where "s1 = (if headP s0 \<noteq> NU_NULL then dispatch s0 else s0)"
  define s2 where "s2 = s1\<lparr>rx_frame := (rx_frame s1)\<lparr>frame_len := frame_len (rx_frame s1) AND IFSPI_DATA_LEN_MASK\<rparr>\<rparr>"
  have rx0: "rx_state s0 Q rcs parts" using rx by (simp add: s0_def)
  have s1: "rx_state s1 (q_finished Q parts) (finished rcs parts) [] \<and> rx_frame s1 = f \<and>
      (\<forall>a. seg (nb s1) a = seg (nb s) a)"
    using rx0 headP_parts[OF rx0] dispatch_rx[OF rx0]
    by (cases "parts = []") (auto simp: s1_def q_finished_def finished_def s0_def)
  then have rx2: "rx_state s2 (q_finished Q parts) (finished rcs parts) []" by (simp add: s2_def)
  have n2: "unat (frame_len (rx_frame (take_buffer s2))) = unat (frame_len f AND IFSPI_DATA_LEN_MASK)"
    using s1 by (simp add: s2_def take_buffer_def case_prod_beta)
  have "currP (take_buffer s2) = NU_NULL" if "Q MEM_Buffer_Freelist = []"
    using Dequeue_empty[of "nb s2" "q_finished Q parts" MEM_Buffer_Freelist] rx2 that
    by (simp add: rx_state_def q_finished_def take_buffer_def)
  then have c: "\<not> (currP (take_buffer s2) \<noteq> NU_NULL \<and> unat (frame_len (rx_frame (take_buffer s2))) \<le> IF_SPI_BUF_SIZE)"
    using rej n2 by auto
  have nz: "frame_len (rx_frame s0) AND IFSPI_FRAME_FS \<noteq> 0" using fs by (simp add: s0_def)
  have "IFSPI_handle_rx s0 = take_buffer s2"
    unfolding IFSPI_handle_rx_def Let_def if_P[OF nz] s1_def[symmetric] s2_def[symmetric] if_not_P[OF c] by (rule refl)
  moreover have "concat (finished rcs parts) = concat rcs @ parts" by (simp add: finished_def)
  moreover have "\<forall>a. seg (nb s2) a = seg (nb s) a" using s1 by (simp add: s2_def)
  ultimately show ?thesis using take_buffer_rx[OF rx2] by (auto simp: s0_def)
qed

lemma handle_cont_reject:
  assumes rx: "rx_state s Q rcs parts" "parts \<noteq> []" and f: "frame_len f AND IFSPI_FRAME_FS = 0" "frame_len f \<noteq> 0"
    and rej: "Q MEM_Buffer_Freelist = [] \<or> IF_SPI_BUF_SIZE < unat (frame_len f)"
  shows "\<exists>Q'. rx_state (IFSPI_handle_rx (s\<lparr>rx_frame := f\<rparr>)) Q' rcs parts \<and>
    (\<forall>a \<in> set (concat rcs @ parts). seg (nb (IFSPI_handle_rx (s\<lparr>rx_frame := f\<rparr>))) a = seg (nb s) a)"
proof -
  define s0 where "s0 = s\<lparr>rx_frame := f\<rparr>"
  have rx0: "rx_state s0 Q rcs parts" using rx by (simp add: s0_def)
  have n2: "unat (frame_len (rx_frame (take_buffer s0))) = unat (frame_len f)"
    by (simp add: s0_def take_buffer_def case_prod_beta)
  have "currP (take_buffer s0) = NU_NULL" if "Q MEM_Buffer_Freelist = []"
    using Dequeue_empty[of "nb s0" Q MEM_Buffer_Freelist] rx0 that by (simp add: rx_state_def take_buffer_def)
  then have c: "\<not> (currP (take_buffer s0) \<noteq> NU_NULL \<and> unat (frame_len (rx_frame (take_buffer s0))) \<le> IF_SPI_BUF_SIZE)"
    using rej n2 by auto
  have "IFSPI_handle_rx s0 = take_buffer s0"
    unfolding IFSPI_handle_rx_def Let_def if_not_P[OF c] using f rx headP_parts[OF rx0] by (simp add: s0_def)
  then show ?thesis using take_buffer_rx[OF rx0] by (auto simp: s0_def)
qed

text \<open>What every frame leaves as it was, however the packet under assembly goes on.\<close>

lemma kept_finished:
  assumes "rx_state t Q' (finished rcs parts) parts'" "\<forall>a \<in> set (concat rcs @ parts). seg (nb t) a = seg (nb s) a"
  shows "\<exists>Q' new parts'. rx_state t Q' (rcs @ new) parts' \<and>
    (new = [] \<and> take (length parts) parts' = parts \<or> new = [parts] \<and> parts \<noteq> []) \<and>
    (\<forall>a \<in> set (concat rcs @ parts). seg (nb t) a = seg (nb s) a)"
proof -
  define new where "new = (if parts = [] then [] else [parts])"
  have "rx_state t Q' (rcs @ new) parts'" using assms(1) by (simp add: new_def finished_def split: if_splits)
  moreover have "new = [] \<and> take (length parts) parts' = parts \<or> new = [parts] \<and> parts \<noteq> []" by (simp add: new_def)
  ultimately show ?thesis using assms(2) by blast
qed

lemma kept_same:
  assumes "rx_state t Q' rcs (parts @ ys)" "\<forall>a \<in> set (concat rcs @ parts). seg (nb t) a = seg (nb s) a"
  shows "\<exists>Q' new parts'. rx_state t Q' (rcs @ new) parts' \<and>
    (new = [] \<and> take (length parts) parts' = parts \<or> new = [parts] \<and> parts \<noteq> []) \<and>
    (\<forall>a \<in> set (concat rcs @ parts). seg (nb t) a = seg (nb s) a)"
proof -
  have "rx_state t Q' (rcs @ []) (parts @ ys)" "take (length parts) (parts @ ys) = parts" using assms(1) by simp_all
  then show ?thesis using assms(2) by blast
qed

text \<open>
  C37. Whatever frame comes in, of whatever length field and content (the data array has its 128 bytes),
  the receive path keeps its invariant: the buffer lists stay well formed, packets already handed to the
  stack (\<open>rcs\<close>) are still handed over, with the same buffers, bytes and total lengths, and behind them at
  most the packet that was under assembly is added, as a whole; otherwise that packet stays under assembly
  with its buffers and their bytes, as a chain of buffers that are on no list. The frame may be lost.
\<close>

theorem IFSPI_handle_rx_safe:
  assumes rx: "rx_state s Q rcs parts" and len: "length (frame_data f) = IF_SPI_BUF_SIZE"
  shows "\<exists>Q' new parts'. rx_state (IFSPI_handle_rx (s\<lparr>rx_frame := f\<rparr>)) Q' (rcs @ new) parts' \<and>
    (new = [] \<and> take (length parts) parts' = parts \<or> new = [parts] \<and> parts \<noteq> []) \<and>
    (\<forall>a \<in> set (concat rcs @ parts). seg (nb (IFSPI_handle_rx (s\<lparr>rx_frame := f\<rparr>))) a = seg (nb s) a)"
proof -
  define n where "n = unat (frame_len f AND IFSPI_DATA_LEN_MASK)"
  define k where "k = unat (frame_len f)"
  have dn: "length (take j (frame_data f)) = j" if "j \<le> IF_SPI_BUF_SIZE" for j using len that by simp
  consider (blank) "frame_len f = 0"
    | (idle) "frame_len f AND IFSPI_FRAME_FS = 0" "parts = []"
    | (FS_rej) "frame_len f AND IFSPI_FRAME_FS \<noteq> 0" "Q MEM_Buffer_Freelist = [] \<or> IF_SPI_BUF_SIZE < n"
    | (cont_rej) "frame_len f AND IFSPI_FRAME_FS = 0" "parts \<noteq> []" "frame_len f \<noteq> 0"
        "Q MEM_Buffer_Freelist = [] \<or> IF_SPI_BUF_SIZE < k"
    | (FS) x xs where "frame_len f AND IFSPI_FRAME_FS \<noteq> 0" "n \<le> IF_SPI_BUF_SIZE" "Q MEM_Buffer_Freelist = x # xs"
    | (cont) x xs where "frame_len f AND IFSPI_FRAME_FS = 0" "parts \<noteq> []" "frame_len f \<noteq> 0" "k \<le> IF_SPI_BUF_SIZE"
        "Q MEM_Buffer_Freelist = x # xs"
    by (metis list.exhaust linorder_not_less)
  then show ?thesis
  proof cases
    case FS
    have "\<forall>a \<in> set (concat rcs @ parts). a \<noteq> x" using rx_free_not_in[OF rx FS(3)] by auto
    then show ?thesis
      using handle_FS[OF rx FS(3,1), of "take n (frame_data f)"] dn[of n] FS(2)
      by (intro kept_finished) (auto simp: n_def simp del: fun_upd_apply)
  next
    case cont
    have "\<forall>a \<in> set (concat rcs @ parts). a \<noteq> x" using rx_free_not_in[OF rx cont(5)] by auto
    moreover have "k \<noteq> 0" using cont(3) by (simp add: k_def unat_eq_0)
    then have "take k (frame_data f) \<noteq> []" using len by (auto simp: IF_SPI_BUF_SIZE_def)
    moreover have "carries f 0 (take k (frame_data f))" using cont(4) dn[of k] by (simp add: carries_def k_def)
    ultimately show ?thesis using handle_cont[OF rx cont(2,5)] by (intro kept_same) blast+
  next
    case idle
    then show ?thesis using rx headP_parts[OF rx]
      by (intro kept_same[where ys = "[]"]) (auto simp: IFSPI_handle_rx_def)
  next
    case FS_rej
    from handle_FS_reject[OF rx FS_rej(1) FS_rej(2)[unfolded n_def]] show ?thesis by (elim exE conjE) (rule kept_finished)
  next
    case cont_rej
    from handle_cont_reject[OF rx cont_rej(2,1,3) cont_rej(4)[unfolded k_def]]
    show ?thesis by (elim exE conjE) (rule kept_same[where ys = "[]"], simp_all only: append_Nil2)
  next
    case blank
    from handle_blank[OF rx blank] show ?thesis by (elim conjE) (rule kept_finished, simp_all)
  qed
qed

text \<open>
  A buffer with more than 128 bytes of data is not split: the frame carries its first 128 bytes, its
  length is overwritten by 128, and transmission goes on with the next buffer, so the rest of the data is
  lost. Buffers behind the first of a chain hold up to 156 bytes.
\<close>

theorem ifspi_truncates_long_buffer:
  assumes "buf_ptr s = b" "b \<noteq> NU_NULL"
    and "data_ptr (bufs (nb s) b) = Some off" "IF_SPI_BUF_SIZE < data_len (bufs (nb s) b)"
    and "off + data_len (bufs (nb s) b) \<le> length (packet (bufs (nb s) b))" "next_buffer (bufs (nb s) b) \<noteq> NU_NULL"
  shows "\<exists>s'. IFSPI_prepare_tx s = Some s' \<and>
    carries (tx_frame s') 0 (take IF_SPI_BUF_SIZE (drop off (packet (bufs (nb s) b)))) \<and>
    buf_ptr s' = next_buffer (bufs (nb s) b) \<and> data_len (bufs (nb s') b) = IF_SPI_BUF_SIZE"
  using assms
  by (simp add: IFSPI_prepare_tx_def load_segment_def Let_def carries_def memcpy_def)

text \<open>The task's loop, for a sequence of received frames.\<close>

fun ifspi_run :: "if_spi_frame list \<Rightarrow> ifspi \<Rightarrow> ifspi option" where
  "ifspi_run [] s = Some s"
| "ifspi_run (f # fs) s = IFSPI_iteration f s \<bind> (\<lambda>(s', _). ifspi_run fs s')"

text \<open>
  A buffer without data behind the first one of a packet stops the interface: every iteration sends a
  blank frame, the buffer stays current and the transmit queue never moves, however long the link runs.
\<close>

theorem ifspi_stalls_on_empty_buffer:
  assumes "buf_ptr s \<noteq> NU_NULL" "data_len (bufs (nb s) (buf_ptr s)) = 0" "headP s = NU_NULL"
    and "\<forall>f \<in> set fs. frame_len f = 0"
  shows "\<exists>s'. ifspi_run fs s = Some s' \<and> nb s' = nb s \<and> buf_ptr s' = buf_ptr s \<and>
    dev_transq_length s' = dev_transq_length s"
  using assms
proof (induction fs arbitrary: s)
  case (Cons f fs)
  define s1 where "s1 = (blank_frame (s\<lparr>tx_frame := (tx_frame s)\<lparr>sof := IFSPI_FRAME_SOF, eof := IFSPI_FRAME_EOF\<rparr>\<rparr>))
     \<lparr>rx_frame := f\<rparr>"
  have s1: "nb s1 = nb s" "buf_ptr s1 = buf_ptr s" "headP s1 = headP s" "dev_transq_length s1 = dev_transq_length s"
    by (simp_all add: s1_def blank_frame_def)
  have "IFSPI_iteration f s = Some (s1, spi_dev_ctrl s = SPI_CFG_DEV_MASTER)"
    using Cons.prems by (simp add: IFSPI_iteration_def IFSPI_prepare_tx_def Let_def IFSPI_handle_rx_def s1_def blank_frame_def)
  then show ?case using Cons.IH[of s1] Cons.prems s1 by simp
qed simp

text \<open>
  A first frame whose length field is above 128 costs a buffer: the buffer taken from the free list is
  on no list afterwards and no packet under assembly refers to it.
\<close>

theorem ifspi_leaks_on_long_frame:
  assumes "pool (nb s) Q" "Q MEM_Buffer_Freelist = x # xs" "headP s = NU_NULL"
    and "frame_len f AND IFSPI_FRAME_FS \<noteq> 0" "IF_SPI_BUF_SIZE < unat (frame_len f AND IFSPI_DATA_LEN_MASK)"
  shows "pool (nb (IFSPI_handle_rx (s\<lparr>rx_frame := f\<rparr>))) (Q(MEM_Buffer_Freelist := xs)) \<and>
    (\<forall>h. x \<notin> set ((Q(MEM_Buffer_Freelist := xs)) h)) \<and> headP (IFSPI_handle_rx (s\<lparr>rx_frame := f\<rparr>)) = NU_NULL"
proof -
  from Dequeue_free_eq[OF assms(1,2)] obtain m where m:
    "MEM_Buffer_Dequeue (Some MEM_Buffer_Freelist) (nb s) = (m, x)"
    "pool m (Q(MEM_Buffer_Freelist := xs))" "unlisted x (Q(MEM_Buffer_Freelist := xs))" by metis
  have "nb (IFSPI_handle_rx (s\<lparr>rx_frame := f\<rparr>)) = m" "headP (IFSPI_handle_rx (s\<lparr>rx_frame := f\<rparr>)) = NU_NULL"
    using assms(3-5) m(1) by (simp_all add: IFSPI_handle_rx_def Let_def take_buffer_def)
  then show ?thesis using m(2,3) unfolding unlisted_def by blast
qed

section \<open>A concrete link\<close>

definition frame0 :: if_spi_frame where
  "frame0 = \<lparr>sof = 0, frame_len = 0, frame_data = replicate 128 0, eof = 0\<rparr>"

text \<open>A packet of two buffers, 64 and 96, in the transmit queue of the sender.\<close>

definition segment0 :: "byte list \<Rightarrow> addr \<Rightarrow> net_buffer" where
  "segment0 d a = buffer0\<lparr>packet := d @ replicate (156 - length d) 0, data_ptr := Some 0, data_len := length d,
     next_buffer := a, mem_dlist := Some MEM_Buffer_Freelist\<rparr>"

definition sender_mem :: mem where
  "sender_mem = MEM_Buffer_Enqueue (Some dev_transq) 64
     (upd_buf (\<lambda>_. segment0 [1, 2, 3] 96) 64 (upd_buf (\<lambda>_. segment0 [4] NU_NULL) 96 mem1))"

definition sender_queues :: queues where
  "sender_queues = pool0(dev_transq := [64])"

definition station0 :: ifspi where
  "station0 = \<lparr>nb = mem1, device = 1, dev_transq_length = 0, spi_dev_ctrl = SPI_CFG_DEV_SLAVE, tx_frame = frame0,
     rx_frame = frame0, buf_ptr = NU_NULL, headP = NU_NULL, prevP = NU_NULL, currP = NU_NULL, pktSize = 0,
     Buffers_Available = 0\<rparr>"

definition sender0 :: ifspi where
  "sender0 = station0\<lparr>nb := sender_mem, dev_transq_length := 1, spi_dev_ctrl := SPI_CFG_DEV_MASTER\<rparr>"

lemma outside_pool0: "a < 4096 \<Longrightarrow> unlisted a pool0"
  unfolding unlisted_def
proof
  fix h assume "a < 4096"
  then show "a \<notin> set (pool0 h)" by (cases "h = MEM_Buffer_Freelist") (auto simp: pool0_free alloc0_def)
qed

lemma pool_sender: "pool sender_mem sender_queues"
proof -
  have "pool (upd_buf (\<lambda>_. segment0 [1, 2, 3] 96) 64 (upd_buf (\<lambda>_. segment0 [4] NU_NULL) 96 mem1)) pool0"
    by (intro pool_upd_unlisted pool_mem1 outside_pool0) simp_all
  then have "pool sender_mem (pool0(dev_transq := pool0 dev_transq @ [64]))"
    unfolding sender_mem_def by (rule Enqueue_pool) (simp_all add: outside_pool0)
  then show ?thesis by (simp only: sender_queues_def pool0_other append_Nil buffer_header.distinct simp_thms)
qed

lemma sender_fields [simp]:
  "next_buffer (bufs sender_mem 64) = 96" "next_buffer (bufs sender_mem 96) = NU_NULL"
  "data_ptr (bufs sender_mem 64) = Some 0" "data_ptr (bufs sender_mem 96) = Some 0"
  "data_len (bufs sender_mem 64) = 3" "data_len (bufs sender_mem 96) = 1"
  "packet (bufs sender_mem 64) = [1, 2, 3] @ replicate 153 0" "packet (bufs sender_mem 96) = [4] @ replicate 155 0"
  "mem_dlist (bufs sender_mem 64) = Some MEM_Buffer_Freelist" "mem_dlist (bufs sender_mem 96) = Some MEM_Buffer_Freelist"
  by (simp_all add: sender_mem_def segment0_def)

lemma tx_sender0: "tx_state sender0 sender_queues [[64, 96]] []"
proof -
  have "chain_ok sender_mem [64, 96]"
    by (simp add: chain_ok_def nbf_def freeable_def good_buf_def IF_SPI_BUF_SIZE_def)
  moreover have "unlisted 96 sender_queues" using outside_pool0[of 96] by (simp add: unlisted_def sender_queues_def)
  ultimately show ?thesis using pool_sender by (simp add: tx_state_def sender0_def station0_def sender_queues_def)
qed

lemma rx_station0: "rx_state station0 pool0 [] []"
  using pool_mem1 by (simp add: rx_state_def station0_def mem1_def mem0_def buffer0_def IF_SPI_BUF_SIZE_def)

theorem ifspi_link_delivers_witness:
  "\<exists>a' b' Qb' rcs'. exchange 3 (sender0, station0) = Some (a', b') \<and> pool (nb b') Qb' \<and>
     Qb' MEM_Buffer_List = map hd rcs' \<and> map (map (seg (nb b'))) rcs' = [[[1, 2, 3], [4]]]"
proof -
  have sg: "seg (nb sender0) 64 = [1, 2, 3]" "seg (nb sender0) 96 = [4]"
    by (simp_all add: seg_def sender0_def)
  have l: "length (concat [[64 :: addr, 96]]) \<le> length (pool0 MEM_Buffer_Freelist)" by (simp add: pool0_free)
  have i: "headP sender0 = NU_NULL" "pool0 dev_transq = []" "buf_ptr station0 = NU_NULL"
    by (simp_all add: sender0_def station0_def)
  have n: "length (concat [[64 :: addr, 96]]) + 1 = 3" by simp
  from ifspi_link_delivers[OF tx_sender0 i(1) rx_station0 i(2,3) l, unfolded n]
  obtain a' b' Qb' rcs' where "exchange 3 (sender0, station0) = Some (a', b')" "pool (nb b') Qb'"
    "Qb' MEM_Buffer_List = map hd rcs'"
    "map (map (seg (nb b'))) rcs' = map (map (seg (nb station0))) [] @ map (map (seg (nb sender0))) [[64, 96]]" by blast
  moreover have "map (map (seg (nb station0))) [] @ map (map (seg (nb sender0))) [[64, 96]] = [[[1, 2, 3], [4]]]"
    using sg by simp
  ultimately show ?thesis by metis
qed

theorem IFSPI_handle_rx_safe_witness:
  "\<exists>Q' parts'. rx_state (IFSPI_handle_rx (station0\<lparr>rx_frame := frame0\<lparr>frame_len := 0xFFFF\<rparr>\<rparr>)) Q' [] parts'"
  using IFSPI_handle_rx_safe[OF rx_station0, of "frame0\<lparr>frame_len := 0xFFFF\<rparr>"]
  by (auto simp: frame0_def IF_SPI_BUF_SIZE_def)

theorem ifspi_leaks_on_long_frame_witness:
  "pool (nb (IFSPI_handle_rx (station0\<lparr>rx_frame := frame0\<lparr>frame_len := 0x8200\<rparr>\<rparr>)))
     (pool0(MEM_Buffer_Freelist := map alloc0 [1..<50]))"
proof -
  have f: "pool0 MEM_Buffer_Freelist = alloc0 0 # map alloc0 [1..<50]" unfolding pool0_free by (simp add: upt_conv_Cons)
  show ?thesis
    using ifspi_leaks_on_long_frame[of station0 pool0 "alloc0 0" _ "frame0\<lparr>frame_len := 0x8200\<rparr>", OF _ f] pool_mem1
    by (simp add: station0_def IFSPI_FRAME_FS_def IFSPI_DATA_LEN_MASK_def IF_SPI_BUF_SIZE_def del: fun_upd_apply)
qed

text \<open>A sender in the middle of a packet whose current buffer has 150 bytes, or none.\<close>

definition middle0 :: "byte list \<Rightarrow> ifspi" where
  "middle0 d = station0\<lparr>nb := upd_buf (\<lambda>_. segment0 d 96) 64 (mem1\<lparr>hd_of := (hd_of mem1)(dev_transq := 64)\<rparr>), buf_ptr := 64\<rparr>"

theorem ifspi_truncates_long_buffer_witness:
  "\<exists>s'. IFSPI_prepare_tx (middle0 (replicate 150 7)) = Some s' \<and> frame_len (tx_frame s') = 128 \<and> buf_ptr s' = 96"
  using ifspi_truncates_long_buffer[of "middle0 (replicate 150 7)" 64 0]
  by (auto simp: middle0_def segment0_def IF_SPI_BUF_SIZE_def carries_def)

theorem ifspi_stalls_on_empty_buffer_witness:
  "\<exists>s'. ifspi_run (replicate 1000 frame0) (middle0 []) = Some s' \<and> buf_ptr s' = 64"
  using ifspi_stalls_on_empty_buffer[of "middle0 []" "replicate 1000 frame0"]
  by (auto simp: middle0_def segment0_def station0_def frame0_def buffer0_def)

end
