(* ===== verification/Spec2Isabelle.thy ===== *)
theory Spec2Isabelle
  imports Timer_Services Queue_Services Event_Groups Semaphore_Services Task_Properties HISR_Properties Memory_Properties Ifspi
begin

text \<open>
  \<^bold>\<open>The Ethernet/SPI bridge: a verification library\<close>

  The program is a bridge between an Ethernet network and an SPI link, built on the Nucleus RTOS for a
  STM32F429 board. Network packets are carried over SPI by the driver \<open>ifspi_tgt.c\<close>, which takes packets from
  and hands packets to the buffer lists of the network stack; the driver task and the stack run on the
  kernel, which schedules tasks, keeps timers and lets tasks wait on objects such as message queues. This
  library models these layers from the bottom up. Paths below are relative to \<open>src/iar_bsp\<close>; the kernel
  sources are under \<open>os/kernel/plus/core/src\<close>.

  \<^bold>\<open>Theories\<close>

  \<^item> \<open>Prelude\<close>: 32-bit arithmetic on naturals (\<open>inc32\<close>, \<open>add32\<close>, ...), status and suspension codes, the error-check
    macro, list readings of the ring operations.
  \<^item> \<open>Common_Services\<close> (\<open>csc_common.c\<close>): the doubly linked rings used for every list of waiting tasks, in a store
    of nodes with explicit pointers. The locales \<open>cs_list\<close> and \<open>cs_priority_list\<close> state the list interface and are
    interpreted on the services (\<open>csl\<close>). Later theories use lists in place of rings on this ground.
  \<^item> \<open>Timer\<close> (\<open>tmc_common.c\<close>, \<open>tmct_common.c\<close>): the active timers as a list of differences with a count-down
    register; starting and stopping timers, ticks, and the 64-bit system clock. The abstract view is \<open>expiry\<close>, the
    number of ticks until a timer expires.
  \<^item> \<open>Thread_Control\<close> (\<open>tcc_common.c\<close>, \<open>tcs_*.c\<close>, \<open>tcc_*.c\<close>, \<open>tcd.c\<close>): task control blocks, ready lists, the two-level
    priority bit map with its table, resuming and suspending tasks, time-outs, time slices, priorities, preemption.
  \<^item> \<open>Scheduler\<close>: the invariant \<open>sched_inv\<close> of thread control, the step relation \<open>kstep\<close> with the reachable states, and
    the interface \<open>thread_services\<close> (locale, interpreted as \<open>tc\<close>) on which the objects with waiting tasks rely.
  \<^item> \<open>Timer_Services\<close> (\<open>tmc_common.c\<close>, \<open>TMCT_Timer_Interrupt\<close>, \<open>tms_*.c\<close>, \<open>tmf_remaining.c\<close>): the clock interrupt, the timer HISR
    with the processing of expired timers, and application timers. A tick is the interrupt followed by the HISR when it is
    activated; the invariant \<open>tsys_inv\<close> is kept by every step of \<open>tstep\<close>. Expiration routines and clean-up routines
    are parameters acting on the state of their client, not on the kernel.
  \<^item> \<open>Queue\<close> and \<open>Queue_Services\<close> (\<open>quc_common.c\<close>, \<open>quc_delete.c\<close>, \<open>qus_*.c\<close>): message queues. \<open>Queue\<close> has the control
    blocks, the circular area at word level and every service, and refines the area to a list of messages
    (\<open>q_rep\<close>); \<open>Queue_Services\<close> has the effect of each service on messages and waiting tasks, errors and time-outs.
    The locale \<open>bounded_fifo\<close> is interpreted on the services (\<open>mq\<close>).
  \<^item> \<open>Event_Groups\<close> (\<open>evc_common.c\<close>, \<open>evc_delete.c\<close>): 32 event flags with tasks waiting for any or all of a set. The invariant
    \<open>ev_inv\<close>, kept by every step of \<open>estep\<close>, says that no task waits for events that are present.
  \<^item> \<open>Semaphores\<close> and \<open>Semaphore_Services\<close> (\<open>smc_common.c\<close>, \<open>smc_delete.c\<close>, \<open>sms_reset.c\<close>): counting semaphores and semaphores
    with priority inheritance. \<open>Semaphores\<close> has the services, the invariant \<open>sem_inv\<close> and the step relation \<open>sstep\<close>;
    \<open>Semaphore_Services\<close> has the effect of the services and what inheritance achieves and where it fails.
  \<^item> \<open>Tasks\<close> (\<open>tcct_create.c\<close>, \<open>tcct_reset_task.c\<close>, \<open>tcc_terminate.c\<close>, \<open>tcc_delete_task.c\<close>, \<open>tcs_group.c\<close>, \<open>tcs_signal.c\<close>,
    \<open>tcst_signal.c\<close>, \<open>tcc_signal.c\<close>, \<open>tcct_signal.c\<close>): the life of a task from creation to deletion, and signals, on the state of the
    semaphores and of thread control (\<open>lsys\<close>). Stack frames are made by a parameter (\<open>target\<close>), signal handlers and
    clean-up routines of other components are parameters or recorded calls. \<open>Task_Signals\<close> shows that a signal interrupts a
    suspension and restores it, and where it does not; \<open>Task_Lifecycle\<close> has the invariant \<open>linv\<close> of the lists of tasks and shows
    that every service keeps it; \<open>Task_Properties\<close> has the step relation \<open>lstep\<close>, the effect of creation and termination,
    and what the services leave behind of a task.
  \<^item> \<open>HISR_Scheduling\<close> (\<open>tcct_common.c\<close>, \<open>tcct_create.c\<close>, \<open>tcc_delete_hisr.c\<close>): high-level interrupt service routines, their
    chains of pointers with head and tail, activation, the execution shell, and the choice of the next thread. The
    entry functions are a parameter on the whole state, so that an interrupt during one of them is part of it.
    \<open>HISR_Properties\<close> has the step relation \<open>hisr_step\<close> with the invariant \<open>hisr_inv\<close>, and shows that every activation is
    served once and in order, when the entry functions activate nothing, and what happens when one does.
  \<^item> \<open>Dynamic_Memory\<close> (\<open>dmc_*.c\<close>): dynamic memory pools, the headers in front of the blocks in a store, every link written
    in the order of the code. \<open>Memory_Blocks\<close> has the block structure (\<open>tiles\<close>: the blocks cover the memory of a pool
    without gap or overlap; \<open>free_ring\<close>: the second ring has exactly the free blocks; \<open>pool_ok\<close>), \<open>Memory_Allocation\<close> the
    correctness of \<open>DMC_Allocate\<close> and \<open>DMC_Deallocate\<close> against it, \<open>Memory_Services\<close> the services with waiting tasks and the
    invariant \<open>mem_inv\<close>, \<open>Memory_Safety\<close> the step relation \<open>mstep\<close> that also records which bytes the application holds,
    \<open>Memory_Properties\<close> the properties. Pools have at most 1 GB, lie below the last 128 bytes of the address space, and
    requests have an alignment of at most 40: up to that bound the search for an aligned block is sound, above it a
    theorem shows an allocation outside its pool.
  \<^item> \<open>Net_Buffers\<close> (\<open>os/networking/net/src/mem.c\<close>, \<open>mem_bcd.c\<close>, \<open>mem_bi.c\<close>): network buffers in a store, their lists with
    head and tail pointers, chains, the pool. The locale \<open>buffer_queues\<close> is interpreted on enqueue and dequeue (\<open>nbq\<close>).
  \<^item> \<open>Ifspi\<close> (\<open>bsp/iar_stm32f429ii_sk/drivers/ifspi/ifspi_tgt.c\<close>, \<open>dev.c\<close>): the driver task, one iteration of its loop as
    preparation of the frame to send, the transfer, and handling of the received frame; two drivers coupled by
    the link.

  \<^bold>\<open>Conventions\<close>

  Pointers are natural numbers with 0 for \<open>NU_NULL\<close>, into stores that are functions; structures are records with
  the field names of the source. Unsigned 32-bit counters are naturals with the wrap-around written out where the
  code can wrap, bit maps and data are words of their width; where a signed 32-bit value can overflow, \<open>int32\<close> wraps it. A call that suspends its task returns no status: the
  status is in its suspension block when it runs again. A flag in the result of a service tells whether control is
  given to the system. Loops over linked structures that need not end are partial functions into the option
  type, and the theorems state that they return. Scheduling locks, interrupt locks, trace macros and
  supervisor/user mode switches do not change the modelled state and are left out: each service is one step.
  The configuration of the project is fixed where it matters: 256 priorities, 128-byte buffers, 50 of them,
  error checking on.

  \<^bold>\<open>Limits of the invariants\<close>

  The invariants of the components hold along their step relations, whose rules name the limits: while a task is on the
  list of a semaphore, an event group or a memory pool, the rest of the kernel leaves its suspension as it is, so no
  signal is sent to it (it would be ready while on the list; the clean-up for a terminated task would not run,
  \<open>terminate_in_handler_loses_unit\<close>). Fewer than 255 semaphores are owned by one task, since their count has 8 bits. The
  theorems about exact times hold while the clock runs regularly (\<open>steady\<close>, \<open>running\<close>): no entry of the list of timers has
  expired or was started with the time 0. Signal handlers that end while tasks of a priority of 64 or more are ready
  break the scheduler's invariant (\<open>signal_exit_loses_ready_tasks\<close>). Requests for memory have alignments of at most 40.

  \<^bold>\<open>What is not modelled\<close>

  The network stack above its buffers, the web server and its plug-ins, storage, security and USB middleware are
  vendored components around the bridge; board support code and assembler are hardware access. Mailboxes, pipes
  and partition pools are not part of the core kernel; the debug services and the read-only information services
  are not modelled.
\<close>

end
